(* ===== verification/ConfigNames.thy ===== *)
theory ConfigNames
  imports Prelude
begin

text \<open>
  Names of models in a loaded configuration: \<open>RealModelName\<close> and \<open>ResolveBaseModel\<close> of
  \<open>internal/config/config.go\<close>, \<open>ResolvePeerModel\<close> and \<open>ValidatePeerNamespace\<close> of
  \<open>internal/config/peer.go\<close>. The configuration's maps are association lists in some iteration order.
\<close>

record names =
  na_models :: "(string \<times> string list) list"
  na_aliases :: "(string \<times> string) list"
  na_selectors :: "string list"
  na_pins :: "(string \<times> string list) list"
  na_peers :: "(string \<times> string list) list"

definition real_model_name :: "names \<Rightarrow> string \<Rightarrow> string option" where
  "real_model_name c search =
     (if map_of (na_models c) search \<noteq> None then Some search else map_of (na_aliases c) search)"

definition peer_model_fqn :: "string \<Rightarrow> string \<Rightarrow> string" where
  "peer_model_fqn p m = p @ ''/'' @ m"

text \<open>The pairs of a peer and one of its models, in the order the two loops visit them.\<close>

definition peer_models :: "names \<Rightarrow> (string \<times> string) list" where
  "peer_models c = concat (map (\<lambda>(p, ms). map (Pair p) (remdups ms)) (na_peers c))"

text \<open>
  One of the two searches of \<open>ResolvePeerModel\<close>: the accumulator is what has been found; a second,
  different match ends the search with the ambiguity \<open>Inl ()\<close>.
\<close>

definition match_peer :: "('a \<Rightarrow> bool) \<Rightarrow> 'a \<Rightarrow> 'a option \<Rightarrow> unit + 'a option" where
  "match_peer hit pm found =
     (if \<not> hit pm then Inr found
      else case found of
        Some q \<Rightarrow> if q \<noteq> pm then Inl () else Inr (Some pm)
      | None \<Rightarrow> Inr (Some pm))"

definition resolve_peer_model :: "names \<Rightarrow> string \<Rightarrow> (string \<times> string) option" where
  "resolve_peer_model c search =
     (case foldE (match_peer (\<lambda>(p, m). peer_model_fqn p m = search)) (peer_models c) None of
        Inl u \<Rightarrow> None
      | Inr (Some q) \<Rightarrow> Some q
      | Inr None \<Rightarrow>
          (case foldE (match_peer (\<lambda>(p, m). m = search)) (peer_models c) None of
             Inl u \<Rightarrow> None | Inr r \<Rightarrow> r))"

definition resolve_base_model :: "names \<Rightarrow> string \<Rightarrow> string option" where
  "resolve_base_model c search =
     (case real_model_name c search of
        Some r \<Rightarrow> Some r
      | None \<Rightarrow> if resolve_peer_model c search \<noteq> None then Some search else None)"

datatype namespace_error =
    AmbiguousFqn string
  | ModelIdConflict string
  | AliasConflict string string
  | SelectorConflict string
  | PinConflict string string

definition add_fqn :: "string \<times> string \<Rightarrow> string list \<Rightarrow> namespace_error + string list" where
  "add_fqn pm fqns =
     (let fqn = peer_model_fqn (fst pm) (snd pm) in
      if fqn \<in> set fqns then Inl (AmbiguousFqn fqn) else Inr (fqn # fqns))"

definition check_reserved :: "names \<Rightarrow> string \<Rightarrow> unit \<Rightarrow> namespace_error + unit" where
  "check_reserved c fqn u =
     (if map_of (na_models c) fqn \<noteq> None then Inl (ModelIdConflict fqn)
      else case find (\<lambda>(m, als). fqn \<in> set als) (na_models c) of
        Some (m, als) \<Rightarrow> Inl (AliasConflict m fqn)
      | None \<Rightarrow>
          if map_of (na_aliases c) fqn \<noteq> None then Inl (AliasConflict [] fqn)
          else if fqn \<in> set (na_selectors c) then Inl (SelectorConflict fqn)
          else (case find (\<lambda>(p, pins). fqn \<in> set pins) (na_pins c) of
              Some (p, pins) \<Rightarrow> Inl (PinConflict p fqn)
            | None \<Rightarrow> Inr ()))"

definition validate_peer_namespace :: "names \<Rightarrow> namespace_error + unit" where
  "validate_peer_namespace c =
     (let sorted_models = concat (map (\<lambda>p. map (Pair p) (remdups (the (map_of (na_peers c) p)))) (sort (map fst (na_peers c)))) in
      bindE (foldE add_fqn sorted_models []) (\<lambda>fqns.
        foldE (check_reserved c) (sort fqns) ()))"

section \<open>Facts\<close>

lemma match_peer_some:
  "foldE (match_peer hit) pms (Some q) = (if \<forall>r \<in> set pms. hit r \<longrightarrow> r = q then Inr (Some q) else Inl ())"
proof (induction pms)
  case (Cons pm pms)
  have "match_peer hit pm (Some q) = (if hit pm \<and> q \<noteq> pm then Inl () else Inr (Some q))"
    by (auto simp: match_peer_def)
  with Cons.IH show ?case by auto
qed simp

lemma match_peer_none:
  "foldE (match_peer hit) pms None =
    (if \<forall>r \<in> set pms. \<not> hit r then Inr None
     else if \<exists>q \<in> set pms. \<forall>r \<in> set pms. hit r \<longleftrightarrow> r = q then Inr (Some (THE q. q \<in> set pms \<and> hit q)) else Inl ())"
proof (induction pms)
  case (Cons pm pms)
  show ?case
  proof (cases "hit pm")
    case False
    then have "foldE (match_peer hit) (pm # pms) None = foldE (match_peer hit) pms None" by (simp add: match_peer_def)
    moreover have "(THE q. q \<in> set (pm # pms) \<and> hit q) = (THE q. q \<in> set pms \<and> hit q)"
      using False by (metis set_ConsD list.set_intros(2))
    moreover have "(\<exists>q \<in> set (pm # pms). \<forall>r \<in> set (pm # pms). hit r \<longleftrightarrow> r = q) \<longleftrightarrow> (\<exists>q \<in> set pms. \<forall>r \<in> set pms. hit r \<longleftrightarrow> r = q)"
      using False by (metis set_ConsD list.set_intros)
    ultimately show ?thesis using Cons.IH False by simp
  next
    case True
    then have "foldE (match_peer hit) (pm # pms) None = foldE (match_peer hit) pms (Some pm)" by (simp add: match_peer_def)
    moreover have "(\<exists>q \<in> set (pm # pms). \<forall>r \<in> set (pm # pms). hit r \<longleftrightarrow> r = q) \<longleftrightarrow> (\<forall>r \<in> set pms. hit r \<longrightarrow> r = pm)"
      using True by (metis set_ConsD list.set_intros)
    moreover have "(THE q. q \<in> set (pm # pms) \<and> hit q) = pm" if "\<forall>r \<in> set pms. hit r \<longrightarrow> r = pm"
      using that True by auto
    ultimately show ?thesis using True by (simp add: match_peer_some)
  qed
qed simp

lemma match_peer_unique:
  "foldE (match_peer hit) pms None = Inr (Some q) \<longleftrightarrow> (\<forall>r. r \<in> set pms \<and> hit r \<longleftrightarrow> r = q)"
proof
  assume l: "foldE (match_peer hit) pms None = Inr (Some q)"
  then obtain q' where q': "q' \<in> set pms" "\<forall>r \<in> set pms. hit r \<longleftrightarrow> r = q'"
    by (auto simp: match_peer_none split: if_splits)
  then have "(THE q. q \<in> set pms \<and> hit q) = q'" by (intro the_equality) auto
  moreover have "q = (THE q. q \<in> set pms \<and> hit q)" using l by (simp add: match_peer_none split: if_splits)
  ultimately show "\<forall>r. r \<in> set pms \<and> hit r \<longleftrightarrow> r = q" using q' by auto
next
  assume r: "\<forall>r. r \<in> set pms \<and> hit r \<longleftrightarrow> r = q"
  then have "(THE q. q \<in> set pms \<and> hit q) = q" by simp
  with r show "foldE (match_peer hit) pms None = Inr (Some q)" by (auto simp: match_peer_none)
qed

lemma match_peer_no:
  "foldE (match_peer hit) pms None = Inr None \<longleftrightarrow> (\<forall>r \<in> set pms. \<not> hit r)"
  by (simp add: match_peer_none)

lemma set_peer_models:
  "set (peer_models c) = {(p, m). \<exists>ms. (p, ms) \<in> set (na_peers c) \<and> m \<in> set ms}"
  by (auto simp: peer_models_def)

abbreviation fqn_of :: "string \<times> string \<Rightarrow> string" where
  "fqn_of pm \<equiv> peer_model_fqn (fst pm) (snd pm)"

lemma foldE_add_fqn:
  "foldE add_fqn pms fqns = Inr r \<longleftrightarrow>
    r = rev (map fqn_of pms) @ fqns \<and> distinct (map fqn_of pms) \<and> set (map fqn_of pms) \<inter> set fqns = {}"
proof (induction pms arbitrary: fqns)
  case (Cons pm pms)
  have "add_fqn pm fqns = (if fqn_of pm \<in> set fqns then Inl (AmbiguousFqn (fqn_of pm)) else Inr (fqn_of pm # fqns))"
    by (simp add: add_fqn_def Let_def)
  then show ?case using Cons.IH [of "fqn_of pm # fqns"] by auto
qed auto

text \<open>A search finds the only match by qualified name, or without one the only match by bare name.\<close>

lemma resolve_peer_model_iff:
  "resolve_peer_model c search = Some q \<longleftrightarrow>
    (\<forall>r. r \<in> set (peer_models c) \<and> peer_model_fqn (fst r) (snd r) = search \<longleftrightarrow> r = q) \<or>
    (\<forall>r \<in> set (peer_models c). peer_model_fqn (fst r) (snd r) \<noteq> search) \<and>
      (\<forall>r. r \<in> set (peer_models c) \<and> snd r = search \<longleftrightarrow> r = q)"
proof -
  let ?f = "foldE (match_peer (\<lambda>(p, m). peer_model_fqn p m = search)) (peer_models c) None"
  let ?u = "foldE (match_peer (\<lambda>(p, m). m = search)) (peer_models c) None"
  have f: "?f = Inr (Some r) \<longleftrightarrow> (\<forall>x. x \<in> set (peer_models c) \<and> peer_model_fqn (fst x) (snd x) = search \<longleftrightarrow> x = r)" for r
    by (simp add: match_peer_unique case_prod_unfold)
  have n: "?f = Inr None \<longleftrightarrow> (\<forall>x \<in> set (peer_models c). peer_model_fqn (fst x) (snd x) \<noteq> search)"
    by (simp add: match_peer_no case_prod_unfold)
  have u: "?u = Inr (Some r) \<longleftrightarrow> (\<forall>x. x \<in> set (peer_models c) \<and> snd x = search \<longleftrightarrow> x = r)" for r
    by (simp add: match_peer_unique case_prod_unfold)
  have "resolve_peer_model c search = Some q \<longleftrightarrow> ?f = Inr (Some q) \<or> ?f = Inr None \<and> ?u = Inr (Some q)"
    by (auto simp: resolve_peer_model_def split: sum.splits option.splits)
  then show ?thesis unfolding f n u .
qed

lemma foldE_unit_all: "foldE f xs () = Inr () \<Longrightarrow> x \<in> set xs \<Longrightarrow> f x () = Inr ()"
  by (induction xs) (auto simp: bindE_def split: sum.splits)

lemma check_reserved_free: "check_reserved c fqn () = Inr () \<Longrightarrow> real_model_name c fqn = None"
  unfolding check_reserved_def real_model_name_def
  by (cases "map_of (na_models c) fqn"; cases "find (\<lambda>(m, als). fqn \<in> set als) (na_models c)"; cases "map_of (na_aliases c) fqn")
    (simp_all split: prod.splits)

text \<open>The pairs in the order the validation visits them.\<close>

lemma set_sorted_models:
  fixes peers :: "(string \<times> string list) list"
  assumes "distinct (map fst peers)"
  shows "set (concat (map (\<lambda>p. map (Pair p) (remdups (the (map_of peers p)))) (sort (map fst peers)))) =
      {(p, m). \<exists>ms. (p, ms) \<in> set peers \<and> m \<in> set ms}"
    and "distinct (concat (map (\<lambda>p. map (Pair p) (remdups (the (map_of peers p)))) (sort (map fst peers))))"
proof -
  have "map_of peers p = Some ms" if "(p, ms) \<in> set peers" for p ms using assms that by simp
  then show "set (concat (map (\<lambda>p. map (Pair p) (remdups (the (map_of peers p)))) (sort (map fst peers)))) =
      {(p, m). \<exists>ms. (p, ms) \<in> set peers \<and> m \<in> set ms}"
    by force
  have "distinct (concat (map (\<lambda>p. map (Pair p) (remdups (g p))) ps))" if "distinct ps" for g :: "string \<Rightarrow> string list" and ps :: "string list"
    using that by (induction ps) (auto simp: distinct_map inj_on_def)
  from this [of "sort (map fst peers)"] assms
  show "distinct (concat (map (\<lambda>p. map (Pair p) (remdups (the (map_of peers p)))) (sort (map fst peers))))"
    by simp
qed

text \<open>What a validated namespace gives: qualified names are distinct, and none of them is a local name.\<close>

lemma valid_namespace:
  assumes "validate_peer_namespace c = Inr ()" and "distinct (map fst (na_peers c))"
  shows "inj_on fqn_of (set (peer_models c)) \<and> (\<forall>pm\<in>set (peer_models c). real_model_name c (fqn_of pm) = None)"
proof -
  let ?pms = "concat (map (\<lambda>p. map (Pair p) (remdups (the (map_of (na_peers c) p)))) (sort (map fst (na_peers c))))"
  have eq: "set (peer_models c) = set ?pms" using set_sorted_models(1) [OF assms(2)] by (simp add: set_peer_models)
  obtain fqns where fqns: "foldE add_fqn ?pms [] = Inr fqns" "foldE (check_reserved c) (sort fqns) () = Inr ()"
    using assms(1) by (auto simp: validate_peer_namespace_def Let_def bindE_simps)
  then have inj: "distinct (map fqn_of ?pms)" and set: "set fqns = fqn_of ` set ?pms"
    by (auto simp: foldE_add_fqn)
  have "inj_on fqn_of (set ?pms)" using inj unfolding distinct_map by (rule conjunct2)
  moreover have "real_model_name c (fqn_of pm) = None" if "pm \<in> set ?pms" for pm
  proof -
    have "fqn_of pm \<in> set (sort fqns)" using that set by (simp only: set_sort) (rule imageI)
    from foldE_unit_all [OF fqns(2) this] show ?thesis by (rule check_reserved_free)
  qed
  ultimately show ?thesis unfolding eq by blast
qed

text \<open>
  In a validated namespace the qualified name of a configured peer model resolves to exactly that peer and
  model, whatever the iteration order of the maps; no local model or alias hides it.
\<close>
lemma peer_fqn_resolves:
  assumes "validate_peer_namespace c = Inr ()" and "distinct (map fst (na_peers c))"
    and "(p, ms) \<in> set (na_peers c)" and "m \<in> set ms"
  shows "resolve_peer_model c (peer_model_fqn p m) = Some (p, m) \<and>
    real_model_name c (peer_model_fqn p m) = None \<and>
    resolve_base_model c (peer_model_fqn p m) = Some (peer_model_fqn p m)"
proof -
  note v = valid_namespace [OF assms(1,2)]
  have pm: "(p, m) \<in> set (peer_models c)" using assms(3,4) by (auto simp: set_peer_models)
  have only: "r = (p, m)" if "r \<in> set (peer_models c)" "fqn_of r = peer_model_fqn p m" for r
    by (rule inj_onD [OF conjunct1 [OF v] _ that(1) pm]) (simp add: that(2))
  have res: "resolve_peer_model c (peer_model_fqn p m) = Some (p, m)"
    unfolding resolve_peer_model_iff
  proof (intro disjI1 allI iffI)
    fix r assume "r \<in> set (peer_models c) \<and> fqn_of r = peer_model_fqn p m"
    then show "r = (p, m)" using only by (elim conjE)
  next
    fix r assume "r = (p, m)"
    then show "r \<in> set (peer_models c) \<and> fqn_of r = peer_model_fqn p m" using pm by (simp only: fst_conv snd_conv)
  qed
  have "real_model_name c (fqn_of (p, m)) = None" using v pm by blast
  with res show ?thesis by (simp add: resolve_base_model_def)
qed

definition demo_names :: names where
  "demo_names = \<lparr>na_models = [(''a'', [''b''])], na_aliases = [(''b'', ''a'')], na_selectors = [], na_pins = [],
     na_peers = [(''p/x'', [''m'']), (''p'', [''y'', ''m''])]\<rparr>"

end
