(* ===== verification/ProcStatus.thy ===== *)
theory ProcStatus
  imports Complex_Main Prelude
begin

text \<open>
  The observable status of a managed process: \<open>internal/process/process.go\<close> (states and snapshot)
  and \<open>internal/process/loading_progress.go\<close> (the progress an upstream reports while it loads).
  A finite \<open>float64\<close> is the rational it stands for; decoding of the health check body by
  \<open>encoding/json\<close> is the parameter \<open>decode\<close>.
\<close>

datatype proc_state = StateStopped | StateStarting | StateReady | StateStopping | StateShutdown

record loading =
  ld_progress :: "rat option"
  ld_message :: string

text \<open>\<open>su_since\<close> is \<open>None\<close> for the zero time.\<close>

record status =
  su_state :: proc_state
  su_since :: "int option"
  su_loading :: "loading option"

definition new_status :: "proc_state \<Rightarrow> status" where
  "new_status s = \<lparr>su_state = s, su_since = None, su_loading = None\<rparr>"

definition loading_equal :: "loading option \<Rightarrow> loading option \<Rightarrow> bool" where
  "loading_equal lp o' = (case (lp, o') of
       (Some a, Some b) \<Rightarrow>
         (if ld_message a \<noteq> ld_message b \<or> (ld_progress a = None) \<noteq> (ld_progress b = None) then False
          else ld_progress a = None \<or> the (ld_progress a) = the (ld_progress b))
     | (None, None) \<Rightarrow> True
     | _ \<Rightarrow> False)"

fun truncate_from :: "nat \<Rightarrow> nat \<Rightarrow> string \<Rightarrow> string" where
  "truncate_from i n [] = []"
| "truncate_from i n (c # cs) = (if i = n then [] else c # truncate_from (Suc i) n cs)"

definition truncate_runes :: "string \<Rightarrow> nat \<Rightarrow> string" where
  "truncate_runes s n = truncate_from 0 n s"

definition max_loading_message_len :: nat where
  "max_loading_message_len = 1024"

definition max_progress_body_len :: nat where
  "max_progress_body_len = 64 * 1024"

record raw_progress =
  rw_progress :: "rat option"
  rw_message :: "string option"

definition parse_loading_progress :: "(string \<Rightarrow> raw_progress option) \<Rightarrow> string \<Rightarrow> loading option" where
  "parse_loading_progress decode body =
     (if body = [] \<or> max_progress_body_len < length body then None
      else case decode body of
        None \<Rightarrow> None
      | Some raw \<Rightarrow>
          (let lp = \<lparr>ld_progress = map_option (\<lambda>v. min (max v 0) 1) (rw_progress raw),
                     ld_message = (case rw_message raw of None \<Rightarrow> []
                       | Some m \<Rightarrow> truncate_runes (trim_space m) max_loading_message_len)\<rparr>
           in if ld_progress lp = None \<and> ld_message lp = [] then None else Some lp))"

text \<open>
  \<open>setLoading\<close>: the status read at each attempt, and whether its compare-and-swap wins. The result is
  the status written (announced to subscribers too), or nothing when the start has moved on.
\<close>

fun set_loading :: "loading \<Rightarrow> (status \<times> bool) list \<Rightarrow> status option option" where
  "set_loading lp [] = None"
| "set_loading lp ((cur, wins) # attempts) =
     (if su_state cur \<noteq> StateStarting then Some None
      else if wins then Some (Some (cur\<lparr>su_loading := Some lp\<rparr>))
      else set_loading lp attempts)"

section \<open>Facts\<close>

lemma loading_equal_iff [simp]: "loading_equal a b \<longleftrightarrow> a = b"
  by (auto simp: loading_equal_def split: option.splits)

lemma truncate_from_eq: "i \<le> n \<Longrightarrow> truncate_from i n s = take (n - i) s"
  by (induction i n s rule: truncate_from.induct) (auto simp: take_Cons' Suc_diff_Suc)

lemma truncate_runes_eq: "truncate_runes s n = take n s"
  by (simp add: truncate_runes_def truncate_from_eq)

lemma parse_loading_bounds:
  assumes "parse_loading_progress decode body = Some lp"
  shows "(\<forall>v. ld_progress lp = Some v \<longrightarrow> 0 \<le> v \<and> v \<le> 1) \<and> length (ld_message lp) \<le> max_loading_message_len \<and>
    (ld_progress lp \<noteq> None \<or> ld_message lp \<noteq> [])"
  using assms
  by (auto simp: parse_loading_progress_def Let_def truncate_runes_eq split: if_splits option.splits)

lemma set_loading_starting:
  "set_loading lp attempts = Some (Some st) \<Longrightarrow>
    \<exists>cur. (cur, True) \<in> set attempts \<and> su_state cur = StateStarting \<and> st = cur\<lparr>su_loading := Some lp\<rparr>"
  by (induction lp attempts rule: set_loading.induct) (auto split: if_splits)

end
