(* ===== verification/Selectors.thy ===== *)
theory Selectors
  imports ConfigNames ProcStatus "HOL-Library.Word"
begin

text \<open>
  The selectors of \<open>internal/server/selector.go\<close>: virtual model names resolved for each request to one of
  their targets. A spillover selector counts the requests it has placed on each target's model; the
  counts, and the round-robin counter that breaks ties, are its state.
\<close>

record target =
  tg_target :: string
  tg_model :: string
  tg_local :: bool

record spill_state =
  sp_spillover :: int
  sp_targets :: "target list"
  sp_inflight :: "string \<rightharpoonup> int"
  sp_rr :: "64 word"

record selector =
  se_strategy :: string
  se_targets :: "string list"
  se_spillover :: int

type_synonym selectors = "(string \<times> selector) list"
type_synonym tracker = "string \<rightharpoonup> spill_state"

datatype select_error =
    NoTargets
  | UnknownStrategy string
  | NotConfigured string
  | NoneAvailable string

definition spill_target :: "names \<Rightarrow> string \<Rightarrow> target" where
  "spill_target c t =
     (case real_model_name c t of
        Some m \<Rightarrow> \<lparr>tg_target = t, tg_model = m, tg_local = True\<rparr>
      | None \<Rightarrow>
          \<lparr>tg_target = t,
           tg_model = (case resolve_peer_model c t of None \<Rightarrow> peer_model_fqn [] [] | Some (p, m) \<Rightarrow> peer_model_fqn p m),
           tg_local = False\<rparr>)"

definition new_spill_state :: "names \<Rightarrow> selector \<Rightarrow> spill_state" where
  "new_spill_state c sel =
     \<lparr>sp_spillover = se_spillover sel, sp_targets = map (spill_target c) (se_targets sel),
      sp_inflight = Map.empty, sp_rr = 0\<rparr>"

definition new_tracker :: "names \<Rightarrow> selectors \<Rightarrow> tracker" where
  "new_tracker c sels k =
     (case map_of sels k of None \<Rightarrow> None
      | Some sel \<Rightarrow> if se_strategy sel = ''spillover'' then Some (new_spill_state c sel) else None)"

section \<open>Spillover\<close>

definition reserve :: "target \<Rightarrow> spill_state \<Rightarrow> string \<times> spill_state" where
  "reserve t s = (tg_target t, s\<lparr>sp_inflight := (sp_inflight s)(tg_model t \<mapsto> count_of (sp_inflight s) (tg_model t) + 1)\<rparr>)"

definition least_count :: "(string \<rightharpoonup> int) \<Rightarrow> target list \<Rightarrow> int" where
  "least_count m ts =
     fold (\<lambda>t least. if least < 0 \<or> count_of m (tg_model t) < least then count_of m (tg_model t) else least) ts (-1)"

definition reserve_least_busy :: "target list \<Rightarrow> spill_state \<Rightarrow> string \<times> spill_state" where
  "reserve_least_busy ts s =
     (let least = least_count (sp_inflight s) ts;
          tied = filter (\<lambda>t. count_of (sp_inflight s) (tg_model t) = least) ts;
          t = tied ! unat (sp_rr s mod of_nat (length tied))
      in reserve t (s\<lparr>sp_rr := sp_rr s + 1\<rparr>))"

datatype temperature = Skip | Active | Cold

definition classify :: "(string \<rightharpoonup> proc_state) \<Rightarrow> (string \<rightharpoonup> int) \<Rightarrow> target \<Rightarrow> temperature" where
  "classify running m t =
     (if \<not> tg_local t then (if 0 < count_of m (tg_model t) then Active else Cold)
      else
        (let st = running (tg_model t) in
         if st = Some StateStopping \<or> st = Some StateShutdown then Skip
         else if st = Some StateReady \<or> st = Some StateStarting then Active
         else if 0 < count_of m (tg_model t) then Active
         else if st = None \<or> st = Some StateStopped then Cold
         else Skip))"

definition strategy_spillover ::
  "string \<Rightarrow> (string \<rightharpoonup> proc_state) \<Rightarrow> spill_state \<Rightarrow> select_error + string \<times> spill_state" where
  "strategy_spillover k running s =
     (let active = filter (\<lambda>t. classify running (sp_inflight s) t = Active) (sp_targets s);
          cold = filter (\<lambda>t. classify running (sp_inflight s) t = Cold) (sp_targets s)
      in if active = [] then (if cold = [] then Inl (NoneAvailable k) else Inr (reserve (hd cold) s))
         else if least_count (sp_inflight s) active < sp_spillover s then Inr (reserve_least_busy active s)
         else if cold \<noteq> [] then Inr (reserve (hd cold) s)
         else Inr (reserve_least_busy active s))"

definition release_target :: "string \<Rightarrow> spill_state \<Rightarrow> spill_state" where
  "release_target target s =
     (case find (\<lambda>t. tg_target t = target \<and> 0 < count_of (sp_inflight s) (tg_model t)) (sp_targets s) of
        None \<Rightarrow> s
      | Some t \<Rightarrow> s\<lparr>sp_inflight := (sp_inflight s)(tg_model t \<mapsto> count_of (sp_inflight s) (tg_model t) - 1)\<rparr>)"

section \<open>The other strategies, and the middleware\<close>

definition strategy_pin :: "selector \<Rightarrow> select_error + string" where
  "strategy_pin sel = (if se_targets sel = [] then Inl NoTargets else Inr (hd (se_targets sel)))"

definition warm_state :: "names \<Rightarrow> (string \<rightharpoonup> proc_state) \<Rightarrow> string \<Rightarrow> proc_state option" where
  "warm_state c running t = running (case real_model_name c t of None \<Rightarrow> [] | Some m \<Rightarrow> m)"

definition strategy_warm :: "names \<Rightarrow> selector \<Rightarrow> (string \<rightharpoonup> proc_state) \<Rightarrow> select_error + string" where
  "strategy_warm c sel running =
     (if se_targets sel = [] then Inl NoTargets
      else case find (\<lambda>t. warm_state c running t = Some StateReady) (se_targets sel) of
        Some t \<Rightarrow> Inr t
      | None \<Rightarrow>
          (case find (\<lambda>t. warm_state c running t = Some StateStarting) (se_targets sel) of
             Some t \<Rightarrow> Inr t
           | None \<Rightarrow> Inr (hd (se_targets sel))))"

text \<open>
  What the middleware does with a request for \<open>model\<close> (\<open>None\<close>: no model could be extracted): pass it on
  untouched, refuse it, or pass it on rewritten to a target, for which a spillover selector holds a reservation.
\<close>

datatype selection = PassOn | Refused select_error | Rewritten string

definition select_model ::
  "names \<Rightarrow> selectors \<Rightarrow> string option \<Rightarrow> (string \<rightharpoonup> proc_state) \<Rightarrow> tracker \<Rightarrow> selection \<times> tracker" where
  "select_model c sels model running tr =
     (if sels = [] then (PassOn, tr)
      else case model of
        None \<Rightarrow> (PassOn, tr)
      | Some k \<Rightarrow>
          if k = [] then (PassOn, tr)
          else (case map_of sels k of
            None \<Rightarrow> (PassOn, tr)
          | Some sel \<Rightarrow>
              if se_strategy sel = ''pin'' then
                ((case strategy_pin sel of Inl e \<Rightarrow> Refused e | Inr t \<Rightarrow> Rewritten t), tr)
              else if se_strategy sel = ''warm'' then
                ((case strategy_warm c sel running of Inl e \<Rightarrow> Refused e | Inr t \<Rightarrow> Rewritten t), tr)
              else if se_strategy sel = ''spillover'' then
                (case tr k of None \<Rightarrow> (Refused (NotConfigured k), tr)
                 | Some s \<Rightarrow>
                     (case strategy_spillover k running s of
                        Inl e \<Rightarrow> (Refused e, tr)
                      | Inr (t, s') \<Rightarrow> (Rewritten t, tr(k \<mapsto> s'))))
              else (Refused (UnknownStrategy (se_strategy sel)), tr)))"

definition release_reservation :: "string \<Rightarrow> string \<Rightarrow> tracker \<Rightarrow> tracker" where
  "release_reservation k target tr =
     (case tr k of None \<Rightarrow> tr | Some s \<Rightarrow> tr(k \<mapsto> release_target target s))"

text \<open>
  The whole handler: \<open>replaced\<close> tells whether the model could be replaced in the request, \<open>ignored\<close> which models
  ignore WebSockets, \<open>upgrade\<close> whether the request is one. A request answers with a status or is handed on; a
  reservation held while it is served (\<open>Forwarded _ True\<close>) is released at its end.
\<close>

datatype handled = HandedOn | AnsweredWith nat | Forwarded string bool

definition selector_middleware ::
  "names \<Rightarrow> selectors \<Rightarrow> string option \<Rightarrow> (string \<rightharpoonup> proc_state) \<Rightarrow> bool \<Rightarrow> (string \<Rightarrow> bool) \<Rightarrow> bool \<Rightarrow> tracker \<Rightarrow>
    handled \<times> tracker" where
  "selector_middleware c sels model running replaced ignored upgrade tr =
     (case select_model c sels model running tr of
        (PassOn, tr1) \<Rightarrow> (HandedOn, tr1)
      | (Refused e, tr1) \<Rightarrow> (AnsweredWith 503, tr1)
      | (Rewritten t, tr1) \<Rightarrow>
          (let k = the model;
               spill = (case map_of sels k of None \<Rightarrow> False | Some sel \<Rightarrow> se_strategy sel = ''spillover'')
           in if \<not> replaced then (AnsweredWith 400, if spill then release_reservation k t tr1 else tr1)
              else if spill then
                (if (case real_model_name c t of None \<Rightarrow> False | Some m \<Rightarrow> ignored m) \<and> upgrade
                 then (Forwarded t False, release_reservation k t tr1) else (Forwarded t True, tr1))
              else (Forwarded t False, tr1)))"

definition request_ended :: "string option \<Rightarrow> handled \<Rightarrow> tracker \<Rightarrow> tracker" where
  "request_ended model h tr =
     (case h of Forwarded t True \<Rightarrow> release_reservation (the model) t tr | _ \<Rightarrow> tr)"

section \<open>Facts\<close>

definition counts_ok :: "spill_state \<Rightarrow> bool" where
  "counts_ok s \<longleftrightarrow> (\<forall>m. 0 \<le> count_of (sp_inflight s) m)"

lemma least_count_fold:
  assumes "\<forall>k. 0 \<le> count_of m k"
  shows "0 \<le> x \<Longrightarrow>
    fold (\<lambda>t least. if least < 0 \<or> count_of m (tg_model t) < least then count_of m (tg_model t) else least) ts x =
    Min (insert x ((\<lambda>t. count_of m (tg_model t)) ` set ts))"
proof (induction ts arbitrary: x)
  case (Cons t ts)
  have "0 \<le> min x (count_of m (tg_model t))" using Cons.prems assms by simp
  from Cons.IH [OF this] have "fold (\<lambda>t least. if least < 0 \<or> count_of m (tg_model t) < least then count_of m (tg_model t) else least)
      (t # ts) x = Min (insert (min x (count_of m (tg_model t))) ((\<lambda>t. count_of m (tg_model t)) ` set ts))"
    using Cons.prems by (cases "count_of m (tg_model t) < x") (simp_all add: min_def not_less)
  then show ?case by (cases "ts = []") (simp_all add: min.assoc)
qed simp

lemma least_count_Min:
  assumes "\<forall>k. 0 \<le> count_of m k" and "ts \<noteq> []"
  shows "least_count m ts = Min ((\<lambda>t. count_of m (tg_model t)) ` set ts)"
proof -
  obtain t ts' where ts: "ts = t # ts'" using assms(2) by (cases ts) auto
  show ?thesis using least_count_fold [OF assms(1), of "count_of m (tg_model t)" ts'] assms(1)
    by (simp add: ts least_count_def)
qed

text \<open>The least busy target is one of the given targets and has the least count.\<close>

lemma reserve_least_busy_spec:
  assumes "counts_ok s" and "ts \<noteq> []" and "length ts < 2 ^ 64"
  shows "\<exists>t \<in> set ts. (\<forall>t' \<in> set ts. count_of (sp_inflight s) (tg_model t) \<le> count_of (sp_inflight s) (tg_model t')) \<and>
    reserve_least_busy ts s = reserve t (s\<lparr>sp_rr := sp_rr s + 1\<rparr>)"
proof -
  let ?n = "\<lambda>t. count_of (sp_inflight s) (tg_model t)"
  let ?tied = "filter (\<lambda>t. ?n t = least_count (sp_inflight s) ts) ts"
  have least: "least_count (sp_inflight s) ts = Min (?n ` set ts)"
    using assms(1,2) by (intro least_count_Min) (simp_all add: counts_ok_def)
  have "Min (?n ` set ts) \<in> ?n ` set ts" using assms(2) by (intro Min_in) auto
  then have "?tied \<noteq> []" using least by (auto simp: filter_empty_conv)
  moreover have "length ?tied < 2 ^ 64" using assms(3) length_filter_le [of _ ts] by (rule le_less_trans [rotated])
  ultimately have "unat (sp_rr s mod of_nat (length ?tied)) < length ?tied"
    by (simp add: unat_mod unsigned_of_nat take_bit_nat_eq_self)
  then have tied: "?tied ! unat (sp_rr s mod of_nat (length ?tied)) \<in> set ?tied" by (rule nth_mem)
  let ?t = "?tied ! unat (sp_rr s mod of_nat (length ?tied))"
  show ?thesis
  proof (intro bexI conjI ballI)
    show "?t \<in> set ts" using tied by (rule subsetD [OF filter_is_subset])
    show "?n ?t \<le> ?n t'" if "t' \<in> set ts" for t'
    proof -
      have "?n ?t = Min (?n ` set ts)" using tied least by simp
      also have "\<dots> \<le> ?n t'" using that by simp
      finally show ?thesis .
    qed
    show "reserve_least_busy ts s = reserve ?t (s\<lparr>sp_rr := sp_rr s + 1\<rparr>)"
      by (simp add: reserve_least_busy_def Let_def)
  qed
qed

lemma reserve_counts [simp]:
  "fst (reserve t s) = tg_target t"
  "count_of (sp_inflight (snd (reserve t s))) m = count_of (sp_inflight s) m + (if m = tg_model t then 1 else 0)"
  "sp_targets (snd (reserve t s)) = sp_targets s" "sp_spillover (snd (reserve t s)) = sp_spillover s"
  by (auto simp: reserve_def)

text \<open>
  The reference for a spillover choice: the target taken is available; while some active target is below the
  threshold, or no cold target is left, it is an active one with the least count; otherwise the first cold one.
\<close>

definition actives :: "(string \<rightharpoonup> proc_state) \<Rightarrow> spill_state \<Rightarrow> target list" where
  "actives running s = filter (\<lambda>t. classify running (sp_inflight s) t = Active) (sp_targets s)"

definition colds :: "(string \<rightharpoonup> proc_state) \<Rightarrow> spill_state \<Rightarrow> target list" where
  "colds running s = filter (\<lambda>t. classify running (sp_inflight s) t = Cold) (sp_targets s)"

definition spill_to :: "(string \<rightharpoonup> proc_state) \<Rightarrow> spill_state \<Rightarrow> target \<Rightarrow> bool" where
  "spill_to running s t \<longleftrightarrow>
     (let n = \<lambda>t. count_of (sp_inflight s) (tg_model t) in
      if (\<exists>a \<in> set (actives running s). n a < sp_spillover s) \<or> colds running s = []
      then t \<in> set (actives running s) \<and> (\<forall>a \<in> set (actives running s). n t \<le> n a)
      else t = hd (colds running s))"

lemma strategy_spillover_spec:
  assumes "counts_ok s" and "length (sp_targets s) < 2 ^ 64"
  shows "(\<forall>e. strategy_spillover k running s = Inl e \<longleftrightarrow>
      actives running s = [] \<and> colds running s = [] \<and> e = NoneAvailable k) \<and>
    (\<forall>t s'. strategy_spillover k running s = Inr (t, s') \<longrightarrow>
      (\<exists>tg \<in> set (sp_targets s). t = tg_target tg \<and> spill_to running s tg \<and>
        (\<forall>m. count_of (sp_inflight s') m = count_of (sp_inflight s) m + (if m = tg_model tg then 1 else 0)) \<and>
        sp_targets s' = sp_targets s \<and> sp_spillover s' = sp_spillover s))"
proof -
  let ?n = "\<lambda>t. count_of (sp_inflight s) (tg_model t)"
  have sub: "set (actives running s) \<subseteq> set (sp_targets s)" "set (colds running s) \<subseteq> set (sp_targets s)"
    by (auto simp: actives_def colds_def)
  have run: "strategy_spillover k running s =
     (if actives running s = [] then (if colds running s = [] then Inl (NoneAvailable k) else Inr (reserve (hd (colds running s)) s))
      else if least_count (sp_inflight s) (actives running s) < sp_spillover s then Inr (reserve_least_busy (actives running s) s)
      else if colds running s \<noteq> [] then Inr (reserve (hd (colds running s)) s)
      else Inr (reserve_least_busy (actives running s) s))"
    by (simp add: strategy_spillover_def actives_def colds_def Let_def)
  have least: "least_count (sp_inflight s) (actives running s) < sp_spillover s \<longleftrightarrow>
      (\<exists>a \<in> set (actives running s). ?n a < sp_spillover s)" if "actives running s \<noteq> []"
    using that assms(1) least_count_Min [of "sp_inflight s" "actives running s"]
    by (simp add: counts_ok_def Min_less_iff)
  have busy: "\<exists>t \<in> set (actives running s). (\<forall>a \<in> set (actives running s). ?n t \<le> ?n a) \<and>
      reserve_least_busy (actives running s) s = reserve t (s\<lparr>sp_rr := sp_rr s + 1\<rparr>)" if "actives running s \<noteq> []"
  proof (rule reserve_least_busy_spec [OF assms(1) that])
    show "length (actives running s) < 2 ^ 64"
      unfolding actives_def by (rule le_less_trans [OF length_filter_le assms(2)])
  qed
  show ?thesis
  proof (cases "actives running s = []")
    case True
    show ?thesis
    proof (cases "colds running s")
      case Nil
      with True run show ?thesis by auto
    next
      case (Cons t ts)
      then have run': "strategy_spillover k running s = Inr (reserve t s)" using run True by simp
      have "spill_to running s t" using True Cons by (simp add: spill_to_def Let_def)
      moreover have "t \<in> set (sp_targets s)" using sub(2) Cons by auto
      ultimately show ?thesis using True Cons unfolding run'
        by (auto simp: reserve_def intro!: bexI [of _ t])
    qed
  next
    case False
    obtain t where t: "t \<in> set (actives running s)" "\<forall>a \<in> set (actives running s). ?n t \<le> ?n a"
      "reserve_least_busy (actives running s) s = reserve t (s\<lparr>sp_rr := sp_rr s + 1\<rparr>)"
      using busy [OF False] by blast
    show ?thesis
    proof (cases "(\<exists>a \<in> set (actives running s). ?n a < sp_spillover s) \<or> colds running s = []")
      case True
      then have run': "strategy_spillover k running s = Inr (reserve t (s\<lparr>sp_rr := sp_rr s + 1\<rparr>))"
        unfolding run using False least [OF False] t(3) by auto
      have "spill_to running s t" using True t(1,2) by (simp add: spill_to_def Let_def)
      with sub(1) t(1) False show ?thesis unfolding run'
        by (auto simp: reserve_def intro!: bexI [of _ t])
    next
      case no: False
      then obtain c cs where c: "colds running s = c # cs" by (cases "colds running s") auto
      have run': "strategy_spillover k running s = Inr (reserve c s)"
        unfolding run using False least [OF False] no c by simp
      have "spill_to running s c" using no c by (simp add: spill_to_def Let_def)
      moreover have "c \<in> set (sp_targets s)" using sub(2) c by auto
      ultimately show ?thesis using False unfolding run'
        by (auto simp: reserve_def intro!: bexI [of _ c])
    qed
  qed
qed

section \<open>Reservations over a history of requests\<close>

text \<open>
  The state of a selector together with the reservations requests hold: a request takes one when it is placed and
  gives it back when it ends.
\<close>

inductive spill_reach :: "spill_state \<Rightarrow> spill_state \<Rightarrow> string multiset \<Rightarrow> bool" for s0 where
  spill_start: "spill_reach s0 s0 {#}"
| spill_choose: "spill_reach s0 s taken \<Longrightarrow> strategy_spillover k running s = Inr (t, s') \<Longrightarrow>
    spill_reach s0 s' (add_mset t taken)"
| spill_release: "spill_reach s0 s (add_mset t taken) \<Longrightarrow> spill_reach s0 (release_target t s) taken"

definition fresh_targets :: "spill_state \<Rightarrow> bool" where
  "fresh_targets s \<longleftrightarrow> distinct (map tg_target (sp_targets s)) \<and> distinct (map tg_model (sp_targets s)) \<and>
     sp_inflight s = Map.empty \<and> length (sp_targets s) < 2 ^ 64"

definition spill_inv :: "spill_state \<Rightarrow> spill_state \<Rightarrow> string multiset \<Rightarrow> bool" where
  "spill_inv s0 s taken \<longleftrightarrow> sp_targets s = sp_targets s0 \<and> sp_spillover s = sp_spillover s0 \<and>
     set_mset taken \<subseteq> tg_target ` set (sp_targets s0) \<and>
     (\<forall>tg \<in> set (sp_targets s0). count_of (sp_inflight s) (tg_model tg) = int (count taken (tg_target tg))) \<and>
     (\<forall>m. m \<notin> tg_model ` set (sp_targets s0) \<longrightarrow> count_of (sp_inflight s) m = 0)"

lemma spill_inv_counts: "spill_inv s0 s taken \<Longrightarrow> counts_ok s"
  unfolding spill_inv_def counts_ok_def
proof (intro allI)
  fix m
  assume inv: "sp_targets s = sp_targets s0 \<and> sp_spillover s = sp_spillover s0 \<and>
     set_mset taken \<subseteq> tg_target ` set (sp_targets s0) \<and>
     (\<forall>tg \<in> set (sp_targets s0). count_of (sp_inflight s) (tg_model tg) = int (count taken (tg_target tg))) \<and>
     (\<forall>m. m \<notin> tg_model ` set (sp_targets s0) \<longrightarrow> count_of (sp_inflight s) m = 0)"
  show "0 \<le> count_of (sp_inflight s) m"
  proof (cases "m \<in> tg_model ` set (sp_targets s0)")
    case True
    then obtain tg where "tg \<in> set (sp_targets s0)" "m = tg_model tg" by blast
    with inv show ?thesis by simp
  next
    case False
    with inv show ?thesis by simp
  qed
qed

lemma same_target:
  assumes "fresh_targets s" and "a \<in> set (sp_targets s)" and "b \<in> set (sp_targets s)"
  shows "tg_target a = tg_target b \<longleftrightarrow> a = b" and "tg_model a = tg_model b \<longleftrightarrow> a = b"
  using assms by (auto simp: fresh_targets_def distinct_map dest: inj_onD)

lemma spill_choose_inv:
  assumes "fresh_targets s0" and "spill_inv s0 s taken" and "strategy_spillover k running s = Inr (t, s')"
  shows "spill_inv s0 s' (add_mset t taken)"
proof -
  have "length (sp_targets s) < 2 ^ 64" using assms(1,2) by (simp add: spill_inv_def fresh_targets_def)
  from strategy_spillover_spec [OF spill_inv_counts [OF assms(2)] this] assms(3)
  obtain tg where tg: "tg \<in> set (sp_targets s)" "t = tg_target tg"
    "\<forall>m. count_of (sp_inflight s') m = count_of (sp_inflight s) m + (if m = tg_model tg then 1 else 0)"
    "sp_targets s' = sp_targets s" "sp_spillover s' = sp_spillover s"
    by blast
  have mem: "tg \<in> set (sp_targets s0)" using tg(1) assms(2) by (simp add: spill_inv_def)
  show ?thesis
    unfolding spill_inv_def
  proof (intro conjI ballI allI impI)
    fix x assume x: "x \<in> set (sp_targets s0)"
    show "count_of (sp_inflight s') (tg_model x) = int (count (add_mset t taken) (tg_target x))"
      using assms(2) x tg(2,3) same_target [OF assms(1) x mem] by (auto simp: spill_inv_def)
  next
    fix m assume "m \<notin> tg_model ` set (sp_targets s0)"
    then show "count_of (sp_inflight s') m = 0" using assms(2) tg(3) mem by (auto simp: spill_inv_def)
  qed (use assms(2) tg mem in \<open>auto simp: spill_inv_def\<close>)
qed

lemma spill_release_inv:
  assumes "fresh_targets s0" and "spill_inv s0 s (add_mset t taken)"
  shows "spill_inv s0 (release_target t s) taken"
proof -
  have targets: "sp_targets s = sp_targets s0" using assms(2) by (simp add: spill_inv_def)
  obtain tg where tg: "tg \<in> set (sp_targets s0)" "t = tg_target tg" using assms(2) by (auto simp: spill_inv_def)
  have n: "count_of (sp_inflight s) (tg_model tg) = int (count taken t) + 1"
    using assms(2) tg by (simp add: spill_inv_def)
  obtain tg' where tg': "find (\<lambda>x. tg_target x = t \<and> 0 < count_of (sp_inflight s) (tg_model x)) (sp_targets s) = Some tg'"
    using tg n targets by (cases "find (\<lambda>x. tg_target x = t \<and> 0 < count_of (sp_inflight s) (tg_model x)) (sp_targets s)")
      (auto simp: find_None_iff)
  then have "tg' \<in> set (sp_targets s0)" "tg_target tg' = t" using targets by (auto simp: find_Some_iff)
  then have eq: "tg' = tg" using same_target(1) [OF assms(1) _ tg(1), of tg'] tg(2) by simp
  have rel: "release_target t s = s\<lparr>sp_inflight := (sp_inflight s)(tg_model tg \<mapsto> int (count taken t))\<rparr>"
    using tg' n by (simp add: release_target_def eq)
  show ?thesis
    unfolding spill_inv_def
  proof (intro conjI ballI allI impI)
    fix x assume x: "x \<in> set (sp_targets s0)"
    show "count_of (sp_inflight (release_target t s)) (tg_model x) = int (count taken (tg_target x))"
    proof (cases "x = tg")
      case True
      have "count_of (sp_inflight (release_target t s)) (tg_model tg) = int (count taken t)" by (simp add: rel)
      with True tg(2) show ?thesis by simp
    next
      case False
      then have "tg_model x \<noteq> tg_model tg" "tg_target x \<noteq> t" using same_target [OF assms(1) x tg(1)] tg(2) by simp_all
      then show ?thesis using assms(2) x by (simp add: rel spill_inv_def)
    qed
  next
    fix m assume "m \<notin> tg_model ` set (sp_targets s0)"
    then show "count_of (sp_inflight (release_target t s)) m = 0"
      using assms(2) tg(1) by (auto simp: rel spill_inv_def)
  qed (use assms(2) in \<open>simp_all add: rel spill_inv_def\<close>)
qed

lemma spill_reach_inv: "spill_reach s0 s taken \<Longrightarrow> fresh_targets s0 \<Longrightarrow> spill_inv s0 s taken"
proof (induction rule: spill_reach.induct)
  case spill_start
  then show ?case by (simp add: spill_inv_def fresh_targets_def)
next
  case (spill_choose s taken k running t s')
  then show ?case by (blast intro: spill_choose_inv)
next
  case (spill_release s t taken)
  then show ?case by (blast intro: spill_release_inv)
qed

section \<open>Properties\<close>

text \<open>
  C24. A spillover selector places a request as documented, in every state it can reach: while some active target
  holds fewer requests than the threshold, or no cold target is left, on an active target with the least
  number of requests; otherwise on the first cold target of the configuration. It refuses the request exactly
  when no target is active or cold, and it reserves on the target taken and no other.
\<close>
theorem spillover_choice:
  assumes "fresh_targets s0" and "spill_reach s0 s taken"
  shows "(\<forall>e. strategy_spillover k running s = Inl e \<longleftrightarrow>
      actives running s = [] \<and> colds running s = [] \<and> e = NoneAvailable k) \<and>
    (\<forall>t s'. strategy_spillover k running s = Inr (t, s') \<longrightarrow>
      (\<exists>tg \<in> set (sp_targets s). t = tg_target tg \<and> spill_to running s tg \<and>
        (\<forall>m. count_of (sp_inflight s') m = count_of (sp_inflight s) m + (if m = tg_model tg then 1 else 0)) \<and>
        sp_targets s' = sp_targets s \<and> sp_spillover s' = sp_spillover s))"
proof -
  note inv = spill_reach_inv [OF assms(2,1)]
  have "length (sp_targets s) < 2 ^ 64" using assms(1) inv by (simp add: spill_inv_def fresh_targets_def)
  from strategy_spillover_spec [OF spill_inv_counts [OF inv] this] show ?thesis .
qed

definition demo_spill :: spill_state where
  "demo_spill = \<lparr>sp_spillover = 1, sp_targets = [\<lparr>tg_target = ''a'', tg_model = ''a'', tg_local = True\<rparr>,
     \<lparr>tg_target = ''b'', tg_model = ''b'', tg_local = True\<rparr>], sp_inflight = Map.empty, sp_rr = 0\<rparr>"

lemma demo_spill_fresh: "fresh_targets demo_spill"
  by (simp add: demo_spill_def fresh_targets_def)

lemmas demo_spill_simps = demo_spill_def strategy_spillover_def classify_def reserve_def reserve_least_busy_def
  least_count_def Let_def

lemma demo_spill_reach:
  "\<exists>s. spill_reach demo_spill s {#''a''#} \<and> sp_inflight s = [''a'' \<mapsto> 1] \<and> sp_targets s = sp_targets demo_spill \<and>
    sp_spillover s = 1"
proof -
  obtain s where "strategy_spillover ''k'' (Map.empty) demo_spill = Inr (''a'', s)" "sp_inflight s = [''a'' \<mapsto> 1]"
    "sp_targets s = sp_targets demo_spill" "sp_spillover s = 1"
    by (simp add: demo_spill_simps)
  with spill_choose [OF spill_start this(1)] show ?thesis by auto
qed

theorem spillover_choice_witness:
  "\<exists>s tg s'. spill_reach demo_spill s {#''a''#} \<and>
    strategy_spillover ''k'' [''a'' \<mapsto> StateReady] s = Inr (tg_target tg, s') \<and> spill_to [''a'' \<mapsto> StateReady] s tg"
proof -
  obtain s where s: "spill_reach demo_spill s {#''a''#}" "sp_inflight s = [''a'' \<mapsto> 1]"
    "sp_targets s = sp_targets demo_spill" "sp_spillover s = 1"
    using demo_spill_reach by blast
  obtain t s' where "strategy_spillover ''k'' [''a'' \<mapsto> StateReady] s = Inr (t, s')"
    using s by (simp add: demo_spill_simps)
  with spillover_choice [OF demo_spill_fresh s(1), of "''k''" "[''a'' \<mapsto> StateReady]"] s(1) show ?thesis by blast
qed

text \<open>
  Reservations are never lost nor invented: over any history of placements and releases, the number a
  selector counts for a target's model is the number of requests that hold that target, so it is never negative,
  and once every request has ended all counts are zero again.
\<close>
lemma spillover_reservations:
  assumes "fresh_targets s0" and "spill_reach s0 s taken"
  shows "(\<forall>tg \<in> set (sp_targets s0). count_of (sp_inflight s) (tg_model tg) = int (count taken (tg_target tg))) \<and>
    (taken = {#} \<longrightarrow> (\<forall>m. count_of (sp_inflight s) m = 0))"
proof -
  note inv = spill_reach_inv [OF assms(2,1)]
  have "count_of (sp_inflight s) m = 0" if "taken = {#}" for m
    using inv that by (cases "m \<in> tg_model ` set (sp_targets s0)") (auto simp: spill_inv_def)
  with inv show ?thesis by (simp add: spill_inv_def)
qed

section \<open>A request through the middleware\<close>

text \<open>What a tracker counts for a model under a selector, and the trackers requests can bring about.\<close>

definition load_of :: "tracker \<Rightarrow> string \<Rightarrow> string \<Rightarrow> int" where
  "load_of tr k m = (case tr k of None \<Rightarrow> 0 | Some s \<Rightarrow> count_of (sp_inflight s) m)"

definition tracker_ok :: "tracker \<Rightarrow> bool" where
  "tracker_ok tr \<longleftrightarrow> (\<forall>k s. tr k = Some s \<longrightarrow> (\<exists>s0 taken. fresh_targets s0 \<and> spill_reach s0 s taken))"

lemma spill_inv_same_counts:
  assumes "spill_inv s0 s taken" and "spill_inv s0 s' taken"
  shows "count_of (sp_inflight s) m = count_of (sp_inflight s') m"
proof (cases "m \<in> tg_model ` set (sp_targets s0)")
  case True
  then obtain tg where "tg \<in> set (sp_targets s0)" "m = tg_model tg" by blast
  with assms show ?thesis by (simp add: spill_inv_def)
next
  case False
  with assms show ?thesis by (simp add: spill_inv_def)
qed

lemma choose_release:
  assumes "tracker_ok tr" and "tr k = Some s" and "strategy_spillover k running s = Inr (t, s')"
  shows "load_of (tr(k \<mapsto> release_target t s')) = load_of tr" and "tracker_ok (tr(k \<mapsto> s'))"
    and "tracker_ok (tr(k \<mapsto> release_target t s'))"
proof -
  obtain s0 taken where s: "fresh_targets s0" "spill_reach s0 s taken" using assms(1,2) unfolding tracker_ok_def by blast
  note s' = spill_choose [OF s(2) assms(3)]
  note inv = spill_reach_inv [OF s(2,1)] spill_reach_inv [OF spill_release [OF s'] s(1)]
  show "load_of (tr(k \<mapsto> release_target t s')) = load_of tr"
    using spill_inv_same_counts [OF inv] assms(2) by (auto simp: load_of_def fun_eq_iff)
  show "tracker_ok (tr(k \<mapsto> s'))" "tracker_ok (tr(k \<mapsto> release_target t s'))"
    using assms(1) s(1) s' spill_release [OF s'] unfolding tracker_ok_def by auto
qed

text \<open>What the middleware does to the tracker: nothing, or one choice of the selector's spillover state.\<close>

lemma select_model_cases:
  assumes "select_model c sels model running tr = (r, tr1)"
  obtains (same) "tr1 = tr" "\<And>t. r = Rewritten t \<Longrightarrow> \<exists>sel. map_of sels (the model) = Some sel \<and> se_strategy sel \<noteq> ''spillover''"
  | (chosen) k s t s' sel where "model = Some k" "map_of sels k = Some sel" "se_strategy sel = ''spillover''" "tr k = Some s"
      "strategy_spillover k running s = Inr (t, s')" "r = Rewritten t" "tr1 = tr(k \<mapsto> s')"
proof (cases "\<exists>k sel s t s'. sels \<noteq> [] \<and> model = Some k \<and> k \<noteq> [] \<and> map_of sels k = Some sel \<and> se_strategy sel = ''spillover'' \<and>
    tr k = Some s \<and> strategy_spillover k running s = Inr (t, s')")
  case True
  then obtain k sel s t s' where m: "sels \<noteq> []" "model = Some k" "k \<noteq> []" "map_of sels k = Some sel"
    "se_strategy sel = ''spillover''" "tr k = Some s" "strategy_spillover k running s = Inr (t, s')" by blast
  with assms have "r = Rewritten t" "tr1 = tr(k \<mapsto> s')" by (simp_all add: select_model_def)
  with m show ?thesis by (intro chosen)
next
  case False
  show ?thesis
  proof (rule same)
    show "tr1 = tr"
      using assms False unfolding select_model_def
      by (auto split: if_splits option.splits sum.splits)
    show "\<exists>sel. map_of sels (the model) = Some sel \<and> se_strategy sel \<noteq> ''spillover''" if "r = Rewritten t" for t
      using assms False that unfolding select_model_def
      by (auto split: if_splits option.splits sum.splits)
  qed
qed

text \<open>
  The middleware never leaks a reservation: whether a request is handed on, answered because no target is available or the
  body could not be rewritten, or is a WebSocket that is not to be counted, once it has ended every count of the
  tracker is what it was before; only a request being served under a reservation is counted meanwhile.
\<close>
lemma middleware_balanced:
  assumes "tracker_ok tr" and "selector_middleware c sels model running replaced ignored upgrade tr = (h, tr1)"
  shows "load_of (request_ended model h tr1) = load_of tr \<and> tracker_ok (request_ended model h tr1) \<and> tracker_ok tr1 \<and>
    (load_of tr1 \<noteq> load_of tr \<longrightarrow> (\<exists>t. h = Forwarded t True))"
proof -
  obtain r tr2 where r: "select_model c sels model running tr = (r, tr2)" by fastforce
  from r show ?thesis
  proof (cases rule: select_model_cases)
    case same
    have "tr1 = tr \<and> (\<forall>t. h \<noteq> Forwarded t True)"
    proof (cases r)
      case (Rewritten t)
      with same obtain sel where "map_of sels (the model) = Some sel" "se_strategy sel \<noteq> ''spillover''" by blast
      with Rewritten same(1) assms(2) r show ?thesis
        by (auto simp: selector_middleware_def Let_def cong: if_cong split: if_splits)
    qed (use assms(2) r same(1) in \<open>auto simp: selector_middleware_def\<close>)
    moreover have "request_ended model h tr = tr" if "\<forall>t. h \<noteq> Forwarded t True"
      using that by (simp add: request_ended_def split: handled.splits bool.splits)
    ultimately show ?thesis using assms(1) by simp
  next
    case (chosen k s t s' sel)
    note facts = choose_release [OF assms(1) chosen(4,5)]
    show ?thesis
      using assms(2) facts r chosen
      by (auto simp: selector_middleware_def request_ended_def release_reservation_def split: if_splits)
  qed
qed

end
