(* ===== verification/Swapper.thy ===== *)
theory Swapper
  imports Prelude
begin

text \<open>
  The interface \<open>Swapper\<close> of \<open>internal/router/scheduler/scheduler.go\<close>: the eviction
  policy every scheduler relies on, as a locale with the laws the scheduler uses. The
  three routers interpret it on their own eviction functions. The one-entry decision cache that the
  matrix and the capacity swapper share is here too: read through a valid cache, a pure
  decision function is unchanged.
\<close>

locale swapper =
  fixes evict :: "string \<Rightarrow> string list \<Rightarrow> string list"
  assumes evict_running: "set (evict target running) \<subseteq> set running"
    and evict_not_target: "target \<notin> set (evict target running)"
begin

text \<open>The models left running once a swap for \<open>target\<close> has completed.\<close>

definition after_swap :: "string \<Rightarrow> string list \<Rightarrow> string list" where
  "after_swap target running = target # filter (\<lambda>m. m \<notin> set (evict target running) \<and> m \<noteq> target) running"

lemma set_after_swap:
  "set (after_swap target running) = insert target (set running - set (evict target running))"
  by (auto simp: after_swap_def)

lemma after_swap_distinct: "distinct running \<Longrightarrow> distinct (after_swap target running)"
  by (simp add: after_swap_def)

lemma evict_nothing_running [simp]: "evict target [] = []"
  using evict_running [of target "[]"] by auto

end

section \<open>The decision cache\<close>

record 'a cache =
  ca_valid :: bool
  ca_target :: string
  ca_running :: "string list"
  ca_result :: 'a

definition cached :: "(string \<Rightarrow> string list \<Rightarrow> 'a) \<Rightarrow> 'a cache \<Rightarrow> string \<Rightarrow> string list \<Rightarrow> 'a \<times> 'a cache" where
  "cached f c target running =
     (if ca_valid c \<and> ca_target c = target \<and> ca_running c = running then (ca_result c, c)
      else (let r = f target running in
            (r, \<lparr>ca_valid = True, ca_target = target, ca_running = running, ca_result = r\<rparr>)))"

definition cache_ok :: "(string \<Rightarrow> string list \<Rightarrow> 'a) \<Rightarrow> 'a cache \<Rightarrow> bool" where
  "cache_ok f c \<longleftrightarrow> (ca_valid c \<longrightarrow> ca_result c = f (ca_target c) (ca_running c))"

lemma cached_correct:
  "cache_ok f c \<Longrightarrow> fst (cached f c target running) = f target running \<and> cache_ok f (snd (cached f c target running))"
  by (auto simp: cached_def cache_ok_def Let_def)

text \<open>A run of queries against the cache, as the scheduler's event loop issues them.\<close>

fun cached_run :: "(string \<Rightarrow> string list \<Rightarrow> 'a) \<Rightarrow> 'a cache \<Rightarrow> (string \<times> string list) list \<Rightarrow> 'a list" where
  "cached_run f c [] = []"
| "cached_run f c ((t, r) # qs) = (case cached f c t r of (x, c') \<Rightarrow> x # cached_run f c' qs)"

lemma cached_run_correct: "cache_ok f c \<Longrightarrow> cached_run f c qs = map (\<lambda>(t, r). f t r) qs"
proof (induction qs arbitrary: c)
  case (Cons q qs)
  obtain t r where q: "q = (t, r)" by (cases q)
  from cached_correct [OF Cons.prems, of t r] Cons.IH show ?case
    by (auto simp: q split: prod.splits)
qed simp

end
