(* ===== verification/Fifo.thy ===== *)
theory Fifo
  imports Swapper ProcStatus "HOL-Library.Word"
begin

text \<open>
  The FIFO scheduler of \<open>internal/router/scheduler/fifo.go\<close>. Its state is the struct's fields; a
  handler takes the state and the environment's answers to its calls through \<open>Effects\<close>, and returns
  the new state or the panic of \<open>release\<close>. What the scheduler does to the outside (answers to
  callers, swaps started and cancelled, processes stopped) is appended to \<open>fs_log\<close>.

  A request is identified by its response channel (\<open>rq_id\<close>): the code compares those channels.
  Within one handler each request is examined at most once, so environment answers that depend on the
  request cover every behaviour of the processes and callers during the handler. The channel of
  queue positions is not modelled (its sends never block and change no state).
\<close>

record req =
  rq_id :: nat
  rq_model :: string

datatype sched_error =
    ErrModelNotFound
  | ErrConcurrencyLimit
  | ErrUnloaded
  | ErrSwap string
  | ErrShutdown string

record swap =
  sw_model :: string
  sw_generation :: "64 word"
  sw_evict :: "string list"
  sw_waiters :: "req list"

datatype effect =
    Admitted nat
  | AdmitGone nat
  | Rejected nat sched_error
  | Served nat string
  | ServeGone nat string
  | ErrorSent nat sched_error
  | Pruned nat
  | SwapStarted string "64 word" "string list"
  | SwapCancelled string "64 word"
  | ProcessesStopped "string list"

record fifo_config =
  fc_evict :: "string \<Rightarrow> string list \<Rightarrow> string list"
  fc_limits :: "(string \<times> int) list"
  fc_priority :: "(string \<times> int) list"

record fifo =
  fs_active :: "(string \<times> swap) list"
  fs_reserved :: "string \<rightharpoonup> int"
  fs_in_flight :: "string \<rightharpoonup> int"
  fs_queued :: "req list"
  fs_next :: "64 word"
  fs_log :: "effect list"

text \<open>
  The environment during one handler: the state of a request's process (\<open>None\<close>: the router has no
  such model), the processes not stopped when the request is decided, whether the caller receives
  the admission answer, and whether it receives the handler.
\<close>

record env =
  en_state :: "nat \<Rightarrow> proc_state option"
  en_running :: "nat \<Rightarrow> string list"
  en_admit :: "nat \<Rightarrow> bool"
  en_grant :: "nat \<Rightarrow> bool"

datatype panic = ReleaseWithoutReservation string

definition default_concurrency_limit :: int where
  "default_concurrency_limit = 10"

text \<open>\<open>NewFIFO\<close>: a model's positive limit overrides the default.\<close>

definition new_limits :: "(string \<times> int) list \<Rightarrow> (string \<times> int) list" where
  "new_limits models = map (\<lambda>(m, l). (m, if 0 < l then l else default_concurrency_limit)) models"

definition limit :: "fifo_config \<Rightarrow> string \<Rightarrow> int" where
  "limit cfg m = (case map_of (fc_limits cfg) m of Some l \<Rightarrow> l | None \<Rightarrow> default_concurrency_limit)"

definition priority :: "fifo_config \<Rightarrow> string \<Rightarrow> int" where
  "priority cfg m = (case map_of (fc_priority cfg) m of Some p \<Rightarrow> p | None \<Rightarrow> 0)"

definition new_fifo :: fifo where
  "new_fifo = \<lparr>fs_active = [], fs_reserved = Map.empty, fs_in_flight = Map.empty, fs_queued = [],
               fs_next = 0, fs_log = []\<rparr>"

definition log_effect :: "effect \<Rightarrow> fifo \<Rightarrow> fifo" where
  "log_effect x st = st\<lparr>fs_log := fs_log st @ [x]\<rparr>"

section \<open>Reservations\<close>

definition release :: "string \<Rightarrow> fifo \<Rightarrow> panic + fifo" where
  "release m st =
     (let n = count_of (fs_reserved st) m in
      if n \<le> 0 then Inl (ReleaseWithoutReservation m)
      else Inr (st\<lparr>fs_reserved := (if n - 1 = 0 then (fs_reserved st)(m := None)
                                   else (fs_reserved st)(m \<mapsto> n - 1))\<rparr>))"

definition reject_admission :: "env \<Rightarrow> req \<Rightarrow> sched_error \<Rightarrow> fifo \<Rightarrow> fifo" where
  "reject_admission env r e st =
     log_effect (if en_admit env (rq_id r) then Rejected (rq_id r) e else AdmitGone (rq_id r)) st"

definition admit :: "fifo_config \<Rightarrow> env \<Rightarrow> req \<Rightarrow> fifo \<Rightarrow> bool \<times> fifo" where
  "admit cfg env r st =
     (if limit cfg (rq_model r) \<le> count_of (fs_reserved st) (rq_model r)
      then (False, reject_admission env r ErrConcurrencyLimit st)
      else if \<not> en_admit env (rq_id r) then (False, log_effect (AdmitGone (rq_id r)) st)
      else (True, log_effect (Admitted (rq_id r))
        (st\<lparr>fs_reserved := (fs_reserved st)(rq_model r \<mapsto> count_of (fs_reserved st) (rq_model r) + 1)\<rparr>)))"

definition grant_error :: "req \<Rightarrow> sched_error \<Rightarrow> fifo \<Rightarrow> panic + fifo" where
  "grant_error r e st =
     bindE (release (rq_model r) st) (\<lambda>st'. Inr (log_effect (ErrorSent (rq_id r) e) st'))"

definition grant_handler :: "env \<Rightarrow> req \<Rightarrow> string \<Rightarrow> fifo \<Rightarrow> panic + fifo" where
  "grant_handler env r m st =
     (if en_grant env (rq_id r) then
        Inr (log_effect (Served (rq_id r) m)
          (st\<lparr>fs_in_flight := (fs_in_flight st)(m \<mapsto> count_of (fs_in_flight st) m + 1)\<rparr>))
      else release m (log_effect (ServeGone (rq_id r) m) st))"

section \<open>Deciding a request\<close>

definition active_targets :: "(string \<times> swap) list \<Rightarrow> string \<Rightarrow> string list" where
  "active_targets active exclude = filter (\<lambda>m. m \<noteq> exclude) (map fst active)"

definition running_set :: "env \<Rightarrow> req \<Rightarrow> fifo \<Rightarrow> string list" where
  "running_set env r st =
     sort (remdups (en_running env (rq_id r) @ active_targets (fs_active st) (rq_model r)))"

definition slices_overlap :: "string list \<Rightarrow> string list \<Rightarrow> bool" where
  "slices_overlap xs ys = list_ex (\<lambda>x. x \<in> set ys) xs"

definition collides_with :: "string \<Rightarrow> string list \<Rightarrow> (string \<times> swap) list \<Rightarrow> bool" where
  "collides_with target evict active =
     list_ex (\<lambda>(m, sw). m \<noteq> target \<and>
       (m \<in> set evict \<or> target \<in> set (sw_evict sw) \<or> slices_overlap evict (sw_evict sw))) active"

definition conflicts_with_in_flight :: "string list \<Rightarrow> (string \<rightharpoonup> int) \<Rightarrow> bool" where
  "conflicts_with_in_flight evict in_flight = list_ex (\<lambda>m. 0 < count_of in_flight m) evict"

definition start_swap :: "req \<Rightarrow> string list \<Rightarrow> fifo \<Rightarrow> fifo" where
  "start_swap r evict st =
     (let gen = fs_next st + 1 in
      log_effect (SwapStarted (rq_model r) gen evict)
        (st\<lparr>fs_next := gen,
            fs_active := AList.update (rq_model r)
              \<lparr>sw_model = rq_model r, sw_generation = gen, sw_evict = evict, sw_waiters = [r]\<rparr> (fs_active st)\<rparr>))"

definition join_swap :: "string \<Rightarrow> swap \<Rightarrow> req \<Rightarrow> fifo \<Rightarrow> fifo" where
  "join_swap m sw r st =
     st\<lparr>fs_active := AList.update m (sw\<lparr>sw_waiters := sw_waiters sw @ [r]\<rparr>) (fs_active st)\<rparr>"

fun insert_by_priority :: "(req \<Rightarrow> int) \<Rightarrow> req \<Rightarrow> req list \<Rightarrow> req list" where
  "insert_by_priority prio r [] = [r]"
| "insert_by_priority prio r (q # qs) =
     (if prio q < prio r then r # q # qs else q # insert_by_priority prio r qs)"

definition enqueue :: "fifo_config \<Rightarrow> req \<Rightarrow> fifo \<Rightarrow> fifo" where
  "enqueue cfg r st =
     st\<lparr>fs_queued := insert_by_priority (\<lambda>q. priority cfg (rq_model q)) r (fs_queued st)\<rparr>"

section \<open>Handlers\<close>

definition on_request :: "fifo_config \<Rightarrow> env \<Rightarrow> req \<Rightarrow> fifo \<Rightarrow> panic + fifo" where
  "on_request cfg env r st0 =
     (case en_state env (rq_id r) of
        None \<Rightarrow> Inr (reject_admission env r ErrModelNotFound st0)
      | Some state \<Rightarrow>
          (let (ok, st) = admit cfg env r st0 in
           if \<not> ok then Inr st
           else case map_of (fs_active st) (rq_model r) of
             Some sw \<Rightarrow> Inr (join_swap (rq_model r) sw r st)
           | None \<Rightarrow>
               (let evict = fc_evict cfg (rq_model r) (running_set env r st) in
                if state = StateReady \<and> evict = [] \<and> \<not> collides_with (rq_model r) evict (fs_active st)
                then grant_handler env r (rq_model r) st
                else if collides_with (rq_model r) evict (fs_active st) then Inr (enqueue cfg r st)
                else if conflicts_with_in_flight evict (fs_in_flight st) then Inr (enqueue cfg r st)
                else Inr (start_swap r evict st))))"

text \<open>
  \<open>drainQueue\<close>: one pass over the pending requests, with the requests that stay in the queue as the
  second component.
\<close>

definition drain_one :: "fifo_config \<Rightarrow> env \<Rightarrow> req \<Rightarrow> fifo \<times> req list \<Rightarrow> panic + fifo \<times> req list" where
  "drain_one cfg env r acc =
     (let (st, remaining) = acc in
      case en_state env (rq_id r) of
        None \<Rightarrow> bindE (grant_error r ErrModelNotFound st) (\<lambda>st'. Inr (st', remaining))
      | Some state \<Rightarrow>
          (case map_of (fs_active st) (rq_model r) of
             Some sw \<Rightarrow> Inr (join_swap (rq_model r) sw r st, remaining)
           | None \<Rightarrow>
               (let evict = fc_evict cfg (rq_model r) (running_set env r st) in
                if state = StateReady \<and> evict = [] \<and> \<not> collides_with (rq_model r) evict (fs_active st)
                then bindE (grant_handler env r (rq_model r) st) (\<lambda>st'. Inr (st', remaining))
                else if collides_with (rq_model r) evict (fs_active st) then Inr (st, remaining @ [r])
                else if conflicts_with_in_flight evict (fs_in_flight st) then Inr (st, remaining @ [r])
                else Inr (start_swap r evict st, remaining))))"

definition drain_queue :: "fifo_config \<Rightarrow> env \<Rightarrow> fifo \<Rightarrow> panic + fifo" where
  "drain_queue cfg env st =
     (if fs_queued st = [] then Inr st
      else bindE (foldE (drain_one cfg env) (fs_queued st) (st, []))
             (\<lambda>(st', remaining). Inr (st'\<lparr>fs_queued := remaining\<rparr>)))"

text \<open>\<open>OnCancel\<close>: filter a list of requests, releasing the slot of each one removed.\<close>

definition prune :: "nat \<Rightarrow> req list \<Rightarrow> fifo \<Rightarrow> panic + fifo \<times> req list" where
  "prune rid rs st =
     foldE (\<lambda>q (st, kept).
        if rq_id q = rid then bindE (release (rq_model q) st) (\<lambda>st'. Inr (log_effect (Pruned rid) st', kept))
        else Inr (st, kept @ [q])) rs (st, [])"

definition prune_swap :: "nat \<Rightarrow> string \<times> swap \<Rightarrow> fifo \<Rightarrow> panic + fifo" where
  "prune_swap rid msw st =
     (case msw of (m, sw) \<Rightarrow>
        bindE (prune rid (sw_waiters sw) st) (\<lambda>(st', kept).
          Inr (st'\<lparr>fs_active := AList.update m (sw\<lparr>sw_waiters := kept\<rparr>) (fs_active st')\<rparr>)))"

definition on_cancel :: "req \<Rightarrow> fifo \<Rightarrow> panic + fifo" where
  "on_cancel r st =
     bindE (prune (rq_id r) (fs_queued st) st) (\<lambda>(st', kept).
       foldE (prune_swap (rq_id r)) (fs_active st') (st'\<lparr>fs_queued := kept\<rparr>))"

definition grant_waiter :: "env \<Rightarrow> string \<Rightarrow> sched_error option \<Rightarrow> req \<Rightarrow> fifo \<Rightarrow> panic + fifo" where
  "grant_waiter env m err w st =
     (case err of Some e \<Rightarrow> grant_error w e st | None \<Rightarrow> grant_handler env w m st)"

definition on_swap_done ::
  "fifo_config \<Rightarrow> env \<Rightarrow> string \<Rightarrow> 64 word \<Rightarrow> sched_error option \<Rightarrow> fifo \<Rightarrow> panic + fifo" where
  "on_swap_done cfg env m gen err st =
     (case map_of (fs_active st) m of
        None \<Rightarrow> Inr st
      | Some sw \<Rightarrow>
          if sw_generation sw \<noteq> gen then Inr st
          else bindE (foldE (grant_waiter env m err) (sw_waiters sw)
                 ((log_effect (SwapCancelled m gen) st)\<lparr>fs_active := AList.delete m (fs_active st)\<rparr>))
                 (drain_queue cfg env))"

definition on_serve_done :: "fifo_config \<Rightarrow> env \<Rightarrow> string \<Rightarrow> fifo \<Rightarrow> panic + fifo" where
  "on_serve_done cfg env m st =
     bindE (release m (st\<lparr>fs_in_flight := (fs_in_flight st)(m \<mapsto> count_of (fs_in_flight st) m - 1)\<rparr>)) (\<lambda>st'.
       if count_of (fs_in_flight st') m \<le> 0
       then drain_queue cfg env (st'\<lparr>fs_in_flight := (fs_in_flight st')(m := None)\<rparr>)
       else Inr st')"

definition cancel_target :: "string \<Rightarrow> fifo \<Rightarrow> panic + fifo" where
  "cancel_target m st =
     (case map_of (fs_active st) m of
        None \<Rightarrow> Inr st
      | Some sw \<Rightarrow>
          bindE (foldE (\<lambda>w. grant_error w ErrUnloaded) (sw_waiters sw)
                   (log_effect (SwapCancelled m (sw_generation sw)) st)) (\<lambda>st'.
            Inr (st'\<lparr>fs_active := AList.delete m (fs_active st')\<rparr>)))"

definition drop_target :: "string list \<Rightarrow> req \<Rightarrow> fifo \<times> req list \<Rightarrow> panic + fifo \<times> req list" where
  "drop_target targets w acc =
     (let (st, kept) = acc in
      if rq_model w \<in> set targets then bindE (grant_error w ErrUnloaded st) (\<lambda>st'. Inr (st', kept))
      else Inr (st, kept @ [w]))"

definition on_unload :: "fifo_config \<Rightarrow> env \<Rightarrow> string list \<Rightarrow> fifo \<Rightarrow> panic + fifo" where
  "on_unload cfg env targets st =
     bindE (foldE cancel_target (remdups targets) st) (\<lambda>st1.
     bindE (foldE (drop_target targets) (fs_queued st1) (st1, [])) (\<lambda>(st2, kept).
       drain_queue cfg env (log_effect (ProcessesStopped targets) (st2\<lparr>fs_queued := kept\<rparr>))))"

definition on_shutdown :: "sched_error \<Rightarrow> fifo \<Rightarrow> panic + fifo" where
  "on_shutdown err st =
     bindE (foldE (\<lambda>(m, sw) st.
              foldE (\<lambda>w. grant_error w err) (sw_waiters sw)
                (log_effect (SwapCancelled m (sw_generation sw)) st)) (fs_active st) st)
       (foldE (\<lambda>w. grant_error w err) (fs_queued st))"

section \<open>The invariant\<close>

text \<open>The requests waiting on active swaps.\<close>

definition waiting :: "(string \<times> swap) list \<Rightarrow> req multiset" where
  "waiting active = mset (concat (map (\<lambda>(m, sw). sw_waiters sw) active))"

lemma waiting_Nil [simp]: "waiting [] = {#}"
  and waiting_Cons [simp]: "waiting ((m, sw) # active) = mset (sw_waiters sw) + waiting active"
  by (simp_all add: waiting_def)

lemma waiting_update_new:
  "map_of active m = None \<Longrightarrow> waiting (AList.update m sw active) = waiting active + mset (sw_waiters sw)"
  by (induction active) (auto split: if_splits)

lemma waiting_delete:
  "distinct (map fst active) \<Longrightarrow> map_of active m = Some sw \<Longrightarrow>
   waiting active = waiting (AList.delete m active) + mset (sw_waiters sw)"
proof (induction active)
  case (Cons x active)
  obtain k v where x: "x = (k, v)" by (cases x)
  show ?case
  proof (cases "k = m")
    case True
    with Cons.prems x have "map_of active m = None" by (simp add: map_of_eq_None_iff)
    then have "AList.delete m active = active"
      using delete_idem [of m active] by (simp add: map_of_eq_None_iff)
    with True Cons.prems x show ?thesis by simp
  next
    case False
    with Cons x show ?thesis by simp
  qed
qed simp

lemma waiting_update:
  "distinct (map fst active) \<Longrightarrow> map_of active m = Some sw \<Longrightarrow>
   waiting (AList.update m sw' active) + mset (sw_waiters sw) = waiting active + mset (sw_waiters sw')"
proof (induction active)
  case (Cons x active)
  then show ?case by (cases x) (auto simp: add.assoc add.commute add.left_commute)
qed simp

definition swaps_ok :: "fifo \<Rightarrow> bool" where
  "swaps_ok st \<longleftrightarrow> distinct (map fst (fs_active st)) \<and>
     (\<forall>m sw. map_of (fs_active st) m = Some sw \<longrightarrow> sw_model sw = m \<and>
        (\<forall>w\<in>set (sw_waiters sw). rq_model w = m) \<and> m \<notin> set (sw_evict sw) \<and>
        (\<forall>e\<in>set (sw_evict sw). count_of (fs_in_flight st) e = 0)) \<and>
     (\<forall>m sw m' sw'. map_of (fs_active st) m = Some sw \<longrightarrow> map_of (fs_active st) m' = Some sw' \<longrightarrow> m \<noteq> m' \<longrightarrow>
        m' \<notin> set (sw_evict sw) \<and> set (sw_evict sw) \<inter> set (sw_evict sw') = {})"

definition held_for :: "req multiset \<Rightarrow> fifo \<Rightarrow> string \<Rightarrow> int" where
  "held_for Q st m = int (size {#r \<in># Q + waiting (fs_active st). rq_model r = m#})"

definition slots_ok :: "fifo_config \<Rightarrow> req multiset \<Rightarrow> fifo \<Rightarrow> bool" where
  "slots_ok cfg Q st \<longleftrightarrow> (\<forall>m. 0 \<le> count_of (fs_in_flight st) m \<and>
     count_of (fs_reserved st) m = held_for Q st m + count_of (fs_in_flight st) m \<and>
     count_of (fs_reserved st) m \<le> max 0 (limit cfg m))"

text \<open>What the log says: who was admitted, and whose request is settled.\<close>

fun admitted_id :: "effect \<Rightarrow> nat list" where
  "admitted_id (Admitted i) = [i]"
| "admitted_id x = []"

fun settled_id :: "effect \<Rightarrow> nat list" where
  "settled_id (Served i m) = [i]"
| "settled_id (ServeGone i m) = [i]"
| "settled_id (ErrorSent i e) = [i]"
| "settled_id (Pruned i) = [i]"
| "settled_id x = []"

definition admitted :: "fifo \<Rightarrow> nat multiset" where
  "admitted st = mset (concat (map admitted_id (fs_log st)))"

definition settled :: "fifo \<Rightarrow> nat multiset" where
  "settled st = mset (concat (map settled_id (fs_log st)))"

definition log_ok :: "req multiset \<Rightarrow> fifo \<Rightarrow> bool" where
  "log_ok Q st \<longleftrightarrow> admitted st = image_mset rq_id (Q + waiting (fs_active st)) + settled st"

definition core :: "fifo_config \<Rightarrow> req multiset \<Rightarrow> fifo \<Rightarrow> bool" where
  "core cfg Q st \<longleftrightarrow> swaps_ok st \<and> slots_ok cfg Q st \<and> log_ok Q st"

definition by_priority :: "fifo_config \<Rightarrow> req list \<Rightarrow> bool" where
  "by_priority cfg q \<longleftrightarrow>
     sorted_wrt (\<lambda>a b. priority cfg (rq_model b) \<le> priority cfg (rq_model a)) q"

text \<open>Something is under way whose end will walk the queue again.\<close>

definition busy :: "fifo \<Rightarrow> bool" where
  "busy st \<longleftrightarrow> fs_active st \<noteq> [] \<or> (\<exists>m. 0 < count_of (fs_in_flight st) m)"

definition fifo_inv :: "fifo_config \<Rightarrow> fifo \<Rightarrow> bool" where
  "fifo_inv cfg st \<longleftrightarrow> core cfg (mset (fs_queued st)) st \<and> by_priority cfg (fs_queued st) \<and>
     (fs_queued st \<noteq> [] \<longrightarrow> busy st)"

lemma admitted_log [simp]: "admitted (log_effect x st) = admitted st + mset (admitted_id x)"
  and settled_log [simp]: "settled (log_effect x st) = settled st + mset (settled_id x)"
  and log_effect_fields [simp]: "fs_active (log_effect x st) = fs_active st"
    "fs_reserved (log_effect x st) = fs_reserved st" "fs_in_flight (log_effect x st) = fs_in_flight st"
    "fs_queued (log_effect x st) = fs_queued st" "fs_next (log_effect x st) = fs_next st"
  by (simp_all add: admitted_def settled_def log_effect_def)

lemma log_effect_update [simp]:
  "admitted (st\<lparr>fs_active := a\<rparr>) = admitted st" "settled (st\<lparr>fs_active := a\<rparr>) = settled st"
  "admitted (st\<lparr>fs_reserved := f\<rparr>) = admitted st" "settled (st\<lparr>fs_reserved := f\<rparr>) = settled st"
  "admitted (st\<lparr>fs_in_flight := f\<rparr>) = admitted st" "settled (st\<lparr>fs_in_flight := f\<rparr>) = settled st"
  "admitted (st\<lparr>fs_queued := q\<rparr>) = admitted st" "settled (st\<lparr>fs_queued := q\<rparr>) = settled st"
  "admitted (st\<lparr>fs_next := n\<rparr>) = admitted st" "settled (st\<lparr>fs_next := n\<rparr>) = settled st"
  by (simp_all add: admitted_def settled_def)

section \<open>The primitives keep the invariant\<close>

lemma held_for_add [simp]:
  "held_for (add_mset r Q) st m = held_for Q st m + (if rq_model r = m then 1 else 0)"
  by (simp add: held_for_def)

lemma held_for_nonneg: "0 \<le> held_for Q st m"
  by (simp add: held_for_def)

lemma held_for_cong: "fs_active st' = fs_active st \<Longrightarrow> held_for Q st' m = held_for Q st m"
  by (simp add: held_for_def)

lemma release_ok:
  assumes "slots_ok cfg (add_mset r Q) st"
  shows "\<exists>st'. release (rq_model r) st = Inr st' \<and> slots_ok cfg Q st' \<and> 
    fs_active st' = fs_active st \<and> fs_in_flight st' = fs_in_flight st \<and> fs_queued st' = fs_queued st \<and>
    fs_log st' = fs_log st \<and> fs_next st' = fs_next st"
proof -
  let ?m = "rq_model r"
  have n: "count_of (fs_reserved st) ?m = held_for Q st ?m + 1 + count_of (fs_in_flight st) ?m"
    "0 \<le> count_of (fs_in_flight st) ?m"
    using assms unfolding slots_ok_def by auto
  with held_for_nonneg [of Q st ?m] have pos: "0 < count_of (fs_reserved st) ?m" by linarith
  have "slots_ok cfg Q (st\<lparr>fs_reserved := f\<rparr>)"
    if "\<And>k. count_of f k = count_of (fs_reserved st) k - (if k = ?m then 1 else 0)" for f
    unfolding slots_ok_def
  proof (intro allI conjI)
    fix k
    have h: "held_for Q (st\<lparr>fs_reserved := f\<rparr>) k = held_for Q st k" by (rule held_for_cong) simp
    have a: "0 \<le> count_of (fs_in_flight st) k"
      "count_of (fs_reserved st) k = held_for Q st k + (if ?m = k then 1 else 0) + count_of (fs_in_flight st) k"
      "count_of (fs_reserved st) k \<le> max 0 (limit cfg k)"
      using assms unfolding slots_ok_def held_for_add by blast+
    show "0 \<le> count_of (fs_in_flight (st\<lparr>fs_reserved := f\<rparr>)) k" using a(1) by simp
    show "count_of (fs_reserved (st\<lparr>fs_reserved := f\<rparr>)) k =
        held_for Q (st\<lparr>fs_reserved := f\<rparr>) k + count_of (fs_in_flight (st\<lparr>fs_reserved := f\<rparr>)) k"
      unfolding h using a(2) that [of k] by auto
    show "count_of (fs_reserved (st\<lparr>fs_reserved := f\<rparr>)) k \<le> max 0 (limit cfg k)"
      using a(3) that [of k] by auto
  qed
  then show ?thesis using pos by (simp add: release_def Let_def)
qed

lemma swaps_ok_cong:
  "fs_active st' = fs_active st \<Longrightarrow> fs_in_flight st' = fs_in_flight st \<Longrightarrow> swaps_ok st' = swaps_ok st"
  by (simp add: swaps_ok_def)

lemma log_ok_cong:
  "fs_active st' = fs_active st \<Longrightarrow> fs_log st' = fs_log st \<Longrightarrow> log_ok Q st' = log_ok Q st"
  by (simp add: log_ok_def admitted_def settled_def)

lemma slots_ok_log [simp]: "slots_ok cfg Q (log_effect x st) = slots_ok cfg Q st"
  by (simp add: slots_ok_def held_for_def)

lemma swaps_ok_log [simp]: "swaps_ok (log_effect x st) = swaps_ok st"
  by (simp add: swaps_ok_def)

text \<open>Settling a request whose slot is released.\<close>

lemma settle_ok:
  assumes "core cfg (add_mset r Q) st" and x: "settled_id x = [rq_id r]" "admitted_id x = []"
  shows "\<exists>st'. bindE (release (rq_model r) st) (\<lambda>st'. Inr (log_effect x st')) = Inr st' \<and> core cfg Q st' \<and>
    fs_active st' = fs_active st \<and> fs_in_flight st' = fs_in_flight st \<and> fs_queued st' = fs_queued st"
proof -
  from assms(1) release_ok obtain st1 where st1: "release (rq_model r) st = Inr st1" "slots_ok cfg Q st1"
    "fs_active st1 = fs_active st" "fs_in_flight st1 = fs_in_flight st" "fs_queued st1 = fs_queued st"
    "fs_log st1 = fs_log st" unfolding core_def by blast
  have "core cfg Q (log_effect x st1)"
  proof -
    have "admitted st1 = admitted st" "settled st1 = settled st"
      using st1(6) by (simp_all add: admitted_def settled_def)
    then have "log_ok Q (log_effect x st1)"
      using assms st1(3) unfolding core_def log_ok_def by simp
    moreover have "swaps_ok st1" using assms(1) swaps_ok_cong [OF st1(3,4)] by (simp add: core_def)
    ultimately show ?thesis using st1(2) by (simp add: core_def)
  qed
  with st1 show ?thesis by simp
qed

lemma grant_error_ok:
  assumes "core cfg (add_mset r Q) st"
  shows "\<exists>st'. grant_error r e st = Inr st' \<and> core cfg Q st' \<and>
    fs_active st' = fs_active st \<and> fs_in_flight st' = fs_in_flight st \<and> fs_queued st' = fs_queued st"
  unfolding grant_error_def by (rule settle_ok [OF assms]) simp_all

lemma grant_handler_ok:
  assumes c: "core cfg (add_mset r Q) st"
    and free: "\<forall>m sw. map_of (fs_active st) m = Some sw \<longrightarrow> rq_model r \<notin> set (sw_evict sw)"
  shows "\<exists>st'. grant_handler env r (rq_model r) st = Inr st' \<and> core cfg Q st' \<and>
    fs_active st' = fs_active st \<and> fs_queued st' = fs_queued st \<and>
    (\<forall>m. count_of (fs_in_flight st) m \<le> count_of (fs_in_flight st') m)"
proof (cases "en_grant env (rq_id r)")
  case True
  let ?st = "st\<lparr>fs_in_flight := (fs_in_flight st)(rq_model r \<mapsto> count_of (fs_in_flight st) (rq_model r) + 1)\<rparr>"
  have "swaps_ok ?st" using c free unfolding core_def swaps_ok_def by auto
  moreover have "slots_ok cfg Q ?st" using c unfolding core_def slots_ok_def
    by (auto simp: held_for_def split: if_splits)
  moreover have "log_ok Q (log_effect (Served (rq_id r) (rq_model r)) ?st)"
    using c unfolding core_def log_ok_def by simp
  ultimately show ?thesis using True by (simp add: grant_handler_def core_def)
next
  case False
  let ?x = "ServeGone (rq_id r) (rq_model r)"
  have sl: "slots_ok cfg (add_mset r Q) (log_effect ?x st)" using c by (simp add: core_def)
  from release_ok [OF sl] obtain st1 where st1: "release (rq_model r) (log_effect ?x st) = Inr st1" "slots_ok cfg Q st1"
    "fs_active st1 = fs_active st" "fs_in_flight st1 = fs_in_flight st" "fs_queued st1 = fs_queued st"
    "fs_log st1 = fs_log (log_effect ?x st)" by auto
  have "log_ok Q st1" using c st1(3,6) unfolding core_def log_ok_def
    by (simp add: admitted_def settled_def log_effect_def)
  moreover have "swaps_ok st1" using c swaps_ok_cong [OF st1(3,4)] by (simp add: core_def)
  ultimately show ?thesis using False st1 by (simp add: grant_handler_def core_def)
qed

lemma join_swap_ok:
  assumes c: "core cfg (add_mset r Q) st" and sw: "map_of (fs_active st) (rq_model r) = Some sw"
  shows "core cfg Q (join_swap (rq_model r) sw r st)"
proof -
  let ?sw = "sw\<lparr>sw_waiters := sw_waiters sw @ [r]\<rparr>"
  let ?a = "AList.update (rq_model r) ?sw (fs_active st)"
  have d: "distinct (map fst (fs_active st))" using c by (simp add: core_def swaps_ok_def)
  from waiting_update [OF d sw, of ?sw] have w: "waiting ?a = add_mset r (waiting (fs_active st))" by simp
  have "swaps_ok (join_swap (rq_model r) sw r st)"
    using c sw unfolding core_def swaps_ok_def join_swap_def
    by (auto simp: distinct_update split: if_splits)
  moreover have "slots_ok cfg Q (join_swap (rq_model r) sw r st)"
    using c unfolding core_def slots_ok_def held_for_def join_swap_def by (auto simp: w split: if_splits)
  moreover have "log_ok Q (join_swap (rq_model r) sw r st)"
    using c unfolding core_def log_ok_def join_swap_def by (simp add: w)
  ultimately show ?thesis by (simp add: core_def)
qed

lemma not_collides:
  assumes "\<not> collides_with target evict active" and "map_of active m = Some sw" and "m \<noteq> target"
  shows "m \<notin> set evict" "target \<notin> set (sw_evict sw)" "set evict \<inter> set (sw_evict sw) = {}"
proof -
  have "(m, sw) \<in> set active" using assms(2) by (rule map_of_SomeD)
  with assms(1,3) show "m \<notin> set evict" "target \<notin> set (sw_evict sw)" "set evict \<inter> set (sw_evict sw) = {}"
    unfolding collides_with_def list_ex_iff slices_overlap_def by fastforce+
qed

lemma start_swap_ok:
  assumes c: "core cfg (add_mset r Q) st" and none: "map_of (fs_active st) (rq_model r) = None"
    and coll: "\<not> collides_with (rq_model r) evict (fs_active st)"
    and conf: "\<not> conflicts_with_in_flight evict (fs_in_flight st)"
    and self: "rq_model r \<notin> set evict"
  shows "core cfg Q (start_swap r evict st)"
proof -
  let ?sw = "\<lparr>sw_model = rq_model r, sw_generation = fs_next st + 1, sw_evict = evict, sw_waiters = [r]\<rparr>"
  let ?a = "AList.update (rq_model r) ?sw (fs_active st)"
  have d: "distinct (map fst (fs_active st))" using c by (simp add: core_def swaps_ok_def)
  have w: "waiting ?a = add_mset r (waiting (fs_active st))" using waiting_update_new [OF none] by simp
  have idle: "count_of (fs_in_flight st) e = 0" if "e \<in> set evict" for e
  proof -
    have "\<not> 0 < count_of (fs_in_flight st) e" using conf that by (auto simp: conflicts_with_in_flight_def list_ex_iff)
    moreover have "0 \<le> count_of (fs_in_flight st) e" using c by (simp add: core_def slots_ok_def)
    ultimately show ?thesis by linarith
  qed
  note nc = not_collides [OF coll]
  have new: "fs_active (start_swap r evict st) = ?a" "fs_in_flight (start_swap r evict st) = fs_in_flight st"
    "fs_reserved (start_swap r evict st) = fs_reserved st"
    "admitted (start_swap r evict st) = admitted st" "settled (start_swap r evict st) = settled st"
    by (simp_all add: start_swap_def Let_def)
  have ne: "m \<noteq> rq_model r" if "map_of (fs_active st) m = Some sw" for m sw using none that by auto
  have "swaps_ok (start_swap r evict st)"
    unfolding swaps_ok_def new
  proof (intro conjI allI impI)
    show "distinct (map fst ?a)" using d by (rule distinct_update)
  next
    fix m sw assume "map_of ?a m = Some sw"
    then have "(m = rq_model r \<and> sw = ?sw) \<or> map_of (fs_active st) m = Some sw" by (auto split: if_splits)
    then show "sw_model sw = m" "m \<notin> set (sw_evict sw)"
      using c self by (auto simp: core_def swaps_ok_def)
    show "\<forall>w\<in>set (sw_waiters sw). rq_model w = m" "\<forall>e\<in>set (sw_evict sw). count_of (fs_in_flight st) e = 0"
      using \<open>_ \<or> _\<close> c idle by (auto simp: core_def swaps_ok_def)
  next
    fix m sw m' sw' assume a: "map_of ?a m = Some sw" "map_of ?a m' = Some sw'" "m \<noteq> m'"
    have old: "m' \<notin> set (sw_evict sw) \<and> set (sw_evict sw) \<inter> set (sw_evict sw') = {}"
      if "map_of (fs_active st) m = Some sw" "map_of (fs_active st) m' = Some sw'"
      using c that a(3) unfolding core_def swaps_ok_def by blast
    show "m' \<notin> set (sw_evict sw)" and "set (sw_evict sw) \<inter> set (sw_evict sw') = {}"
      using a old nc [of m sw] nc [of m' sw'] by (auto split: if_splits)
  qed
  moreover have "slots_ok cfg Q (start_swap r evict st)"
    using c unfolding core_def slots_ok_def held_for_def new by (auto simp: w split: if_splits)
  moreover have "log_ok Q (start_swap r evict st)"
    using c unfolding core_def log_ok_def new by (simp add: w)
  ultimately show ?thesis by (simp add: core_def)
qed

section \<open>The handlers keep the invariant and never panic\<close>

locale fifo_router = swapper "fc_evict cfg" for cfg :: fifo_config
begin

lemma busyI:
  "collides_with t evict (fs_active st) \<Longrightarrow> busy st"
  "conflicts_with_in_flight evict (fs_in_flight st) \<Longrightarrow> busy st"
  by (auto simp: busy_def collides_with_def conflicts_with_in_flight_def list_ex_iff)

lemma busy_mono:
  "busy st \<Longrightarrow> fs_active st' = fs_active st \<Longrightarrow>
   (\<And>m. count_of (fs_in_flight st) m \<le> count_of (fs_in_flight st') m) \<Longrightarrow> busy st'"
  unfolding busy_def by (metis order_less_le_trans)

lemma busy_update: "busy (st\<lparr>fs_active := AList.update m sw al\<rparr>)"
  by (cases al) (auto simp: busy_def)

lemma fast_path_free:
  assumes "map_of (fs_active st) (rq_model r) = None" and "\<not> collides_with (rq_model r) evict (fs_active st)"
  shows "\<forall>m sw. map_of (fs_active st) m = Some sw \<longrightarrow> rq_model r \<notin> set (sw_evict sw)"
  using not_collides(2) [OF assms(2)] assms(1) by (metis option.distinct(1))

lemma drain_one_ok:
  assumes c: "core cfg (add_mset r Q) st"
  shows "\<exists>st' rem'. drain_one cfg env r (st, rem) = Inr (st', rem') \<and> fs_queued st' = fs_queued st \<and>
    (busy st \<longrightarrow> busy st') \<and> fst ` set (fs_active st') \<subseteq> insert (rq_model r) (fst ` set (fs_active st)) \<and>
    ((rem' = rem \<and> core cfg Q st') \<or> (rem' = rem @ [r] \<and> st' = st \<and> busy st))"
proof (cases "en_state env (rq_id r)")
  case None
  from grant_error_ok [OF c, of ErrModelNotFound] obtain st' where st':
    "grant_error r ErrModelNotFound st = Inr st'" "core cfg Q st'" "fs_active st' = fs_active st"
    "fs_in_flight st' = fs_in_flight st" "fs_queued st' = fs_queued st" by blast
  then show ?thesis using None by (auto simp: drain_one_def busy_def)
next
  case (Some state)
  show ?thesis
  proof (cases "map_of (fs_active st) (rq_model r)")
    case sw: (Some sw)
    with join_swap_ok [OF c sw] Some show ?thesis
      by (auto simp: drain_one_def join_swap_def busy_update dom_update)
  next
    case none: None
    let ?ev = "fc_evict cfg (rq_model r) (running_set env r st)"
    show ?thesis
    proof (cases "collides_with (rq_model r) ?ev (fs_active st) \<or> conflicts_with_in_flight ?ev (fs_in_flight st)")
      case blocked: True
      then have ne: "\<not> (state = StateReady \<and> ?ev = [] \<and> \<not> collides_with (rq_model r) ?ev (fs_active st))"
        by (auto simp: conflicts_with_in_flight_def)
      from blocked have "drain_one cfg env r (st, rem) = Inr (st, rem @ [r])"
        using Some none ne by (auto simp: drain_one_def Let_def)
      with blocked busyI show ?thesis by auto
    next
      case open_: False
      show ?thesis
      proof (cases "state = StateReady \<and> ?ev = []")
        case True
        have "\<forall>m sw. map_of (fs_active st) m = Some sw \<longrightarrow> rq_model r \<notin> set (sw_evict sw)"
          using fast_path_free [OF none] open_ by blast
        from grant_handler_ok [OF c this, of env] obtain st' where
          "grant_handler env r (rq_model r) st = Inr st'" "core cfg Q st'" "fs_active st' = fs_active st"
          "fs_queued st' = fs_queued st" "\<forall>m. count_of (fs_in_flight st) m \<le> count_of (fs_in_flight st') m" by blast
        moreover from this have "busy st \<longrightarrow> busy st'" using busy_mono by blast
        ultimately show ?thesis using Some none True open_ by (auto simp: drain_one_def Let_def)
      next
        case False
        have "core cfg Q (start_swap r ?ev st)"
          using start_swap_ok [OF c none] open_ evict_not_target by blast
        moreover have "drain_one cfg env r (st, rem) = Inr (start_swap r ?ev st, rem)"
          using Some none False open_ by (auto simp: drain_one_def Let_def)
        ultimately show ?thesis
          by (auto simp: start_swap_def Let_def busy_def dom_update)
      qed
    qed
  qed
qed

lemma by_priority_drop: "by_priority cfg (xs @ r # ys) \<Longrightarrow> by_priority cfg (xs @ ys)"
  by (simp add: by_priority_def sorted_wrt_append)

lemma drain_all_ok:
  assumes "core cfg (mset (rem @ pending)) st" and "rem \<noteq> [] \<Longrightarrow> busy st" and "by_priority cfg (rem @ pending)"
  shows "\<exists>st' rem'. foldE (drain_one cfg env) pending (st, rem) = Inr (st', rem') \<and> core cfg (mset rem') st' \<and>
    (rem' \<noteq> [] \<longrightarrow> busy st') \<and> by_priority cfg rem' \<and> set rem' \<subseteq> set (rem @ pending) \<and>
    fst ` set (fs_active st') \<subseteq> rq_model ` set pending \<union> fst ` set (fs_active st)"
  using assms
proof (induction pending arbitrary: st rem)
  case (Cons r rs)
  have c: "core cfg (add_mset r (mset (rem @ rs))) st" using Cons.prems(1) by simp
  from drain_one_ok [OF c, of env rem] obtain st1 rem1 where
    one: "drain_one cfg env r (st, rem) = Inr (st1, rem1)" "busy st \<longrightarrow> busy st1"
      "fst ` set (fs_active st1) \<subseteq> insert (rq_model r) (fst ` set (fs_active st))"
    and cs: "(rem1 = rem \<and> core cfg (mset (rem @ rs)) st1) \<or> (rem1 = rem @ [r] \<and> st1 = st \<and> busy st)"
    by blast
  have "core cfg (mset (rem1 @ rs)) st1" using cs Cons.prems(1) by auto
  moreover have "rem1 \<noteq> [] \<Longrightarrow> busy st1" using cs Cons.prems(2) one(2) by auto
  moreover have "by_priority cfg (rem1 @ rs)" using cs Cons.prems(3) by_priority_drop by auto
  ultimately obtain st' rem' where ih: "foldE (drain_one cfg env) rs (st1, rem1) = Inr (st', rem')"
    "core cfg (mset rem') st'" "rem' \<noteq> [] \<longrightarrow> busy st'" "by_priority cfg rem'" "set rem' \<subseteq> set (rem1 @ rs)"
    "fst ` set (fs_active st') \<subseteq> rq_model ` set rs \<union> fst ` set (fs_active st1)"
    using Cons.IH by blast
  have "set rem' \<subseteq> set (rem @ r # rs)" using ih(5) cs by auto
  moreover have "fst ` set (fs_active st') \<subseteq> rq_model ` set (r # rs) \<union> fst ` set (fs_active st)"
    using ih(6) one(3) by auto
  ultimately show ?case using one(1) ih(1-4) by (intro exI [of _ st'] exI [of _ rem']) simp
qed auto

lemma core_queued [simp]: "core cfg Q (st\<lparr>fs_queued := q\<rparr>) = core cfg Q st"
  by (simp add: core_def swaps_ok_def slots_ok_def held_for_def log_ok_def)

lemma busy_queued [simp]: "busy (st\<lparr>fs_queued := q\<rparr>) = busy st"
  by (simp add: busy_def)

lemma core_log [simp]:
  "settled_id x = [] \<Longrightarrow> admitted_id x = [] \<Longrightarrow> core cfg Q (log_effect x st) = core cfg Q st"
  by (simp add: core_def log_ok_def)

text \<open>Draining restores the invariant from a state whose queue may have nothing to wait for.\<close>

lemma drain_queue_ok:
  assumes "core cfg (mset (fs_queued st)) st" and "by_priority cfg (fs_queued st)"
  shows "\<exists>st'. drain_queue cfg env st = Inr st' \<and> fifo_inv cfg st' \<and> set (fs_queued st') \<subseteq> set (fs_queued st) \<and>
    fst ` set (fs_active st') \<subseteq> rq_model ` set (fs_queued st) \<union> fst ` set (fs_active st)"
proof (cases "fs_queued st = []")
  case True
  with assms show ?thesis by (auto simp: drain_queue_def fifo_inv_def)
next
  case False
  from drain_all_ok [of "[]" "fs_queued st" st env] assms obtain st' rem' where
    "foldE (drain_one cfg env) (fs_queued st) (st, []) = Inr (st', rem')" "core cfg (mset rem') st'"
    "rem' \<noteq> [] \<longrightarrow> busy st'" "by_priority cfg rem'" "set rem' \<subseteq> set (fs_queued st)"
    "fst ` set (fs_active st') \<subseteq> rq_model ` set (fs_queued st) \<union> fst ` set (fs_active st)" by auto
  with False show ?thesis by (auto simp: drain_queue_def fifo_inv_def)
qed

subsection \<open>Requests\<close>

lemma set_insert_by_priority: "mset (insert_by_priority prio r qs) = add_mset r (mset qs)"
  by (induction qs) auto

lemma sorted_insert_by_priority:
  "sorted_wrt (\<lambda>a b. prio b \<le> (prio a :: int)) qs \<Longrightarrow> sorted_wrt (\<lambda>a b. prio b \<le> prio a) (insert_by_priority prio r qs)"
proof (induction qs)
  case (Cons q qs)
  have "set (insert_by_priority prio r qs) = insert r (set qs)"
    using arg_cong [OF set_insert_by_priority [of prio r qs], of set_mset] by simp
  with Cons show ?case by auto
qed simp

lemma enqueue_inv:
  assumes "core cfg (add_mset r (mset (fs_queued st))) st" and "by_priority cfg (fs_queued st)" and "busy st"
  shows "fifo_inv cfg (enqueue cfg r st)"
  using assms sorted_insert_by_priority [of "\<lambda>q. priority cfg (rq_model q)"]
  by (simp add: fifo_inv_def enqueue_def set_insert_by_priority by_priority_def)

lemma fifo_inv_core_log:
  "settled_id x = [] \<Longrightarrow> admitted_id x = [] \<Longrightarrow> fifo_inv cfg (log_effect x st) = fifo_inv cfg st"
  by (simp add: fifo_inv_def busy_def)

lemma admit_ok:
  assumes "fifo_inv cfg st0" and "admit cfg env r st0 = (ok, st)"
  shows "\<not> ok \<Longrightarrow> fifo_inv cfg st"
    and "ok \<Longrightarrow> core cfg (add_mset r (mset (fs_queued st))) st \<and> fs_queued st = fs_queued st0 \<and>
      (busy st \<longleftrightarrow> busy st0)"
proof -
  let ?m = "rq_model r"
  show "\<not> ok \<Longrightarrow> fifo_inv cfg st"
    using assms by (auto simp: admit_def reject_admission_def fifo_inv_core_log split: if_splits)
  assume ok
  with assms(2) have lim: "count_of (fs_reserved st0) ?m < limit cfg ?m" and
    st: "st = log_effect (Admitted (rq_id r))
        (st0\<lparr>fs_reserved := (fs_reserved st0)(?m \<mapsto> count_of (fs_reserved st0) ?m + 1)\<rparr>)"
    by (auto simp: admit_def split: if_splits)
  have c: "core cfg (mset (fs_queued st0)) st0" using assms(1) by (simp add: fifo_inv_def)
  have "swaps_ok st" using c by (simp add: st core_def swaps_ok_def)
  moreover have "slots_ok cfg (add_mset r (mset (fs_queued st0))) st"
    unfolding slots_ok_def
  proof (intro allI conjI)
    fix k
    have h: "held_for (add_mset r (mset (fs_queued st0))) st k =
        held_for (mset (fs_queued st0)) st0 k + (if ?m = k then 1 else 0)"
      unfolding held_for_add by (simp add: held_for_def st)
    have a: "0 \<le> count_of (fs_in_flight st0) k" "count_of (fs_reserved st0) k =
        held_for (mset (fs_queued st0)) st0 k + count_of (fs_in_flight st0) k"
      "count_of (fs_reserved st0) k \<le> max 0 (limit cfg k)"
      using c unfolding core_def slots_ok_def by blast+
    show "0 \<le> count_of (fs_in_flight st) k" using a(1) by (simp add: st)
    show "count_of (fs_reserved st) k = held_for (add_mset r (mset (fs_queued st0))) st k + count_of (fs_in_flight st) k"
      unfolding h using a(2) by (auto simp: st)
    show "count_of (fs_reserved st) k \<le> max 0 (limit cfg k)" using a(3) lim by (auto simp: st)
  qed
  moreover have "log_ok (add_mset r (mset (fs_queued st0))) st"
    using c by (simp add: st core_def log_ok_def)
  ultimately show "core cfg (add_mset r (mset (fs_queued st))) st \<and> fs_queued st = fs_queued st0 \<and>
      (busy st \<longleftrightarrow> busy st0)" by (simp add: core_def st busy_def)
qed

lemma on_request_ok:
  assumes inv: "fifo_inv cfg st"
  shows "\<exists>st'. on_request cfg env r st = Inr st' \<and> fifo_inv cfg st'"
proof (cases "en_state env (rq_id r)")
  case None
  with inv show ?thesis by (simp add: on_request_def reject_admission_def fifo_inv_core_log)
next
  case (Some state)
  obtain ok st1 where a: "admit cfg env r st = (ok, st1)" by (cases "admit cfg env r st")
  show ?thesis
  proof (cases ok)
    case False
    with a Some admit_ok(1) [OF inv a] show ?thesis by (simp add: on_request_def)
  next
    case True
    from admit_ok(2) [OF inv a True] have c: "core cfg (add_mset r (mset (fs_queued st1))) st1"
      and q: "fs_queued st1 = fs_queued st" "busy st1 \<longleftrightarrow> busy st" by auto
    have p: "by_priority cfg (fs_queued st1)" and b: "fs_queued st1 \<noteq> [] \<longrightarrow> busy st1"
      using inv q by (simp_all add: fifo_inv_def)
    from drain_one_ok [OF c, of env "[]"] obtain st' rem' where
      d: "drain_one cfg env r (st1, []) = Inr (st', rem')" "fs_queued st' = fs_queued st1" "busy st1 \<longrightarrow> busy st'"
        "(rem' = [] \<and> core cfg (mset (fs_queued st1)) st') \<or> (rem' = [r] \<and> st' = st1 \<and> busy st1)"
      by auto
    have same: "on_request cfg env r st = (if rem' = [] then Inr st' else Inr (enqueue cfg r st1))"
      using d(1) True a Some
      by (auto simp: on_request_def drain_one_def Let_def bindE_simps split: option.splits if_splits)
    from d(4) show ?thesis
    proof (elim disjE conjE)
      assume "rem' = []" "core cfg (mset (fs_queued st1)) st'"
      with d(2,3) p b show ?thesis by (simp add: same fifo_inv_def)
    next
      assume "rem' = [r]" "busy st1"
      with enqueue_inv [OF c p] show ?thesis by (simp add: same)
    qed
  qed
qed

end

subsection \<open>Taking the waiters out of a swap\<close>

lemma release_active:
  "release m (st\<lparr>fs_active := a\<rparr>) = map_sum id (\<lambda>s. s\<lparr>fs_active := a\<rparr>) (release m st)"
  by (simp add: release_def Let_def)

lemma log_effect_active: "log_effect x (st\<lparr>fs_active := a\<rparr>) = (log_effect x st)\<lparr>fs_active := a\<rparr>"
  by (simp add: log_effect_def)

lemma grant_error_active:
  "grant_error w e (st\<lparr>fs_active := a\<rparr>) = map_sum id (\<lambda>s. s\<lparr>fs_active := a\<rparr>) (grant_error w e st)"
  by (cases "release (rq_model w) st") (simp_all add: grant_error_def release_active log_effect_active)

text \<open>
  A swap whose waiters are set apart: the state as it would be without them, and the requests
  added to those the state accounts for.
\<close>

lemma slots_ok_shift:
  assumes "slots_ok cfg Q st" and "Q' + waiting a = Q + waiting (fs_active st)"
  shows "slots_ok cfg Q' (st\<lparr>fs_active := a\<rparr>)"
proof -
  have "held_for Q' (st\<lparr>fs_active := a\<rparr>) m = held_for Q st m" for m
    using assms(2) by (simp add: held_for_def)
  with assms(1) show ?thesis unfolding slots_ok_def by (metis (no_types) fifo.select_convs(2,3) fifo.surjective fifo.update_convs(1))
qed

lemma log_ok_shift:
  assumes "log_ok Q st" and "Q' + waiting a = Q + waiting (fs_active st)"
  shows "log_ok Q' (st\<lparr>fs_active := a\<rparr>)"
  using assms by (simp add: log_ok_def del: image_mset_union)

lemma core_shift:
  "core cfg Q st \<Longrightarrow> Q' + waiting a = Q + waiting (fs_active st) \<Longrightarrow> swaps_ok (st\<lparr>fs_active := a\<rparr>) \<Longrightarrow>
   core cfg Q' (st\<lparr>fs_active := a\<rparr>)"
  unfolding core_def using slots_ok_shift log_ok_shift by blast

lemma core_set_apart:
  assumes c: "core cfg Q st" and m: "map_of (fs_active st) m = Some sw"
  shows "core cfg (Q + mset (sw_waiters sw)) (st\<lparr>fs_active := AList.update m (sw\<lparr>sw_waiters := []\<rparr>) (fs_active st)\<rparr>)"
    and "core cfg (Q + mset (sw_waiters sw)) (st\<lparr>fs_active := AList.delete m (fs_active st)\<rparr>)"
proof -
  have d: "distinct (map fst (fs_active st))" using c by (simp add: core_def swaps_ok_def)
  let ?u = "AList.update m (sw\<lparr>sw_waiters := []\<rparr>) (fs_active st)"
  let ?d = "AList.delete m (fs_active st)"
  from waiting_update [OF d m, of "sw\<lparr>sw_waiters := []\<rparr>"]
  have wu: "waiting (fs_active st) = waiting ?u + mset (sw_waiters sw)" by simp
  from waiting_delete [OF d m] have wd: "waiting (fs_active st) = waiting ?d + mset (sw_waiters sw)" .
  have "swaps_ok (st\<lparr>fs_active := ?u\<rparr>)"
    using c m unfolding core_def swaps_ok_def by (auto simp: distinct_update split: if_splits)
  then show "core cfg (Q + mset (sw_waiters sw)) (st\<lparr>fs_active := ?u\<rparr>)"
    by (rule core_shift [OF c, rotated]) (simp add: wu)
  have "swaps_ok (st\<lparr>fs_active := ?d\<rparr>)"
    using c m unfolding core_def swaps_ok_def by (auto simp: distinct_delete split: if_splits)
  then show "core cfg (Q + mset (sw_waiters sw)) (st\<lparr>fs_active := ?d\<rparr>)"
    by (rule core_shift [OF c, rotated]) (simp add: wd)
qed

lemma core_put_back:
  assumes c: "core cfg (Q + mset ws) st" and m: "map_of (fs_active st) m = Some sw" "sw_waiters sw = []"
    and ws: "\<forall>w\<in>set ws. rq_model w = m"
  shows "core cfg Q (st\<lparr>fs_active := AList.update m (sw\<lparr>sw_waiters := ws\<rparr>) (fs_active st)\<rparr>)"
proof -
  have d: "distinct (map fst (fs_active st))" using c by (simp add: core_def swaps_ok_def)
  let ?u = "AList.update m (sw\<lparr>sw_waiters := ws\<rparr>) (fs_active st)"
  from waiting_update [OF d m(1), of "sw\<lparr>sw_waiters := ws\<rparr>"] m(2)
  have wu: "waiting ?u = waiting (fs_active st) + mset ws" by simp
  have "swaps_ok (st\<lparr>fs_active := ?u\<rparr>)"
    using c m(1) ws unfolding core_def swaps_ok_def by (auto simp: distinct_update split: if_splits)
  then show ?thesis by (rule core_shift [OF c, rotated]) (simp add: wu)
qed

subsection \<open>Cancellation\<close>

lemma prune_alt:
  "prune rid rs st = foldE (\<lambda>q acc. if rq_id q = rid
      then bindE (bindE (release (rq_model q) (fst acc)) (\<lambda>s. Inr (log_effect (Pruned rid) s))) (\<lambda>s. Inr (s, snd acc))
      else Inr (fst acc, snd acc @ [q])) rs (st, [])"
proof -
  have "(\<lambda>q (st, kept). if rq_id q = rid
          then bindE (release (rq_model q) st) (\<lambda>st'. Inr (log_effect (Pruned rid) st', kept))
          else Inr (st, kept @ [q])) =
      (\<lambda>q acc. if rq_id q = rid
      then bindE (bindE (release (rq_model q) (fst acc)) (\<lambda>s. Inr (log_effect (Pruned rid) s))) (\<lambda>s. Inr (s, snd acc))
      else Inr (fst acc, snd acc @ [q]) :: panic + fifo \<times> req list)"
    by (intro ext) (auto simp: bindE_def split: sum.splits)
  then show ?thesis by (simp add: prune_def)
qed

lemma prune_ok:
  assumes "core cfg (Q + mset rs) st"
  shows "\<exists>st'. prune rid rs st = Inr (st', filter (\<lambda>q. rq_id q \<noteq> rid) rs) \<and>
    core cfg (Q + mset (filter (\<lambda>q. rq_id q \<noteq> rid) rs)) st' \<and> fs_active st' = fs_active st \<and>
    fs_in_flight st' = fs_in_flight st \<and> fs_queued st' = fs_queued st"
proof -
  let ?f = "\<lambda>q acc. if rq_id q = rid
      then bindE (bindE (release (rq_model q) (fst acc)) (\<lambda>s. Inr (log_effect (Pruned rid) s))) (\<lambda>s. Inr (s, snd acc))
      else Inr (fst acc, snd acc @ [q]) :: panic + fifo \<times> req list"
  have "\<exists>st'. foldE ?f rs (st, kept) = Inr (st', kept @ filter (\<lambda>q. rq_id q \<noteq> rid) rs) \<and>
      core cfg (Q + mset kept + mset (filter (\<lambda>q. rq_id q \<noteq> rid) rs)) st' \<and> fs_active st' = fs_active st \<and>
      fs_in_flight st' = fs_in_flight st \<and> fs_queued st' = fs_queued st"
    if "core cfg (Q + mset kept + mset rs) st" for kept
    using that
  proof (induction rs arbitrary: st kept)
    case (Cons q rs)
    show ?case
    proof (cases "rq_id q = rid")
      case True
      have "core cfg (add_mset q (Q + mset kept + mset rs)) st" using Cons.prems by simp
      from settle_ok [OF this, of "Pruned rid"] True obtain st1 where st1:
        "bindE (release (rq_model q) st) (\<lambda>st'. Inr (log_effect (Pruned rid) st')) = Inr st1"
        "core cfg (Q + mset kept + mset rs) st1" "fs_active st1 = fs_active st"
        "fs_in_flight st1 = fs_in_flight st" "fs_queued st1 = fs_queued st" by auto
      from Cons.IH [OF st1(2)] st1 True show ?thesis by auto
    next
      case False
      have "core cfg (Q + mset (kept @ [q]) + mset rs) st" using Cons.prems by (simp add: add_ac)
      from Cons.IH [OF this] False show ?thesis by (simp add: add_ac)
    qed
  qed auto
  from this [of "[]"] assms show ?thesis unfolding prune_alt by simp
qed

lemma prune_active:
  "prune rid rs (st\<lparr>fs_active := a\<rparr>) = map_sum id (\<lambda>(s, k). (s\<lparr>fs_active := a\<rparr>, k)) (prune rid rs st)"
proof -
  let ?h = "\<lambda>(s, k :: req list). (s\<lparr>fs_active := a\<rparr>, k)"
  let ?f = "\<lambda>q acc. if rq_id q = rid
      then bindE (bindE (release (rq_model q) (fst acc)) (\<lambda>s. Inr (log_effect (Pruned rid) s))) (\<lambda>s. Inr (s, snd acc))
      else Inr (fst acc, snd acc @ [q]) :: panic + fifo \<times> req list"
  have step: "?f q (?h acc) = map_sum id ?h (?f q acc)" for q acc
    by (cases acc; cases "release (rq_model q) (fst acc)") (simp_all add: release_active log_effect_active)
  have "(st\<lparr>fs_active := a\<rparr>, []) = ?h (st, [])" by simp
  then show ?thesis unfolding prune_alt using foldE_map_state [of rs ?f ?h "(st, [])"] step by simp
qed

lemma prune_swap_ok:
  assumes c: "core cfg Q st" and m: "map_of (fs_active st) m = Some sw"
  shows "\<exists>st'. prune_swap rid (m, sw) st = Inr st' \<and> core cfg Q st' \<and>
    fs_active st' = AList.update m (sw\<lparr>sw_waiters := filter (\<lambda>q. rq_id q \<noteq> rid) (sw_waiters sw)\<rparr>) (fs_active st) \<and>
    fs_in_flight st' = fs_in_flight st \<and> fs_queued st' = fs_queued st"
proof -
  let ?a = "AList.update m (sw\<lparr>sw_waiters := []\<rparr>) (fs_active st)"
  let ?kept = "filter (\<lambda>q. rq_id q \<noteq> rid) (sw_waiters sw)"
  from prune_ok [OF core_set_apart(1) [OF c m], of rid] obtain s where s:
    "prune rid (sw_waiters sw) (st\<lparr>fs_active := ?a\<rparr>) = Inr (s, ?kept)" "core cfg (Q + mset ?kept) s"
    "fs_active s = ?a" "fs_in_flight s = fs_in_flight st" "fs_queued s = fs_queued st" by auto
  from s(1) obtain s0 where s0: "prune rid (sw_waiters sw) st = Inr (s0, ?kept)" "s = s0\<lparr>fs_active := ?a\<rparr>"
    unfolding prune_active by (cases "prune rid (sw_waiters sw) st") auto
  have act0: "fs_active s0 = fs_active st"
    using prune_active [of rid "sw_waiters sw" "fs_active st" st] s0(1) by (cases s0) simp
  have "\<forall>w\<in>set ?kept. rq_model w = m" using c m by (auto simp: core_def swaps_ok_def)
  from core_put_back [OF s(2) _ _ this, of "sw\<lparr>sw_waiters := []\<rparr>"] s(3)
  have "core cfg Q (s\<lparr>fs_active := AList.update m (sw\<lparr>sw_waiters := ?kept\<rparr>) ?a\<rparr>)" by simp
  moreover have "AList.update m (sw\<lparr>sw_waiters := ?kept\<rparr>) ?a = AList.update m (sw\<lparr>sw_waiters := ?kept\<rparr>) (fs_active st)"
    by simp
  ultimately have "core cfg Q (s0\<lparr>fs_active := AList.update m (sw\<lparr>sw_waiters := ?kept\<rparr>) (fs_active s0)\<rparr>)"
    by (simp add: s0(2) act0)
  with s0 act0 s(4,5) show ?thesis by (simp add: prune_swap_def)
qed

context fifo_router begin

lemma waiting_iff:
  "distinct (map fst active) \<Longrightarrow>
   r \<in># waiting active \<longleftrightarrow> (\<exists>m sw. map_of active m = Some sw \<and> r \<in> set (sw_waiters sw))"
proof -
  assume d: "distinct (map fst active)"
  have "r \<in># waiting active \<longleftrightarrow> (\<exists>(m, sw)\<in>set active. r \<in> set (sw_waiters sw))"
    by (auto simp: waiting_def)
  also have "\<dots> \<longleftrightarrow> (\<exists>m sw. map_of active m = Some sw \<and> r \<in> set (sw_waiters sw))"
    using d by (fastforce dest: map_of_SomeD)
  finally show ?thesis .
qed

lemma prune_swaps_ok:
  assumes "core cfg Q st" and "distinct (map fst al)" and "\<forall>(m, sw)\<in>set al. map_of (fs_active st) m = Some sw"
  shows "\<exists>st'. foldE (prune_swap rid) al st = Inr st' \<and> core cfg Q st' \<and>
    (\<forall>m. map_of (fs_active st') m = map_option (\<lambda>sw. if m \<in> fst ` set al
        then sw\<lparr>sw_waiters := filter (\<lambda>q. rq_id q \<noteq> rid) (sw_waiters sw)\<rparr> else sw) (map_of (fs_active st) m)) \<and>
    fs_in_flight st' = fs_in_flight st \<and> fs_queued st' = fs_queued st"
  using assms
proof (induction al arbitrary: st)
  case Nil
  then show ?case by (simp add: option.map_ident)
next
  case (Cons x al)
  obtain m sw where x: "x = (m, sw)" by (cases x)
  let ?sw = "sw\<lparr>sw_waiters := filter (\<lambda>q. rq_id q \<noteq> rid) (sw_waiters sw)\<rparr>"
  have look: "map_of (fs_active st) m = Some sw" using Cons.prems(3) x by simp
  from prune_swap_ok [OF Cons.prems(1) look, of rid] obtain st1 where st1:
    "prune_swap rid (m, sw) st = Inr st1" "core cfg Q st1" "fs_active st1 = AList.update m ?sw (fs_active st)"
    "fs_in_flight st1 = fs_in_flight st" "fs_queued st1 = fs_queued st" by blast
  have m: "m \<notin> fst ` set al" "distinct (map fst al)" using Cons.prems(2) x by auto
  have "\<forall>(k, v)\<in>set al. map_of (fs_active st1) k = Some v"
    using Cons.prems(3) m(1) by (force simp: st1(3))
  from Cons.IH [OF st1(2) m(2) this] obtain st' where st': "foldE (prune_swap rid) al st1 = Inr st'" "core cfg Q st'"
    "\<forall>k. map_of (fs_active st') k = map_option (\<lambda>sw. if k \<in> fst ` set al
        then sw\<lparr>sw_waiters := filter (\<lambda>q. rq_id q \<noteq> rid) (sw_waiters sw)\<rparr> else sw) (map_of (fs_active st1) k)"
    "fs_in_flight st' = fs_in_flight st1" "fs_queued st' = fs_queued st1" by blast
  have "map_of (fs_active st') k = map_option (\<lambda>sw. if k \<in> fst ` set (x # al)
        then sw\<lparr>sw_waiters := filter (\<lambda>q. rq_id q \<noteq> rid) (sw_waiters sw)\<rparr> else sw) (map_of (fs_active st) k)" for k
    using st'(3) look m(1) by (cases "k = m") (simp_all add: st1(3) x)
  with st'(1,2,4,5) st1 show ?case by (simp add: x)
qed

lemma busy_keys: "dom (map_of (fs_active st')) = dom (map_of (fs_active st)) \<Longrightarrow>
   fs_in_flight st' = fs_in_flight st \<Longrightarrow> busy st' = busy st"
proof -
  assume d: "dom (map_of (fs_active st')) = dom (map_of (fs_active st))" and f: "fs_in_flight st' = fs_in_flight st"
  have "fs_active x \<noteq> [] \<longleftrightarrow> dom (map_of (fs_active x)) \<noteq> {}" for x :: fifo
    by (cases "fs_active x") (auto simp: dom_map_of_conv_image_fst)
  then show "busy st' = busy st" by (simp only: busy_def d f)
qed

lemma on_cancel_ok:
  assumes inv: "fifo_inv cfg st"
  shows "\<exists>st'. on_cancel r st = Inr st' \<and> fifo_inv cfg st' \<and>
    (\<forall>q\<in>set (fs_queued st'). rq_id q \<noteq> rq_id r) \<and> (\<forall>q\<in># waiting (fs_active st'). rq_id q \<noteq> rq_id r)"
proof -
  have c: "core cfg ({#} + mset (fs_queued st)) st" using inv by (simp add: fifo_inv_def)
  let ?q = "filter (\<lambda>q. rq_id q \<noteq> rq_id r) (fs_queued st)"
  from prune_ok [OF c, of "rq_id r"] obtain st1 where st1: "prune (rq_id r) (fs_queued st) st = Inr (st1, ?q)"
    "core cfg (mset ?q) st1" "fs_active st1 = fs_active st" "fs_in_flight st1 = fs_in_flight st"
    "fs_queued st1 = fs_queued st" by auto
  let ?st1 = "st1\<lparr>fs_queued := ?q\<rparr>"
  have c1: "core cfg (mset ?q) ?st1" using st1(2) by simp
  have d: "distinct (map fst (fs_active st))" using inv by (simp add: fifo_inv_def core_def swaps_ok_def)
  have look: "\<forall>(m, sw)\<in>set (fs_active st). map_of (fs_active ?st1) m = Some sw"
    using d st1(3) by auto
  from prune_swaps_ok [OF c1 d look, of "rq_id r"] obtain st' where st':
    "foldE (prune_swap (rq_id r)) (fs_active st) ?st1 = Inr st'" "core cfg (mset ?q) st'"
    "\<forall>m. map_of (fs_active st') m = map_option (\<lambda>sw. if m \<in> fst ` set (fs_active st)
        then sw\<lparr>sw_waiters := filter (\<lambda>q. rq_id q \<noteq> rq_id r) (sw_waiters sw)\<rparr> else sw) (map_of (fs_active ?st1) m)"
    "fs_in_flight st' = fs_in_flight ?st1" "fs_queued st' = fs_queued ?st1" by blast
  have lk: "map_of (fs_active st') m = map_option (\<lambda>sw. if m \<in> fst ` set (fs_active st)
        then sw\<lparr>sw_waiters := filter (\<lambda>q. rq_id q \<noteq> rq_id r) (sw_waiters sw)\<rparr> else sw) (map_of (fs_active st) m)" for m
    using st'(3) st1(3) by simp
  have "m \<in> dom (map_of (fs_active st')) \<longleftrightarrow> m \<in> dom (map_of (fs_active st))" for m
    unfolding domIff lk by simp
  then have "busy st' = busy st" using busy_keys [of st' st] st'(4) st1(4) by auto
  moreover have "by_priority cfg ?q" using inv by (simp add: fifo_inv_def by_priority_def sorted_wrt_filter)
  moreover have "?q \<noteq> [] \<Longrightarrow> fs_queued st \<noteq> []" by auto
  ultimately have "fifo_inv cfg st'" using st'(2,5) inv by (auto simp: fifo_inv_def)
  moreover have "\<forall>q\<in># waiting (fs_active st'). rq_id q \<noteq> rq_id r"
  proof
    fix q assume q: "q \<in># waiting (fs_active st')"
    have "distinct (map fst (fs_active st'))" using st'(2) by (simp add: core_def swaps_ok_def)
    from q [unfolded waiting_iff [OF this]] obtain m sw where sw: "map_of (fs_active st') m = Some sw" "q \<in> set (sw_waiters sw)"
      by blast
    then obtain sw0 where sw0: "map_of (fs_active st) m = Some sw0" by (auto simp: lk)
    then have "m \<in> fst ` set (fs_active st)" by (force dest: map_of_SomeD)
    with sw sw0 show "rq_id q \<noteq> rq_id r" by (auto simp: lk)
  qed
  ultimately show ?thesis using st1(1,3) st'(1,5) by (auto simp: on_cancel_def)
qed

subsection \<open>Swaps that end\<close>

lemma grant_waiters_ok:
  assumes "core cfg (Q + mset ws) st" and "\<forall>w\<in>set ws. rq_model w = m"
    and "\<forall>k sw. map_of (fs_active st) k = Some sw \<longrightarrow> m \<notin> set (sw_evict sw)"
  shows "\<exists>st'. foldE (grant_waiter env m err) ws st = Inr st' \<and> core cfg Q st' \<and> fs_active st' = fs_active st \<and>
    fs_queued st' = fs_queued st"
  using assms
proof (induction ws arbitrary: st)
  case (Cons w ws)
  have c: "core cfg (add_mset w (Q + mset ws)) st" using Cons.prems(1) by simp
  have m: "m = rq_model w" using Cons.prems(2) by simp
  obtain st1 where st1: "grant_waiter env m err w st = Inr st1" "core cfg (Q + mset ws) st1"
    "fs_active st1 = fs_active st" "fs_queued st1 = fs_queued st"
  proof (cases err)
    case (Some e)
    with grant_error_ok [OF c, of e] that show ?thesis by (auto simp: grant_waiter_def)
  next
    case None
    have "\<forall>k sw. map_of (fs_active st) k = Some sw \<longrightarrow> rq_model w \<notin> set (sw_evict sw)"
      using Cons.prems(3) m by simp
    from grant_handler_ok [OF c this, of env] None that m show ?thesis by (auto simp: grant_waiter_def)
  qed
  have "\<forall>w\<in>set ws. rq_model w = m" using Cons.prems(2) by simp
  from Cons.IH [OF st1(2) this] Cons.prems(3) st1(3) obtain st' where
    "foldE (grant_waiter env m err) ws st1 = Inr st'" "core cfg Q st'" "fs_active st' = fs_active st1"
    "fs_queued st' = fs_queued st1" by auto
  with st1 show ?case by simp
qed simp

lemma on_swap_done_ok:
  assumes inv: "fifo_inv cfg st"
  shows "\<exists>st'. on_swap_done cfg env m gen err st = Inr st' \<and> fifo_inv cfg st'"
proof (cases "\<exists>sw. map_of (fs_active st) m = Some sw \<and> sw_generation sw = gen")
  case False
  then have "on_swap_done cfg env m gen err st = Inr st"
    by (auto simp: on_swap_done_def split: option.splits)
  with inv show ?thesis by simp
next
  case True
  then obtain sw where sw: "map_of (fs_active st) m = Some sw" "sw_generation sw = gen" by blast
  let ?st1 = "(log_effect (SwapCancelled m gen) st)\<lparr>fs_active := AList.delete m (fs_active st)\<rparr>"
  have c: "core cfg (mset (fs_queued st)) st" using inv by (simp add: fifo_inv_def)
  have c1: "core cfg (mset (fs_queued st) + mset (sw_waiters sw)) ?st1"
    using core_set_apart(2) [OF c sw(1)] by (simp flip: log_effect_active)
  have ws: "\<forall>w\<in>set (sw_waiters sw). rq_model w = m" using c sw(1) by (simp add: core_def swaps_ok_def)
  have "\<forall>k sw'. map_of (fs_active ?st1) k = Some sw' \<longrightarrow> m \<notin> set (sw_evict sw')"
  proof (intro allI impI)
    fix k sw' assume "map_of (fs_active ?st1) k = Some sw'"
    then have "map_of (fs_active st) k = Some sw'" "k \<noteq> m" by (auto split: if_splits)
    with c sw(1) show "m \<notin> set (sw_evict sw')" unfolding core_def swaps_ok_def by blast
  qed
  from grant_waiters_ok [OF c1 ws this, of env err] obtain st2 where st2:
    "foldE (grant_waiter env m err) (sw_waiters sw) ?st1 = Inr st2" "core cfg (mset (fs_queued st)) st2"
    "fs_queued st2 = fs_queued st" by auto
  have "core cfg (mset (fs_queued st2)) st2" "by_priority cfg (fs_queued st2)"
    using st2(2,3) inv by (simp_all add: fifo_inv_def)
  from drain_queue_ok [OF this, of env] st2(1) sw show ?thesis by (auto simp: on_swap_done_def)
qed

lemma on_serve_done_ok:
  assumes inv: "fifo_inv cfg st" and pos: "0 < count_of (fs_in_flight st) m"
  shows "\<exists>st'. on_serve_done cfg env m st = Inr st' \<and> fifo_inv cfg st'"
proof -
  let ?n = "count_of (fs_in_flight st) m - 1"
  let ?st1 = "st\<lparr>fs_in_flight := (fs_in_flight st)(m \<mapsto> ?n)\<rparr>"
  have c: "swaps_ok st" "slots_ok cfg (mset (fs_queued st)) st" "log_ok (mset (fs_queued st)) st"
    using inv by (simp_all add: fifo_inv_def core_def)
  let ?r = "count_of (fs_reserved st) m"
  have h0: "0 \<le> held_for (mset (fs_queued st)) st m" by (rule held_for_nonneg)
  have r: "?r = held_for (mset (fs_queued st)) st m + count_of (fs_in_flight st) m"
    using c(2) unfolding slots_ok_def by blast
  with h0 pos have rpos: "0 < ?r" by linarith
  define res where "res = (if ?r - 1 = 0 then (fs_reserved st)(m := None) else (fs_reserved st)(m \<mapsto> ?r - 1))"
  have res: "count_of res k = count_of (fs_reserved st) k - (if k = m then 1 else 0)" for k
    by (auto simp: res_def)
  let ?st2 = "?st1\<lparr>fs_reserved := res\<rparr>"
  have rel: "release m ?st1 = Inr ?st2" using rpos by (simp add: release_def Let_def res_def)
  have core: "core cfg (mset (fs_queued st)) (?st2\<lparr>fs_in_flight := f\<rparr>)"
    if f: "\<And>k. count_of f k = count_of (fs_in_flight st) k - (if k = m then 1 else 0)" for f
  proof -
    let ?st3 = "?st2\<lparr>fs_in_flight := f\<rparr>"
    have ev: "count_of f e = 0" if "map_of (fs_active st) k = Some sw" "e \<in> set (sw_evict sw)" for k sw e
    proof -
      have "count_of (fs_in_flight st) e = 0" using c(1) that unfolding swaps_ok_def by blast
      moreover from this pos have "e \<noteq> m" by auto
      ultimately show ?thesis using f by simp
    qed
    have "swaps_ok ?st3" using c(1) ev unfolding swaps_ok_def by simp
    moreover have "slots_ok cfg (mset (fs_queued st)) ?st3" unfolding slots_ok_def
    proof (intro allI conjI)
      fix k
      have h: "held_for (mset (fs_queued st)) ?st3 k = held_for (mset (fs_queued st)) st k"
        by (rule held_for_cong) simp
      have a: "0 \<le> count_of (fs_in_flight st) k"
        "count_of (fs_reserved st) k = held_for (mset (fs_queued st)) st k + count_of (fs_in_flight st) k"
        "count_of (fs_reserved st) k \<le> max 0 (limit cfg k)" using c(2) unfolding slots_ok_def by blast+
      show "0 \<le> count_of (fs_in_flight ?st3) k" using a(1) f [of k] pos by auto
      show "count_of (fs_reserved ?st3) k = held_for (mset (fs_queued st)) ?st3 k + count_of (fs_in_flight ?st3) k"
        unfolding h using a(2) f [of k] res [of k] by simp
      show "count_of (fs_reserved ?st3) k \<le> max 0 (limit cfg k)" using a(3) res [of k] by auto
    qed
    moreover have "log_ok (mset (fs_queued st)) ?st3" using c(3) by (simp add: log_ok_def)
    ultimately show ?thesis by (simp add: core_def)
  qed
  show ?thesis
  proof (cases "?n \<le> 0")
    case True
    with pos have n0: "count_of (fs_in_flight st) m = 1" by linarith
    let ?st3 = "?st2\<lparr>fs_in_flight := (fs_in_flight ?st2)(m := None)\<rparr>"
    have "core cfg (mset (fs_queued ?st3)) ?st3"
      using core [of "(fs_in_flight ?st2)(m := None)"] n0 by simp
    moreover have "by_priority cfg (fs_queued ?st3)" using inv by (simp add: fifo_inv_def)
    ultimately show ?thesis using drain_queue_ok [of ?st3 env] rel True by (auto simp: on_serve_done_def)
  next
    case False
    have "core cfg (mset (fs_queued st)) (?st2\<lparr>fs_in_flight := (fs_in_flight st)(m \<mapsto> ?n)\<rparr>)"
      by (rule core) simp
    moreover have "?st2\<lparr>fs_in_flight := (fs_in_flight st)(m \<mapsto> ?n)\<rparr> = ?st2"
      by (rule fifo.equality) simp_all
    ultimately have "core cfg (mset (fs_queued st)) ?st2" by (simp only:)
    moreover have "busy ?st2" using False by (auto simp: busy_def intro!: exI [of _ m])
    ultimately have "fifo_inv cfg ?st2" using inv by (simp add: fifo_inv_def)
    with rel False show ?thesis by (simp add: on_serve_done_def)
  qed
qed

end

context fifo_router begin

subsection \<open>Unloading\<close>

lemma grant_errors_ok:
  assumes "core cfg (Q + mset ws) st"
  shows "\<exists>st'. foldE (\<lambda>w. grant_error w e) ws st = Inr st' \<and> core cfg Q st' \<and> fs_active st' = fs_active st \<and>
    fs_in_flight st' = fs_in_flight st \<and> fs_queued st' = fs_queued st"
  using assms
proof (induction ws arbitrary: st)
  case (Cons w ws)
  have c: "core cfg (add_mset w (Q + mset ws)) st" using Cons.prems(1) by simp
  from grant_error_ok [OF c, of e] obtain st1 where st1: "grant_error w e st = Inr st1" "core cfg (Q + mset ws) st1"
    "fs_active st1 = fs_active st" "fs_in_flight st1 = fs_in_flight st" "fs_queued st1 = fs_queued st" by blast
  from Cons.IH [OF st1(2)] st1 show ?case by auto
qed simp

lemma grant_errors_active:
  "foldE (\<lambda>w. grant_error w e) ws (st\<lparr>fs_active := a\<rparr>) =
   map_sum id (\<lambda>s. s\<lparr>fs_active := a\<rparr>) (foldE (\<lambda>w. grant_error w e) ws st)"
  by (rule foldE_map_state) (rule grant_error_active)

lemma cancel_target_ok:
  assumes c: "core cfg Q st"
  shows "\<exists>st'. cancel_target m st = Inr st' \<and> core cfg Q st' \<and>
    fs_active st' = AList.delete m (fs_active st) \<and> fs_queued st' = fs_queued st"
proof (cases "map_of (fs_active st) m")
  case None
  then have "AList.delete m (fs_active st) = fs_active st"
    using delete_idem [of m "fs_active st"] by (simp add: map_of_eq_None_iff)
  with None c show ?thesis by (simp add: cancel_target_def)
next
  case (Some sw)
  let ?l = "log_effect (SwapCancelled m (sw_generation sw)) st"
  let ?d = "AList.delete m (fs_active st)"
  have "core cfg (Q + mset (sw_waiters sw)) (?l\<lparr>fs_active := ?d\<rparr>)"
    using core_set_apart(2) [OF c Some] by (simp flip: log_effect_active)
  from grant_errors_ok [OF this, of ErrUnloaded] obtain s where s:
    "foldE (\<lambda>w. grant_error w ErrUnloaded) (sw_waiters sw) (?l\<lparr>fs_active := ?d\<rparr>) = Inr s" "core cfg Q s"
    "fs_active s = ?d" "fs_queued s = fs_queued st" by auto
  from s(1) obtain s0 where s0: "foldE (\<lambda>w. grant_error w ErrUnloaded) (sw_waiters sw) ?l = Inr s0"
    "s = s0\<lparr>fs_active := ?d\<rparr>"
    unfolding grant_errors_active by (cases "foldE (\<lambda>w. grant_error w ErrUnloaded) (sw_waiters sw) ?l") auto
  have "?l\<lparr>fs_active := fs_active st\<rparr> = ?l" by (simp add: log_effect_def)
  with grant_errors_active [of ErrUnloaded "sw_waiters sw" "fs_active st" ?l]
  have "foldE (\<lambda>w. grant_error w ErrUnloaded) (sw_waiters sw) ?l =
      map_sum id (\<lambda>s. s\<lparr>fs_active := fs_active st\<rparr>) (foldE (\<lambda>w. grant_error w ErrUnloaded) (sw_waiters sw) ?l)"
    by (simp only:)
  then have "s0 = s0\<lparr>fs_active := fs_active st\<rparr>" unfolding s0(1) by simp
  then have "fs_active s0 = fs_active (s0\<lparr>fs_active := fs_active st\<rparr>)" by (rule arg_cong)
  then have "fs_active s0 = fs_active st" by simp
  then have "cancel_target m st = Inr s" using Some s0 by (simp add: cancel_target_def)
  with s show ?thesis by blast
qed

lemma cancel_targets_ok:
  assumes "core cfg Q st"
  shows "\<exists>st'. foldE cancel_target ms st = Inr st' \<and> core cfg Q st' \<and> fs_queued st' = fs_queued st \<and>
    fst ` set (fs_active st') = fst ` set (fs_active st) - set ms"
  using assms
proof (induction ms arbitrary: st)
  case (Cons m ms)
  from cancel_target_ok [OF Cons.prems, of m] obtain st1 where st1: "cancel_target m st = Inr st1" "core cfg Q st1"
    "fs_active st1 = AList.delete m (fs_active st)" "fs_queued st1 = fs_queued st" by blast
  have k: "fst ` set (fs_active st1) = fst ` set (fs_active st) - {m}"
    unfolding st1(3) set_delete by auto
  from Cons.IH [OF st1(2)] obtain st' where "foldE cancel_target ms st1 = Inr st'" "core cfg Q st'"
    "fs_queued st' = fs_queued st1" "fst ` set (fs_active st') = fst ` set (fs_active st1) - set ms" by blast
  with st1 k show ?case by auto
qed simp

lemma drop_targets_ok:
  assumes "core cfg (mset (kept @ pending)) st"
  shows "\<exists>st'. foldE (drop_target targets) pending (st, kept) =
      Inr (st', kept @ filter (\<lambda>w. rq_model w \<notin> set targets) pending) \<and>
    core cfg (mset (kept @ filter (\<lambda>w. rq_model w \<notin> set targets) pending)) st' \<and>
    fs_active st' = fs_active st"
  using assms
proof (induction pending arbitrary: st kept)
  case (Cons w ws)
  show ?case
  proof (cases "rq_model w \<in> set targets")
    case True
    have "core cfg (add_mset w (mset (kept @ ws))) st" using Cons.prems by simp
    from grant_error_ok [OF this, of ErrUnloaded] obtain st1 where st1: "grant_error w ErrUnloaded st = Inr st1"
      "core cfg (mset (kept @ ws)) st1" "fs_active st1 = fs_active st" by blast
    from Cons.IH [OF st1(2)] st1 True show ?thesis by (auto simp: drop_target_def)
  next
    case False
    have "core cfg (mset ((kept @ [w]) @ ws)) st" using Cons.prems by simp
    from Cons.IH [OF this] False show ?thesis by (auto simp: drop_target_def)
  qed
qed auto

lemma on_unload_ok:
  assumes inv: "fifo_inv cfg st"
  shows "\<exists>st'. on_unload cfg env targets st = Inr st' \<and> fifo_inv cfg st' \<and>
    fst ` set (fs_active st') \<inter> set targets = {} \<and> rq_model ` set (fs_queued st') \<inter> set targets = {}"
proof -
  have c: "core cfg (mset (fs_queued st)) st" using inv by (simp add: fifo_inv_def)
  from cancel_targets_ok [OF c, of "remdups targets"] obtain st1 where st1:
    "foldE cancel_target (remdups targets) st = Inr st1" "core cfg (mset (fs_queued st)) st1"
    "fs_queued st1 = fs_queued st" "fst ` set (fs_active st1) = fst ` set (fs_active st) - set targets" by auto
  let ?q = "filter (\<lambda>w. rq_model w \<notin> set targets) (fs_queued st)"
  from drop_targets_ok [of "[]" "fs_queued st1" st1 targets] st1(2,3) obtain st2 where st2:
    "foldE (drop_target targets) (fs_queued st1) (st1, []) = Inr (st2, ?q)"
    "core cfg (mset ?q) st2" "fs_active st2 = fs_active st1" by auto
  let ?st3 = "log_effect (ProcessesStopped targets) (st2\<lparr>fs_queued := ?q\<rparr>)"
  have "core cfg (mset (fs_queued ?st3)) ?st3" using st2(2) by simp
  moreover have "by_priority cfg (fs_queued ?st3)"
    using inv by (simp add: fifo_inv_def by_priority_def sorted_wrt_filter)
  ultimately obtain st' where st': "drain_queue cfg env ?st3 = Inr st'" "fifo_inv cfg st'"
    "set (fs_queued st') \<subseteq> set (fs_queued ?st3)"
    "fst ` set (fs_active st') \<subseteq> rq_model ` set (fs_queued ?st3) \<union> fst ` set (fs_active ?st3)"
    using drain_queue_ok [of ?st3 env] by blast
  have "on_unload cfg env targets st = Inr st'" using st1(1) st2(1) st'(1) by (simp add: on_unload_def)
  moreover have "fst ` set (fs_active st') \<inter> set targets = {}"
    using st'(4) st2(3) st1(4) by auto
  moreover have "rq_model ` set (fs_queued st') \<inter> set targets = {}" using st'(3) by auto
  ultimately show ?thesis using st'(2) by blast
qed

subsection \<open>Shutdown\<close>

text \<open>Enough reservations for a list of requests, and what granting errors settles.\<close>

lemma grant_errors_total:
  assumes "\<forall>m. int (size {#r \<in># mset ws + R. rq_model r = m#}) \<le> count_of (fs_reserved st) m"
  shows "\<exists>st'. foldE (\<lambda>w. grant_error w e) ws st = Inr st' \<and> fs_active st' = fs_active st \<and> fs_queued st' = fs_queued st \<and>
    (\<forall>m. int (size {#r \<in># R. rq_model r = m#}) \<le> count_of (fs_reserved st') m) \<and>
    fs_log st' = fs_log st @ map (\<lambda>w. ErrorSent (rq_id w) e) ws"
  using assms
proof (induction ws arbitrary: st)
  case (Cons w ws)
  let ?n = "count_of (fs_reserved st) (rq_model w)"
  have a: "int (size {#r \<in># mset (w # ws) + R. rq_model r = m#}) \<le> count_of (fs_reserved st) m" for m
    using Cons.prems by blast
  have pos: "0 < ?n" using a [of "rq_model w"] by simp
  define st1 where "st1 = log_effect (ErrorSent (rq_id w) e) (st\<lparr>fs_reserved :=
      (if ?n - 1 = 0 then (fs_reserved st)(rq_model w := None) else (fs_reserved st)(rq_model w \<mapsto> ?n - 1))\<rparr>)"
  have g: "grant_error w e st = Inr st1" using pos by (simp add: grant_error_def release_def Let_def st1_def)
  have "int (size {#r \<in># mset ws + R. rq_model r = m#}) \<le> count_of (fs_reserved st1) m" for m
    using a [of m] by (auto simp: st1_def split: if_splits)
  then obtain st' where "foldE (\<lambda>w. grant_error w e) ws st1 = Inr st'" "fs_active st' = fs_active st1"
    "fs_queued st' = fs_queued st1" "\<forall>m. int (size {#r \<in># R. rq_model r = m#}) \<le> count_of (fs_reserved st') m"
    "fs_log st' = fs_log st1 @ map (\<lambda>w. ErrorSent (rq_id w) e) ws" using Cons.IH [of st1] by blast
  with g show ?case by (simp add: st1_def log_effect_def)
qed simp

definition shutdown_log :: "sched_error \<Rightarrow> fifo \<Rightarrow> effect list" where
  "shutdown_log e st =
     concat (map (\<lambda>(m, sw). SwapCancelled m (sw_generation sw) # map (\<lambda>w. ErrorSent (rq_id w) e) (sw_waiters sw))
       (fs_active st)) @ map (\<lambda>w. ErrorSent (rq_id w) e) (fs_queued st)"

lemma on_shutdown_ok:
  assumes inv: "fifo_inv cfg st"
  shows "\<exists>st'. on_shutdown e st = Inr st' \<and> fs_log st' = fs_log st @ shutdown_log e st"
proof -
  let ?f = "\<lambda>(m, sw) st. foldE (\<lambda>w. grant_error w e) (sw_waiters sw) (log_effect (SwapCancelled m (sw_generation sw)) st)"
  let ?l = "\<lambda>al. concat (map (\<lambda>(m, sw). SwapCancelled m (sw_generation sw) # map (\<lambda>w. ErrorSent (rq_id w) e) (sw_waiters sw)) al)"
  have fold: "\<exists>st'. foldE ?f al s = Inr st' \<and> fs_queued st' = fs_queued s \<and>
      (\<forall>m. int (size {#r \<in># R. rq_model r = m#}) \<le> count_of (fs_reserved st') m) \<and> fs_log st' = fs_log s @ ?l al"
    if "\<forall>m. int (size {#r \<in># waiting al + R. rq_model r = m#}) \<le> count_of (fs_reserved s) m" for al R s
    using that
  proof (induction al arbitrary: s)
    case (Cons x al)
    obtain m sw where x: "x = (m, sw)" by (cases x)
    let ?s = "log_effect (SwapCancelled m (sw_generation sw)) s"
    have "\<forall>k. int (size {#r \<in># mset (sw_waiters sw) + (waiting al + R). rq_model r = k#}) \<le> count_of (fs_reserved ?s) k"
      using Cons.prems by (simp add: x add.assoc)
    from grant_errors_total [OF this, of e] obtain s1 where s1:
      "foldE (\<lambda>w. grant_error w e) (sw_waiters sw) ?s = Inr s1" "fs_queued s1 = fs_queued ?s"
      "\<forall>m. int (size {#r \<in># waiting al + R. rq_model r = m#}) \<le> count_of (fs_reserved s1) m"
      "fs_log s1 = fs_log ?s @ map (\<lambda>w. ErrorSent (rq_id w) e) (sw_waiters sw)" by blast
    from Cons.IH [OF s1(3)] s1 show ?case by (auto simp: x log_effect_def)
  qed simp
  have res: "int (size {#r \<in># waiting (fs_active st) + mset (fs_queued st). rq_model r = m#}) \<le> count_of (fs_reserved st) m" for m
  proof -
    have "0 \<le> count_of (fs_in_flight st) m \<and> count_of (fs_reserved st) m = held_for (mset (fs_queued st)) st m + count_of (fs_in_flight st) m"
      using inv unfolding fifo_inv_def core_def slots_ok_def by blast
    then show ?thesis by (simp add: held_for_def add.commute)
  qed
  obtain s1 where s1: "foldE ?f (fs_active st) st = Inr s1" "fs_queued s1 = fs_queued st"
    "\<forall>m. int (size {#r \<in># mset (fs_queued st). rq_model r = m#}) \<le> count_of (fs_reserved s1) m"
    "fs_log s1 = fs_log st @ ?l (fs_active st)" using fold [of "fs_active st" "mset (fs_queued st)" st] res by blast
  have "\<forall>m. int (size {#r \<in># mset (fs_queued st) + {#}. rq_model r = m#}) \<le> count_of (fs_reserved s1) m"
    using s1(3) by simp
  from grant_errors_total [OF this, of e] obtain s2 where
    "foldE (\<lambda>w. grant_error w e) (fs_queued st) s1 = Inr s2"
    "fs_log s2 = fs_log s1 @ map (\<lambda>w. ErrorSent (rq_id w) e) (fs_queued st)" by blast
  with s1 show ?thesis by (simp add: on_shutdown_def shutdown_log_def)
qed

lemma new_fifo_inv: "fifo_inv cfg new_fifo"
  by (simp add: new_fifo_def fifo_inv_def core_def swaps_ok_def slots_ok_def held_for_def log_ok_def
      admitted_def settled_def by_priority_def)

end

section \<open>The event loop\<close>

text \<open>
  The events of \<open>baseRouter.run\<close>. A \<open>ServeDone\<close> arrives once for each handler a caller received
  (\<open>trackedServe\<close>), so only for a model with requests in flight; every other event may arrive at
  any time, a stale \<open>SwapDone\<close> included.
\<close>

datatype event =
    EvRequest env req
  | EvCancel req
  | EvSwapDone env string "64 word" "sched_error option"
  | EvServeDone env string
  | EvUnload env "string list"

fun handle :: "fifo_config \<Rightarrow> event \<Rightarrow> fifo \<Rightarrow> panic + fifo" where
  "handle cfg (EvRequest env r) st = on_request cfg env r st"
| "handle cfg (EvCancel r) st = on_cancel r st"
| "handle cfg (EvSwapDone env m gen err) st = on_swap_done cfg env m gen err st"
| "handle cfg (EvServeDone env m) st = on_serve_done cfg env m st"
| "handle cfg (EvUnload env targets) st = on_unload cfg env targets st"

fun enabled :: "event \<Rightarrow> fifo \<Rightarrow> bool" where
  "enabled (EvServeDone env m) st = (0 < count_of (fs_in_flight st) m)"
| "enabled ev st = True"

inductive fifo_reach :: "fifo_config \<Rightarrow> fifo \<Rightarrow> bool" for cfg where
  reach_new: "fifo_reach cfg new_fifo"
| reach_step: "fifo_reach cfg st \<Longrightarrow> enabled ev st \<Longrightarrow> handle cfg ev st = Inr st' \<Longrightarrow> fifo_reach cfg st'"

context fifo_router begin

lemma handle_ok:
  assumes "fifo_inv cfg st" and "enabled ev st"
  shows "\<exists>st'. handle cfg ev st = Inr st' \<and> fifo_inv cfg st'"
  using assms
proof (cases ev)
  case (EvCancel r)
  with on_cancel_ok [OF assms(1), of r] show ?thesis by auto
next
  case (EvUnload env ts)
  with on_unload_ok [OF assms(1), of env ts] show ?thesis by auto
qed (auto simp: on_request_ok on_swap_done_ok on_serve_done_ok)

lemma reach_inv: "fifo_reach cfg st \<Longrightarrow> fifo_inv cfg st"
proof (induction rule: fifo_reach.induct)
  case reach_new
  show ?case by (rule new_fifo_inv)
next
  case (reach_step st ev st')
  from handle_ok [OF reach_step.IH reach_step.hyps(2)] reach_step.hyps(3) show ?case by auto
qed

text \<open>What the invariant says in terms of the state alone.\<close>

lemma inv_safety:
  assumes "fifo_inv cfg st" and "map_of (fs_active st) m = Some sw" and "e \<in> set (sw_evict sw)"
  shows "count_of (fs_in_flight st) e = 0" "e \<noteq> m"
    "map_of (fs_active st) m' = Some sw' \<Longrightarrow> m' \<noteq> m \<Longrightarrow> e \<noteq> m' \<and> e \<notin> set (sw_evict sw')"
  using assms unfolding fifo_inv_def core_def swaps_ok_def by blast+

lemma inv_limit:
  assumes "fifo_inv cfg st" and "0 < limit cfg m"
  shows "int (size {#r \<in># mset (fs_queued st) + waiting (fs_active st). rq_model r = m#}) +
    count_of (fs_in_flight st) m \<le> limit cfg m"
  using assms unfolding fifo_inv_def core_def slots_ok_def held_for_def by (metis max.absorb2 order_less_imp_le)

end

end
