(* ===== verification/FifoLedger.thy ===== *)
theory FifoLedger
  imports Fifo
begin

text \<open>
  Histories of the scheduler as lists of events, and the ledger of what is being served: the in-flight counter of a
  model is the number of its handlers that callers received, less those that have finished.
\<close>

fun fifo_run :: "fifo_config \<Rightarrow> event list \<Rightarrow> fifo \<Rightarrow> fifo option" where
  "fifo_run cfg [] st = Some st"
| "fifo_run cfg (ev # evs) st =
     (if enabled ev st then (case handle cfg ev st of Inl e \<Rightarrow> None | Inr st' \<Rightarrow> fifo_run cfg evs st') else None)"

lemma fifo_run_reach: "fifo_run cfg evs st = Some st' \<Longrightarrow> fifo_reach cfg st \<Longrightarrow> fifo_reach cfg st'"
  by (induction cfg evs st rule: fifo_run.induct) (auto split: if_splits sum.splits intro: reach_step)

lemma reach_fifo_run: "fifo_reach cfg st \<Longrightarrow> \<exists>evs. fifo_run cfg evs new_fifo = Some st"
proof (induction rule: fifo_reach.induct)
  case reach_new
  show ?case by (intro exI [of _ "[]"]) simp
next
  case (reach_step st ev st')
  then obtain evs where evs: "fifo_run cfg evs new_fifo = Some st" by blast
  have "fifo_run cfg (evs @ [ev]) s = Some st'" if "fifo_run cfg evs s = Some st" for s
    using that reach_step.hyps(2,3)
    by (induction cfg evs s rule: fifo_run.induct) (auto split: if_splits sum.splits)
  with evs show ?case by blast
qed

text \<open>The handlers received for a model, and the ends of serving among the events.\<close>

definition handlers_received :: "string \<Rightarrow> effect list \<Rightarrow> int" where
  "handlers_received m entries = int (length (filter (\<lambda>x. case x of Served r k \<Rightarrow> k = m | _ \<Rightarrow> False) entries))"

definition serves_ended :: "string \<Rightarrow> event list \<Rightarrow> int" where
  "serves_ended m evs = int (length (filter (\<lambda>ev. case ev of EvServeDone env k \<Rightarrow> k = m | _ \<Rightarrow> False) evs))"

definition ledger :: "string \<Rightarrow> fifo \<Rightarrow> int" where
  "ledger m st = handlers_received m (fs_log st) - count_of (fs_in_flight st) m"

definition served_entry :: "effect \<Rightarrow> bool" where
  "served_entry x \<longleftrightarrow> (case x of Served r m \<Rightarrow> True | _ \<Rightarrow> False)"

lemma handlers_received_snoc:
  "handlers_received m (entries @ [x]) = handlers_received m entries + (case x of Served r k \<Rightarrow> if k = m then 1 else 0 | _ \<Rightarrow> 0)"
  by (cases x) (simp_all add: handlers_received_def)

lemma ledger_log [simp]: "\<not> served_entry x \<Longrightarrow> ledger m (log_effect x st) = ledger m st"
  by (cases x) (simp_all add: ledger_def log_effect_def served_entry_def handlers_received_snoc)

lemma ledger_fields [simp]:
  "ledger m (st\<lparr>fs_active := a\<rparr>) = ledger m st" "ledger m (st\<lparr>fs_queued := q\<rparr>) = ledger m st"
  "ledger m (st\<lparr>fs_reserved := r\<rparr>) = ledger m st" "ledger m (st\<lparr>fs_next := n\<rparr>) = ledger m st"
  by (simp_all add: ledger_def)

lemma ledger_release: "release k st = Inr st' \<Longrightarrow> ledger m st' = ledger m st"
  by (auto simp: release_def Let_def split: if_splits)

lemma ledger_grant_error: "grant_error r e st = Inr st' \<Longrightarrow> ledger m st' = ledger m st"
  by (auto simp: grant_error_def bindE_simps served_entry_def dest: ledger_release)

lemma ledger_grant_handler: "grant_handler env r k st = Inr st' \<Longrightarrow> ledger m st' = ledger m st"
proof (cases "en_grant env (rq_id r)")
  case True
  then show "grant_handler env r k st = Inr st' \<Longrightarrow> ?thesis"
    by (auto simp: grant_handler_def ledger_def log_effect_def handlers_received_snoc)
qed (auto simp: grant_handler_def served_entry_def dest: ledger_release)

lemma ledger_grant_waiter: "grant_waiter env k err w st = Inr st' \<Longrightarrow> ledger m st' = ledger m st"
  by (auto simp: grant_waiter_def dest: ledger_grant_error ledger_grant_handler split: option.splits)

lemma ledger_foldE:
  assumes "foldE f xs st = Inr st'" and "\<And>x s s'. f x s = Inr s' \<Longrightarrow> ledger m (g s') = ledger m (g s)"
  shows "ledger m (g st') = ledger m (g st)"
  by (rule foldE_invariant [OF assms(1), of "\<lambda>s. ledger m (g s) = ledger m (g st)"]) (auto dest: assms(2))

lemma ledger_swaps [simp]:
  "ledger m (start_swap r evict st) = ledger m st" "ledger m (join_swap k sw r st) = ledger m st"
  "ledger m (enqueue cfg r st) = ledger m st" "ledger m (reject_admission env r e st) = ledger m st"
  by (simp_all add: start_swap_def join_swap_def enqueue_def reject_admission_def served_entry_def Let_def)

lemma ledger_admit [simp]: "ledger m (snd (admit cfg env r st)) = ledger m st"
  by (simp add: admit_def served_entry_def)

lemma ledger_drain_one: "drain_one cfg env r acc = Inr acc' \<Longrightarrow> ledger m (fst acc') = ledger m (fst acc)"
  by (cases acc)
     (auto simp: drain_one_def bindE_simps Let_def dest: ledger_grant_error ledger_grant_handler
       split: option.splits if_splits)

lemma ledger_drain_queue: "drain_queue cfg env st = Inr st' \<Longrightarrow> ledger m st' = ledger m st"
  by (auto simp: drain_queue_def bindE_simps dest!: ledger_foldE [where g = fst, OF _ ledger_drain_one] split: if_splits)

lemma ledger_on_request: "on_request cfg env r st = Inr st' \<Longrightarrow> ledger m st' = ledger m st"
  using ledger_admit [of m cfg env r st]
  by (cases "admit cfg env r st")
     (auto simp: on_request_def Let_def dest!: ledger_grant_handler [where m = m] split: option.splits if_splits)

lemma ledger_prune: "prune i rs st = Inr (st', kept) \<Longrightarrow> ledger m st' = ledger m st"
proof -
  assume p: "prune i rs st = Inr (st', kept)"
  have "ledger m (fst (st', kept)) = ledger m (fst (st, [] :: req list))"
    by (rule ledger_foldE [OF p [unfolded prune_def]])
       (auto simp: bindE_simps served_entry_def dest!: ledger_release [where m = m] split: if_splits)
  then show ?thesis by simp
qed

lemma ledger_on_cancel: "on_cancel r st = Inr st' \<Longrightarrow> ledger m st' = ledger m st"
proof -
  have swap: "prune_swap i msw s = Inr s' \<Longrightarrow> ledger m s' = ledger m s" for i msw s s'
    by (cases msw) (auto simp: prune_swap_def bindE_simps dest: ledger_prune)
  show "on_cancel r st = Inr st' \<Longrightarrow> ledger m st' = ledger m st"
    by (auto simp: on_cancel_def bindE_simps dest!: ledger_foldE [where g = "\<lambda>x. x" and m = m, OF _ swap] ledger_prune [where m = m])
qed

lemma ledger_on_swap_done: "on_swap_done cfg env k gen err st = Inr st' \<Longrightarrow> ledger m st' = ledger m st"
  by (auto simp: on_swap_done_def bindE_simps served_entry_def
      dest!: ledger_foldE [where g = "\<lambda>x. x" and m = m, OF _ ledger_grant_waiter] ledger_drain_queue [where m = m]
      split: option.splits if_splits)

lemma ledger_cancel_target: "cancel_target k st = Inr st' \<Longrightarrow> ledger m st' = ledger m st"
  by (auto simp: cancel_target_def bindE_simps served_entry_def
      dest!: ledger_foldE [where g = "\<lambda>x. x" and m = m, OF _ ledger_grant_error] split: option.splits)

lemma ledger_drop_target: "drop_target ts w acc = Inr acc' \<Longrightarrow> ledger m (fst acc') = ledger m (fst acc)"
  by (cases acc) (auto simp: drop_target_def bindE_simps dest: ledger_grant_error split: if_splits)

lemma ledger_on_unload: "on_unload cfg env ts st = Inr st' \<Longrightarrow> ledger m st' = ledger m st"
  by (auto simp: on_unload_def bindE_simps served_entry_def
      dest!: ledger_foldE [where g = "\<lambda>x. x" and m = m, OF _ ledger_cancel_target]
        ledger_foldE [where g = fst and m = m, OF _ ledger_drop_target] ledger_drain_queue [where m = m])

lemma ledger_on_serve_done:
  assumes "on_serve_done cfg env k st = Inr st'" and "0 < count_of (fs_in_flight st) k"
  shows "ledger m st' = ledger m st + (if k = m then 1 else 0)"
proof -
  let ?st = "st\<lparr>fs_in_flight := (fs_in_flight st)(k \<mapsto> count_of (fs_in_flight st) k - 1)\<rparr>"
  obtain s where s: "release k ?st = Inr s"
    and rest: "(if count_of (fs_in_flight s) k \<le> 0 then drain_queue cfg env (s\<lparr>fs_in_flight := (fs_in_flight s)(k := None)\<rparr>)
       else Inr s) = Inr st'"
    using assms(1) by (auto simp: on_serve_done_def bindE_simps)
  have fl: "fs_in_flight s = fs_in_flight ?st" using s by (auto simp: release_def Let_def split: if_splits)
  have "ledger m (s\<lparr>fs_in_flight := (fs_in_flight s)(k := None)\<rparr>) = ledger m s" if "count_of (fs_in_flight s) k \<le> 0"
    using that assms(2) by (auto simp: ledger_def fl)
  then have "ledger m st' = ledger m s" using rest by (auto dest!: ledger_drain_queue [where m = m] split: if_splits)
  with ledger_release [OF s, of m] show ?thesis by (simp add: ledger_def)
qed

lemma ledger_handle:
  assumes "handle cfg ev st = Inr st'" and "enabled ev st"
  shows "ledger m st' = ledger m st + serves_ended m [ev]"
  using assms
  by (cases ev)
     (auto simp: serves_ended_def dest: ledger_on_request [where m = m] ledger_on_cancel [where m = m]
       ledger_on_swap_done [where m = m] ledger_on_unload [where m = m] ledger_on_serve_done [where m = m])

lemma fifo_run_ledger:
  "fifo_run cfg evs st = Some st' \<Longrightarrow> ledger m st' = ledger m st + serves_ended m evs"
proof (induction cfg evs st rule: fifo_run.induct)
  case (2 cfg ev evs st)
  then obtain s where s: "enabled ev st" "handle cfg ev st = Inr s" "fifo_run cfg evs s = Some st'"
    by (auto split: if_splits sum.splits)
  have "serves_ended m (ev # evs) = serves_ended m [ev] + serves_ended m evs" by (simp add: serves_ended_def)
  with "2.IH" [OF s] ledger_handle [OF s(2,1), of m] show ?case by simp
qed (simp add: serves_ended_def)

end
