(* ===== verification/GroupRouter.thy ===== *)
theory GroupRouter
  imports Swapper
begin

text \<open>
  The group router of \<open>internal/router/group.go\<close>: the model-to-group table built by
  \<open>NewGroup\<close> and the eviction policy of \<open>groupSwapper\<close>. Go's map reads are
  \<open>group_of\<close> and \<open>group_cfg\<close>: a model in no group reads as the group \<open>''\<close>, a missing
  group as the zero configuration.
\<close>

record group_config =
  gc_swap :: bool
  gc_exclusive :: bool
  gc_persistent :: bool
  gc_members :: "string list"

type_synonym groups = "(string \<times> group_config) list"

definition zero_group :: group_config where
  "zero_group = \<lparr>gc_swap = False, gc_exclusive = False, gc_persistent = False, gc_members = []\<rparr>"

text \<open>The defaults \<open>GroupConfig.UnmarshalYAML\<close> decodes over.\<close>

definition default_group :: group_config where
  "default_group = \<lparr>gc_swap = True, gc_exclusive = True, gc_persistent = False, gc_members = []\<rparr>"

datatype group_error = ModelInGroups string string string

fun add_members :: "string \<Rightarrow> string list \<Rightarrow> (string \<times> string) list \<Rightarrow> group_error + (string \<times> string) list" where
  "add_members gid [] tab = Inr tab"
| "add_members gid (m # ms) tab =
     (case map_of tab m of
        Some existing \<Rightarrow> Inl (ModelInGroups m existing gid)
      | None \<Rightarrow> add_members gid ms (AList.update m gid tab))"

definition model_to_group :: "groups \<Rightarrow> group_error + (string \<times> string) list" where
  "model_to_group gs = foldE (\<lambda>(gid, g). add_members gid (gc_members g)) gs []"

record group_swapper =
  gs_groups :: groups
  gs_table :: "(string \<times> string) list"

definition group_of :: "group_swapper \<Rightarrow> string \<Rightarrow> string" where
  "group_of s m = (case map_of (gs_table s) m of Some g \<Rightarrow> g | None \<Rightarrow> '''')"

definition group_cfg :: "group_swapper \<Rightarrow> string \<Rightarrow> group_config" where
  "group_cfg s g = (case map_of (gs_groups s) g of Some c \<Rightarrow> c | None \<Rightarrow> zero_group)"

definition consider_model :: "group_swapper \<Rightarrow> string \<Rightarrow> string list \<Rightarrow> string \<Rightarrow> string list" where
  "consider_model s target result m =
     (let tg = group_of s target; tg_cfg = group_cfg s tg; og = group_of s m in
      if m = target then result
      else if m \<in> set result then result
      else if og = tg \<and> gc_swap tg_cfg then result @ [m]
      else if og \<noteq> tg \<and> gc_exclusive tg_cfg then
        (if \<not> gc_persistent (group_cfg s og) then result @ [m] else result)
      else result)"

definition group_eviction_for :: "group_swapper \<Rightarrow> string \<Rightarrow> string list \<Rightarrow> string list" where
  "group_eviction_for s target running = foldl (consider_model s target) [] running"

section \<open>What is evicted\<close>

definition group_evicts :: "group_swapper \<Rightarrow> string \<Rightarrow> string \<Rightarrow> bool" where
  "group_evicts s target m \<longleftrightarrow> m \<noteq> target \<and>
     (if group_of s m = group_of s target then gc_swap (group_cfg s (group_of s target))
      else gc_exclusive (group_cfg s (group_of s target)) \<and>
        \<not> gc_persistent (group_cfg s (group_of s m)))"

lemma consider_model_alt:
  "consider_model s target result m =
     (if group_evicts s target m \<and> m \<notin> set result then result @ [m] else result)"
  by (auto simp: consider_model_def group_evicts_def Let_def)

lemma fold_consider_model:
  "distinct acc \<Longrightarrow>
   set (foldl (consider_model s target) acc running) = set acc \<union> {m \<in> set running. group_evicts s target m} \<and>
   distinct (foldl (consider_model s target) acc running)"
  by (induction running arbitrary: acc) (auto simp: consider_model_alt)

interpretation grp: swapper "group_eviction_for s" for s
proof
  show "set (group_eviction_for s target running) \<subseteq> set running" for target running
    by (simp add: group_eviction_for_def fold_consider_model)
  show "target \<notin> set (group_eviction_for s target running)" for target running
    by (simp add: group_eviction_for_def fold_consider_model group_evicts_def)
qed

text \<open>
  C20. The group policy evicts, each once, exactly the running models other than the target that
  share the target's group when it swaps, or belong to another, non-persistent group when the
  target's group is exclusive. In particular loading a model of a non-exclusive group leaves
  the models of other groups running, exclusive groups included.
\<close>
theorem group_eviction_iff:
  "set (group_eviction_for s target running) = {m \<in> set running. m \<noteq> target \<and>
     (if group_of s m = group_of s target then gc_swap (group_cfg s (group_of s target))
      else gc_exclusive (group_cfg s (group_of s target)) \<and>
        \<not> gc_persistent (group_cfg s (group_of s m)))} \<and>
   distinct (group_eviction_for s target running)"
  using fold_consider_model [of "[]" s target running]
  unfolding group_eviction_for_def group_evicts_def by simp

section \<open>Exclusion is kept from swap to swap\<close>

text \<open>
  At most one model of a swapping group runs, and nothing of another non-persistent group
  runs beside the model last loaded when its group is exclusive.
\<close>

definition swap_exclusive :: "group_swapper \<Rightarrow> string set \<Rightarrow> bool" where
  "swap_exclusive s running \<longleftrightarrow>
     (\<forall>m\<in>running. \<forall>m'\<in>running. group_of s m = group_of s m' \<and> gc_swap (group_cfg s (group_of s m)) \<longrightarrow> m = m')"

lemma group_evicts_iff: "m \<in> set (group_eviction_for s target running) \<longleftrightarrow> m \<in> set running \<and> group_evicts s target m"
  by (simp add: group_eviction_for_def fold_consider_model)

lemma swap_exclusive_after:
  assumes "swap_exclusive s (set running)"
  shows "swap_exclusive s (set (grp.after_swap s target running))"
  unfolding swap_exclusive_def
proof (intro ballI impI)
  fix m m' assume in_after: "m \<in> set (grp.after_swap s target running)" "m' \<in> set (grp.after_swap s target running)"
    and g: "group_of s m = group_of s m' \<and> gc_swap (group_cfg s (group_of s m))"
  have kept: "x = target \<or> x \<in> set running \<and> \<not> group_evicts s target x"
    if "x \<in> set (grp.after_swap s target running)" for x
    using that by (auto simp: grp.set_after_swap group_evicts_iff)
  have ev: "group_evicts s target x" if "x \<noteq> target" "group_of s x = group_of s target"
    "gc_swap (group_cfg s (group_of s target))" for x
    using that by (simp add: group_evicts_def)
  show "m = m'"
  proof (cases "m = target \<or> m' = target")
    case True
    with kept [OF in_after(1)] kept [OF in_after(2)] ev g show ?thesis by metis
  next
    case False
    with kept [OF in_after(1)] kept [OF in_after(2)] assms g show ?thesis
      unfolding swap_exclusive_def by blast
  qed
qed

fun group_history :: "group_swapper \<Rightarrow> string list \<Rightarrow> string list \<Rightarrow> string list" where
  "group_history s running [] = running"
| "group_history s running (t # ts) =
     group_history s (t # filter (\<lambda>m. m \<notin> set (group_eviction_for s t running) \<and> m \<noteq> t) running) ts"

text \<open>
  Whatever models are loaded one after another from an idle router, two models of a
  swapping group never run together; and right after a load into an exclusive group, everything else
  that runs belongs to the same group or to a persistent one.
\<close>
lemma group_exclusion:
  "swap_exclusive s (set (group_history s [] ts)) \<and>
   (\<forall>t m. gc_exclusive (group_cfg s (group_of s t)) \<longrightarrow> m \<in> set (group_history s [] (ts @ [t])) \<longrightarrow>
      group_of s m = group_of s t \<or> gc_persistent (group_cfg s (group_of s m)))"
proof
  have "swap_exclusive s (set running) \<Longrightarrow> swap_exclusive s (set (group_history s running ts))" for running
  proof (induction ts arbitrary: running)
    case (Cons t ts)
    from Cons.IH [OF swap_exclusive_after [OF Cons.prems, of t]] show ?case
      by (simp add: grp.after_swap_def)
  qed simp
  moreover have "swap_exclusive s (set [])" by (simp add: swap_exclusive_def)
  ultimately show "swap_exclusive s (set (group_history s [] ts))" by blast
  have "group_history s running (ts @ [t]) = grp.after_swap s t (group_history s running ts)" for running t
    by (induction ts arbitrary: running) (simp_all add: grp.after_swap_def)
  then show "\<forall>t m. gc_exclusive (group_cfg s (group_of s t)) \<longrightarrow> m \<in> set (group_history s [] (ts @ [t])) \<longrightarrow>
      group_of s m = group_of s t \<or> gc_persistent (group_cfg s (group_of s m))"
    by (auto simp: grp.set_after_swap group_eviction_iff split: if_splits)
qed

section \<open>The table of groups\<close>

lemma add_members_Inr:
  "add_members gid ms tab = Inr tab' \<longleftrightarrow>
   distinct ms \<and> set ms \<inter> dom (map_of tab) = {} \<and> tab' = foldl (\<lambda>t m. AList.update m gid t) tab ms"
proof (induction ms arbitrary: tab)
  case (Cons m ms)
  show ?case
  proof (cases "map_of tab m")
    case None
    have "set ms \<inter> dom (map_of (AList.update m gid tab)) = {} \<longleftrightarrow> m \<notin> set ms \<and> set ms \<inter> dom (map_of tab) = {}"
      by (auto simp: update_conv')
    with None Cons.IH [of "AList.update m gid tab"] show ?thesis by auto
  next
    case (Some g)
    then show ?thesis by auto
  qed
qed auto

lemma map_of_add_members:
  "map_of (foldl (\<lambda>t m. AList.update m gid t) tab ms) m = (if m \<in> set ms then Some gid else map_of tab m)"
  by (induction ms arbitrary: tab) auto

lemma model_to_group_gen:
  assumes "foldE (\<lambda>(gid, g). add_members gid (gc_members g)) gs tab = Inr tab'"
  shows "distinct (concat (map (\<lambda>(gid, g). gc_members g) gs)) \<and>
    (\<forall>m. map_of tab' m = (case find (\<lambda>(gid, g). m \<in> set (gc_members g)) gs of
        Some (gid, g) \<Rightarrow> Some gid | None \<Rightarrow> map_of tab m)) \<and>
    (\<forall>m \<in> dom (map_of tab). \<forall>(gid, g) \<in> set gs. m \<notin> set (gc_members g))"
  using assms
proof (induction gs arbitrary: tab)
  case (Cons x gs)
  obtain gid g where x: "x = (gid, g)" by (cases x)
  from Cons.prems obtain t1 where t1: "add_members gid (gc_members g) tab = Inr t1"
    "foldE (\<lambda>(gid, g). add_members gid (gc_members g)) gs t1 = Inr tab'"
    by (auto simp: x bindE_simps)
  from t1(1) have a: "distinct (gc_members g)" "set (gc_members g) \<inter> dom (map_of tab) = {}"
    "\<And>m. map_of t1 m = (if m \<in> set (gc_members g) then Some gid else map_of tab m)"
    by (simp_all add: add_members_Inr map_of_add_members)
  note IH = Cons.IH [OF t1(2)]
  have dom1: "dom (map_of t1) = set (gc_members g) \<union> dom (map_of tab)" using a(3) by (auto split: if_splits)
  have others: "\<forall>m\<in>set (gc_members g) \<union> dom (map_of tab). \<forall>(gid, g)\<in>set gs. m \<notin> set (gc_members g)"
    using IH unfolding dom1 by blast
  then have "find (\<lambda>(gid, g). m \<in> set (gc_members g)) gs = None" if "m \<in> set (gc_members g)" for m
    using that by (fastforce simp: find_None_iff)
  with IH a(3) have look: "\<forall>m. map_of tab' m = (case find (\<lambda>(gid, g). m \<in> set (gc_members g)) (x # gs) of
        Some (gid, g) \<Rightarrow> Some gid | None \<Rightarrow> map_of tab m)"
    by (auto simp: x split: option.splits)
  have "distinct (concat (map (\<lambda>(gid, g). gc_members g) (x # gs)))"
    using IH a(1) others by (auto simp: x)
  moreover have "\<forall>m \<in> dom (map_of tab). \<forall>(gid, g) \<in> set (x # gs). m \<notin> set (gc_members g)"
    using a(2) others by (auto simp: x)
  ultimately show ?case using look by blast
qed simp

text \<open>
  \<open>NewGroup\<close> accepts a configuration only when no model is listed twice, within a group or in
  two, and then every listed model is looked up in the group that lists it.
\<close>
lemma model_to_group_ok:
  assumes "model_to_group gs = Inr tab"
  shows "distinct (concat (map (\<lambda>(gid, g). gc_members g) gs)) \<and>
    (\<forall>(gid, g)\<in>set gs. \<forall>m\<in>set (gc_members g). map_of tab m = Some gid) \<and>
    (\<forall>m. m \<notin> set (concat (map (\<lambda>(gid, g). gc_members g) gs)) \<longrightarrow> map_of tab m = None)"
proof -
  note g = model_to_group_gen [OF assms [unfolded model_to_group_def]]
  have "map_of tab m = Some gid" if "(gid, c) \<in> set gs" "m \<in> set (gc_members c)" for gid c m
  proof -
    note gm = that
    have "find (\<lambda>(gid, g). m \<in> set (gc_members g)) gs \<noteq> None"
      using that by (auto simp: find_None_iff)
    then obtain gid' c' where f: "find (\<lambda>(gid, g). m \<in> set (gc_members g)) gs = Some (gid', c')" by auto
    then have "(gid', c') \<in> set gs" "m \<in> set (gc_members c')"
      by (auto simp: find_Some_iff) (metis nth_mem)
    obtain xs ys where gs: "gs = xs @ (gid, c) # ys" using split_list [OF gm(1)] by blast
    have "(gid', c') = (gid, c)"
    proof (rule ccontr)
      assume "(gid', c') \<noteq> (gid, c)"
      with \<open>(gid', c') \<in> set gs\<close> have "(gid', c') \<in> set xs \<union> set ys" by (auto simp: gs)
      with g \<open>m \<in> set (gc_members c')\<close> gm(2) show False unfolding gs by fastforce
    qed
    with f g show ?thesis by simp
  qed
  moreover have "map_of tab m = None" if "m \<notin> set (concat (map (\<lambda>(gid, g). gc_members g) gs))" for m
  proof -
    have "find (\<lambda>(gid, g). m \<in> set (gc_members g)) gs = None" using that by (auto simp: find_None_iff)
    with g show ?thesis by simp
  qed
  ultimately show ?thesis using g by blast
qed

end
