(* ===== verification/MatrixDsl.thy ===== *)
theory MatrixDsl
  imports Prelude
begin

text \<open>
  The matrix routing language of \<open>internal/matrix/dsl.go\<close>: its tokens, its syntax
  trees, the tokenizer and the recursive-descent parser, in the order of the file. The parser
  state \<open>(tokens, pos)\<close> is the list of tokens still to read. The five mutually
  recursive parser functions take fuel; \<open>parse_fuel_enough\<close> shows that three units per
  token are enough, so \<open>parse_dsl\<close> never reports \<open>ErrFuel\<close>.

  The abstract specification is the grammar \<open>g_or\<close>/\<open>g_and\<close>/\<open>g_atom\<close>: the parser
  accepts a token list exactly when the grammar derives it, with the tree the grammar gives.
\<close>

section \<open>Tokens and trees\<close>

datatype token_type = TokIdent | TokAnd | TokOr | TokLParen | TokRParen | TokRef | TokEOF

record token =
  tok_typ :: token_type
  tok_val :: string

datatype node = Leaf string | Ref string | And "node list" | Or "node list" | Empty

datatype dsl_error =
    ErrSetNameExpected nat
  | ErrUnexpectedChar char nat
  | ErrEmptyDSL
  | ErrTrailing string
  | ErrUnexpectedToken string
  | ErrMissingParen
  | ErrFuel

abbreviation tok :: "token_type \<Rightarrow> string \<Rightarrow> token" where
  "tok t v \<equiv> \<lparr>tok_typ = t, tok_val = v\<rparr>"

abbreviation eof_tok :: token where
  "eof_tok \<equiv> tok TokEOF ''''"

section \<open>Tokenizer\<close>

definition is_ident_char :: "char \<Rightarrow> bool" where
  "is_ident_char ch \<longleftrightarrow>
     is_letter ch \<or> is_digit ch \<or> ch = CHR ''_'' \<or> ch = CHR ''-'' \<or> ch = CHR ''.''"

definition is_ref_char :: "char \<Rightarrow> bool" where
  "is_ref_char ch \<longleftrightarrow> is_ident_char ch \<or> ch = CHR '':''"

function tokenize_from :: "nat \<Rightarrow> string \<Rightarrow> dsl_error + token list" where
  "tokenize_from i [] = Inr [eof_tok]"
| "tokenize_from i (ch # rest) =
     (if is_space ch then tokenize_from (Suc i) rest
      else if ch = CHR ''&'' then
        bindE (tokenize_from (Suc i) rest) (\<lambda>ts. Inr (tok TokAnd ''&'' # ts))
      else if ch = CHR ''|'' then
        bindE (tokenize_from (Suc i) rest) (\<lambda>ts. Inr (tok TokOr ''|'' # ts))
      else if ch = CHR ''('' then
        bindE (tokenize_from (Suc i) rest) (\<lambda>ts. Inr (tok TokLParen ''('' # ts))
      else if ch = CHR '')'' then
        bindE (tokenize_from (Suc i) rest) (\<lambda>ts. Inr (tok TokRParen '')'' # ts))
      else if ch = CHR ''+'' then
        (let name = takeWhile is_ref_char rest in
         if name = [] then Inl (ErrSetNameExpected (Suc i))
         else bindE (tokenize_from (Suc i + length name) (drop (length name) rest))
                (\<lambda>ts. Inr (tok TokRef name # ts)))
      else if \<not> is_ident_char ch then Inl (ErrUnexpectedChar ch i)
      else
        (let name = ch # takeWhile is_ident_char rest in
         bindE (tokenize_from (i + length name) (drop (length name - 1) rest))
           (\<lambda>ts. Inr (tok TokIdent name # ts))))"
  by pat_completeness auto
termination
  by (relation "measure (\<lambda>(i, s). length s)") auto

definition tokenize :: "string \<Rightarrow> dsl_error + token list" where
  "tokenize input = tokenize_from 0 input"

section \<open>Parser\<close>

definition peek :: "token list \<Rightarrow> token" where
  "peek ts = (case ts of [] \<Rightarrow> eof_tok | t # _ \<Rightarrow> t)"

definition advance :: "token list \<Rightarrow> token list" where
  "advance ts = (if tok_typ (peek ts) \<noteq> TokEOF then tl ts else ts)"

type_synonym 'a parse_result = "dsl_error + 'a \<times> token list"

fun parse_or :: "nat \<Rightarrow> token list \<Rightarrow> node parse_result"
  and or_loop :: "nat \<Rightarrow> node list \<Rightarrow> token list \<Rightarrow> node list parse_result"
  and parse_and :: "nat \<Rightarrow> token list \<Rightarrow> node parse_result"
  and and_loop :: "nat \<Rightarrow> node list \<Rightarrow> token list \<Rightarrow> node list parse_result"
  and parse_atom :: "nat \<Rightarrow> token list \<Rightarrow> node parse_result"
where
  "parse_or 0 ts = Inl ErrFuel"
| "parse_or (Suc f) ts =
     bindE (parse_and f ts) (\<lambda>(left, ts1).
       if tok_typ (peek ts1) \<noteq> TokOr then Inr (left, ts1)
       else bindE (or_loop f [left] ts1) (\<lambda>(children, ts2). Inr (Or children, ts2)))"
| "or_loop 0 children ts = Inl ErrFuel"
| "or_loop (Suc f) children ts =
     (if tok_typ (peek ts) = TokOr then
        bindE (parse_and f (advance ts)) (\<lambda>(right, ts1). or_loop f (children @ [right]) ts1)
      else Inr (children, ts))"
| "parse_and 0 ts = Inl ErrFuel"
| "parse_and (Suc f) ts =
     bindE (parse_atom f ts) (\<lambda>(left, ts1).
       if tok_typ (peek ts1) \<noteq> TokAnd then Inr (left, ts1)
       else bindE (and_loop f [left] ts1) (\<lambda>(children, ts2). Inr (And children, ts2)))"
| "and_loop 0 children ts = Inl ErrFuel"
| "and_loop (Suc f) children ts =
     (if tok_typ (peek ts) = TokAnd then
        bindE (parse_atom f (advance ts)) (\<lambda>(right, ts1). and_loop f (children @ [right]) ts1)
      else Inr (children, ts))"
| "parse_atom 0 ts = Inl ErrFuel"
| "parse_atom (Suc f) ts =
     (let t = peek ts; ts1 = advance ts in
      case tok_typ t of
        TokIdent \<Rightarrow> Inr (Leaf (tok_val t), ts1)
      | TokRef \<Rightarrow> Inr (Ref (tok_val t), ts1)
      | TokLParen \<Rightarrow>
          bindE (parse_or f ts1) (\<lambda>(root, ts2).
            if tok_typ (peek ts2) \<noteq> TokRParen then Inl ErrMissingParen
            else Inr (root, advance ts2))
      | _ \<Rightarrow> Inl (ErrUnexpectedToken (tok_val t)))"

definition parse_fuel :: "token list \<Rightarrow> nat" where
  "parse_fuel ts = 3 * length ts + 3"

definition parse_tokens :: "token list \<Rightarrow> dsl_error + node" where
  "parse_tokens ts =
     bindE (parse_or (parse_fuel ts) ts) (\<lambda>(root, rest).
       if tok_typ (peek rest) \<noteq> TokEOF then Inl (ErrTrailing (tok_val (peek rest)))
       else Inr root)"

definition parse_dsl :: "string \<Rightarrow> dsl_error + node" where
  "parse_dsl input0 =
     (let input = trim_space input0 in
      if input = '''' then Inl ErrEmptyDSL
      else bindE (tokenize input) parse_tokens)"

section \<open>The parser returns: fuel\<close>

lemma peek_simps [simp]: "peek [] = eof_tok" "peek (t # ts) = t"
  by (simp_all add: peek_def)

lemma advance_Nil [simp]: "advance [] = []"
  by (simp add: advance_def)

lemma advance_Cons [simp]: "tok_typ t \<noteq> TokEOF \<Longrightarrow> advance (t # ts) = ts"
  by (simp add: advance_def)

lemma length_advance: "tok_typ (peek ts) \<noteq> TokEOF \<Longrightarrow> length (advance ts) < length ts"
  by (cases ts) (auto simp: advance_def)

text \<open>What an atom can be, as one rule for each way the parser accepts it.\<close>

lemma parse_atom_cases:
  assumes "parse_atom (Suc f) ts = Inr (n, ts')"
  obtains (ident) t where "ts = t # ts'" "tok_typ t = TokIdent" "n = Leaf (tok_val t)"
  | (ref) t where "ts = t # ts'" "tok_typ t = TokRef" "n = Ref (tok_val t)"
  | (paren) t ts1 u where "ts = t # ts1" "tok_typ t = TokLParen"
      "parse_or f ts1 = Inr (n, u # ts')" "tok_typ u = TokRParen"
proof (cases ts)
  case Nil
  with assms show ?thesis by simp
next
  case (Cons t ts1)
  show ?thesis
  proof (cases "tok_typ t")
    case TokLParen
    with assms Cons obtain ts2 where ts2: "parse_or f ts1 = Inr (n, ts2)"
      "tok_typ (peek ts2) = TokRParen" "ts' = advance ts2"
      by (auto simp: bindE_simps split: if_splits)
    moreover from ts2(2) obtain u ts3 where "ts2 = u # ts3"
      by (cases ts2) auto
    ultimately show ?thesis using paren Cons TokLParen by auto
  qed (use assms Cons ident ref in auto)
qed

lemma parse_consumes:
  "parse_or f ts = Inr (n, ts') \<Longrightarrow> length ts' < length ts"
  "or_loop f cs ts = Inr (ns, ts') \<Longrightarrow> length ts' \<le> length ts"
  "parse_and f ts = Inr (n, ts') \<Longrightarrow> length ts' < length ts"
  "and_loop f cs ts = Inr (ns, ts') \<Longrightarrow> length ts' \<le> length ts"
  "parse_atom f ts = Inr (n, ts') \<Longrightarrow> length ts' < length ts"
proof (induction f ts and f cs ts and f ts and f cs ts and f ts
    arbitrary: n ts' and ns ts' and n ts' and ns ts' and n ts'
    rule: parse_or_or_loop_parse_and_and_loop_parse_atom.induct)
  case (2 f ts)
  then show ?case by (fastforce simp: bindE_simps split: if_splits)
next
  case (4 f cs ts)
  then show ?case
    using length_advance [of ts] by (fastforce simp: bindE_simps split: if_splits)
next
  case (6 f ts)
  then show ?case by (fastforce simp: bindE_simps split: if_splits)
next
  case (8 f cs ts)
  then show ?case
    using length_advance [of ts] by (fastforce simp: bindE_simps split: if_splits)
next
  case (10 f ts)
  from "10.prems" show ?case
  proof (cases rule: parse_atom_cases)
    case (paren t ts1 u)
    then show ?thesis using "10.IH" [OF refl refl, of n "u # ts'"] by auto
  qed auto
qed simp_all

lemma parse_fuel_enough:
  "3 * length ts + 3 \<le> f \<Longrightarrow> parse_or f ts \<noteq> Inl ErrFuel"
  "3 * length ts + 1 \<le> f \<Longrightarrow> or_loop f cs ts \<noteq> Inl ErrFuel"
  "3 * length ts + 2 \<le> f \<Longrightarrow> parse_and f ts \<noteq> Inl ErrFuel"
  "3 * length ts + 1 \<le> f \<Longrightarrow> and_loop f cs ts \<noteq> Inl ErrFuel"
  "3 * length ts + 1 \<le> f \<Longrightarrow> parse_atom f ts \<noteq> Inl ErrFuel"
proof (induction f ts and f cs ts and f ts and f cs ts and f ts
    rule: parse_or_or_loop_parse_and_and_loop_parse_atom.induct)
  case (2 f ts)
  then show ?case
    by (fastforce simp: bindE_simps split: if_splits dest: parse_consumes)
next
  case (4 f cs ts)
  then show ?case
    using length_advance [of ts]
    by (fastforce simp: bindE_simps split: if_splits dest: parse_consumes)
next
  case (6 f ts)
  then show ?case
    by (fastforce simp: bindE_simps split: if_splits dest: parse_consumes)
next
  case (8 f cs ts)
  then show ?case
    using length_advance [of ts]
    by (fastforce simp: bindE_simps split: if_splits dest: parse_consumes)
next
  case (10 f ts)
  show ?case
  proof (cases "tok_typ (peek ts) = TokLParen")
    case True
    with "10.prems" have "parse_or f (advance ts) \<noteq> Inl ErrFuel"
      using length_advance [of ts] by (intro "10.IH") auto
    with True show ?thesis by (auto simp: bindE_simps Let_def)
  next
    case False
    then show ?thesis by (auto simp: Let_def split: token_type.splits)
  qed
qed simp_all

section \<open>The grammar\<close>

text \<open>
  \<open>or ::= and ('|' and)*\<close>, \<open>and ::= atom ('&' atom)*\<close>,
  \<open>atom ::= ident | '+' set | '(' or ')'\<close>: one operand alone is the operand's
  tree, several make one n-ary node.
\<close>

inductive g_or :: "token list \<Rightarrow> node \<Rightarrow> bool"
  and g_or_tail :: "token list \<Rightarrow> node list \<Rightarrow> bool"
  and g_and :: "token list \<Rightarrow> node \<Rightarrow> bool"
  and g_and_tail :: "token list \<Rightarrow> node list \<Rightarrow> bool"
  and g_atom :: "token list \<Rightarrow> node \<Rightarrow> bool"
where
  or_one: "g_and w n \<Longrightarrow> g_or w n"
| or_many: "g_and w n \<Longrightarrow> g_or_tail v ns \<Longrightarrow> ns \<noteq> [] \<Longrightarrow> g_or (w @ v) (Or (n # ns))"
| or_nil: "g_or_tail [] []"
| or_cons: "tok_typ t = TokOr \<Longrightarrow> g_and w n \<Longrightarrow> g_or_tail v ns \<Longrightarrow> g_or_tail (t # w @ v) (n # ns)"
| and_one: "g_atom w n \<Longrightarrow> g_and w n"
| and_many: "g_atom w n \<Longrightarrow> g_and_tail v ns \<Longrightarrow> ns \<noteq> [] \<Longrightarrow> g_and (w @ v) (And (n # ns))"
| and_nil: "g_and_tail [] []"
| and_cons: "tok_typ t = TokAnd \<Longrightarrow> g_atom w n \<Longrightarrow> g_and_tail v ns \<Longrightarrow> g_and_tail (t # w @ v) (n # ns)"
| atom_ident: "tok_typ t = TokIdent \<Longrightarrow> g_atom [t] (Leaf (tok_val t))"
| atom_ref: "tok_typ t = TokRef \<Longrightarrow> g_atom [t] (Ref (tok_val t))"
| atom_paren: "tok_typ t = TokLParen \<Longrightarrow> tok_typ u = TokRParen \<Longrightarrow> g_or w n \<Longrightarrow>
     g_atom (t # w @ [u]) n"

text \<open>The parser only returns what the grammar derives.\<close>

lemma parse_sound:
  "parse_or f ts = Inr (n, ts') \<Longrightarrow> \<exists>w. ts = w @ ts' \<and> g_or w n"
  "or_loop f cs ts = Inr (ns, ts') \<Longrightarrow>
     \<exists>w ms. ts = w @ ts' \<and> ns = cs @ ms \<and> g_or_tail w ms \<and> (tok_typ (peek ts) = TokOr \<longrightarrow> ms \<noteq> [])"
  "parse_and f ts = Inr (n, ts') \<Longrightarrow> \<exists>w. ts = w @ ts' \<and> g_and w n"
  "and_loop f cs ts = Inr (ns, ts') \<Longrightarrow>
     \<exists>w ms. ts = w @ ts' \<and> ns = cs @ ms \<and> g_and_tail w ms \<and> (tok_typ (peek ts) = TokAnd \<longrightarrow> ms \<noteq> [])"
  "parse_atom f ts = Inr (n, ts') \<Longrightarrow> \<exists>w. ts = w @ ts' \<and> g_atom w n"
proof (induction f ts and f cs ts and f ts and f cs ts and f ts
    arbitrary: n ts' and ns ts' and n ts' and ns ts' and n ts'
    rule: parse_or_or_loop_parse_and_and_loop_parse_atom.induct)
  case (2 f ts)
  from "2.prems" obtain l t1 where a: "parse_and f ts = Inr (l, t1)"
    and b: "if tok_typ (peek t1) \<noteq> TokOr then (n, ts') = (l, t1)
      else \<exists>ns. or_loop f [l] t1 = Inr (ns, ts') \<and> n = Or ns"
    by (auto simp: bindE_simps split: if_splits)
  from "2.IH"(1) [OF a] obtain w where w: "ts = w @ t1" "g_and w l" by blast
  show ?case
  proof (cases "tok_typ (peek t1) = TokOr")
    case False
    with b w show ?thesis by (auto intro: or_one)
  next
    case True
    with b obtain ns where ns: "or_loop f [l] t1 = Inr (ns, ts')" "n = Or ns" by auto
    from "2.IH"(2) [OF a refl _ ns(1)] True obtain v ms
      where "t1 = v @ ts'" "ns = [l] @ ms" "g_or_tail v ms" "ms \<noteq> []" by auto
    with w ns show ?thesis by (auto intro: or_many)
  qed
next
  case (4 f cs ts)
  show ?case
  proof (cases "tok_typ (peek ts) = TokOr")
    case False
    with "4.prems" show ?thesis by (auto intro: or_nil)
  next
    case True
    then obtain t ts1 where ts: "ts = t # ts1" "tok_typ t = TokOr" by (cases ts) auto
    with "4.prems" obtain r t2 where a: "parse_and f ts1 = Inr (r, t2)"
      and b: "or_loop f (cs @ [r]) t2 = Inr (ns, ts')" by (auto simp: bindE_simps)
    from a ts "4.IH"(1) [OF True, of r t2] obtain w where w: "ts1 = w @ t2" "g_and w r" by auto
    from "4.IH"(2) [OF True, of "(r, t2)", OF _ refl b] a ts obtain v ms
      where "t2 = v @ ts'" "ns = (cs @ [r]) @ ms" "g_or_tail v ms" by auto
    with w ts show ?thesis using or_cons [OF ts(2) w(2)] by fastforce
  qed
next
  case (6 f ts)
  from "6.prems" obtain l t1 where a: "parse_atom f ts = Inr (l, t1)"
    and b: "if tok_typ (peek t1) \<noteq> TokAnd then (n, ts') = (l, t1)
      else \<exists>ns. and_loop f [l] t1 = Inr (ns, ts') \<and> n = And ns"
    by (auto simp: bindE_simps split: if_splits)
  from "6.IH"(1) [OF a] obtain w where w: "ts = w @ t1" "g_atom w l" by blast
  show ?case
  proof (cases "tok_typ (peek t1) = TokAnd")
    case False
    with b w show ?thesis by (auto intro: and_one)
  next
    case True
    with b obtain ns where ns: "and_loop f [l] t1 = Inr (ns, ts')" "n = And ns" by auto
    from "6.IH"(2) [OF a refl _ ns(1)] True obtain v ms
      where "t1 = v @ ts'" "ns = [l] @ ms" "g_and_tail v ms" "ms \<noteq> []" by auto
    with w ns show ?thesis by (auto intro: and_many)
  qed
next
  case (8 f cs ts)
  show ?case
  proof (cases "tok_typ (peek ts) = TokAnd")
    case False
    with "8.prems" show ?thesis by (auto intro: and_nil)
  next
    case True
    then obtain t ts1 where ts: "ts = t # ts1" "tok_typ t = TokAnd" by (cases ts) auto
    with "8.prems" obtain r t2 where a: "parse_atom f ts1 = Inr (r, t2)"
      and b: "and_loop f (cs @ [r]) t2 = Inr (ns, ts')" by (auto simp: bindE_simps)
    from a ts "8.IH"(1) [OF True, of r t2] obtain w where w: "ts1 = w @ t2" "g_atom w r" by auto
    from "8.IH"(2) [OF True, of "(r, t2)", OF _ refl b] a ts obtain v ms
      where "t2 = v @ ts'" "ns = (cs @ [r]) @ ms" "g_and_tail v ms" by auto
    with w ts show ?thesis using and_cons [OF ts(2) w(2)] by fastforce
  qed
next
  case (10 f ts)
  from "10.prems" show ?case
  proof (cases rule: parse_atom_cases)
    case (paren t ts1 u)
    with "10.IH" [OF refl refl, of n "u # ts'"] obtain w where "ts1 = w @ u # ts'" "g_or w n"
      by auto
    with paren show ?thesis
      using atom_paren [of t u w n] by (intro exI [of _ "t # w @ [u]"]) auto
  qed (auto intro: atom_ident atom_ref)
qed simp_all

text \<open>
  And it returns everything the grammar derives, whatever follows: after an alternative the
  next token must be neither \<open>|\<close> nor \<open>&\<close>, after a conjunction not \<open>&\<close>.
\<close>

lemma tail_first:
  "g_or_tail v ns \<Longrightarrow> v = [] \<and> ns = [] \<or> tok_typ (peek (v @ r)) = TokOr"
  "g_and_tail v' ns' \<Longrightarrow> v' = [] \<and> ns' = [] \<or> tok_typ (peek (v' @ r)) = TokAnd"
  by (auto elim: g_or_tail.cases g_and_tail.cases)

lemma parse_complete:
  "g_or w1 n1 \<Longrightarrow> 3 * length (w1 @ rest) + 3 \<le> f \<Longrightarrow> tok_typ (peek rest) \<notin> {TokOr, TokAnd} \<Longrightarrow>
     parse_or f (w1 @ rest) = Inr (n1, rest)"
  "g_or_tail w2 ns2 \<Longrightarrow> 3 * length (w2 @ rest) + 1 \<le> f \<Longrightarrow> tok_typ (peek rest) \<notin> {TokOr, TokAnd} \<Longrightarrow>
     or_loop f cs (w2 @ rest) = Inr (cs @ ns2, rest)"
  "g_and w3 n3 \<Longrightarrow> 3 * length (w3 @ rest) + 2 \<le> f \<Longrightarrow> tok_typ (peek rest) \<noteq> TokAnd \<Longrightarrow>
     parse_and f (w3 @ rest) = Inr (n3, rest)"
  "g_and_tail w4 ns4 \<Longrightarrow> 3 * length (w4 @ rest) + 1 \<le> f \<Longrightarrow> tok_typ (peek rest) \<noteq> TokAnd \<Longrightarrow>
     and_loop f cs (w4 @ rest) = Inr (cs @ ns4, rest)"
  "g_atom w5 n5 \<Longrightarrow> 3 * length (w5 @ rest) + 1 \<le> f \<Longrightarrow>
     parse_atom f (w5 @ rest) = Inr (n5, rest)"
proof (induction arbitrary: f rest and f rest cs and f rest and f rest cs and f rest
    rule: g_or_g_or_tail_g_and_g_and_tail_g_atom.inducts)
  case (or_one w n)
  then obtain g where "f = Suc g" by (cases f) auto
  with or_one show ?case by auto
next
  case (or_many w n v ns)
  then obtain g where g: "f = Suc g" by (cases f) auto
  have "tok_typ (peek (v @ rest)) = TokOr"
    using tail_first(1) [OF or_many(2)] or_many(3) by auto
  with or_many g show ?case by (auto simp: bindE_def)
next
  case (or_nil f rest cs)
  then obtain g where "f = Suc g" by (cases f) auto
  with or_nil show ?case by auto
next
  case (or_cons t w n v ns)
  then obtain g where g: "f = Suc g" by (cases f) auto
  have "tok_typ (peek (v @ rest)) \<noteq> TokAnd"
    using tail_first(1) [OF or_cons(3), of rest] or_cons.prems(2) by auto
  with or_cons g show ?case by auto
next
  case (and_one w n)
  then obtain g where "f = Suc g" by (cases f) auto
  with and_one show ?case by auto
next
  case (and_many w n v ns)
  then obtain g where g: "f = Suc g" by (cases f) auto
  have "tok_typ (peek (v @ rest)) = TokAnd"
    using tail_first(2) [OF and_many(2)] and_many(3) by auto
  with and_many g show ?case by (auto simp: bindE_def)
next
  case (and_nil f rest cs)
  then obtain g where "f = Suc g" by (cases f) auto
  with and_nil show ?case by auto
next
  case (and_cons t w n v ns)
  then obtain g where g: "f = Suc g" by (cases f) auto
  with and_cons show ?case by auto
next
  case (atom_ident t)
  then obtain g where "f = Suc g" by (cases f) auto
  with atom_ident show ?case by (simp add: Let_def)
next
  case (atom_ref t)
  then obtain g where "f = Suc g" by (cases f) auto
  with atom_ref show ?case by (simp add: Let_def)
next
  case (atom_paren t u w n)
  then obtain g where g: "f = Suc g" by (cases f) auto
  have "parse_or g (w @ u # rest) = Inr (n, u # rest)"
    using atom_paren g by (intro atom_paren(4)) auto
  with atom_paren g show ?case by (simp add: Let_def)
qed

lemma parse_tokens_iff:
  assumes "\<forall>t\<in>set ts. tok_typ t \<noteq> TokEOF"
  shows "parse_tokens (ts @ [eof_tok]) = Inr n \<longleftrightarrow> g_or ts n"
proof
  assume "parse_tokens (ts @ [eof_tok]) = Inr n"
  then obtain rest where p: "parse_or (parse_fuel (ts @ [eof_tok])) (ts @ [eof_tok]) = Inr (n, rest)"
    and e: "tok_typ (peek rest) = TokEOF"
    by (auto simp: parse_tokens_def bindE_simps split: if_splits)
  from parse_sound(1) [OF p] obtain w where w: "ts @ [eof_tok] = w @ rest" "g_or w n" by blast
  have "eof_tok \<notin> set w"
    using w(2) by (induction rule: g_or_g_or_tail_g_and_g_and_tail_g_atom.inducts(1)
        [where ?P2.0 = "\<lambda>w ns. eof_tok \<notin> set w" and ?P3.0 = "\<lambda>w n. eof_tok \<notin> set w"
          and ?P4.0 = "\<lambda>w ns. eof_tok \<notin> set w" and ?P5.0 = "\<lambda>w n. eof_tok \<notin> set w"]) auto
  with w(1) obtain ys where ys: "rest = ys @ [eof_tok]" "ts = w @ ys"
    by (cases rest rule: rev_cases) auto
  with e assms have "ts = w" by (cases ys) auto
  with w(2) show "g_or ts n" by simp
next
  assume "g_or ts n"
  from parse_complete(1) [OF this, of "[eof_tok]" "parse_fuel (ts @ [eof_tok])"]
  show "parse_tokens (ts @ [eof_tok]) = Inr n"
    by (simp add: parse_tokens_def parse_fuel_def)
qed

section \<open>The tokenizer\<close>

lemma tokenize_shape:
  "tokenize_from i s = Inr ts \<Longrightarrow> \<exists>us. ts = us @ [eof_tok] \<and> (\<forall>t\<in>set us. tok_typ t \<noteq> TokEOF)"
proof (induction i s arbitrary: ts rule: tokenize_from.induct)
  case (2 i ch rest)
  have cons: "\<exists>us. t # vs = us @ [eof_tok] \<and> (\<forall>t\<in>set us. tok_typ t \<noteq> TokEOF)"
    if "tok_typ t \<noteq> TokEOF" "\<exists>us. vs = us @ [eof_tok] \<and> (\<forall>t\<in>set us. tok_typ t \<noteq> TokEOF)" for t vs
  proof -
    from that(2) obtain us where us: "vs = us @ [eof_tok]" "\<forall>t\<in>set us. tok_typ t \<noteq> TokEOF"
      by blast
    with that(1) show ?thesis by (intro exI [of _ "t # us"]) simp
  qed
  from "2.prems" show ?case
    by (auto simp: bindE_simps Let_def split: if_splits intro: "2.IH" intro!: cons)
qed simp

lemma tokenize_not_fuel: "tokenize_from i s \<noteq> Inl ErrFuel"
  by (induction i s rule: tokenize_from.induct) (auto simp: bindE_simps Let_def)

text \<open>Printing: compound nodes in parentheses, so the text determines the tree.\<close>

fun join_toks :: "token \<Rightarrow> token list list \<Rightarrow> token list" where
  "join_toks sep [] = []"
| "join_toks sep [w] = w"
| "join_toks sep (w # ws) = w @ sep # join_toks sep ws"

fun join_strs :: "char \<Rightarrow> string list \<Rightarrow> string" where
  "join_strs sep [] = []"
| "join_strs sep [w] = w"
| "join_strs sep (w # ws) = w @ sep # join_strs sep ws"

fun show_toks :: "node \<Rightarrow> token list" where
  "show_toks (Leaf m) = [tok TokIdent m]"
| "show_toks (Ref m) = [tok TokRef m]"
| "show_toks (And cs) =
     tok TokLParen ''('' # join_toks (tok TokAnd ''&'') (map show_toks cs) @ [tok TokRParen '')'']"
| "show_toks (Or cs) =
     tok TokLParen ''('' # join_toks (tok TokOr ''|'') (map show_toks cs) @ [tok TokRParen '')'']"
| "show_toks Empty = []"

fun show_node :: "node \<Rightarrow> string" where
  "show_node (Leaf m) = m"
| "show_node (Ref m) = CHR ''+'' # m"
| "show_node (And cs) = CHR ''('' # join_strs CHR ''&'' (map show_node cs) @ '')''"
| "show_node (Or cs) = CHR ''('' # join_strs CHR ''|'' (map show_node cs) @ '')''"
| "show_node Empty = []"

text \<open>The trees the parser can return: names made of name characters, at least two operands.\<close>

fun wf_node :: "node \<Rightarrow> bool" where
  "wf_node (Leaf m) \<longleftrightarrow> m \<noteq> [] \<and> list_all is_ident_char m"
| "wf_node (Ref m) \<longleftrightarrow> m \<noteq> [] \<and> list_all is_ref_char m"
| "wf_node (And cs) \<longleftrightarrow> 2 \<le> length cs \<and> list_all wf_node cs"
| "wf_node (Or cs) \<longleftrightarrow> 2 \<le> length cs \<and> list_all wf_node cs"
| "wf_node Empty \<longleftrightarrow> False"

lemma g_and_tail_join:
  assumes "\<And>c. c \<in> set cs \<Longrightarrow> g_atom (show_toks c) c" and "tok_typ sep = TokAnd"
  shows "g_and_tail (concat (map (\<lambda>c. sep # show_toks c) cs)) cs"
  using assms by (induction cs) (auto intro: and_nil and_cons)

lemma g_or_tail_join:
  assumes "\<And>c. c \<in> set cs \<Longrightarrow> g_atom (show_toks c) c" and "tok_typ sep = TokOr"
  shows "g_or_tail (concat (map (\<lambda>c. sep # show_toks c) cs)) cs"
  using assms by (induction cs) (auto intro: or_nil or_cons and_one)

lemma join_toks_concat:
  "join_toks sep (w # ws) = w @ concat (map (\<lambda>v. sep # v) ws)"
  by (induction ws arbitrary: w) auto

lemma show_toks_grammar: "wf_node n \<Longrightarrow> g_atom (show_toks n) n"
proof (induction n)
  case (Leaf m)
  then show ?case using atom_ident [of "tok TokIdent m"] by simp
next
  case (Ref m)
  then show ?case using atom_ref [of "tok TokRef m"] by simp
next
  case (And cs)
  then obtain c cs' where cs: "cs = c # cs'" "cs' \<noteq> []"
    by (cases cs; cases "tl cs") auto
  have "g_and_tail (concat (map (\<lambda>c. tok TokAnd ''&'' # show_toks c) cs')) cs'"
    using And cs by (intro g_and_tail_join) (auto simp: list_all_iff)
  then have "g_or (join_toks (tok TokAnd ''&'') (map show_toks cs)) (And cs)"
    using And cs unfolding cs(1) list.map join_toks_concat
    by (intro or_one and_many) (auto simp: list_all_iff comp_def)
  then show ?case by (auto intro!: atom_paren)
next
  case (Or cs)
  then obtain c cs' where cs: "cs = c # cs'" "cs' \<noteq> []"
    by (cases cs; cases "tl cs") auto
  have "g_or_tail (concat (map (\<lambda>c. tok TokOr ''|'' # show_toks c) cs')) cs'"
    using Or cs by (intro g_or_tail_join) (auto simp: list_all_iff)
  then have "g_or (join_toks (tok TokOr ''|'') (map show_toks cs)) (Or cs)"
    using Or cs unfolding cs(1) list.map join_toks_concat
    by (intro or_many and_one) (auto simp: list_all_iff comp_def)
  then show ?case by (auto intro!: atom_paren)
qed simp

lemma ident_char_facts [simp]:
  "\<not> is_ref_char CHR ''&''" "\<not> is_ref_char CHR ''|''" "\<not> is_ref_char CHR ''(''"
  "\<not> is_ref_char CHR '')''" "\<not> is_ref_char CHR ''+''"
  "\<not> is_space CHR ''&''" "\<not> is_space CHR ''|''" "\<not> is_space CHR ''(''"
  "\<not> is_space CHR '')''" "\<not> is_space CHR ''+''"
  by (simp_all add: is_ref_char_def is_ident_char_def is_letter_def is_digit_def is_space_def
      code_of_def)

lemma ident_is_ref: "is_ident_char c \<Longrightarrow> is_ref_char c"
  by (simp add: is_ref_char_def)

lemma ref_not_space: "is_ref_char c \<Longrightarrow> \<not> is_space c"
  by (auto simp: is_ref_char_def is_ident_char_def is_letter_def is_digit_def is_space_def
      code_of_def Let_def)

lemma ident_neq_punct:
  "is_ident_char c \<Longrightarrow> c \<notin> {CHR ''&'', CHR ''|'', CHR ''('', CHR '')'', CHR ''+''}"
  using ident_char_facts(1-5) ident_is_ref by blast

definition ends_name :: "string \<Rightarrow> bool" where
  "ends_name rest \<longleftrightarrow> rest = [] \<or> \<not> is_ref_char (hd rest)"

lemma takeWhile_name:
  assumes "list_all P m" and "rest = [] \<or> \<not> P (hd rest)"
  shows "takeWhile P (m @ rest) = m"
  using assms by (cases rest) (auto simp: list_all_iff takeWhile_tail)

lemma tokenize_ident:
  assumes "m \<noteq> []" "list_all is_ident_char m" "ends_name rest"
  shows "tokenize_from i (m @ rest) =
    bindE (tokenize_from (i + length m) rest) (\<lambda>ts. Inr (tok TokIdent m # ts))"
proof -
  obtain c m' where m: "m = c # m'" using assms(1) by (cases m) auto
  have c: "is_ident_char c" "\<not> is_space c"
    using assms(2) m ident_is_ref ref_not_space by auto
  have tw: "takeWhile is_ident_char (m' @ rest) = m'"
    using assms(2,3) m ident_is_ref by (intro takeWhile_name) (auto simp: ends_name_def)
  show ?thesis
    using c ident_neq_punct [OF c(1)] by (simp add: m tw)
qed

lemma tokenize_ref:
  assumes "m \<noteq> []" "list_all is_ref_char m" "ends_name rest"
  shows "tokenize_from i (CHR ''+'' # m @ rest) =
    bindE (tokenize_from (Suc i + length m) rest) (\<lambda>ts. Inr (tok TokRef m # ts))"
proof -
  have "takeWhile is_ref_char (m @ rest) = m"
    using assms(2,3) by (intro takeWhile_name) (auto simp: ends_name_def)
  with assms(1) show ?thesis by simp
qed

lemma join_strs_Cons:
  "join_strs sep (w # ws) = w @ concat (map (\<lambda>v. sep # v) ws)"
  by (induction ws arbitrary: w) auto

lemma bindE_assoc: "bindE (bindE r f) g = bindE r (\<lambda>x. bindE (f x) g)"
  by (cases r) auto

text \<open>The operands after the first, each behind its separator.\<close>

lemma tokenize_operands:
  assumes "\<And>c i rest. c \<in> set cs \<Longrightarrow> ends_name rest \<Longrightarrow>
      tokenize_from i (show_node c @ rest) =
      bindE (tokenize_from (i + length (show_node c)) rest) (\<lambda>ts. Inr (show_toks c @ ts))"
    and sep: "sepc = CHR ''&'' \<and> sept = tok TokAnd ''&'' \<or> sepc = CHR ''|'' \<and> sept = tok TokOr ''|''"
    and "ends_name rest"
  shows "tokenize_from i (concat (map (\<lambda>c. sepc # show_node c) cs) @ rest) =
    bindE (tokenize_from (i + length (concat (map (\<lambda>c. sepc # show_node c) cs))) rest)
      (\<lambda>ts. Inr (concat (map (\<lambda>c. sept # show_toks c) cs) @ ts))"
  using assms(1)
proof (induction cs arbitrary: i)
  case Nil
  show ?case by (cases "tokenize_from i rest") auto
next
  case (Cons c cs)
  let ?tail = "concat (map (\<lambda>c. sepc # show_node c) cs)"
  have e: "ends_name (?tail @ rest)"
    using sep \<open>ends_name rest\<close> by (cases cs) (auto simp: ends_name_def)
  have c: "tokenize_from (Suc i) (show_node c @ ?tail @ rest) =
      bindE (tokenize_from (Suc i + length (show_node c)) (?tail @ rest)) (\<lambda>ts. Inr (show_toks c @ ts))"
    using Cons.prems e by simp
  have t: "tokenize_from (Suc i + length (show_node c)) (?tail @ rest) =
      bindE (tokenize_from (Suc i + length (show_node c) + length ?tail) rest)
        (\<lambda>ts. Inr (concat (map (\<lambda>c. sept # show_toks c) cs) @ ts))"
    by (rule Cons.IH) (use Cons.prems in auto)
  have "tokenize_from i (sepc # show_node c @ ?tail @ rest) =
      bindE (tokenize_from (Suc i) (show_node c @ ?tail @ rest)) (\<lambda>ts. Inr (sept # ts))"
    using sep by auto
  also have "\<dots> = bindE (tokenize_from (Suc i + length (show_node c) + length ?tail) rest)
      (\<lambda>ts. Inr (sept # show_toks c @ concat (map (\<lambda>c. sept # show_toks c) cs) @ ts))"
    unfolding c t by (simp only: bindE_assoc bindE_Inr)
  finally show ?case
    by (simp add: ac_simps del: tokenize_from.simps)
qed

lemma tokenize_show:
  "wf_node n \<Longrightarrow> ends_name rest \<Longrightarrow>
   tokenize_from i (show_node n @ rest) =
     bindE (tokenize_from (i + length (show_node n)) rest) (\<lambda>ts. Inr (show_toks n @ ts))"
proof (induction n arbitrary: i rest)
  case (Leaf m)
  then show ?case using tokenize_ident by simp
next
  case (Ref m)
  then show ?case using tokenize_ref by simp
next
  case (And cs)
  then obtain c cs' where cs: "cs = c # cs'" by (cases cs) auto
  let ?tail = "concat (map (\<lambda>c. CHR ''&'' # show_node c) cs')"
  have e: "ends_name (?tail @ CHR '')'' # rest)" by (cases cs') (auto simp: ends_name_def)
  have c: "tokenize_from (Suc i) (show_node c @ ?tail @ CHR '')'' # rest) =
      bindE (tokenize_from (Suc i + length (show_node c)) (?tail @ CHR '')'' # rest))
        (\<lambda>ts. Inr (show_toks c @ ts))"
    using And cs e by simp
  have t: "tokenize_from j (?tail @ CHR '')'' # rest) =
      bindE (tokenize_from (j + length ?tail) (CHR '')'' # rest))
        (\<lambda>ts. Inr (concat (map (\<lambda>c. tok TokAnd ''&'' # show_toks c) cs') @ ts))" for j
    by (rule tokenize_operands) (use And cs in \<open>auto simp: list_all_iff ends_name_def\<close>)
  show ?case
    by (simp add: cs join_strs_Cons join_toks_concat c t bindE_assoc comp_def ac_simps)
next
  case (Or cs)
  then obtain c cs' where cs: "cs = c # cs'" by (cases cs) auto
  let ?tail = "concat (map (\<lambda>c. CHR ''|'' # show_node c) cs')"
  have e: "ends_name (?tail @ CHR '')'' # rest)" by (cases cs') (auto simp: ends_name_def)
  have c: "tokenize_from (Suc i) (show_node c @ ?tail @ CHR '')'' # rest) =
      bindE (tokenize_from (Suc i + length (show_node c)) (?tail @ CHR '')'' # rest))
        (\<lambda>ts. Inr (show_toks c @ ts))"
    using Or cs e by simp
  have t: "tokenize_from j (?tail @ CHR '')'' # rest) =
      bindE (tokenize_from (j + length ?tail) (CHR '')'' # rest))
        (\<lambda>ts. Inr (concat (map (\<lambda>c. tok TokOr ''|'' # show_toks c) cs') @ ts))" for j
    by (rule tokenize_operands) (use Or cs in \<open>auto simp: list_all_iff ends_name_def\<close>)
  show ?case
    by (simp add: cs join_strs_Cons join_toks_concat c t bindE_assoc comp_def ac_simps)
qed simp

lemma show_node_ends:
  "wf_node n \<Longrightarrow> show_node n \<noteq> [] \<and> \<not> is_space (hd (show_node n)) \<and> \<not> is_space (last (show_node n))"
proof (cases n)
  case (Leaf m)
  moreover assume "wf_node n"
  ultimately show ?thesis
    using ref_not_space [OF ident_is_ref, of "last m"] ref_not_space [OF ident_is_ref, of "hd m"]
    by (auto simp: list_all_iff)
next
  case (Ref m)
  moreover assume "wf_node n"
  ultimately show ?thesis using ref_not_space [of "last m"] by (auto simp: list_all_iff)
qed auto

section \<open>Properties\<close>

text \<open>
  C17. The parser accepts exactly the language of the grammar: an expression is parsed to a tree
  if and only if, after trimming, it is not empty, it tokenizes, and the grammar derives that
  tree from its tokens. Precedence, n-ary flattening and parentheses are those of the grammar.
\<close>

theorem parse_dsl_iff:
  "parse_dsl s = Inr n \<longleftrightarrow>
     trim_space s \<noteq> [] \<and> (\<exists>ts. tokenize (trim_space s) = Inr (ts @ [eof_tok]) \<and> g_or ts n)"
proof -
  have "parse_tokens us = Inr n \<longleftrightarrow> (\<exists>ts. us = ts @ [eof_tok] \<and> g_or ts n)"
    if "tokenize (trim_space s) = Inr us" for us
    using tokenize_shape [OF that [unfolded tokenize_def]] parse_tokens_iff by auto
  then show ?thesis
    by (auto simp: parse_dsl_def Let_def bindE_simps)
qed

text \<open>
  Parsing terminates with an answer on every input: the fuel given to the recursive descent
  is always enough, so the result is a tree or one of the errors of the source.
\<close>

lemma parse_dsl_total: "parse_dsl s \<noteq> Inl ErrFuel"
proof -
  have "parse_tokens ts \<noteq> Inl ErrFuel" for ts
    using parse_fuel_enough(1) [of ts "parse_fuel ts"]
    by (auto simp: parse_tokens_def parse_fuel_def bindE_simps)
  then show ?thesis
    by (auto simp: parse_dsl_def Let_def bindE_simps tokenize_def tokenize_not_fuel)
qed

text \<open>
  C18. Printing and parsing are inverse: every well-formed tree, printed with its compound nodes
  in parentheses, is parsed back to itself.
\<close>

theorem parse_dsl_roundtrip:
  assumes "wf_node n"
  shows "parse_dsl (show_node n) = Inr n"
proof -
  have "tokenize (show_node n) = Inr (show_toks n @ [eof_tok])"
    using tokenize_show [OF assms, of "[]" 0] by (simp add: tokenize_def ends_name_def)
  moreover have "g_or (show_toks n) n"
    by (intro or_one and_one show_toks_grammar assms)
  ultimately show ?thesis
    using show_node_ends [OF assms] by (simp add: parse_dsl_iff trim_space_id)
qed

theorem parse_dsl_roundtrip_witness:
  "wf_node (Or [And [Leaf ''g'', Leaf ''v''], Ref ''auto:orphans'']) \<and>
   show_node (Or [And [Leaf ''g'', Leaf ''v''], Ref ''auto:orphans'']) = ''((g&v)|+auto:orphans)'' \<and>
   parse_dsl ''((g&v)|+auto:orphans)'' = Inr (Or [And [Leaf ''g'', Leaf ''v''], Ref ''auto:orphans''])"
proof -
  let ?n = "Or [And [Leaf ''g'', Leaf ''v''], Ref ''auto:orphans'']"
  have w: "wf_node ?n" by code_simp
  have s: "show_node ?n = ''((g&v)|+auto:orphans)''" by simp
  from w s parse_dsl_roundtrip [OF w] show ?thesis by (simp only: s)
qed

end
