(* ===== verification/BitMask.thy ===== *)
theory BitMask
  imports Prelude "HOL-Library.Word"
begin

text \<open>
  The bit masks of \<open>internal/matrix/program.go\<close> (\<open>type bitMask []uint64\<close>): lists of
  64-bit words, bit \<open>b\<close> in word \<open>b div 64\<close>. The abstraction \<open>mask_bits\<close> is the set
  of bits that are set; every operation is shown to be the set operation it stands for.
\<close>

unbundle bit_operations_syntax

type_synonym mask = "64 word list"

definition mask_words :: "nat \<Rightarrow> nat" where
  "mask_words n = (n + 63) div 64"

definition mask_empty :: "nat \<Rightarrow> mask" where
  "mask_empty words = replicate words 0"

definition mask_has :: "mask \<Rightarrow> nat \<Rightarrow> bool" where
  "mask_has m b \<longleftrightarrow> m ! (b div 64) AND push_bit (b mod 64) 1 \<noteq> 0"

definition mask_set :: "nat \<Rightarrow> mask \<Rightarrow> mask" where
  "mask_set b m = m[b div 64 := m ! (b div 64) OR push_bit (b mod 64) 1]"

definition mask_subset :: "mask \<Rightarrow> mask \<Rightarrow> bool" where
  "mask_subset m other \<longleftrightarrow> list_all (\<lambda>i. m ! i AND NOT (other ! i) = 0) [0..<length m]"

definition mask_union :: "mask \<Rightarrow> mask \<Rightarrow> mask" where
  "mask_union left right = map (\<lambda>i. left ! i OR right ! i) [0..<length left]"

section \<open>Refinement: masks are sets of bit numbers\<close>

definition mask_bits :: "mask \<Rightarrow> nat set" where
  "mask_bits m = {b. b < 64 * length m \<and> bit (m ! (b div 64)) (b mod 64)}"

lemma mask_bits_alt: "mask_bits m = {64 * i + j |i j. i < length m \<and> j < 64 \<and> bit (m ! i) j}"
proof (intro set_eqI iffI)
  fix b assume "b \<in> mask_bits m"
  then have "b div 64 < length m" "b mod 64 < 64" "bit (m ! (b div 64)) (b mod 64)"
    by (auto simp: mask_bits_def less_mult_imp_div_less mult.commute)
  moreover have "b = 64 * (b div 64) + b mod 64" by simp
  ultimately show "b \<in> {64 * i + j |i j. i < length m \<and> j < 64 \<and> bit (m ! i) j}" by blast
qed (auto simp: mask_bits_def)

lemma mask_bits_iff:
  "i < length m \<Longrightarrow> j < 64 \<Longrightarrow> 64 * i + j \<in> mask_bits m \<longleftrightarrow> bit (m ! i) j"
  by (auto simp: mask_bits_def)

lemma mask_has_iff: "b < 64 * length m \<Longrightarrow> mask_has m b \<longleftrightarrow> b \<in> mask_bits m"
  by (simp add: mask_has_def mask_bits_def bit_iff_and_push_bit_not_eq_0)

lemma length_mask_simps [simp]:
  "length (mask_empty w) = w" "length (mask_set b m) = length m"
  "length (mask_union l r) = length l"
  by (simp_all add: mask_empty_def mask_set_def mask_union_def)

lemma mask_bits_empty [simp]: "mask_bits (mask_empty w) = {}"
  by (auto simp: mask_bits_def mask_empty_def less_mult_imp_div_less mult.commute)

lemma mask_bits_set [simp]:
  assumes "b < 64 * length m"
  shows "mask_bits (mask_set b m) = insert b (mask_bits m)"
proof -
  have d: "b div 64 < length m" using assms by (simp add: less_mult_imp_div_less mult.commute)
  have e: "c = b \<longleftrightarrow> c div 64 = b div 64 \<and> c mod 64 = b mod 64" for c :: nat
    by (metis div_mult_mod_eq)
  show ?thesis
    using d assms
    by (auto simp: mask_bits_def mask_set_def nth_list_update bit_or_iff bit_exp_iff e)
qed

lemma mask_bits_union [simp]:
  "length l = length r \<Longrightarrow> mask_bits (mask_union l r) = mask_bits l \<union> mask_bits r"
  by (auto simp: mask_bits_def mask_union_def bit_or_iff less_mult_imp_div_less mult.commute)

lemma word_subset_iff: "(x :: 64 word) AND NOT y = 0 \<longleftrightarrow> (\<forall>j<64. bit x j \<longrightarrow> bit y j)"
  by (auto simp: bit_eq_iff bit_and_iff bit_not_iff)

lemma mask_subset_iff [simp]:
  assumes "length m = length r"
  shows "mask_subset m r \<longleftrightarrow> mask_bits m \<subseteq> mask_bits r"
proof -
  have "mask_bits m \<subseteq> mask_bits r \<longleftrightarrow> (\<forall>i<length m. \<forall>j<64. bit (m ! i) j \<longrightarrow> bit (r ! i) j)"
  proof (intro iffI allI impI)
    fix i j assume s: "mask_bits m \<subseteq> mask_bits r" and i: "i < length m" and j: "j < 64"
      and b: "bit (m ! i) j"
    have "64 * i + j \<in> mask_bits m" using i j b by (simp add: mask_bits_iff)
    with s have "64 * i + j \<in> mask_bits r" by blast
    then show "bit (r ! i) j" using i j assms by (simp add: mask_bits_iff)
  qed (use assms in \<open>auto simp: mask_bits_alt\<close>)
  then show ?thesis
    by (auto simp: mask_subset_def list_all_iff word_subset_iff)
qed

lemma mask_words_enough: "b < n \<Longrightarrow> b < 64 * mask_words n"
  by (simp add: mask_words_def)

lemma finite_mask_bits [simp]: "finite (mask_bits m)"
  by (rule finite_subset [of _ "{..<64 * length m}"]) (auto simp: mask_bits_def)

section \<open>Numbering: one bit per model, in order of first occurrence\<close>

definition assign_bit :: "(string \<times> nat) list \<Rightarrow> string \<Rightarrow> (string \<times> nat) list" where
  "assign_bit bits m = (if map_of bits m = None then bits @ [(m, length bits)] else bits)"

definition assign_bits :: "string list \<Rightarrow> (string \<times> nat) list" where
  "assign_bits ms = foldl assign_bit [] ms"

definition bits_wf :: "(string \<times> nat) list \<Rightarrow> bool" where
  "bits_wf bits \<longleftrightarrow> distinct (map fst bits) \<and> map snd bits = [0..<length bits]"

lemma bits_wf_lookup:
  assumes "bits_wf bits" and "map_of bits m = Some b"
  shows "b < length bits"
proof -
  have "(m, b) \<in> set bits" using assms(2) by (rule map_of_SomeD)
  then have "b \<in> set (map snd bits)" by force
  with assms(1) show ?thesis by (auto simp: bits_wf_def)
qed

lemma bits_wf_inj:
  assumes "bits_wf bits" and "map_of bits m = Some b" and "map_of bits m' = Some b"
  shows "m = m'"
proof -
  have "distinct (map snd bits)" using assms(1) by (simp add: bits_wf_def)
  with assms(2,3) show ?thesis
    by (metis distinct_map inj_onD map_of_SomeD prod.inject snd_conv)
qed

lemma assign_bit_wf:
  "bits_wf bits \<Longrightarrow> bits_wf (assign_bit bits m) \<and>
   fst ` set (assign_bit bits m) = insert m (fst ` set bits)"
  by (auto simp: bits_wf_def assign_bit_def map_of_eq_None_iff)

lemma assign_bits_wf_gen:
  "bits_wf bits \<Longrightarrow> bits_wf (foldl assign_bit bits ms) \<and>
   fst ` set (foldl assign_bit bits ms) = set ms \<union> fst ` set bits"
  by (induction ms arbitrary: bits) (auto simp: assign_bit_wf)

lemma assign_bits_wf: "bits_wf (assign_bits ms)"
  and dom_assign_bits: "dom (map_of (assign_bits ms)) = set ms"
  using assign_bits_wf_gen [of "[]" ms]
  by (auto simp: assign_bits_def bits_wf_def dom_map_of_conv_image_fst)

end
