(* ===== verification/MatrixEval.thy ===== *)
theory MatrixEval
  imports BitMask
begin

text \<open>
  The evaluator of \<open>internal/matrix/program.go\<close>: projected states, the frontier of
  undominated states and the recursive evaluation of a linked expression. A linked node is the
  tree a \<open>*node\<close> unfolds to once the compiler has stored the referenced root in every
  reference. The evaluator's memo table stores the result of an evaluation under the node it
  was computed from, so it changes the cost of a query and not its result; it is left out.

  The specification is \<open>combos\<close>, the full expansion of an expression into the sets of
  models it allows (the Cartesian product the code avoids). The central lemma is
  \<open>evaluate_frontier\<close>: the evaluator returns an antichain of masks, each the projection of
  a combination, that dominates every combination.
\<close>

datatype lnode = LLeaf string | LRef lnode | LAnd "lnode list" | LOr "lnode list" | LEmpty

datatype witness = NoWit | Wit (wit_model: string) (wit_left: witness) (wit_right: witness)

record pstate =
  ps_mask :: mask
  ps_wit :: witness

record evaluator =
  ev_bits :: "(string \<times> nat) list"
  ev_words :: nat

definition new_evaluator :: "string list \<Rightarrow> evaluator" where
  "new_evaluator relevant =
     (let bits = assign_bits relevant in
      \<lparr>ev_bits = bits, ev_words = mask_words (length bits)\<rparr>)"

definition full_mask :: "evaluator \<Rightarrow> mask" where
  "full_mask e = foldl (\<lambda>m b. mask_set b m) (mask_empty (ev_words e)) [0..<length (ev_bits e)]"

definition add_to_frontier :: "pstate list \<Rightarrow> pstate \<Rightarrow> pstate list" where
  "add_to_frontier states candidate =
     (if list_ex (\<lambda>s. mask_subset (ps_mask candidate) (ps_mask s)) states then states
      else filter (\<lambda>s. \<not> mask_subset (ps_mask s) (ps_mask candidate)) states @ [candidate])"

definition join_states :: "pstate \<Rightarrow> pstate \<Rightarrow> pstate" where
  "join_states l r =
     \<lparr>ps_mask = mask_union (ps_mask l) (ps_mask r), ps_wit = Wit '''' (ps_wit l) (ps_wit r)\<rparr>"

definition combine :: "pstate list \<Rightarrow> pstate list \<Rightarrow> pstate list" where
  "combine states rights =
     foldl (\<lambda>acc l. foldl (\<lambda>acc r. add_to_frontier acc (join_states l r)) acc rights) [] states"

definition leaf_mask :: "evaluator \<Rightarrow> string \<Rightarrow> mask" where
  "leaf_mask e m =
     (case map_of (ev_bits e) m of
        Some b \<Rightarrow> mask_set b (mask_empty (ev_words e))
      | None \<Rightarrow> mask_empty (ev_words e))"

fun evaluate :: "evaluator \<Rightarrow> lnode \<Rightarrow> pstate list" where
  "evaluate e LEmpty = []"
| "evaluate e (LLeaf m) = [\<lparr>ps_mask = leaf_mask e m, ps_wit = Wit m NoWit NoWit\<rparr>]"
| "evaluate e (LRef t) = evaluate e t"
| "evaluate e (LOr cs) =
     foldl (\<lambda>states c. foldl add_to_frontier states (evaluate e c)) [] cs"
| "evaluate e (LAnd cs) =
     foldl (\<lambda>states c. combine states (evaluate e c))
       [\<lparr>ps_mask = mask_empty (ev_words e), ps_wit = NoWit\<rparr>] cs"

text \<open>\<open>flattenWitness\<close>: the named models of a witness, each once, sorted.\<close>

fun wit_models :: "witness \<Rightarrow> string list \<Rightarrow> string list" where
  "wit_models NoWit models = models"
| "wit_models (Wit m l r) models =
     wit_models r (wit_models l (if m \<noteq> '''' \<and> m \<notin> set models then models @ [m] else models))"

definition flatten_witness :: "witness \<Rightarrow> string list" where
  "flatten_witness w = sort (wit_models w [])"

section \<open>The specification: the full expansion\<close>

fun product_sets :: "'a set set list \<Rightarrow> 'a set set" where
  "product_sets [] = {{}}"
| "product_sets (A # As) = {a \<union> b |a b. a \<in> A \<and> b \<in> product_sets As}"

fun combos :: "lnode \<Rightarrow> string set set" where
  "combos LEmpty = {}"
| "combos (LLeaf m) = {{m}}"
| "combos (LRef t) = combos t"
| "combos (LOr cs) = (\<Union>c\<in>set cs. combos c)"
| "combos (LAnd cs) = product_sets (map combos cs)"

text \<open>The models relevant to a query that a combination contains, as bit numbers.\<close>

definition proj :: "evaluator \<Rightarrow> string set \<Rightarrow> nat set" where
  "proj e S = {b. \<exists>m\<in>S. map_of (ev_bits e) m = Some b}"

fun wit_set :: "witness \<Rightarrow> string set" where
  "wit_set NoWit = {}"
| "wit_set (Wit m l r) = (if m = '''' then {} else {m}) \<union> wit_set l \<union> wit_set r"

lemma set_wit_models: "set (wit_models w ms) = set ms \<union> wit_set w"
  by (induction w arbitrary: ms) auto

lemma distinct_wit_models: "distinct ms \<Longrightarrow> distinct (wit_models w ms)"
  by (induction w arbitrary: ms) auto

lemma set_flatten_witness [simp]: "set (flatten_witness w) = wit_set w"
  by (simp add: flatten_witness_def set_wit_models)

lemma flatten_witness_sorted [simp]:
  "sorted (flatten_witness w)" "distinct (flatten_witness w)"
  by (simp_all add: flatten_witness_def distinct_wit_models)

section \<open>Frontiers\<close>

definition ev_wf :: "evaluator \<Rightarrow> bool" where
  "ev_wf e \<longleftrightarrow> bits_wf (ev_bits e) \<and> ev_words e = mask_words (length (ev_bits e))"

lemma new_evaluator_wf [simp]: "ev_wf (new_evaluator ms)"
  by (simp add: ev_wf_def new_evaluator_def assign_bits_wf Let_def)

text \<open>
  \<open>covers e states C\<close>: every state is the projection of a combination of \<open>C\<close> which
  its witness lists (the name \<open>''\<close> aside), no state is below another, and every
  combination of \<open>C\<close> is below some state.
\<close>

definition state_of :: "evaluator \<Rightarrow> pstate \<Rightarrow> string set \<Rightarrow> bool" where
  "state_of e s S \<longleftrightarrow> length (ps_mask s) = ev_words e \<and> mask_bits (ps_mask s) = proj e S \<and>
     wit_set (ps_wit s) = S - {''''}"

definition antichain :: "pstate list \<Rightarrow> bool" where
  "antichain states \<longleftrightarrow>
     distinct states \<and>
     (\<forall>s\<in>set states. \<forall>t\<in>set states. mask_bits (ps_mask s) \<subseteq> mask_bits (ps_mask t) \<longrightarrow> s = t)"

definition covers :: "evaluator \<Rightarrow> pstate list \<Rightarrow> string set set \<Rightarrow> bool" where
  "covers e states C \<longleftrightarrow>
     (\<forall>s\<in>set states. \<exists>S\<in>C. state_of e s S) \<and>
     (\<forall>S\<in>C. \<exists>s\<in>set states. proj e S \<subseteq> mask_bits (ps_mask s)) \<and> antichain states"

lemma proj_Un [simp]: "proj e (A \<union> B) = proj e A \<union> proj e B"
  and proj_empty [simp]: "proj e {} = {}"
  by (auto simp: proj_def)

lemma proj_mono: "A \<subseteq> B \<Longrightarrow> proj e A \<subseteq> proj e B"
  by (auto simp: proj_def)

lemma covers_empty: "covers e [] {}"
  by (simp add: covers_def antichain_def)

lemma covers_add:
  assumes c: "covers e states C" and s: "state_of e s S"
  shows "covers e (add_to_frontier states s) (insert S C)"
proof -
  have len: "length (ps_mask t) = ev_words e" if "t \<in> insert s (set states)" for t
    using that c s by (auto simp: covers_def state_of_def)
  have ls: "length (ps_mask s) = ev_words e" using s by (simp add: state_of_def)
  have ms: "mask_bits (ps_mask s) = proj e S" using s by (simp add: state_of_def)
  show ?thesis
  proof (cases "\<exists>t\<in>set states. mask_bits (ps_mask s) \<subseteq> mask_bits (ps_mask t)")
    case True
    then have "add_to_frontier states s = states"
      using len ls by (auto simp: add_to_frontier_def list_ex_iff)
    with c True ms show ?thesis by (auto simp: covers_def)
  next
    case False
    let ?keep = "filter (\<lambda>t. \<not> mask_bits (ps_mask t) \<subseteq> mask_bits (ps_mask s)) states"
    have eq: "add_to_frontier states s = ?keep @ [s]"
      using False len ls
      by (auto simp: add_to_frontier_def list_ex_iff intro!: filter_cong)
    have "antichain (?keep @ [s])"
      using c False by (auto simp: covers_def antichain_def)
    moreover have "\<exists>t\<in>set (?keep @ [s]). proj e T \<subseteq> mask_bits (ps_mask t)" if "T \<in> insert S C" for T
    proof (cases "proj e T \<subseteq> mask_bits (ps_mask s)")
      case True
      then show ?thesis by auto
    next
      case f: False
      with that ms have "T \<in> C" by auto
      with c obtain t where "t \<in> set states" "proj e T \<subseteq> mask_bits (ps_mask t)"
        by (auto simp: covers_def)
      with f show ?thesis by auto
    qed
    moreover have "\<exists>T\<in>insert S C. state_of e t T" if "t \<in> set (?keep @ [s])" for t
      using that c s by (auto simp: covers_def)
    ultimately show ?thesis unfolding eq covers_def by blast
  qed
qed

text \<open>Adding the states of a second frontier unites the two.\<close>

lemma covers_mono:
  assumes "covers e states C" and "C \<subseteq> D"
    and "\<And>S. S \<in> D \<Longrightarrow> \<exists>T\<in>C. proj e S \<subseteq> proj e T"
  shows "covers e states D"
  unfolding covers_def
proof (intro conjI ballI)
  fix S assume "S \<in> D"
  with assms(3) obtain T where "T \<in> C" "proj e S \<subseteq> proj e T" by blast
  with assms(1) show "\<exists>s\<in>set states. proj e S \<subseteq> mask_bits (ps_mask s)"
    unfolding covers_def by (meson order_trans)
next
  fix s assume "s \<in> set states"
  with assms(1,2) show "\<exists>S\<in>D. state_of e s S" unfolding covers_def by blast
next
  show "antichain states" using assms(1) by (simp add: covers_def)
qed

lemma covers_fold_add:
  assumes "covers e states C" and "\<forall>s\<in>set new. \<exists>S. state_of e s S \<and> S \<in> D"
  shows "\<exists>E. covers e (foldl add_to_frontier states new) (C \<union> E) \<and> E \<subseteq> D \<and>
    (\<forall>s\<in>set new. \<exists>S\<in>E. state_of e s S)"
  using assms
proof (induction new arbitrary: states C)
  case Nil
  then show ?case by (intro exI [of _ "{}"]) auto
next
  case (Cons s new)
  then obtain S where S: "state_of e s S" "S \<in> D" by auto
  from covers_add [OF Cons.prems(1) S(1)] Cons.IH [of "add_to_frontier states s" "insert S C"] Cons.prems(2)
  obtain E where E: "covers e (foldl add_to_frontier (add_to_frontier states s) new) (insert S C \<union> E)"
    "E \<subseteq> D" "\<forall>s\<in>set new. \<exists>S\<in>E. state_of e s S" by auto
  then show ?case using S by (intro exI [of _ "insert S E"]) auto
qed

text \<open>A list of states, in no order and with repetitions, that stands for a set of combinations.\<close>

definition represents :: "evaluator \<Rightarrow> pstate list \<Rightarrow> string set set \<Rightarrow> bool" where
  "represents e states C \<longleftrightarrow>
     (\<forall>s\<in>set states. \<exists>S\<in>C. state_of e s S) \<and>
     (\<forall>S\<in>C. \<exists>s\<in>set states. proj e S \<subseteq> mask_bits (ps_mask s))"

lemma covers_represents: "covers e states C \<longleftrightarrow> represents e states C \<and> antichain states"
  by (simp add: covers_def represents_def)

lemma covers_add_all:
  assumes c: "covers e states C" and r: "represents e new D"
  shows "covers e (foldl add_to_frontier states new) (C \<union> D)"
proof -
  have "\<forall>s\<in>set new. \<exists>S. state_of e s S \<and> S \<in> D" using r by (auto simp: represents_def)
  from covers_fold_add [OF c this]
  obtain E where E: "covers e (foldl add_to_frontier states new) (C \<union> E)" "E \<subseteq> D"
    "\<forall>s\<in>set new. \<exists>S\<in>E. state_of e s S" by blast
  show ?thesis
  proof (rule covers_mono [OF E(1)])
    show "C \<union> E \<subseteq> C \<union> D" using E(2) by blast
    fix S assume "S \<in> C \<union> D"
    then show "\<exists>T\<in>C \<union> E. proj e S \<subseteq> proj e T"
    proof
      assume "S \<in> C"
      then show ?thesis by blast
    next
      assume "S \<in> D"
      with r obtain s where s: "s \<in> set new" "proj e S \<subseteq> mask_bits (ps_mask s)"
        by (auto simp: represents_def)
      with E(3) obtain T where "T \<in> E" "state_of e s T" by blast
      with s(2) show ?thesis by (auto simp: state_of_def)
    qed
  qed
qed

lemma foldl_concat_map:
  "foldl (\<lambda>acc l. foldl (\<lambda>acc r. h acc (g l r)) acc rs) a ls =
   foldl h a (concat (map (\<lambda>l. map (g l) rs) ls))"
proof (induction ls arbitrary: a)
  case (Cons l ls)
  have "foldl (\<lambda>acc r. h acc (g l r)) a rs = foldl h a (map (g l) rs)"
    by (induction rs arbitrary: a) auto
  with Cons show ?case by simp
qed simp

definition pairwise_union :: "'a set set \<Rightarrow> 'a set set \<Rightarrow> 'a set set" where
  "pairwise_union A B = {a \<union> b |a b. a \<in> A \<and> b \<in> B}"

lemma state_of_join:
  "state_of e l A \<Longrightarrow> state_of e r B \<Longrightarrow> state_of e (join_states l r) (A \<union> B)"
  by (auto simp: state_of_def join_states_def)

lemma represents_joins:
  assumes "represents e ls A" and "represents e rs B"
  shows "represents e (concat (map (\<lambda>l. map (join_states l) rs) ls)) (pairwise_union A B)"
  unfolding represents_def
proof (intro conjI ballI)
  fix s assume "s \<in> set (concat (map (\<lambda>l. map (join_states l) rs) ls))"
  then obtain l r where s: "l \<in> set ls" "r \<in> set rs" "s = join_states l r" by auto
  from assms(1) s(1) obtain a where a: "a \<in> A" "state_of e l a" by (auto simp: represents_def)
  from assms(2) s(2) obtain b where b: "b \<in> B" "state_of e r b" by (auto simp: represents_def)
  from a b s(3) show "\<exists>S\<in>pairwise_union A B. state_of e s S"
    by (intro bexI [of _ "a \<union> b"]) (auto simp: pairwise_union_def state_of_join)
next
  fix S assume "S \<in> pairwise_union A B"
  then obtain a b where S: "S = a \<union> b" "a \<in> A" "b \<in> B" by (auto simp: pairwise_union_def)
  from assms(1) S(2) obtain l where l: "l \<in> set ls" "proj e a \<subseteq> mask_bits (ps_mask l)"
    by (auto simp: represents_def)
  from assms(2) S(3) obtain r where r: "r \<in> set rs" "proj e b \<subseteq> mask_bits (ps_mask r)"
    by (auto simp: represents_def)
  note lr = l r
  have "length (ps_mask l) = length (ps_mask r)"
    using assms lr by (auto simp: represents_def state_of_def)
  with S lr show "\<exists>s\<in>set (concat (map (\<lambda>l. map (join_states l) rs) ls)). proj e S \<subseteq> mask_bits (ps_mask s)"
    by (intro bexI [of _ "join_states l r"]) (auto simp: join_states_def)
qed

lemma covers_combine:
  assumes "covers e ls A" and "covers e rs B"
  shows "covers e (combine ls rs) (pairwise_union A B)"
  unfolding combine_def foldl_concat_map
  using covers_add_all [OF covers_empty represents_joins] assms
  by (auto simp: covers_represents)

lemma pairwise_union_right:
  "pairwise_union A (pairwise_union B C) = {a \<union> b \<union> c |a b c. a \<in> A \<and> b \<in> B \<and> c \<in> C}"
  unfolding pairwise_union_def by (simp add: Un_assoc) blast

lemma pairwise_union_left:
  "pairwise_union (pairwise_union A B) C = {a \<union> b \<union> c |a b c. a \<in> A \<and> b \<in> B \<and> c \<in> C}"
  unfolding pairwise_union_def by blast

lemma product_sets_foldl:
  "pairwise_union A (product_sets Bs) = foldl pairwise_union A Bs"
proof (induction Bs arbitrary: A)
  case Nil
  show ?case by (auto simp: pairwise_union_def)
next
  case (Cons B Bs)
  have "product_sets (B # Bs) = pairwise_union B (product_sets Bs)"
    by (simp add: pairwise_union_def)
  then have "pairwise_union A (product_sets (B # Bs)) = pairwise_union (pairwise_union A B) (product_sets Bs)"
    by (simp only: pairwise_union_left pairwise_union_right)
  with Cons show ?case by simp
qed

lemma product_sets_eq: "product_sets Bs = foldl pairwise_union {{}} Bs"
  by (simp flip: product_sets_foldl) (auto simp: pairwise_union_def)

section \<open>The evaluator computes a frontier of the full expansion\<close>

lemma covers_or:
  assumes "\<And>c. c \<in> set cs \<Longrightarrow> covers e (ev c) (com c)" and "covers e states C"
  shows "covers e (foldl (\<lambda>st c. foldl add_to_frontier st (ev c)) states cs) (C \<union> (\<Union>c\<in>set cs. com c))"
  using assms
proof (induction cs arbitrary: states C)
  case (Cons c cs)
  then have "covers e (foldl add_to_frontier states (ev c)) (C \<union> com c)"
    by (intro covers_add_all) (auto simp: covers_represents)
  from Cons.IH [OF _ this] Cons.prems(1) show ?case by (simp add: Un_assoc)
qed simp

lemma covers_and:
  assumes "\<And>c. c \<in> set cs \<Longrightarrow> covers e (ev c) (com c)" and "covers e states C"
  shows "covers e (foldl (\<lambda>st c. combine st (ev c)) states cs) (foldl pairwise_union C (map com cs))"
  using assms
proof (induction cs arbitrary: states C)
  case (Cons c cs)
  then show ?case using covers_combine by simp
qed simp

lemma covers_singleton:
  "state_of e s S \<Longrightarrow> covers e [s] {S}"
  by (auto simp: covers_def antichain_def state_of_def)

lemma state_of_leaf:
  assumes "ev_wf e"
  shows "state_of e \<lparr>ps_mask = leaf_mask e m, ps_wit = Wit m NoWit NoWit\<rparr> {m}"
proof (cases "map_of (ev_bits e) m")
  case None
  then show ?thesis by (auto simp: state_of_def leaf_mask_def proj_def)
next
  case (Some b)
  with assms have "b < 64 * ev_words e"
    using bits_wf_lookup mask_words_enough by (auto simp: ev_wf_def)
  with Some show ?thesis by (auto simp: state_of_def leaf_mask_def proj_def)
qed

lemma evaluate_frontier: "ev_wf e \<Longrightarrow> covers e (evaluate e t) (combos t)"
proof (induction e t rule: evaluate.induct)
  case (1 e)
  show ?case by (simp add: covers_empty)
next
  case (2 e m)
  then show ?case using covers_singleton state_of_leaf by simp
next
  case (3 e t)
  then show ?case by simp
next
  case (4 e cs)
  then show ?case using covers_or [of cs e "evaluate e" combos "[]" "{}"]
    by (simp add: covers_empty)
next
  case (5 e cs)
  have "covers e [\<lparr>ps_mask = mask_empty (ev_words e), ps_wit = NoWit\<rparr>] {{}}"
    by (rule covers_singleton) (simp add: state_of_def)
  with 5 show ?case
    using covers_and [of cs e "evaluate e" combos] by (simp add: product_sets_eq)
qed

lemma full_mask_bits:
  assumes "ev_wf e"
  shows "length (full_mask e) = ev_words e \<and> mask_bits (full_mask e) = {..<length (ev_bits e)}"
proof -
  have "n \<le> length (ev_bits e) \<Longrightarrow>
    length (foldl (\<lambda>m b. mask_set b m) (mask_empty (ev_words e)) [0..<n]) = ev_words e \<and>
    mask_bits (foldl (\<lambda>m b. mask_set b m) (mask_empty (ev_words e)) [0..<n]) = {..<n}" for n
  proof (induction n)
    case (Suc n)
    then have "n < 64 * ev_words e" using assms mask_words_enough by (auto simp: ev_wf_def)
    with Suc show ?case by (auto simp: lessThan_Suc)
  qed simp
  then show ?thesis by (simp add: full_mask_def)
qed

text \<open>The bits of the evaluator made for \<open>ms\<close> stand for exactly the models of \<open>ms\<close>.\<close>

lemma dom_new_evaluator [simp]: "dom (map_of (ev_bits (new_evaluator ms))) = set ms"
  by (simp add: new_evaluator_def Let_def dom_assign_bits)

lemma proj_mem_iff:
  assumes "ev_wf e" and "map_of (ev_bits e) m = Some b"
  shows "b \<in> proj e S \<longleftrightarrow> m \<in> S"
  using assms bits_wf_inj unfolding proj_def ev_wf_def by blast

end
