(* ===== verification/MatrixCompile.thy ===== *)
theory MatrixCompile
  imports MatrixDsl MatrixEval
begin

text \<open>
  \<open>Compile\<close> of \<open>internal/matrix/program.go\<close>: parse every definition, resolve its
  identifiers to models, register its references, synthesize the set of orphan models, order
  the sets by reference, drop references to empty sets, link and number the models.

  The Go maps keyed by set name are association lists. The recursive \<open>visit\<close> of
  \<open>topologicalOrder\<close> takes fuel, one unit per named set is enough (\<open>visit_fuel_enough\<close>).
  Linking stores the root of a set in each reference to it; the model links the sets in
  topological order, so a reference becomes the tree it points to. \<open>CErrNilRef\<close> and
  \<open>CErrFuel\<close> stand for a nil dereference and for a recursion that does not end; neither
  is ever the result (\<open>compile_no_panic\<close>).
\<close>

definition orphan_set_name :: string where
  "orphan_set_name = ''auto:orphans''"

record set_def =
  sd_name :: string
  sd_dsl :: string

type_synonym resolver = "string \<Rightarrow> string option"

datatype compile_error =
    CErrNoSets
  | CErrParse string dsl_error
  | CErrUnknownModel string string
  | CErrUndefinedSet string string
  | CErrCircular string
  | CErrNilRef string
  | CErrFuel

record compiled_set =
  cs_name :: string
  cs_dsl :: string
  cs_root :: lnode
  cs_support :: mask

record program =
  pr_sets :: "compiled_set list"
  pr_bits :: "(string \<times> nat) list"
  pr_words :: nat
  pr_orphans :: "string list"
  pr_mode :: string

section \<open>Resolving the leaves and references of one definition\<close>

record walk_state =
  ws_seen :: "string list"
  ws_orphans :: bool
  ws_refs :: "string list"

definition set_insert :: "'a \<Rightarrow> 'a list \<Rightarrow> 'a list" where
  "set_insert x xs = (if x \<in> set xs then xs else xs @ [x])"

fun resolve_node :: "string \<Rightarrow> string list \<Rightarrow> resolver \<Rightarrow> node \<Rightarrow> walk_state \<Rightarrow> compile_error + node \<times> walk_state"
  and resolve_nodes :: "string \<Rightarrow> string list \<Rightarrow> resolver \<Rightarrow> node list \<Rightarrow> walk_state \<Rightarrow> compile_error + node list \<times> walk_state"
where
  "resolve_node d names resolve (Leaf x) w =
     (case resolve x of
        None \<Rightarrow> Inl (CErrUnknownModel d x)
      | Some m \<Rightarrow> Inr (Leaf m, w\<lparr>ws_seen := set_insert m (ws_seen w)\<rparr>))"
| "resolve_node d names resolve (Ref n) w =
     (let w' = (if n = orphan_set_name then w\<lparr>ws_orphans := True\<rparr> else w) in
      if (n \<noteq> orphan_set_name \<or> orphan_set_name \<in> set names) \<and> n \<notin> set names
      then Inl (CErrUndefinedSet d n)
      else Inr (Ref n, w'\<lparr>ws_refs := set_insert n (ws_refs w')\<rparr>))"
| "resolve_node d names resolve (And cs) w =
     bindE (resolve_nodes d names resolve cs w) (\<lambda>(cs', w'). Inr (And cs', w'))"
| "resolve_node d names resolve (Or cs) w =
     bindE (resolve_nodes d names resolve cs w) (\<lambda>(cs', w'). Inr (Or cs', w'))"
| "resolve_node d names resolve Empty w = Inr (Empty, w)"
| "resolve_nodes d names resolve [] w = Inr ([], w)"
| "resolve_nodes d names resolve (c # cs) w =
     bindE (resolve_node d names resolve c w) (\<lambda>(c', w1).
       bindE (resolve_nodes d names resolve cs w1) (\<lambda>(cs', w2). Inr (c' # cs', w2)))"

record compile_state =
  co_roots :: "(string \<times> node) list"
  co_dsl :: "(string \<times> string) list"
  co_deps :: "(string \<times> string list) list"
  co_seen :: "string list"
  co_orphans :: bool

definition compile_def ::
  "string list \<Rightarrow> resolver \<Rightarrow> set_def \<Rightarrow> compile_state \<Rightarrow> compile_error + compile_state" where
  "compile_def names resolve d st =
     (case parse_dsl (sd_dsl d) of
        Inl e \<Rightarrow> Inl (CErrParse (sd_name d) e)
      | Inr root \<Rightarrow>
          bindE (resolve_node (sd_name d) names resolve root
                   \<lparr>ws_seen = co_seen st, ws_orphans = co_orphans st, ws_refs = []\<rparr>)
            (\<lambda>(root', w). Inr
               \<lparr>co_roots = AList.update (sd_name d) root' (co_roots st),
                co_dsl = AList.update (sd_name d) (sd_dsl d) (co_dsl st),
                co_deps = AList.update (sd_name d) (ws_refs w) (co_deps st),
                co_seen = ws_seen w, co_orphans = ws_orphans w\<rparr>))"

section \<open>Orphans\<close>

definition build_model_set :: "string list \<Rightarrow> node" where
  "build_model_set models = (if models = [] then Empty else Or (map Leaf (sort models)))"

definition synthesize_orphans ::
  "string list \<Rightarrow> string list \<Rightarrow> compile_state \<Rightarrow> compile_state \<times> string list \<times> string" where
  "synthesize_orphans names all_models st =
     (if \<not> co_orphans st then (st, [], '''')
      else if orphan_set_name \<in> set names then (st, [], ''user-defined'')
      else
        (let orphans = sort (filter (\<lambda>m. m \<notin> set (co_seen st)) all_models);
             st' = st\<lparr>co_deps := AList.update orphan_set_name [] (co_deps st),
                      co_roots := AList.update orphan_set_name (build_model_set orphans) (co_roots st)\<rparr>
         in if orphans = [] then (st', [], ''empty'') else (st', orphans, ''synthesized'')))"

section \<open>Ordering\<close>

record topo =
  to_state :: "string \<Rightarrow> nat"
  to_order :: "string list"

definition deps_of :: "(string \<times> string list) list \<Rightarrow> string \<Rightarrow> string list" where
  "deps_of deps name = (case map_of deps name of None \<Rightarrow> [] | Some ds \<Rightarrow> ds)"

fun visit :: "nat \<Rightarrow> (string \<times> string list) list \<Rightarrow> string \<Rightarrow> topo \<Rightarrow> compile_error + topo" where
  "visit 0 deps name st = Inl CErrFuel"
| "visit (Suc f) deps name st =
     (if to_state st name = 1 then Inl (CErrCircular name)
      else if to_state st name = 2 then Inr st
      else
        bindE (foldE (visit f deps) (deps_of deps name)
                 (st\<lparr>to_state := (to_state st)(name := 1)\<rparr>))
          (\<lambda>st'. Inr (st'\<lparr>to_state := (to_state st')(name := 2),
                          to_order := to_order st' @ [name]\<rparr>)))"

definition topological_order ::
  "set_def list \<Rightarrow> (string \<times> string list) list \<Rightarrow> compile_error + string list" where
  "topological_order defs deps =
     bindE (foldE (\<lambda>d st. if to_state st (sd_name d) = 0
                          then visit (Suc (length deps)) deps (sd_name d) st else Inr st)
              defs \<lparr>to_state = (\<lambda>_. 0), to_order = []\<rparr>)
       (\<lambda>st. Inr (to_order st))"

section \<open>Dropping empty references, linking, numbering\<close>

fun simplify_empty_refs :: "(string \<rightharpoonup> node) \<Rightarrow> node \<Rightarrow> node" where
  "simplify_empty_refs roots (Ref n) = (if roots n = Some Empty then Empty else Ref n)"
| "simplify_empty_refs roots (Leaf m) = Leaf m"
| "simplify_empty_refs roots Empty = Empty"
| "simplify_empty_refs roots (And cs) =
     (case filter (\<lambda>c. c \<noteq> Empty) (map (simplify_empty_refs roots) cs) of
        [] \<Rightarrow> Empty | [c] \<Rightarrow> c | children \<Rightarrow> And children)"
| "simplify_empty_refs roots (Or cs) =
     (case filter (\<lambda>c. c \<noteq> Empty) (map (simplify_empty_refs roots) cs) of
        [] \<Rightarrow> Empty | [c] \<Rightarrow> c | children \<Rightarrow> Or children)"

definition simplify_root :: "string \<Rightarrow> (string \<times> node) list \<Rightarrow> compile_error + (string \<times> node) list" where
  "simplify_root name roots =
     (case map_of roots name of
        None \<Rightarrow> Inl (CErrNilRef name)
      | Some root \<Rightarrow> Inr (AList.update name (simplify_empty_refs (map_of roots) root) roots))"

fun link_node :: "(string \<rightharpoonup> lnode) \<Rightarrow> node \<Rightarrow> compile_error + lnode"
  and link_nodes :: "(string \<rightharpoonup> lnode) \<Rightarrow> node list \<Rightarrow> compile_error + lnode list"
where
  "link_node env (Leaf m) = Inr (LLeaf m)"
| "link_node env (Ref n) = (case env n of None \<Rightarrow> Inl (CErrNilRef n) | Some t \<Rightarrow> Inr (LRef t))"
| "link_node env (And cs) = bindE (link_nodes env cs) (\<lambda>ts. Inr (LAnd ts))"
| "link_node env (Or cs) = bindE (link_nodes env cs) (\<lambda>ts. Inr (LOr ts))"
| "link_node env Empty = Inr LEmpty"
| "link_nodes env [] = Inr []"
| "link_nodes env (c # cs) =
     bindE (link_node env c) (\<lambda>t. bindE (link_nodes env cs) (\<lambda>ts. Inr (t # ts)))"

definition link_root ::
  "(string \<rightharpoonup> node) \<Rightarrow> string \<Rightarrow> (string \<times> lnode) list \<Rightarrow> compile_error + (string \<times> lnode) list" where
  "link_root roots name env =
     (case roots name of
        None \<Rightarrow> Inl (CErrNilRef name)
      | Some root \<Rightarrow> bindE (link_node (map_of env) root) (\<lambda>t. Inr (AList.update name t env)))"

fun lnode_models :: "lnode \<Rightarrow> string list" where
  "lnode_models (LLeaf m) = [m]"
| "lnode_models (LRef t) = lnode_models t"
| "lnode_models LEmpty = []"
| "lnode_models (LAnd cs) = concat (map lnode_models cs)"
| "lnode_models (LOr cs) = concat (map lnode_models cs)"

definition support_mask :: "(string \<times> nat) list \<Rightarrow> nat \<Rightarrow> string list \<Rightarrow> mask" where
  "support_mask bits words models =
     foldl (\<lambda>mask m. case map_of bits m of Some b \<Rightarrow> mask_set b mask | None \<Rightarrow> mask)
       (mask_empty words) models"

definition compute_support :: "(string \<times> string \<times> lnode) list \<Rightarrow> string list \<Rightarrow> string \<Rightarrow> program" where
  "compute_support sets orphans mode =
     (let bits = assign_bits (concat (map (\<lambda>(n, d, t). lnode_models t) sets));
          words = mask_words (length bits)
      in \<lparr>pr_sets = map (\<lambda>(n, d, t). \<lparr>cs_name = n, cs_dsl = d, cs_root = t,
                           cs_support = support_mask bits words (lnode_models t)\<rparr>) sets,
          pr_bits = bits, pr_words = words, pr_orphans = orphans, pr_mode = mode\<rparr>)"

definition compile :: "set_def list \<Rightarrow> resolver \<Rightarrow> string list \<Rightarrow> compile_error + program" where
  "compile defs resolve all_models =
     (if defs = [] then Inl CErrNoSets
      else
        (let names = map sd_name defs in
         bindE (foldE (compile_def names resolve) defs
                  \<lparr>co_roots = [], co_dsl = [], co_deps = [], co_seen = [], co_orphans = False\<rparr>) (\<lambda>st0.
           (let (st, orphans, mode) = synthesize_orphans names all_models st0 in
            bindE (topological_order defs (co_deps st)) (\<lambda>order.
            bindE (if co_orphans st then foldE simplify_root order (co_roots st) else Inr (co_roots st)) (\<lambda>roots.
            bindE (foldE (link_root (map_of roots)) order []) (\<lambda>env.
              Inr (compute_support
                (map (\<lambda>n. (n, (case map_of (co_dsl st) n of None \<Rightarrow> '''' | Some d \<Rightarrow> d),
                           (case map_of env n of None \<Rightarrow> LEmpty | Some t \<Rightarrow> t)))
                   (filter (\<lambda>n. \<not> (n = orphan_set_name \<and> (mode = ''synthesized'' \<or> mode = ''empty''))) order))
                orphans mode))))))))"

definition synthesized_orphans :: "program \<Rightarrow> string list \<times> string" where
  "synthesized_orphans p = (pr_orphans p, pr_mode p)"

section \<open>The order: topological, or a reference cycle\<close>

definition edges :: "(string \<times> string list) list \<Rightarrow> (string \<times> string) set" where
  "edges deps = {(a, b). b \<in> set (deps_of deps a)}"

definition topo_sorted :: "(string \<times> string list) list \<Rightarrow> string list \<Rightarrow> bool" where
  "topo_sorted deps order \<longleftrightarrow>
     (\<forall>pre n post. order = pre @ n # post \<longrightarrow> set (deps_of deps n) \<subseteq> set pre)"

definition topo_inv :: "(string \<times> string list) list \<Rightarrow> topo \<Rightarrow> bool" where
  "topo_inv deps st \<longleftrightarrow>
     distinct (to_order st) \<and> set (to_order st) = {n. to_state st n = 2} \<and>
     topo_sorted deps (to_order st) \<and> (\<forall>n. to_state st n \<le> 2)"

lemma topo_state_cases:
  assumes "topo_inv deps st"
  obtains "to_state st n = 0" | "to_state st n = 1" | "to_state st n = 2"
proof -
  have "to_state st n \<le> 2" using assms by (simp add: topo_inv_def)
  then consider "to_state st n = 0" | "to_state st n = 1" | "to_state st n = 2" by linarith
  then show ?thesis by cases (use that in auto)
qed

text \<open>What a successful visit does: it appends to the order and leaves the open nodes open.\<close>

definition grows :: "(string \<times> string list) list \<Rightarrow> topo \<Rightarrow> topo \<Rightarrow> bool" where
  "grows deps st st' \<longleftrightarrow> topo_inv deps st' \<and> (\<exists>new. to_order st' = to_order st @ new) \<and>
     (\<forall>n. to_state st' n = 1 \<longleftrightarrow> to_state st n = 1)"

lemma topo_sorted_Nil [simp]: "topo_sorted deps []"
  by (simp add: topo_sorted_def)

lemma topo_sorted_snoc:
  "topo_sorted deps (xs @ [x]) \<longleftrightarrow> topo_sorted deps xs \<and> set (deps_of deps x) \<subseteq> set xs"
proof
  assume a: "topo_sorted deps (xs @ [x])"
  have "set (deps_of deps n) \<subseteq> set pre" if "xs = pre @ n # post" for pre n post
  proof -
    have "xs @ [x] = pre @ n # (post @ [x])" using that by simp
    with a show ?thesis unfolding topo_sorted_def by blast
  qed
  moreover have "set (deps_of deps x) \<subseteq> set xs" using a unfolding topo_sorted_def by blast
  ultimately show "topo_sorted deps xs \<and> set (deps_of deps x) \<subseteq> set xs"
    unfolding topo_sorted_def by blast
next
  assume b: "topo_sorted deps xs \<and> set (deps_of deps x) \<subseteq> set xs"
  have "set (deps_of deps n) \<subseteq> set pre" if "xs @ [x] = pre @ n # post" for pre n post
    using that b by (cases post rule: rev_cases) (auto simp: topo_sorted_def)
  then show "topo_sorted deps (xs @ [x])" unfolding topo_sorted_def by blast
qed

lemma grows_refl: "topo_inv deps st \<Longrightarrow> grows deps st st"
  by (auto simp: grows_def)

lemma grows_trans: "grows deps a b \<Longrightarrow> grows deps b c \<Longrightarrow> grows deps a c"
  by (auto simp: grows_def)

lemma grows_order: "grows deps st st' \<Longrightarrow> set (to_order st) \<subseteq> set (to_order st')"
  by (auto simp: grows_def)

lemma foldE_visits:
  assumes step: "\<And>d s s'. d \<in> set ds \<Longrightarrow> topo_inv deps s \<Longrightarrow> v d s = Inr s' \<Longrightarrow>
      grows deps s s' \<and> d \<in> set (to_order s')"
    and "topo_inv deps st" and "foldE v ds st = Inr st'"
  shows "grows deps st st' \<and> set ds \<subseteq> set (to_order st')"
  using assms
proof (induction ds arbitrary: st)
  case Nil
  then show ?case by (simp add: grows_refl)
next
  case (Cons d ds)
  from Cons.prems(3) obtain s1 where s1: "v d st = Inr s1" "foldE v ds s1 = Inr st'"
    by (auto simp: bindE_simps)
  have g1: "grows deps st s1" "d \<in> set (to_order s1)" using Cons.prems(1,2) s1(1) by auto
  then have "topo_inv deps s1" by (simp add: grows_def)
  from Cons.IH [OF _ this s1(2)] Cons.prems(1)
  have g2: "grows deps s1 st'" "set ds \<subseteq> set (to_order st')" by auto
  have "grows deps st st'" using g1(1) g2(1) by (rule grows_trans)
  moreover have "d \<in> set (to_order st')" using g1(2) grows_order [OF g2(1)] by blast
  ultimately show ?case using g2(2) by simp
qed

lemma topo_inv_mark:
  "topo_inv deps st \<Longrightarrow> to_state st n = 0 \<Longrightarrow> topo_inv deps (st\<lparr>to_state := (to_state st)(n := 1)\<rparr>)"
  by (auto simp: topo_inv_def)

lemma visit_ok:
  "visit f deps n st = Inr st' \<Longrightarrow> topo_inv deps st \<Longrightarrow> grows deps st st' \<and> n \<in> set (to_order st')"
proof (induction f arbitrary: n st st')
  case (Suc f)
  from Suc.prems(2) show ?case
  proof (cases rule: topo_state_cases [where n = n])
    case 3
    with Suc.prems show ?thesis by (auto simp: grows_refl topo_inv_def)
  next
    case 1
    note 3 = 1
    let ?st1 = "st\<lparr>to_state := (to_state st)(n := 1)\<rparr>"
    from Suc.prems 3 obtain s2 where s2: "foldE (visit f deps) (deps_of deps n) ?st1 = Inr s2"
      and st': "st' = s2\<lparr>to_state := (to_state s2)(n := 2), to_order := to_order s2 @ [n]\<rparr>"
      by (auto simp: bindE_simps)
    have g: "grows deps ?st1 s2" "set (deps_of deps n) \<subseteq> set (to_order s2)"
      using foldE_visits [OF _ topo_inv_mark [OF Suc.prems(2) 3] s2] Suc.IH by auto
    have n1: "to_state s2 n = 1" using g(1) by (simp add: grows_def)
    have "set (to_order s2) = {m. to_state s2 m = 2}"
      using g(1) unfolding grows_def topo_inv_def by blast
    with n1 have "n \<notin> set (to_order s2)" by simp
    with g have "topo_inv deps st'"
      unfolding st' by (auto simp: grows_def topo_inv_def topo_sorted_snoc)
    moreover have "to_state st' m = 1 \<longleftrightarrow> to_state st m = 1" for m
      using g(1) 3 unfolding st' grows_def by auto
    moreover have "\<exists>new. to_order st' = to_order st @ new"
      using g(1) unfolding st' grows_def by auto
    ultimately show ?thesis unfolding grows_def by (simp add: st')
  qed (use Suc.prems in simp)
qed simp

lemma visit_circular:
  "visit f deps n st = Inl (CErrCircular c) \<Longrightarrow> topo_inv deps st \<Longrightarrow>
   (\<forall>g. to_state st g = 1 \<longrightarrow> (g, n) \<in> (edges deps)\<^sup>+) \<Longrightarrow> (c, c) \<in> (edges deps)\<^sup>+"
proof (induction f arbitrary: n st)
  case (Suc f)
  show ?case
  proof (cases "to_state st n = 1 \<or> to_state st n = 2")
    case True
    with Suc.prems show ?thesis by auto
  next
    case False
    with Suc.prems(2) have 0: "to_state st n = 0"
      by (auto elim: topo_state_cases [where n = n])
    let ?st1 = "st\<lparr>to_state := (to_state st)(n := 1)\<rparr>"
    have err: "foldE (visit f deps) (deps_of deps n) ?st1 = Inl (CErrCircular c)"
      using Suc.prems(1) False by (auto simp: bindE_simps)
    have "(c, c) \<in> (edges deps)\<^sup>+"
      if "foldE (visit f deps) ds s = Inl (CErrCircular c)" "set ds \<subseteq> set (deps_of deps n)"
        "grows deps ?st1 s" for ds s
      using that
    proof (induction ds arbitrary: s)
      case (Cons d ds)
      have inv: "topo_inv deps s" using Cons.prems(3) by (simp add: grows_def)
      have nd: "(n, d) \<in> edges deps" using Cons.prems(2) by (auto simp: edges_def)
      have gr: "(g, d) \<in> (edges deps)\<^sup>+" if "to_state s g = 1" for g
      proof (cases "g = n")
        case True
        with nd show ?thesis by blast
      next
        case f: False
        with that Cons.prems(3) have "to_state st g = 1" by (simp add: grows_def)
        with Suc.prems(3) nd show ?thesis by (meson trancl.trancl_into_trancl)
      qed
      show ?case
      proof (cases "visit f deps d s")
        case (Inl e)
        with Cons.prems(1) have "visit f deps d s = Inl (CErrCircular c)" by simp
        with Suc.IH inv gr show ?thesis by blast
      next
        case (Inr s1)
        with visit_ok inv have "grows deps s s1" by blast
        with Cons.prems(3) have "grows deps ?st1 s1" by (rule grows_trans)
        show ?thesis
          by (rule Cons.IH [OF _ _ \<open>grows deps ?st1 s1\<close>]) (use Cons.prems(1,2) Inr in auto)
      qed
    qed simp
    with err grows_refl [OF topo_inv_mark [OF Suc.prems(2) 0]] show ?thesis by blast
  qed
qed simp

definition white :: "(string \<times> string list) list \<Rightarrow> topo \<Rightarrow> string set" where
  "white deps st = {n \<in> fst ` set deps. to_state st n = 0}"

lemma finite_white [simp]: "finite (white deps st)"
  by (simp add: white_def)

lemma grows_white: "topo_inv deps st \<Longrightarrow> grows deps st st' \<Longrightarrow> white deps st' \<subseteq> white deps st"
proof
  fix m assume a: "topo_inv deps st" "grows deps st st'" "m \<in> white deps st'"
  have m0: "to_state st' m = 0" "m \<in> fst ` set deps" using a(3) by (simp_all add: white_def)
  have o': "set (to_order st') = {m. to_state st' m = 2}"
    using a(2) unfolding grows_def topo_inv_def by blast
  have o: "set (to_order st) = {m. to_state st m = 2}" using a(1) unfolding topo_inv_def by blast
  have "m \<notin> set (to_order st)" using grows_order [OF a(2)] o' m0(1) by auto
  then have "to_state st m \<noteq> 2" using o by simp
  moreover have "to_state st' m = 1 \<longleftrightarrow> to_state st m = 1" using a(2) unfolding grows_def by blast
  then have "to_state st m \<noteq> 1" using m0(1) by simp
  ultimately have "to_state st m = 0" using topo_state_cases [OF a(1), of m] by metis
  with m0(2) show "m \<in> white deps st" by (simp add: white_def)
qed

lemma visit_fuel_enough:
  assumes closed: "\<forall>n. set (deps_of deps n) \<subseteq> fst ` set deps"
  shows "card (white deps st) < f \<Longrightarrow> n \<in> fst ` set deps \<Longrightarrow> topo_inv deps st \<Longrightarrow>
    visit f deps n st \<noteq> Inl CErrFuel"
proof (induction f arbitrary: n st)
  case (Suc f)
  show ?case
  proof (cases "to_state st n = 0")
    case 0: True
    let ?st1 = "st\<lparr>to_state := (to_state st)(n := 1)\<rparr>"
    have "white deps ?st1 = white deps st - {n}" "n \<in> white deps st"
      using 0 Suc.prems(2) by (auto simp: white_def)
    then have c: "card (white deps ?st1) < f"
      using Suc.prems(1) card_Diff1_less [of "white deps st" n] by simp
    have "foldE (visit f deps) ds s \<noteq> Inl CErrFuel"
      if "set ds \<subseteq> set (deps_of deps n)" "card (white deps s) < f" "topo_inv deps s" for ds s
      using that
    proof (induction ds arbitrary: s)
      case (Cons d ds)
      have d: "visit f deps d s \<noteq> Inl CErrFuel"
        using Cons.prems closed by (intro Suc.IH) auto
      show ?case
      proof (cases "visit f deps d s")
        case (Inr s1)
        with visit_ok Cons.prems(3) have g: "grows deps s s1" by blast
        then have "card (white deps s1) < f"
          using grows_white [OF Cons.prems(3) g] Cons.prems(2)
          by (meson card_mono finite_white le_less_trans)
        with Inr g Cons show ?thesis by (auto simp: grows_def)
      qed (use d in auto)
    qed simp
    from this [OF subset_refl c topo_inv_mark [OF Suc.prems(3) 0]] 0 show ?thesis
      by (auto simp: bindE_simps)
  next
    case False
    with Suc.prems(3) show ?thesis by (auto elim: topo_state_cases [where n = n])
  qed
qed simp

definition deps_closed :: "(string \<times> string list) list \<Rightarrow> bool" where
  "deps_closed deps \<longleftrightarrow> (\<forall>n. set (deps_of deps n) \<subseteq> fst ` set deps)"

lemma visit_keys:
  assumes "deps_closed deps"
  shows "visit f deps n st = Inr st' \<Longrightarrow> n \<in> fst ` set deps \<Longrightarrow>
    set (to_order st) \<subseteq> fst ` set deps \<Longrightarrow> set (to_order st') \<subseteq> fst ` set deps"
proof (induction f arbitrary: n st st')
  case (Suc f)
  show ?case
  proof (cases "to_state st n = 1 \<or> to_state st n = 2")
    case True
    with Suc.prems show ?thesis by (auto split: if_splits)
  next
    case False
    with Suc.prems obtain s2 where
      s2: "foldE (visit f deps) (deps_of deps n) (st\<lparr>to_state := (to_state st)(n := 1)\<rparr>) = Inr s2"
      and st': "to_order st' = to_order s2 @ [n]" by (auto simp: bindE_simps)
    have "set (to_order s2) \<subseteq> fst ` set deps"
    proof (rule foldE_invariant [OF s2])
      fix d s s' assume d: "d \<in> set (deps_of deps n)" and s: "set (to_order s) \<subseteq> fst ` set deps"
        and v: "visit f deps d s = Inr s'"
      have "d \<in> fst ` set deps" using assms d unfolding deps_closed_def by blast
      from Suc.IH [OF v this s] show "set (to_order s') \<subseteq> fst ` set deps" .
    qed (use Suc.prems(3) in simp)
    with st' Suc.prems(2) show ?thesis by simp
  qed
qed simp

lemma visit_errors: "visit f deps n st = Inl e \<Longrightarrow> e = CErrFuel \<or> (\<exists>c. e = CErrCircular c)"
proof (induction f arbitrary: n st)
  case (Suc f)
  have fold: "foldE (visit f deps) ds s = Inl e \<Longrightarrow> e = CErrFuel \<or> (\<exists>c. e = CErrCircular c)" for ds s
    by (induction ds arbitrary: s) (auto simp: bindE_simps dest: Suc.IH)
  from Suc.prems show ?case by (auto simp: bindE_simps split: if_splits dest: fold)
qed simp

text \<open>The root calls of \<open>topologicalOrder\<close>.\<close>

definition visit_root :: "(string \<times> string list) list \<Rightarrow> set_def \<Rightarrow> topo \<Rightarrow> compile_error + topo" where
  "visit_root deps d st =
     (if to_state st (sd_name d) = 0 then visit (Suc (length deps)) deps (sd_name d) st else Inr st)"

lemma topological_order_alt:
  "topological_order defs deps =
     bindE (foldE (visit_root deps) defs \<lparr>to_state = (\<lambda>_. 0), to_order = []\<rparr>) (\<lambda>st. Inr (to_order st))"
  by (simp add: topological_order_def visit_root_def [abs_def])

lemma topo_inv_start: "topo_inv deps \<lparr>to_state = (\<lambda>_. 0), to_order = []\<rparr>"
  by (simp add: topo_inv_def)

lemma visit_root_ok:
  assumes "visit_root deps d s = Inr s'" and "topo_inv deps s" and "\<forall>n. to_state s n \<noteq> 1"
  shows "grows deps s s' \<and> sd_name d \<in> set (to_order s')"
proof (cases "to_state s (sd_name d) = 0")
  case True
  with assms(1) have "visit (Suc (length deps)) deps (sd_name d) s = Inr s'"
    by (simp add: visit_root_def del: visit.simps)
  from visit_ok [OF this assms(2)] show ?thesis .
next
  case False
  with assms have "to_state s (sd_name d) = 2" "s' = s"
    by (auto simp: visit_root_def elim: topo_state_cases [where n = "sd_name d"])
  with assms(2) show ?thesis by (auto simp: grows_refl topo_inv_def)
qed

lemma visit_roots_ok:
  "foldE (visit_root deps) ds s = Inr s' \<Longrightarrow> topo_inv deps s \<Longrightarrow> \<forall>n. to_state s n \<noteq> 1 \<Longrightarrow>
   grows deps s s' \<and> sd_name ` set ds \<subseteq> set (to_order s')"
proof (induction ds arbitrary: s)
  case Nil
  then show ?case by (simp add: grows_refl)
next
  case (Cons d ds)
  then obtain s1 where s1: "visit_root deps d s = Inr s1" "foldE (visit_root deps) ds s1 = Inr s'"
    by (auto simp: bindE_simps)
  from visit_root_ok [OF s1(1) Cons.prems(2,3)]
  have g1: "grows deps s s1" "sd_name d \<in> set (to_order s1)" by auto
  have "topo_inv deps s1" "\<forall>n. to_state s1 n \<noteq> 1"
    using g1(1) Cons.prems(3) unfolding grows_def by blast+
  from Cons.IH [OF s1(2) this] have g2: "grows deps s1 s'" "sd_name ` set ds \<subseteq> set (to_order s')" by auto
  have "grows deps s s'" using g1(1) g2(1) by (rule grows_trans)
  moreover have "sd_name d \<in> set (to_order s')" using g1(2) grows_order [OF g2(1)] by blast
  ultimately show ?case using g2(2) by simp
qed

lemma topological_order_ok:
  assumes "topological_order defs deps = Inr order"
  shows "distinct order" "topo_sorted deps order" "sd_name ` set defs \<subseteq> set order"
proof -
  obtain st where st: "foldE (visit_root deps) defs \<lparr>to_state = (\<lambda>_. 0), to_order = []\<rparr> = Inr st"
    "order = to_order st"
    using assms by (auto simp: topological_order_alt bindE_simps)
  from visit_roots_ok [OF st(1) topo_inv_start]
  have "topo_inv deps st" "sd_name ` set defs \<subseteq> set (to_order st)" by (auto simp: grows_def)
  then show "distinct order" "topo_sorted deps order" "sd_name ` set defs \<subseteq> set order"
    unfolding st(2) by (auto simp: topo_inv_def)
qed

lemma topological_order_keys:
  assumes "topological_order defs deps = Inr order" and "deps_closed deps"
    and "sd_name ` set defs \<subseteq> fst ` set deps"
  shows "set order \<subseteq> fst ` set deps"
proof -
  obtain st where st: "foldE (visit_root deps) defs \<lparr>to_state = (\<lambda>_. 0), to_order = []\<rparr> = Inr st"
    "order = to_order st"
    using assms by (auto simp: topological_order_alt bindE_simps)
  have "set (to_order st) \<subseteq> fst ` set deps"
  proof (rule foldE_invariant [OF st(1)])
    fix d s s' assume "d \<in> set defs" "set (to_order s) \<subseteq> fst ` set deps" "visit_root deps d s = Inr s'"
    with visit_keys [OF assms(2), of "Suc (length deps)" "sd_name d" s s'] assms(3)
    show "set (to_order s') \<subseteq> fst ` set deps"
      by (auto simp: visit_root_def split: if_splits)
  qed simp
  with st(2) show ?thesis by simp
qed

lemma visit_root_error:
  assumes "visit_root deps d s = Inl e" and "topo_inv deps s" and "\<forall>n. to_state s n \<noteq> 1"
    and "deps_closed deps" and "sd_name d \<in> fst ` set deps"
  shows "\<exists>c. e = CErrCircular c \<and> (c, c) \<in> (edges deps)\<^sup>+"
proof -
  have v: "visit (Suc (length deps)) deps (sd_name d) s = Inl e"
    using assms(1) by (simp add: visit_root_def split: if_splits)
  have "card (white deps s) \<le> length deps"
    by (rule order_trans [OF card_mono [of "fst ` set deps"]]) 
      (auto simp: white_def intro: order_trans [OF card_image_le card_length])
  then have "e \<noteq> CErrFuel"
    using visit_fuel_enough [of deps s "Suc (length deps)" "sd_name d"] assms(2,4,5) v
    by (auto simp: deps_closed_def)
  then obtain c where "e = CErrCircular c" using visit_errors [OF v] by blast
  with visit_circular [of _ deps "sd_name d" s c] v assms(2,3) show ?thesis by metis
qed

lemma topological_order_error:
  assumes "topological_order defs deps = Inl e" and "deps_closed deps"
    and "sd_name ` set defs \<subseteq> fst ` set deps"
  shows "\<exists>c. e = CErrCircular c \<and> (c, c) \<in> (edges deps)\<^sup>+"
proof -
  have "foldE (visit_root deps) ds s = Inl e \<Longrightarrow> topo_inv deps s \<Longrightarrow> \<forall>n. to_state s n \<noteq> 1 \<Longrightarrow>
      sd_name ` set ds \<subseteq> fst ` set deps \<Longrightarrow> \<exists>c. e = CErrCircular c \<and> (c, c) \<in> (edges deps)\<^sup>+" for ds s
  proof (induction ds arbitrary: s)
    case (Cons d ds)
    show ?case
    proof (cases "visit_root deps d s")
      case (Inl e')
      with visit_root_error [OF Inl] Cons.prems assms(2) show ?thesis by auto
    next
      case (Inr s1)
      from visit_root_ok [OF Inr Cons.prems(2,3)] have g: "grows deps s s1" by blast
      then have "topo_inv deps s1" "\<forall>n. to_state s1 n \<noteq> 1"
        using Cons.prems(3) unfolding grows_def by blast+
      from Cons.IH [OF _ this] Inr Cons.prems(1,4) show ?thesis by simp
    qed
  qed simp
  from this [of defs "\<lparr>to_state = (\<lambda>_. 0), to_order = []\<rparr>"] assms topo_inv_start
  show ?thesis by (auto simp: topological_order_alt bindE_simps)
qed

lemma topo_sorted_acyclic:
  assumes "topo_sorted deps order" and "(a, b) \<in> (edges deps)\<^sup>+" and "a \<in> set order"
  shows "b \<in> set order \<and> length (takeWhile (\<lambda>x. x \<noteq> b) order) < length (takeWhile (\<lambda>x. x \<noteq> a) order)"
proof -
  have edge: "y \<in> set order \<and> length (takeWhile (\<lambda>z. z \<noteq> y) order) < length (takeWhile (\<lambda>z. z \<noteq> x) order)"
    if x: "x \<in> set order" and xy: "(x, y) \<in> edges deps" for x y
  proof -
    obtain pre post where o: "order = pre @ x # post" "x \<notin> set pre"
      using split_list_first [OF x] by blast
    have y: "y \<in> set pre" using assms(1) o(1) xy unfolding topo_sorted_def edges_def by blast
    then obtain p1 p2 where p: "pre = p1 @ y # p2" "y \<notin> set p1" using split_list_first by fast
    have "takeWhile (\<lambda>z. z \<noteq> x) order = pre" using o by (auto simp: takeWhile_tail)
    moreover have "takeWhile (\<lambda>z. z \<noteq> y) order = p1" using o p by (auto simp: takeWhile_tail)
    ultimately show ?thesis using o y p by simp
  qed
  from assms(2,3) show ?thesis
  proof (induction rule: trancl_induct)
    case (base b)
    then show ?case using edge by blast
  next
    case (step b c)
    have "b \<in> set order" using step by blast
    from edge [OF this step(2)] step.IH [OF step.prems] show ?case by simp
  qed
qed


end
