(* ===== verification/MatrixSem.thy ===== *)
theory MatrixSem
  imports MatrixCompile
begin

text \<open>
  What a compiled matrix program means. \<open>sem D\<close> reads an expression as its set of
  combinations, given the combinations of the sets it refers to; the passes of
  \<open>Compile\<close> (resolve, synthesize orphans, order, drop empty references, link) preserve
  it. The properties of the compiler: it accepts exactly the well-formed acyclic
  definitions, fails only with a user-facing error, and its linked trees have the combinations of
  the definitions' text.
\<close>

section \<open>Folding over sets in reference order\<close>

text \<open>
  A pass over the order that stores one result per set, computed from the results of the sets
  it refers to, leaves every set with the result computed from the final table: later steps do
  not touch what an earlier one read.
\<close>

lemma topo_fold:
  assumes "foldE f order s0 = Inr s" and "distinct order" and "topo_sorted deps order"
    and step: "\<And>n s s'. n \<in> set order \<Longrightarrow> map_of s n = map_of s0 n \<Longrightarrow> f n s = Inr s' \<Longrightarrow>
      \<exists>v. s' = AList.update n v s \<and> F n (map_of s) v"
    and local: "\<And>n m m' v. n \<in> set order \<Longrightarrow> \<forall>d\<in>set (deps_of deps n). m d = m' d \<Longrightarrow> F n m v \<Longrightarrow> F n m' v"
  shows "(\<forall>n\<in>set order. \<exists>v. map_of s n = Some v \<and> F n (map_of s) v) \<and>
    (\<forall>n. n \<notin> set order \<longrightarrow> map_of s n = map_of s0 n)"
  using assms
proof (induction order arbitrary: s rule: rev_induct)
  case (snoc x xs)
  from snoc.prems(1) obtain s1 where s1: "foldE f xs s0 = Inr s1" "f x s1 = Inr s"
    by (auto simp: foldE_append bindE_simps)
  have x: "x \<notin> set xs" "distinct xs" using snoc.prems(2) by auto
  have ts: "topo_sorted deps xs" "set (deps_of deps x) \<subseteq> set xs"
    using snoc.prems(3) by (simp_all add: topo_sorted_snoc)
  have IH: "(\<forall>n\<in>set xs. \<exists>v. map_of s1 n = Some v \<and> F n (map_of s1) v) \<and>
      (\<forall>n. n \<notin> set xs \<longrightarrow> map_of s1 n = map_of s0 n)"
  proof (rule snoc.IH [OF s1(1) x(2) ts(1)])
    show "\<exists>v. s' = AList.update n v s \<and> F n (map_of s) v"
      if "n \<in> set xs" "map_of s n = map_of s0 n" "f n s = Inr s'" for n s s'
      using snoc.prems(4) [of n s s'] that by simp
    show "F n m' v" if "n \<in> set xs" "\<forall>d\<in>set (deps_of deps n). m d = m' d" "F n m v" for n m m' v
      using snoc.prems(5) [of n m m' v] that by simp
  qed
  then have "map_of s1 x = map_of s0 x" using x(1) by blast
  with snoc.prems(4) [of x s1 s] s1(2)
  obtain v where v: "s = AList.update x v s1" "F x (map_of s1) v" by auto
  have keep: "F n (map_of s) w" if "n \<in> set (xs @ [x])" "x \<notin> set (deps_of deps n)" "F n (map_of s1) w" for n w
  proof (rule snoc.prems(5) [OF that(1) _ that(3)])
    show "\<forall>d\<in>set (deps_of deps n). map_of s1 d = map_of s d" using that(2) v(1) by auto
  qed
  have nodep: "x \<notin> set (deps_of deps n)" if "n \<in> set (xs @ [x])" for n
  proof (cases "n = x")
    case True
    with ts(2) x(1) show ?thesis by auto
  next
    case False
    with that have "n \<in> set xs" by simp
    then obtain pre post where "xs = pre @ n # post" by (meson split_list)
    with ts(1) have "set (deps_of deps n) \<subseteq> set xs" unfolding topo_sorted_def by fastforce
    with x(1) show ?thesis by blast
  qed
  show ?case
  proof (intro conjI ballI allI impI)
    fix n assume n: "n \<in> set (xs @ [x])"
    show "\<exists>v. map_of s n = Some v \<and> F n (map_of s) v"
    proof (cases "n = x")
      case True
      with keep [OF n nodep [OF n]] v show ?thesis by simp
    next
      case False
      with n IH obtain w where "map_of s1 n = Some w" "F n (map_of s1) w" by auto
      with keep [OF n nodep [OF n]] v(1) False show ?thesis by simp
    qed
  next
    fix n assume "n \<notin> set (xs @ [x])"
    with IH v(1) show "map_of s n = map_of s0 n" by simp
  qed
qed simp

lemma topo_fold_total:
  assumes "\<And>pre n post s. order = pre @ n # post \<Longrightarrow> \<forall>k\<in>set pre. map_of s k \<noteq> None \<Longrightarrow>
      \<forall>k. map_of s0 k \<noteq> None \<longrightarrow> map_of s k \<noteq> None \<Longrightarrow> \<exists>v. f n s = Inr (AList.update n v s)"
  shows "\<exists>s. foldE f order s0 = Inr s"
proof -
  have "\<exists>s. foldE f pre s0 = Inr s \<and> (\<forall>k\<in>set pre. map_of s k \<noteq> None) \<and>
      (\<forall>k. map_of s0 k \<noteq> None \<longrightarrow> map_of s k \<noteq> None)" if "order = pre @ post" for pre post
    using that
  proof (induction pre arbitrary: post rule: rev_induct)
    case (snoc x xs)
    from snoc.IH [of "x # post"] snoc.prems obtain s where
      s: "foldE f xs s0 = Inr s" "\<forall>k\<in>set xs. map_of s k \<noteq> None"
      "\<forall>k. map_of s0 k \<noteq> None \<longrightarrow> map_of s k \<noteq> None" by auto
    with assms [of xs x post s] snoc.prems obtain v where "f x s = Inr (AList.update x v s)" by auto
    with s show ?case by (auto simp: foldE_append)
  qed simp
  from this [of order "[]"] show ?thesis by auto
qed

section \<open>The meaning of a definition\<close>

text \<open>
  \<open>sem D\<close> gives an expression its set of combinations when \<open>D\<close> gives the referenced sets
  theirs. A set may be empty (\<open>None\<close>): a reference to it is dropped from the operands it
  stands among, and an expression with no operand left is empty itself.
\<close>

fun sem :: "(string \<Rightarrow> string set set option) \<Rightarrow> node \<Rightarrow> string set set option" where
  "sem D (Leaf m) = Some {{m}}"
| "sem D (Ref n) = D n"
| "sem D Empty = None"
| "sem D (And cs) = (let As = List.map_filter id (map (sem D) cs) in
     if As = [] then None else Some (product_sets As))"
| "sem D (Or cs) = (let As = List.map_filter id (map (sem D) cs) in
     if As = [] then None else Some (\<Union>(set As)))"

fun node_refs :: "node \<Rightarrow> string list" where
  "node_refs (Leaf m) = []"
| "node_refs (Ref n) = [n]"
| "node_refs Empty = []"
| "node_refs (And cs) = concat (map node_refs cs)"
| "node_refs (Or cs) = concat (map node_refs cs)"

fun node_leaves :: "node \<Rightarrow> string list" where
  "node_leaves (Leaf m) = [m]"
| "node_leaves (Ref n) = []"
| "node_leaves Empty = []"
| "node_leaves (And cs) = concat (map node_leaves cs)"
| "node_leaves (Or cs) = concat (map node_leaves cs)"

text \<open>No empty operand inside: what the parser builds and what simplification leaves.\<close>

fun full :: "node \<Rightarrow> bool" where
  "full (Leaf m) = True"
| "full (Ref n) = True"
| "full Empty = False"
| "full (And cs) = (cs \<noteq> [] \<and> list_all full cs)"
| "full (Or cs) = (cs \<noteq> [] \<and> list_all full cs)"

lemma map_filter_id: "List.map_filter id (map f xs) = map the (filter (\<lambda>y. y \<noteq> None) (map f xs))"
  by (induction xs) (auto simp: List.map_filter_simps split: option.splits)

lemma product_sets_single [simp]: "product_sets [A] = A"
  by auto

lemma sem_simplify:
  assumes "\<And>r. r \<in> set (node_refs n) \<Longrightarrow> roots r = Some Empty \<longleftrightarrow> D r = None"
  shows "sem D (simplify_empty_refs roots n) = sem D n \<and>
    (simplify_empty_refs roots n = Empty \<longleftrightarrow> sem D n = None) \<and>
    (simplify_empty_refs roots n = Empty \<or> full (simplify_empty_refs roots n))"
  using assms
proof (induction n)
  case (And cs)
  let ?s = "simplify_empty_refs roots"
  let ?kept = "filter (\<lambda>c. c \<noteq> Empty) (map ?s cs)"
  have c: "sem D (?s c) = sem D c" "?s c = Empty \<longleftrightarrow> sem D c = None" "?s c = Empty \<or> full (?s c)"
    if "c \<in> set cs" for c using And that by auto
  have e: "map (sem D) ?kept = filter (\<lambda>y. y \<noteq> None) (map (sem D) cs)"
    using c by (induction cs) auto
  have f: "\<And>k. k \<in> set ?kept \<Longrightarrow> full k \<and> sem D k \<noteq> None" using c by fastforce
  then have ff: "filter (\<lambda>y. y \<noteq> None) (map (sem D) ?kept) = map (sem D) ?kept"
    by (intro filter_True) auto
  show ?case
  proof (cases ?kept)
    case Nil
    with e have "filter (\<lambda>y. y \<noteq> None) (map (sem D) cs) = []" by simp
    with Nil show ?thesis by (simp add: map_filter_id)
  next
    case (Cons k ks)
    have s: "sem D (And cs) = Some (product_sets (map (\<lambda>c. the (sem D c)) (k # ks)))"
      using Cons unfolding sem.simps map_filter_id e [symmetric] by (simp add: comp_def)
    have fk: "full k" "sem D k \<noteq> None" "list_all full ks" using f Cons by (auto simp: list_all_iff)
    show ?thesis
    proof (cases ks)
      case Nil
      with s Cons fk show ?thesis by (auto simp del: product_sets.simps)
    next
      case (Cons k2 ks2)
      have r: "?s (And cs) = And (k # ks)" using \<open>?kept = k # ks\<close> Cons by simp
      have "sem D (And (k # ks)) = Some (product_sets (map (\<lambda>c. the (sem D c)) (k # ks)))"
        using ff unfolding \<open>?kept = k # ks\<close> sem.simps map_filter_id by (simp add: comp_def)
      with r s fk show ?thesis by simp
    qed
  qed
next
  case (Or cs)
  let ?s = "simplify_empty_refs roots"
  let ?kept = "filter (\<lambda>c. c \<noteq> Empty) (map ?s cs)"
  have c: "sem D (?s c) = sem D c" "?s c = Empty \<longleftrightarrow> sem D c = None" "?s c = Empty \<or> full (?s c)"
    if "c \<in> set cs" for c using Or that by auto
  have e: "map (sem D) ?kept = filter (\<lambda>y. y \<noteq> None) (map (sem D) cs)"
    using c by (induction cs) auto
  have f: "\<And>k. k \<in> set ?kept \<Longrightarrow> full k \<and> sem D k \<noteq> None" using c by fastforce
  then have ff: "filter (\<lambda>y. y \<noteq> None) (map (sem D) ?kept) = map (sem D) ?kept"
    by (intro filter_True) auto
  show ?case
  proof (cases ?kept)
    case Nil
    with e have "filter (\<lambda>y. y \<noteq> None) (map (sem D) cs) = []" by simp
    with Nil show ?thesis by (simp add: map_filter_id)
  next
    case (Cons k ks)
    have s: "sem D (Or cs) = Some (\<Union>(set (map (\<lambda>c. the (sem D c)) (k # ks))))"
      using Cons unfolding sem.simps map_filter_id e [symmetric] by (simp add: comp_def)
    have fk: "full k" "sem D k \<noteq> None" "list_all full ks" using f Cons by (auto simp: list_all_iff)
    show ?thesis
    proof (cases ks)
      case Nil
      with s Cons fk show ?thesis by auto
    next
      case (Cons k2 ks2)
      have r: "?s (Or cs) = Or (k # ks)" using \<open>?kept = k # ks\<close> Cons by simp
      have "sem D (Or (k # ks)) = Some (\<Union>(set (map (\<lambda>c. the (sem D c)) (k # ks))))"
        using ff unfolding \<open>?kept = k # ks\<close> sem.simps map_filter_id by (simp add: comp_def)
      with r s fk show ?thesis by simp
    qed
  qed
qed auto


lemma link_node_sem:
  "link_node env n = Inr t \<Longrightarrow> full n \<Longrightarrow>
     (\<And>r t'. r \<in> set (node_refs n) \<Longrightarrow> env r = Some t' \<Longrightarrow> D r = Some (combos t')) \<Longrightarrow>
     sem D n = Some (combos t) \<and> t \<noteq> LEmpty"
  "link_nodes env ns = Inr ts \<Longrightarrow> list_all full ns \<Longrightarrow>
     (\<And>r t'. r \<in> set (concat (map node_refs ns)) \<Longrightarrow> env r = Some t' \<Longrightarrow> D r = Some (combos t')) \<Longrightarrow>
     map (sem D) ns = map (\<lambda>t. Some (combos t)) ts"
proof (induction env n and env ns arbitrary: t and ts rule: link_node_link_nodes.induct)
  case (2 env n)
  then show ?case by (auto split: option.splits)
next
  case (3 env cs)
  then obtain ts where ts: "link_nodes env cs = Inr ts" "t = LAnd ts" by (auto simp: bindE_simps)
  with 3 have m: "map (sem D) cs = map (\<lambda>t. Some (combos t)) ts" by auto
  moreover have "ts \<noteq> []" using m "3.prems"(2) by auto
  ultimately show ?case using ts(2) by (simp add: map_filter_id comp_def)
next
  case (4 env cs)
  then obtain ts where ts: "link_nodes env cs = Inr ts" "t = LOr ts" by (auto simp: bindE_simps)
  with 4 have m: "map (sem D) cs = map (\<lambda>t. Some (combos t)) ts" by auto
  moreover have "ts \<noteq> []" using m "4.prems"(2) by auto
  ultimately show ?case using ts(2) by (simp add: map_filter_id comp_def)
next
  case (7 env c cs)
  then show ?case by (auto simp: bindE_simps)
qed auto

lemma link_node_total:
  "(\<And>r. r \<in> set (node_refs n) \<Longrightarrow> env r \<noteq> None) \<Longrightarrow> \<exists>t. link_node env n = Inr t"
  "(\<And>r. r \<in> set (concat (map node_refs ns)) \<Longrightarrow> env r \<noteq> None) \<Longrightarrow> \<exists>ts. link_nodes env ns = Inr ts"
proof (induction env n and env ns rule: link_node_link_nodes.induct)
  case (7 env c cs)
  then obtain t ts where "link_node env c = Inr t" "link_nodes env cs = Inr ts" by auto
  then show ?case by simp
qed (auto split: option.splits)

lemma link_node_cong:
  "(\<And>r. r \<in> set (node_refs n) \<Longrightarrow> env r = env' r) \<Longrightarrow> link_node env n = link_node env' n"
  "(\<And>r. r \<in> set (concat (map node_refs ns)) \<Longrightarrow> env r = env' r) \<Longrightarrow> link_nodes env ns = link_nodes env' ns"
proof (induction env n and env ns rule: link_node_link_nodes.induct)
  case (7 env c cs)
  then have "link_node env c = link_node env' c" by auto
  with 7 show ?case by (cases "link_node env' c") auto
qed (auto split: option.splits)

lemma simplify_cong:
  "(\<And>r. r \<in> set (node_refs n) \<Longrightarrow> roots r = roots' r) \<Longrightarrow>
   simplify_empty_refs roots n = simplify_empty_refs roots' n"
proof (induction n)
  case (And cs)
  then have "map (simplify_empty_refs roots) cs = map (simplify_empty_refs roots') cs" by auto
  then show ?case by (simp only: simplify_empty_refs.simps)
next
  case (Or cs)
  then have "map (simplify_empty_refs roots) cs = map (simplify_empty_refs roots') cs" by auto
  then show ?case by (simp only: simplify_empty_refs.simps)
qed auto

lemma simplify_refs: "set (node_refs (simplify_empty_refs roots n)) \<subseteq> set (node_refs n)"
proof (induction n)
  case (And cs)
  let ?kept = "filter (\<lambda>c. c \<noteq> Empty) (map (simplify_empty_refs roots) cs)"
  have "set (node_refs k) \<subseteq> set (node_refs (And cs))" if "k \<in> set ?kept" for k
    using And that by fastforce
  then show ?case by (cases ?kept; cases "tl ?kept") auto
next
  case (Or cs)
  let ?kept = "filter (\<lambda>c. c \<noteq> Empty) (map (simplify_empty_refs roots) cs)"
  have "set (node_refs k) \<subseteq> set (node_refs (Or cs))" if "k \<in> set ?kept" for k
    using Or that by fastforce
  then show ?case by (cases ?kept; cases "tl ?kept") auto
qed auto

lemma simplify_full: "simplify_empty_refs roots n = Empty \<or> full (simplify_empty_refs roots n)"
  by (rule sem_simplify [of n roots "\<lambda>r. if roots r = Some Empty then None else Some {}",
        THEN conjunct2, THEN conjunct2]) auto

section \<open>The first pass\<close>

fun map_leaves :: "(string \<Rightarrow> string) \<Rightarrow> node \<Rightarrow> node" where
  "map_leaves f (Leaf x) = Leaf (f x)"
| "map_leaves f (Ref n) = Ref n"
| "map_leaves f Empty = Empty"
| "map_leaves f (And cs) = And (map (map_leaves f) cs)"
| "map_leaves f (Or cs) = Or (map (map_leaves f) cs)"

lemma set_set_insert [simp]: "set (set_insert x xs) = insert x (set xs)"
  by (auto simp: set_insert_def)

lemma resolve_node_ok:
  "resolve_node d names resolve n w = Inr (n', w') \<Longrightarrow>
     n' = map_leaves (\<lambda>x. the (resolve x)) n \<and> (\<forall>x\<in>set (node_leaves n). resolve x \<noteq> None) \<and>
     set (ws_refs w') = set (ws_refs w) \<union> set (node_refs n) \<and>
     set (node_refs n) \<subseteq> insert orphan_set_name (set names) \<and>
     set (ws_seen w') = set (ws_seen w) \<union> set (node_leaves n') \<and>
     (ws_orphans w' \<longleftrightarrow> ws_orphans w \<or> orphan_set_name \<in> set (node_refs n))"
  "resolve_nodes d names resolve ns w = Inr (ns', w') \<Longrightarrow>
     ns' = map (map_leaves (\<lambda>x. the (resolve x))) ns \<and>
     (\<forall>x\<in>set (concat (map node_leaves ns)). resolve x \<noteq> None) \<and>
     set (ws_refs w') = set (ws_refs w) \<union> set (concat (map node_refs ns)) \<and>
     set (concat (map node_refs ns)) \<subseteq> insert orphan_set_name (set names) \<and>
     set (ws_seen w') = set (ws_seen w) \<union> set (concat (map node_leaves ns')) \<and>
     (ws_orphans w' \<longleftrightarrow> ws_orphans w \<or> orphan_set_name \<in> set (concat (map node_refs ns)))"
proof (induction d names resolve n w and d names resolve ns w
    arbitrary: n' w' and ns' w' rule: resolve_node_resolve_nodes.induct)
  case (3 d names resolve cs w)
  from "3.prems" obtain cs' where cs: "resolve_nodes d names resolve cs w = Inr (cs', w')" "n' = And cs'"
    by (auto simp: bindE_simps)
  from "3.IH" [OF cs(1)] cs(2) show ?case by simp
next
  case (4 d names resolve cs w)
  from "4.prems" obtain cs' where cs: "resolve_nodes d names resolve cs w = Inr (cs', w')" "n' = Or cs'"
    by (auto simp: bindE_simps)
  from "4.IH" [OF cs(1)] cs(2) show ?case by simp
next
  case (7 d names resolve c cs w)
  from "7.prems" obtain c' w1 cs' where
    "resolve_node d names resolve c w = Inr (c', w1)"
    "resolve_nodes d names resolve cs w1 = Inr (cs', w')" "ns' = c' # cs'"
    by (auto simp: bindE_simps)
  note st = this
  note a = "7.IH"(1) [OF st(1)]
  note b = "7.IH"(2) [OF st(1) refl st(2)]
  show ?case
  proof (intro conjI)
    show "ns' = map (map_leaves (\<lambda>x. the (resolve x))) (c # cs)" using a b st(3) by simp
    show "\<forall>x\<in>set (concat (map node_leaves (c # cs))). resolve x \<noteq> None"
      using a [THEN conjunct2, THEN conjunct1] b [THEN conjunct2, THEN conjunct1]
      unfolding list.map concat.simps set_append ball_Un by (rule conjI)
    show "set (ws_refs w') = set (ws_refs w) \<union> set (concat (map node_refs (c # cs)))"
      using a b by (simp add: Un_assoc)
    show "set (concat (map node_refs (c # cs))) \<subseteq> insert orphan_set_name (set names)" using a b by simp
    show "set (ws_seen w') = set (ws_seen w) \<union> set (concat (map node_leaves ns'))"
      using a b st(3) by (simp add: Un_assoc)
    show "ws_orphans w' \<longleftrightarrow> ws_orphans w \<or> orphan_set_name \<in> set (concat (map node_refs (c # cs)))"
      using a b by simp
  qed
qed (auto simp: bindE_simps Let_def split: option.splits if_splits)

lemma map_leaves_refs [simp]: "node_refs (map_leaves f n) = node_refs n"
proof (induction n)
  case (And cs)
  then show ?case by (simp add: comp_def cong: map_cong)
next
  case (Or cs)
  then show ?case by (simp add: comp_def cong: map_cong)
qed auto

lemma map_leaves_full [simp]: "full (map_leaves f n) \<longleftrightarrow> full n"
proof (induction n)
  case (And cs)
  then show ?case by (auto simp: list_all_iff)
next
  case (Or cs)
  then show ?case by (auto simp: list_all_iff)
qed auto

lemma grammar_full:
  "g_or w n \<Longrightarrow> full n" "g_or_tail w ns \<Longrightarrow> list_all full ns" "g_and w n \<Longrightarrow> full n"
  "g_and_tail w ns \<Longrightarrow> list_all full ns" "g_atom w n \<Longrightarrow> full n"
  by (induction rule: g_or_g_or_tail_g_and_g_and_tail_g_atom.inducts) auto

lemma parse_tokens_sound: "parse_tokens ts = Inr n \<Longrightarrow> \<exists>w. g_or w n"
  by (auto simp: parse_tokens_def bindE_simps split: if_splits dest!: parse_sound(1))

lemma parse_dsl_full: "parse_dsl s = Inr n \<Longrightarrow> full n"
  by (auto simp: parse_dsl_def Let_def bindE_simps split: if_splits
      dest!: parse_tokens_sound intro: grammar_full(1))

section \<open>What the first pass leaves\<close>

text \<open>The resolved expression of a definition that parses.\<close>

definition resolved :: "resolver \<Rightarrow> node \<Rightarrow> node" where
  "resolved resolve = map_leaves (\<lambda>x. the (resolve x))"

definition def_ok :: "string list \<Rightarrow> resolver \<Rightarrow> set_def \<Rightarrow> node \<Rightarrow> bool" where
  "def_ok names resolve d n \<longleftrightarrow> parse_dsl (sd_dsl d) = Inr n \<and>
     (\<forall>x\<in>set (node_leaves n). resolve x \<noteq> None) \<and>
     set (node_refs n) \<subseteq> insert orphan_set_name (set names)"

definition entry_ok :: "string list \<Rightarrow> resolver \<Rightarrow> compile_state \<Rightarrow> set_def \<Rightarrow> bool" where
  "entry_ok names resolve st d \<longleftrightarrow> (\<exists>n rs. def_ok names resolve d n \<and>
     map_of (co_roots st) (sd_name d) = Some (resolved resolve n) \<and>
     map_of (co_deps st) (sd_name d) = Some rs \<and> set rs = set (node_refs n) \<and>
     map_of (co_dsl st) (sd_name d) = Some (sd_dsl d))"

definition parsed :: "set_def \<Rightarrow> node" where
  "parsed d = (case parse_dsl (sd_dsl d) of Inr n \<Rightarrow> n | Inl e \<Rightarrow> Empty)"

lemma compile_def_ok:
  assumes "compile_def names resolve d st = Inr st'"
  shows "entry_ok names resolve st' d \<and>
    (\<forall>k. k \<noteq> sd_name d \<longrightarrow> map_of (co_roots st') k = map_of (co_roots st) k \<and>
       map_of (co_deps st') k = map_of (co_deps st) k \<and> map_of (co_dsl st') k = map_of (co_dsl st) k) \<and>
    set (co_seen st') = set (co_seen st) \<union> set (node_leaves (resolved resolve (parsed d))) \<and>
    (co_orphans st' \<longleftrightarrow> co_orphans st \<or> orphan_set_name \<in> set (node_refs (parsed d)))"
proof -
  let ?w0 = "\<lparr>ws_seen = co_seen st, ws_orphans = co_orphans st, ws_refs = []\<rparr>"
  from assms obtain n n' w where p: "parse_dsl (sd_dsl d) = Inr n"
    and r: "resolve_node (sd_name d) names resolve n ?w0 = Inr (n', w)"
    and st': "st' = \<lparr>co_roots = AList.update (sd_name d) n' (co_roots st),
                co_dsl = AList.update (sd_name d) (sd_dsl d) (co_dsl st),
                co_deps = AList.update (sd_name d) (ws_refs w) (co_deps st),
                co_seen = ws_seen w, co_orphans = ws_orphans w\<rparr>"
    by (auto simp: compile_def_def bindE_simps split: sum.splits)
  note ok = resolve_node_ok(1) [OF r, folded resolved_def, simplified]
  have "entry_ok names resolve st' d"
    unfolding entry_ok_def def_ok_def st' using ok p by auto
  moreover have "parsed d = n" using p by (simp add: parsed_def)
  ultimately show ?thesis using ok by (simp add: st')
qed

lemma entry_ok_cong:
  "entry_ok names resolve st d \<Longrightarrow> map_of (co_roots st') (sd_name d) = map_of (co_roots st) (sd_name d) \<Longrightarrow>
   map_of (co_deps st') (sd_name d) = map_of (co_deps st) (sd_name d) \<Longrightarrow>
   map_of (co_dsl st') (sd_name d) = map_of (co_dsl st) (sd_name d) \<Longrightarrow> entry_ok names resolve st' d"
  by (simp add: entry_ok_def)

lemma compile_defs_ok:
  assumes "foldE (compile_def names resolve) ds st0 = Inr st" and "distinct (map sd_name ds)"
  shows "(\<forall>d\<in>set ds. entry_ok names resolve st d) \<and>
    (\<forall>k. k \<notin> sd_name ` set ds \<longrightarrow> map_of (co_roots st) k = map_of (co_roots st0) k \<and>
       map_of (co_deps st) k = map_of (co_deps st0) k) \<and>
    set (co_seen st) = set (co_seen st0) \<union> (\<Union>d\<in>set ds. set (node_leaves (resolved resolve (parsed d)))) \<and>
    (co_orphans st \<longleftrightarrow> co_orphans st0 \<or> (\<exists>d\<in>set ds. orphan_set_name \<in> set (node_refs (parsed d))))"
  using assms
proof (induction ds arbitrary: st rule: rev_induct)
  case (snoc d ds)
  from snoc.prems(1) obtain s where s: "foldE (compile_def names resolve) ds st0 = Inr s"
    "compile_def names resolve d s = Inr st" by (auto simp: foldE_append bindE_simps)
  note ih = snoc.IH [OF s(1)]
  note one = compile_def_ok [OF s(2)]
  have d: "distinct (map sd_name ds)" "\<forall>x\<in>set ds. sd_name x \<noteq> sd_name d"
    using snoc.prems(2) by (auto simp: rev_image_eqI)
  have "entry_ok names resolve st x" if "x \<in> set (ds @ [d])" for x
  proof (cases "x = d")
    case False
    with that have x: "x \<in> set ds" by simp
    with ih [OF d(1)] have "entry_ok names resolve s x" by blast
    moreover have "sd_name x \<noteq> sd_name d" using d(2) x by blast
    ultimately show ?thesis using one by (auto intro: entry_ok_cong)
  qed (use one in simp)
  moreover have "set (co_seen st) = set (co_seen st0) \<union>
      (\<Union>d\<in>set (ds @ [d]). set (node_leaves (resolved resolve (parsed d))))"
    using ih [OF d(1)] one by auto
  moreover have "co_orphans st \<longleftrightarrow> co_orphans st0 \<or>
      (\<exists>d\<in>set (ds @ [d]). orphan_set_name \<in> set (node_refs (parsed d)))"
    using ih [OF d(1)] one by auto
  ultimately show ?case using ih [OF d(1)] one by simp
qed simp

lemma resolve_node_exists:
  "\<forall>x\<in>set (node_leaves n). resolve x \<noteq> None \<Longrightarrow> set (node_refs n) \<subseteq> insert orphan_set_name (set names) \<Longrightarrow>
     \<exists>r. resolve_node d names resolve n w = Inr r"
  "\<forall>x\<in>set (concat (map node_leaves ns)). resolve x \<noteq> None \<Longrightarrow>
     set (concat (map node_refs ns)) \<subseteq> insert orphan_set_name (set names) \<Longrightarrow>
     \<exists>r. resolve_nodes d names resolve ns w = Inr r"
proof (induction d names resolve n w and d names resolve ns w rule: resolve_node_resolve_nodes.induct)
  case (7 d names resolve c cs w)
  obtain c' w' where c: "resolve_node d names resolve c w = Inr (c', w')"
    using 7(1) "7.prems" by auto
  obtain r where "resolve_nodes d names resolve cs w' = Inr r"
    using 7(2) [OF c refl] "7.prems" by auto
  with c show ?case by (cases r) simp
qed (auto simp: Let_def split: option.splits)

lemma compile_defs_exists:
  "\<forall>d\<in>set ds. \<exists>n. def_ok names resolve d n \<Longrightarrow> \<exists>st. foldE (compile_def names resolve) ds st0 = Inr st"
proof (induction ds arbitrary: st0)
  case (Cons d ds)
  then obtain n where n: "def_ok names resolve d n" by auto
  then obtain r where "resolve_node (sd_name d) names resolve n
      \<lparr>ws_seen = co_seen st0, ws_orphans = co_orphans st0, ws_refs = []\<rparr> = Inr r"
    using resolve_node_exists(1) unfolding def_ok_def by blast
  then have "\<exists>s. compile_def names resolve d st0 = Inr s"
    using n by (cases r) (simp add: compile_def_def def_ok_def)
  with Cons show ?case by auto
qed simp

lemma resolve_node_error:
  "resolve_node d names resolve n w = Inl e \<Longrightarrow>
     (\<exists>x. e = CErrUnknownModel d x \<and> resolve x = None) \<or> (\<exists>r. e = CErrUndefinedSet d r \<and> r \<notin> set names)"
  "resolve_nodes d names resolve ns w = Inl e \<Longrightarrow>
     (\<exists>x. e = CErrUnknownModel d x \<and> resolve x = None) \<or> (\<exists>r. e = CErrUndefinedSet d r \<and> r \<notin> set names)"
  by (induction d names resolve n w and d names resolve ns w rule: resolve_node_resolve_nodes.induct)
     (auto simp: bindE_simps Let_def split: option.splits if_splits)

section \<open>The graph of references\<close>

text \<open>The references of the definitions' texts, and the state after the orphan set is registered.\<close>

definition ref_rel :: "set_def list \<Rightarrow> (string \<times> string) set" where
  "ref_rel defs = {(a, b). \<exists>d\<in>set defs. sd_name d = a \<and> b \<in> set (node_refs (parsed d))}"

definition start_state :: compile_state where
  "start_state = \<lparr>co_roots = [], co_dsl = [], co_deps = [], co_seen = [], co_orphans = False\<rparr>"

lemma synthesize_orphans_fields:
  assumes "synthesize_orphans names all_models st0 = (st, orphans, mode)"
  shows "co_orphans st = co_orphans st0" "co_dsl st = co_dsl st0" "co_seen st = co_seen st0"
    and "\<not> co_orphans st0 \<or> orphan_set_name \<in> set names \<Longrightarrow>
      st = st0 \<and> orphans = [] \<and> mode \<noteq> ''synthesized'' \<and> mode \<noteq> ''empty''"
    and "co_orphans st0 \<Longrightarrow> orphan_set_name \<notin> set names \<Longrightarrow>
      map_of (co_deps st) = (map_of (co_deps st0))(orphan_set_name \<mapsto> []) \<and>
      map_of (co_roots st) = (map_of (co_roots st0))(orphan_set_name \<mapsto> build_model_set orphans) \<and>
      (mode = ''synthesized'' \<or> mode = ''empty'') \<and>
      orphans = sort (filter (\<lambda>m. m \<notin> set (co_seen st0)) all_models)"
  using assms by (auto simp: synthesize_orphans_def Let_def update_conv' split: if_splits)

section \<open>The later passes\<close>

definition tables_ok :: "compile_state \<Rightarrow> bool" where
  "tables_ok st \<longleftrightarrow> deps_closed (co_deps st) \<and>
     (\<forall>n. map_of (co_deps st) n \<noteq> None \<longrightarrow> (\<exists>r0. map_of (co_roots st) n = Some r0 \<and>
        set (node_refs r0) = set (deps_of (co_deps st) n) \<and> (full r0 \<or> r0 = Empty \<and> co_orphans st)))"

lemma tables_refs:
  assumes "tables_ok st" and "map_of (co_deps st) n \<noteq> None" and "map_of (co_roots st) n = Some r0"
  shows "set (node_refs r0) = set (deps_of (co_deps st) n)"
proof -
  from assms(1,2) obtain r where "map_of (co_roots st) n = Some r"
    "set (node_refs r) = set (deps_of (co_deps st) n)" unfolding tables_ok_def by blast
  with assms(3) show ?thesis by simp
qed

lemma sem_full:
  "full n \<Longrightarrow> \<forall>r\<in>set (node_refs n). D r \<noteq> None \<Longrightarrow> sem D n \<noteq> None"
proof (induction n)
  case (And cs)
  then obtain c where c: "c \<in> set cs" by (cases cs) auto
  with And have "sem D c \<noteq> None" by (auto simp: list_all_iff)
  then obtain y where "sem D c = Some y" by blast
  with c have "filter (\<lambda>y. y \<noteq> None) (map (sem D) cs) \<noteq> []"
    by (auto simp: filter_empty_conv intro!: bexI [of _ c])
  then show ?case by (simp add: map_filter_id Let_def)
next
  case (Or cs)
  then obtain c where c: "c \<in> set cs" by (cases cs) auto
  with Or have "sem D c \<noteq> None" by (auto simp: list_all_iff)
  then obtain y where "sem D c = Some y" by blast
  with c have "filter (\<lambda>y. y \<noteq> None) (map (sem D) cs) \<noteq> []"
    by (auto simp: filter_empty_conv intro!: bexI [of _ c])
  then show ?case by (simp add: map_filter_id Let_def)
qed auto

lemma simplify_refs_nonempty:
  "r \<in> set (node_refs (simplify_empty_refs roots n)) \<Longrightarrow> roots r \<noteq> Some Empty"
proof (induction n)
  case (And cs)
  let ?kept = "filter (\<lambda>c. c \<noteq> Empty) (map (simplify_empty_refs roots) cs)"
  have "r \<in> set (node_refs k) \<Longrightarrow> roots r \<noteq> Some Empty" if "k \<in> set ?kept" for k
    using And.IH that by auto
  with And.prems show ?case by (cases ?kept; cases "tl ?kept") auto
next
  case (Or cs)
  let ?kept = "filter (\<lambda>c. c \<noteq> Empty) (map (simplify_empty_refs roots) cs)"
  have "r \<in> set (node_refs k) \<Longrightarrow> roots r \<noteq> Some Empty" if "k \<in> set ?kept" for k
    using Or.IH that by auto
  with Or.prems show ?case by (cases ?kept; cases "tl ?kept") auto
qed (auto split: if_splits)

text \<open>
  The simplified root of every set: no reference to an empty set, and the meaning of the
  original root under any assignment that is \<open>None\<close> exactly on the empty sets.
\<close>

definition simplified :: "(string \<rightharpoonup> node) \<Rightarrow> node \<Rightarrow> node \<Rightarrow> bool" where
  "simplified roots r0 r \<longleftrightarrow> (r = Empty \<or> full r) \<and> set (node_refs r) \<subseteq> set (node_refs r0) \<and>
     (\<forall>x\<in>set (node_refs r). roots x \<noteq> Some Empty) \<and>
     (\<forall>D. (\<forall>x\<in>set (node_refs r0). roots x = Some Empty \<longleftrightarrow> D x = None) \<longrightarrow>
        sem D r = sem D r0 \<and> (r = Empty \<longleftrightarrow> sem D r0 = None))"

lemma simplified_simplify: "simplified roots r0 (simplify_empty_refs roots r0)"
  unfolding simplified_def
  using simplify_refs simplify_refs_nonempty simplify_full sem_simplify by blast

lemma simplified_full:
  assumes "full r" and "\<forall>x\<in>set (node_refs r). roots x \<noteq> Some Empty"
  shows "simplified roots r r"
proof -
  have "r \<noteq> Empty" using assms(1) by auto
  with assms sem_full show ?thesis unfolding simplified_def by blast
qed

lemma simplify_pass:
  assumes tab: "tables_ok st" and ord: "distinct order" "topo_sorted (co_deps st) order"
    and keys: "\<forall>n\<in>set order. map_of (co_deps st) n \<noteq> None"
  shows "\<exists>roots. (if co_orphans st then foldE simplify_root order (co_roots st) else Inr (co_roots st)) = Inr roots \<and>
    (\<forall>n\<in>set order. \<exists>r0 r. map_of (co_roots st) n = Some r0 \<and> map_of roots n = Some r \<and>
       simplified (map_of roots) r0 r)"
proof (cases "co_orphans st")
  case True
  let ?roots0 = "map_of (co_roots st)"
  let ?F = "\<lambda>n m v. \<exists>r0. ?roots0 n = Some r0 \<and> v = simplify_empty_refs m r0"
  have in0: "?roots0 n \<noteq> None" if "n \<in> set order" for n
    using tab keys that unfolding tables_ok_def by fastforce
  obtain roots where roots: "foldE simplify_root order (co_roots st) = Inr roots"
  proof (rule exE [OF topo_fold_total])
    fix pre n post and s :: "(string \<times> node) list"
    assume "order = pre @ n # post" "\<forall>k. ?roots0 k \<noteq> None \<longrightarrow> map_of s k \<noteq> None"
    with in0 [of n] show "\<exists>v. simplify_root n s = Inr (AList.update n v s)"
      by (auto simp: simplify_root_def split: option.splits)
  qed blast
  have "(\<forall>n\<in>set order. \<exists>v. map_of roots n = Some v \<and> ?F n (map_of roots) v) \<and>
      (\<forall>n. n \<notin> set order \<longrightarrow> map_of roots n = ?roots0 n)"
  proof (rule topo_fold [OF roots ord])
    fix n s s' assume "map_of s n = ?roots0 n" "simplify_root n s = Inr s'"
    then show "\<exists>v. s' = AList.update n v s \<and> ?F n (map_of s) v"
      by (auto simp: simplify_root_def split: option.splits)
  next
    fix n and m m' :: "string \<rightharpoonup> node" and v
    assume n: "n \<in> set order" and m: "\<forall>d\<in>set (deps_of (co_deps st) n). m d = m' d"
    assume "?F n m v"
    then obtain r0 where r0: "?roots0 n = Some r0" "v = simplify_empty_refs m r0" by blast
    have "set (node_refs r0) = set (deps_of (co_deps st) n)"
      using tables_refs [OF tab] keys n r0(1) by blast
    with m have "simplify_empty_refs m r0 = simplify_empty_refs m' r0" by (intro simplify_cong) auto
    with r0 show "?F n m' v" by blast
  qed
  then have "\<forall>n\<in>set order. \<exists>r0 r. ?roots0 n = Some r0 \<and> map_of roots n = Some r \<and>
      simplified (map_of roots) r0 r"
    using simplified_simplify by blast
  with roots True show ?thesis by auto
next
  case False
  have "\<exists>r0. map_of (co_roots st) n = Some r0 \<and> simplified (map_of (co_roots st)) r0 r0"
    if n: "n \<in> set order" for n
  proof -
    have all: "\<exists>r. map_of (co_roots st) k = Some r \<and> full r" if "map_of (co_deps st) k \<noteq> None" for k
      using tab that False unfolding tables_ok_def by blast
    obtain r0 where r0: "map_of (co_roots st) n = Some r0" "full r0"
      "set (node_refs r0) = set (deps_of (co_deps st) n)"
      using tab keys n False unfolding tables_ok_def by blast
    have "map_of (co_roots st) x \<noteq> Some Empty" if "x \<in> set (node_refs r0)" for x
    proof -
      have "x \<in> fst ` set (co_deps st)"
        using tab that r0(3) unfolding tables_ok_def deps_closed_def by blast
      then have "map_of (co_deps st) x \<noteq> None" by (simp add: map_of_eq_None_iff)
      with all [of x] show ?thesis by auto
    qed
    with r0 simplified_full show ?thesis by blast
  qed
  with False show ?thesis by fastforce
qed

lemma link_pass:
  assumes tab: "tables_ok st" and ord: "distinct order" "topo_sorted (co_deps st) order"
    and keys: "\<forall>n\<in>set order. map_of (co_deps st) n \<noteq> None"
    and roots: "\<forall>n\<in>set order. \<exists>r0 r. map_of (co_roots st) n = Some r0 \<and> map_of roots n = Some r \<and>
       simplified (map_of roots) r0 r"
  shows "\<exists>env. foldE (link_root (map_of roots)) order [] = Inr env \<and>
    (\<forall>n\<in>set order. \<exists>r t. map_of roots n = Some r \<and> map_of env n = Some t \<and> link_node (map_of env) r = Inr t)"
proof -
  let ?F = "\<lambda>n m v. \<exists>r. map_of roots n = Some r \<and> link_node m r = Inr v"
  have refs: "set (node_refs r) \<subseteq> set (deps_of (co_deps st) n)"
    if n: "n \<in> set order" and r: "map_of roots n = Some r" for n r
  proof -
    obtain r0 r' where r0: "map_of (co_roots st) n = Some r0" "map_of roots n = Some r'"
      "simplified (map_of roots) r0 r'" using roots n by blast
    have "set (node_refs r0) = set (deps_of (co_deps st) n)"
      using keys n by (intro tables_refs [OF tab _ r0(1)]) blast
    with r0 r show ?thesis by (simp add: simplified_def)
  qed
  obtain env where env: "foldE (link_root (map_of roots)) order [] = Inr env"
  proof (rule exE [OF topo_fold_total])
    fix pre n post and s :: "(string \<times> lnode) list"
    assume o: "order = pre @ n # post" and s: "\<forall>k\<in>set pre. map_of s k \<noteq> None"
    then obtain r where r: "map_of roots n = Some r" using roots by (auto dest!: bspec [of _ _ n])
    have "set (node_refs r) \<subseteq> set pre"
    proof -
      have "set (deps_of (co_deps st) n) \<subseteq> set pre" using ord(2) o unfolding topo_sorted_def by blast
      moreover have "n \<in> set order" using o by simp
      ultimately show ?thesis using refs r by blast
    qed
    with s have "\<exists>t. link_node (map_of s) r = Inr t" by (intro link_node_total) auto
    with r show "\<exists>v. link_root (map_of roots) n s = Inr (AList.update n v s)"
      by (auto simp: link_root_def)
  qed blast
  have "(\<forall>n\<in>set order. \<exists>v. map_of env n = Some v \<and> ?F n (map_of env) v) \<and>
      (\<forall>n. n \<notin> set order \<longrightarrow> map_of env n = map_of [] n)"
  proof (rule topo_fold [OF env ord])
    fix n and s s' :: "(string \<times> lnode) list"
    assume "link_root (map_of roots) n s = Inr s'"
    then show "\<exists>v. s' = AList.update n v s \<and> ?F n (map_of s) v"
      by (auto simp: link_root_def bindE_simps split: option.splits)
  next
    fix n m m' v
    assume n: "n \<in> set order" and m: "\<forall>d\<in>set (deps_of (co_deps st) n). m d = m' d" and f: "?F n m v"
    from f obtain r where r: "map_of roots n = Some r" "link_node m r = Inr v" by blast
    with refs [OF n r(1)] m have "link_node m r = link_node m' r" by (intro link_node_cong) auto
    with r show "?F n m' v" by auto
  qed
  with env show ?thesis by blast
qed

lemma meaning_pass:
  assumes tab: "tables_ok st" and ord: "topo_sorted (co_deps st) order"
    and keys: "\<forall>n\<in>set order. map_of (co_deps st) n \<noteq> None"
    and roots: "\<forall>n\<in>set order. \<exists>r0 r. map_of (co_roots st) n = Some r0 \<and> map_of roots n = Some r \<and>
       simplified (map_of roots) r0 r"
    and env: "\<forall>n\<in>set order. \<exists>r t. map_of roots n = Some r \<and> map_of env n = Some t \<and> link_node (map_of env) r = Inr t"
  shows "\<exists>D. \<forall>n\<in>set order. \<exists>r0 t. map_of (co_roots st) n = Some r0 \<and> map_of env n = Some t \<and>
    D n = sem D r0 \<and> combos t = (case D n of None \<Rightarrow> {} | Some A \<Rightarrow> A)"
proof -
  let ?D = "\<lambda>n. if map_of roots n = Some Empty then None else map_option combos (map_of env n)"
  have "\<exists>r0 t. map_of (co_roots st) n = Some r0 \<and> map_of env n = Some t \<and>
      ?D n = sem ?D r0 \<and> combos t = (case ?D n of None \<Rightarrow> {} | Some A \<Rightarrow> A)" if n: "n \<in> set order" for n
  proof -
    obtain r0 r where r: "map_of (co_roots st) n = Some r0" "map_of roots n = Some r"
      "simplified (map_of roots) r0 r" using roots n by blast
    obtain r' t where r't: "map_of roots n = Some r'" "map_of env n = Some t" "link_node (map_of env) r' = Inr t"
      using env n by blast
    have t: "map_of env n = Some t" "link_node (map_of env) r = Inr t" using r't r(2) by auto
    have refs0: "set (node_refs r0) = set (deps_of (co_deps st) n)"
      using keys n by (intro tables_refs [OF tab _ r(1)]) blast
    have sub: "set (node_refs r0) \<subseteq> set order"
    proof -
      obtain pre post where o: "order = pre @ n # post" using split_list [OF n] by blast
      with ord have "set (deps_of (co_deps st) n) \<subseteq> set pre" unfolding topo_sorted_def by blast
      with o refs0 show ?thesis by auto
    qed
    have "map_of env x \<noteq> None" if "x \<in> set (node_refs r0)" for x
      using env sub that by blast
    then have "\<forall>x\<in>set (node_refs r0). map_of roots x = Some Empty \<longleftrightarrow> ?D x = None" by simp
    with r(3) [unfolded simplified_def, THEN conjunct2, THEN conjunct2, THEN conjunct2, THEN spec, of ?D]
    have s12: "sem ?D r = sem ?D r0 \<and> (r = Empty \<longleftrightarrow> sem ?D r0 = None)" by (rule mp)
    note s = conjunct1 [OF s12] conjunct2 [OF s12] r(3) [unfolded simplified_def, THEN conjunct1]
      r(3) [unfolded simplified_def, THEN conjunct2, THEN conjunct2, THEN conjunct1]
    show ?thesis
    proof (cases "r = Empty")
      case True
      with s t r show ?thesis by auto
    next
      case False
      with s(3) have "full r" by blast
      from link_node_sem(1) [OF t(2) this, of ?D] s(4)
      have "sem ?D r = Some (combos t)" by auto
      with s(1) have "sem ?D r0 = Some (combos t)" by simp
      with t(1) r(1,2) False show ?thesis by simp
    qed
  qed
  then show ?thesis by (intro exI [of _ ?D] ballI)
qed

section \<open>The first pass sets up the later ones\<close>

lemma sort_eq_Nil_iff [simp]: "sort xs = [] \<longleftrightarrow> xs = []"
  by (metis length_0_conv length_sort)

lemma build_model_set_facts [simp]:
  "node_refs (build_model_set ms) = []" "full (build_model_set ms) \<or> build_model_set ms = Empty"
  by (auto simp: build_model_set_def list_all_iff comp_def)

lemma first_pass:
  assumes pass: "foldE (compile_def (map sd_name defs) resolve) defs start_state = Inr st0"
    and dist: "distinct (map sd_name defs)"
    and syn: "synthesize_orphans (map sd_name defs) all_models st0 = (st, orphans, mode)"
  shows "tables_ok st" and "sd_name ` set defs \<subseteq> fst ` set (co_deps st)"
    and "fst ` set (co_deps st) = sd_name ` set defs \<union>
      (if co_orphans st \<and> orphan_set_name \<notin> sd_name ` set defs then {orphan_set_name} else {})"
    and "\<forall>d\<in>set defs. entry_ok (map sd_name defs) resolve st d"
    and "edges (co_deps st) = ref_rel defs"
proof -
  let ?names = "map sd_name defs"
  note ok = compile_defs_ok [OF pass dist]
  note syn' = synthesize_orphans_fields [OF syn]
  have entries: "\<forall>d\<in>set defs. entry_ok ?names resolve st0 d" using ok by blast
  have orph: "co_orphans st0 \<longleftrightarrow> (\<exists>d\<in>set defs. orphan_set_name \<in> set (node_refs (parsed d)))"
    using ok by (simp add: start_state_def)
  have none0: "map_of (co_deps st0) k = None" if "k \<notin> sd_name ` set defs" for k
    using ok that by (simp add: start_state_def)
  let ?syn = "co_orphans st0 \<and> orphan_set_name \<notin> sd_name ` set defs"
  have deps: "map_of (co_deps st) k = (if ?syn \<and> k = orphan_set_name then Some [] else map_of (co_deps st0) k)" for k
    using syn'(4,5) by (cases "?syn") auto
  have roots: "map_of (co_roots st) k =
      (if ?syn \<and> k = orphan_set_name then Some (build_model_set orphans) else map_of (co_roots st0) k)" for k
    using syn'(4,5) by (cases "?syn") auto
  show entries': "\<forall>d\<in>set defs. entry_ok ?names resolve st d"
  proof
    fix d assume d: "d \<in> set defs"
    with entries have "entry_ok ?names resolve st0 d" by blast
    moreover have "\<not> (?syn \<and> sd_name d = orphan_set_name)" using imageI [OF d, of sd_name] by auto
    ultimately show "entry_ok ?names resolve st d"
      using syn'(2) by (auto intro: entry_ok_cong simp: deps roots)
  qed
  have keys: "map_of (co_deps st) k \<noteq> None \<longleftrightarrow> k \<in> sd_name ` set defs \<or> ?syn \<and> k = orphan_set_name" for k
    using entries none0 [of k] by (auto simp: deps entry_ok_def split: if_splits)
  then have dom: "fst ` set (co_deps st) = sd_name ` set defs \<union> (if ?syn then {orphan_set_name} else {})"
    using map_of_eq_None_iff [of "co_deps st"] by (auto split: if_splits)
  show "sd_name ` set defs \<subseteq> fst ` set (co_deps st)"
    and "fst ` set (co_deps st) = sd_name ` set defs \<union>
      (if co_orphans st \<and> orphan_set_name \<notin> sd_name ` set defs then {orphan_set_name} else {})"
    unfolding dom syn'(1) by auto
  have refs: "set (deps_of (co_deps st) (sd_name d)) = set (node_refs (parsed d)) \<and>
      set (node_refs (parsed d)) \<subseteq> insert orphan_set_name (sd_name ` set defs)" if d: "d \<in> set defs" for d
  proof -
    obtain n rs where "parse_dsl (sd_dsl d) = Inr n" "map_of (co_deps st) (sd_name d) = Some rs"
      "set rs = set (node_refs n)" "set (node_refs n) \<subseteq> insert orphan_set_name (set ?names)"
      using entries' d unfolding entry_ok_def def_ok_def by blast
    then show ?thesis by (simp add: deps_of_def parsed_def)
  qed
  have norefs: "deps_of (co_deps st) k = []" if "k \<notin> sd_name ` set defs" for k
    using none0 [OF that] by (simp add: deps_of_def deps)
  have "set (deps_of (co_deps st) n) \<subseteq> fst ` set (co_deps st)" for n
  proof (cases "n \<in> sd_name ` set defs")
    case True
    then obtain d where d: "d \<in> set defs" "n = sd_name d" by blast
    have "orphan_set_name \<in> set (node_refs (parsed d)) \<Longrightarrow> co_orphans st0" using orph d(1) by blast
    with refs [OF d(1)] d(2) show ?thesis unfolding dom by auto
  qed (simp add: norefs)
  then have closed: "deps_closed (co_deps st)" by (simp add: deps_closed_def)
  have "\<exists>r0. map_of (co_roots st) n = Some r0 \<and> set (node_refs r0) = set (deps_of (co_deps st) n) \<and>
      (full r0 \<or> r0 = Empty \<and> co_orphans st)" if n: "map_of (co_deps st) n \<noteq> None" for n
  proof (cases "n \<in> sd_name ` set defs")
    case True
    then obtain d where d: "d \<in> set defs" "n = sd_name d" by blast
    with entries' obtain m rs where m: "parse_dsl (sd_dsl d) = Inr m"
      "map_of (co_roots st) n = Some (resolved resolve m)" "map_of (co_deps st) n = Some rs"
      "set rs = set (node_refs m)" unfolding entry_ok_def def_ok_def by blast
    then show ?thesis by (simp add: resolved_def parse_dsl_full deps_of_def)
  next
    case False
    with n keys have "?syn" "n = orphan_set_name" by blast+
    then show ?thesis using syn'(1) norefs [OF False] by (simp add: roots)
  qed
  with closed show "tables_ok st" by (simp add: tables_ok_def)
  show "edges (co_deps st) = ref_rel defs"
  proof -
    have "b \<in> set (deps_of (co_deps st) a) \<longleftrightarrow> (\<exists>d\<in>set defs. sd_name d = a \<and> b \<in> set (node_refs (parsed d)))" for a b
    proof (cases "a \<in> sd_name ` set defs")
      case True
      then obtain d where d: "d \<in> set defs" "sd_name d = a" by blast
      have "x = d" if "x \<in> set defs" "sd_name x = a" for x
        using dist d that by (auto simp: distinct_map dest: inj_onD)
      with d refs [OF d(1)] show ?thesis by blast
    next
      case False
      then have "\<forall>d\<in>set defs. sd_name d \<noteq> a" by blast
      with norefs [OF False] show ?thesis by simp
    qed
    then show ?thesis by (simp add: edges_def ref_rel_def)
  qed
qed

section \<open>The whole compilation\<close>

text \<open>After the first pass and the ordering, nothing can fail.\<close>

lemma later_passes:
  assumes pass: "foldE (compile_def (map sd_name defs) resolve) defs start_state = Inr st0"
    and dist: "distinct (map sd_name defs)"
    and syn: "synthesize_orphans (map sd_name defs) all_models st0 = (st, orphans, mode)"
    and ord: "topological_order defs (co_deps st) = Inr order"
  shows "\<exists>roots env D.
     (if co_orphans st then foldE simplify_root order (co_roots st) else Inr (co_roots st)) = Inr roots \<and>
     foldE (link_root (map_of roots)) order [] = Inr env \<and>
     (\<forall>n\<in>set order. \<exists>r0 t. map_of (co_roots st) n = Some r0 \<and> map_of env n = Some t \<and>
        D n = sem D r0 \<and> combos t = (case D n of None \<Rightarrow> {} | Some A \<Rightarrow> A))"
proof -
  note fp = first_pass [OF pass dist syn]
  note o = topological_order_ok [OF ord]
  have closed: "deps_closed (co_deps st)" using fp(1) by (simp add: tables_ok_def)
  have keys: "\<forall>n\<in>set order. map_of (co_deps st) n \<noteq> None"
    using topological_order_keys [OF ord closed fp(2)] by (auto simp: map_of_eq_None_iff)
  obtain roots where roots: "(if co_orphans st then foldE simplify_root order (co_roots st) else Inr (co_roots st)) = Inr roots"
    "\<forall>n\<in>set order. \<exists>r0 r. map_of (co_roots st) n = Some r0 \<and> map_of roots n = Some r \<and>
       simplified (map_of roots) r0 r"
    using simplify_pass [OF fp(1) o(1,2) keys] by blast
  obtain env where env: "foldE (link_root (map_of roots)) order [] = Inr env"
    "\<forall>n\<in>set order. \<exists>r t. map_of roots n = Some r \<and> map_of env n = Some t \<and> link_node (map_of env) r = Inr t"
    using link_pass [OF fp(1) o(1,2) keys roots(2)] by blast
  show ?thesis using meaning_pass [OF fp(1) o(2) keys roots(2) env(2)] roots(1) env(1) by blast
qed

lemma compile_steps:
  assumes "defs \<noteq> []"
  shows "compile defs resolve all_models =
    bindE (foldE (compile_def (map sd_name defs) resolve) defs start_state) (\<lambda>st0.
      case synthesize_orphans (map sd_name defs) all_models st0 of (st, orphans, mode) \<Rightarrow>
        bindE (topological_order defs (co_deps st)) (\<lambda>order.
        bindE (if co_orphans st then foldE simplify_root order (co_roots st) else Inr (co_roots st)) (\<lambda>roots.
        bindE (foldE (link_root (map_of roots)) order []) (\<lambda>env.
          Inr (compute_support
            (map (\<lambda>n. (n, (case map_of (co_dsl st) n of None \<Rightarrow> '''' | Some d \<Rightarrow> d),
                       (case map_of env n of None \<Rightarrow> LEmpty | Some t \<Rightarrow> t)))
               (filter (\<lambda>n. \<not> (n = orphan_set_name \<and> (mode = ''synthesized'' \<or> mode = ''empty''))) order))
            orphans mode)))))"
  using assms by (simp add: compile_def start_state_def Let_def)

lemma compile_defs_error:
  assumes "foldE (compile_def names resolve) ds st = Inl e"
  shows "\<exists>d\<in>set ds. (\<exists>x. e = CErrParse (sd_name d) x \<and> parse_dsl (sd_dsl d) = Inl x) \<or>
    (\<exists>x. e = CErrUnknownModel (sd_name d) x \<and> resolve x = None) \<or>
    (\<exists>r. e = CErrUndefinedSet (sd_name d) r \<and> r \<notin> set names)"
  using assms
proof (induction ds arbitrary: st)
  case (Cons d ds)
  show ?case
  proof (cases "compile_def names resolve d st")
    case (Inr s)
    with Cons show ?thesis by auto
  next
    case (Inl e')
    with Cons.prems have "compile_def names resolve d st = Inl e" by simp
    then show ?thesis
      by (auto simp: compile_def_def bindE_simps split: sum.splits dest!: resolve_node_error(1))
  qed
qed simp

text \<open>
  \<open>Compile\<close> fails only with an error that names its cause: no set, a text that does not
  parse, an identifier the resolver does not know, a reference to a set that is not defined, or a
  set on a reference cycle. In particular it never dereferences a nil root and never recurses
  without end.
\<close>
lemma compile_error_cause:
  assumes "distinct (map sd_name defs)" and "compile defs resolve all_models = Inl e"
  shows "(e = CErrNoSets \<and> defs = []) \<or>
    (\<exists>d\<in>set defs. \<exists>x. e = CErrParse (sd_name d) x \<and> parse_dsl (sd_dsl d) = Inl x) \<or>
    (\<exists>d\<in>set defs. \<exists>x. e = CErrUnknownModel (sd_name d) x \<and> resolve x = None) \<or>
    (\<exists>d\<in>set defs. \<exists>r. e = CErrUndefinedSet (sd_name d) r \<and> r \<notin> sd_name ` set defs) \<or>
    (\<exists>c. e = CErrCircular c \<and> (c, c) \<in> (ref_rel defs)\<^sup>+)"
proof (cases "defs = []")
  case True
  with assms(2) show ?thesis by (simp add: compile_def)
next
  case False
  show ?thesis
  proof (cases "foldE (compile_def (map sd_name defs) resolve) defs start_state")
    case (Inl e')
    with assms(2) False have "e' = e" by (simp add: compile_steps)
    from compile_defs_error [OF Inl] show ?thesis unfolding \<open>e' = e\<close> set_map by blast
  next
    case (Inr st0)
    obtain st orphans mode where syn: "synthesize_orphans (map sd_name defs) all_models st0 = (st, orphans, mode)"
      by (cases "synthesize_orphans (map sd_name defs) all_models st0")
    note fp = first_pass [OF Inr assms(1) syn]
    show ?thesis
    proof (cases "topological_order defs (co_deps st)")
      case Inl': (Inl e')
      with assms(2) False Inr syn have "e' = e" by (simp add: compile_steps)
      with topological_order_error [OF Inl' _ fp(2)] fp(1,5) show ?thesis
        by (auto simp: tables_ok_def)
    next
      case Inr': (Inr order)
      with later_passes [OF Inr assms(1) syn Inr'] assms(2) False Inr syn
      show ?thesis by (auto simp: compile_steps)
    qed
  qed
qed

definition unreferenced :: "set_def list \<Rightarrow> resolver \<Rightarrow> string list \<Rightarrow> string list" where
  "unreferenced defs resolve all_models =
     sort (filter (\<lambda>m. \<forall>d\<in>set defs. m \<notin> set (node_leaves (resolved resolve (parsed d)))) all_models)"

lemma sem_build_model_set:
  "sem D (build_model_set ms) = (if ms = [] then None else Some ((\<lambda>m. {m}) ` set ms))"
  by (auto simp: build_model_set_def map_filter_id comp_def filter_empty_conv)

lemma compile_ok_steps:
  assumes "distinct (map sd_name defs)" and "compile defs resolve all_models = Inr p"
  obtains st0 st orphans mode order roots env D where
    "foldE (compile_def (map sd_name defs) resolve) defs start_state = Inr st0"
    "synthesize_orphans (map sd_name defs) all_models st0 = (st, orphans, mode)"
    "topological_order defs (co_deps st) = Inr order"
    "\<forall>n\<in>set order. \<exists>r0 t. map_of (co_roots st) n = Some r0 \<and> map_of env n = Some t \<and>
        D n = sem D r0 \<and> combos t = (case D n of None \<Rightarrow> {} | Some A \<Rightarrow> A)"
    "p = compute_support
            (map (\<lambda>n. (n, (case map_of (co_dsl st) n of None \<Rightarrow> '''' | Some d \<Rightarrow> d),
                       (case map_of env n of None \<Rightarrow> LEmpty | Some t \<Rightarrow> t)))
               (filter (\<lambda>n. \<not> (n = orphan_set_name \<and> (mode = ''synthesized'' \<or> mode = ''empty''))) order))
            orphans mode"
proof -
  have ne: "defs \<noteq> []" using assms(2) by (auto simp: compile_def)
  obtain st0 where st0: "foldE (compile_def (map sd_name defs) resolve) defs start_state = Inr st0"
    using assms(2) ne by (auto simp: compile_steps bindE_simps)
  obtain st orphans mode where syn: "synthesize_orphans (map sd_name defs) all_models st0 = (st, orphans, mode)"
    by (cases "synthesize_orphans (map sd_name defs) all_models st0")
  obtain order where ord: "topological_order defs (co_deps st) = Inr order"
    using assms(2) ne st0 syn by (auto simp: compile_steps bindE_simps)
  obtain roots env D where later:
     "(if co_orphans st then foldE simplify_root order (co_roots st) else Inr (co_roots st)) = Inr roots"
     "foldE (link_root (map_of roots)) order [] = Inr env"
     "\<forall>n\<in>set order. \<exists>r0 t. map_of (co_roots st) n = Some r0 \<and> map_of env n = Some t \<and>
        D n = sem D r0 \<and> combos t = (case D n of None \<Rightarrow> {} | Some A \<Rightarrow> A)"
    using later_passes [OF st0 assms(1) syn ord] by blast
  show ?thesis
    by (rule that [OF st0 syn ord later(3)]) (use assms(2) ne st0 syn ord later(1,2) in \<open>simp add: compile_steps\<close>)
qed

lemma pr_sets_compute_support:
  "pr_sets (compute_support sets orphans mode) = map (\<lambda>(n, d, t). \<lparr>cs_name = n, cs_dsl = d, cs_root = t,
     cs_support = support_mask (pr_bits (compute_support sets orphans mode))
       (pr_words (compute_support sets orphans mode)) (lnode_models t)\<rparr>) sets"
  by (simp add: compute_support_def Let_def)

text \<open>
  C16. What \<open>Compile\<close> returns means what the definitions say. There is an assignment \<open>D\<close> of
  combinations to set names that solves the definitions as equations (a reference standing for
  the combinations of the set it names, dropped where that set is empty), in which
  \<open>auto:orphans\<close>, when referenced and not defined, is the set of the models no definition
  mentions; the compiled sets are exactly the defined ones, each once, and the linked tree
  of each expands to the combinations \<open>D\<close> gives it.
\<close>
theorem compile_meaning:
  assumes "distinct (map sd_name defs)" and "compile defs resolve all_models = Inr p"
  shows "\<exists>D. distinct (map cs_name (pr_sets p)) \<and> cs_name ` set (pr_sets p) = sd_name ` set defs \<and>
    (\<forall>s\<in>set (pr_sets p). \<exists>d\<in>set defs. \<exists>n. cs_name s = sd_name d \<and> cs_dsl s = sd_dsl d \<and>
       parse_dsl (sd_dsl d) = Inr n \<and> D (sd_name d) = sem D (resolved resolve n) \<and>
       combos (cs_root s) = (case D (sd_name d) of None \<Rightarrow> {} | Some A \<Rightarrow> A)) \<and>
    ((\<exists>d\<in>set defs. orphan_set_name \<in> set (node_refs (parsed d))) \<and> orphan_set_name \<notin> sd_name ` set defs \<longrightarrow>
       D orphan_set_name = (if unreferenced defs resolve all_models = [] then None
         else Some ((\<lambda>m. {m}) ` set (unreferenced defs resolve all_models))))"
proof -
  from assms obtain st0 st orphans mode order env D where
    st0: "foldE (compile_def (map sd_name defs) resolve) defs start_state = Inr st0" and
    syn: "synthesize_orphans (map sd_name defs) all_models st0 = (st, orphans, mode)" and
    ord: "topological_order defs (co_deps st) = Inr order" and
    D: "\<forall>n\<in>set order. \<exists>r0 t. map_of (co_roots st) n = Some r0 \<and> map_of env n = Some t \<and>
        D n = sem D r0 \<and> combos t = (case D n of None \<Rightarrow> {} | Some A \<Rightarrow> A)" and
    p: "p = compute_support
            (map (\<lambda>n. (n, (case map_of (co_dsl st) n of None \<Rightarrow> '''' | Some d \<Rightarrow> d),
                       (case map_of env n of None \<Rightarrow> LEmpty | Some t \<Rightarrow> t)))
               (filter (\<lambda>n. \<not> (n = orphan_set_name \<and> (mode = ''synthesized'' \<or> mode = ''empty''))) order))
            orphans mode"
    by (rule compile_ok_steps)
  let ?names = "sd_name ` set defs"
  let ?order = "filter (\<lambda>n. \<not> (n = orphan_set_name \<and> (mode = ''synthesized'' \<or> mode = ''empty''))) order"
  note fp = first_pass [OF st0 assms(1) syn]
  note o = topological_order_ok [OF ord]
  note sy = synthesize_orphans_fields [OF syn]
  note cd = compile_defs_ok [OF st0 assms(1)]
  have keys: "set order \<subseteq> fst ` set (co_deps st)"
    using topological_order_keys [OF ord _ fp(2)] fp(1) by (simp add: tables_ok_def)
  have mode: "mode = ''synthesized'' \<or> mode = ''empty'' \<longleftrightarrow> co_orphans st \<and> orphan_set_name \<notin> ?names"
    using sy(1,4,5) by auto
  have set_order: "set ?order = ?names"
  proof (cases "co_orphans st \<and> orphan_set_name \<notin> ?names")
    case True
    with o(3) keys show ?thesis unfolding fp(3) mode by (simp add: set_eq_iff) blast
  next
    case False
    with o(3) keys show ?thesis unfolding fp(3) mode by auto
  qed
  have names: "map cs_name (pr_sets p) = ?order"
    unfolding p pr_sets_compute_support by (simp add: comp_def)
  have sets: "\<exists>d\<in>set defs. \<exists>n. cs_name s = sd_name d \<and> cs_dsl s = sd_dsl d \<and>
       parse_dsl (sd_dsl d) = Inr n \<and> D (sd_name d) = sem D (resolved resolve n) \<and>
       combos (cs_root s) = (case D (sd_name d) of None \<Rightarrow> {} | Some A \<Rightarrow> A)" if "s \<in> set (pr_sets p)" for s
  proof -
    have "\<exists>n\<in>set ?order. cs_name s = n \<and>
        cs_dsl s = (case map_of (co_dsl st) n of None \<Rightarrow> '''' | Some d \<Rightarrow> d) \<and>
        cs_root s = (case map_of env n of None \<Rightarrow> LEmpty | Some t \<Rightarrow> t)"
      using that unfolding p pr_sets_compute_support by auto
    then obtain n where n: "n \<in> set ?order" and s: "cs_name s = n"
      "cs_dsl s = (case map_of (co_dsl st) n of None \<Rightarrow> '''' | Some d \<Rightarrow> d)"
      "cs_root s = (case map_of env n of None \<Rightarrow> LEmpty | Some t \<Rightarrow> t)"
      by blast
    from n have "n \<in> ?names" unfolding set_order .
    then obtain d where d: "d \<in> set defs" "n = sd_name d" by blast
    with fp(4) obtain m where m: "parse_dsl (sd_dsl d) = Inr m"
      "map_of (co_roots st) n = Some (resolved resolve m)" "map_of (co_dsl st) n = Some (sd_dsl d)"
      unfolding entry_ok_def def_ok_def by blast
    from n D obtain r0 t where t: "map_of (co_roots st) n = Some r0" "map_of env n = Some t"
      "D n = sem D r0" "combos t = (case D n of None \<Rightarrow> {} | Some A \<Rightarrow> A)" by auto
    with m(2) have t': "D n = sem D (resolved resolve m)" by simp
    have "cs_root s = t" "cs_dsl s = sd_dsl d" using s(2,3) t(2) m(3) by simp_all
    with d m(1) s(1) t(4) t' show ?thesis by (intro bexI [of _ d] exI [of _ m]) simp_all
  qed
  have orph: "D orphan_set_name = (if unreferenced defs resolve all_models = [] then None
         else Some ((\<lambda>m. {m}) ` set (unreferenced defs resolve all_models)))"
    if ex: "\<exists>d\<in>set defs. orphan_set_name \<in> set (node_refs (parsed d))" and "orphan_set_name \<notin> ?names"
  proof -
    have co: "co_orphans st0" using cd ex by (simp add: start_state_def)
    have "orphans = unreferenced defs resolve all_models" 
      using sy(5) [OF co] that(2) cd by (simp add: unreferenced_def start_state_def)
    moreover from ex obtain d where d: "d \<in> set defs" "(sd_name d, orphan_set_name) \<in> ref_rel defs"
      by (auto simp: ref_rel_def)
    then have "orphan_set_name \<in> set (deps_of (co_deps st) (sd_name d))"
      unfolding fp(5) [symmetric] edges_def by simp
    moreover obtain pre post where "order = pre @ sd_name d # post"
      using d(1) o(3) by (metis image_subset_iff split_list)
    ultimately have "orphan_set_name \<in> set order" using o(2) unfolding topo_sorted_def by fastforce
    with D obtain r0 where "map_of (co_roots st) orphan_set_name = Some r0" "D orphan_set_name = sem D r0"
      by blast
    moreover have "map_of (co_roots st) orphan_set_name = Some (build_model_set orphans)"
      using sy(5) [OF co] that(2) by simp
    ultimately have "D orphan_set_name = sem D (build_model_set orphans)" by simp
    then show ?thesis unfolding \<open>orphans = _\<close> sem_build_model_set .
  qed
  have "distinct (map cs_name (pr_sets p))" "cs_name ` set (pr_sets p) = ?names"
    using names o(1) set_order by (simp_all flip: set_map)
  with sets orph show ?thesis by (intro exI [of _ D]) blast
qed

theorem compile_meaning_witness:
  "(let defs = [\<lparr>sd_name = ''a'', sd_dsl = ''x & +auto:orphans''\<rparr>];
        p = \<lparr>pr_sets = [\<lparr>cs_name = ''a'', cs_dsl = ''x & +auto:orphans'',
               cs_root = LAnd [LLeaf ''x'', LRef (LLeaf ''y'')], cs_support = [3]\<rparr>],
             pr_bits = [(''x'', 0), (''y'', 1)], pr_words = 1, pr_orphans = [''y''], pr_mode = ''synthesized''\<rparr> in
    compile defs Some [''x'', ''y''] = Inr p \<and> cs_name ` set (pr_sets p) = sd_name ` set defs)"
proof -
  let ?defs = "[\<lparr>sd_name = ''a'', sd_dsl = ''x & +auto:orphans''\<rparr>]"
  let ?p = "\<lparr>pr_sets = [\<lparr>cs_name = ''a'', cs_dsl = ''x & +auto:orphans'',
               cs_root = LAnd [LLeaf ''x'', LRef (LLeaf ''y'')], cs_support = [3]\<rparr>],
             pr_bits = [(''x'', 0), (''y'', 1)], pr_words = 1, pr_orphans = [''y''], pr_mode = ''synthesized''\<rparr>"
  have c: "compile ?defs Some [''x'', ''y''] = Inr ?p" by code_simp
  have d: "distinct (map sd_name ?defs)" by simp
  from compile_meaning [OF d c] have "cs_name ` set (pr_sets ?p) = sd_name ` set ?defs"
    by (elim exE conjE) simp_all
  with c show ?thesis by (simp only: Let_def simp_thms)
qed

text \<open>
  \<open>Compile\<close> accepts exactly the well-formed definitions: at least one set, every text parses,
  every identifier resolves, every reference names a defined set (or \<open>auto:orphans\<close>), and no
  set reaches itself through references.
\<close>
lemma compile_accepts_iff:
  assumes "distinct (map sd_name defs)"
  shows "(\<exists>p. compile defs resolve all_models = Inr p) \<longleftrightarrow>
    defs \<noteq> [] \<and> (\<forall>d\<in>set defs. \<exists>n. def_ok (map sd_name defs) resolve d n) \<and> acyclic (ref_rel defs)"
proof
  assume "\<exists>p. compile defs resolve all_models = Inr p"
  then obtain p where c: "compile defs resolve all_models = Inr p" by blast
  with assms obtain st0 st orphans mode order where
    st0: "foldE (compile_def (map sd_name defs) resolve) defs start_state = Inr st0" and
    syn: "synthesize_orphans (map sd_name defs) all_models st0 = (st, orphans, mode)" and
    ord: "topological_order defs (co_deps st) = Inr order"
    by (rule compile_ok_steps)
  note fp = first_pass [OF st0 assms(1) syn]
  note o = topological_order_ok [OF ord]
  have "\<forall>d\<in>set defs. \<exists>n. def_ok (map sd_name defs) resolve d n"
    using fp(4) unfolding entry_ok_def by blast
  moreover have "(a, a) \<notin> (ref_rel defs)\<^sup>+" for a
  proof
    assume a: "(a, a) \<in> (ref_rel defs)\<^sup>+"
    then have "a \<in> sd_name ` set defs" by (induction rule: converse_trancl_induct) (auto simp: ref_rel_def)
    with o(3) have "a \<in> set order" by blast
    with topo_sorted_acyclic [OF o(2)] a fp(5) show False by force
  qed
  moreover have "defs \<noteq> []" using c by (auto simp: compile_def)
  ultimately show "defs \<noteq> [] \<and> (\<forall>d\<in>set defs. \<exists>n. def_ok (map sd_name defs) resolve d n) \<and> acyclic (ref_rel defs)"
    by (auto simp: acyclic_def)
next
  assume ok: "defs \<noteq> [] \<and> (\<forall>d\<in>set defs. \<exists>n. def_ok (map sd_name defs) resolve d n) \<and> acyclic (ref_rel defs)"
  obtain st0 where st0: "foldE (compile_def (map sd_name defs) resolve) defs start_state = Inr st0"
    using compile_defs_exists ok by blast
  obtain st orphans mode where syn: "synthesize_orphans (map sd_name defs) all_models st0 = (st, orphans, mode)"
    by (cases "synthesize_orphans (map sd_name defs) all_models st0")
  note fp = first_pass [OF st0 assms(1) syn]
  obtain order where ord: "topological_order defs (co_deps st) = Inr order"
  proof (cases "topological_order defs (co_deps st)")
    case (Inl e)
    have "deps_closed (co_deps st)" using fp(1) by (simp add: tables_ok_def)
    from topological_order_error [OF Inl this fp(2)] fp(5) ok show ?thesis
      by (auto simp: acyclic_def)
  qed
  from later_passes [OF st0 assms syn ord] ok st0 syn ord
  show "\<exists>p. compile defs resolve all_models = Inr p" by (auto simp: compile_steps)
qed

end
