(* ===== verification/MatrixSolve.thy ===== *)
theory MatrixSolve
  imports MatrixSem
begin

text \<open>
  The queries of a compiled program (\<open>internal/matrix/program.go\<close>: \<open>Solve\<close>,
  \<open>CanContainAll\<close>, \<open>findContaining\<close>, \<open>supportsAll\<close>) and the matrix swapper of
  \<open>internal/router/matrix.go\<close> with its one-entry decision cache. The theorems compare the
  search over projected frontiers with the full expansion of every set.
\<close>

record decision =
  de_evict :: "string list"
  de_target_set :: "string list"
  de_set_name :: string
  de_dsl :: string
  de_total_cost :: int

type_synonym costs = "(string \<times> int) list"

definition eviction_cost :: "costs \<Rightarrow> string \<Rightarrow> int" where
  "eviction_cost costs m = (case map_of costs m of Some c \<Rightarrow> c | None \<Rightarrow> 1)"

text \<open>A model's bit as the map read gives it: 0 for a model the map does not have.\<close>

definition bit_of :: "(string \<times> nat) list \<Rightarrow> string \<Rightarrow> nat" where
  "bit_of bits m = (case map_of bits m of Some b \<Rightarrow> b | None \<Rightarrow> 0)"

definition supports_all :: "program \<Rightarrow> compiled_set \<Rightarrow> string list \<Rightarrow> bool" where
  "supports_all p s models =
     list_all (\<lambda>m. case map_of (pr_bits p) m of None \<Rightarrow> False | Some b \<Rightarrow> mask_has (cs_support s) b) models"

definition contains_required :: "program \<Rightarrow> string list \<Rightarrow> compiled_set \<Rightarrow> bool" where
  "contains_required p models s =
     (let e = new_evaluator models in
      supports_all p s models \<and>
      list_ex (\<lambda>st. mask_subset (full_mask e) (ps_mask st)) (evaluate e (cs_root s)))"

definition can_contain_all :: "program \<Rightarrow> string list \<Rightarrow> bool" where
  "can_contain_all p models = (models = [] \<or> list_ex (contains_required p models) (pr_sets p))"

definition find_containing :: "program \<Rightarrow> string list \<Rightarrow> string \<times> string" where
  "find_containing p models =
     (if models = [] then ('''', '''')
      else case find (contains_required p models) (pr_sets p) of
        None \<Rightarrow> ('''', '''') | Some s \<Rightarrow> (cs_name s, cs_dsl s))"

definition state_cost :: "evaluator \<Rightarrow> costs \<Rightarrow> string list \<Rightarrow> pstate \<Rightarrow> int" where
  "state_cost e costs running st =
     foldl (\<lambda>cost m. if \<not> mask_has (ps_mask st) (bit_of (ev_bits e) m)
                      then wrap64 (cost + eviction_cost costs m) else cost) 0 running"

text \<open>
  The search of \<open>Solve\<close>: the best cost so far (\<open>-1\<close>: none yet) with the set and the state
  that reach it.
\<close>

type_synonym best = "int \<times> (compiled_set \<times> pstate) option"

definition solve_state :: "evaluator \<Rightarrow> costs \<Rightarrow> string \<Rightarrow> string list \<Rightarrow> compiled_set \<Rightarrow> best \<Rightarrow> pstate \<Rightarrow> best" where
  "solve_state e costs target running s best st =
     (if \<not> mask_has (ps_mask st) (bit_of (ev_bits e) target) then best
      else (let cost = state_cost e costs running st in
            if fst best < 0 \<or> cost < fst best then (cost, Some (s, st)) else best))"

definition solve_set :: "program \<Rightarrow> evaluator \<Rightarrow> costs \<Rightarrow> string \<Rightarrow> string list \<Rightarrow> best \<Rightarrow> compiled_set \<Rightarrow> best" where
  "solve_set p e costs target running best s =
     (case map_of (pr_bits p) target of
        None \<Rightarrow> best
      | Some b \<Rightarrow> if \<not> mask_has (cs_support s) b then best
                  else foldl (solve_state e costs target running s) best (evaluate e (cs_root s)))"

definition solve :: "program \<Rightarrow> string \<Rightarrow> string list \<Rightarrow> costs \<Rightarrow> decision" where
  "solve p target running costs =
     (if target \<in> set running then
        (let (name, dsl) = find_containing p running in
         \<lparr>de_evict = [], de_target_set = running, de_set_name = name, de_dsl = dsl, de_total_cost = 0\<rparr>)
      else
        (let e = new_evaluator (target # running);
             best = foldl (solve_set p e costs target running) (-1, None) (pr_sets p)
         in case snd best of
              None \<Rightarrow> \<lparr>de_evict = running, de_target_set = [target], de_set_name = '''',
                       de_dsl = '''', de_total_cost = 0\<rparr>
            | Some (s, st) \<Rightarrow>
                \<lparr>de_evict = filter (\<lambda>m. \<not> mask_has (ps_mask st) (bit_of (ev_bits e) m)) running,
                 de_target_set = flatten_witness (ps_wit st), de_set_name = cs_name s,
                 de_dsl = cs_dsl s, de_total_cost = fst best\<rparr>))"

lemma bits_wf_surj:
  assumes "bits_wf bits" and "b < length bits"
  shows "\<exists>m. map_of bits m = Some b"
proof -
  have "map snd bits ! b = b" using assms by (simp add: bits_wf_def)
  then have "snd (bits ! b) = b" using assms(2) by simp
  then have "(fst (bits ! b), b) \<in> set bits" using assms(2) by (metis nth_mem prod.collapse)
  with assms(1) show ?thesis by (auto simp: bits_wf_def intro: map_of_is_SomeI)
qed

section \<open>The support masks\<close>

lemma product_sets_sub:
  "list_all2 (\<lambda>A M. \<forall>S\<in>A. S \<subseteq> M) As Ms \<Longrightarrow> S \<in> product_sets As \<Longrightarrow> S \<subseteq> \<Union>(set Ms)"
proof (induction arbitrary: S rule: list_all2_induct)
  case (Cons A As M Ms)
  from Cons.prems obtain a b where ab: "S = a \<union> b" "a \<in> A" "b \<in> product_sets As" by auto
  have "a \<subseteq> M" using Cons.hyps(1) ab(2) by blast
  moreover have "b \<subseteq> \<Union>(set Ms)" using Cons.IH ab(3) by blast
  ultimately show ?case using ab(1) by auto
qed simp

lemma combos_models: "S \<in> combos t \<Longrightarrow> S \<subseteq> set (lnode_models t)"
proof (induction t arbitrary: S)
  case (LAnd cs)
  have "list_all2 (\<lambda>A M. \<forall>S\<in>A. S \<subseteq> M) (map combos cs) (map (\<lambda>c. set (lnode_models c)) cs)"
    using LAnd.IH by (auto simp: list_all2_map1 list_all2_map2 list_all2_same)
  from product_sets_sub [OF this] LAnd.prems show ?case by fastforce
next
  case (LOr cs)
  then show ?case by fastforce
qed auto

lemma support_mask_bits:
  assumes "\<forall>m\<in>set models. \<exists>b<64 * words. map_of bits m = Some b"
  shows "length (support_mask bits words models) = words \<and>
    mask_bits (support_mask bits words models) = {b. \<exists>m\<in>set models. map_of bits m = Some b}"
proof -
  have "length (foldl (\<lambda>mask m. case map_of bits m of Some b \<Rightarrow> mask_set b mask | None \<Rightarrow> mask) mask models) = length mask \<and>
      mask_bits (foldl (\<lambda>mask m. case map_of bits m of Some b \<Rightarrow> mask_set b mask | None \<Rightarrow> mask) mask models) =
      mask_bits mask \<union> {b. \<exists>m\<in>set models. map_of bits m = Some b}"
    if "length mask = words" for mask
    using assms that
  proof (induction models arbitrary: mask)
    case (Cons m ms)
    then obtain b where b: "b < 64 * words" "map_of bits m = Some b" by auto
    with Cons.IH [of "mask_set b mask"] Cons.prems show ?case by auto
  qed simp
  from this [of "mask_empty words"] show ?thesis by (simp add: support_mask_def)
qed

definition program_ok :: "program \<Rightarrow> bool" where
  "program_ok p \<longleftrightarrow> (\<forall>s\<in>set (pr_sets p). \<forall>m. 
     (case map_of (pr_bits p) m of None \<Rightarrow> False | Some b \<Rightarrow> mask_has (cs_support s) b) \<longleftrightarrow>
     m \<in> set (lnode_models (cs_root s)))"

lemma compute_support_ok: "program_ok (compute_support sets orphans mode)"
proof -
  let ?all = "concat (map (\<lambda>(n, d, t). lnode_models t) sets)"
  let ?bits = "assign_bits ?all"
  let ?words = "mask_words (length ?bits)"
  have wf: "bits_wf ?bits" by (rule assign_bits_wf)
  have bound: "map_of ?bits m = Some b \<Longrightarrow> b < 64 * ?words" for m b
    using bits_wf_lookup [OF wf] mask_words_enough by blast
  have "(case map_of ?bits m of None \<Rightarrow> False | Some b \<Rightarrow> mask_has (support_mask ?bits ?words (lnode_models t)) b) \<longleftrightarrow>
      m \<in> set (lnode_models t)" if t: "(n, d, t) \<in> set sets" for n d t m
  proof -
    have sub: "set (lnode_models t) \<subseteq> set ?all" using t by force
    have dom: "\<exists>b<64 * ?words. map_of ?bits x = Some b" if "x \<in> set ?all" for x
    proof -
      have "x \<in> dom (map_of ?bits)" unfolding dom_assign_bits using that .
      then show ?thesis using bound by blast
    qed
    have "\<forall>x\<in>set (lnode_models t). \<exists>b<64 * ?words. map_of ?bits x = Some b" using dom sub by blast
    note sm = support_mask_bits [OF this]
    show ?thesis
    proof (cases "map_of ?bits m")
      case None
      with dom sub show ?thesis by force
    next
      case (Some b)
      with bound sm have "mask_has (support_mask ?bits ?words (lnode_models t)) b \<longleftrightarrow>
          (\<exists>x\<in>set (lnode_models t). map_of ?bits x = Some b)" by (simp add: mask_has_iff)
      also have "\<dots> \<longleftrightarrow> m \<in> set (lnode_models t)" using bits_wf_inj [OF wf] Some by blast
      finally show ?thesis using Some by simp
    qed
  qed
  note main = this
  have bits: "pr_bits (compute_support sets orphans mode) = ?bits"
    by (simp add: compute_support_def Let_def)
  show ?thesis unfolding program_ok_def bits
  proof (intro ballI allI)
    fix s m assume "s \<in> set (pr_sets (compute_support sets orphans mode))"
    then have "s \<in> (\<lambda>(n, d, t). \<lparr>cs_name = n, cs_dsl = d, cs_root = t,
        cs_support = support_mask ?bits ?words (lnode_models t)\<rparr>) ` set sets"
      by (simp add: compute_support_def Let_def)
    then obtain x where x: "x \<in> set sets" "s = (\<lambda>(n, d, t). \<lparr>cs_name = n, cs_dsl = d, cs_root = t,
        cs_support = support_mask ?bits ?words (lnode_models t)\<rparr>) x" by (rule imageE)
    obtain n d t where ndt: "x = (n, d, t)" by (cases x)
    have t: "(n, d, t) \<in> set sets" using x(1) unfolding ndt .
    have c: "cs_root s = t" "cs_support s = support_mask ?bits ?words (lnode_models t)"
      unfolding x(2) ndt prod.case compiled_set.select_convs by (rule refl)+
    show "(case map_of ?bits m of None \<Rightarrow> False | Some b \<Rightarrow> mask_has (cs_support s) b) \<longleftrightarrow>
        m \<in> set (lnode_models (cs_root s))"
      unfolding c by (rule main [OF t])
  qed
qed

lemma compile_program_ok:
  assumes "distinct (map sd_name defs)" and "compile defs resolve all_models = Inr p"
  shows "program_ok p"
  by (rule compile_ok_steps [OF assms]) (simp only: compute_support_ok)

lemma supports_all_iff:
  "program_ok p \<Longrightarrow> s \<in> set (pr_sets p) \<Longrightarrow> supports_all p s models \<longleftrightarrow> set models \<subseteq> set (lnode_models (cs_root s))"
  by (auto simp: supports_all_def list_all_iff program_ok_def)

section \<open>Membership queries\<close>

lemma contains_required_iff:
  assumes "program_ok p" and "s \<in> set (pr_sets p)"
  shows "contains_required p models s \<longleftrightarrow> (\<exists>S\<in>combos (cs_root s). set models \<subseteq> S)"
proof -
  let ?e = "new_evaluator models"
  have wf: "ev_wf ?e" by simp
  note fm = full_mask_bits [OF wf]
  note cov = evaluate_frontier [OF wf, of "cs_root s"]
  have all: "set models \<subseteq> S \<longleftrightarrow> {..<length (ev_bits ?e)} \<subseteq> proj ?e S" for S
  proof
    assume S: "set models \<subseteq> S"
    have b: "\<exists>m. map_of (ev_bits ?e) m = Some b" if "b < length (ev_bits ?e)" for b
      using bits_wf_surj [OF _ that] wf by (simp add: ev_wf_def)
    then show "{..<length (ev_bits ?e)} \<subseteq> proj ?e S"
      using S dom_new_evaluator [of models] by (fastforce simp: proj_def)
  next
    assume S: "{..<length (ev_bits ?e)} \<subseteq> proj ?e S"
    show "set models \<subseteq> S"
    proof
      fix m assume "m \<in> set models"
      then obtain b where b: "map_of (ev_bits ?e) m = Some b"
        using dom_new_evaluator [of models] by (metis domD)
      with wf have "b < length (ev_bits ?e)" using bits_wf_lookup by (auto simp: ev_wf_def)
      with S have "b \<in> proj ?e S" by blast
      with proj_mem_iff [OF wf b] show "m \<in> S" by blast
    qed
  qed
  have len: "length (ps_mask st) = ev_words ?e" if "st \<in> set (evaluate ?e (cs_root s))" for st
    using cov that by (auto simp: covers_def state_of_def)
  have "(\<exists>st\<in>set (evaluate ?e (cs_root s)). {..<length (ev_bits ?e)} \<subseteq> mask_bits (ps_mask st)) \<longleftrightarrow>
      (\<exists>S\<in>combos (cs_root s). set models \<subseteq> S)"
  proof
    assume "\<exists>st\<in>set (evaluate ?e (cs_root s)). {..<length (ev_bits ?e)} \<subseteq> mask_bits (ps_mask st)"
    then obtain st where st: "st \<in> set (evaluate ?e (cs_root s))"
      "{..<length (ev_bits ?e)} \<subseteq> mask_bits (ps_mask st)" by blast
    with cov obtain S where "S \<in> combos (cs_root s)" "mask_bits (ps_mask st) = proj ?e S"
      unfolding covers_def state_of_def by blast
    with st(2) show "\<exists>S\<in>combos (cs_root s). set models \<subseteq> S" unfolding all by blast
  next
    assume "\<exists>S\<in>combos (cs_root s). set models \<subseteq> S"
    then obtain S where S: "S \<in> combos (cs_root s)" "{..<length (ev_bits ?e)} \<subseteq> proj ?e S"
      unfolding all by blast
    with cov obtain st where "st \<in> set (evaluate ?e (cs_root s))" "proj ?e S \<subseteq> mask_bits (ps_mask st)"
      unfolding covers_def by blast
    with S(2) show "\<exists>st\<in>set (evaluate ?e (cs_root s)). {..<length (ev_bits ?e)} \<subseteq> mask_bits (ps_mask st)"
      by blast
  qed
  moreover have "supports_all p s models" if "\<exists>S\<in>combos (cs_root s). set models \<subseteq> S"
    using that combos_models supports_all_iff [OF assms] by blast
  ultimately show ?thesis
    using len fm by (auto simp: contains_required_def Let_def list_ex_iff)
qed

section \<open>The search finds the cheapest state, the first set winning ties\<close>

definition keep_best :: "('b \<Rightarrow> bool) \<Rightarrow> ('b \<Rightarrow> int) \<Rightarrow> 'a \<Rightarrow> int \<times> ('a \<times> 'b) option \<Rightarrow> 'b \<Rightarrow> int \<times> ('a \<times> 'b) option" where
  "keep_best P f s best st =
     (if \<not> P st then best
      else if fst best < 0 \<or> f st < fst best then (f st, Some (s, st)) else best)"

lemma keep_best_take:
  "P st \<and> (fst b < 0 \<or> f st < fst b) \<Longrightarrow> keep_best P f s b st = (f st, Some (s, st))"
  and keep_best_skip: "\<not> (P st \<and> (fst b < 0 \<or> f st < fst b)) \<Longrightarrow> keep_best P f s b st = b"
  by (auto simp: keep_best_def)

lemma keep_best_inner:
  assumes "\<forall>st\<in>set sts. P st \<longrightarrow> 0 \<le> f st"
  shows "(foldl (keep_best P f s) b sts = b \<and> (\<forall>st\<in>set sts. P st \<longrightarrow> 0 \<le> fst b \<and> fst b \<le> f st)) \<or>
    (\<exists>st\<in>set sts. P st \<and> foldl (keep_best P f s) b sts = (f st, Some (s, st)) \<and>
       (fst b < 0 \<or> f st < fst b) \<and> (\<forall>st'\<in>set sts. P st' \<longrightarrow> f st \<le> f st'))"
  using assms
proof (induction sts rule: rev_induct)
  case (snoc x xs)
  let ?r = "foldl (keep_best P f s) b xs"
  have IH: "(?r = b \<and> (\<forall>st\<in>set xs. P st \<longrightarrow> 0 \<le> fst b \<and> fst b \<le> f st)) \<or>
      (\<exists>st\<in>set xs. P st \<and> ?r = (f st, Some (s, st)) \<and> (fst b < 0 \<or> f st < fst b) \<and>
         (\<forall>st'\<in>set xs. P st' \<longrightarrow> f st \<le> f st'))" using snoc by simp
  have fx: "P x \<Longrightarrow> 0 \<le> f x" using snoc.prems by simp
  have r: "foldl (keep_best P f s) b (xs @ [x]) = keep_best P f s ?r x" by simp
  from IH show ?case
  proof (elim disjE)
    assume a: "?r = b \<and> (\<forall>st\<in>set xs. P st \<longrightarrow> 0 \<le> fst b \<and> fst b \<le> f st)"
    show ?thesis
    proof (cases "P x \<and> (fst b < 0 \<or> f x < fst b)")
      case True
      have "\<forall>st'\<in>set (xs @ [x]). P st' \<longrightarrow> f x \<le> f st'" using a True by fastforce
      moreover have "foldl (keep_best P f s) b (xs @ [x]) = (f x, Some (s, x))"
        unfolding r conjunct1 [OF a] by (rule keep_best_take) (rule True)
      ultimately show ?thesis using True by (intro disjI2 bexI [of _ x]) simp_all
    next
      case False
      have "foldl (keep_best P f s) b (xs @ [x]) = b"
        unfolding r conjunct1 [OF a] by (rule keep_best_skip) (rule False)
      with a False show ?thesis by (intro disjI1) auto
    qed
  next
    assume "\<exists>st\<in>set xs. P st \<and> ?r = (f st, Some (s, st)) \<and> (fst b < 0 \<or> f st < fst b) \<and>
         (\<forall>st'\<in>set xs. P st' \<longrightarrow> f st \<le> f st')"
    then obtain st where st: "st \<in> set xs" "P st" "?r = (f st, Some (s, st))"
      "fst b < 0 \<or> f st < fst b" "\<forall>st'\<in>set xs. P st' \<longrightarrow> f st \<le> f st'" by blast
    have f0: "0 \<le> f st" using snoc.prems st(1,2) by simp
    show ?thesis
    proof (cases "P x \<and> f x < f st")
      case True
      have "\<forall>st'\<in>set (xs @ [x]). P st' \<longrightarrow> f x \<le> f st'" using st(5) True by fastforce
      moreover have "foldl (keep_best P f s) b (xs @ [x]) = (f x, Some (s, x))"
        unfolding r st(3) by (rule keep_best_take) (use True in simp)
      moreover have "fst b < 0 \<or> f x < fst b" using st(4) True by auto
      ultimately show ?thesis using True by (intro disjI2 bexI [of _ x]) simp_all
    next
      case False
      have "foldl (keep_best P f s) b (xs @ [x]) = (f st, Some (s, st))"
        unfolding r st(3) by (rule keep_best_skip) (use False f0 in simp)
      moreover have "\<forall>st'\<in>set (xs @ [x]). P st' \<longrightarrow> f st \<le> f st'" using st(5) False by auto
      ultimately show ?thesis using st by (intro disjI2 bexI [of _ st]) simp_all
    qed
  qed
qed simp

lemma keep_best_outer:
  assumes "\<forall>s\<in>set sets. \<forall>st\<in>set (g s). P st \<longrightarrow> 0 \<le> f st"
  defines "r \<equiv> foldl (\<lambda>b s. foldl (keep_best P f s) b (g s)) (-1, None) sets"
  shows "(r = (-1, None) \<and> (\<forall>s\<in>set sets. \<forall>st\<in>set (g s). \<not> P st)) \<or>
    (\<exists>pre s post st. sets = pre @ s # post \<and> st \<in> set (g s) \<and> P st \<and> r = (f st, Some (s, st)) \<and>
       (\<forall>s'\<in>set pre. \<forall>st'\<in>set (g s'). P st' \<longrightarrow> f st < f st') \<and>
       (\<forall>s'\<in>set sets. \<forall>st'\<in>set (g s'). P st' \<longrightarrow> f st \<le> f st'))"
  using assms(1) unfolding r_def
proof (induction sets rule: rev_induct)
  case (snoc x xs)
  let ?F = "\<lambda>b s. foldl (keep_best P f s) b (g s)"
  let ?b = "foldl ?F (-1, None) xs"
  have IH: "(?b = (-1, None) \<and> (\<forall>s\<in>set xs. \<forall>st\<in>set (g s). \<not> P st)) \<or>
    (\<exists>pre s post st. xs = pre @ s # post \<and> st \<in> set (g s) \<and> P st \<and> ?b = (f st, Some (s, st)) \<and>
       (\<forall>s'\<in>set pre. \<forall>st'\<in>set (g s'). P st' \<longrightarrow> f st < f st') \<and>
       (\<forall>s'\<in>set xs. \<forall>st'\<in>set (g s'). P st' \<longrightarrow> f st \<le> f st'))" using snoc by simp
  have "\<forall>st\<in>set (g x). P st \<longrightarrow> 0 \<le> f st" using snoc.prems by simp
  note inner = keep_best_inner [OF this, of x ?b]
  have r: "foldl ?F (-1, None) (xs @ [x]) = foldl (keep_best P f x) ?b (g x)" by simp
  from IH show ?case
  proof (elim disjE)
    assume a: "?b = (-1, None) \<and> (\<forall>s\<in>set xs. \<forall>st\<in>set (g s). \<not> P st)"
    from inner show ?thesis
    proof (elim disjE)
      assume "foldl (keep_best P f x) ?b (g x) = ?b \<and> (\<forall>st\<in>set (g x). P st \<longrightarrow> 0 \<le> fst ?b \<and> fst ?b \<le> f st)"
      with a r show ?thesis by (intro disjI1) auto
    next
      assume "\<exists>st\<in>set (g x). P st \<and> foldl (keep_best P f x) ?b (g x) = (f st, Some (x, st)) \<and>
         (fst ?b < 0 \<or> f st < fst ?b) \<and> (\<forall>st'\<in>set (g x). P st' \<longrightarrow> f st \<le> f st')"
      then obtain st where "st \<in> set (g x)" "P st" "foldl (keep_best P f x) ?b (g x) = (f st, Some (x, st))"
        "\<forall>st'\<in>set (g x). P st' \<longrightarrow> f st \<le> f st'" by blast
      with a r show ?thesis
        by (intro disjI2 exI [of _ xs] exI [of _ x] exI [of _ "[]"] exI [of _ st]) auto
    qed
  next
    assume "\<exists>pre s post st. xs = pre @ s # post \<and> st \<in> set (g s) \<and> P st \<and> ?b = (f st, Some (s, st)) \<and>
       (\<forall>s'\<in>set pre. \<forall>st'\<in>set (g s'). P st' \<longrightarrow> f st < f st') \<and>
       (\<forall>s'\<in>set xs. \<forall>st'\<in>set (g s'). P st' \<longrightarrow> f st \<le> f st')"
    then obtain pre s post st where b: "xs = pre @ s # post" "st \<in> set (g s)" "P st"
      "?b = (f st, Some (s, st))" "\<forall>s'\<in>set pre. \<forall>st'\<in>set (g s'). P st' \<longrightarrow> f st < f st'"
      "\<forall>s'\<in>set xs. \<forall>st'\<in>set (g s'). P st' \<longrightarrow> f st \<le> f st'" by blast
    have f0: "0 \<le> f st" using snoc.prems b(1,2,3) by simp
    from inner show ?thesis
    proof (elim disjE)
      assume i: "foldl (keep_best P f x) ?b (g x) = ?b \<and> (\<forall>st\<in>set (g x). P st \<longrightarrow> 0 \<le> fst ?b \<and> fst ?b \<le> f st)"
      have "xs @ [x] = pre @ s # (post @ [x])" using b(1) by simp
      moreover have "\<forall>s'\<in>set (xs @ [x]). \<forall>st'\<in>set (g s'). P st' \<longrightarrow> f st \<le> f st'" using b(4,6) i by auto
      moreover have "foldl ?F (-1, None) (xs @ [x]) = (f st, Some (s, st))" unfolding r using i b(4) by simp
      ultimately show ?thesis using b(2,3,5) by blast
    next
      assume "\<exists>st\<in>set (g x). P st \<and> foldl (keep_best P f x) ?b (g x) = (f st, Some (x, st)) \<and>
         (fst ?b < 0 \<or> f st < fst ?b) \<and> (\<forall>st'\<in>set (g x). P st' \<longrightarrow> f st \<le> f st')"
      then obtain st' where st': "st' \<in> set (g x)" "P st'"
        "foldl (keep_best P f x) ?b (g x) = (f st', Some (x, st'))"
        "fst ?b < 0 \<or> f st' < fst ?b" "\<forall>t\<in>set (g x). P t \<longrightarrow> f st' \<le> f t" by blast
      from st'(4) b(4) f0 have lt: "f st' < f st" by simp
      have "\<forall>s'\<in>set xs. \<forall>t\<in>set (g s'). P t \<longrightarrow> f st' < f t" using b(6) lt by fastforce
      moreover from this have "\<forall>s'\<in>set (xs @ [x]). \<forall>t\<in>set (g s'). P t \<longrightarrow> f st' \<le> f t"
        using st'(5) by fastforce
      ultimately show ?thesis using st'(1,2) unfolding r st'(3) by blast
    qed
  qed
qed simp

section \<open>Projected states and full combinations\<close>

definition evict_cost :: "costs \<Rightarrow> string list \<Rightarrow> string set \<Rightarrow> int" where
  "evict_cost costs running S = sum_list (map (eviction_cost costs) (filter (\<lambda>m. m \<notin> S) running))"

lemma fold_wrap_sum:
  assumes "\<forall>m\<in>set ms. 0 \<le> f m" and "0 \<le> c" and "c + sum_list (map f ms) < 2 ^ 63"
  shows "foldl (\<lambda>cost m. if Q m then wrap64 (cost + f m) else cost) c ms = c + sum_list (map f (filter Q ms))"
  using assms
proof (induction ms arbitrary: c)
  case (Cons m ms)
  have n: "0 \<le> sum_list (map f ms)" by (rule sum_list_nonneg) (use Cons.prems(1) in auto)
  moreover have f: "0 \<le> f m" using Cons.prems(1) by simp
  moreover from this have "wrap64 (c + f m) = c + f m"
    using Cons.prems(2,3) n f by (intro wrap64_id) auto
  ultimately show ?case using Cons by (simp add: add.assoc)
qed simp

lemma evict_cost_mono:
  assumes "\<forall>m\<in>set running. 0 \<le> eviction_cost costs m" and "\<forall>m\<in>set running. m \<in> S' \<longrightarrow> m \<in> S"
  shows "evict_cost costs running S \<le> evict_cost costs running S'"
  using assms unfolding evict_cost_def
  by (induction running) (auto intro: add_mono order_trans [OF _ add_increasing])

lemma state_of_has:
  assumes "ev_wf e" and "state_of e st S" and "m \<in> dom (map_of (ev_bits e))"
  shows "mask_has (ps_mask st) (bit_of (ev_bits e) m) \<longleftrightarrow> m \<in> S"
proof -
  from assms(3) obtain b where b: "map_of (ev_bits e) m = Some b" by blast
  with assms(1) have "b < 64 * ev_words e"
    using bits_wf_lookup mask_words_enough by (auto simp: ev_wf_def)
  with assms(2) b have "mask_has (ps_mask st) b \<longleftrightarrow> b \<in> proj e S"
    by (simp add: state_of_def mask_has_iff)
  with proj_mem_iff [OF assms(1) b] b show ?thesis by (simp add: bit_of_def)
qed

lemma state_of_cost:
  assumes "ev_wf e" and "state_of e st S" and "set running \<subseteq> dom (map_of (ev_bits e))"
    and "\<forall>m\<in>set running. 0 \<le> eviction_cost costs m"
    and "sum_list (map (eviction_cost costs) running) < 2 ^ 63"
  shows "state_cost e costs running st = evict_cost costs running S"
    and "filter (\<lambda>m. \<not> mask_has (ps_mask st) (bit_of (ev_bits e) m)) running = filter (\<lambda>m. m \<notin> S) running"
proof -
  have has: "mask_has (ps_mask st) (bit_of (ev_bits e) m) \<longleftrightarrow> m \<in> S" if "m \<in> set running" for m
    using state_of_has [OF assms(1,2)] assms(3) that by blast
  then show f: "filter (\<lambda>m. \<not> mask_has (ps_mask st) (bit_of (ev_bits e) m)) running = filter (\<lambda>m. m \<notin> S) running"
    by (intro filter_cong) auto
  show "state_cost e costs running st = evict_cost costs running S"
    using fold_wrap_sum [OF assms(4), of 0] assms(5) f
    by (simp add: state_cost_def evict_cost_def)
qed

lemma frontier_dominates:
  assumes "ev_wf e" and "covers e states C" and "S' \<in> C"
  obtains st S where "st \<in> set states" "S \<in> C" "state_of e st S"
    "\<forall>m\<in>dom (map_of (ev_bits e)). m \<in> S' \<longrightarrow> m \<in> S"
proof -
  from assms(2,3) obtain st where st: "st \<in> set states" "proj e S' \<subseteq> mask_bits (ps_mask st)"
    unfolding covers_def by blast
  from assms(2) st(1) obtain S where S: "S \<in> C" "state_of e st S" unfolding covers_def by blast
  have "\<forall>m\<in>dom (map_of (ev_bits e)). m \<in> S' \<longrightarrow> m \<in> S"
  proof (intro ballI impI)
    fix m assume "m \<in> dom (map_of (ev_bits e))" "m \<in> S'"
    then obtain b where b: "map_of (ev_bits e) m = Some b" by blast
    with \<open>m \<in> S'\<close> have "b \<in> proj e S'" using proj_mem_iff [OF assms(1) b] by blast
    with st(2) S(2) have "b \<in> proj e S" by (auto simp: state_of_def)
    with proj_mem_iff [OF assms(1) b] show "m \<in> S" by blast
  qed
  with that st(1) S show ?thesis by blast
qed

section \<open>Solve\<close>

text \<open>
  The states \<open>Solve\<close> compares for one set: those of the evaluator, none where the support
  mask rules the target out.
\<close>

definition solve_states :: "program \<Rightarrow> evaluator \<Rightarrow> string \<Rightarrow> compiled_set \<Rightarrow> pstate list" where
  "solve_states p e target s =
     (if (case map_of (pr_bits p) target of None \<Rightarrow> False | Some b \<Rightarrow> mask_has (cs_support s) b)
      then evaluate e (cs_root s) else [])"

lemma solve_loop:
  "foldl (solve_set p e costs target running) b sets =
   foldl (\<lambda>b s. foldl (keep_best (\<lambda>st. mask_has (ps_mask st) (bit_of (ev_bits e) target))
      (state_cost e costs running) s) b (solve_states p e target s)) b sets"
proof -
  have "solve_state e costs target running s =
      keep_best (\<lambda>st. mask_has (ps_mask st) (bit_of (ev_bits e) target)) (state_cost e costs running) s" for s
    by (intro ext) (simp add: solve_state_def keep_best_def Let_def)
  then have "solve_set p e costs target running b s =
      foldl (keep_best (\<lambda>st. mask_has (ps_mask st) (bit_of (ev_bits e) target))
        (state_cost e costs running) s) b (solve_states p e target s)" for b s
    by (simp add: solve_set_def solve_states_def split: option.splits)
  then show ?thesis by (induction sets arbitrary: b) simp_all
qed

lemma solve_best:
  assumes ok: "program_ok p" and new: "target \<notin> set running"
    and nonneg: "\<forall>m\<in>set running. 0 \<le> eviction_cost costs m"
    and bound: "sum_list (map (eviction_cost costs) running) < 2 ^ 63"
  defines "d \<equiv> solve p target running costs"
  shows "((\<forall>s\<in>set (pr_sets p). \<forall>S\<in>combos (cs_root s). target \<notin> S) \<and>
      d = \<lparr>de_evict = running, de_target_set = [target], de_set_name = '''', de_dsl = '''', de_total_cost = 0\<rparr>) \<or>
    (\<exists>pre s post S. pr_sets p = pre @ s # post \<and> S \<in> combos (cs_root s) \<and> target \<in> S \<and>
       de_set_name d = cs_name s \<and> de_dsl d = cs_dsl s \<and> de_evict d = filter (\<lambda>m. m \<notin> S) running \<and>
       sorted (de_target_set d) \<and> distinct (de_target_set d) \<and> set (de_target_set d) = S - {''''} \<and>
       de_total_cost d = evict_cost costs running S \<and>
       (\<forall>s'\<in>set pre. \<forall>S'\<in>combos (cs_root s'). target \<in> S' \<longrightarrow> evict_cost costs running S < evict_cost costs running S') \<and>
       (\<forall>s'\<in>set (pr_sets p). \<forall>S'\<in>combos (cs_root s'). target \<in> S' \<longrightarrow> evict_cost costs running S \<le> evict_cost costs running S'))"
proof -
  let ?e = "new_evaluator (target # running)"
  let ?P = "\<lambda>st. mask_has (ps_mask st) (bit_of (ev_bits ?e) target)"
  let ?f = "state_cost ?e costs running"
  let ?g = "solve_states p ?e target"
  let ?best = "foldl (solve_set p ?e costs target running) (-1, None) (pr_sets p)"
  have wf: "ev_wf ?e" by simp
  have dom: "dom (map_of (ev_bits ?e)) = insert target (set running)" by simp
  have sub: "set running \<subseteq> dom (map_of (ev_bits ?e))" unfolding dom by blast
  note cov = evaluate_frontier [OF wf]
  have from_state: "\<exists>S\<in>combos (cs_root s). state_of ?e st S \<and> ?f st = evict_cost costs running S \<and>
      (?P st \<longleftrightarrow> target \<in> S) \<and>
      filter (\<lambda>m. \<not> mask_has (ps_mask st) (bit_of (ev_bits ?e) m)) running = filter (\<lambda>m. m \<notin> S) running"
    if "st \<in> set (?g s)" for s st
  proof -
    have "st \<in> set (evaluate ?e (cs_root s))" using that by (auto simp: solve_states_def split: if_splits)
    with cov [of "cs_root s"] obtain S where S: "S \<in> combos (cs_root s)" "state_of ?e st S"
      unfolding covers_def by blast
    have "?P st \<longleftrightarrow> target \<in> S" by (rule state_of_has [OF wf S(2)]) (simp only: dom insertI1)
    with S state_of_cost [OF wf S(2) sub nonneg bound] show ?thesis by blast
  qed
  have to_state: "\<exists>st\<in>set (?g s). ?P st \<and> ?f st \<le> evict_cost costs running S'"
    if s: "s \<in> set (pr_sets p)" and S': "S' \<in> combos (cs_root s)" "target \<in> S'" for s S'
  proof -
    have "target \<in> set (lnode_models (cs_root s))" using combos_models S' by blast
    with ok s have g: "?g s = evaluate ?e (cs_root s)"
      unfolding solve_states_def program_ok_def by simp
    obtain st S where st: "st \<in> set (evaluate ?e (cs_root s))" "S \<in> combos (cs_root s)" "state_of ?e st S"
      "\<forall>m\<in>dom (map_of (ev_bits ?e)). m \<in> S' \<longrightarrow> m \<in> S"
      by (rule frontier_dominates [OF wf cov S'(1)])
    have "?P st \<longleftrightarrow> target \<in> S" by (rule state_of_has [OF wf st(3)]) (simp only: dom insertI1)
    moreover have "target \<in> S" using st(4) S'(2) unfolding dom by blast
    moreover have "?f st = evict_cost costs running S" by (rule state_of_cost [OF wf st(3) sub nonneg bound])
    moreover have "evict_cost costs running S \<le> evict_cost costs running S'"
      by (rule evict_cost_mono [OF nonneg]) (use st(4) sub in blast)
    ultimately show ?thesis using st(1) unfolding g by (intro bexI [of _ st]) simp_all
  qed
  have f0: "\<forall>s\<in>set (pr_sets p). \<forall>st\<in>set (?g s). ?P st \<longrightarrow> 0 \<le> ?f st"
  proof (intro ballI impI)
    fix s st assume "st \<in> set (?g s)"
    from from_state [OF this] obtain S where "?f st = evict_cost costs running S" by blast
    with nonneg show "0 \<le> ?f st" by (auto simp: evict_cost_def intro!: sum_list_nonneg)
  qed
  from keep_best_outer [OF f0] show ?thesis unfolding solve_loop [symmetric]
  proof (elim disjE)
    assume none: "?best = (-1, None) \<and> (\<forall>s\<in>set (pr_sets p). \<forall>st\<in>set (?g s). \<not> ?P st)"
    have "\<forall>s\<in>set (pr_sets p). \<forall>S\<in>combos (cs_root s). target \<notin> S" using none to_state by blast
    with none new show ?thesis by (intro disjI1) (simp add: d_def solve_def Let_def)
  next
    assume "\<exists>pre s post st. pr_sets p = pre @ s # post \<and> st \<in> set (?g s) \<and> ?P st \<and> ?best = (?f st, Some (s, st)) \<and>
       (\<forall>s'\<in>set pre. \<forall>st'\<in>set (?g s'). ?P st' \<longrightarrow> ?f st < ?f st') \<and>
       (\<forall>s'\<in>set (pr_sets p). \<forall>st'\<in>set (?g s'). ?P st' \<longrightarrow> ?f st \<le> ?f st')"
    then obtain pre s post st where b: "pr_sets p = pre @ s # post" "st \<in> set (?g s)" "?P st"
      "?best = (?f st, Some (s, st))"
      "\<forall>s'\<in>set pre. \<forall>st'\<in>set (?g s'). ?P st' \<longrightarrow> ?f st < ?f st'"
      "\<forall>s'\<in>set (pr_sets p). \<forall>st'\<in>set (?g s'). ?P st' \<longrightarrow> ?f st \<le> ?f st'" by blast
    from from_state [OF b(2)] obtain S where S: "S \<in> combos (cs_root s)" "state_of ?e st S"
      "?f st = evict_cost costs running S" "?P st \<longleftrightarrow> target \<in> S"
      "filter (\<lambda>m. \<not> mask_has (ps_mask st) (bit_of (ev_bits ?e) m)) running = filter (\<lambda>m. m \<notin> S) running"
      by blast
    have d: "d = \<lparr>de_evict = filter (\<lambda>m. m \<notin> S) running, de_target_set = flatten_witness (ps_wit st),
        de_set_name = cs_name s, de_dsl = cs_dsl s, de_total_cost = evict_cost costs running S\<rparr>"
      using new unfolding d_def solve_def Let_def b(4) by (simp add: S(3,5))
    have strict: "evict_cost costs running S < evict_cost costs running S'"
      if s': "s' \<in> set pre" and S': "S' \<in> combos (cs_root s')" "target \<in> S'" for s' S'
    proof -
      have "s' \<in> set (pr_sets p)" using s' b(1) by simp
      from to_state [OF this S'] obtain st' where "st' \<in> set (?g s')" "?P st'" "?f st' \<le> evict_cost costs running S'"
        by blast
      with b(5) s' S(3) show ?thesis by (metis order_less_le_trans)
    qed
    have least: "evict_cost costs running S \<le> evict_cost costs running S'"
      if s': "s' \<in> set (pr_sets p)" and S': "S' \<in> combos (cs_root s')" "target \<in> S'" for s' S'
    proof -
      from to_state [OF s' S'] obtain st' where "st' \<in> set (?g s')" "?P st'" "?f st' \<le> evict_cost costs running S'"
        by blast
      with b(6) s' S(3) show ?thesis by (metis order_trans)
    qed
    have "set (de_target_set d) = S - {''''}" using S(2) by (simp add: d state_of_def)
    then show ?thesis
      using b(1,3) S(1,4) strict least by (intro disjI2 exI [of _ pre] exI [of _ s] exI [of _ post] exI [of _ S]) (simp add: d)
  qed
qed

text \<open>
  C2. \<open>Solve\<close> on a compiled program is optimal over the full expansion, which it never builds.
  For a target that is not running, either no combination of any set contains the target and the
  target runs alone, evicting everything; or the decision is a combination of one set that contains the target:
  it evicts exactly the running models outside that combination, reports the set's name and text,
  the combination's models in order, and the total eviction cost, which no combination
  of any set with the target undercuts, and which every set before the chosen one exceeds.
\<close>
theorem solve_optimal:
  assumes "distinct (map sd_name defs)" and "compile defs resolve all_models = Inr p"
    and "target \<notin> set running" and "\<forall>m\<in>set running. 0 \<le> eviction_cost costs m"
    and "sum_list (map (eviction_cost costs) running) < 2 ^ 63"
  shows "let d = solve p target running costs in
    ((\<forall>s\<in>set (pr_sets p). \<forall>S\<in>combos (cs_root s). target \<notin> S) \<and>
      d = \<lparr>de_evict = running, de_target_set = [target], de_set_name = '''', de_dsl = '''', de_total_cost = 0\<rparr>) \<or>
    (\<exists>pre s post S. pr_sets p = pre @ s # post \<and> S \<in> combos (cs_root s) \<and> target \<in> S \<and>
       de_set_name d = cs_name s \<and> de_dsl d = cs_dsl s \<and> de_evict d = filter (\<lambda>m. m \<notin> S) running \<and>
       sorted (de_target_set d) \<and> distinct (de_target_set d) \<and> set (de_target_set d) = S - {''''} \<and>
       de_total_cost d = evict_cost costs running S \<and>
       (\<forall>s'\<in>set pre. \<forall>S'\<in>combos (cs_root s'). target \<in> S' \<longrightarrow> evict_cost costs running S < evict_cost costs running S') \<and>
       (\<forall>s'\<in>set (pr_sets p). \<forall>S'\<in>combos (cs_root s'). target \<in> S' \<longrightarrow> evict_cost costs running S \<le> evict_cost costs running S'))"
  unfolding Let_def by (rule solve_best [OF compile_program_ok [OF assms(1,2)] assms(3,4,5)])

theorem solve_optimal_witness:
  "(let p = \<lparr>pr_sets = [\<lparr>cs_name = ''s'', cs_dsl = ''a & (b | c)'',
               cs_root = LAnd [LLeaf ''a'', LOr [LLeaf ''b'', LLeaf ''c'']], cs_support = [7]\<rparr>],
             pr_bits = [(''a'', 0), (''b'', 1), (''c'', 2)], pr_words = 1, pr_orphans = [], pr_mode = ''''\<rparr> in
    compile [\<lparr>sd_name = ''s'', sd_dsl = ''a & (b | c)''\<rparr>] Some [] = Inr p \<and>
    solve p ''a'' [''b'', ''c''] [(''b'', 5)] =
      \<lparr>de_evict = [''c''], de_target_set = [''a'', ''b''], de_set_name = ''s'', de_dsl = ''a & (b | c)'', de_total_cost = 1\<rparr> \<and>
    evict_cost [(''b'', 5)] [''b'', ''c''] {''a'', ''c''} \<ge> 1)"
proof -
  let ?defs = "[\<lparr>sd_name = ''s'', sd_dsl = ''a & (b | c)''\<rparr>]"
  let ?p = "\<lparr>pr_sets = [\<lparr>cs_name = ''s'', cs_dsl = ''a & (b | c)'',
               cs_root = LAnd [LLeaf ''a'', LOr [LLeaf ''b'', LLeaf ''c'']], cs_support = [7]\<rparr>],
             pr_bits = [(''a'', 0), (''b'', 1), (''c'', 2)], pr_words = 1, pr_orphans = [], pr_mode = ''''\<rparr>"
  let ?d = "\<lparr>de_evict = [''c''], de_target_set = [''a'', ''b''], de_set_name = ''s'', de_dsl = ''a & (b | c)'', de_total_cost = 1\<rparr>"
  have c: "compile ?defs Some [] = Inr ?p" by code_simp
  have s: "solve ?p ''a'' [''b'', ''c''] [(''b'', 5)] = ?d" by code_simp
  have k: "{''a'', ''c''} \<in> combos (LAnd [LLeaf ''a'', LOr [LLeaf ''b'', LLeaf ''c'']])"
    by (simp, intro exI [of _ "{''c''}"]) auto
  have "evict_cost [(''b'', 5)] [''b'', ''c''] {''a'', ''c''} \<ge> 1"
  proof -
    have "distinct (map sd_name ?defs)" "''a'' \<notin> set [''b'', ''c'']"
      "\<forall>m\<in>set [''b'', ''c'']. 0 \<le> eviction_cost [(''b'', 5)] m"
      "sum_list (map (eviction_cost [(''b'', 5)]) [''b'', ''c'']) < 2 ^ 63"
      by (simp_all add: eviction_cost_def)
    from solve_optimal [OF this(1) c this(2-4), unfolded s Let_def] show ?thesis
    proof (elim disjE conjE exE, goal_cases)
      case 1
      with k show ?case by simp
    next
      case (2 pre s post S)
      from 2(10) have "1 = evict_cost [(''b'', 5)] [''b'', ''c''] S" by simp
      also have "\<dots> \<le> evict_cost [(''b'', 5)] [''b'', ''c''] {''a'', ''c''}"
        using 2(12) k by simp
      finally show ?case .
    qed
  qed
  with c s show ?thesis by (simp only: Let_def simp_thms)
qed

text \<open>
  \<open>CanContainAll\<close> on a compiled program answers whether one combination of one set contains
  all the given models; \<open>findContaining\<close>, which names the set reported for a target that already
  runs, returns the first such set.
\<close>
lemma can_contain_all_iff:
  assumes "distinct (map sd_name defs)" and "compile defs resolve all_models = Inr p"
  shows "(can_contain_all p models \<longleftrightarrow>
      models = [] \<or> (\<exists>s\<in>set (pr_sets p). \<exists>S\<in>combos (cs_root s). set models \<subseteq> S)) \<and>
    (models \<noteq> [] \<longrightarrow> find_containing p models =
      (case find (\<lambda>s. \<exists>S\<in>combos (cs_root s). set models \<subseteq> S) (pr_sets p) of
         None \<Rightarrow> ('''', '''') | Some s \<Rightarrow> (cs_name s, cs_dsl s)))"
proof -
  note cr = contains_required_iff [OF compile_program_ok [OF assms]]
  have "find (contains_required p models) (pr_sets p) =
      find (\<lambda>s. \<exists>S\<in>combos (cs_root s). set models \<subseteq> S) (pr_sets p)"
    by (rule find_cong [OF refl]) (rule cr)
  then show ?thesis
    using cr by (auto simp: can_contain_all_def find_containing_def list_ex_iff)
qed

end
