(* ===== verification/MatrixRouter.thy ===== *)
theory MatrixRouter
  imports MatrixSolve Swapper
begin

text \<open>
  The matrix router: validation of its configuration (\<open>internal/config/matrix.go\<close>) and its
  swapper with the cached decision (\<open>internal/router/matrix.go\<close>, \<open>matrix_solver.go\<close>).
  The Go maps of variables and costs are association lists in the order the range loop visits them
  (Go leaves that order open, so every order is covered); the model configurations matter
  here by their IDs only.
\<close>

record matrix_config =
  mx_vars :: "(string \<times> string) list"
  mx_costs :: costs
  mx_sets :: "set_def list"

datatype matrix_error =
    MxNoSets
  | MxVarKey string
  | MxVarModel string string
  | MxCost string int
  | MxCostUnknown string
  | MxCompile compile_error

text \<open>\<open>varKeyPattern\<close>: one to 32 ASCII letters, digits, dots or hyphens.\<close>

definition is_var_char :: "char \<Rightarrow> bool" where
  "is_var_char c = (let n = code_of c in
     (97 \<le> n \<and> n \<le> 122) \<or> (65 \<le> n \<and> n \<le> 90) \<or> is_digit c \<or> c = CHR ''.'' \<or> c = CHR ''-'')"

definition is_var_key :: "string \<Rightarrow> bool" where
  "is_var_key s = (1 \<le> length s \<and> length s \<le> 32 \<and> list_all is_var_char s)"

definition resolve_matrix_model :: "(string \<times> string) list \<Rightarrow> string list \<Rightarrow> resolver" where
  "resolve_matrix_model vars models ident =
     (case map_of vars ident of
        Some m \<Rightarrow> Some m
      | None \<Rightarrow> if ident \<in> set models then Some ident else None)"

definition check_var :: "string list \<Rightarrow> string \<times> string \<Rightarrow> unit \<Rightarrow> matrix_error + unit" where
  "check_var models v u =
     (case v of (key, m) \<Rightarrow>
        if \<not> is_var_key key then Inl (MxVarKey key)
        else if m \<notin> set models then Inl (MxVarModel key m) else Inr u)"

definition check_cost :: "(string \<times> string) list \<Rightarrow> string list \<Rightarrow> string \<times> int \<Rightarrow> unit \<Rightarrow> matrix_error + unit" where
  "check_cost vars models kc u =
     (case kc of (key, cost) \<Rightarrow>
        if cost \<le> 0 then Inl (MxCost key cost)
        else if resolve_matrix_model vars models key = None then Inl (MxCostUnknown key) else Inr u)"

definition validate_matrix :: "matrix_config \<Rightarrow> string list \<Rightarrow> matrix_error + program" where
  "validate_matrix mx models =
     (if mx_sets mx = [] then Inl MxNoSets
      else
        bindE (foldE (check_var models) (mx_vars mx) ()) (\<lambda>_.
        bindE (foldE (check_cost (mx_vars mx) models) (mx_costs mx) ()) (\<lambda>_.
        (case compile (mx_sets mx) (resolve_matrix_model (mx_vars mx) models) models of
           Inl e \<Rightarrow> Inl (MxCompile e) | Inr p \<Rightarrow> Inr p))))"

definition resolved_evict_costs :: "matrix_config \<Rightarrow> costs" where
  "resolved_evict_costs mx =
     foldl (\<lambda>costs (key, cost).
        case map_of (mx_vars mx) key of
          Some real \<Rightarrow> AList.update real cost costs
        | None \<Rightarrow> AList.update key cost costs) [] (mx_costs mx)"

section \<open>The swapper\<close>

record matrix_swapper =
  ms_program :: program
  ms_costs :: costs
  ms_cache :: "decision cache"

definition matrix_solve :: "matrix_swapper \<Rightarrow> string \<Rightarrow> string list \<Rightarrow> decision \<times> matrix_swapper" where
  "matrix_solve s target running =
     (case cached (\<lambda>t r. solve (ms_program s) t r (ms_costs s)) (ms_cache s) target running of
        (d, c) \<Rightarrow> (d, s\<lparr>ms_cache := c\<rparr>))"

definition matrix_eviction_for :: "matrix_swapper \<Rightarrow> string \<Rightarrow> string list \<Rightarrow> string list \<times> matrix_swapper" where
  "matrix_eviction_for s target running =
     (case matrix_solve s target running of (d, s') \<Rightarrow> (de_evict d, s'))"

datatype matrix_log = LogSwap string decision | LogStarting string | LogRunning string decision

definition matrix_on_swap_start :: "matrix_swapper \<Rightarrow> string \<Rightarrow> string list \<Rightarrow> matrix_log \<times> matrix_swapper" where
  "matrix_on_swap_start s target running =
     (case matrix_solve s target running of (d, s') \<Rightarrow>
        ((if 0 < length (de_evict d) then LogSwap target d
          else if length running = 0 then LogStarting target
          else LogRunning target d), s'))"

text \<open>The pure policy the cache stands for.\<close>

definition matrix_evict :: "program \<Rightarrow> costs \<Rightarrow> string \<Rightarrow> string list \<Rightarrow> string list" where
  "matrix_evict p costs target running = de_evict (solve p target running costs)"

lemma solve_evict_subset:
  "set (de_evict (solve p target running costs)) \<subseteq> set running"
  by (auto simp: solve_def Let_def split: option.splits prod.splits)

lemma solve_evict_target: "target \<notin> set (de_evict (solve p target running costs))"
proof (cases "target \<in> set running")
  case True
  then show ?thesis by (simp add: solve_def split: prod.splits)
next
  case False
  then show ?thesis using solve_evict_subset by blast
qed

interpretation mtx: swapper "matrix_evict p costs" for p costs
  by standard (simp_all add: matrix_evict_def solve_evict_subset solve_evict_target)

section \<open>Validated configurations\<close>

lemma product_sets_singletons: "product_sets (map (\<lambda>A. {A}) As) = {\<Union>(set As)}"
  by (induction As) auto

lemma foldE_check:
  "foldE (\<lambda>x u. if bad x then Inl (e x) else f x u) xs () = Inr () \<Longrightarrow> \<forall>x\<in>set xs. \<not> bad x"
  by (induction xs) (auto simp: bindE_simps split: if_splits)

lemma check_costs_pos:
  "foldE (check_cost vars models) costs u = Inr u' \<Longrightarrow> \<forall>(k, c)\<in>set costs. 0 < c"
  by (induction costs) (auto simp: bindE_simps check_cost_def split: if_splits)

lemma validate_matrix_ok:
  assumes "validate_matrix mx models = Inr p"
  shows "compile (mx_sets mx) (resolve_matrix_model (mx_vars mx) models) models = Inr p"
    and "\<forall>(k, c)\<in>set (mx_costs mx). 0 < c"
proof -
  from assms obtain u where "foldE (check_cost (mx_vars mx) models) (mx_costs mx) () = Inr u"
    and c: "compile (mx_sets mx) (resolve_matrix_model (mx_vars mx) models) models = Inr p"
    by (auto simp: validate_matrix_def bindE_simps split: if_splits sum.splits)
  from check_costs_pos [OF this(1)] c
  show "compile (mx_sets mx) (resolve_matrix_model (mx_vars mx) models) models = Inr p"
    and "\<forall>(k, c)\<in>set (mx_costs mx). 0 < c" by simp_all
qed

lemma resolved_costs_gen:
  "\<forall>(k, c)\<in>set kcs. 0 < c \<Longrightarrow> \<forall>m c. map_of costs m = Some c \<longrightarrow> 0 < c \<Longrightarrow>
   map_of (foldl (\<lambda>costs (key, cost).
        case map_of vars key of
          Some real \<Rightarrow> AList.update real cost costs
        | None \<Rightarrow> AList.update key cost costs) costs kcs) m = Some c \<Longrightarrow> 0 < (c :: int)"
proof (induction kcs arbitrary: costs)
  case (Cons kc kcs)
  obtain k x where kc: "kc = (k, x)" by (cases kc)
  let ?c' = "case map_of vars k of Some real \<Rightarrow> AList.update real x costs | None \<Rightarrow> AList.update k x costs"
  have "\<forall>m c. map_of ?c' m = Some c \<longrightarrow> 0 < c"
    using Cons.prems(1,2) kc by (auto split: option.splits if_splits)
  from Cons.IH [OF _ this] Cons.prems kc show ?case by simp
qed auto

lemma resolved_costs_pos:
  assumes "validate_matrix mx models = Inr p"
  shows "0 < eviction_cost (resolved_evict_costs mx) m"
  using resolved_costs_gen [OF validate_matrix_ok(2) [OF assms], of "[]" "mx_vars mx" m]
  by (auto simp: eviction_cost_def resolved_evict_costs_def split: option.splits)

text \<open>
  End to end: with a validated configuration, every cost is positive, and the eviction the
  matrix swapper answers, cache included, over any sequence of queries is that of \<open>Solve\<close>: it
  stays within the running models, never evicts the target, and when the target is in no combination evicts
  everything, otherwise leaves running the part of a cheapest combination.
\<close>
lemma matrix_eviction_optimal:
  assumes "validate_matrix mx models = Inr p" and "distinct (map sd_name (mx_sets mx))"
    and "target \<notin> set running"
    and "sum_list (map (eviction_cost (resolved_evict_costs mx)) running) < 2 ^ 63"
  shows "let costs = resolved_evict_costs mx; ev = matrix_evict p costs target running;
      allowed = {S. target \<in> S \<and> (\<exists>s\<in>set (pr_sets p). S \<in> combos (cs_root s))} in
    (allowed = {} \<and> ev = running) \<or>
    (\<exists>S\<in>allowed. ev = filter (\<lambda>m. m \<notin> S) running \<and>
       (\<forall>S'\<in>allowed. sum_list (map (eviction_cost costs) ev) \<le>
          sum_list (map (eviction_cost costs) (filter (\<lambda>m. m \<notin> S') running))))"
proof -
  let ?costs = "resolved_evict_costs mx"
  let ?d = "solve p target running ?costs"
  have nonneg: "\<forall>m\<in>set running. 0 \<le> eviction_cost ?costs m"
    using resolved_costs_pos [OF assms(1)] by (simp add: less_imp_le)
  from solve_best [OF compile_program_ok [OF assms(2) validate_matrix_ok(1) [OF assms(1)]] assms(3) nonneg assms(4)]
  show ?thesis unfolding Let_def
  proof (elim disjE exE conjE, goal_cases)
    case 1
    then show ?case by (intro disjI1) (auto simp: matrix_evict_def)
  next
    case (2 pre s post S)
    have s: "s \<in> set (pr_sets p)" using 2(1) by simp
    have ev: "matrix_evict p ?costs target running = filter (\<lambda>m. m \<notin> S) running"
      using 2(6) by (simp add: matrix_evict_def)
    have "\<forall>S'\<in>{S. target \<in> S \<and> (\<exists>s\<in>set (pr_sets p). S \<in> combos (cs_root s))}.
        evict_cost ?costs running S \<le> evict_cost ?costs running S'" using 2(12) by blast
    then show ?case unfolding ev evict_cost_def using s 2(2,3) by blast
  qed
qed

text \<open>One swap decision of the event loop: the eviction query, then the start notice.\<close>

fun matrix_queries :: "matrix_swapper \<Rightarrow> (string \<times> string list) list \<Rightarrow> (string list \<times> matrix_log) list" where
  "matrix_queries s [] = []"
| "matrix_queries s ((t, r) # qs) =
     (case matrix_eviction_for s t r of (ev, s1) \<Rightarrow>
      case matrix_on_swap_start s1 t r of (l, s2) \<Rightarrow> (ev, l) # matrix_queries s2 qs)"

definition log_of :: "string \<Rightarrow> string list \<Rightarrow> decision \<Rightarrow> matrix_log" where
  "log_of target running d =
     (if de_evict d \<noteq> [] then LogSwap target d
      else if running = [] then LogStarting target else LogRunning target d)"

lemma matrix_solve_correct:
  assumes "cache_ok (\<lambda>t r. solve (ms_program s) t r (ms_costs s)) (ms_cache s)"
    and "matrix_solve s t r = (d, s')"
  shows "d = solve (ms_program s) t r (ms_costs s)" "ms_program s' = ms_program s" "ms_costs s' = ms_costs s"
    "cache_ok (\<lambda>t r. solve (ms_program s') t r (ms_costs s')) (ms_cache s')"
  using assms cached_correct [OF assms(1), of t r] by (auto simp: matrix_solve_def split: prod.splits)

text \<open>
  The one-entry cache is transparent: whatever swap decisions the event loop asks for, in any
  order, the matrix swapper answers each query with the pure policy's eviction, and logs
  the decision of that query.
\<close>
lemma matrix_cache_transparent:
  assumes "\<not> ca_valid (ms_cache s)"
  shows "matrix_queries s qs =
    map (\<lambda>(t, r). (matrix_evict (ms_program s) (ms_costs s) t r,
                    log_of t r (solve (ms_program s) t r (ms_costs s)))) qs"
proof -
  have "cache_ok (\<lambda>t r. solve (ms_program s) t r (ms_costs s)) (ms_cache s) \<Longrightarrow>
    matrix_queries s qs = map (\<lambda>(t, r). (matrix_evict (ms_program s) (ms_costs s) t r,
                    log_of t r (solve (ms_program s) t r (ms_costs s)))) qs" for s
  proof (induction qs arbitrary: s)
    case (Cons q qs)
    obtain t r where q: "q = (t, r)" by (cases q)
    obtain d1 s1 where m1: "matrix_solve s t r = (d1, s1)" by (cases "matrix_solve s t r")
    obtain d2 s2 where m2: "matrix_solve s1 t r = (d2, s2)" by (cases "matrix_solve s1 t r")
    note c1 = matrix_solve_correct [OF Cons.prems m1]
    note c2 = matrix_solve_correct [OF c1(4) m2]
    from Cons.IH [OF c2(4)] show ?case
      by (simp add: q m1 m2 matrix_eviction_for_def matrix_on_swap_start_def c1(1-3) c2(1-3)
          matrix_evict_def log_of_def)
  qed simp
  with assms show ?thesis by (simp add: cache_ok_def)
qed

end
