(* ===== verification/Capacity.thy ===== *)
theory Capacity
  imports Swapper "HOL-Library.Sublist" "HOL-Library.Product_Lexorder"
begin

text \<open>
  The capacity router: validation of the limits (\<open>internal/config/capacity.go\<close>) and the
  eviction search of \<open>internal/router/capacity.go\<close> with its greedy seed, its branch and bound
  and its node budget. Resource vectors are lists in the order of the sorted pool names. The
  \<open>int64\<close> arithmetic is on integers here: for a validated configuration every sum the planner forms
  is a sum over distinct models, hence in range (\<open>validated_sums_in_range\<close>).
\<close>

record model_cap =
  mc_capacities :: "(string \<times> int) list"
  mc_evict_cost :: int

type_synonym pools = "(string \<times> int) list"
type_synonym cap_models = "(string \<times> model_cap) list"
type_synonym vec = "int list"

definition max_int64 :: int where
  "max_int64 = 2 ^ 63 - 1"

lemma max_int64_code [code]: "max_int64 = 9223372036854775807"
  by (simp add: max_int64_def)

section \<open>Validation\<close>

datatype cap_error =
    CapMissing
  | CapNoPools
  | CapPoolName
  | CapPoolTotal string
  | CapCost string
  | CapModelPool string
  | CapUsage string string
  | CapUnknownPool string string
  | CapExceeds string string
  | CapSum string
  | CapCostSum

definition check_pool :: "string \<times> int \<Rightarrow> unit \<Rightarrow> cap_error + unit" where
  "check_pool pt u =
     (case pt of (pool, tot) \<Rightarrow>
        if trim_space pool = '''' then Inl CapPoolName
        else if tot \<le> 0 then Inl (CapPoolTotal pool) else Inr u)"

definition check_usage :: "string \<Rightarrow> string \<times> int \<Rightarrow> unit \<Rightarrow> cap_error + unit" where
  "check_usage mid pu u =
     (case pu of (pool, usage) \<Rightarrow>
        if trim_space pool = '''' then Inl (CapModelPool mid)
        else if usage < 0 then Inl (CapUsage mid pool) else Inr u)"

definition validate_model_capacity :: "string \<Rightarrow> model_cap \<Rightarrow> cap_error + unit" where
  "validate_model_capacity mid m =
     (if mc_evict_cost m < 0 then Inl (CapCost mid)
      else foldE (check_usage mid) (mc_capacities m) ())"

definition add_usage :: "pools \<Rightarrow> string \<Rightarrow> string \<times> int \<Rightarrow> (string \<rightharpoonup> int) \<Rightarrow> cap_error + (string \<rightharpoonup> int)" where
  "add_usage pools mid pu sums =
     (case pu of (pool, usage) \<Rightarrow>
        (case map_of pools pool of
           None \<Rightarrow> Inl (CapUnknownPool mid pool)
         | Some tot \<Rightarrow>
             if tot < usage then Inl (CapExceeds mid pool)
             else if max_int64 - count_of sums pool < usage then Inl (CapSum pool)
             else Inr (sums(pool \<mapsto> count_of sums pool + usage))))"

definition add_model :: "pools \<Rightarrow> string \<times> model_cap \<Rightarrow> (string \<rightharpoonup> int) \<times> int \<Rightarrow> cap_error + (string \<rightharpoonup> int) \<times> int" where
  "add_model pools im sc =
     (case im of (mid, m) \<Rightarrow> case sc of (sums, cost) \<Rightarrow>
        bindE (validate_model_capacity mid m) (\<lambda>_.
        bindE (foldE (add_usage pools mid) (mc_capacities m) sums) (\<lambda>sums'.
          if max_int64 - cost < mc_evict_cost m then Inl CapCostSum
          else Inr (sums', cost + mc_evict_cost m))))"

definition validate_capacity :: "pools option \<Rightarrow> cap_models \<Rightarrow> cap_error + unit" where
  "validate_capacity c models =
     (case c of
        None \<Rightarrow> Inl CapMissing
      | Some pools \<Rightarrow>
          if pools = [] then Inl CapNoPools
          else bindE (foldE check_pool pools ()) (\<lambda>_.
               bindE (foldE (add_model pools) models (Map.empty, 0)) (\<lambda>_. Inr ())))"

section \<open>The planner\<close>

definition usage_of :: "cap_models \<Rightarrow> string \<Rightarrow> string \<Rightarrow> int" where
  "usage_of models mid pool =
     (case map_of models mid of
        None \<Rightarrow> 0
      | Some m \<Rightarrow> (case map_of (mc_capacities m) pool of None \<Rightarrow> 0 | Some n \<Rightarrow> n))"

definition cost_of :: "cap_models \<Rightarrow> string \<Rightarrow> int" where
  "cost_of models mid = (case map_of models mid of None \<Rightarrow> 0 | Some m \<Rightarrow> mc_evict_cost m)"

definition vadd :: "vec \<Rightarrow> vec \<Rightarrow> vec" where
  "vadd a b = map2 (+) a b"

definition vsub :: "vec \<Rightarrow> vec \<Rightarrow> vec" where
  "vsub a b = map2 (-) a b"

definition fits :: "vec \<Rightarrow> vec \<Rightarrow> bool" where
  "fits need freed = list_all (\<lambda>(n, f). \<not> f < n) (zip need freed)"

text \<open>\<open>suffix[i]\<close>: the resources of the candidates not yet decided.\<close>

definition suffix_sum :: "(string \<Rightarrow> vec) \<Rightarrow> nat \<Rightarrow> string list \<Rightarrow> vec" where
  "suffix_sum vec n rest = foldr (\<lambda>c acc. vadd acc (vec c)) rest (replicate n 0)"

definition greedy_step :: "vec \<Rightarrow> (string \<Rightarrow> vec) \<Rightarrow> vec \<times> string list \<Rightarrow> string \<Rightarrow> vec \<times> string list" where
  "greedy_step need vec acc c =
     (case acc of (freed, selected) \<Rightarrow>
        let freed' = vsub freed (vec c) in
        if fits need freed' then (freed', filter (\<lambda>x. x \<noteq> c) selected)
        else (vadd freed' (vec c), selected))"

record search_state =
  se_nodes :: nat
  se_limited :: bool
  se_best :: "string list"
  se_best_cost :: int

fun lex_less :: "string list \<Rightarrow> string list \<Rightarrow> bool" where
  "lex_less [] ys = (ys \<noteq> [])"
| "lex_less (x # xs) [] = False"
| "lex_less (x # xs) (y # ys) = (if x = y then lex_less xs ys else x < y)"

definition improves :: "int \<Rightarrow> string list \<Rightarrow> int \<Rightarrow> string list \<Rightarrow> bool" where
  "improves cost chosen best_cost best =
     (cost < best_cost \<or> cost = best_cost \<and>
       (length chosen < length best \<or> length chosen = length best \<and> lex_less chosen best))"

definition offer :: "int \<Rightarrow> string list \<Rightarrow> search_state \<Rightarrow> search_state" where
  "offer cost chosen s =
     (if improves cost chosen (se_best_cost s) (se_best s)
      then s\<lparr>se_best := chosen, se_best_cost := cost\<rparr> else s)"

fun search :: "nat \<Rightarrow> vec \<Rightarrow> (string \<Rightarrow> vec) \<Rightarrow> (string \<Rightarrow> int) \<Rightarrow> string list \<Rightarrow> int \<Rightarrow> string list \<Rightarrow> vec \<Rightarrow>
  search_state \<Rightarrow> search_state" where
  "search lim need vec cst [] cost chosen freed s =
     (if lim \<le> se_nodes s then s\<lparr>se_limited := True\<rparr>
      else (let s1 = s\<lparr>se_nodes := se_nodes s + 1\<rparr> in
            if fits need freed then offer cost chosen s1 else s1))"
| "search lim need vec cst (c # cs) cost chosen freed s =
     (if lim \<le> se_nodes s then s\<lparr>se_limited := True\<rparr>
      else (let s1 = s\<lparr>se_nodes := se_nodes s + 1\<rparr> in
            if fits need freed then offer cost chosen s1
            else if se_best_cost s1 < cost \<or> cost = se_best_cost s1 \<and> length (se_best s1) \<le> length chosen then s1
            else if \<not> fits need (vadd freed (suffix_sum vec (length need) (c # cs))) then s1
            else
              (let s2 = search lim need vec cst cs (cost + cst c) (chosen @ [c]) (vadd freed (vec c)) s1
               in search lim need vec cst cs cost chosen (vsub (vadd freed (vec c)) (vec c)) s2)))"

text \<open>The last pass after a search cut short: retain every model of the result that can stay.\<close>

definition trim_step :: "vec \<Rightarrow> (string \<Rightarrow> vec) \<Rightarrow> vec \<times> string list \<Rightarrow> string \<Rightarrow> vec \<times> string list" where
  "trim_step need vec acc c =
     (case acc of (freed, best) \<Rightarrow>
        let freed' = vsub freed (vec c) in
        if fits need freed' then (freed', remove1 c best) else (vadd freed' (vec c), best))"

definition trim :: "vec \<Rightarrow> (string \<Rightarrow> vec) \<Rightarrow> nat \<Rightarrow> string list \<Rightarrow> string list" where
  "trim need vec n best =
     snd (foldl (trim_step need vec) (foldl (\<lambda>f c. vadd f (vec c)) (replicate n 0) best, best) (rev best))"

definition search_budget :: "nat \<Rightarrow> nat" where
  "search_budget configured = (if configured = 0 then 100000 else configured)"

definition candidates_of :: "string \<Rightarrow> string list \<Rightarrow> string list" where
  "candidates_of target running = filter (\<lambda>m. m \<noteq> target) (remdups_adj (sort running))"

definition seed_of :: "vec \<Rightarrow> (string \<Rightarrow> vec) \<Rightarrow> (string \<Rightarrow> int) \<Rightarrow> string list \<Rightarrow> string list" where
  "seed_of need vec cst cands =
     (let selected = snd (foldl (greedy_step need vec) (suffix_sum vec (length need) cands, cands)
                            (sort_key (\<lambda>c. - cst c) cands))
      in filter (\<lambda>c. c \<in> set selected) cands)"

definition need_of :: "pools \<Rightarrow> cap_models \<Rightarrow> string \<Rightarrow> string list \<Rightarrow> vec" where
  "need_of pools models target cands =
     (let ps = sort (map fst pools);
          vec = (\<lambda>m. map (usage_of models m) ps)
      in vsub (foldl (\<lambda>n c. vadd n (vec c)) (vec target) cands) (map (\<lambda>p. count_of (map_of pools) p) ps))"

definition capacity_plan :: "pools \<Rightarrow> cap_models \<Rightarrow> nat \<Rightarrow> string \<Rightarrow> string list \<Rightarrow> string list \<times> bool" where
  "capacity_plan pools models configured target running =
     (let ps = sort (map fst pools);
          vec = (\<lambda>m. map (usage_of models m) ps);
          cands = candidates_of target running;
          need = need_of pools models target cands;
          n = length ps
      in if fits need (replicate n 0) then ([], False)
         else
           (let best = seed_of need vec (cost_of models) cands;
                s = search (search_budget configured) need vec (cost_of models) cands 0 [] (replicate n 0)
                      \<lparr>se_nodes = 0, se_limited = False, se_best = best,
                       se_best_cost = foldl (\<lambda>cost c. cost + cost_of models c) 0 best\<rparr>
            in (if se_limited s then trim need vec n (se_best s) else se_best s, se_limited s)))"

record capacity_swapper =
  cp_pools :: pools
  cp_models :: cap_models
  cp_limit :: nat
  cp_cache :: "(string list \<times> bool) cache"

definition capacity_eviction_for :: "capacity_swapper \<Rightarrow> string \<Rightarrow> string list \<Rightarrow> string list \<times> capacity_swapper" where
  "capacity_eviction_for s target running =
     (case cached (capacity_plan (cp_pools s) (cp_models s) (cp_limit s)) (cp_cache s) target running of
        (r, c) \<Rightarrow> (fst r, s\<lparr>cp_cache := c\<rparr>))"

definition capacity_evict :: "pools \<Rightarrow> cap_models \<Rightarrow> nat \<Rightarrow> string \<Rightarrow> string list \<Rightarrow> string list" where
  "capacity_evict pools models configured target running = fst (capacity_plan pools models configured target running)"

section \<open>Vectors are functions on the pools\<close>

definition usum :: "(string \<Rightarrow> string \<Rightarrow> int) \<Rightarrow> string list \<Rightarrow> string \<Rightarrow> int" where
  "usum u xs p = sum_list (map (\<lambda>x. u x p) xs)"

lemma usum_simps [simp]:
  "usum u [] p = 0" "usum u (x # xs) p = u x p + usum u xs p" "usum u (xs @ ys) p = usum u xs p + usum u ys p"
  by (simp_all add: usum_def)

lemma usum_nonneg: "\<forall>x p. 0 \<le> u x p \<Longrightarrow> 0 \<le> usum u xs p"
  by (induction xs) auto

lemma vec_map_simps [simp]:
  "vadd (map f ps) (map g ps) = map (\<lambda>p. f p + g p) ps"
  "vsub (map f ps) (map g ps) = map (\<lambda>p. f p - g p) ps"
  by (induction ps) (auto simp: vadd_def vsub_def)

lemma fits_map [simp]: "fits (map nd ps) (map f ps) \<longleftrightarrow> (\<forall>p\<in>set ps. nd p \<le> f p)"
  by (induction ps) (auto simp: fits_def)

lemma replicate_map: "replicate (length ps) (0 :: int) = map (\<lambda>_. 0) ps"
  by (induction ps) auto

lemma suffix_sum_map: "suffix_sum (\<lambda>m. map (u m) ps) (length ps) rest = map (usum u rest) ps"
  by (induction rest) (auto simp: suffix_sum_def replicate_map add.commute)

lemma foldl_vadd_map: "foldl (\<lambda>f c. vadd f (map (u c) ps)) (map g ps) xs = map (\<lambda>p. g p + usum u xs p) ps"
  by (induction xs arbitrary: g) (simp_all add: add.assoc)

section \<open>The order on eviction lists\<close>

definition ctot :: "(string \<Rightarrow> int) \<Rightarrow> string list \<Rightarrow> int" where
  "ctot cst xs = sum_list (map cst xs)"

lemma ctot_simps [simp]:
  "ctot cst [] = 0" "ctot cst (x # xs) = cst x + ctot cst xs" "ctot cst (xs @ ys) = ctot cst xs + ctot cst ys"
  by (simp_all add: ctot_def)

lemma ctot_nonneg: "\<forall>x. 0 \<le> cst x \<Longrightarrow> 0 \<le> ctot cst xs"
  by (induction xs) auto

lemma foldl_cost: "foldl (\<lambda>cost c. cost + cst c) a xs = a + ctot cst xs"
  by (induction xs arbitrary: a) auto

text \<open>Lower cost, then fewer evictions, then the IDs in lexicographic order.\<close>

definition rank :: "(string \<Rightarrow> int) \<Rightarrow> string list \<Rightarrow> int \<times> nat \<times> string list" where
  "rank cst xs = (ctot cst xs, length xs, xs)"

lemma lex_less_iff: "lex_less xs ys \<longleftrightarrow> xs < ys"
proof (induction xs ys rule: lex_less.induct)
  case (1 ys)
  show ?case by (cases ys) auto
qed auto

lemma improves_rank: "improves (ctot cst xs) xs (ctot cst ys) ys \<longleftrightarrow> rank cst xs < rank cst ys"
  by (auto simp: improves_def rank_def lex_less_iff less_prod_def)

lemma rank_extend:
  assumes "\<forall>x. 0 \<le> cst x"
  shows "rank cst xs \<le> rank cst (xs @ ys)"
proof (cases ys)
  case (Cons y ys')
  have "0 \<le> ctot cst ys" using assms by (rule ctot_nonneg)
  with Cons show ?thesis by (auto simp: rank_def less_eq_prod_def)
qed simp

lemma rank_pruned:
  assumes "\<forall>x. 0 \<le> cst x" and "ctot cst best < ctot cst xs \<or> ctot cst xs = ctot cst best \<and> length best \<le> length xs"
    and "ys \<noteq> []"
  shows "rank cst best \<le> rank cst (xs @ ys)"
proof -
  have "0 \<le> ctot cst ys" using assms(1) by (rule ctot_nonneg)
  moreover have "length best \<le> length xs \<Longrightarrow> length best < length (xs @ ys)" using assms(3) by (cases ys) auto
  ultimately show ?thesis using assms(2) by (auto simp: rank_def less_eq_prod_def simp del: length_append)
qed

section \<open>The search\<close>

definition feas :: "(string \<Rightarrow> string \<Rightarrow> int) \<Rightarrow> (string \<Rightarrow> int) \<Rightarrow> string list \<Rightarrow> string list \<Rightarrow> bool" where
  "feas u nd ps xs \<longleftrightarrow> (\<forall>p\<in>set ps. nd p \<le> usum u xs p)"

lemma list_emb_Nil2_iff: "subseq t [] \<longleftrightarrow> t = []"
  by auto

lemma feas_mono:
  "\<forall>x p. 0 \<le> u x p \<Longrightarrow> subseq xs ys \<Longrightarrow> feas u nd ps xs \<Longrightarrow> feas u nd ps ys"
proof -
  assume nn: "\<forall>x p. 0 \<le> u x p" and s: "subseq xs ys" and f: "feas u nd ps xs"
  have "usum u xs p \<le> usum u ys p" for p
    using s
  proof (induction rule: list_emb.induct)
    case (list_emb_Nil ys)
    from usum_nonneg [OF nn] show ?case by simp
  next
    case (list_emb_Cons xs ys y)
    with nn [rule_format, of y p] show ?case by simp
  qed simp
  with f show "feas u nd ps ys" unfolding feas_def by (meson order_trans)
qed

lemma offer_props:
  assumes "se_best_cost s = ctot cst (se_best s)"
  shows "se_best_cost (offer (ctot cst xs) xs s) = ctot cst (se_best (offer (ctot cst xs) xs s))"
    "se_best (offer (ctot cst xs) xs s) = (if rank cst xs < rank cst (se_best s) then xs else se_best s)"
    "se_limited (offer (ctot cst xs) xs s) = se_limited s" "se_nodes (offer (ctot cst xs) xs s) = se_nodes s"
  using assms by (simp_all add: offer_def improves_rank)

definition search_ok :: "(string \<Rightarrow> string \<Rightarrow> int) \<Rightarrow> (string \<Rightarrow> int) \<Rightarrow> (string \<Rightarrow> int) \<Rightarrow> string list \<Rightarrow>
    string list \<Rightarrow> string list \<Rightarrow> search_state \<Rightarrow> search_state \<Rightarrow> bool" where
  "search_ok u cst nd ps rest chosen s s' \<longleftrightarrow>
     se_best_cost s' = ctot cst (se_best s') \<and>
     (se_best s' = se_best s \<or> (\<exists>t. subseq t rest \<and> se_best s' = chosen @ t \<and> feas u nd ps (chosen @ t))) \<and>
     rank cst (se_best s') \<le> rank cst (se_best s) \<and>
     (se_limited s \<longrightarrow> se_limited s') \<and>
     (\<not> se_limited s' \<longrightarrow> (\<forall>t. subseq t rest \<longrightarrow> feas u nd ps (chosen @ t) \<longrightarrow> rank cst (se_best s') \<le> rank cst (chosen @ t)))"

lemma search_ok_nodes [simp]:
  "search_ok u cst nd ps rest chosen (s\<lparr>se_nodes := n\<rparr>) s' = search_ok u cst nd ps rest chosen s s'"
  by (simp add: search_ok_def)

text \<open>A feasible selection is offered; nothing below it can do better.\<close>

lemma search_ok_offer:
  assumes cn: "\<forall>x. 0 \<le> cst x" and b: "se_best_cost s = ctot cst (se_best s)" and f: "feas u nd ps chosen"
  shows "search_ok u cst nd ps rest chosen s (offer (ctot cst chosen) chosen s)"
proof -
  note o = offer_props [OF b, of chosen]
  have best: "rank cst (se_best (offer (ctot cst chosen) chosen s)) \<le> rank cst chosen"
    "rank cst (se_best (offer (ctot cst chosen) chosen s)) \<le> rank cst (se_best s)"
    unfolding o(2) by auto
  have "se_best (offer (ctot cst chosen) chosen s) = chosen @ [] \<or>
      se_best (offer (ctot cst chosen) chosen s) = se_best s" unfolding o(2) by simp
  with best f o(1,3) show ?thesis unfolding search_ok_def
    by (metis append_Nil2 list_emb_Nil order_trans rank_extend [OF cn])
qed

text \<open>Nothing below can improve on the best, so the search turns back.\<close>

lemma search_ok_prune:
  assumes b: "se_best_cost s = ctot cst (se_best s)"
    and none: "\<And>t. subseq t rest \<Longrightarrow> feas u nd ps (chosen @ t) \<Longrightarrow> rank cst (se_best s) \<le> rank cst (chosen @ t)"
  shows "search_ok u cst nd ps rest chosen s s"
  using assms by (simp add: search_ok_def)

text \<open>Both branches: with the candidate, then without it.\<close>

lemma search_ok_both:
  assumes s2: "search_ok u cst nd ps cs (chosen @ [c]) s s2" and s3: "search_ok u cst nd ps cs chosen s2 s3"
  shows "search_ok u cst nd ps (c # cs) chosen s s3"
  unfolding search_ok_def
proof (intro conjI impI allI)
  show "se_best_cost s3 = ctot cst (se_best s3)" using s3 by (simp add: search_ok_def)
  show "rank cst (se_best s3) \<le> rank cst (se_best s)"
    using s2 s3 unfolding search_ok_def by (auto intro: order_trans)
  show "se_limited s3" if "se_limited s" using that s2 s3 unfolding search_ok_def by simp
  have "se_best s3 = se_best s2 \<or> (\<exists>t. subseq t cs \<and> se_best s3 = chosen @ t \<and> feas u nd ps (chosen @ t))"
    using s3 unfolding search_ok_def by blast
  moreover have "se_best s2 = se_best s \<or> (\<exists>t. subseq t cs \<and> se_best s2 = chosen @ (c # t) \<and> feas u nd ps (chosen @ (c # t)))"
    using s2 unfolding search_ok_def by simp
  moreover have "subseq t cs \<Longrightarrow> subseq (c # t) (c # cs) \<and> subseq t (c # cs)" for t by auto
  ultimately show "se_best s3 = se_best s \<or> (\<exists>t. subseq t (c # cs) \<and> se_best s3 = chosen @ t \<and> feas u nd ps (chosen @ t))"
    by metis
next
  fix t assume l: "\<not> se_limited s3" and t: "subseq t (c # cs)" and f: "feas u nd ps (chosen @ t)"
  have l2: "\<not> se_limited s2" using l s3 unfolding search_ok_def by blast
  from t have "subseq t cs \<or> (\<exists>t'. t = c # t' \<and> subseq t' cs)" by (cases t) (auto split: if_splits)
  then show "rank cst (se_best s3) \<le> rank cst (chosen @ t)"
  proof (elim disjE exE conjE)
    assume "subseq t cs"
    with s3 l f show ?thesis unfolding search_ok_def by blast
  next
    fix xs assume x: "t = c # xs" "subseq xs cs"
    have "feas u nd ps ((chosen @ [c]) @ xs)" using f x(1) by simp
    with s2 l2 x(2) have "rank cst (se_best s2) \<le> rank cst ((chosen @ [c]) @ xs)"
      unfolding search_ok_def by blast
    moreover have "rank cst (se_best s3) \<le> rank cst (se_best s2)" using s3 unfolding search_ok_def by blast
    ultimately show ?thesis using x(1) by simp
  qed
qed

lemma fits_suffix:
  "fits (map nd ps) (vadd (map (usum u chosen) ps) (suffix_sum (\<lambda>m. map (u m) ps) (length (map nd ps)) rest)) \<longleftrightarrow>
   feas u nd ps (chosen @ rest)"
  by (simp add: suffix_sum_map feas_def)

lemma fits_feas: "fits (map nd ps) (map (usum u chosen) ps) \<longleftrightarrow> feas u nd ps chosen"
  by (simp add: feas_def)

lemma search_correct:
  assumes nn: "\<forall>x p. 0 \<le> u x p" and cn: "\<forall>x. 0 \<le> cst x" and "se_best_cost s = ctot cst (se_best s)"
  shows "search_ok u cst nd ps rest chosen s
    (search lim (map nd ps) (\<lambda>m. map (u m) ps) cst rest (ctot cst chosen) chosen (map (usum u chosen) ps) s)"
  using assms(3)
proof (induction rest arbitrary: chosen s)
  case Nil
  let ?s1 = "s\<lparr>se_nodes := se_nodes s + 1\<rparr>"
  have "search_ok u cst nd ps [] chosen s (s\<lparr>se_limited := True\<rparr>)" using Nil by (simp add: search_ok_def)
  moreover have "search_ok u cst nd ps [] chosen s (offer (ctot cst chosen) chosen ?s1)" if "feas u nd ps chosen"
    using search_ok_offer [OF cn _ that, of ?s1] Nil by simp
  moreover have "search_ok u cst nd ps [] chosen s ?s1" if "\<not> feas u nd ps chosen"
    using Nil that by (auto simp: search_ok_def list_emb_Nil2_iff)
  ultimately show ?case by (simp only: search.simps fits_feas Let_def split: if_split) blast
next
  case (Cons c cs)
  let ?s1 = "s\<lparr>se_nodes := se_nodes s + 1\<rparr>"
  let ?S = "search lim (map nd ps) (\<lambda>m. map (u m) ps) cst"
  let ?s2 = "?S cs (ctot cst (chosen @ [c])) (chosen @ [c]) (map (usum u (chosen @ [c])) ps) ?s1"
  let ?s3 = "?S cs (ctot cst chosen) chosen (map (usum u chosen) ps) ?s2"
  have b1: "se_best_cost ?s1 = ctot cst (se_best ?s1)" using Cons.prems by simp
  have "search_ok u cst nd ps (c # cs) chosen s (s\<lparr>se_limited := True\<rparr>)"
    using Cons.prems by (simp add: search_ok_def)
  moreover have "search_ok u cst nd ps (c # cs) chosen s (offer (ctot cst chosen) chosen ?s1)" if "feas u nd ps chosen"
    using search_ok_offer [OF cn b1 that] by simp
  moreover have "search_ok u cst nd ps (c # cs) chosen s ?s1"
    if inf: "\<not> feas u nd ps chosen" and cut: "se_best_cost ?s1 < ctot cst chosen \<or>
      ctot cst chosen = se_best_cost ?s1 \<and> length (se_best ?s1) \<le> length chosen"
  proof -
    have "rank cst (se_best ?s1) \<le> rank cst (chosen @ t)" if "feas u nd ps (chosen @ t)" for t
    proof -
      have "t \<noteq> []" using inf that by auto
      with rank_pruned [OF cn, of "se_best ?s1" chosen t] cut b1 show ?thesis by auto
    qed
    with search_ok_prune [OF b1] show ?thesis by simp
  qed
  moreover have "search_ok u cst nd ps (c # cs) chosen s ?s1" if hopeless: "\<not> feas u nd ps (chosen @ c # cs)"
  proof -
    have "\<not> feas u nd ps (chosen @ t)" if "subseq t (c # cs)" for t
      using feas_mono [OF nn list_emb_append_mono [OF subseq_order.order_refl that]] hopeless by blast
    with search_ok_prune [OF b1, of "c # cs" u nd ps chosen] show ?thesis by simp
  qed
  moreover have "search_ok u cst nd ps (c # cs) chosen s ?s3"
  proof -
    have s2: "search_ok u cst nd ps cs (chosen @ [c]) ?s1 ?s2" by (rule Cons.IH [OF b1])
    have "search_ok u cst nd ps cs chosen ?s2 ?s3"
      by (rule Cons.IH) (use s2 in \<open>simp add: search_ok_def\<close>)
    with s2 show ?thesis using search_ok_both by fastforce
  qed
  moreover have "map (usum u (chosen @ [c])) ps = vadd (map (usum u chosen) ps) (map (u c) ps)"
    "ctot cst (chosen @ [c]) = ctot cst chosen + cst c"
    "vsub (vadd (map (usum u chosen) ps) (map (u c) ps)) (map (u c) ps) = map (usum u chosen) ps" by simp_all
  ultimately show ?case by (simp only: search.simps fits_feas fits_suffix Let_def split: if_split) blast
qed

text \<open>The search visits at most \<open>2^(n+1) - 1\<close> nodes for \<open>n\<close> candidates.\<close>

lemma search_nodes:
  "\<not> se_limited s \<Longrightarrow> se_nodes s + 2 ^ (length rest + 1) \<le> lim + 1 \<Longrightarrow>
   \<not> se_limited (search lim need vec cst rest cost chosen freed s) \<and>
   se_nodes (search lim need vec cst rest cost chosen freed s) + 1 \<le> se_nodes s + 2 ^ (length rest + 1)"
proof (induction rest arbitrary: cost chosen freed s)
  case Nil
  then show ?case by (auto simp: Let_def offer_def)
next
  case (Cons c cs)
  let ?s1 = "s\<lparr>se_nodes := se_nodes s + 1\<rparr>"
  let ?s2 = "search lim need vec cst cs (cost + cst c) (chosen @ [c]) (vadd freed (vec c)) ?s1"
  have pw: "(2 :: nat) ^ (length (c # cs) + 1) = 2 * 2 ^ (length cs + 1)" by simp
  have pos: "(2 :: nat) \<le> 2 ^ (length cs + 1)" by simp
  have i1: "\<not> se_limited ?s2 \<and> se_nodes ?s2 + 1 \<le> se_nodes s + 1 + 2 ^ (length cs + 1)"
  proof -
    have "se_nodes ?s1 = se_nodes s + 1" by simp
    with Cons.prems(2) pw pos have "se_nodes ?s1 + 2 ^ (length cs + 1) \<le> lim + 1" by linarith
    from Cons.IH [OF _ this, of "cost + cst c" "chosen @ [c]" "vadd freed (vec c)"] Cons.prems(1)
    show ?thesis by simp
  qed
  have lim: "se_nodes ?s2 + 2 ^ (length cs + 1) \<le> lim + 1" using i1 Cons.prems(2) pw by linarith
  have i2: "\<not> se_limited (search lim need vec cst cs cost chosen f ?s2) \<and>
      se_nodes (search lim need vec cst cs cost chosen f ?s2) + 1 \<le> se_nodes ?s2 + 2 ^ (length cs + 1)" for f
    using Cons.IH [of ?s2 cost chosen f] i1 lim by blast
  have i3: "se_nodes (search lim need vec cst cs cost chosen f ?s2) + 1 \<le> se_nodes s + 2 ^ (length (c # cs) + 1)" for f
    using i2 [of f] i1 pw by linarith
  have go: "\<not> lim \<le> se_nodes s" using Cons.prems(2) pw pos by linarith
  have one: "se_nodes s + 1 + 1 \<le> se_nodes s + 2 ^ (length (c # cs) + 1)" using pw pos by linarith
  show ?case
    using go one i2 i3 Cons.prems(1) unfolding search.simps Let_def
    by (simp only: if_False if_cancel split: if_split) (auto simp: offer_def)
qed

section \<open>The greedy seed\<close>

lemma usum_filter_out:
  "distinct xs \<Longrightarrow> c \<in> set xs \<Longrightarrow> usum u (filter (\<lambda>x. x \<noteq> c) xs) p = usum u xs p - u c p"
proof (induction xs)
  case (Cons x xs)
  show ?case
  proof (cases "x = c")
    case True
    then have "filter (\<lambda>x. x \<noteq> c) xs = xs" using Cons.prems(1) by (intro filter_True) auto
    with True show ?thesis by simp
  next
    case False
    with Cons show ?thesis by simp
  qed
qed simp

lemma vadd_vsub [simp]: "vadd (vsub (map f ps) (map g ps)) (map g ps) = map f ps"
  by simp

lemma greedy_ok:
  assumes "distinct order" and "set order \<subseteq> set sel" and "distinct sel" and "feas u nd ps sel"
  shows "\<exists>sel'. foldl (greedy_step (map nd ps) (\<lambda>m. map (u m) ps)) (map (usum u sel) ps, sel) order =
      (map (usum u sel') ps, sel') \<and> feas u nd ps sel' \<and> subseq sel' sel"
  using assms
proof (induction order arbitrary: sel)
  case (Cons c order)
  let ?out = "filter (\<lambda>x. x \<noteq> c) sel"
  have c: "c \<in> set sel" "c \<notin> set order" using Cons.prems(1,2) by auto
  have v: "vsub (map (usum u sel) ps) (map (u c) ps) = map (usum u ?out) ps"
    using usum_filter_out [OF Cons.prems(3) c(1)] by simp
  show ?case
  proof (cases "feas u nd ps ?out")
    case True
    have step: "greedy_step (map nd ps) (\<lambda>m. map (u m) ps) (map (usum u sel) ps, sel) c = (map (usum u ?out) ps, ?out)"
      using True unfolding greedy_step_def prod.case Let_def v fits_feas by simp
    have "set order \<subseteq> set ?out" using Cons.prems(2) c(2) by auto
    from Cons.IH [OF _ this _ True] Cons.prems(1,3) step show ?thesis
      by (auto intro: subseq_order.order_trans subseq_filter_left)
  next
    case False
    have step: "greedy_step (map nd ps) (\<lambda>m. map (u m) ps) (map (usum u sel) ps, sel) c = (map (usum u sel) ps, sel)"
      using False unfolding greedy_step_def prod.case Let_def
      by (simp only: v fits_feas if_False) (simp add: usum_filter_out [OF Cons.prems(3) c(1)])
    from Cons.IH [of sel] Cons.prems step show ?thesis by simp
  qed
qed auto

lemma filter_subseq: "subseq xs ys \<Longrightarrow> distinct ys \<Longrightarrow> filter (\<lambda>y. y \<in> set xs) ys = xs"
proof (induction rule: list_emb.induct)
  case (list_emb_Cons xs ys y)
  then have "y \<notin> set xs" by (auto dest: subseq_order.order_trans list_emb_set)
  with list_emb_Cons show ?case by simp
next
  case (list_emb_Cons2 x y xs ys)
  then have "filter (\<lambda>z. z = x \<or> z \<in> set xs) ys = filter (\<lambda>z. z \<in> set xs) ys"
    by (intro filter_cong) auto
  with list_emb_Cons2 show ?case by auto
qed simp

lemma seed_ok:
  assumes "distinct cands" and "feas u nd ps cands"
  shows "subseq (seed_of (map nd ps) (\<lambda>m. map (u m) ps) cst cands) cands \<and>
    feas u nd ps (seed_of (map nd ps) (\<lambda>m. map (u m) ps) cst cands)"
proof -
  have "distinct (sort_key (\<lambda>c. - cst c) cands)" "set (sort_key (\<lambda>c. - cst c) cands) \<subseteq> set cands"
    using assms(1) by simp_all
  from greedy_ok [OF this assms] obtain sel where
    sel: "foldl (greedy_step (map nd ps) (\<lambda>m. map (u m) ps)) (map (usum u cands) ps, cands)
        (sort_key (\<lambda>c. - cst c) cands) = (map (usum u sel) ps, sel)" "feas u nd ps sel" "subseq sel cands" by blast
  have "seed_of (map nd ps) (\<lambda>m. map (u m) ps) cst cands = sel"
    unfolding seed_of_def Let_def length_map suffix_sum_map sel(1) snd_conv
    by (rule filter_subseq [OF sel(3) assms(1)])
  with sel(2,3) show ?thesis by simp
qed

section \<open>The last pass\<close>

lemma usum_remove1: "c \<in> set xs \<Longrightarrow> usum u (remove1 c xs) p = usum u xs p - u c p"
  by (induction xs) auto

lemma feas_remove1:
  "\<forall>x p. 0 \<le> u x p \<Longrightarrow> feas u nd ps (remove1 c xs) \<Longrightarrow> feas u nd ps xs"
proof (cases "c \<in> set xs")
  case True
  assume nn: "\<forall>x p. 0 \<le> u x p" and f: "feas u nd ps (remove1 c xs)"
  show ?thesis unfolding feas_def
  proof
    fix p assume "p \<in> set ps"
    with f have "nd p \<le> usum u xs p - u c p" by (auto simp: feas_def usum_remove1 [OF True])
    with nn [rule_format, of c p] show "nd p \<le> usum u xs p" by linarith
  qed
qed (simp add: remove1_idem)

lemma trim_ok_gen:
  assumes nn: "\<forall>x p. 0 \<le> u x p"
  shows "distinct (L :: string list) \<Longrightarrow> set L \<subseteq> set b \<Longrightarrow> distinct b \<Longrightarrow> feas u nd ps b \<Longrightarrow>
    \<forall>c\<in>set b - set L. \<not> feas u nd ps (remove1 c b) \<Longrightarrow>
    \<exists>b'. foldl (trim_step (map nd ps) (\<lambda>m. map (u m) ps)) (map (usum u b) ps, b) L = (map (usum u b') ps, b') \<and>
      feas u nd ps b' \<and> subseq b' b \<and> (\<forall>c\<in>set b'. \<not> feas u nd ps (remove1 c b'))"
proof (induction L arbitrary: b)
  case Nil
  then show ?case by auto
next
  case (Cons c L)
  have c: "c \<in> set b" "c \<notin> set L" using Cons.prems(1,2) by auto
  have v: "vsub (map (usum u b) ps) (map (u c) ps) = map (usum u (remove1 c b)) ps"
    using usum_remove1 [OF c(1)] by simp
  show ?case
  proof (cases "feas u nd ps (remove1 c b)")
    case True
    have step: "trim_step (map nd ps) (\<lambda>m. map (u m) ps) (map (usum u b) ps, b) c =
        (map (usum u (remove1 c b)) ps, remove1 c b)"
      using True unfolding trim_step_def prod.case Let_def v fits_feas by simp
    have "\<not> feas u nd ps (remove1 x (remove1 c b))" if "x \<in> set (remove1 c b) - set L" for x
    proof -
      have "x \<in> set b - set (c # L)" using that Cons.prems(3) by auto
      with Cons.prems(5) have "\<not> feas u nd ps (remove1 x b)" by blast
      with feas_remove1 [OF nn, of nd ps c "remove1 x b"] show ?thesis by (metis remove1_commute)
    qed
    moreover have "set L \<subseteq> set (remove1 c b)" using Cons.prems(2,3) c(2) by auto
    ultimately obtain b' where "foldl (trim_step (map nd ps) (\<lambda>m. map (u m) ps))
        (map (usum u (remove1 c b)) ps, remove1 c b) L = (map (usum u b') ps, b')" "feas u nd ps b'"
      "subseq b' (remove1 c b)" "\<forall>c\<in>set b'. \<not> feas u nd ps (remove1 c b')"
      using Cons.IH [of "remove1 c b"] Cons.prems(1,3) True by auto
    moreover have "subseq (remove1 c b) b"
      unfolding distinct_remove1_removeAll [OF Cons.prems(3)] removeAll_filter_not_eq by (rule subseq_filter_left)
    ultimately show ?thesis using step by (auto intro: subseq_order.order_trans)
  next
    case False
    have step: "trim_step (map nd ps) (\<lambda>m. map (u m) ps) (map (usum u b) ps, b) c = (map (usum u b) ps, b)"
      using False unfolding trim_step_def prod.case Let_def
      by (simp only: v fits_feas if_False) (simp add: usum_remove1 [OF c(1)])
    from Cons.IH [of b] Cons.prems False step show ?thesis by auto
  qed
qed

lemma trim_ok:
  assumes "\<forall>x p. 0 \<le> u x p" and "distinct b" and "feas u nd ps b"
  shows "let b' = trim (map nd ps) (\<lambda>m. map (u m) ps) (length ps) b in
    feas u nd ps b' \<and> subseq b' b \<and> (\<forall>c\<in>set b'. \<not> feas u nd ps (remove1 c b'))"
proof -
  have "foldl (\<lambda>f c. vadd f (map (u c) ps)) (replicate (length ps) 0) b = map (usum u b) ps"
    unfolding replicate_map foldl_vadd_map by simp
  moreover obtain b' where "foldl (trim_step (map nd ps) (\<lambda>m. map (u m) ps)) (map (usum u b) ps, b) (rev b) =
      (map (usum u b') ps, b')" "feas u nd ps b'" "subseq b' b" "\<forall>c\<in>set b'. \<not> feas u nd ps (remove1 c b')"
    using trim_ok_gen [OF assms(1), of "rev b" b nd ps] assms(2,3) by auto
  ultimately show ?thesis by (simp add: trim_def Let_def)
qed

section \<open>The plan\<close>

text \<open>The resources in a pool suffice for the target and the running models not evicted.\<close>

definition room :: "pools \<Rightarrow> cap_models \<Rightarrow> string \<Rightarrow> string list \<Rightarrow> string list \<Rightarrow> bool" where
  "room pools models target running evict \<longleftrightarrow> (\<forall>p\<in>fst ` set pools.
     usage_of models target p + (\<Sum>m\<in>set running - {target} - set evict. usage_of models m p)
       \<le> count_of (map_of pools) p)"

lemma usum_Nil_fun: "usum u [] = (\<lambda>_. 0)"
  by (intro ext) simp

lemma sorted_distinct_remdups_adj: "sorted xs \<Longrightarrow> distinct (remdups_adj xs)"
  by (induction xs rule: remdups_adj.induct) (auto intro: antisym)

lemma distinct_candidates: "distinct (candidates_of target running)"
  and set_candidates: "set (candidates_of target running) = set running - {target}"
  by (auto simp: candidates_of_def sorted_distinct_remdups_adj)

lemma subseq_distinct: "subseq xs ys \<Longrightarrow> distinct ys \<Longrightarrow> distinct xs"
  using filter_subseq distinct_filter by metis

lemma usum_distinct: "distinct xs \<Longrightarrow> usum u xs p = (\<Sum>x\<in>set xs. u x p)"
  by (simp add: usum_def sum_list_distinct_conv_sum_set)

definition need_fun :: "pools \<Rightarrow> cap_models \<Rightarrow> string \<Rightarrow> string list \<Rightarrow> string \<Rightarrow> int" where
  "need_fun pools models target cands p =
     usage_of models target p + usum (usage_of models) cands p - count_of (map_of pools) p"

lemma need_of_map:
  "need_of pools models target cands = map (need_fun pools models target cands) (sort (map fst pools))"
  unfolding need_of_def Let_def foldl_vadd_map vec_map_simps need_fun_def ..

lemma feas_room:
  assumes "subseq ev (candidates_of target running)"
  shows "feas (usage_of models) (need_fun pools models target (candidates_of target running)) (sort (map fst pools)) ev
    \<longleftrightarrow> room pools models target running ev"
proof -
  let ?c = "candidates_of target running"
  have d: "distinct ev" using assms distinct_candidates subseq_distinct by blast
  have sub: "set ev \<subseteq> set ?c" using assms by (auto dest: list_emb_set)
  have "usum (usage_of models) ?c p = usum (usage_of models) ev p +
      (\<Sum>m\<in>set running - {target} - set ev. usage_of models m p)" for p
    using sum.subset_diff [OF sub, of "\<lambda>m. usage_of models m p"]
    by (simp add: usum_distinct [OF d] usum_distinct [OF distinct_candidates] set_candidates)
  then show ?thesis by (auto simp: feas_def room_def need_fun_def)
qed

text \<open>What validation gives: nonnegative amounts, and every model fits an empty router.\<close>

lemma check_usage_ok:
  "foldE (check_usage mid) caps u = Inr u' \<Longrightarrow> \<forall>(p, n)\<in>set caps. 0 \<le> n"
  by (induction caps) (auto simp: bindE_simps check_usage_def split: if_splits)

lemma add_usage_ok:
  "foldE (add_usage pools mid) caps sums = Inr sums' \<Longrightarrow>
   \<forall>(p, n)\<in>set caps. \<exists>tot. map_of pools p = Some tot \<and> n \<le> tot"
proof (induction caps arbitrary: sums)
  case (Cons pn caps)
  then obtain s1 where s1: "add_usage pools mid pn sums = Inr s1" "foldE (add_usage pools mid) caps s1 = Inr sums'"
    by (auto simp: bindE_simps)
  from s1(1) Cons.IH [OF s1(2)] show ?case by (cases pn) (auto simp: add_usage_def split: if_splits option.splits)
qed simp

lemma add_models_ok:
  "foldE (add_model pools) models sc = Inr sc' \<Longrightarrow>
   \<forall>(mid, m)\<in>set models. 0 \<le> mc_evict_cost m \<and>
     (\<forall>(p, n)\<in>set (mc_capacities m). 0 \<le> n \<and> (\<exists>tot. map_of pools p = Some tot \<and> n \<le> tot))"
proof (induction models arbitrary: sc)
  case (Cons im models)
  obtain mid m where im: "im = (mid, m)" by (cases im)
  obtain sums cost where sc: "sc = (sums, cost)" by (cases sc)
  from Cons.prems obtain sc1 where one: "add_model pools im sc = Inr sc1"
    and rest: "foldE (add_model pools) models sc1 = Inr sc'" by (auto simp: bindE_simps)
  from one have "0 \<le> mc_evict_cost m" "foldE (check_usage mid) (mc_capacities m) () = Inr ()"
    "\<exists>s. foldE (add_usage pools mid) (mc_capacities m) sums = Inr s"
    by (auto simp: add_model_def im sc validate_model_capacity_def bindE_simps split: if_splits)
  with check_usage_ok add_usage_ok have "0 \<le> mc_evict_cost m \<and>
     (\<forall>(p, n)\<in>set (mc_capacities m). 0 \<le> n \<and> (\<exists>tot. map_of pools p = Some tot \<and> n \<le> tot))" by fast
  with Cons.IH [OF rest] show ?case by (simp add: im)
qed simp

lemma check_pools_ok: "foldE check_pool pools u = Inr u' \<Longrightarrow> \<forall>(p, t)\<in>set pools. 0 < t"
  by (induction pools) (auto simp: bindE_simps check_pool_def split: if_splits)

lemma validated:
  assumes "validate_capacity (Some pools) models = Inr ()"
  shows "\<forall>m p. 0 \<le> usage_of models m p" "\<forall>m. 0 \<le> cost_of models m"
    "\<forall>m. \<forall>p\<in>fst ` set pools. usage_of models m p \<le> count_of (map_of pools) p"
proof -
  from assms obtain u sc where "foldE check_pool pools () = Inr u" "foldE (add_model pools) models (Map.empty, 0) = Inr sc"
    by (auto simp: validate_capacity_def bindE_simps split: if_splits)
  note cp = check_pools_ok [OF this(1)] and am = add_models_ok [OF this(2)]
  have cap: "0 \<le> n \<and> (\<exists>tot. map_of pools p = Some tot \<and> n \<le> tot)"
    if "map_of models mid = Some m" "map_of (mc_capacities m) p = Some n" for mid m p n
    using am map_of_SomeD [OF that(1)] map_of_SomeD [OF that(2)] by fast
  show "\<forall>m p. 0 \<le> usage_of models m p"
    using cap by (auto simp: usage_of_def split: option.splits)
  show "\<forall>m. 0 \<le> cost_of models m"
    using am by (fastforce simp: cost_of_def dest: map_of_SomeD split: option.splits)
  show "\<forall>m. \<forall>p\<in>fst ` set pools. usage_of models m p \<le> count_of (map_of pools) p"
  proof (intro allI ballI)
    fix m p assume "p \<in> fst ` set pools"
    then obtain t where t: "map_of pools p = Some t" by (metis map_of_eq_None_iff not_None_eq)
    with cp have "0 < t" by (auto dest: map_of_SomeD)
    with cap t show "usage_of models m p \<le> count_of (map_of pools) p"
      by (fastforce simp: usage_of_def count_of_def split: option.splits)
  qed
qed

lemma capacity_plan_eq:
  "capacity_plan pools models configured target running =
     (let cands = candidates_of target running; ps = sort (map fst pools); vec = (\<lambda>m. map (usage_of models m) ps);
          nd = need_fun pools models target cands; best = seed_of (map nd ps) vec (cost_of models) cands;
          s = search (search_budget configured) (map nd ps) vec (cost_of models) cands 0 [] (map (\<lambda>_. 0) ps)
                \<lparr>se_nodes = 0, se_limited = False, se_best = best,
                 se_best_cost = foldl (\<lambda>cost c. cost + cost_of models c) 0 best\<rparr>
      in if feas (usage_of models) nd ps [] then ([], False)
         else (if se_limited s then trim (map nd ps) vec (length ps) (se_best s) else se_best s, se_limited s))"
  unfolding capacity_plan_def Let_def need_of_map replicate_map fits_map feas_def usum_simps ..

text \<open>Everything the planner returns, from the properties of its parts.\<close>

lemma capacity_plan_props:
  assumes v: "validate_capacity (Some pools) models = Inr ()"
    and plan: "capacity_plan pools models configured target running = (ev, limited)"
  defines "cands \<equiv> candidates_of target running"
  defines "F \<equiv> feas (usage_of models) (need_fun pools models target cands) (sort (map fst pools))"
  shows "subseq ev cands \<and> F ev \<and> (\<forall>c\<in>set ev. \<not> F (remove1 c ev)) \<and>
    (\<not> limited \<longrightarrow> (\<forall>t. subseq t cands \<longrightarrow> F t \<longrightarrow> rank (cost_of models) ev \<le> rank (cost_of models) t)) \<and>
    (2 ^ (length cands + 1) \<le> search_budget configured + 1 \<longrightarrow> \<not> limited)"
proof -
  let ?u = "usage_of models" and ?c = "cost_of models" and ?ps = "sort (map fst pools)"
  let ?nd = "need_fun pools models target cands"
  let ?vec = "\<lambda>m. map (?u m) ?ps"
  let ?need = "map ?nd ?ps"
  note val = validated [OF v]
  have dist: "distinct cands" by (simp add: cands_def distinct_candidates)
  have all: "F cands"
    unfolding F_def feas_def need_fun_def using val(3) by auto
  show ?thesis
  proof (cases "F []")
    case True
    then have "(ev, limited) = ([], False)"
      unfolding plan [symmetric] capacity_plan_eq Let_def F_def cands_def by (rule if_P)
    with True rank_extend [OF val(2), of "[]"] show ?thesis by simp
  next
    case False
    define best where "best = seed_of ?need ?vec ?c cands"
    define s0 where "s0 = \<lparr>se_nodes = 0, se_limited = False, se_best = best, se_best_cost = foldl (\<lambda>cost c. cost + ?c c) 0 best\<rparr>"
    define s where "s = search (search_budget configured) ?need ?vec ?c cands 0 [] (map (\<lambda>_. 0) ?ps) s0"
    have pl: "(ev, limited) = (if se_limited s then trim ?need ?vec (length ?ps) (se_best s) else se_best s, se_limited s)"
      using False unfolding plan [symmetric] capacity_plan_eq Let_def F_def s_def s0_def best_def cands_def by (rule if_not_P)
    have seed: "subseq best cands" "F best"
      using seed_ok [OF dist all [unfolded F_def]] unfolding best_def F_def by blast+
    have ok: "search_ok ?u ?c ?nd ?ps cands [] s0 s"
      using search_correct [OF val(1,2), of s0 ?nd ?ps cands "[]" "search_budget configured"]
      by (simp add: s_def s0_def foldl_cost usum_Nil_fun)
    have sb: "subseq (se_best s) cands" "F (se_best s)"
      using ok seed unfolding search_ok_def F_def s0_def by auto
    have opt: "\<not> se_limited s \<Longrightarrow> subseq t cands \<Longrightarrow> F t \<Longrightarrow> rank ?c (se_best s) \<le> rank ?c t" for t
      using ok unfolding search_ok_def F_def by simp
    have nodes: "2 ^ (length cands + 1) \<le> search_budget configured + 1 \<Longrightarrow> \<not> se_limited s"
      using search_nodes [of s0 cands "search_budget configured"] unfolding s_def by (simp add: s0_def)
    have db: "distinct (se_best s)" using sb(1) dist subseq_distinct by blast
    show ?thesis
    proof (cases "se_limited s")
      case True
      with trim_ok [OF val(1) db sb(2) [unfolded F_def]] pl sb(1) nodes show ?thesis
        unfolding F_def Let_def by (auto intro: subseq_order.order_trans)
    next
      case False
      have "\<not> F (remove1 c (se_best s))" if c: "c \<in> set (se_best s)" for c
      proof
        assume f: "F (remove1 c (se_best s))"
        have "subseq (remove1 c (se_best s)) (se_best s)"
          unfolding distinct_remove1_removeAll [OF db] removeAll_filter_not_eq by (rule subseq_filter_left)
        with sb(1) have "subseq (remove1 c (se_best s)) cands" by (rule subseq_order.order_trans [rotated])
        from opt [OF False this f] have "rank ?c (se_best s) \<le> rank ?c (remove1 c (se_best s))" .
        moreover have "ctot ?c (remove1 c (se_best s)) = ctot ?c (se_best s) - ?c c"
          using sum_list_map_remove1 [OF c, of ?c] by (simp add: ctot_def)
        moreover have "length (remove1 c (se_best s)) < length (se_best s)"
          using c by (auto simp: length_remove1 dest: length_pos_if_in_set)
        ultimately show False using val(2) [rule_format, of c] by (auto simp: rank_def less_eq_prod_def)
      qed
      with False pl sb opt nodes show ?thesis by auto
    qed
  qed
qed

section \<open>The policy of the capacity router\<close>

lemma search_within:
  "set (se_best (search lim need vec cst rest cost chosen freed s)) \<subseteq> set (se_best s) \<union> set chosen \<union> set rest"
proof (induction rest arbitrary: cost chosen freed s)
  case Nil
  then show ?case by (auto simp: Let_def offer_def)
next
  case (Cons c cs)
  let ?s1 = "s\<lparr>se_nodes := se_nodes s + 1\<rparr>"
  let ?s2 = "search lim need vec cst cs (cost + cst c) (chosen @ [c]) (vadd freed (vec c)) ?s1"
  have i1: "set (se_best ?s2) \<subseteq> set (se_best s) \<union> set chosen \<union> set (c # cs)"
    using Cons.IH [of "cost + cst c" "chosen @ [c]" "vadd freed (vec c)" ?s1] by auto
  have "set (se_best (search lim need vec cst cs cost chosen f ?s2)) \<subseteq> set (se_best s) \<union> set chosen \<union> set (c # cs)" for f
    using Cons.IH [of cost chosen f ?s2] i1 by auto
  then show ?case unfolding search.simps Let_def by (simp only: offer_def split: if_split) auto
qed

lemma trim_within: "set (trim need vec n best) \<subseteq> set best"
proof -
  have "set (snd (foldl (trim_step need vec) (f, b) L)) \<subseteq> set b" for f b L
  proof (induction L arbitrary: f b)
    case (Cons c L)
    have one: "set (snd (trim_step need vec (f, b) c)) \<subseteq> set b"
      using set_remove1_subset [of c b] by (auto simp: trim_step_def Let_def)
    obtain f' b' where t: "trim_step need vec (f, b) c = (f', b')" by fastforce
    with Cons.IH [of f' b'] one show ?case by simp
  qed simp
  then show ?thesis by (simp add: trim_def)
qed

lemma capacity_evict_within: "set (capacity_evict pools models configured target running) \<subseteq> set running - {target}"
proof -
  have seed: "set (seed_of need vec cst cands) \<subseteq> set cands" for need vec cst cands
    by (auto simp: seed_of_def Let_def)
  show ?thesis
    unfolding capacity_evict_def capacity_plan_eq Let_def set_candidates [symmetric]
    by (simp only: split: if_split) (use search_within trim_within seed in \<open>fastforce\<close>)
qed

interpretation cap: swapper "capacity_evict pools models configured" for pools models configured
  by standard (use capacity_evict_within in blast)+

text \<open>
  C7. With a configuration \<open>ValidateCapacity\<close> accepts, what the capacity policy evicts leaves room:
  in every pool the target and the running models that stay fit the limit. It evicts
  running models only, never the target, and none of them needlessly (keeping any one of them would
  exceed a pool), also when the search ran out of its node budget.
\<close>
theorem capacity_eviction_fits:
  assumes "validate_capacity (Some pools) models = Inr ()"
  shows "let ev = capacity_evict pools models configured target running in
    set ev \<subseteq> set running - {target} \<and> distinct ev \<and> room pools models target running ev \<and>
    (\<forall>m\<in>set ev. \<not> room pools models target running (remove1 m ev))"
proof -
  obtain ev limited where plan: "capacity_plan pools models configured target running = (ev, limited)"
    by fastforce
  note pr = capacity_plan_props [OF assms plan]
  have sub: "subseq ev (candidates_of target running)" using pr by blast
  have d: "distinct ev" using sub distinct_candidates subseq_distinct by blast
  have r: "subseq (remove1 m ev) (candidates_of target running)" for m
  proof -
    have "subseq (remove1 m ev) ev"
      unfolding distinct_remove1_removeAll [OF d] removeAll_filter_not_eq by (rule subseq_filter_left)
    with sub show ?thesis by (rule subseq_order.order_trans [rotated])
  qed
  have "room pools models target running ev" "\<forall>m\<in>set ev. \<not> room pools models target running (remove1 m ev)"
    using pr feas_room [OF sub] feas_room [OF r] by blast+
  with d capacity_evict_within [of pools models configured target running] plan show ?thesis
    by (simp add: capacity_evict_def Let_def)
qed

theorem capacity_eviction_fits_witness:
  "(let pools = [(''v'', 8)]; models = [(''a'', \<lparr>mc_capacities = [(''v'', 6)], mc_evict_cost = 5\<rparr>),
        (''c'', \<lparr>mc_capacities = [(''v'', 3)], mc_evict_cost = 0\<rparr>)] in
    capacity_evict pools models 9 ''c'' [''a''] = [''a''] \<and> room pools models ''c'' [''a''] [''a''])"
proof -
  let ?pools = "[(''v'', 8)]" and ?models = "[(''a'', \<lparr>mc_capacities = [(''v'', 6)], mc_evict_cost = 5\<rparr>),
        (''c'', \<lparr>mc_capacities = [(''v'', 3)], mc_evict_cost = 0\<rparr>)]"
  have v: "validate_capacity (Some ?pools) ?models = Inr ()" by code_simp
  have e: "capacity_evict ?pools ?models 9 ''c'' [''a''] = [''a'']" by code_simp
  from capacity_eviction_fits [OF v, of 9 "''c''" "[''a'']"] show ?thesis
    unfolding e Let_def by simp
qed

text \<open>
  C19. Unless the node budget cut the search short, the eviction is optimal among all sets of running
  models that make room: least total cost, then fewest models, then least in the order of
  the sorted IDs. With the default budget, at most 15 other running models never exhaust it.
\<close>
theorem capacity_eviction_optimal:
  assumes "validate_capacity (Some pools) models = Inr ()"
    and "capacity_plan pools models configured target running = (ev, limited)"
    and "\<not> limited \<or> configured = 0 \<and> card (set running - {target}) \<le> 15"
    and "S \<subseteq> set running - {target}" and "room pools models target running (sorted_list_of_set S)"
  shows "rank (cost_of models) ev \<le> rank (cost_of models) (sorted_list_of_set S)"
proof -
  let ?c = "candidates_of target running"
  note pr = capacity_plan_props [OF assms(1,2)]
  have len: "length ?c = card (set running - {target})"
    using distinct_card [OF distinct_candidates [of target running]] by (simp add: set_candidates)
  have nl: "\<not> limited"
  proof (rule ccontr)
    assume "\<not> \<not> limited"
    with assms(3) have "configured = 0" "length ?c \<le> 15" by (auto simp: len)
    then have "(2 :: nat) ^ (length ?c + 1) \<le> 2 ^ 16" by (intro power_increasing) auto
    then have "2 ^ (length ?c + 1) \<le> search_budget configured + 1" using \<open>configured = 0\<close> by (simp add: search_budget_def)
    with pr \<open>\<not> \<not> limited\<close> show False by blast
  qed
  have "sorted ?c" unfolding candidates_of_def
    by (rule sorted_wrt_filter) (rule sorted_remdups_adj [OF sorted_sort])
  have fin: "finite S" using assms(4) finite_subset by blast
  have "subseq (sorted_list_of_set S) ?c"
  proof -
    have "filter (\<lambda>m. m \<in> S) ?c = sorted_list_of_set S"
    proof (rule sorted_distinct_set_unique)
      show "sorted (filter (\<lambda>m. m \<in> S) ?c)" using \<open>sorted ?c\<close> by (rule sorted_wrt_filter)
      show "set (filter (\<lambda>m. m \<in> S) ?c) = set (sorted_list_of_set S)"
        using assms(4) fin by (auto simp: set_candidates)
    qed (simp_all add: distinct_candidates)
    then show ?thesis using subseq_filter_left [of "\<lambda>m. m \<in> S" ?c] by simp
  qed
  with pr nl assms(5) feas_room show ?thesis by blast
qed

theorem capacity_eviction_optimal_witness:
  "(let pools = [(''vram'', 10)]; models = [(''a'', \<lparr>mc_capacities = [(''vram'', 6)], mc_evict_cost = 5\<rparr>),
        (''b'', \<lparr>mc_capacities = [(''vram'', 4)], mc_evict_cost = 1\<rparr>), (''c'', \<lparr>mc_capacities = [(''vram'', 3)], mc_evict_cost = 0\<rparr>)] in
    capacity_plan pools models 20 ''c'' [''a'', ''b''] = ([''b''], False) \<and>
    rank (cost_of models) [''b''] \<le> rank (cost_of models) [''a''])"
proof -
  let ?pools = "[(''vram'', 10)]" and ?models = "[(''a'', \<lparr>mc_capacities = [(''vram'', 6)], mc_evict_cost = 5\<rparr>),
        (''b'', \<lparr>mc_capacities = [(''vram'', 4)], mc_evict_cost = 1\<rparr>), (''c'', \<lparr>mc_capacities = [(''vram'', 3)], mc_evict_cost = 0\<rparr>)]"
  have v: "validate_capacity (Some ?pools) ?models = Inr ()" by code_simp
  have e: "capacity_plan ?pools ?models 20 ''c'' [''a'', ''b''] = ([''b''], False)" by code_simp
  have s: "sorted_list_of_set {''a''} = [''a'']" by simp
  have d: "{''a'', ''b''} - {''c''} - {''a''} = {''b''}" by auto
  have "room ?pools ?models ''c'' [''a'', ''b''] (sorted_list_of_set {''a''})"
    unfolding s room_def by (simp add: usage_of_def count_of_def d)
  from capacity_eviction_optimal [OF v e _ _ this] have "rank (cost_of ?models) [''b''] \<le> rank (cost_of ?models) [''a'']"
    unfolding s by simp
  with e show ?thesis by (simp only: Let_def simp_thms)
qed

section \<open>The arithmetic stays in range\<close>

definition entry_sum :: "model_cap \<Rightarrow> string \<Rightarrow> int" where
  "entry_sum m p = sum_list (map (\<lambda>(q, n). if q = p then n else 0) (mc_capacities m))"

lemma add_usage_sum:
  "foldE (add_usage pools mid) caps sums = Inr sums' \<Longrightarrow> \<forall>p. count_of sums p \<le> max_int64 \<Longrightarrow>
   (\<forall>p. count_of sums' p = count_of sums p + sum_list (map (\<lambda>(q, n). if q = p then n else 0) caps)) \<and>
   (\<forall>p. count_of sums' p \<le> max_int64)"
proof (induction caps arbitrary: sums)
  case (Cons qn caps)
  obtain q n where qn: "qn = (q, n)" by (cases qn)
  from Cons.prems(1) obtain s1 where s1: "add_usage pools mid (q, n) sums = Inr s1"
    and rest1: "foldE (add_usage pools mid) caps s1 = Inr sums'" by (auto simp: qn bindE_simps)
  from s1 have n: "n \<le> max_int64 - count_of sums q" and s1': "s1 = sums(q \<mapsto> count_of sums q + n)"
    by (auto simp: add_usage_def split: if_splits option.splits)
  have upd: "count_of s1 p = count_of sums p + (if q = p then n else 0)" for p by (simp add: s1')
  have "\<forall>p. count_of s1 p \<le> max_int64" using n Cons.prems(2) by (simp add: upd)
  note ih = Cons.IH [OF rest1 this]
  have "\<forall>p. count_of sums' p = count_of s1 p + sum_list (map (\<lambda>(q, n). if q = p then n else 0) caps)"
    using ih by blast
  then have "\<forall>p. count_of sums' p = count_of sums p + sum_list (map (\<lambda>(q, n). if q = p then n else 0) (qn # caps))"
    by (simp add: upd qn)
  with ih show ?case by blast
qed simp

lemma add_models_sum:
  "foldE (add_model pools) models (sums, cost) = Inr (sums', cost') \<Longrightarrow> \<forall>p. count_of sums p \<le> max_int64 \<Longrightarrow>
   cost \<le> max_int64 \<Longrightarrow>
   (\<forall>p. count_of sums' p = count_of sums p + sum_list (map (\<lambda>(i, m). entry_sum m p) models) \<and> count_of sums' p \<le> max_int64) \<and>
   cost' = cost + sum_list (map (\<lambda>(i, m). mc_evict_cost m) models) \<and> cost' \<le> max_int64"
proof (induction models arbitrary: sums cost)
  case (Cons im models)
  obtain mid m where im: "im = (mid, m)" by (cases im)
  from Cons.prems(1) obtain sc where sc: "add_model pools (mid, m) (sums, cost) = Inr sc"
    and rest1: "foldE (add_model pools) models sc = Inr (sums', cost')" by (auto simp: im bindE_simps)
  from sc obtain s1 where s1: "foldE (add_usage pools mid) (mc_capacities m) sums = Inr s1"
    and c: "mc_evict_cost m \<le> max_int64 - cost" and sc': "sc = (s1, cost + mc_evict_cost m)"
    by (auto simp: bindE_simps add_model_def split: if_splits)
  note rest = rest1 [unfolded sc']
  from add_usage_sum [OF s1 Cons.prems(2)] have e: "\<forall>p. count_of s1 p = count_of sums p + entry_sum m p"
    "\<forall>p. count_of s1 p \<le> max_int64" unfolding entry_sum_def by blast+
  have "cost + mc_evict_cost m \<le> max_int64" using c by simp
  note ih = Cons.IH [OF rest e(2) this]
  have "\<forall>p. count_of sums' p = count_of s1 p + sum_list (map (\<lambda>(i, m). entry_sum m p) models)"
    "\<forall>p. count_of sums' p \<le> max_int64" using ih by blast+
  with ih e(1) show ?case by (simp add: im)
qed simp

lemma entry_bound:
  "\<forall>(q, n)\<in>set caps. (0 :: int) \<le> n \<Longrightarrow>
   0 \<le> sum_list (map (\<lambda>(q, n). if q = p then n else 0) caps) \<and>
   (case map_of caps p of None \<Rightarrow> 0 | Some n \<Rightarrow> n) \<le> sum_list (map (\<lambda>(q, n). if q = p then n else 0) caps)"
  by (induction caps) (auto split: option.splits)

lemma usage_bound:
  "\<forall>(i, m)\<in>set models. \<forall>(q, n)\<in>set (mc_capacities m). 0 \<le> n \<Longrightarrow> distinct ms \<Longrightarrow>
   usum (usage_of models) ms p \<le> sum_list (map (\<lambda>(i, m). entry_sum m p) models)"
proof (induction models arbitrary: ms)
  case Nil
  show ?case by (induction ms) (auto simp: usage_of_def)
next
  case (Cons im models)
  obtain i m where im: "im = (i, m)" by (cases im)
  have e: "0 \<le> entry_sum m p" "(case map_of (mc_capacities m) p of None \<Rightarrow> 0 | Some n \<Rightarrow> n) \<le> entry_sum m p"
    using entry_bound [of "mc_capacities m" p] Cons.prems(1) by (auto simp: im entry_sum_def)
  let ?r = "filter (\<lambda>x. x \<noteq> i) ms"
  have same: "usum (usage_of ((i, m) # models)) ?r p = usum (usage_of models) ?r p"
    by (induction ms) (auto simp: usage_of_def)
  have IH: "usum (usage_of models) ?r p \<le> sum_list (map (\<lambda>(i, m). entry_sum m p) models)"
    using Cons.IH [of ?r] Cons.prems by simp
  show ?case
  proof (cases "i \<in> set ms")
    case True
    have "usage_of ((i, m) # models) i p \<le> entry_sum m p" using e(2) by (simp add: usage_of_def)
    with usum_filter_out [OF Cons.prems(2) True, of "usage_of ((i, m) # models)" p] same IH show ?thesis
      by (simp add: im)
  next
    case False
    then have "?r = ms" by (intro filter_True) auto
    with same IH e(1) show ?thesis by (simp add: im)
  qed
qed

lemma cost_bound:
  "\<forall>(i, m)\<in>set models. 0 \<le> mc_evict_cost m \<Longrightarrow> distinct ms \<Longrightarrow>
   ctot (cost_of models) ms \<le> sum_list (map (\<lambda>(i, m). mc_evict_cost m) models)"
proof (induction models arbitrary: ms)
  case Nil
  show ?case by (induction ms) (auto simp: cost_of_def)
next
  case (Cons im models)
  obtain i m where im: "im = (i, m)" by (cases im)
  let ?r = "filter (\<lambda>x. x \<noteq> i) ms"
  have same: "ctot (cost_of ((i, m) # models)) ?r = ctot (cost_of models) ?r"
    by (induction ms) (auto simp: cost_of_def)
  have IH: "ctot (cost_of models) ?r \<le> sum_list (map (\<lambda>(i, m). mc_evict_cost m) models)"
    using Cons.IH [of ?r] Cons.prems by simp
  show ?case
  proof (cases "i \<in> set ms")
    case True
    have "ctot (cost_of ((i, m) # models)) ?r = ctot (cost_of ((i, m) # models)) ms - cost_of ((i, m) # models) i"
      using usum_filter_out [OF Cons.prems(2) True, of "\<lambda>x p. cost_of ((i, m) # models) x" "[]"]
      by (simp only: usum_def ctot_def)
    moreover have "cost_of ((i, m) # models) i = mc_evict_cost m" by (simp add: cost_of_def)
    ultimately show ?thesis using same IH by (simp add: im)
  next
    case False
    then have "?r = ms" by (intro filter_True) auto
    with same IH Cons.prems(1) show ?thesis by (simp add: im)
  qed
qed

lemma validated_range:
  assumes "validate_capacity (Some pools) models = Inr ()" and "distinct ms"
  shows "0 \<le> usum (usage_of models) ms p \<and> usum (usage_of models) ms p \<le> max_int64 \<and>
    0 \<le> ctot (cost_of models) ms \<and> ctot (cost_of models) ms \<le> max_int64 \<and>
    (\<forall>m. \<forall>q\<in>fst ` set pools. usage_of models m q \<le> count_of (map_of pools) q)"
proof -
  from assms(1) obtain sums cost where fold: "foldE (add_model pools) models (Map.empty, 0) = Inr (sums, cost)"
    by (auto simp: validate_capacity_def bindE_simps split: if_splits)
  note am = add_models_ok [OF fold]
  have nn: "\<forall>(i, m)\<in>set models. \<forall>(q, n)\<in>set (mc_capacities m). 0 \<le> n" "\<forall>(i, m)\<in>set models. 0 \<le> mc_evict_cost m"
    using am by fast+
  have "\<forall>p. count_of Map.empty p \<le> max_int64" "(0 :: int) \<le> max_int64" by (simp_all add: max_int64_def)
  note s = add_models_sum [OF fold this]
  have "usum (usage_of models) ms p \<le> max_int64"
    using usage_bound [OF nn(1) assms(2), of p] s by (metis add_0 count_of_empty order_trans)
  moreover have "ctot (cost_of models) ms \<le> max_int64"
    using cost_bound [OF nn(2) assms(2)] s by (metis add_0 order_trans)
  ultimately show ?thesis
    using validated [OF assms(1)] usum_nonneg ctot_nonneg by blast
qed

text \<open>
  A configuration \<open>ValidateCapacity\<close> accepts keeps the planner's \<open>int64\<close> arithmetic exact: for
  any models, each taken once, the sum of their use of a pool and the sum of their eviction costs are
  between 0 and the largest \<open>int64\<close>, and each single model fits every pool on its own.
\<close>
lemma validated_sums_in_range:
  assumes "validate_capacity (Some pools) models = Inr ()" and "distinct ms"
  shows "0 \<le> usum (usage_of models) ms p \<and> usum (usage_of models) ms p \<le> max_int64 \<and>
    0 \<le> ctot (cost_of models) ms \<and> ctot (cost_of models) ms \<le> max_int64 \<and>
    (\<forall>m. \<forall>q\<in>fst ` set pools. usage_of models m q \<le> count_of (map_of pools) q)"
  by (rule validated_range [OF assms])

end
