(* ===== verification/Routers.thy ===== *)
theory Routers
  imports FifoLedger GroupRouter MatrixRouter Capacity
begin

text \<open>
  The local routers as the program assembles them: the FIFO scheduler over one of the three
  eviction policies (\<open>router.New\<close> picks the policy by the configured router). The locale of the
  scheduler's lemmas is interpreted here on every policy, so the properties below hold of each router
  the program can build, with no assumption on the policy left.
\<close>

datatype policy =
    GroupPolicy group_swapper
  | MatrixPolicy program costs
  | CapacityPolicy pools cap_models nat

fun policy_evict :: "policy \<Rightarrow> string \<Rightarrow> string list \<Rightarrow> string list" where
  "policy_evict (GroupPolicy s) = group_eviction_for s"
| "policy_evict (MatrixPolicy p costs) = matrix_evict p costs"
| "policy_evict (CapacityPolicy pools models n) = capacity_evict pools models n"

definition router_config :: "policy \<Rightarrow> (string \<times> int) list \<Rightarrow> (string \<times> int) list \<Rightarrow> fifo_config" where
  "router_config p models prio =
     \<lparr>fc_evict = policy_evict p, fc_limits = new_limits models, fc_priority = prio\<rparr>"

interpretation router: fifo_router "router_config p models prio" for p models prio
proof
  show "set (fc_evict (router_config p models prio) target running) \<subseteq> set running" for target running
    using grp.evict_running mtx.evict_running cap.evict_running by (cases p) (simp_all add: router_config_def)
  show "target \<notin> set (fc_evict (router_config p models prio) target running)" for target running
    using grp.evict_not_target mtx.evict_not_target cap.evict_not_target by (cases p) (simp_all add: router_config_def)
qed

lemma new_limits_pos: "0 < limit (router_config p models prio) m"
  by (auto simp: limit_def router_config_def new_limits_def default_concurrency_limit_def
      dest!: map_of_SomeD split: option.splits)

text \<open>
  C13. The scheduler never panics: in every state the event loop can reach, whatever event comes next,
  the handler returns, with its reservations accounted for; and so does a shutdown.
\<close>
theorem scheduler_never_panics:
  assumes "fifo_reach (router_config p models prio) st" and "enabled ev st"
  shows "(\<exists>st'. handle (router_config p models prio) ev st = Inr st') \<and> (\<exists>st'. on_shutdown e st = Inr st')"
  using router.handle_ok [OF router.reach_inv [OF assms(1)] assms(2)]
    router.on_shutdown_ok [OF router.reach_inv [OF assms(1)], of e] by blast

definition plain_env :: "proc_state \<Rightarrow> string list \<Rightarrow> env" where
  "plain_env s running = \<lparr>en_state = (\<lambda>_. Some s), en_running = (\<lambda>_. running),
     en_admit = (\<lambda>_. True), en_grant = (\<lambda>_. True)\<rparr>"

definition demo_groups :: policy where
  "demo_groups = GroupPolicy \<lparr>gs_groups = [(''g'', default_group)], gs_table = [(''a'', ''g''), (''b'', ''g'')]\<rparr>"

lemma demo_reach_served:
  "\<exists>st. fifo_reach (router_config demo_groups [] []) st \<and>
     fs_in_flight st = [''a'' \<mapsto> 1] \<and> fs_queued st = [\<lparr>rq_id = 2, rq_model = ''b''\<rparr>] \<and> fs_active st = [] \<and>
     fs_reserved st = [''a'' \<mapsto> 1, ''b'' \<mapsto> 1] \<and> fs_log st = [Admitted 1, Served 1 ''a'', Admitted 2]"
proof -
  let ?cfg = "router_config demo_groups [] []"
  let ?r1 = "\<lparr>rq_id = 1, rq_model = ''a''\<rparr>" and ?r2 = "\<lparr>rq_id = 2, rq_model = ''b''\<rparr>"
  let ?s1 = "\<lparr>fs_active = [], fs_reserved = [''a'' \<mapsto> 1], fs_in_flight = [''a'' \<mapsto> 1], fs_queued = [],
     fs_next = 0, fs_log = [Admitted 1, Served 1 ''a'']\<rparr>"
  let ?s2 = "\<lparr>fs_active = [], fs_reserved = [''a'' \<mapsto> 1, ''b'' \<mapsto> 1], fs_in_flight = [''a'' \<mapsto> 1], fs_queued = [?r2],
     fs_next = 0, fs_log = [Admitted 1, Served 1 ''a'', Admitted 2]\<rparr>"
  have "handle ?cfg (EvRequest (plain_env StateReady [''a'']) ?r1) new_fifo = Inr ?s1"
    by (simp add: on_request_def plain_env_def admit_def limit_def router_config_def new_limits_def
        default_concurrency_limit_def new_fifo_def running_set_def active_targets_def demo_groups_def
        group_eviction_for_def consider_model_def collides_with_def grant_handler_def log_effect_def Let_def)
  then have s1: "fifo_reach ?cfg ?s1" using reach_step [OF reach_new, of "EvRequest (plain_env StateReady [''a'']) ?r1"]
    by simp
  have "handle ?cfg (EvRequest (plain_env StateStopped [''a'']) ?r2) ?s1 = Inr ?s2"
    by (simp add: on_request_def plain_env_def admit_def limit_def router_config_def new_limits_def
        default_concurrency_limit_def running_set_def active_targets_def demo_groups_def
        group_eviction_for_def consider_model_def group_of_def group_cfg_def default_group_def
        collides_with_def conflicts_with_in_flight_def enqueue_def log_effect_def Let_def)
  then have "fifo_reach ?cfg ?s2" using reach_step [OF s1, of "EvRequest (plain_env StateStopped [''a'']) ?r2"]
    by simp
  then show ?thesis by (intro exI [of _ ?s2]) simp
qed

theorem scheduler_never_panics_witness:
  "\<exists>st :: fifo. fs_in_flight st = [''a'' \<mapsto> 1] \<and>
     (\<exists>st'. on_serve_done (router_config demo_groups [] []) (plain_env StateReady [''a'']) ''a'' st = Inr st')"
proof -
  obtain st where st: "fifo_reach (router_config demo_groups [] []) st" "fs_in_flight st = [''a'' \<mapsto> 1]"
    using demo_reach_served by blast
  then have "enabled (EvServeDone (plain_env StateReady [''a'']) ''a'') st" by (simp add: count_of_def)
  from scheduler_never_panics [OF st(1) this, of "ErrShutdown []"] st(2) show ?thesis by auto
qed

text \<open>
  C5. No swap stops a model that is serving: in every reachable state, a model an active swap evicts has
  no request in flight; active swaps do not evict their own or each other's target, and
  no two of them evict the same model.
\<close>
theorem no_busy_eviction:
  assumes "fifo_reach (router_config p models prio) st"
    and "map_of (fs_active st) m = Some sw" and "e \<in> set (sw_evict sw)"
  shows "count_of (fs_in_flight st) e = 0 \<and> e \<noteq> m \<and>
    (\<forall>m' sw'. map_of (fs_active st) m' = Some sw' \<and> m' \<noteq> m \<longrightarrow> e \<noteq> m' \<and> e \<notin> set (sw_evict sw'))"
  using router.inv_safety [OF router.reach_inv [OF assms(1)] assms(2,3)] by blast

lemma demo_reach_swap:
  "\<exists>st. fifo_reach (router_config demo_groups [] []) st \<and>
     map_of (fs_active st) ''b'' = Some \<lparr>sw_model = ''b'', sw_generation = 1, sw_evict = [''a''],
        sw_waiters = [\<lparr>rq_id = 2, rq_model = ''b''\<rparr>]\<rparr>"
proof -
  let ?cfg = "router_config demo_groups [] []"
  let ?r = "\<lparr>rq_id = 2, rq_model = ''b''\<rparr>"
  let ?sw = "\<lparr>sw_model = ''b'', sw_generation = 1, sw_evict = [''a''], sw_waiters = [?r]\<rparr>"
  let ?s = "\<lparr>fs_active = [(''b'', ?sw)], fs_reserved = [''b'' \<mapsto> 1], fs_in_flight = Map.empty, fs_queued = [],
     fs_next = 1, fs_log = [Admitted 2, SwapStarted ''b'' 1 [''a'']]\<rparr>"
  have "handle ?cfg (EvRequest (plain_env StateStopped [''a'']) ?r) new_fifo = Inr ?s"
    by (simp add: on_request_def plain_env_def admit_def limit_def router_config_def new_limits_def new_fifo_def
        default_concurrency_limit_def running_set_def active_targets_def demo_groups_def
        group_eviction_for_def consider_model_def group_of_def group_cfg_def default_group_def
        collides_with_def conflicts_with_in_flight_def start_swap_def log_effect_def Let_def)
  then have "fifo_reach ?cfg ?s" using reach_step [OF reach_new, of "EvRequest (plain_env StateStopped [''a'']) ?r"]
    by simp
  then show ?thesis by (intro exI [of _ ?s]) simp
qed

theorem no_busy_eviction_witness:
  "\<exists>st. fifo_reach (router_config demo_groups [] []) st \<and> fs_active st \<noteq> [] \<and> count_of (fs_in_flight st) ''a'' = 0"
proof -
  obtain st where st: "fifo_reach (router_config demo_groups [] []) st"
    "map_of (fs_active st) ''b'' = Some \<lparr>sw_model = ''b'', sw_generation = 1, sw_evict = [''a''],
        sw_waiters = [\<lparr>rq_id = 2, rq_model = ''b''\<rparr>]\<rparr>" using demo_reach_swap by blast
  from no_busy_eviction [OF st, of "''a''"] st show ?thesis by fastforce
qed

text \<open>
  C3. Every admitted request is in exactly one place: waiting in the queue, waiting on one active swap, or
  settled (handed a handler, answered with an error, gone, or cancelled), each exactly as often as it was
  admitted. So no admitted request is lost and none is answered twice.
\<close>
theorem requests_conserved:
  assumes "fifo_reach (router_config p models prio) st"
  shows "mset (concat (map admitted_id (fs_log st))) =
    mset (map rq_id (fs_queued st)) +
    mset (map rq_id (concat (map (\<lambda>(m, sw). sw_waiters sw) (fs_active st)))) +
    mset (concat (map settled_id (fs_log st)))"
  using router.reach_inv [OF assms]
  by (simp add: fifo_inv_def core_def log_ok_def admitted_def settled_def waiting_def)

theorem requests_conserved_witness:
  "\<exists>st. fifo_reach (router_config demo_groups [] []) st \<and>
     mset (concat (map admitted_id (fs_log st))) = {#2#} + {#1#}"
proof -
  obtain st where st: "fifo_reach (router_config demo_groups [] []) st" "fs_queued st = [\<lparr>rq_id = 2, rq_model = ''b''\<rparr>]"
    "fs_active st = []" "fs_log st = [Admitted 1, Served 1 ''a'', Admitted 2]"
    using demo_reach_served by blast
  from requests_conserved [OF st(1)] st show ?thesis by (intro exI [of _ st]) simp
qed

text \<open>
  The queue is never stranded: whenever a request waits in the queue of a reachable state, a swap is
  active or a model is serving, and the end of either walks the queue again.
\<close>
lemma queue_not_stranded:
  assumes "fifo_reach (router_config p models prio) st" and "fs_queued st \<noteq> []"
  shows "fs_active st \<noteq> [] \<or> (\<exists>m. 0 < count_of (fs_in_flight st) m)"
  using router.reach_inv [OF assms(1)] assms(2) by (simp add: fifo_inv_def busy_def)

text \<open>
  C14. In every history of the scheduler the in-flight counter of a model is exactly the number of requests being
  served: the handlers that callers received, less those that have finished. Together with the requests that wait on the model's swap and in the
  queue they never exceed its limit: the limit holds of what is promised, not only of what is served.
\<close>
theorem concurrency_limit_kept:
  assumes "fifo_run (router_config p models prio) evs new_fifo = Some st"
  shows "count_of (fs_in_flight st) m = handlers_received m (fs_log st) - serves_ended m evs \<and>
    int (length (filter (\<lambda>r. rq_model r = m)
      (fs_queued st @ concat (map (\<lambda>(m, sw). sw_waiters sw) (fs_active st))))) +
    (handlers_received m (fs_log st) - serves_ended m evs) \<le> limit (router_config p models prio) m"
proof -
  have reach: "fifo_reach (router_config p models prio) st" by (rule fifo_run_reach [OF assms reach_new])
  have "size {#r \<in># mset (fs_queued st) + waiting (fs_active st). rq_model r = m#} =
      length (filter (\<lambda>r. rq_model r = m) (fs_queued st @ concat (map (\<lambda>(m, sw). sw_waiters sw) (fs_active st))))"
    unfolding waiting_def by (simp flip: mset_append mset_filter)
  moreover have "count_of (fs_in_flight st) m = handlers_received m (fs_log st) - serves_ended m evs"
    using fifo_run_ledger [OF assms, of m] by (simp add: ledger_def new_fifo_def handlers_received_def)
  ultimately show ?thesis using router.inv_limit [OF router.reach_inv [OF reach] new_limits_pos] by metis
qed

text \<open>A limit of one: the second request for the model is refused while the first is served, and the fourth one is admitted after its end.\<close>

definition demo_limited :: "event list" where
  "demo_limited =
     [EvRequest (plain_env StateReady [''a'']) \<lparr>rq_id = 1, rq_model = ''a''\<rparr>,
      EvRequest (plain_env StateReady [''a'']) \<lparr>rq_id = 2, rq_model = ''a''\<rparr>,
      EvRequest (plain_env StateStopped [''a'']) \<lparr>rq_id = 3, rq_model = ''b''\<rparr>,
      EvServeDone (plain_env StateStopped []) ''a'',
      EvSwapDone (plain_env StateReady [''b'']) ''b'' 1 None,
      EvServeDone (plain_env StateStopped []) ''b'',
      EvRequest (plain_env StateReady [''a'']) \<lparr>rq_id = 4, rq_model = ''a''\<rparr>]"

theorem concurrency_limit_kept_witness:
  "\<exists>st. fifo_run (router_config demo_groups [(''a'', 1)] []) demo_limited new_fifo = Some st \<and>
     Rejected 2 ErrConcurrencyLimit \<in> set (fs_log st) \<and> handlers_received ''a'' (fs_log st) = 2 \<and>
     serves_ended ''a'' demo_limited = 1 \<and> count_of (fs_in_flight st) ''a'' = 1 \<and>
     limit (router_config demo_groups [(''a'', 1)] []) ''a'' = 1"
proof -
  have "map_option (\<lambda>st. (fs_log st, handlers_received ''a'' (fs_log st)))
      (fifo_run (router_config demo_groups [(''a'', 1)] []) demo_limited new_fifo) =
    Some ([Admitted 1, Served 1 ''a'', Rejected 2 ErrConcurrencyLimit, Admitted 3, SwapStarted ''b'' 1 [],
      SwapCancelled ''b'' 1, Served 3 ''b'', Admitted 4, Served 4 ''a''], 2)" by code_simp
  then obtain st where st: "fifo_run (router_config demo_groups [(''a'', 1)] []) demo_limited new_fifo = Some st"
      "Rejected 2 ErrConcurrencyLimit \<in> set (fs_log st)" "handlers_received ''a'' (fs_log st) = 2" by fastforce
  have "serves_ended ''a'' demo_limited = 1" "limit (router_config demo_groups [(''a'', 1)] []) ''a'' = 1" by code_simp+
  with concurrency_limit_kept [OF st(1), of "''a''"] st show ?thesis by auto
qed

lemma insert_split:
  assumes "sorted_wrt (\<lambda>a b. prio b \<le> (prio a :: int)) qs"
  shows "insert_by_priority prio r qs =
    filter (\<lambda>q. prio r \<le> prio q) qs @ r # filter (\<lambda>q. prio q < prio r) qs"
  using assms
proof (induction qs)
  case (Cons q qs)
  show ?case
  proof (cases "prio q < prio r")
    case True
    with Cons.prems have "\<forall>x\<in>set qs. prio x < prio r" by auto
    then have "filter (\<lambda>q. prio r \<le> prio q) qs = []" "filter (\<lambda>q. prio q < prio r) qs = qs"
      by (auto simp: filter_empty_conv not_le filter_id_conv)
    with True show ?thesis by simp
  next
    case False
    with Cons show ?thesis by simp
  qed
qed simp

text \<open>
  C15. In every reachable state the queue is in order of priority, and a request that is queued goes behind
  all waiting requests of its own or a higher priority and before all of a lower one, so equal
  priorities keep the order of arrival.
\<close>
theorem queue_by_priority:
  assumes "fifo_reach (router_config p models prio) st"
  shows "sorted_wrt (\<lambda>a b. priority (router_config p models prio) (rq_model b) \<le>
      priority (router_config p models prio) (rq_model a)) (fs_queued st) \<and>
    (let pr = (\<lambda>q. priority (router_config p models prio) (rq_model q)) in
     fs_queued (enqueue (router_config p models prio) r st) =
       filter (\<lambda>q. pr r \<le> pr q) (fs_queued st) @ r # filter (\<lambda>q. pr q < pr r) (fs_queued st))"
proof -
  have "by_priority (router_config p models prio) (fs_queued st)"
    using router.reach_inv [OF assms] by (simp add: fifo_inv_def)
  then show ?thesis unfolding by_priority_def Let_def enqueue_def
    using insert_split [of "\<lambda>q. priority (router_config p models prio) (rq_model q)" "fs_queued st" r] by simp
qed

theorem queue_by_priority_witness:
  "\<exists>st. fifo_reach (router_config demo_groups [] []) st \<and>
     fs_queued (enqueue (router_config demo_groups [] []) \<lparr>rq_id = 3, rq_model = ''c''\<rparr> st) =
       [\<lparr>rq_id = 2, rq_model = ''b''\<rparr>, \<lparr>rq_id = 3, rq_model = ''c''\<rparr>]"
proof -
  obtain st where st: "fifo_reach (router_config demo_groups [] []) st" "fs_queued st = [\<lparr>rq_id = 2, rq_model = ''b''\<rparr>]"
    using demo_reach_served by blast
  from queue_by_priority [OF st(1), of "\<lparr>rq_id = 3, rq_model = ''c''\<rparr>"] st show ?thesis
    by (intro exI [of _ st]) (simp add: Let_def priority_def router_config_def)
qed

text \<open>
  Cancellation and unloading take effect at once: after \<open>OnCancel\<close> the caller's request is in no queue and
  on no swap; after \<open>OnUnload\<close> no swap to an unloaded model is active and none of its requests waits
  in the queue, so the walk of the queue that ends the unload cannot start it again.
\<close>
lemma cancel_and_unload:
  assumes "fifo_reach (router_config p models prio) st"
  shows "(\<exists>st'. on_cancel r st = Inr st' \<and>
      (\<forall>q\<in>set (fs_queued st' @ concat (map (\<lambda>(m, sw). sw_waiters sw) (fs_active st'))). rq_id q \<noteq> rq_id r)) \<and>
    (\<exists>st'. on_unload (router_config p models prio) env targets st = Inr st' \<and>
      fst ` set (fs_active st') \<inter> set targets = {} \<and> rq_model ` set (fs_queued st') \<inter> set targets = {})"
  using router.on_cancel_ok [OF router.reach_inv [OF assms], of r]
    router.on_unload_ok [OF router.reach_inv [OF assms], of env targets]
  by (auto simp: waiting_def)

text \<open>
  A shutdown answers everyone: each request waiting on a swap or in the queue of a reachable state is
  sent the shutdown error, once, and every active swap is cancelled.
\<close>
lemma shutdown_answers_all:
  assumes "fifo_reach (router_config p models prio) st"
  shows "\<exists>st' new. on_shutdown e st = Inr st' \<and> fs_log st' = fs_log st @ new \<and>
    mset (concat (map settled_id new)) =
      mset (map rq_id (fs_queued st @ concat (map (\<lambda>(m, sw). sw_waiters sw) (fs_active st)))) \<and>
    (\<forall>x\<in>set new. \<forall>i e'. x = ErrorSent i e' \<longrightarrow> e' = e) \<and>
    (\<forall>m sw. (m, sw) \<in> set (fs_active st) \<longrightarrow> SwapCancelled m (sw_generation sw) \<in> set new)"
proof -
  obtain st' where st': "on_shutdown e st = Inr st'" "fs_log st' = fs_log st @ router.shutdown_log e st"
    using router.on_shutdown_ok [OF router.reach_inv [OF assms], of e] by blast
  have err: "concat (map (settled_id \<circ> (\<lambda>w. ErrorSent (rq_id w) e)) ws) = map rq_id ws" for ws :: "req list"
    by (induction ws) auto
  have act: "concat (map settled_id (concat (map (\<lambda>(m, sw). SwapCancelled m (sw_generation sw) #
        map (\<lambda>w. ErrorSent (rq_id w) e) (sw_waiters sw)) al))) =
      map rq_id (concat (map (\<lambda>(m, sw). sw_waiters sw) al))" for al
    by (induction al) (auto simp: err)
  have "mset (concat (map settled_id (router.shutdown_log e st))) =
      mset (map rq_id (fs_queued st @ concat (map (\<lambda>(m, sw). sw_waiters sw) (fs_active st))))"
    unfolding router.shutdown_log_def map_append concat_append map_map err act by simp
  moreover have "\<forall>x\<in>set (router.shutdown_log e st). \<forall>i e'. x = ErrorSent i e' \<longrightarrow> e' = e"
    by (auto simp: router.shutdown_log_def)
  moreover have "\<forall>m sw. (m, sw) \<in> set (fs_active st) \<longrightarrow>
      SwapCancelled m (sw_generation sw) \<in> set (router.shutdown_log e st)"
    by (force simp: router.shutdown_log_def)
  ultimately show ?thesis using st' by blast
qed

end
