(* ===== verification/SelectorConfig.thy ===== *)
theory SelectorConfig
  imports Selectors Routers
begin

text \<open>
  Validation of selectors, \<open>internal/config/selectors.go\<close>: names, strategies, targets, and for spillover
  selectors the check that the local targets can be resident together under the selected router. The
  last section connects that check with the routers: a spillover between the targets never evicts one of them.
\<close>

datatype router_settings =
    UseCapacity pools cap_models
  | UseMatrix "program option"
  | UseGroup groups

datatype selector_error =
    EmptySelectorName
  | NameIsModel string
  | NameIsAlias string
  | StrategyRequired string
  | StrategyUnknown string string
  | TargetsRequired string
  | TargetIsSelector string nat string
  | TargetUnknown string nat string
  | TargetNotLocal string nat
  | SpilloverTooSmall string
  | DuplicateTarget string string
  | ExceedsPool string string
  | NotOneMatrixSet string
  | NotInGroup string string
  | GroupSwaps string
  | NotOneGroup string

section \<open>Coexistence\<close>

text \<open>\<open>groupOf\<close>: a later listing of a member overwrites an earlier one.\<close>

definition group_table :: "groups \<Rightarrow> (string \<times> string) list" where
  "group_table gs = foldl (\<lambda>tab (gid, g). foldl (\<lambda>t m. AList.update m gid t) tab (gc_members g)) [] gs"

definition check_pool_sum :: "cap_models \<Rightarrow> string \<Rightarrow> string list \<Rightarrow> string \<times> int \<Rightarrow> unit \<Rightarrow> selector_error + unit" where
  "check_pool_sum models k targets pool u =
     (case pool of (p, cap_total) \<Rightarrow>
        if cap_total < foldl (\<lambda>used t. wrap64 (used + usage_of models t p)) 0 targets then Inl (ExceedsPool k p) else Inr u)"

definition validate_coexistence :: "router_settings \<Rightarrow> string \<Rightarrow> string list \<Rightarrow> selector_error + unit" where
  "validate_coexistence rt k targets =
     (if length targets \<le> 1 then Inr ()
      else case rt of
        UseCapacity pools models \<Rightarrow> foldE (check_pool_sum models k targets) pools ()
      | UseMatrix prog \<Rightarrow>
          (case prog of None \<Rightarrow> Inl (NotOneMatrixSet k)
           | Some p \<Rightarrow> if can_contain_all p targets then Inr () else Inl (NotOneMatrixSet k))
      | UseGroup gs \<Rightarrow>
          (let s = \<lparr>gs_groups = gs, gs_table = group_table gs\<rparr>; gid = group_of s (hd targets) in
           if gid = [] then Inl (NotInGroup k (hd targets))
           else if gc_swap (group_cfg s gid) then Inl (GroupSwaps k)
           else if list_ex (\<lambda>t. group_of s t \<noteq> gid) (tl targets) then Inl (NotOneGroup k)
           else Inr ()))"

section \<open>Selectors\<close>

text \<open>One round of the loop over a selector's targets; the state is \<open>resolvedTargets\<close> and \<open>localTargets\<close>.\<close>

definition check_target ::
  "names \<Rightarrow> selectors \<Rightarrow> string \<Rightarrow> selector \<Rightarrow> nat \<times> string \<Rightarrow> string list \<times> string list \<Rightarrow> selector_error + string list \<times> string list" where
  "check_target c sels k sel it acc =
     (case (it, acc) of ((i, t), (res, loc)) \<Rightarrow>
        if map_of sels t \<noteq> None then Inl (TargetIsSelector k i t)
        else if resolve_base_model c t = None then Inl (TargetUnknown k i t)
        else if se_strategy sel = ''warm'' \<and> real_model_name c t = None then Inl (TargetNotLocal k i)
        else if se_strategy sel = ''spillover'' then
          (case real_model_name c t of
             Some r \<Rightarrow> Inr (res @ [r], loc @ [r])
           | None \<Rightarrow> Inr (res @ [tg_model (spill_target c t)], loc))
        else Inr (res, loc))"

fun check_distinct :: "string \<Rightarrow> string list \<Rightarrow> string list \<Rightarrow> selector_error + unit" where
  "check_distinct k seen [] = Inr ()"
| "check_distinct k seen (t # ts) =
     (if t \<in> set seen then Inl (DuplicateTarget k t) else check_distinct k (t # seen) ts)"

definition validate_selector :: "names \<Rightarrow> selectors \<Rightarrow> router_settings \<Rightarrow> string \<times> selector \<Rightarrow> unit \<Rightarrow> selector_error + unit" where
  "validate_selector c sels rt ks u =
     (case ks of (k, sel) \<Rightarrow>
        if trim_space k = [] then Inl EmptySelectorName
        else if map_of (na_models c) k \<noteq> None then Inl (NameIsModel k)
        else if map_of (na_aliases c) k \<noteq> None then Inl (NameIsAlias k)
        else if se_strategy sel = [] then Inl (StrategyRequired k)
        else if se_strategy sel \<notin> {''pin'', ''warm'', ''spillover''} then Inl (StrategyUnknown k (se_strategy sel))
        else if se_targets sel = [] then Inl (TargetsRequired k)
        else
          bindE (foldE (check_target c sels k sel) (enumerate 0 (se_targets sel)) ([], [])) (\<lambda>(res, loc).
            if se_strategy sel \<noteq> ''spillover'' then Inr ()
            else if se_spillover sel < 1 then Inl (SpilloverTooSmall k)
            else bindE (check_distinct k [] res) (\<lambda>_. validate_coexistence rt k loc)))"

definition validate_selectors :: "names \<Rightarrow> selectors \<Rightarrow> router_settings \<Rightarrow> selector_error + unit" where
  "validate_selectors c sels rt = foldE (validate_selector c sels rt) sels ()"

section \<open>Facts\<close>

lemma check_distinct_ok: "check_distinct k seen ts = Inr () \<longleftrightarrow> distinct ts \<and> set ts \<inter> set seen = {}"
  by (induction k seen ts rule: check_distinct.induct) auto

lemma check_targets_spillover:
  assumes "se_strategy sel = ''spillover''"
  shows "foldE (check_target c sels k sel) (enumerate n ts) (res, loc) = Inr (r, l) \<Longrightarrow>
    r = res @ map (\<lambda>t. tg_model (spill_target c t)) ts \<and>
    l = loc @ map tg_model (filter tg_local (map (spill_target c) ts))"
proof (induction ts arbitrary: n res loc)
  case (Cons t ts)
  obtain a where a: "check_target c sels k sel (n, t) (res, loc) = Inr a"
    "foldE (check_target c sels k sel) (enumerate (Suc n) ts) a = Inr (r, l)"
    using Cons.prems by (auto simp: bindE_simps)
  have "a = (res @ [tg_model (spill_target c t)],
      loc @ (if tg_local (spill_target c t) then [tg_model (spill_target c t)] else []))"
    using a(1) assms by (auto simp: check_target_def spill_target_def split: if_splits option.splits)
  with Cons.IH [of "Suc n" "fst a" "snd a"] a(2) show ?case by auto
qed simp

lemma add_members_table:
  "add_members gid ms tab = Inr tab' \<Longrightarrow> foldl (\<lambda>t m. AList.update m gid t) tab ms = tab'"
  by (induction gid ms tab rule: add_members.induct) (auto split: option.splits)

lemma group_table_model_to_group: "model_to_group gs = Inr tab \<Longrightarrow> group_table gs = tab"
proof -
  have "foldE (\<lambda>(gid, g). add_members gid (gc_members g)) gs t0 = Inr tab \<Longrightarrow>
      foldl (\<lambda>tab (gid, g). foldl (\<lambda>t m. AList.update m gid t) tab (gc_members g)) t0 gs = tab" for t0
    by (induction gs arbitrary: t0) (auto simp: bindE_simps dest: add_members_table)
  then show "model_to_group gs = Inr tab \<Longrightarrow> group_table gs = tab"
    by (simp add: group_table_def model_to_group_def)
qed

section \<open>Spillover targets coexist\<close>

lemma foldl_wrap_sum:
  assumes "\<forall>m. 0 \<le> f m" and "0 \<le> c" and "c + sum_list (map f ms) \<le> max_int64"
  shows "foldl (\<lambda>used t. wrap64 (used + f t)) c ms = c + sum_list (map f ms)"
  using assms
proof (induction ms arbitrary: c)
  case (Cons m ms)
  have "0 \<le> sum_list (map f ms)" using assms(1) by (intro sum_list_nonneg) auto
  moreover have "0 \<le> f m" using assms(1) by blast
  ultimately have "0 \<le> c + f m" "c + f m \<le> max_int64" using Cons.prems by auto
  then have "wrap64 (c + f m) = c + f m" by (intro wrap64_id) (simp_all add: max_int64_def)
  with Cons.IH [of "c + f m"] Cons.prems show ?case by (simp add: add.assoc)
qed simp

lemma capacity_coexist:
  assumes "foldE (check_pool_sum models k ts) pools () = Inr ()" and "validate_capacity (Some pools) models = Inr ()"
    and "distinct ts" and "t \<in> set ts" and "set running \<subseteq> set ts"
  shows "capacity_evict pools models n t running = []"
proof -
  note nn = validated(1) [OF assms(2)]
  have room: "room pools models t running ev" for ev
    unfolding room_def
  proof
    fix p assume "p \<in> fst ` set pools"
    then obtain cap_total where cap_total: "map_of pools p = Some cap_total" "(p, cap_total) \<in> set pools"
      by (metis map_of_SomeD map_of_eq_None_iff not_None_eq)
    have ok: "check_pool_sum models k ts (p, cap_total) () = Inr ()" by (rule foldE_unit_all [OF assms(1) cap_total(2)])
    have "usum (usage_of models) ts p \<le> max_int64" using validated_range [OF assms(2,3)] by blast
    then have "foldl (\<lambda>used t. wrap64 (used + usage_of models t p)) 0 ts = usum (usage_of models) ts p"
      using foldl_wrap_sum [of "\<lambda>t. usage_of models t p" 0 ts] nn by (simp add: usum_def)
    with ok have "(\<Sum>m\<in>set ts. usage_of models m p) \<le> cap_total"
      using usum_distinct [OF assms(3), of "usage_of models" p] by (auto simp: check_pool_sum_def split: if_splits)
    moreover have "usage_of models t p + (\<Sum>m\<in>set running - {t} - set ev. usage_of models m p) \<le>
        (\<Sum>m\<in>set ts. usage_of models m p)"
    proof -
      have "usage_of models t p + (\<Sum>m\<in>set running - {t} - set ev. usage_of models m p) =
          (\<Sum>m\<in>insert t (set running - {t} - set ev). usage_of models m p)" by simp
      also have "\<dots> \<le> (\<Sum>m\<in>set ts. usage_of models m p)"
        using assms(4,5) nn by (intro sum_mono2) auto
      finally show ?thesis .
    qed
    ultimately show "usage_of models t p + (\<Sum>m\<in>set running - {t} - set ev. usage_of models m p) \<le> count_of (map_of pools) p"
      using cap_total(1) by (simp add: count_of_def)
  qed
  have "subseq [] (candidates_of t running)" by simp
  from feas_room [OF this] room have feas: "feas (usage_of models) (need_fun pools models t (candidates_of t running)) (sort (map fst pools)) []"
    by simp
  show ?thesis
    unfolding capacity_evict_def capacity_plan_eq Let_def using feas by simp
qed

lemma matrix_coexist:
  assumes "can_contain_all p ts" and "ts \<noteq> []" and "program_ok p" and "\<forall>m. 0 < eviction_cost costs m"
    and "sum_list (map (eviction_cost costs) running) < 2 ^ 63" and "t \<in> set ts" and "set running \<subseteq> set ts"
  shows "matrix_evict p costs t running = []"
proof (cases "t \<in> set running")
  case True
  then show ?thesis by (simp add: matrix_evict_def solve_def split: prod.splits)
next
  case False
  obtain s S where s: "s \<in> set (pr_sets p)" "S \<in> combos (cs_root s)" "set ts \<subseteq> S"
    using assms(1,2) contains_required_iff [OF assms(3)] by (auto simp: can_contain_all_def list_ex_iff)
  have none: "filter (\<lambda>m. m \<notin> S) running = []" using s(3) assms(7) by (auto simp: filter_empty_conv)
  have nonneg: "\<forall>m\<in>set running. 0 \<le> eviction_cost costs m" using assms(4) by (simp add: less_imp_le)
  from solve_best [OF assms(3) False nonneg assms(5)] show ?thesis
  proof (elim disjE exE conjE, goal_cases)
    case 1
    then show ?case using s assms(6) by blast
  next
    case (2 pre s0 post S0)
    have "evict_cost costs running S0 \<le> evict_cost costs running S" using 2(12) s assms(6) by blast
    then have "evict_cost costs running S0 \<le> 0" by (simp add: evict_cost_def none)
    have "filter (\<lambda>m. m \<notin> S0) running = []"
    proof (cases "filter (\<lambda>m. m \<notin> S0) running")
      case (Cons m ms)
      have "0 \<le> sum_list (map (eviction_cost costs) ms)" using assms(4) by (intro sum_list_nonneg) (auto simp: less_imp_le)
      then have "0 < evict_cost costs running S0" using assms(4) by (simp add: evict_cost_def Cons add_pos_nonneg)
      with \<open>evict_cost costs running S0 \<le> 0\<close> show ?thesis by simp
    qed
    with 2(6) show ?case by (simp add: matrix_evict_def)
  qed
qed

lemma group_coexist:
  assumes "validate_coexistence (UseGroup gs) k ts = Inr ()" and "model_to_group gs = Inr tab"
    and "t \<in> set ts" and "m \<in> set ts"
  shows "m \<notin> set (group_eviction_for \<lparr>gs_groups = gs, gs_table = tab\<rparr> t running)"
proof -
  let ?s = "\<lparr>gs_groups = gs, gs_table = tab\<rparr>"
  have evict: "m \<in> set (group_eviction_for ?s t running) \<longleftrightarrow> m \<in> set running \<and> group_evicts ?s t m"
    using fold_consider_model [of "[]" ?s t running] by (auto simp: group_eviction_for_def)
  show ?thesis
  proof (cases "length ts \<le> 1")
    case True
    then have "m = t" using assms(3,4) by (cases ts) (auto simp: le_Suc_eq)
    then show ?thesis unfolding evict by (simp add: group_evicts_def)
  next
    case False
    then have "group_of ?s x = group_of ?s (hd ts) \<and> \<not> gc_swap (group_cfg ?s (group_of ?s (hd ts)))" if "x \<in> set ts" for x
      using assms(1) that group_table_model_to_group [OF assms(2)]
      by (cases ts) (auto simp: validate_coexistence_def Let_def list_ex_iff split: if_splits)
    from this [OF assms(3)] this [OF assms(4)] show ?thesis unfolding evict by (simp add: group_evicts_def)
  qed
qed

lemma policy_evict_subset: "set (policy_evict pol t running) \<subseteq> set running - {t}"
proof (cases pol)
  case (GroupPolicy s)
  then show ?thesis using grp.evict_running [of s t running] grp.evict_not_target [of t s running] by auto
next
  case (MatrixPolicy p costs)
  then show ?thesis using mtx.evict_running [of p costs t running] mtx.evict_not_target [of t p costs running] by auto
next
  case (CapacityPolicy pools models n)
  then show ?thesis
    using cap.evict_running [of pools models n t running] cap.evict_not_target [of t pools models n running] by auto
qed

text \<open>How a router's settings and the policy it runs with belong together.\<close>

definition runs_with :: "router_settings \<Rightarrow> policy \<Rightarrow> string list \<Rightarrow> bool" where
  "runs_with rt pol running =
     (case (rt, pol) of
        (UseGroup gs, GroupPolicy s) \<Rightarrow> gs_groups s = gs \<and> model_to_group gs = Inr (gs_table s)
      | (UseMatrix (Some p), MatrixPolicy q costs) \<Rightarrow> q = p \<and>
          (\<exists>mx models. validate_matrix mx models = Inr p \<and> distinct (map sd_name (mx_sets mx)) \<and>
             costs = resolved_evict_costs mx \<and> sum_list (map (eviction_cost costs) running) < 2 ^ 63)
      | (UseCapacity pools models, CapacityPolicy pools' models' n) \<Rightarrow>
          pools' = pools \<and> models' = models \<and> validate_capacity (Some pools) models = Inr ()
      | _ \<Rightarrow> False)"

text \<open>
  C11. A spillover never swaps: when validation accepts the local targets of a spillover selector, then under the
  router that runs with those settings, be it the group, the matrix or the capacity router, loading any
  target while only targets of the selector are running evicts nothing.
\<close>
theorem spillover_targets_coexist:
  assumes "validate_coexistence rt k ts = Inr ()" and "distinct ts" and "runs_with rt pol running"
    and "t \<in> set ts" and "set running \<subseteq> set ts"
  shows "policy_evict pol t running = []"
proof (cases "length ts \<le> 1")
  case True
  then have "set running \<subseteq> {t}" using assms(4,5) by (cases ts) (auto simp: le_Suc_eq)
  moreover have "set (policy_evict pol t running) \<subseteq> set running - {t}"
    by (rule policy_evict_subset)
  ultimately have "set (policy_evict pol t running) \<subseteq> {t} - {t}" by (meson Diff_mono order_refl subset_trans)
  then show ?thesis by simp
next
  case False
  show ?thesis
  proof (cases rt)
    case (UseCapacity pools models)
    with assms(3) obtain n where pol: "pol = CapacityPolicy pools models n" "validate_capacity (Some pools) models = Inr ()"
      by (auto simp: runs_with_def split: policy.splits)
    have "foldE (check_pool_sum models k ts) pools () = Inr ()"
      using assms(1) False UseCapacity by (simp add: validate_coexistence_def)
    from capacity_coexist [OF this pol(2) assms(2,4,5)] pol(1) show ?thesis by simp
  next
    case (UseMatrix prog)
    with assms(3) obtain p costs mx models where p: "prog = Some p" "pol = MatrixPolicy p costs"
      "validate_matrix mx models = Inr p" "distinct (map sd_name (mx_sets mx))" "costs = resolved_evict_costs mx"
      "sum_list (map (eviction_cost costs) running) < 2 ^ 63"
      by (cases pol; cases prog) (auto simp: runs_with_def)
    have "can_contain_all p ts"
      using assms(1) False UseMatrix p(1) by (auto simp: validate_coexistence_def split: if_splits)
    moreover have "ts \<noteq> []" using False by auto
    moreover have "program_ok p" by (rule compile_program_ok [OF p(4) validate_matrix_ok(1) [OF p(3)]])
    moreover have "\<forall>m. 0 < eviction_cost costs m" using resolved_costs_pos [OF p(3)] p(5) by simp
    ultimately show ?thesis using matrix_coexist [of p ts costs running t] p(2,6) assms(4,5) by simp
  next
    case (UseGroup gs)
    with assms(3) obtain s where s: "pol = GroupPolicy s" "gs_groups s = gs" "model_to_group gs = Inr (gs_table s)"
      by (auto simp: runs_with_def split: policy.splits)
    have "s = \<lparr>gs_groups = gs, gs_table = gs_table s\<rparr>" using s(2) by (cases s) simp
    then have "m \<notin> set (group_eviction_for s t running)" if "m \<in> set ts" for m
      using group_coexist [OF assms(1) [unfolded UseGroup] s(3) assms(4) that, of running] by simp
    moreover have "set (group_eviction_for s t running) \<subseteq> set ts"
      using grp.evict_running [of s t running] assms(5) by blast
    ultimately have "set (group_eviction_for s t running) = {}" by (metis equals0I subsetD)
    with s(1) show ?thesis by simp
  qed
qed

theorem spillover_targets_coexist_witness:
  "policy_evict (CapacityPolicy [(''ram'', 8)] [(''a'', \<lparr>mc_capacities = [(''ram'', 3)], mc_evict_cost = 0\<rparr>),
     (''b'', \<lparr>mc_capacities = [(''ram'', 5)], mc_evict_cost = 0\<rparr>)] 0) ''b'' [''a''] = []"
proof -
  let ?models = "[(''a'', \<lparr>mc_capacities = [(''ram'', 3)], mc_evict_cost = 0\<rparr>),
     (''b'', \<lparr>mc_capacities = [(''ram'', 5)], mc_evict_cost = 0\<rparr>)]"
  have v: "validate_coexistence (UseCapacity [(''ram'', 8)] ?models) ''k'' [''a'', ''b''] = Inr ()"
    by (simp add: validate_coexistence_def check_pool_sum_def usage_of_def wrap64_def)
  have "validate_capacity (Some [(''ram'', 8)]) ?models = Inr ()" by code_simp
  then have "runs_with (UseCapacity [(''ram'', 8)] ?models) (CapacityPolicy [(''ram'', 8)] ?models 0) [''a'']"
    by (simp add: runs_with_def)
  from spillover_targets_coexist [OF v _ this, of "''b''"] show ?thesis by simp
qed

text \<open>What validation gives the selector's state, so that the properties of the spillover strategy apply to it.\<close>

lemma validated_selector_fresh:
  assumes "validate_selectors c sels rt = Inr ()" and "(k, sel) \<in> set sels" and "se_strategy sel = ''spillover''"
  shows "distinct (map tg_model (sp_targets (new_spill_state c sel))) \<and> distinct (map tg_target (sp_targets (new_spill_state c sel))) \<and>
    validate_coexistence rt k (map tg_model (filter tg_local (sp_targets (new_spill_state c sel)))) = Inr () \<and>
    1 \<le> sp_spillover (new_spill_state c sel)"
proof -
  have "validate_selector c sels rt (k, sel) () = Inr ()"
    using foldE_unit_all assms(1,2) unfolding validate_selectors_def by metis
  then obtain r l where rl: "foldE (check_target c sels k sel) (enumerate 0 (se_targets sel)) ([], []) = Inr (r, l)"
    "1 \<le> se_spillover sel" "check_distinct k [] r = Inr ()" "validate_coexistence rt k l = Inr ()"
    using assms(3) by (auto simp: validate_selector_def bindE_simps split: if_splits)
  have r: "r = map tg_model (map (spill_target c) (se_targets sel))"
    "l = map tg_model (filter tg_local (map (spill_target c) (se_targets sel)))"
    using check_targets_spillover [OF assms(3) rl(1)] by simp_all
  have d: "distinct (map tg_model (map (spill_target c) (se_targets sel)))" using rl(3) r by (simp add: check_distinct_ok)
  then have "distinct (map tg_target (map (spill_target c) (se_targets sel)))"
    by (auto simp: distinct_map inj_on_def comp_def spill_target_def split: option.splits)
  with d rl r show ?thesis by (simp add: new_spill_state_def)
qed

end
