(* ===== verification/RouterSystem.thy ===== *)
theory RouterSystem
  imports Routers
begin

text \<open>
  A router with the processes it manages (\<open>internal/router/base.go\<close>): the scheduler's event loop, the goroutine
  each swap runs in (\<open>StartSwap\<close>, \<open>doSwap\<close>), the gate that a pause closes, unloading and shutdown, in any
  interleaving. The question is which models are up (starting, ready or stopping) at the same time. A policy
  decides on what it sees running while swaps it has decided on before are still stopping their victims,
  so this is not a property of the policy alone.
\<close>

section \<open>The goroutine of a swap\<close>

text \<open>
  \<open>GateAhead\<close>: before the check of the start gate; \<open>Evicting D\<close>: in \<open>doSwap\<close>, the victims \<open>D\<close> have been
  stopped; \<open>Ensuring\<close>: after the call of \<open>EnsureReady\<close>, which starts the target; \<open>GateRefused\<close>: the gate
  refused the swap. A goroutine lives as long as its swap is active: whoever takes the swap
  out of the scheduler's table cancels the goroutine and waits for it.
\<close>

datatype stage = GateAhead | GateRefused | Evicting "string set" | Ensuring

record sys =
  sy_sched :: fifo
  sy_up :: "string set"
  sy_stage :: "string \<Rightarrow> stage"
  sy_paused :: bool
  sy_closed :: bool

definition new_sys :: sys where
  "new_sys = \<lparr>sy_sched = new_fifo, sy_up = {}, sy_stage = (\<lambda>_. GateAhead), sy_paused = False, sy_closed = False\<rparr>"

text \<open>What identifies the goroutine of an active swap, and the goroutines after a handler: new swaps start theirs.\<close>

definition swap_key :: "fifo \<Rightarrow> string \<rightharpoonup> 64 word \<times> string list" where
  "swap_key st m = map_option (\<lambda>sw. (sw_generation sw, sw_evict sw)) (map_of (fs_active st) m)"

definition start_swaps :: "fifo \<Rightarrow> fifo \<Rightarrow> (string \<Rightarrow> stage) \<Rightarrow> string \<Rightarrow> stage" where
  "start_swaps st st' stages m =
     (if swap_key st m \<noteq> None \<and> swap_key st' m = swap_key st m then stages m else GateAhead)"

text \<open>\<open>StartSwap\<close>: the gate is read once, at the start.\<close>

definition pass_gate :: "string \<Rightarrow> sys \<Rightarrow> sys option" where
  "pass_gate m s =
     (if swap_key (sy_sched s) m \<noteq> None \<and> sy_stage s m = GateAhead
      then Some (s\<lparr>sy_stage := (sy_stage s)(m := (if sy_paused s then GateRefused else Evicting {}))\<rparr>)
      else None)"

text \<open>\<open>doSwap\<close>: stop the victims, in any order, then ask the target to be ready.\<close>

definition stop_victim :: "string \<Rightarrow> string \<Rightarrow> sys \<Rightarrow> sys option" where
  "stop_victim m e s =
     (case (swap_key (sy_sched s) m, sy_stage s m) of
        (Some (gen, ev), Evicting D) \<Rightarrow>
          if e \<in> set ev
          then Some (s\<lparr>sy_up := sy_up s - {e}, sy_stage := (sy_stage s)(m := Evicting (insert e D))\<rparr>)
          else None
      | _ \<Rightarrow> None)"

definition ensure_ready :: "string \<Rightarrow> sys \<Rightarrow> sys option" where
  "ensure_ready m s =
     (case (swap_key (sy_sched s) m, sy_stage s m) of
        (Some (gen, ev), Evicting D) \<Rightarrow>
          if set ev \<subseteq> D
          then Some (s\<lparr>sy_up := insert m (sy_up s), sy_stage := (sy_stage s)(m := Ensuring)\<rparr>)
          else None
      | _ \<Rightarrow> None)"

section \<open>The event loop over the processes\<close>

text \<open>
  The requests a handler decides, in order: the new one, or the queue it drains. The decisions see the processes
  that are up when they are made; a process can go down between two decisions. A process that comes up
  between them is the target of an active swap, which every decision counts as running already. After an
  unload has stopped its targets they are not up. \<open>known\<close> are the models of the configuration.
\<close>

fun decided :: "event \<Rightarrow> fifo \<Rightarrow> req list" where
  "decided (EvRequest env r) st = [r]"
| "decided (EvCancel r) st = []"
| "decided (EvSwapDone env m gen err) st = fs_queued st"
| "decided (EvServeDone env m) st = fs_queued st"
| "decided (EvUnload env targets) st = filter (\<lambda>w. rq_model w \<notin> set targets) (fs_queued st)"

fun env_of :: "event \<Rightarrow> env option" where
  "env_of (EvRequest env r) = Some env"
| "env_of (EvCancel r) = None"
| "env_of (EvSwapDone env m gen err) = Some env"
| "env_of (EvServeDone env m) = Some env"
| "env_of (EvUnload env targets) = Some env"

fun stopped_by :: "event \<Rightarrow> string set" where
  "stopped_by (EvUnload env targets) = set targets"
| "stopped_by ev = {}"

definition observes :: "string set \<Rightarrow> env \<Rightarrow> string set \<Rightarrow> string set \<Rightarrow> req list \<Rightarrow> bool" where
  "observes known env before after rs \<longleftrightarrow>
     (\<forall>r \<in> set rs. (en_state env (rq_id r) \<noteq> None \<longrightarrow> rq_model r \<in> known) \<and>
        after \<subseteq> set (en_running env (rq_id r)) \<and> set (en_running env (rq_id r)) \<subseteq> before) \<and>
     sorted_wrt (\<lambda>a b. set (en_running env (rq_id b)) \<subseteq> set (en_running env (rq_id a))) rs"

definition sees :: "string set \<Rightarrow> event \<Rightarrow> sys \<Rightarrow> string set \<Rightarrow> bool" where
  "sees known ev s after \<longleftrightarrow> after \<subseteq> sy_up s - stopped_by ev \<and>
     (case env_of ev of None \<Rightarrow> True
      | Some env \<Rightarrow> observes known env (sy_up s - stopped_by ev) after (decided ev (sy_sched s)))"

definition run_handler :: "fifo_config \<Rightarrow> string set \<Rightarrow> event \<Rightarrow> string set \<Rightarrow> sys \<Rightarrow> sys option" where
  "run_handler cfg known ev after s =
     (if enabled ev (sy_sched s) \<and> sees known ev s after then
        (case handle cfg ev (sy_sched s) of
           Inl e \<Rightarrow> None
         | Inr st' \<Rightarrow> Some (s\<lparr>sy_sched := st', sy_up := after, sy_stage := start_swaps (sy_sched s) st' (sy_stage s)\<rparr>))
      else None)"

text \<open>\<open>handleShutdown\<close>: no handler runs after it, every swap is cancelled and every process stopped.\<close>

definition shut_down :: "sched_error \<Rightarrow> sys \<Rightarrow> sys option" where
  "shut_down e s =
     (case on_shutdown e (sy_sched s) of
        Inl p \<Rightarrow> None
      | Inr st' \<Rightarrow> Some (s\<lparr>sy_sched := st', sy_up := {}, sy_closed := True\<rparr>))"

datatype sys_event =
    SysHandle event "string set"
  | SysGate string
  | SysStop string string
  | SysEnsure string
  | SysDown string
  | SysPause bool
  | SysShutdown sched_error

fun sys_step :: "fifo_config \<Rightarrow> string set \<Rightarrow> sys_event \<Rightarrow> sys \<Rightarrow> sys option" where
  "sys_step cfg known (SysHandle ev after) s = (if sy_closed s then None else run_handler cfg known ev after s)"
| "sys_step cfg known (SysGate m) s = (if sy_closed s then None else pass_gate m s)"
| "sys_step cfg known (SysStop m e) s = (if sy_closed s then None else stop_victim m e s)"
| "sys_step cfg known (SysEnsure m) s = (if sy_closed s then None else ensure_ready m s)"
| "sys_step cfg known (SysDown m) s = Some (s\<lparr>sy_up := sy_up s - {m}\<rparr>)"
| "sys_step cfg known (SysPause b) s = Some (s\<lparr>sy_paused := b\<rparr>)"
| "sys_step cfg known (SysShutdown e) s = (if sy_closed s then None else shut_down e s)"

fun sys_run :: "fifo_config \<Rightarrow> string set \<Rightarrow> sys_event list \<Rightarrow> sys \<Rightarrow> sys option" where
  "sys_run cfg known [] s = Some s"
| "sys_run cfg known (ev # evs) s =
     (case sys_step cfg known ev s of None \<Rightarrow> None | Some s' \<Rightarrow> sys_run cfg known evs s')"

section \<open>Unload requests\<close>

text \<open>
  \<open>Unload\<close>: with a timeout, one request for all targets; without, one per configured timeout, the
  smallest first. No models named means all of them.
\<close>

record unload_config =
  uc_models :: "(string \<times> int) list"
  uc_global :: int

definition unload_timeout :: "unload_config \<Rightarrow> string \<Rightarrow> int" where
  "unload_timeout c m =
     wrap64 ((case map_of (uc_models c) m of Some t \<Rightarrow> t | None \<Rightarrow> uc_global c) * 1000000000)"

definition unload_requests :: "unload_config \<Rightarrow> string list \<Rightarrow> int \<Rightarrow> string list \<Rightarrow> (int \<times> string list) list" where
  "unload_requests c processes timeout models =
     (let targets = (if models = [] then processes else models) in
      if targets = [] then []
      else if 0 < timeout then [(timeout, targets)]
      else map (\<lambda>t. (t, filter (\<lambda>m. unload_timeout c m = t) targets)) (sort (remdups (map (unload_timeout c) targets))))"

lemma unload_requests_targets:
  "\<Union> (set ` snd ` set (unload_requests c processes timeout models)) = (if models = [] then set processes else set models)"
  by (auto simp: unload_requests_def Let_def)

section \<open>What handlers do to the table of swaps\<close>

lemma swap_key_Some: "swap_key st m = Some (g, ev) \<longleftrightarrow> (\<exists>sw. map_of (fs_active st) m = Some sw \<and> sw_generation sw = g \<and> sw_evict sw = ev)"
  by (auto simp: swap_key_def)

lemma swap_key_None: "swap_key st m = None \<longleftrightarrow> map_of (fs_active st) m = None"
  by (simp add: swap_key_def)

lemma dom_swap_key: "dom (swap_key st) = fst ` set (fs_active st)"
  by (auto simp: dom_def swap_key_None map_of_eq_None_iff)

lemma swap_key_active: "fs_active st' = fs_active st \<Longrightarrow> swap_key st' = swap_key st"
  by (simp add: swap_key_def fun_eq_iff)

lemma release_keeps: "release m st = Inr st' \<Longrightarrow> fs_active st' = fs_active st \<and> fs_queued st' = fs_queued st"
  by (auto simp: release_def Let_def split: if_splits)

lemma grant_error_keeps: "grant_error r e st = Inr st' \<Longrightarrow> fs_active st' = fs_active st \<and> fs_queued st' = fs_queued st"
  by (auto simp: grant_error_def bindE_simps dest: release_keeps)

lemma grant_handler_keeps: "grant_handler env r m st = Inr st' \<Longrightarrow> fs_active st' = fs_active st \<and> fs_queued st' = fs_queued st"
  by (auto simp: grant_handler_def dest!: release_keeps split: if_splits)

lemma foldE_keeps:
  assumes "\<And>x s s'. x \<in> set xs \<Longrightarrow> f x s = Inr s' \<Longrightarrow> g s' = g s" and "foldE f xs s = Inr s'"
  shows "g s' = g s"
  using assms
proof (induction xs arbitrary: s)
  case (Cons x xs)
  then obtain s1 where s1: "f x s = Inr s1" "foldE f xs s1 = Inr s'" by (auto simp: bindE_simps)
  have "g s1 = g s" by (rule Cons.prems(1) [OF _ s1(1)]) simp
  moreover have "g s' = g s1" by (rule Cons.IH [OF Cons.prems(1) s1(2)]) simp_all
  ultimately show ?case by simp
qed simp

lemma grant_errors_keeps:
  assumes "foldE (\<lambda>w. grant_error w e) ws st = Inr st'"
  shows "fs_active st' = fs_active st" and "fs_queued st' = fs_queued st"
  using foldE_keeps [of ws _ fs_active, OF _ assms] foldE_keeps [of ws _ fs_queued, OF _ assms] grant_error_keeps by blast+

lemma grant_waiters_keeps:
  assumes "foldE (grant_waiter env m err) ws st = Inr st'"
  shows "fs_active st' = fs_active st" and "fs_queued st' = fs_queued st"
proof -
  have one: "fs_active s' = fs_active s \<and> fs_queued s' = fs_queued s" if "grant_waiter env m err w s = Inr s'" for w s s'
    using that grant_error_keeps grant_handler_keeps by (cases err) (fastforce simp: grant_waiter_def)+
  show "fs_active st' = fs_active st" using foldE_keeps [of ws _ fs_active, OF _ assms] one by blast
  show "fs_queued st' = fs_queued st" using foldE_keeps [of ws _ fs_queued, OF _ assms] one by blast
qed

lemma admit_keeps: "admit cfg env r st = (ok, st') \<Longrightarrow> fs_active st' = fs_active st \<and> fs_queued st' = fs_queued st"
  by (auto simp: admit_def reject_admission_def split: if_splits)

lemma swap_key_join: "map_of (fs_active st) m = Some sw \<Longrightarrow> swap_key (join_swap m sw r st) = swap_key st"
  by (auto simp: swap_key_def join_swap_def fun_eq_iff)

lemma swap_key_start: "swap_key (start_swap r ev st) = (swap_key st)(rq_model r \<mapsto> (fs_next st + 1, ev))"
  by (auto simp: swap_key_def start_swap_def Let_def fun_eq_iff)

lemma swap_key_delete:
  "swap_key (st\<lparr>fs_active := AList.delete m (fs_active st)\<rparr>) = (swap_key st)(m := None)"
  by (auto simp: swap_key_def fun_eq_iff)

lemma map_le_drop: "v(m := None) \<subseteq>\<^sub>m v"
  by (simp add: map_le_def)

text \<open>One decision: the table stays as it is, or gets a swap for the request's model.\<close>

definition decides :: "fifo_config \<Rightarrow> env \<Rightarrow> req \<Rightarrow> fifo \<Rightarrow> fifo \<Rightarrow> bool" where
  "decides cfg env r st st' \<longleftrightarrow> swap_key st' = swap_key st \<or>
     (\<exists>g. swap_key st (rq_model r) = None \<and> en_state env (rq_id r) \<noteq> None \<and>
        swap_key st' = (swap_key st)(rq_model r \<mapsto> (g, fc_evict cfg (rq_model r) (running_set env r st))))"

lemma decision_same: "fs_active st' = fs_active st \<Longrightarrow> decides cfg env r st st'"
  unfolding decides_def by (rule disjI1) (rule swap_key_active)

lemma decision_join: "map_of (fs_active st) m = Some sw \<Longrightarrow> decides cfg env r st (join_swap m sw w st)"
  unfolding decides_def by (rule disjI1) (rule swap_key_join)

lemma decision_start:
  "map_of (fs_active st) (rq_model r) = None \<Longrightarrow> en_state env (rq_id r) \<noteq> None \<Longrightarrow>
   decides cfg env r st (start_swap r (fc_evict cfg (rq_model r) (running_set env r st)) st)"
  by (auto simp: decides_def swap_key_start swap_key_None)

lemmas decisions = decision_same decision_join decision_start

lemma drain_one_decision:
  assumes "drain_one cfg env r (st, rem) = Inr (st', rem')"
  shows "decides cfg env r st st'"
proof (cases "en_state env (rq_id r)")
  case None
  with assms show ?thesis
    by (auto simp: drain_one_def bindE_simps dest!: grant_error_keeps intro!: decision_same)
next
  case (Some state)
  show ?thesis
  proof (cases "map_of (fs_active st) (rq_model r)")
    case (Some sw)
    with \<open>en_state env (rq_id r) = Some state\<close> assms show ?thesis by (auto simp: drain_one_def intro: decision_join)
  next
    case None
    from decision_start [OF this, of env cfg] Some None assms show ?thesis
      by (auto simp: drain_one_def Let_def bindE_simps dest!: grant_handler_keeps intro: decision_same split: if_splits)
  qed
qed

lemma on_request_decision:
  assumes "on_request cfg env r st = Inr st'"
  shows "decides cfg env r st st'"
proof (cases "en_state env (rq_id r)")
  case None
  with assms show ?thesis by (auto simp: on_request_def reject_admission_def decides_def intro!: swap_key_active)
next
  case (Some state)
  obtain ok st1 where a: "admit cfg env r st = (ok, st1)" by (cases "admit cfg env r st")
  note keep = admit_keeps [OF a]
  have "decides cfg env r st1 st'"
  proof (cases "map_of (fs_active st1) (rq_model r)")
    case None
    from decision_start [OF this, of env cfg] Some None assms a show ?thesis
      by (auto simp: on_request_def Let_def enqueue_def dest!: grant_handler_keeps intro: decision_same split: if_splits)
  next
    case (Some sw)
    with \<open>en_state env (rq_id r) = Some state\<close> assms a show ?thesis
      by (auto simp: on_request_def intro: decisions split: if_splits)
  qed
  with keep swap_key_active [of st1 st] show ?thesis by (simp add: decides_def running_set_def)
qed

lemma prune_keeps:
  assumes "prune rid rs st = Inr (st', kept)"
  shows "fs_active st' = fs_active st"
proof -
  have "fs_active (fst acc') = fs_active (fst acc)"
    if "foldE (\<lambda>q acc. if rq_id q = rid
      then bindE (bindE (release (rq_model q) (fst acc)) (\<lambda>s. Inr (log_effect (Pruned rid) s))) (\<lambda>s. Inr (s, snd acc))
      else Inr (fst acc, snd acc @ [q])) rs acc = Inr acc'" for acc acc' :: "fifo \<times> req list"
    by (rule foldE_keeps [where g = "\<lambda>acc. fs_active (fst acc)", OF _ that])
       (auto simp: bindE_simps dest!: release_keeps split: if_splits)
  from this [of "(st, [])" "(st', kept)"] assms show ?thesis unfolding prune_alt by simp
qed

lemma prune_swap_key:
  assumes "prune_swap rid (m, sw) st = Inr st'" and "swap_key st m = Some (sw_generation sw, sw_evict sw)"
  shows "swap_key st' = swap_key st"
proof -
  obtain st1 kept where st1: "prune rid (sw_waiters sw) st = Inr (st1, kept)"
    "st' = st1\<lparr>fs_active := AList.update m (sw\<lparr>sw_waiters := kept\<rparr>) (fs_active st1)\<rparr>"
    using assms(1) by (auto simp: prune_swap_def bindE_simps)
  have "swap_key st' k = swap_key st k" for k
    using prune_keeps [OF st1(1)] assms(2) by (cases "k = m") (auto simp: swap_key_def st1(2))
  then show ?thesis by (simp add: fun_eq_iff)
qed

lemma on_cancel_key:
  assumes "on_cancel r st = Inr st'" and "distinct (map fst (fs_active st))"
  shows "swap_key st' = swap_key st"
proof -
  obtain st1 kept where st1: "prune (rq_id r) (fs_queued st) st = Inr (st1, kept)"
    "foldE (prune_swap (rq_id r)) (fs_active st1) (st1\<lparr>fs_queued := kept\<rparr>) = Inr st'"
    using assms(1) by (auto simp: on_cancel_def bindE_simps)
  have fold: "swap_key s' = swap_key s"
    if "foldE (prune_swap rid) al s = Inr s'" and "\<forall>(m, sw)\<in>set al. swap_key s m = Some (sw_generation sw, sw_evict sw)" for rid al s s'
    using that
  proof (induction al arbitrary: s)
    case (Cons x al)
    obtain m sw where x: "x = (m, sw)" by (cases x)
    from Cons.prems(1) obtain s1 where s1: "prune_swap rid (m, sw) s = Inr s1" "foldE (prune_swap rid) al s1 = Inr s'"
      by (auto simp: bindE_simps x)
    have "swap_key s1 = swap_key s" using prune_swap_key [OF s1(1)] Cons.prems(2) by (simp add: x)
    with Cons.IH [OF s1(2)] Cons.prems(2) show ?case by simp
  qed simp
  note act = prune_keeps [OF st1(1)]
  have "\<forall>(m, sw)\<in>set (fs_active st1). swap_key (st1\<lparr>fs_queued := kept\<rparr>) m = Some (sw_generation sw, sw_evict sw)"
    using assms(2) act by (auto simp: swap_key_def)
  from fold [OF st1(2) this] show ?thesis using act by (simp add: swap_key_def fun_eq_iff)
qed

lemma cancel_target_key:
  assumes "cancel_target m st = Inr st'"
  shows "swap_key st' = (swap_key st)(m := None)" and "fs_queued st' = fs_queued st"
proof -
  have "swap_key st' = (swap_key st)(m := None) \<and> fs_queued st' = fs_queued st"
  proof (cases "map_of (fs_active st) m")
    case None
    with assms show ?thesis by (auto simp: cancel_target_def swap_key_def fun_eq_iff)
  next
    case (Some sw)
    with assms obtain st1 where st1: "foldE (\<lambda>w. grant_error w ErrUnloaded) (sw_waiters sw)
        (log_effect (SwapCancelled m (sw_generation sw)) st) = Inr st1"
      "st' = st1\<lparr>fs_active := AList.delete m (fs_active st1)\<rparr>"
      by (auto simp: cancel_target_def bindE_simps)
    from grant_errors_keeps [OF st1(1)] have "fs_active st1 = fs_active st" "fs_queued st1 = fs_queued st" by simp_all
    with swap_key_active [of st1 st] swap_key_delete [of m st1] st1(2) show ?thesis by simp
  qed
  then show "swap_key st' = (swap_key st)(m := None)" "fs_queued st' = fs_queued st" by simp_all
qed

lemma cancel_targets_key:
  assumes "foldE cancel_target ms st = Inr st'"
  shows "swap_key st' \<subseteq>\<^sub>m swap_key st" and "dom (swap_key st') \<inter> set ms = {}" and "fs_queued st' = fs_queued st"
proof -
  have "swap_key st' \<subseteq>\<^sub>m swap_key st \<and> dom (swap_key st') \<inter> set ms = {} \<and> fs_queued st' = fs_queued st"
    using assms
  proof (induction ms arbitrary: st)
    case (Cons m ms)
    then obtain st1 where st1: "cancel_target m st = Inr st1" "foldE cancel_target ms st1 = Inr st'"
      by (auto simp: bindE_simps)
    note k = cancel_target_key [OF st1(1)]
    from Cons.IH [OF st1(2)] have ih: "swap_key st' \<subseteq>\<^sub>m swap_key st1" "dom (swap_key st') \<inter> set ms = {}"
      "fs_queued st' = fs_queued st1" by simp_all
    have "swap_key st' \<subseteq>\<^sub>m swap_key st"
      using ih(1) map_le_drop [of "swap_key st" m] map_le_trans unfolding k(1) by blast
    moreover have "m \<notin> dom (swap_key st')"
      using map_le_implies_dom_le [OF ih(1)] unfolding k(1) by auto
    ultimately show ?case using ih k(2) by simp
  qed simp
  then show "swap_key st' \<subseteq>\<^sub>m swap_key st" "dom (swap_key st') \<inter> set ms = {}" "fs_queued st' = fs_queued st" by simp_all
qed

lemma drop_targets_keeps:
  assumes "foldE (drop_target targets) rs (st, kept) = Inr (st', kept')"
  shows "fs_active st' = fs_active st" and "kept' = kept @ filter (\<lambda>w. rq_model w \<notin> set targets) rs"
proof -
  have "fs_active st' = fs_active st \<and> kept' = kept @ filter (\<lambda>w. rq_model w \<notin> set targets) rs"
    using assms
  proof (induction rs arbitrary: st kept)
    case (Cons w rs)
    obtain st1 kept1 where s1: "drop_target targets w (st, kept) = Inr (st1, kept1)"
      "foldE (drop_target targets) rs (st1, kept1) = Inr (st', kept')"
      using Cons.prems by (auto simp: bindE_simps)
    have "fs_active st1 = fs_active st" "kept1 = kept @ filter (\<lambda>w. rq_model w \<notin> set targets) [w]"
      using s1(1) by (auto simp: drop_target_def bindE_simps dest!: grant_error_keeps split: if_splits)
    with Cons.IH [OF s1(2)] show ?case by simp
  qed simp
  then show "fs_active st' = fs_active st" "kept' = kept @ filter (\<lambda>w. rq_model w \<notin> set targets) rs" by simp_all
qed

text \<open>
  Every handler takes swaps out of the table, keeps the others, and then makes its decisions one after the other.
\<close>

inductive decisions_of :: "fifo_config \<Rightarrow> env \<Rightarrow> req list \<Rightarrow> fifo \<Rightarrow> fifo \<Rightarrow> bool" for cfg env where
  no_decision: "decisions_of cfg env [] st st"
| next_decision: "decides cfg env r st st1 \<Longrightarrow> decisions_of cfg env rs st1 st' \<Longrightarrow> decisions_of cfg env (r # rs) st st'"

lemma drain_decisions:
  "foldE (drain_one cfg env) rs (st, rem) = Inr (st', rem') \<Longrightarrow> decisions_of cfg env rs st st'"
proof (induction rs arbitrary: st rem)
  case (Cons r rs)
  then obtain st1 rem1 where "drain_one cfg env r (st, rem) = Inr (st1, rem1)"
    "foldE (drain_one cfg env) rs (st1, rem1) = Inr (st', rem')" by (auto simp: bindE_simps)
  with Cons.IH drain_one_decision show ?case by (blast intro: next_decision)
qed (auto intro: no_decision)

lemma drain_queue_decisions:
  assumes "drain_queue cfg env st = Inr st'"
  shows "\<exists>st1. decisions_of cfg env (fs_queued st) st st1 \<and> swap_key st' = swap_key st1"
proof (cases "fs_queued st = []")
  case True
  with assms show ?thesis by (auto simp: drain_queue_def intro: no_decision)
next
  case False
  with assms obtain st1 rem where "foldE (drain_one cfg env) (fs_queued st) (st, []) = Inr (st1, rem)" "st' = st1\<lparr>fs_queued := rem\<rparr>"
    by (auto simp: drain_queue_def bindE_simps)
  with drain_decisions swap_key_active [of st' st1] show ?thesis by fastforce
qed

lemma handle_decisions:
  assumes "handle cfg ev st = Inr st'" and "distinct (map fst (fs_active st))"
  shows "\<exists>st0 st1. swap_key st0 \<subseteq>\<^sub>m swap_key st \<and> dom (swap_key st0) \<inter> stopped_by ev = {} \<and> swap_key st' = swap_key st1 \<and>
    (case env_of ev of None \<Rightarrow> st1 = st0 | Some env \<Rightarrow> decisions_of cfg env (decided ev st) st0 st1)"
proof (cases ev)
  case (EvRequest env r)
  with assms on_request_decision [of cfg env r st st'] show ?thesis
    by (intro exI [of _ st] exI [of _ st']) (auto intro: no_decision next_decision)
next
  case (EvCancel r)
  with assms on_cancel_key [of r st st'] show ?thesis by (intro exI [of _ st'] exI [of _ st']) simp
next
  case (EvSwapDone env m gen err)
  show ?thesis
  proof (cases "\<exists>sw. map_of (fs_active st) m = Some sw \<and> sw_generation sw = gen")
    case False
    then have "st' = st" using assms(1) EvSwapDone by (auto simp: on_swap_done_def split: option.splits if_splits)
    moreover have "decisions_of cfg env rs st st" for rs
      by (induction rs) (auto intro: no_decision next_decision decision_same)
    ultimately show ?thesis using EvSwapDone by (intro exI [of _ st] exI [of _ st]) auto
  next
    case True
    then obtain sw where sw: "map_of (fs_active st) m = Some sw" "sw_generation sw = gen" by blast
    let ?st1 = "(log_effect (SwapCancelled m gen) st)\<lparr>fs_active := AList.delete m (fs_active st)\<rparr>"
    obtain st2 where st2: "foldE (grant_waiter env m err) (sw_waiters sw) ?st1 = Inr st2" "drain_queue cfg env st2 = Inr st'"
      using assms(1) EvSwapDone sw by (auto simp: on_swap_done_def bindE_simps)
    note keep = grant_waiters_keeps [OF st2(1)]
    have k2: "swap_key st2 = (swap_key st)(m := None)"
      using swap_key_active [OF keep(1)] swap_key_delete [of m st] swap_key_active [of ?st1 "st\<lparr>fs_active := AList.delete m (fs_active st)\<rparr>"]
      by simp
    moreover have "fs_queued st2 = fs_queued st" using keep(2) by simp
    moreover obtain st3 where "decisions_of cfg env (fs_queued st2) st2 st3" "swap_key st' = swap_key st3"
      using drain_queue_decisions [OF st2(2)] by blast
    ultimately show ?thesis using map_le_drop [of "swap_key st" m] EvSwapDone
      by (intro exI [of _ st2] exI [of _ st3]) simp
  qed
next
  case (EvServeDone env m)
  let ?st1 = "st\<lparr>fs_in_flight := (fs_in_flight st)(m \<mapsto> count_of (fs_in_flight st) m - 1)\<rparr>"
  obtain st2 where st2: "release m ?st1 = Inr st2" "st' = st2 \<or>
      drain_queue cfg env (st2\<lparr>fs_in_flight := (fs_in_flight st2)(m := None)\<rparr>) = Inr st'"
    using assms(1) EvServeDone by (auto simp: on_serve_done_def bindE_simps split: if_splits)
  note keep = release_keeps [OF st2(1)]
  have keys: "swap_key st2 = swap_key st" "fs_queued st2 = fs_queued st"
    "swap_key (st2\<lparr>fs_in_flight := f\<rparr>) = swap_key st" for f
    using keep by (simp_all add: swap_key_def fun_eq_iff)
  have idle: "decisions_of cfg env rs st2 st2" for rs
    by (induction rs) (auto intro: no_decision next_decision decision_same)
  from st2(2) show ?thesis
  proof
    assume "st' = st2"
    with idle keys EvServeDone show ?thesis by (intro exI [of _ st2] exI [of _ st2]) auto
  next
    let ?st3 = "st2\<lparr>fs_in_flight := (fs_in_flight st2)(m := None)\<rparr>"
    assume "drain_queue cfg env ?st3 = Inr st'"
    from drain_queue_decisions [OF this] obtain st4 where "decisions_of cfg env (fs_queued ?st3) ?st3 st4"
      "swap_key st' = swap_key st4" by blast
    with keys EvServeDone show ?thesis by (intro exI [of _ ?st3] exI [of _ st4]) simp
  qed
next
  case (EvUnload env targets)
  from assms(1) EvUnload obtain st1 st2 kept where st1: "foldE cancel_target (remdups targets) st = Inr st1"
    "foldE (drop_target targets) (fs_queued st1) (st1, []) = Inr (st2, kept)"
    "drain_queue cfg env (log_effect (ProcessesStopped targets) (st2\<lparr>fs_queued := kept\<rparr>)) = Inr st'"
    by (auto simp: on_unload_def bindE_simps)
  note c = cancel_targets_key [OF st1(1)] and d = drop_targets_keeps [OF st1(2)]
  let ?st3 = "log_effect (ProcessesStopped targets) (st2\<lparr>fs_queued := kept\<rparr>)"
  have k: "swap_key ?st3 = swap_key st1" using d(1) by (simp add: swap_key_def fun_eq_iff)
  obtain st4 where "decisions_of cfg env (fs_queued ?st3) ?st3 st4" "swap_key st' = swap_key st4"
    using drain_queue_decisions [OF st1(3)] by blast
  with k c d(2) EvUnload show ?thesis by (intro exI [of _ ?st3] exI [of _ st4]) simp
qed

section \<open>Compatible models\<close>

text \<open>
  What a policy promises beyond the scheduler's needs: models it regards as compatible may run together,
  fewer models stay compatible, and a target that is not running fits to the models it leaves running, provided
  these are compatible among themselves.
\<close>

locale compatible_router = fifo_router cfg for cfg :: fifo_config +
  fixes known :: "string set" and compatible :: "string set \<Rightarrow> bool"
  assumes compatible_empty: "compatible {}"
    and compatible_mono: "compatible S \<Longrightarrow> T \<subseteq> S \<Longrightarrow> compatible T"
    and evict_compatible: "distinct running \<Longrightarrow> set running \<subseteq> known \<Longrightarrow> target \<in> known \<Longrightarrow> target \<notin> set running \<Longrightarrow>
      S \<subseteq> set running - set (fc_evict cfg target running) \<Longrightarrow> compatible S \<Longrightarrow> compatible (insert target S)"
begin

text \<open>
  The invariant: of the models that are up or targets of active swaps, every selection is compatible that
  does not contain a target not yet up together with one of its victims.
\<close>

definition planned :: "string set \<Rightarrow> (string \<rightharpoonup> 64 word \<times> string list) \<Rightarrow> bool" where
  "planned U v \<longleftrightarrow> (\<forall>S \<subseteq> U \<union> dom v.
     (\<forall>m g ev. m \<in> S \<longrightarrow> m \<notin> U \<longrightarrow> v m = Some (g, ev) \<longrightarrow> S \<inter> set ev = {}) \<longrightarrow> compatible S)"

lemma planned_up: "planned U v \<Longrightarrow> compatible U"
  unfolding planned_def by blast

lemma planned_fewer:
  assumes "planned U v" and "U' \<subseteq> U" and "v' \<subseteq>\<^sub>m v"
  shows "planned U' v'"
  unfolding planned_def
proof (intro allI impI)
  fix S assume S: "S \<subseteq> U' \<union> dom v'" and free: "\<forall>m g ev. m \<in> S \<longrightarrow> m \<notin> U' \<longrightarrow> v' m = Some (g, ev) \<longrightarrow> S \<inter> set ev = {}"
  have "S \<subseteq> U \<union> dom v" using S assms(2) map_le_implies_dom_le [OF assms(3)] by blast
  moreover have "S \<inter> set ev = {}" if "m \<in> S" "m \<notin> U" "v m = Some (g, ev)" for m g ev
  proof -
    have "m \<notin> U'" "m \<in> dom v'" using that(1,2) S assms(2) by auto
    then have "v' m = Some (g, ev)" using assms(3) that(3) by (simp add: map_le_def)
    with free that(1) \<open>m \<notin> U'\<close> show ?thesis by blast
  qed
  ultimately show "compatible S" using assms(1) unfolding planned_def by blast
qed

lemma planned_start:
  assumes "planned U v" and "v t = None" and "distinct run" and "set run = U \<union> dom v" and "set run \<subseteq> known" and "t \<in> known"
  shows "planned U (v(t \<mapsto> (g, fc_evict cfg t run)))"
  unfolding planned_def
proof (intro allI impI)
  let ?ev = "fc_evict cfg t run" let ?v = "v(t \<mapsto> (g, ?ev))"
  fix S assume S: "S \<subseteq> U \<union> dom ?v" and free: "\<forall>m g ev. m \<in> S \<longrightarrow> m \<notin> U \<longrightarrow> ?v m = Some (g, ev) \<longrightarrow> S \<inter> set ev = {}"
  have old: "compatible T" if "T \<subseteq> S" "T \<subseteq> U \<union> dom v" for T
  proof -
    have "T \<inter> set ev = {}" if "m \<in> T" "m \<notin> U" "v m = Some (h, ev)" for m h ev
    proof -
      have "?v m = Some (h, ev)" using that(3) assms(2) by auto
      with free that(1,2) \<open>T \<subseteq> S\<close> show ?thesis by blast
    qed
    with assms(1) that(2) show ?thesis unfolding planned_def by blast
  qed
  show "compatible S"
  proof (cases "t \<in> S \<and> t \<notin> U")
    case False
    then have "S \<subseteq> U \<union> dom v" using S by auto
    with old show ?thesis by blast
  next
    case True
    then have "S \<inter> set ?ev = {}" using free by (metis fun_upd_same)
    moreover have rest: "S - {t} \<subseteq> U \<union> dom v" using S by auto
    ultimately have "S - {t} \<subseteq> set run - set ?ev" using assms(4) by auto
    moreover have "t \<notin> set run" using True assms(2,4) by auto
    moreover have "compatible (S - {t})" using old rest by blast
    ultimately have "compatible (insert t (S - {t}))" using evict_compatible assms(3,5,6) by blast
    with True show ?thesis by (simp add: insert_absorb)
  qed
qed

lemma planned_ensure:
  assumes "planned U v" and "v m = Some (g, ev)" and "set ev \<inter> U = {}" and "set ev \<inter> dom v = {}"
  shows "planned (insert m U) v"
  unfolding planned_def
proof (intro allI impI)
  fix S assume S: "S \<subseteq> insert m U \<union> dom v"
    and free: "\<forall>k g ev. k \<in> S \<longrightarrow> k \<notin> insert m U \<longrightarrow> v k = Some (g, ev) \<longrightarrow> S \<inter> set ev = {}"
  have sub: "S \<subseteq> U \<union> dom v" using S assms(2) by auto
  moreover have "S \<inter> set e = {}" if "k \<in> S" "k \<notin> U" "v k = Some (h, e)" for k h e
  proof (cases "k = m")
    case True
    then have "e = ev" using that(3) assms(2) by simp
    with sub assms(3,4) show ?thesis by blast
  next
    case False
    with free that show ?thesis by blast
  qed
  ultimately show "compatible S" using assms(1) unfolding planned_def by blast
qed

lemma decision_planned:
  assumes "decides cfg env r st st'" and "planned (set (en_running env (rq_id r))) (swap_key st)"
    and "set (en_running env (rq_id r)) \<subseteq> known" and "dom (swap_key st) \<subseteq> known"
    and "en_state env (rq_id r) \<noteq> None \<longrightarrow> rq_model r \<in> known"
  shows "planned (set (en_running env (rq_id r))) (swap_key st') \<and> dom (swap_key st') \<subseteq> known"
  using assms(1) unfolding decides_def
proof (elim disjE exE conjE)
  assume "swap_key st' = swap_key st"
  with assms show ?thesis by simp
next
  fix g assume new: "swap_key st (rq_model r) = None" "en_state env (rq_id r) \<noteq> None"
    "swap_key st' = (swap_key st)(rq_model r \<mapsto> (g, fc_evict cfg (rq_model r) (running_set env r st)))"
  have "set (running_set env r st) = set (en_running env (rq_id r)) \<union> dom (swap_key st)"
    using new(1) by (force simp: running_set_def active_targets_def dom_swap_key swap_key_None map_of_eq_None_iff)
  moreover have "distinct (running_set env r st)" by (simp add: running_set_def)
  ultimately have "planned (set (en_running env (rq_id r))) (swap_key st')"
    unfolding new(3) using assms new(1,2) by (intro planned_start) auto
  moreover have "dom (swap_key st') \<subseteq> known" using assms(4,5) new by auto
  ultimately show ?thesis by simp
qed

lemma decisions_planned:
  "decisions_of cfg env rs st st' \<Longrightarrow> planned U (swap_key st) \<Longrightarrow> dom (swap_key st) \<subseteq> known \<Longrightarrow> U \<subseteq> known \<Longrightarrow>
   observes known env U U' rs \<Longrightarrow> U' \<subseteq> U \<Longrightarrow> planned U' (swap_key st') \<and> dom (swap_key st') \<subseteq> known"
proof (induction arbitrary: U rule: decisions_of.induct)
  case (no_decision st)
  then show ?case using planned_fewer [of U "swap_key st" U' "swap_key st"] by simp
next
  case (next_decision r st st1 rs st')
  let ?R = "set (en_running env (rq_id r))"
  have obs: "?R \<subseteq> U" "U' \<subseteq> ?R" "en_state env (rq_id r) \<noteq> None \<longrightarrow> rq_model r \<in> known" "observes known env ?R U' rs"
    using next_decision.prems(4) by (auto simp: observes_def)
  have "planned ?R (swap_key st)" using planned_fewer [OF next_decision.prems(1) obs(1), of "swap_key st"] by simp
  from decision_planned [OF next_decision.hyps(1) this] obs next_decision.prems
  have "planned ?R (swap_key st1)" "dom (swap_key st1) \<subseteq> known" by auto
  from next_decision.IH [OF this] obs next_decision.prems(3) show ?case by blast
qed

lemma handle_planned:
  assumes "handle cfg ev (sy_sched s) = Inr st'" and "sees known ev s after" and "distinct (map fst (fs_active (sy_sched s)))"
    and "planned (sy_up s) (swap_key (sy_sched s))" and "sy_up s \<subseteq> known" and "dom (swap_key (sy_sched s)) \<subseteq> known"
  shows "planned after (swap_key st') \<and> dom (swap_key st') \<subseteq> known"
proof -
  from handle_decisions [OF assms(1,3)] obtain st0 st1 where
    d: "swap_key st0 \<subseteq>\<^sub>m swap_key (sy_sched s)" "swap_key st' = swap_key st1"
      "case env_of ev of None \<Rightarrow> st1 = st0 | Some env \<Rightarrow> decisions_of cfg env (decided ev (sy_sched s)) st0 st1"
    by blast
  let ?U = "sy_up s - stopped_by ev"
  have p: "planned ?U (swap_key st0)" using planned_fewer [OF assms(4) _ d(1), of ?U] by blast
  have k: "dom (swap_key st0) \<subseteq> known" using map_le_implies_dom_le [OF d(1)] assms(6) by blast
  have after: "after \<subseteq> ?U" using assms(2) by (simp add: sees_def)
  show ?thesis
  proof (cases "env_of ev")
    case None
    with d(2,3) k planned_fewer [OF p after, of "swap_key st0"] show ?thesis by simp
  next
    case (Some env)
    then have "decisions_of cfg env (decided ev (sy_sched s)) st0 st1" "observes known env ?U after (decided ev (sy_sched s))"
      using d(3) assms(2) by (simp_all add: sees_def)
    moreover have "?U \<subseteq> known" using assms(5) by blast
    ultimately show ?thesis using decisions_planned [OF _ p k] after d(2) by simp
  qed
qed

definition stages_ok :: "sys \<Rightarrow> bool" where
  "stages_ok s \<longleftrightarrow> (\<forall>m g ev D. swap_key (sy_sched s) m = Some (g, ev) \<longrightarrow> sy_stage s m = Evicting D \<longrightarrow> D \<subseteq> set ev - sy_up s)"

definition sys_inv :: "sys \<Rightarrow> bool" where
  "sys_inv s \<longleftrightarrow> (if sy_closed s then sy_up s = {}
     else fifo_inv cfg (sy_sched s) \<and> planned (sy_up s) (swap_key (sy_sched s)) \<and> sy_up s \<subseteq> known \<and>
       dom (swap_key (sy_sched s)) \<subseteq> known \<and> stages_ok s)"

lemma stages_okD: "stages_ok s \<Longrightarrow> swap_key (sy_sched s) m = Some (g, ev) \<Longrightarrow> sy_stage s m = Evicting D \<Longrightarrow> D \<subseteq> set ev - sy_up s"
  unfolding stages_ok_def by blast

lemma stages_okI:
  "(\<And>m g ev D. swap_key (sy_sched s) m = Some (g, ev) \<Longrightarrow> sy_stage s m = Evicting D \<Longrightarrow> D \<subseteq> set ev - sy_up s) \<Longrightarrow> stages_ok s"
  unfolding stages_ok_def by blast

lemma new_sys_inv: "sys_inv new_sys"
proof -
  have none: "swap_key new_fifo = Map.empty" by (simp add: swap_key_def new_fifo_def fun_eq_iff)
  have "planned {} (swap_key new_fifo)" unfolding none planned_def using compatible_empty by simp
  then show ?thesis using new_fifo_inv by (simp add: sys_inv_def new_sys_def stages_ok_def none)
qed

lemma active_distinct: "fifo_inv cfg st \<Longrightarrow> distinct (map fst (fs_active st))"
  by (simp add: fifo_inv_def core_def swaps_ok_def)

lemma victims_no_targets:
  assumes "fifo_inv cfg st" and "swap_key st m = Some (g, ev)"
  shows "set ev \<inter> dom (swap_key st) = {}"
proof (rule ccontr)
  assume "set ev \<inter> dom (swap_key st) \<noteq> {}"
  then obtain k where k: "k \<in> set ev" "k \<in> dom (swap_key st)" by blast
  obtain sw where sw: "map_of (fs_active st) m = Some sw" "sw_evict sw = ev" using assms(2) by (auto simp: swap_key_Some)
  obtain sw' where sw': "map_of (fs_active st) k = Some sw'" using k(2) by (auto simp: swap_key_def)
  have "k \<noteq> m" using inv_safety(2) [OF assms(1) sw(1), of k] k(1) sw(2) by simp
  with inv_safety(3) [OF assms(1) sw(1) _ sw' this, of k] k(1) sw(2) show False by simp
qed

lemma sys_inv_open:
  assumes "sys_inv s" and "\<not> sy_closed s"
  shows "fifo_inv cfg (sy_sched s)" and "planned (sy_up s) (swap_key (sy_sched s))" and "sy_up s \<subseteq> known"
    and "dom (swap_key (sy_sched s)) \<subseteq> known" and "stages_ok s"
  using assms by (auto simp: sys_inv_def)

lemma run_handler_inv:
  assumes "sys_inv s" and "\<not> sy_closed s" and "run_handler cfg known ev after s = Some s'"
  shows "sys_inv s'"
proof -
  from assms(3) obtain st' where st': "enabled ev (sy_sched s)" "sees known ev s after" "handle cfg ev (sy_sched s) = Inr st'"
    "s' = s\<lparr>sy_sched := st', sy_up := after, sy_stage := start_swaps (sy_sched s) st' (sy_stage s)\<rparr>"
    by (auto simp: run_handler_def split: if_splits sum.splits)
  note inv = sys_inv_open [OF assms(1,2)]
  have "fifo_inv cfg st'" using handle_ok [OF inv(1) st'(1)] st'(3) by auto
  moreover have "planned after (swap_key st')" "dom (swap_key st') \<subseteq> known"
    using handle_planned [OF st'(3,2) active_distinct [OF inv(1)] inv(2-4)] by simp_all
  moreover have after: "after \<subseteq> sy_up s" using st'(2) by (auto simp: sees_def)
  moreover have "stages_ok s'"
  proof (rule stages_okI)
    fix m g ev D assume "swap_key (sy_sched s') m = Some (g, ev)" "sy_stage s' m = Evicting D"
    then have "swap_key (sy_sched s) m = Some (g, ev)" "sy_stage s m = Evicting D"
      by (auto simp: st'(4) start_swaps_def split: if_splits)
    from stages_okD [OF inv(5) this] after show "D \<subseteq> set ev - sy_up s'" by (auto simp: st'(4))
  qed
  ultimately show ?thesis using assms(2) inv(3) by (simp add: sys_inv_def st'(4))
qed

lemma pass_gate_inv:
  assumes "sys_inv s" and "\<not> sy_closed s" and "pass_gate m s = Some s'"
  shows "sys_inv s'"
proof -
  note inv = sys_inv_open [OF assms(1,2)]
  have s': "s' = s\<lparr>sy_stage := (sy_stage s)(m := (if sy_paused s then GateRefused else Evicting {}))\<rparr>"
    using assms(3) by (simp add: pass_gate_def split: if_splits)
  have "stages_ok s'"
  proof (rule stages_okI)
    fix k g ev D assume k: "swap_key (sy_sched s') k = Some (g, ev)" "sy_stage s' k = Evicting D"
    then show "D \<subseteq> set ev - sy_up s'"
      using stages_okD [OF inv(5), of k g ev D] by (auto simp: s' split: if_splits)
  qed
  with inv assms(2) show ?thesis by (simp add: sys_inv_def s')
qed

lemma stop_victim_inv:
  assumes "sys_inv s" and "\<not> sy_closed s" and "stop_victim m e s = Some s'"
  shows "sys_inv s'"
proof -
  from assms(3) obtain g ev D where m: "swap_key (sy_sched s) m = Some (g, ev)" "sy_stage s m = Evicting D" "e \<in> set ev"
    "s' = s\<lparr>sy_up := sy_up s - {e}, sy_stage := (sy_stage s)(m := Evicting (insert e D))\<rparr>"
    by (auto simp: stop_victim_def split: option.splits stage.splits if_splits)
  note inv = sys_inv_open [OF assms(1,2)]
  have "planned (sy_up s - {e}) (swap_key (sy_sched s))" using planned_fewer [OF inv(2), of "sy_up s - {e}"] by simp
  moreover have "stages_ok s'"
  proof (rule stages_okI)
    fix k h ev' E assume k: "swap_key (sy_sched s') k = Some (h, ev')" "sy_stage s' k = Evicting E"
    show "E \<subseteq> set ev' - sy_up s'"
    proof (cases "k = m")
      case True
      with k m have "E = insert e D" "ev' = ev" by auto
      with stages_okD [OF inv(5) m(1,2)] m(3,4) show ?thesis by auto
    next
      case False
      with k m(4) stages_okD [OF inv(5), of k h ev' E] show ?thesis by auto
    qed
  qed
  moreover have "sy_up s - {e} \<subseteq> known" using inv(3) by blast
  ultimately show ?thesis using inv assms(2) by (simp add: sys_inv_def m(4))
qed

lemma ensure_ready_inv:
  assumes "sys_inv s" and "\<not> sy_closed s" and "ensure_ready m s = Some s'"
  shows "sys_inv s'"
proof -
  from assms(3) obtain g ev D where m: "swap_key (sy_sched s) m = Some (g, ev)" "sy_stage s m = Evicting D" "set ev \<subseteq> D"
    "s' = s\<lparr>sy_up := insert m (sy_up s), sy_stage := (sy_stage s)(m := Ensuring)\<rparr>"
    by (auto simp: ensure_ready_def split: option.splits stage.splits if_splits)
  note inv = sys_inv_open [OF assms(1,2)]
  have down: "set ev \<inter> sy_up s = {}" using stages_okD [OF inv(5) m(1,2)] m(3) by blast
  have "planned (insert m (sy_up s)) (swap_key (sy_sched s))"
    by (rule planned_ensure [OF inv(2) m(1) down victims_no_targets [OF inv(1) m(1)]])
  moreover have "m \<in> known" using inv(4) m(1) by auto
  moreover have "stages_ok s'"
  proof (rule stages_okI)
    fix k h ev' E assume k: "swap_key (sy_sched s') k = Some (h, ev')" "sy_stage s' k = Evicting E"
    then have k': "swap_key (sy_sched s) k = Some (h, ev')" "sy_stage s k = Evicting E" by (auto simp: m(4) split: if_splits)
    have "m \<notin> set ev'" using victims_no_targets [OF inv(1) k'(1)] m(1) by blast
    with stages_okD [OF inv(5) k'] show "E \<subseteq> set ev' - sy_up s'" by (auto simp: m(4))
  qed
  ultimately show ?thesis using inv assms(2) by (simp add: sys_inv_def m(4))
qed

lemma stages_fewer:
  assumes "stages_ok s" and "sy_sched s' = sy_sched s" and "sy_stage s' = sy_stage s" and "sy_up s' \<subseteq> sy_up s"
  shows "stages_ok s'"
proof (rule stages_okI)
  fix m g ev D assume "swap_key (sy_sched s') m = Some (g, ev)" "sy_stage s' m = Evicting D"
  with stages_okD [OF assms(1), of m g ev D] assms(2-4) show "D \<subseteq> set ev - sy_up s'" by auto
qed

lemma go_down_inv:
  assumes "sys_inv s"
  shows "sys_inv (s\<lparr>sy_up := sy_up s - {m}\<rparr>)"
proof (cases "sy_closed s")
  case True
  with assms show ?thesis by (simp add: sys_inv_def)
next
  case False
  note inv = sys_inv_open [OF assms False]
  have "planned (sy_up s - {m}) (swap_key (sy_sched s))" using planned_fewer [OF inv(2), of "sy_up s - {m}"] by simp
  moreover have "stages_ok (s\<lparr>sy_up := sy_up s - {m}\<rparr>)" by (rule stages_fewer [OF inv(5)]) auto
  moreover have "sy_up s - {m} \<subseteq> known" using inv(3) by blast
  ultimately show ?thesis using inv False by (simp add: sys_inv_def)
qed

lemma sys_step_inv:
  assumes "sys_inv s" and "sys_step cfg known ev s = Some s'"
  shows "sys_inv s'"
proof (cases ev)
  case (SysHandle e after)
  with assms run_handler_inv show ?thesis by (auto split: if_splits)
next
  case (SysGate m)
  with assms pass_gate_inv show ?thesis by (auto split: if_splits)
next
  case (SysStop m e)
  with assms stop_victim_inv show ?thesis by (auto split: if_splits)
next
  case (SysEnsure m)
  with assms ensure_ready_inv show ?thesis by (auto split: if_splits)
next
  case (SysDown m)
  with assms go_down_inv show ?thesis by auto
next
  case (SysPause b)
  with assms stages_fewer [of s s'] show ?thesis by (auto simp: sys_inv_def simp del: subset_iff split: if_splits)
next
  case (SysShutdown e)
  with assms show ?thesis by (auto simp: shut_down_def sys_inv_def split: if_splits sum.splits)
qed

lemma sys_run_inv: "sys_run cfg known evs s = Some s' \<Longrightarrow> sys_inv s \<Longrightarrow> sys_inv s'"
  by (induction evs arbitrary: s) (auto split: option.splits dest: sys_step_inv)

text \<open>A model that is down and whose swap, if any, has not passed the gate stays down while the gate is closed.\<close>

definition halted :: "string \<Rightarrow> sys \<Rightarrow> bool" where
  "halted m s \<longleftrightarrow> m \<notin> sy_up s \<and>
     (sy_closed s \<or> swap_key (sy_sched s) m = None \<or> (\<forall>D. sy_stage s m \<noteq> Evicting D))"

lemma step_halted:
  assumes "sys_step cfg known ev s = Some s'" and "halted m s" and "sy_paused s" and "ev \<noteq> SysPause False"
  shows "halted m s'" and "sy_paused s'"
proof -
  have "halted m s' \<and> sy_paused s'"
  proof (cases ev)
    case (SysHandle e after)
    with assms show ?thesis
      by (auto simp: run_handler_def sees_def halted_def start_swaps_def split: if_splits sum.splits)
  next
    case (SysGate k)
    with assms show ?thesis by (auto simp: pass_gate_def halted_def split: if_splits)
  next
    case (SysStop k e)
    with assms show ?thesis by (auto simp: stop_victim_def halted_def split: if_splits option.splits stage.splits)
  next
    case (SysEnsure k)
    with assms show ?thesis by (auto simp: ensure_ready_def halted_def split: if_splits option.splits stage.splits)
  next
    case (SysShutdown e)
    with assms show ?thesis by (auto simp: shut_down_def halted_def split: if_splits sum.splits)
  qed (use assms in \<open>auto simp: halted_def\<close>)
  then show "halted m s'" "sy_paused s'" by simp_all
qed

lemma unload_halts:
  assumes "sys_inv s" and "sys_step cfg known (SysHandle (EvUnload env targets) after) s = Some s'" and "m \<in> set targets"
  shows "halted m s'"
proof -
  have open_: "\<not> sy_closed s" using assms(2) by (auto split: if_splits)
  with assms(2) obtain st' where st': "sees known (EvUnload env targets) s after" "on_unload cfg env targets (sy_sched s) = Inr st'"
    "s' = s\<lparr>sy_sched := st', sy_up := after, sy_stage := start_swaps (sy_sched s) st' (sy_stage s)\<rparr>"
    by (auto simp: run_handler_def split: if_splits sum.splits)
  have "fst ` set (fs_active st') \<inter> set targets = {}"
    using on_unload_ok [OF sys_inv_open(1) [OF assms(1) open_], of env targets] st'(2) by auto
  then have "swap_key st' m = None" using assms(3) dom_swap_key [of st'] by blast
  with st'(1,3) assms(3) show ?thesis by (auto simp: halted_def sees_def)
qed

lemma run_halted:
  "sys_run cfg known evs s = Some s' \<Longrightarrow> sys_inv s \<Longrightarrow> sy_paused s \<Longrightarrow> SysPause False \<notin> set evs \<Longrightarrow>
   halted m s \<or> (\<exists>env targets after. SysHandle (EvUnload env targets) after \<in> set evs \<and> m \<in> set targets) \<Longrightarrow> halted m s'"
proof (induction evs arbitrary: s)
  case (Cons ev evs)
  from Cons.prems(1) obtain s1 where s1: "sys_step cfg known ev s = Some s1" "sys_run cfg known evs s1 = Some s'"
    by (auto split: option.splits)
  have ne: "ev \<noteq> SysPause False" using Cons.prems(4) by auto
  have paused: "sy_paused s1"
  proof (cases "halted m s")
    case True
    then show ?thesis using step_halted(2) [OF s1(1) _ Cons.prems(3) ne] by blast
  next
    case False
    show ?thesis using s1(1) Cons.prems(3) ne
      by (cases ev) (auto simp: run_handler_def pass_gate_def stop_victim_def ensure_ready_def shut_down_def
          split: if_splits sum.splits option.splits stage.splits)
  qed
  have "halted m s1 \<or> (\<exists>env targets after. SysHandle (EvUnload env targets) after \<in> set evs \<and> m \<in> set targets)"
  proof (cases "\<exists>env targets after. ev = SysHandle (EvUnload env targets) after \<and> m \<in> set targets")
    case True
    then show ?thesis using unload_halts [OF Cons.prems(2)] s1(1) by blast
  next
    case False
    show ?thesis
    proof (cases "halted m s")
      case True
      then show ?thesis using step_halted(1) [OF s1(1) _ Cons.prems(3) ne] by blast
    next
      case nope: False
      with Cons.prems(5) obtain env targets after where "SysHandle (EvUnload env targets) after \<in> set (ev # evs)" "m \<in> set targets"
        by blast
      moreover from this have "ev \<noteq> SysHandle (EvUnload env targets) after" using False by blast
      ultimately have "SysHandle (EvUnload env targets) after \<in> set evs" by simp
      with \<open>m \<in> set targets\<close> show ?thesis by blast
    qed
  qed
  with Cons.IH [OF s1(2) sys_step_inv [OF Cons.prems(2) s1(1)] paused] Cons.prems(4) show ?case by auto
qed auto

lemma run_all_halted:
  assumes "sys_run cfg known evs0 new_sys = Some s" and "sys_run cfg known evs s = Some s'" and "sy_paused s"
    and "SysPause False \<notin> set evs"
    and "\<forall>m\<in>known. \<exists>env targets after. SysHandle (EvUnload env targets) after \<in> set evs \<and> m \<in> set targets"
  shows "sy_up s' = {}"
proof -
  note inv = sys_run_inv [OF assms(1) new_sys_inv]
  have "m \<notin> sy_up s'" if "m \<in> known" for m
    using run_halted [OF assms(2) inv assms(3,4), of m] assms(5) that unfolding halted_def by blast
  moreover have "sy_up s' \<subseteq> known" using sys_run_inv [OF assms(2) inv] by (auto simp: sys_inv_def split: if_splits)
  ultimately show ?thesis by blast
qed

lemma up_compatible: "sys_run cfg known evs new_sys = Some s \<Longrightarrow> compatible (sy_up s)"
  using sys_run_inv [OF _ new_sys_inv, of evs s] planned_up compatible_empty by (auto simp: sys_inv_def split: if_splits)

end

section \<open>The three policies\<close>

text \<open>
  What a configuration has to satisfy: the matrix and the pools are validated, and the costs of all models
  of a matrix add up within 64 bits.
\<close>

definition policy_sound :: "policy \<Rightarrow> string set \<Rightarrow> bool" where
  "policy_sound pol known =
     (case pol of
        GroupPolicy s \<Rightarrow> True
      | MatrixPolicy p costs \<Rightarrow> finite known \<and> (\<exists>mx models. validate_matrix mx models = Inr p \<and>
          distinct (map sd_name (mx_sets mx)) \<and> costs = resolved_evict_costs mx) \<and>
          (\<Sum>m\<in>known. eviction_cost costs m) < 2 ^ 63
      | CapacityPolicy pools models n \<Rightarrow> validate_capacity (Some pools) models = Inr ())"

text \<open>
  Models that may run together: groups, no two models each of which would evict the other; matrix, a part of
  one combination, or a single model; pools, their usage fits every pool.
\<close>

fun runs_together :: "policy \<Rightarrow> string set \<Rightarrow> bool" where
  "runs_together (GroupPolicy s) S = (\<forall>a\<in>S. \<forall>b\<in>S. \<not> (group_evicts s a b \<and> group_evicts s b a))"
| "runs_together (MatrixPolicy p costs) S =
     ((\<exists>m. S \<subseteq> {m}) \<or> (\<exists>s\<in>set (pr_sets p). \<exists>C\<in>combos (cs_root s). S \<subseteq> C))"
| "runs_together (CapacityPolicy pools models n) S =
     (finite S \<and> (\<forall>p\<in>fst ` set pools. (\<Sum>m\<in>S. usage_of models m p) \<le> count_of (map_of pools) p))"

lemma group_fits:
  assumes "S \<subseteq> set running - set (group_eviction_for s t running)" and "runs_together (GroupPolicy s) S"
  shows "runs_together (GroupPolicy s) (insert t S)"
proof -
  have "\<not> group_evicts s t x" if "x \<in> S" for x
    using assms(1) that fold_consider_model [of "[]" s t running] by (auto simp: group_eviction_for_def)
  moreover have "\<not> group_evicts s t t" by (simp add: group_evicts_def)
  ultimately show ?thesis using assms(2) by auto
qed

lemma matrix_fits:
  assumes "policy_sound (MatrixPolicy p costs) known" and "distinct running" and "set running \<subseteq> known"
    and "t \<notin> set running" and "S \<subseteq> set running - set (matrix_evict p costs t running)"
  shows "runs_together (MatrixPolicy p costs) (insert t S)"
proof -
  obtain mx models where mx: "finite known" "validate_matrix mx models = Inr p" "distinct (map sd_name (mx_sets mx))"
    "costs = resolved_evict_costs mx" "(\<Sum>m\<in>known. eviction_cost costs m) < 2 ^ 63"
    using assms(1) by (auto simp: policy_sound_def)
  have pos: "0 < eviction_cost costs m" for m using resolved_costs_pos [OF mx(2)] mx(4) by simp
  have ok: "program_ok p" by (rule compile_program_ok [OF mx(3) validate_matrix_ok(1) [OF mx(2)]])
  have "sum_list (map (eviction_cost costs) running) = (\<Sum>m\<in>set running. eviction_cost costs m)"
    using assms(2) by (rule sum_list_distinct_conv_sum_set)
  also have "\<dots> \<le> (\<Sum>m\<in>known. eviction_cost costs m)"
    using mx(1) assms(3) pos by (intro sum_mono2) (auto intro: less_imp_le)
  finally have bound: "sum_list (map (eviction_cost costs) running) < 2 ^ 63" using mx(5) by linarith
  have "\<forall>m\<in>set running. 0 \<le> eviction_cost costs m" using pos by (simp add: less_imp_le)
  from solve_best [OF ok assms(4) this bound] show ?thesis
  proof (elim disjE exE conjE, goal_cases)
    case 1
    then have "S = {}" using assms(5) by (simp add: matrix_evict_def)
    then show ?case by auto
  next
    case (2 pre s0 post C)
    then have "S \<subseteq> C" using assms(5) by (auto simp: matrix_evict_def)
    with 2 show ?case by auto
  qed
qed

lemma capacity_fits:
  assumes v: "validate_capacity (Some pools) models = Inr ()" and t: "t \<notin> set running"
    and S: "S \<subseteq> set running - set (capacity_evict pools models n t running)"
  shows "runs_together (CapacityPolicy pools models n) (insert t S)"
proof -
  obtain ev limited where plan: "capacity_plan pools models n t running = (ev, limited)" by fastforce
  have e: "capacity_evict pools models n t running = ev" by (simp add: capacity_evict_def plan)
  note pr = capacity_plan_props [OF v plan]
  have room: "room pools models t running ev" using pr feas_room by blast
  note nn = validated(1) [OF v]
  have fin: "finite S" using S finite_subset by blast
  have "(\<Sum>m\<in>insert t S. usage_of models m p) \<le> count_of (map_of pools) p" if p: "p \<in> fst ` set pools" for p
  proof -
    have "t \<notin> S" using S t by blast
    then have "(\<Sum>m\<in>insert t S. usage_of models m p) = usage_of models t p + (\<Sum>m\<in>S. usage_of models m p)"
      using fin by simp
    also have "\<dots> \<le> usage_of models t p + (\<Sum>m\<in>set running - {t} - set ev. usage_of models m p)"
      using S t nn unfolding e by (intro add_left_mono sum_mono2) auto
    also have "\<dots> \<le> count_of (map_of pools) p" using room p unfolding room_def by blast
    finally show ?thesis .
  qed
  with fin show ?thesis by simp
qed

lemma runs_nothing:
  assumes "validate_capacity (Some pools) models = Inr ()"
  shows "\<forall>p\<in>fst ` set pools. 0 \<le> count_of (map_of pools) p"
proof
  fix p assume "p \<in> fst ` set pools"
  then have "usage_of models [] p \<le> count_of (map_of pools) p" using validated(3) [OF assms] by blast
  then show "0 \<le> count_of (map_of pools) p" using validated(1) [OF assms] by (meson order_trans)
qed

lemma runs_together_fewer:
  assumes "policy_sound pol known" and "runs_together pol S" and "T \<subseteq> S"
  shows "runs_together pol T"
proof (cases pol)
  case (GroupPolicy s)
  with assms(2,3) show ?thesis by auto
next
  case (MatrixPolicy p costs)
  with assms(2,3) show ?thesis by (simp del: subset_insert) (meson subset_trans)
next
  case (CapacityPolicy pools models n)
  then have nn: "\<forall>m p. 0 \<le> usage_of models m p" using assms(1) validated(1) by (auto simp: policy_sound_def)
  have "(\<Sum>m\<in>T. usage_of models m p) \<le> (\<Sum>m\<in>S. usage_of models m p)" for p
    using assms(2,3) nn CapacityPolicy by (intro sum_mono2) auto
  with assms(2,3) CapacityPolicy show ?thesis by (auto intro: finite_subset order_trans)
qed

interpretation routed: compatible_router "router_config p models prio" known "\<lambda>S. policy_sound p known \<longrightarrow> runs_together p S"
  for p models prio known
proof
  show "policy_sound p known \<longrightarrow> runs_together p {}"
  proof (cases p)
    case (CapacityPolicy pools ms n)
    then show ?thesis using runs_nothing [of pools ms] by (simp add: policy_sound_def)
  qed auto
next
  fix S T assume "policy_sound p known \<longrightarrow> runs_together p S" "T \<subseteq> S"
  then show "policy_sound p known \<longrightarrow> runs_together p T" using runs_together_fewer by blast
next
  fix running t S
  assume a: "distinct running" "set running \<subseteq> known" "t \<in> known" "t \<notin> set running"
    "S \<subseteq> set running - set (fc_evict (router_config p models prio) t running)"
    "policy_sound p known \<longrightarrow> runs_together p S"
  show "policy_sound p known \<longrightarrow> runs_together p (insert t S)"
  proof
    assume s: "policy_sound p known"
    show "runs_together p (insert t S)"
    proof (cases p)
      case (GroupPolicy g)
      with a s group_fits show ?thesis by (simp add: router_config_def)
    next
      case (MatrixPolicy q costs)
      with a s matrix_fits show ?thesis by (simp add: router_config_def)
    next
      case (CapacityPolicy pools ms n)
      with a s capacity_fits show ?thesis by (simp add: router_config_def policy_sound_def)
    qed
  qed
qed

section \<open>Properties\<close>

definition demo_pools :: policy where
  "demo_pools = CapacityPolicy [(''v'', 8)] [(''a'', \<lparr>mc_capacities = [(''v'', 6)], mc_evict_cost = 5\<rparr>),
     (''b'', \<lparr>mc_capacities = [(''v'', 3)], mc_evict_cost = 0\<rparr>)] 9"

definition demo_sys_env :: "bool \<Rightarrow> string list \<Rightarrow> env" where
  "demo_sys_env grant running = \<lparr>en_state = (\<lambda>_. Some StateStopped), en_running = (\<lambda>_. running),
     en_admit = (\<lambda>_. True), en_grant = (\<lambda>_. grant)\<rparr>"

text \<open>Model a is loaded; a request for b waits for the end of its swap, then b replaces it.\<close>

definition demo_sys_run :: "sys_event list" where
  "demo_sys_run =
     [SysHandle (EvRequest (demo_sys_env True []) \<lparr>rq_id = 1, rq_model = ''a''\<rparr>) {}, SysGate ''a'', SysEnsure ''a'',
      SysHandle (EvRequest (demo_sys_env True [''a'']) \<lparr>rq_id = 2, rq_model = ''b''\<rparr>) {''a''},
      SysHandle (EvSwapDone (demo_sys_env False [''a'']) ''a'' 1 None) {''a''},
      SysGate ''b'', SysStop ''b'' ''a'', SysEnsure ''b'']"

definition demo_sys_pause :: "sys_event list" where
  "demo_sys_pause =
     [SysHandle (EvUnload (demo_sys_env True []) [''a'', ''b'']) {},
      SysHandle (EvRequest (demo_sys_env True []) \<lparr>rq_id = 3, rq_model = ''a''\<rparr>) {}, SysGate ''a'']"

lemma demo_sys_run_up:
  "map_option sy_up (sys_run (router_config demo_pools [] []) (set [''a'', ''b'']) demo_sys_run new_sys) = Some {''b''}"
  by code_simp

lemma demo_sys_pause_up:
  "map_option (\<lambda>s. (sy_up s, sy_paused s)) (sys_run (router_config demo_pools [] []) (set [''a'', ''b''])
     (demo_sys_run @ [SysPause True]) new_sys) = Some ({''b''}, True)"
  "map_option (\<lambda>s. sy_stage s ''a'') (Option.bind (sys_run (router_config demo_pools [] []) (set [''a'', ''b''])
     (demo_sys_run @ [SysPause True]) new_sys)
     (sys_run (router_config demo_pools [] []) (set [''a'', ''b'']) demo_sys_pause)) = Some GateRefused"
  by code_simp+

text \<open>
  Models that are up at the same time always fit together, whatever the interleaving of requests,
  cancellations, swaps in parallel, unloads, pauses and processes that die: under the group router no two of
  them would each have to evict the other (so at most one model of a swapping group is up), under
  the matrix router they are part of one combination of the matrix (or one model alone), and under the capacity router
  every pool holds their usage.
\<close>
lemma up_models_fit:
  assumes "policy_sound pol known" and "sys_run (router_config pol limits prio) known evs new_sys = Some s"
  shows "runs_together pol (sy_up s)"
  using routed.up_compatible [OF assms(2)] assms(1) by blast

text \<open>
  C6. A pause keeps every model down: once inference is paused and the unload requests \<open>Unload\<close> makes for
  all models have been handled, in whatever interleaving with requests, swaps and cancellations, no model is up,
  and none comes up until inference is resumed.
\<close>
theorem pause_keeps_down:
  assumes "sys_run (router_config pol limits prio) (set processes) evs0 new_sys = Some s"
    and "sys_run (router_config pol limits prio) (set processes) evs s = Some s'"
    and "sy_paused s" and "SysPause False \<notin> set evs"
    and "\<forall>(t, ids)\<in>set (unload_requests c processes 0 []). \<exists>env after. SysHandle (EvUnload env ids) after \<in> set evs"
  shows "sy_up s' = {}"
proof (rule routed.run_all_halted [OF assms(1-4)], intro ballI)
  fix m assume "m \<in> set processes"
  then have "m \<in> \<Union> (set ` snd ` set (unload_requests c processes 0 []))"
    unfolding unload_requests_targets by simp
  then obtain t ids where "(t, ids) \<in> set (unload_requests c processes 0 [])" "m \<in> set ids" by force
  with assms(5) show "\<exists>env targets after. SysHandle (EvUnload env targets) after \<in> set evs \<and> m \<in> set targets" by blast
qed

theorem pause_keeps_down_witness:
  "\<exists>s s'. sys_run (router_config demo_pools [] []) (set [''a'', ''b'']) (demo_sys_run @ [SysPause True]) new_sys = Some s \<and>
     sy_up s = {''b''} \<and> sys_run (router_config demo_pools [] []) (set [''a'', ''b'']) demo_sys_pause s = Some s' \<and>
     sy_stage s' ''a'' = GateRefused \<and> sy_up s' = {}"
proof -
  obtain s where s: "sys_run (router_config demo_pools [] []) (set [''a'', ''b'']) (demo_sys_run @ [SysPause True]) new_sys = Some s"
    "sy_up s = {''b''}" "sy_paused s"
    using demo_sys_pause_up(1) by auto
  with demo_sys_pause_up(2) obtain s' where
    s': "sys_run (router_config demo_pools [] []) (set [''a'', ''b'']) demo_sys_pause s = Some s'" "sy_stage s' ''a'' = GateRefused"
    by auto
  have reqs: "unload_requests \<lparr>uc_models = [], uc_global = 10\<rparr> [''a'', ''b''] 0 [] = [(10000000000, [''a'', ''b''])]"
    by code_simp
  have "SysPause False \<notin> set demo_sys_pause" by (simp add: demo_sys_pause_def)
  moreover have "\<forall>(t, ids)\<in>set (unload_requests \<lparr>uc_models = [], uc_global = 10\<rparr> [''a'', ''b''] 0 []).
      \<exists>env after. SysHandle (EvUnload env ids) after \<in> set demo_sys_pause"
    unfolding reqs by (auto simp: demo_sys_pause_def)
  ultimately show ?thesis using pause_keeps_down [OF s(1) s'(1) s(3)] s s' by blast
qed

end
