(* ===== verification/ValueTree.thy ===== *)
theory ValueTree
  imports Prelude
begin

text \<open>
  Decoded YAML documents as Go values of type \<open>any\<close>, and the functions of the package \<open>strings\<close> the
  sources apply to their strings.
\<close>

text \<open>
  A mapping whose keys are all strings decodes into \<open>map[string]any\<close> (\<open>VMap\<close>), any other mapping
  into \<open>map[any]any\<close> (\<open>VAnyMap\<close>), which no type switch of the sources mentions. A float is kept as its text.
\<close>

datatype yval =
    VNull
  | VBool bool
  | VInt int
  | VFloat string
  | VStr string
  | VList "yval list"
  | VMap "(string \<times> yval) list"
  | VAnyMap "(yval \<times> yval) list"

text \<open>\<open>strings.Contains\<close>, \<open>strings.ReplaceAll\<close> (of a text that is not empty), \<open>strings.Split\<close> at one character.\<close>

fun contains :: "string \<Rightarrow> string \<Rightarrow> bool" where
  "contains [] p = (p = [])"
| "contains (c # s) p = (has_prefix (c # s) p \<or> contains s p)"

function replace_text :: "string \<Rightarrow> string \<Rightarrow> string \<Rightarrow> string" where
  "replace_text old new [] = []"
| "replace_text old new (c # s) =
     (if old \<noteq> [] \<and> has_prefix (c # s) old then new @ replace_text old new (drop (length old) (c # s))
      else c # replace_text old new s)"
  by pat_completeness auto
termination by (relation "measure (\<lambda>(old, new, s). length s)") (auto simp: has_prefix_iff neq_Nil_conv)

fun split_at :: "char \<Rightarrow> string \<Rightarrow> string list" where
  "split_at d [] = [[]]"
| "split_at d (c # s) =
     (if c = d then [] # split_at d s
      else case split_at d s of [] \<Rightarrow> [[c]] | w # ws \<Rightarrow> (c # w) # ws)"

text \<open>\<open>strings.ToLower\<close> on Latin-1; \<open>strings.EqualFold\<close> compares the results.\<close>

definition lower_char :: "char \<Rightarrow> char" where
  "lower_char c = (let n = code_of c in
     if (65 \<le> n \<and> n \<le> 90) \<or> (192 \<le> n \<and> n \<le> 222 \<and> n \<noteq> 215) then char_of (n + 32) else c)"

definition to_lower :: "string \<Rightarrow> string" where
  "to_lower = List.map lower_char"

definition equal_fold :: "string \<Rightarrow> string \<Rightarrow> bool" where
  "equal_fold s t \<longleftrightarrow> to_lower s = to_lower t"

lemma contains_iff: "contains s p \<longleftrightarrow> (\<exists>x y. s = x @ p @ y)"
proof (induction s)
  case (Cons c s)
  show ?case
  proof
    assume "contains (c # s) p"
    then consider r where "c # s = p @ r" | x y where "s = x @ p @ y" using Cons has_prefix_iff by auto
    then show "\<exists>x y. c # s = x @ p @ y"
    proof cases
      case (1 r)
      then have "c # s = [] @ p @ r" by simp
      then show ?thesis by blast
    next
      case (2 x y)
      then have "c # s = (c # x) @ p @ y" by simp
      then show ?thesis by blast
    qed
  next
    assume "\<exists>x y. c # s = x @ p @ y"
    then obtain x y where "c # s = x @ p @ y" by blast
    then consider "c # s = p @ y" | x' where "s = x' @ p @ y" by (cases x) auto
    then show "contains (c # s) p"
    proof cases
      case 1
      then show ?thesis unfolding contains.simps has_prefix_iff by blast
    next
      case 2
      then show ?thesis using Cons by auto
    qed
  qed
qed simp

text \<open>Documents in which every mapping has strings as keys.\<close>

fun string_keyed :: "yval \<Rightarrow> bool" where
  "string_keyed (VList vs) \<longleftrightarrow> (\<forall>v \<in> set vs. string_keyed v)"
| "string_keyed (VMap es) \<longleftrightarrow> (\<forall>(k, v) \<in> set es. string_keyed v)"
| "string_keyed (VAnyMap es) \<longleftrightarrow> False"
| "string_keyed v \<longleftrightarrow> True"

end
