(* ===== verification/Http.thy ===== *)
theory Http
  imports ValueTree
begin

text \<open>
  What the request pipeline of \<open>internal/server\<close> is made of: header maps, requests with their body, the forms
  a request caches once they are parsed, replies with the error envelope of \<open>internal/swaputil/httperror.go\<close>, handlers and the
  chains of middleware of \<open>internal/chain/chain.go\<close>.

  A header map is an association list from canonical names to values. A reader of a request's body may be capped
  (\<open>http.MaxBytesReader\<close>) or broken (the client went away).
\<close>

section \<open>Headers\<close>

type_synonym headers = "(string \<times> string list) list"

definition header_values :: "headers \<Rightarrow> string \<Rightarrow> string list" where
  "header_values h k = (case map_of h k of None \<Rightarrow> [] | Some vs \<Rightarrow> vs)"

definition header_get :: "headers \<Rightarrow> string \<Rightarrow> string" where
  "header_get h k = (case header_values h k of [] \<Rightarrow> [] | v # vs \<Rightarrow> v)"

definition header_set :: "string \<Rightarrow> string \<Rightarrow> headers \<Rightarrow> headers" where
  "header_set k v h = AList.update k [v] h"

definition header_add :: "string \<Rightarrow> string \<Rightarrow> headers \<Rightarrow> headers" where
  "header_add k v h = AList.update k (header_values h k @ [v]) h"

lemma header_values_set [simp]:
  "header_values (header_set k v h) j = (if j = k then [v] else header_values h j)"
  by (simp add: header_values_def header_set_def)

lemma header_values_add [simp]:
  "header_values (header_add k v h) j = (if j = k then header_values h k @ [v] else header_values h j)"
  by (simp add: header_values_def header_add_def)

lemma header_values_delete [simp]:
  "header_values (AList.delete k h) j = (if j = k then [] else header_values h j)"
  by (simp add: header_values_def)

lemma header_get_set [simp]: "header_get (header_set k v h) j = (if j = k then v else header_get h j)"
  by (simp add: header_get_def)

lemma header_get_delete [simp]: "header_get (AList.delete k h) j = (if j = k then [] else header_get h j)"
  by (simp add: header_get_def)

text \<open>\<open>strings.Join\<close> with a comma and a space, \<open>strconv.Itoa\<close>.\<close>

fun join_comma :: "string list \<Rightarrow> string" where
  "join_comma [] = []"
| "join_comma [s] = s"
| "join_comma (s # ss) = s @ '', '' @ join_comma ss"

definition itoa :: "int \<Rightarrow> string" where
  "itoa n = (if n < 0 then CHR ''-'' # decimal (nat (- n)) else decimal (nat n))"

section \<open>Requests\<close>

type_synonym form_values = "(string \<times> string list) list"

text \<open>\<open>url.Values.Get\<close>: the first value, or the empty string.\<close>

definition form_get :: "form_values \<Rightarrow> string \<Rightarrow> string" where
  "form_get = header_get"

text \<open>A parsed multipart form: its values and its files, which the pipeline passes on unread.\<close>

record multipart =
  mp_values :: form_values
  mp_files :: "(string \<times> string list) list"

text \<open>\<open>ReqContextData\<close>, the model a request was found to be for.\<close>

record req_context =
  rx_model :: string
  rx_model_id :: string
  rx_streaming :: bool
  rx_loading :: bool
  rx_api_key :: string

text \<open>
  A request: the path (with its part below \<open>/upstream/\<close>), the raw query, the headers, the declared length, the body with the cap and the state of its
  reader; the forms once parsed (\<open>r.Form\<close>, \<open>r.PostForm\<close>, \<open>r.MultipartForm\<close>); and the context data once
  found.
\<close>

record http_request =
  hr_method :: string
  hr_path :: string
  hr_upstream :: string
  hr_query :: string
  hr_headers :: headers
  hr_length :: int
  hr_body :: string
  hr_cap :: "int option"
  hr_broken :: bool
  hr_form :: "form_values option"
  hr_post_form :: "form_values option"
  hr_multipart :: "multipart option"
  hr_context :: "req_context option"

datatype body_error =
    TooLarge int
  | ReadFailed
  | FormInvalid
  | MultipartInvalid

text \<open>\<open>io.ReadAll(r.Body)\<close>.\<close>

definition read_body :: "http_request \<Rightarrow> body_error + string" where
  "read_body r =
     (case hr_cap r of
        Some n \<Rightarrow> if n < int (length (hr_body r)) then Inl (TooLarge n)
                  else if hr_broken r then Inl ReadFailed else Inr (hr_body r)
      | None \<Rightarrow> if hr_broken r then Inl ReadFailed else Inr (hr_body r))"

text \<open>\<open>http.MaxBytesReader\<close> around a reader that may be capped already.\<close>

definition cap_body :: "int \<Rightarrow> http_request \<Rightarrow> http_request" where
  "cap_body n r = r\<lparr>hr_cap := Some (case hr_cap r of None \<Rightarrow> n | Some k \<Rightarrow> min k n)\<rparr>"

text \<open>A fresh reader over bytes in memory.\<close>

definition set_body :: "string \<Rightarrow> http_request \<Rightarrow> http_request" where
  "set_body b r = r\<lparr>hr_body := b, hr_cap := None, hr_broken := False\<rparr>"

section \<open>Replies\<close>

record error_envelope =
  ee_message :: string
  ee_type :: string
  ee_code :: string

datatype reply_body =
    NoBody
  | PlainText string
  | HtmlText string
  | ErrorBody error_envelope
  | OtherBody string

datatype reply = Reply (reply_status: nat) (reply_headers: headers) (reply_body: reply_body)

definition error_type_for_status :: "nat \<Rightarrow> string \<times> string" where
  "error_type_for_status status =
     (if status = 400 then (''invalid_request_error'', ''bad_request'')
      else if status = 401 then (''authentication_error'', ''unauthorized'')
      else if status = 403 then (''authentication_error'', ''forbidden'')
      else if status = 404 then (''invalid_request_error'', ''not_found'')
      else if status = 409 then (''invalid_request_error'', ''conflict'')
      else if status = 429 then (''rate_limit_error'', ''rate_limit_exceeded'')
      else if status = 502 then (''server_error'', ''bad_gateway'')
      else if status = 503 then (''server_error'', ''service_unavailable'')
      else if status = 504 then (''server_error'', ''gateway_timeout'')
      else if 400 \<le> status \<and> status < 500 then (''invalid_request_error'', ''invalid_request'')
      else (''server_error'', ''internal_error''))"

definition new_error_envelope :: "nat \<Rightarrow> string \<Rightarrow> string \<Rightarrow> error_envelope" where
  "new_error_envelope status message code =
     (case error_type_for_status status of (ty, default_code) \<Rightarrow>
        \<lparr>ee_message = message, ee_type = ty, ee_code = (if code = [] then default_code else code)\<rparr>)"

definition escape_char :: "char \<Rightarrow> string" where
  "escape_char c =
     (if c = CHR ''&'' then ''&amp;'' else if c = CHR 0x27 then ''&#39;'' else if c = CHR ''<'' then ''&lt;''
      else if c = CHR ''>'' then ''&gt;'' else if c = CHR 0x22 then ''&#34;'' else [c])"

text \<open>\<open>SendResponse\<close>, for a response that has not started.\<close>

definition send_response :: "http_request \<Rightarrow> headers \<Rightarrow> nat \<Rightarrow> string \<Rightarrow> reply" where
  "send_response r h status message =
     (let accept = header_get (hr_headers r) ''Accept'' in
      if contains accept ''text/plain'' then
        Reply status (header_set ''Content-Type'' ''text/plain'' h) (PlainText (''llama-swap: '' @ message))
      else if contains accept ''text/html'' then
        Reply status (header_set ''Content-Type'' ''text/html'' h)
          (HtmlText (''<html><body><h1>llama-swap</h1><p>'' @ concat (map escape_char message) @ ''</p></body></html>''))
      else
        Reply status (header_set ''Content-Type'' ''application/json'' h) (ErrorBody (new_error_envelope status message [])))"

datatype request_failure =
    NoModelInContext
  | NoPeerModelFound
  | NoLocalModelFound
  | NoRouterFound
  | InferencePaused
  | ConcurrencyLimit int string
  | OtherError string

text \<open>\<open>SendError\<close>; \<open>ConcurrencyLimit\<close> is the one error that carries its whole response.\<close>

definition send_error :: "http_request \<Rightarrow> headers \<Rightarrow> request_failure \<Rightarrow> reply" where
  "send_error r h e =
     (case e of
        ConcurrencyLimit retry msg \<Rightarrow>
          Reply 429
            (AList.update ''Retry-After'' [if 0 < retry then itoa retry else ''1'']
              (AList.update ''Content-Type'' [''application/json''] h))
            (ErrorBody (new_error_envelope 429 (if msg \<noteq> [] then msg else ''Too many requests'') ''concurrency_limit''))
      | NoModelInContext \<Rightarrow> send_response r h 404 ''no model id could be identified''
      | NoPeerModelFound \<Rightarrow> send_response r h 404 ''no peer found for requested model''
      | NoLocalModelFound \<Rightarrow> send_response r h 404 ''no local server found for requested model''
      | NoRouterFound \<Rightarrow> send_response r h 404 ''no router for requested model''
      | InferencePaused \<Rightarrow> send_response r h 503 ''all inference is paused''
      | OtherError msg \<Rightarrow> send_response r h 500 (''unspecific error: '' @ msg))"

section \<open>Handlers and chains\<close>

text \<open>A handler is given the headers already written to its response.\<close>

type_synonym handler = "http_request \<Rightarrow> headers \<Rightarrow> reply"
type_synonym middleware = "handler \<Rightarrow> handler"

definition chain_append :: "middleware list \<Rightarrow> middleware list \<Rightarrow> middleware list" where
  "chain_append c mws = c @ mws"

definition chain_then :: "middleware list \<Rightarrow> middleware" where
  "chain_then mws final = foldl (\<lambda>h i. (mws ! i) h) final (rev [0..<length mws])"

lemma chain_then_Nil [simp]: "chain_then [] final = final"
  by (simp add: chain_then_def)

lemma chain_then_Cons [simp]: "chain_then (mw # mws) final = mw (chain_then mws final)"
proof -
  have "foldl (\<lambda>h i. ((mw # mws) ! i) h) final (rev (map Suc [0..<length mws])) =
      foldl (\<lambda>h i. (mws ! i) h) final (rev [0..<length mws])"
    by (simp add: rev_map foldl_map)
  moreover have "[0..<length (mw # mws)] = 0 # map Suc [0..<length mws]"
    using map_upt_Suc [of "\<lambda>i. i"] by (simp add: upt_conv_Cons map_Suc_upt)
  ultimately show ?thesis unfolding chain_then_def by simp
qed

lemma chain_then_append: "chain_then (chain_append c mws) final = chain_then c (chain_then mws final)"
  by (induction c) (simp_all add: chain_append_def)

lemma send_response_keeps: "j \<noteq> ''Content-Type'' \<Longrightarrow> header_values (reply_headers (send_response r h s m)) j = header_values h j"
  by (simp add: send_response_def Let_def)

lemma send_response_status [simp]: "reply_status (send_response r h s m) = s"
  by (simp add: send_response_def Let_def)

lemma send_error_keeps:
  "j \<noteq> ''Content-Type'' \<Longrightarrow> j \<noteq> ''Retry-After'' \<Longrightarrow> header_values (reply_headers (send_error r h e)) j = header_values h j"
  by (cases e) (simp_all add: send_error_def send_response_keeps, simp add: header_values_def)

end
