(* ===== verification/RequestModel.thy ===== *)
theory RequestModel
  imports Http ConfigNames
begin

text \<open>
  The model a request is for (\<open>internal/swaputil/http.go\<close>): extraction from the query, a JSON body or a form,
  the search for a model in an upstream path, the context data, and the replacement of the model by which profiles and
  selectors (\<open>internal/server/profiles.go\<close>, \<open>selector.go\<close>) rewrite requests.

  The parsers and printers of queries, forms and JSON are the fields of a \<open>codec\<close>. What \<open>net/http\<close>
  caches in a request (the forms, once parsed) is part of the request. The escaped form of a rewritten upstream path is not
  modelled.
\<close>

record codec =
  cd_query :: "string \<Rightarrow> form_values \<times> bool"
  cd_query_encode :: "form_values \<Rightarrow> string"
  cd_form_body :: "string \<Rightarrow> string \<Rightarrow> form_values \<times> bool"
  cd_multipart :: "string \<Rightarrow> string \<Rightarrow> multipart option"
  cd_multipart_encode :: "multipart \<Rightarrow> (string \<times> string) option"
  cd_json_valid :: "string \<Rightarrow> bool"
  cd_json_string :: "string \<Rightarrow> string \<Rightarrow> string"
  cd_json_bool :: "string \<Rightarrow> string \<Rightarrow> bool"
  cd_json_set_model :: "string \<Rightarrow> string \<Rightarrow> string option"
  cd_base64 :: "string \<Rightarrow> string option"

section \<open>The API key of a request\<close>

text \<open>\<open>strings.Cut\<close> at the first occurrence of a character.\<close>

fun cut_at :: "char \<Rightarrow> string \<Rightarrow> (string \<times> string) option" where
  "cut_at d [] = None"
| "cut_at d (c # s) = (if c = d then Some ([], s) else map_option (\<lambda>(a, b). (c # a, b)) (cut_at d s))"

definition extract_api_key :: "codec \<Rightarrow> http_request \<Rightarrow> string" where
  "extract_api_key cd r =
     (let auth = header_get (hr_headers r) ''Authorization'';
          keys = (if auth = [] then ([], [])
                  else case cut_at (CHR '' '') auth of
                    None \<Rightarrow> ([], [])
                  | Some (scheme, credentials) \<Rightarrow>
                      if to_lower scheme = ''bearer'' then ([], credentials)
                      else if to_lower scheme = ''basic'' then
                        (case cd_base64 cd credentials of
                           None \<Rightarrow> ([], [])
                         | Some decoded \<Rightarrow>
                             (case cut_at (CHR '':'') decoded of None \<Rightarrow> ([], []) | Some (user, password) \<Rightarrow> (password, [])))
                      else ([], []))
      in case keys of (basic_key, bearer_key) \<Rightarrow>
           if basic_key \<noteq> [] then basic_key
           else if bearer_key \<noteq> [] then bearer_key
           else header_get (hr_headers r) ''X-Api-Key'')"

section \<open>Forms, as \<open>net/http\<close> parses and caches them\<close>

text \<open>\<open>copyValues\<close>, and the appending loop of \<open>ParseMultipartForm\<close>.\<close>

definition copy_values :: "form_values \<Rightarrow> form_values \<Rightarrow> form_values" where
  "copy_values src dst = foldl (\<lambda>d (k, vs). AList.update k (header_values d k @ vs) d) dst src"

text \<open>\<open>ParseForm\<close>: whether something was malformed, and the request with its forms.\<close>

definition parse_form :: "codec \<Rightarrow> http_request \<Rightarrow> bool \<times> http_request" where
  "parse_form cd r =
     (let (post, bad) =
            (case hr_post_form r of
               Some p \<Rightarrow> (p, False)
             | None \<Rightarrow>
                 if hr_method r \<in> {''POST'', ''PUT'', ''PATCH''}
                 then cd_form_body cd (header_get (hr_headers r) ''Content-Type'') (hr_body r) else ([], False));
          (form, bad') =
            (case hr_form r of
               Some f \<Rightarrow> (f, bad)
             | None \<Rightarrow>
                 (case cd_query cd (hr_query r) of (vs, malformed) \<Rightarrow>
                    (if post = [] then vs else copy_values vs (copy_values post []), bad \<or> malformed)))
      in (bad', r\<lparr>hr_post_form := Some post, hr_form := Some form\<rparr>))"

definition parse_multipart_form :: "codec \<Rightarrow> http_request \<Rightarrow> bool \<times> http_request" where
  "parse_multipart_form cd r =
     (let (bad, r1) = (if hr_form r = None then parse_form cd r else (False, r)) in
      if hr_multipart r1 \<noteq> None then (False, r1)
      else case cd_multipart cd (header_get (hr_headers r1) ''Content-Type'') (hr_body r1) of
        None \<Rightarrow> (True, r1)
      | Some mp \<Rightarrow>
          (bad, r1\<lparr>hr_form := Some (copy_values (mp_values mp) (case hr_form r1 of None \<Rightarrow> [] | Some f \<Rightarrow> f)),
                   hr_post_form := Some (copy_values (mp_values mp) (case hr_post_form r1 of None \<Rightarrow> [] | Some p \<Rightarrow> p)),
                   hr_multipart := Some mp\<rparr>))"

definition form_value :: "http_request \<Rightarrow> string \<Rightarrow> string" where
  "form_value r k = (case hr_form r of None \<Rightarrow> [] | Some f \<Rightarrow> form_get f k)"

section \<open>Extraction\<close>

definition new_context :: "codec \<Rightarrow> http_request \<Rightarrow> string \<Rightarrow> bool \<Rightarrow> req_context" where
  "new_context cd r model streaming =
     \<lparr>rx_model = model, rx_model_id = [], rx_streaming = streaming, rx_loading = False, rx_api_key = extract_api_key cd r\<rparr>"

definition content_type :: "http_request \<Rightarrow> string" where
  "content_type r = header_get (hr_headers r) ''Content-Type''"

definition extract_context :: "codec \<Rightarrow> http_request \<Rightarrow> (body_error + req_context) \<times> http_request" where
  "extract_context cd r =
     (if hr_method r = ''GET'' then
        (let q = fst (cd_query cd (hr_query r)) in
         (Inr (new_context cd r (form_get q ''model'') (form_get q ''stream'' = ''true'')), r))
      else case read_body r of
        Inl e \<Rightarrow> (Inl e, r)
      | Inr body \<Rightarrow>
          (let r1 = set_body body r in
           if contains (content_type r) ''application/json'' then
             (Inr (new_context cd r (cd_json_string cd body ''model'') (cd_json_bool cd body ''stream'')), r1)
           else if contains (content_type r) ''multipart/form-data'' then
             (case parse_multipart_form cd r1 of (bad, r2) \<Rightarrow>
                if bad then (Inl MultipartInvalid, r2)
                else (Inr (new_context cd r (form_value r2 ''model'') (form_value r2 ''stream'' = ''true'')), r2))
           else
             (case parse_form cd r1 of (bad, r2) \<Rightarrow>
                if bad then (Inl FormInvalid, r2)
                else (Inr (new_context cd r (form_value r2 ''model'') (form_value r2 ''stream'' = ''true'')), r2))))"

definition extract_model :: "codec \<Rightarrow> http_request \<Rightarrow> (body_error + string) \<times> http_request" where
  "extract_model cd r =
     (case extract_context cd r of (Inl e, r1) \<Rightarrow> (Inl e, r1) | (Inr d, r1) \<Rightarrow> (Inr (rx_model d), r1))"

text \<open>One round of the walk along a path; the state is the name so far and the last match.\<close>

definition join_slash :: "string list \<Rightarrow> string" where
  "join_slash ps = (case ps of [] \<Rightarrow> [] | p # rest \<Rightarrow> foldl (\<lambda>s q. s @ ''/'' @ q) p rest)"

definition walk_path ::
  "names \<Rightarrow> string list \<Rightarrow> string \<times> (string \<times> string \<times> string) option \<Rightarrow> nat \<times> string \<Rightarrow>
     string \<times> (string \<times> string \<times> string) option" where
  "walk_path c parts acc ip =
     (case acc of (name, found) \<Rightarrow> case ip of (i, part) \<Rightarrow>
        if part = [] then (name, found)
        else (let name' = (if name = [] then part else name @ ''/'' @ part) in
              (name', case resolve_base_model c name' of
                 Some m \<Rightarrow> Some (name', m, ''/'' @ join_slash (drop (i + 1) parts))
               | None \<Rightarrow> found)))"

definition find_model_in_path :: "names \<Rightarrow> string \<Rightarrow> (string \<times> string \<times> string) option" where
  "find_model_in_path c path =
     (let parts = split_at (CHR ''/'') (trim_space path) in
      snd (foldl (walk_path c parts) ([], None) (enumerate 0 parts)))"

definition trim_prefix :: "string \<Rightarrow> string \<Rightarrow> string" where
  "trim_prefix p s = (if has_prefix s p then drop (length p) s else s)"

definition extract_upstream_context :: "codec \<Rightarrow> names \<Rightarrow> (string \<Rightarrow> bool) \<Rightarrow> http_request \<Rightarrow> req_context option" where
  "extract_upstream_context cd c loading r =
     (case find_model_in_path c (trim_prefix ''/upstream'' (hr_path r)) of
        None \<Rightarrow> None
      | Some (search, real, remaining) \<Rightarrow>
          Some \<lparr>rx_model = search, rx_model_id = real,
                rx_streaming = (form_get (fst (cd_query cd (hr_query r))) ''stream'' = ''true''),
                rx_loading = loading real, rx_api_key = extract_api_key cd r\<rparr>)"

text \<open>
  \<open>FetchContext\<close>: \<open>loading\<close> says which configured models want their loading state sent. An error is
  \<open>Inl\<close> of the read error, if there was one.
\<close>

definition fetch_context ::
  "codec \<Rightarrow> names \<Rightarrow> (string \<Rightarrow> bool) \<Rightarrow> http_request \<Rightarrow> (body_error option + req_context) \<times> http_request" where
  "fetch_context cd c loading r =
     (case hr_context r of
        Some d \<Rightarrow> (Inr d, r)
      | None \<Rightarrow>
          if has_prefix (hr_path r) ''/upstream/'' then
            (case extract_upstream_context cd c loading r of
               Some d \<Rightarrow> (Inr d, r\<lparr>hr_context := Some d\<rparr>)
             | None \<Rightarrow> (Inl None, r))
          else
            (case extract_context cd r of
               (Inl e, r1) \<Rightarrow> (Inl (Some e), r1)
             | (Inr d, r1) \<Rightarrow>
                 if rx_model d = [] then (Inl None, r1)
                 else
                   (let resolved = (case real_model_name c (rx_model d) of None \<Rightarrow> [] | Some n \<Rightarrow> n);
                        real = (if resolved = [] then rx_model d else resolved);
                        d' = d\<lparr>rx_model_id := real, rx_loading := loading real\<rparr>
                    in (Inr d', r1\<lparr>hr_context := Some d'\<rparr>))))"

section \<open>Replacement\<close>

datatype replace_error =
    ReplaceBody body_error
  | ReplaceJson
  | ReplaceMultipart

definition replace_request_body :: "string \<Rightarrow> http_request \<Rightarrow> http_request" where
  "replace_request_body body r =
     (set_body body r)
       \<lparr>hr_headers := header_set ''Content-Length'' (itoa (int (length body))) (AList.delete ''Transfer-Encoding'' (hr_headers r)),
        hr_length := int (length body)\<rparr>"

definition replace_multipart_model :: "string \<Rightarrow> multipart \<Rightarrow> multipart" where
  "replace_multipart_model replacement form =
     form\<lparr>mp_values := map (\<lambda>(k, vs). (k, map (\<lambda>v. if k = ''model'' then replacement else v) vs)) (mp_values form)\<rparr>"

definition invalidate_request_context :: "http_request \<Rightarrow> http_request" where
  "invalidate_request_context r = (if hr_context r = None then r else r\<lparr>hr_context := None\<rparr>)"

definition replace_upstream_model :: "string \<Rightarrow> string \<Rightarrow> http_request \<Rightarrow> http_request" where
  "replace_upstream_model model replacement r =
     (let upstream = trim_prefix ''/'' (hr_upstream r) in
      if upstream \<noteq> model \<and> \<not> has_prefix upstream (model @ ''/'') then r
      else
        (let rewritten = (if replacement = [] then [] else replacement @ trim_prefix model upstream) in
         invalidate_request_context (r\<lparr>hr_upstream := rewritten, hr_path := ''/upstream/'' @ rewritten\<rparr>)))"

definition replace_form_model :: "codec \<Rightarrow> string \<Rightarrow> http_request \<Rightarrow> replace_error + http_request" where
  "replace_form_model cd replacement r =
     (case parse_form cd r of (bad, r1) \<Rightarrow>
        if bad then Inl (ReplaceBody FormInvalid)
        else
          (let post = header_set ''model'' replacement (case hr_post_form r1 of None \<Rightarrow> [] | Some p \<Rightarrow> p) in
           Inr (replace_request_body (cd_query_encode cd post) (r1\<lparr>hr_post_form := Some post\<rparr>))))"

definition replace_body_model :: "codec \<Rightarrow> string \<Rightarrow> http_request \<Rightarrow> replace_error + http_request" where
  "replace_body_model cd replacement r =
     (if contains (content_type r) ''application/json'' then
        (case read_body r of
           Inl e \<Rightarrow> Inl (ReplaceBody e)
         | Inr body \<Rightarrow>
             (case cd_json_set_model cd body replacement of
                None \<Rightarrow> Inl ReplaceJson
              | Some body' \<Rightarrow> Inr (replace_request_body body' (set_body body r))))
      else if contains (content_type r) ''multipart/form-data'' then
        (case parse_multipart_form cd r of (bad, r1) \<Rightarrow>
           if bad then Inl (ReplaceBody MultipartInvalid)
           else case hr_multipart r1 of
             None \<Rightarrow> Inl ReplaceMultipart
           | Some form \<Rightarrow>
               (case cd_multipart_encode cd (replace_multipart_model replacement form) of
                  None \<Rightarrow> Inl ReplaceMultipart
                | Some (body, ct) \<Rightarrow>
                    Inr (replace_request_body body
                      (r1\<lparr>hr_multipart := None, hr_form := None, hr_post_form := None,
                          hr_headers := header_set ''Content-Type'' ct (hr_headers r1)\<rparr>))))
      else replace_form_model cd replacement r)"

definition replace_request_model :: "codec \<Rightarrow> string \<Rightarrow> string \<Rightarrow> http_request \<Rightarrow> replace_error + http_request" where
  "replace_request_model cd model replacement r =
     (if has_prefix (hr_path r) ''/upstream/'' then Inr (replace_upstream_model model replacement r)
      else case extract_model cd r of
        (Inl e, r1) \<Rightarrow> Inl (ReplaceBody e)
      | (Inr current, r1) \<Rightarrow>
          if current \<noteq> model then Inr r1
          else if hr_method r1 = ''GET'' then
            Inr (invalidate_request_context
              (r1\<lparr>hr_query := cd_query_encode cd (header_set ''model'' replacement (fst (cd_query cd (hr_query r1))))\<rparr>))
          else bindE (replace_body_model cd replacement r1) (\<lambda>r2. Inr (invalidate_request_context r2)))"

section \<open>Profiles\<close>

definition pin_step :: "string \<Rightarrow> string \<times> string \<Rightarrow> string \<times> string \<Rightarrow> string \<times> string" where
  "pin_step path acc pc =
     (case acc of (matched, replacement) \<Rightarrow> case pc of (pin, candidate) \<Rightarrow>
        if path = pin \<or> has_prefix path (pin @ ''/'') then
          (if length matched < length pin then (pin, candidate) else (matched, replacement))
        else (matched, replacement))"

definition upstream_profile_pin :: "string \<Rightarrow> (string \<times> string) list \<Rightarrow> (string \<times> string) option" where
  "upstream_profile_pin path pins =
     (case foldl (pin_step (trim_prefix ''/'' path)) ([], []) pins of (matched, replacement) \<Rightarrow>
        if matched \<noteq> [] then Some (matched, replacement) else None)"

text \<open>\<open>errmsg\<close> renders the error of a failed rewrite; \<open>profile\<close> has the pins of the active profile, if there is one.\<close>

definition profile_middleware ::
  "codec \<Rightarrow> (replace_error \<Rightarrow> string) \<Rightarrow> (string \<times> string) list option \<Rightarrow> middleware" where
  "profile_middleware cd errmsg profile nxt r h =
     (case profile of
        None \<Rightarrow> nxt r h
      | Some pins \<Rightarrow>
          (let (pinned, r1) =
             (if has_prefix (hr_path r) ''/upstream/'' then (upstream_profile_pin (hr_upstream r) pins, r)
              else case extract_model cd r of
                (Inl e, r1) \<Rightarrow> (None, r1)
              | (Inr m, r1) \<Rightarrow> (if m = [] then None else map_option (Pair m) (map_of pins m), r1))
           in case pinned of
             None \<Rightarrow> nxt r1 h
           | Some (model, replacement) \<Rightarrow>
               (case replace_request_model cd model replacement r1 of
                  Inl e \<Rightarrow> send_response r1 h 400 (errmsg e)
                | Inr r2 \<Rightarrow> nxt r2 h)))"

section \<open>Facts\<close>

lemma set_body_same [simp]: "set_body b (set_body b r) = set_body b r"
  by (simp add: set_body_def)

lemma set_body_simps [simp]:
  "hr_method (set_body b r) = hr_method r" "hr_headers (set_body b r) = hr_headers r" "hr_body (set_body b r) = b"
  "hr_form (set_body b r) = hr_form r" "hr_post_form (set_body b r) = hr_post_form r" "hr_query (set_body b r) = hr_query r"
  "hr_multipart (set_body b r) = hr_multipart r" "read_body (set_body b r) = Inr b" "hr_path (set_body b r) = hr_path r"
  "hr_context (set_body b r) = hr_context r" "content_type (set_body b r) = content_type r" "hr_length (set_body b r) = hr_length r"
  by (simp_all add: set_body_def read_body_def content_type_def)

lemma parse_form_cached:
  "hr_form r \<noteq> None \<Longrightarrow> hr_post_form r \<noteq> None \<Longrightarrow> parse_form cd r = (False, r)"
  by (auto simp: parse_form_def Let_def)

lemma parse_form_keeps:
  assumes "parse_form cd r = (bad, r1)"
  shows "hr_form r1 \<noteq> None" "hr_post_form r1 \<noteq> None" "set_body b r1 = set_body b r\<lparr>hr_post_form := hr_post_form r1, hr_form := hr_form r1\<rparr>"
    "hr_body r1 = hr_body r" "hr_cap r1 = hr_cap r" "hr_broken r1 = hr_broken r" "hr_headers r1 = hr_headers r"
    "hr_method r1 = hr_method r" "hr_multipart r1 = hr_multipart r" "hr_path r1 = hr_path r" "hr_query r1 = hr_query r"
    "hr_context r1 = hr_context r" "hr_length r1 = hr_length r"
  using assms by (auto simp: parse_form_def Let_def set_body_def split: prod.splits)

lemma parse_multipart_cached:
  "hr_form r = Some f \<Longrightarrow> hr_multipart r = Some mp \<Longrightarrow> parse_multipart_form cd r = (False, r)"
  by (simp add: parse_multipart_form_def)

lemma parse_multipart_keeps:
  assumes "parse_multipart_form cd r = (bad, r1)"
  shows "hr_form r1 \<noteq> None" "hr_body r1 = hr_body r" "hr_cap r1 = hr_cap r" "hr_broken r1 = hr_broken r"
    "hr_headers r1 = hr_headers r" "hr_method r1 = hr_method r" "hr_path r1 = hr_path r" "hr_query r1 = hr_query r"
    "hr_context r1 = hr_context r" "hr_length r1 = hr_length r" "\<not> bad \<Longrightarrow> hr_multipart r1 \<noteq> None"
proof -
  obtain b1 r0 where r0: "(if hr_form r = None then parse_form cd r else (False, r)) = (b1, r0)" by fastforce
  have k: "hr_form r0 \<noteq> None \<and> hr_body r0 = hr_body r \<and> hr_cap r0 = hr_cap r \<and> hr_broken r0 = hr_broken r \<and>
      hr_headers r0 = hr_headers r \<and> hr_method r0 = hr_method r \<and> hr_path r0 = hr_path r \<and> hr_query r0 = hr_query r \<and>
      hr_context r0 = hr_context r \<and> hr_length r0 = hr_length r"
  proof (cases "hr_form r")
    case None
    with r0 have "parse_form cd r = (b1, r0)" by simp
    from parse_form_keeps [OF this] show ?thesis by blast
  qed (use r0 in auto)
  have "parse_multipart_form cd r =
      (if hr_multipart r0 \<noteq> None then (False, r0)
       else case cd_multipart cd (header_get (hr_headers r0) ''Content-Type'') (hr_body r0) of
         None \<Rightarrow> (True, r0)
       | Some mp \<Rightarrow>
           (b1, r0\<lparr>hr_form := Some (copy_values (mp_values mp) (case hr_form r0 of None \<Rightarrow> [] | Some f \<Rightarrow> f)),
                   hr_post_form := Some (copy_values (mp_values mp) (case hr_post_form r0 of None \<Rightarrow> [] | Some p \<Rightarrow> p)),
                   hr_multipart := Some mp\<rparr>))"
    unfolding parse_multipart_form_def r0 by simp
  with assms k show "hr_form r1 \<noteq> None" "hr_body r1 = hr_body r" "hr_cap r1 = hr_cap r" "hr_broken r1 = hr_broken r"
    "hr_headers r1 = hr_headers r" "hr_method r1 = hr_method r" "hr_path r1 = hr_path r" "hr_query r1 = hr_query r"
    "hr_context r1 = hr_context r" "hr_length r1 = hr_length r" "\<not> bad \<Longrightarrow> hr_multipart r1 \<noteq> None"
    by (auto split: if_splits option.splits)
qed

lemma read_body_kept: "hr_cap r1 = hr_cap r \<Longrightarrow> hr_broken r1 = hr_broken r \<Longrightarrow> hr_body r1 = hr_body r \<Longrightarrow> read_body r1 = read_body r"
  by (simp only: read_body_def)

lemma set_body_kept: "hr_cap r = None \<Longrightarrow> \<not> hr_broken r \<Longrightarrow> hr_body r = b \<Longrightarrow> set_body b r = r"
  by (simp add: set_body_def)

lemma api_key_kept: "hr_headers r1 = hr_headers r \<Longrightarrow> extract_api_key cd r1 = extract_api_key cd r"
  by (simp only: extract_api_key_def)

text \<open>The five ways an extraction goes.\<close>

lemma request_kind:
  obtains (get) "hr_method r = ''GET''"
  | (failed) e where "hr_method r \<noteq> ''GET''" "read_body r = Inl e"
  | (json) body where "hr_method r \<noteq> ''GET''" "read_body r = Inr body" "contains (content_type r) ''application/json''"
  | (multi) body where "hr_method r \<noteq> ''GET''" "read_body r = Inr body" "\<not> contains (content_type r) ''application/json''"
      "contains (content_type r) ''multipart/form-data''"
  | (form) body where "hr_method r \<noteq> ''GET''" "read_body r = Inr body" "\<not> contains (content_type r) ''application/json''"
      "\<not> contains (content_type r) ''multipart/form-data''"
  by (cases "read_body r") blast+

lemma extract_get: "hr_method r = ''GET'' \<Longrightarrow> extract_context cd r =
    (let q = fst (cd_query cd (hr_query r)) in (Inr (new_context cd r (form_get q ''model'') (form_get q ''stream'' = ''true'')), r))"
  by (simp add: extract_context_def)

lemma extract_failed: "hr_method r \<noteq> ''GET'' \<Longrightarrow> read_body r = Inl e \<Longrightarrow> extract_context cd r = (Inl e, r)"
  by (simp add: extract_context_def)

lemma extract_json:
  "hr_method r \<noteq> ''GET'' \<Longrightarrow> read_body r = Inr body \<Longrightarrow> contains (content_type r) ''application/json'' \<Longrightarrow> extract_context cd r =
    (Inr (new_context cd r (cd_json_string cd body ''model'') (cd_json_bool cd body ''stream'')), set_body body r)"
  by (simp add: extract_context_def Let_def)

lemma extract_multi:
  "hr_method r \<noteq> ''GET'' \<Longrightarrow> read_body r = Inr body \<Longrightarrow> \<not> contains (content_type r) ''application/json'' \<Longrightarrow>
    contains (content_type r) ''multipart/form-data'' \<Longrightarrow> extract_context cd r =
    (case parse_multipart_form cd (set_body body r) of (bad, r2) \<Rightarrow>
       if bad then (Inl MultipartInvalid, r2)
       else (Inr (new_context cd r (form_value r2 ''model'') (form_value r2 ''stream'' = ''true'')), r2))"
  by (simp add: extract_context_def Let_def)

lemma extract_form:
  "hr_method r \<noteq> ''GET'' \<Longrightarrow> read_body r = Inr body \<Longrightarrow> \<not> contains (content_type r) ''application/json'' \<Longrightarrow>
    \<not> contains (content_type r) ''multipart/form-data'' \<Longrightarrow> extract_context cd r =
    (case parse_form cd (set_body body r) of (bad, r2) \<Rightarrow>
       if bad then (Inl FormInvalid, r2)
       else (Inr (new_context cd r (form_value r2 ''model'') (form_value r2 ''stream'' = ''true'')), r2))"
  by (simp add: extract_context_def Let_def)

lemmas extract_rules = extract_get extract_failed extract_json extract_multi extract_form

lemma read_body_Inr: "read_body r = Inr b \<Longrightarrow> b = hr_body r"
  by (auto simp: read_body_def split: option.splits if_splits)

text \<open>What an extraction leaves of the request; and a second extraction finds the same.\<close>

lemma extract_context_keeps:
  assumes "extract_context cd r = (res, r1)"
  shows "hr_method r1 = hr_method r \<and> hr_headers r1 = hr_headers r \<and> hr_path r1 = hr_path r \<and> hr_query r1 = hr_query r \<and>
    hr_context r1 = hr_context r \<and> hr_body r1 = hr_body r \<and> hr_length r1 = hr_length r"
proof (cases r rule: request_kind)
  case get
  with assms show ?thesis by (simp add: extract_get Let_def)
next
  case (failed e)
  with assms show ?thesis by (simp add: extract_failed)
next
  case (json body)
  with assms read_body_Inr [OF json(2)] show ?thesis by (auto simp: extract_json)
next
  case (multi body)
  obtain bad r2 where p: "parse_multipart_form cd (set_body body r) = (bad, r2)" by fastforce
  with assms multi have "r1 = r2" by (auto simp: extract_multi split: if_splits)
  with parse_multipart_keeps [OF p] read_body_Inr [OF multi(2)] show ?thesis by simp
next
  case (form body)
  obtain bad r2 where p: "parse_form cd (set_body body r) = (bad, r2)" by fastforce
  with assms form have "r1 = r2" by (auto simp: extract_form split: if_splits)
  with parse_form_keeps [OF p] read_body_Inr [OF form(2)] show ?thesis by simp
qed

lemma content_type_kept: "hr_headers r1 = hr_headers r \<Longrightarrow> content_type r1 = content_type r"
  by (simp only: content_type_def)

lemma new_context_kept: "hr_headers r1 = hr_headers r \<Longrightarrow> new_context cd r1 m b = new_context cd r m b"
  by (simp only: new_context_def extract_api_key_def)

lemma extract_again:
  assumes "extract_context cd r = (Inr d, r1)"
  shows "extract_context cd r1 = (Inr d, r1)"
proof (cases r rule: request_kind)
  case get
  with assms have "r1 = r" by (simp add: extract_get Let_def)
  with assms show ?thesis by simp
next
  case (failed e)
  with assms show ?thesis by (simp add: extract_failed)
next
  case (json body)
  with assms have r1: "r1 = set_body body r" "d = new_context cd r (cd_json_string cd body ''model'') (cd_json_bool cd body ''stream'')"
    by (simp_all add: extract_json)
  moreover have "new_context cd (set_body body r) = new_context cd r"
    by (intro ext) (simp add: new_context_kept [of "set_body body r" r])
  ultimately show ?thesis using json by (simp add: extract_json)
next
  case (multi body)
  obtain bad r2 where p: "parse_multipart_form cd (set_body body r) = (bad, r2)" by fastforce
  with assms multi have r1: "r1 = r2" "\<not> bad" "d = new_context cd r (form_value r2 ''model'') (form_value r2 ''stream'' = ''true'')"
    by (auto simp: extract_multi split: if_splits)
  note k = parse_multipart_keeps [OF p]
  have s: "set_body body r2 = r2" using k by (intro set_body_kept) (simp_all add: set_body_def)
  have "parse_multipart_form cd r2 = (False, r2)" using k(1,11) r1(2) by (auto intro: parse_multipart_cached)
  moreover have "read_body r2 = Inr body" using s by (metis set_body_simps(8))
  moreover have "content_type r2 = content_type r" "hr_method r2 = hr_method r"
    using k by (simp_all add: content_type_def)
  moreover have "new_context cd r2 = new_context cd r" using k(5) by (intro ext) (simp add: new_context_kept [of r2 r])
  ultimately show ?thesis using multi r1 s by (simp add: extract_multi)
next
  case (form body)
  obtain bad r2 where p: "parse_form cd (set_body body r) = (bad, r2)" by fastforce
  with assms form have r1: "r1 = r2" "\<not> bad" "d = new_context cd r (form_value r2 ''model'') (form_value r2 ''stream'' = ''true'')"
    by (auto simp: extract_form split: if_splits)
  note k = parse_form_keeps [OF p]
  have s: "set_body body r2 = r2" using k by (intro set_body_kept) (simp_all add: set_body_def)
  have "parse_form cd r2 = (False, r2)" using k(1,2) by (simp add: parse_form_cached)
  moreover have "read_body r2 = Inr body" using s by (metis set_body_simps(8))
  moreover have "content_type r2 = content_type r" "hr_method r2 = hr_method r"
    using k by (simp_all add: content_type_def)
  moreover have "new_context cd r2 = new_context cd r" using k(7) by (intro ext) (simp add: new_context_kept [of r2 r])
  ultimately show ?thesis using form r1 s by (simp add: extract_form)
qed

lemma extract_model_Inr: "extract_model cd r = (Inr m, r1) \<longleftrightarrow> (\<exists>d. extract_context cd r = (Inr d, r1) \<and> m = rx_model d)"
  by (auto simp: extract_model_def split: prod.splits sum.splits)

section \<open>Replacement takes effect\<close>

text \<open>
  What the rewriting relies on of the packages that parse and print: a printed query, a JSON body and a printed
  multipart form read back as what was set; the media types of the two kinds of forms exclude each other.
\<close>

definition codec_laws :: "codec \<Rightarrow> bool" where
  "codec_laws cd \<longleftrightarrow>
     (\<forall>vs. form_get (fst (cd_query cd (cd_query_encode cd vs))) ''model'' = form_get vs ''model'') \<and>
     (\<forall>b s b'. cd_json_set_model cd b s = Some b' \<longrightarrow> cd_json_string cd b' ''model'' = s) \<and>
     (\<forall>ct b mp. cd_multipart cd ct b = Some mp \<longrightarrow> distinct (map fst (mp_values mp)) \<and> cd_form_body cd ct b = ([], False)) \<and>
     (\<forall>mp b ct. cd_multipart_encode cd mp = Some (b, ct) \<longrightarrow>
        contains ct ''multipart/form-data'' \<and> \<not> contains ct ''application/json'' \<and>
        (\<exists>mp'. cd_multipart cd ct b = Some mp' \<and>
           header_values (mp_values mp') ''model'' = header_values (mp_values mp) ''model''))"

lemma header_values_copy_values:
  "distinct (map fst src) \<Longrightarrow> header_values (copy_values src dst) k = header_values dst k @ header_values src k"
proof (induction src arbitrary: dst)
  case (Cons x src)
  obtain j vs where x: "x = (j, vs)" by (cases x)
  have step: "header_values (AList.update j (header_values dst j @ vs) dst) k = (if k = j then header_values dst j @ vs else header_values dst k)"
    by (simp add: header_values_def)
  have absent: "header_values src j = []" using Cons.prems x by (simp add: header_values_def map_of_eq_None_iff [THEN iffD2])
  have "header_values (copy_values (x # src) dst) k =
      header_values (AList.update j (header_values dst j @ vs) dst) k @ header_values src k"
    using Cons.IH [of "AList.update j (header_values dst j @ vs) dst"] Cons.prems by (simp add: copy_values_def x)
  with step absent show ?case by (auto simp: header_values_def x)
qed (simp add: copy_values_def header_values_def)

lemma header_values_replaced:
  "header_values (mp_values (replace_multipart_model repl mp)) ''model'' = map (\<lambda>v. repl) (header_values (mp_values mp) ''model'')"
proof -
  have "map_of (map (\<lambda>(k, vs). (k, map (\<lambda>v. if k = ''model'' then repl else v) vs)) al) ''model'' =
      map_option (map (\<lambda>v. repl)) (map_of al ''model'')" for al :: form_values
    by (induction al) auto
  then show ?thesis by (simp add: header_values_def replace_multipart_model_def split: option.splits)
qed

lemma fresh_multipart:
  assumes "hr_form r = None" "hr_post_form r = None" "hr_multipart r = None"
    and "cd_multipart cd (content_type r) (hr_body r) = Some mp" and "cd_form_body cd (content_type r) (hr_body r) = ([], False)"
  shows "fst (parse_multipart_form cd r) = snd (cd_query cd (hr_query r))"
    and "hr_form (snd (parse_multipart_form cd r)) = Some (copy_values (mp_values mp) (fst (cd_query cd (hr_query r))))"
    and "hr_multipart (snd (parse_multipart_form cd r)) = Some mp"
proof -
  obtain q bad where q: "cd_query cd (hr_query r) = (q, bad)" by fastforce
  let ?r1 = "r\<lparr>hr_post_form := Some [], hr_form := Some q\<rparr>"
  have "parse_form cd r = (bad, ?r1)" using assms q by (simp add: parse_form_def content_type_def)
  then have "parse_multipart_form cd r = (bad, ?r1\<lparr>hr_form := Some (copy_values (mp_values mp) q),
      hr_post_form := Some (copy_values (mp_values mp) []), hr_multipart := Some mp\<rparr>)"
    using assms by (simp add: parse_multipart_form_def content_type_def)
  with q show "fst (parse_multipart_form cd r) = snd (cd_query cd (hr_query r))"
    "hr_form (snd (parse_multipart_form cd r)) = Some (copy_values (mp_values mp) (fst (cd_query cd (hr_query r))))"
    "hr_multipart (snd (parse_multipart_form cd r)) = Some mp"
    by simp_all
qed

text \<open>The effect of a replacement on a request whose model has been extracted before.\<close>

lemma replaced_get:
  assumes "codec_laws cd" and "hr_method r = ''GET''" and "extract_model cd r = (Inr m, r)"
    and "\<not> has_prefix (hr_path r) ''/upstream/''"
  shows "\<exists>r2. replace_request_model cd m repl r = Inr r2 \<and> hr_context r2 = None \<and> fst (extract_model cd r2) = Inr repl"
proof -
  let ?q = "fst (cd_query cd (hr_query r))"
  let ?r2 = "invalidate_request_context (r\<lparr>hr_query := cd_query_encode cd (header_set ''model'' repl ?q)\<rparr>)"
  have "replace_request_model cd m repl r = Inr ?r2" using assms by (simp add: replace_request_model_def)
  moreover have "hr_context ?r2 = None" by (simp add: invalidate_request_context_def)
  moreover have "fst (extract_model cd ?r2) = Inr repl"
  proof -
    have m: "hr_method ?r2 = ''GET''" "hr_query ?r2 = cd_query_encode cd (header_set ''model'' repl ?q)"
      using assms(2) by (simp_all add: invalidate_request_context_def)
    have "form_get (fst (cd_query cd (hr_query ?r2))) ''model'' = repl"
      using assms(1) unfolding m(2) by (simp add: codec_laws_def) (simp add: form_get_def)
    then show ?thesis using m(1) by (simp add: extract_model_def extract_get new_context_def Let_def)
  qed
  ultimately show ?thesis by blast
qed

lemma replaced_body_simps:
  "hr_method (replace_request_body b r) = hr_method r" "content_type (replace_request_body b r) = content_type r"
  "read_body (replace_request_body b r) = Inr b" "hr_form (replace_request_body b r) = hr_form r"
  "hr_post_form (replace_request_body b r) = hr_post_form r" "hr_multipart (replace_request_body b r) = hr_multipart r"
  "hr_query (replace_request_body b r) = hr_query r" "hr_body (replace_request_body b r) = b"
  by (simp_all add: replace_request_body_def content_type_def set_body_def read_body_def)

lemma invalidated_simps [simp]:
  "hr_method (invalidate_request_context r) = hr_method r" "content_type (invalidate_request_context r) = content_type r"
  "read_body (invalidate_request_context r) = read_body r" "hr_form (invalidate_request_context r) = hr_form r"
  "hr_post_form (invalidate_request_context r) = hr_post_form r" "hr_multipart (invalidate_request_context r) = hr_multipart r"
  "hr_query (invalidate_request_context r) = hr_query r" "hr_body (invalidate_request_context r) = hr_body r"
  "hr_context (invalidate_request_context r) = None"
  by (simp_all add: invalidate_request_context_def content_type_def read_body_def split: option.split)

lemma extracted_model:
  "hr_method r \<noteq> ''GET'' \<Longrightarrow> read_body r = Inr b \<Longrightarrow> contains (content_type r) ''application/json'' \<Longrightarrow>
     fst (extract_model cd r) = Inr (cd_json_string cd b ''model'')"
  "hr_method r \<noteq> ''GET'' \<Longrightarrow> read_body r = Inr b \<Longrightarrow> \<not> contains (content_type r) ''application/json'' \<Longrightarrow>
     contains (content_type r) ''multipart/form-data'' \<Longrightarrow> fst (parse_multipart_form cd (set_body b r)) = False \<Longrightarrow>
     fst (extract_model cd r) = Inr (form_value (snd (parse_multipart_form cd (set_body b r))) ''model'')"
  "hr_method r \<noteq> ''GET'' \<Longrightarrow> read_body r = Inr b \<Longrightarrow> \<not> contains (content_type r) ''application/json'' \<Longrightarrow>
     \<not> contains (content_type r) ''multipart/form-data'' \<Longrightarrow> fst (parse_form cd (set_body b r)) = False \<Longrightarrow>
     fst (extract_model cd r) = Inr (form_value (snd (parse_form cd (set_body b r))) ''model'')"
  by (auto simp: extract_model_def extract_json extract_multi extract_form new_context_def split: prod.splits)

lemma replaced_json:
  assumes "codec_laws cd" and "hr_method r \<noteq> ''GET''" and "contains (content_type r) ''application/json''"
    and "read_body r = Inr b" and "replace_body_model cd repl r = Inr r2"
  shows "fst (extract_model cd (invalidate_request_context r2)) = Inr repl"
proof -
  obtain b' where b': "cd_json_set_model cd b repl = Some b'" "r2 = replace_request_body b' (set_body b r)"
    using assms by (auto simp: replace_body_model_def split: option.splits)
  then have "fst (extract_model cd (invalidate_request_context r2)) = Inr (cd_json_string cd b' ''model'')"
    using assms by (intro extracted_model(1)) (simp_all add: replaced_body_simps)
  with assms(1) b'(1) show ?thesis by (simp add: codec_laws_def)
qed

lemma replaced_multi:
  assumes laws: "codec_laws cd" and r: "hr_method r \<noteq> ''GET''" "\<not> contains (content_type r) ''application/json''"
      "contains (content_type r) ''multipart/form-data''"
    and form: "hr_form r = Some (copy_values (mp_values mp) q)" "hr_multipart r = Some mp"
    and q: "cd_query cd (hr_query r) = (q, False)"
    and mp: "distinct (map fst (mp_values mp))" "form_value r ''model'' = m" "m \<noteq> []"
    and r2: "replace_body_model cd repl r = Inr r2"
  shows "fst (extract_model cd (invalidate_request_context r2)) = Inr (if header_values q ''model'' = [] then repl else m)"
proof -
  obtain b ct where b: "cd_multipart_encode cd (replace_multipart_model repl mp) = Some (b, ct)"
    "r2 = replace_request_body b (r\<lparr>hr_multipart := None, hr_form := None, hr_post_form := None,
       hr_headers := header_set ''Content-Type'' ct (hr_headers r)\<rparr>)"
    using r2 r form by (auto simp: replace_body_model_def parse_multipart_cached split: option.splits)
  obtain mp' where mp': "contains ct ''multipart/form-data''" "\<not> contains ct ''application/json''" "cd_multipart cd ct b = Some mp'"
    "header_values (mp_values mp') ''model'' = header_values (mp_values (replace_multipart_model repl mp)) ''model''"
    using laws b(1) unfolding codec_laws_def by blast
  have d: "distinct (map fst (mp_values mp'))" "cd_form_body cd ct b = ([], False)"
    using laws mp'(3) unfolding codec_laws_def by blast+
  let ?r = "set_body b (invalidate_request_context r2)"
  have fresh: "hr_form ?r = None" "hr_post_form ?r = None" "hr_multipart ?r = None" "content_type ?r = ct" "hr_body ?r = b"
    "hr_query ?r = hr_query r"
    unfolding b(2) by (simp_all add: replaced_body_simps) (simp_all add: content_type_def)
  note p = fresh_multipart [OF fresh(1-3), of cd mp', unfolded fresh(4,5), OF mp'(3) d(2), unfolded fresh(6), unfolded q(1)]
  have "form_get (copy_values (mp_values mp) q) ''model'' = m" using mp(2) form by (simp add: form_value_def)
  then have m: "(case header_values q ''model'' @ header_values (mp_values mp) ''model'' of [] \<Rightarrow> [] | v # vs \<Rightarrow> v) = m"
    using mp by (simp only: form_get_def header_get_def header_values_copy_values)
  have v: "form_value (snd (parse_multipart_form cd ?r)) ''model'' =
      (case header_values q ''model'' @ map (\<lambda>v. repl) (header_values (mp_values mp) ''model'') of [] \<Rightarrow> [] | v # vs \<Rightarrow> v)"
    using p(2) by (simp add: form_value_def form_get_def header_get_def header_values_copy_values [OF d(1)] mp'(4) header_values_replaced)
  have "form_value (snd (parse_multipart_form cd ?r)) ''model'' = (if header_values q ''model'' = [] then repl else m)"
  proof (cases "header_values q ''model''")
    case Nil
    with m mp(3) have "header_values (mp_values mp) ''model'' \<noteq> []" by auto
    with v Nil show ?thesis by (cases "header_values (mp_values mp) ''model''") simp_all
  next
    case (Cons x xs)
    with m v show ?thesis by simp
  qed
  moreover have "fst (extract_model cd (invalidate_request_context r2)) =
      Inr (form_value (snd (parse_multipart_form cd ?r)) ''model'')"
    using r mp' p(1) fresh(4) unfolding b(2)
    by (intro extracted_model(2)) (simp_all add: replaced_body_simps)
  ultimately show ?thesis by simp
qed

lemma replaced_form:
  assumes "hr_method r \<noteq> ''GET''" and "\<not> contains (content_type r) ''application/json''"
    and "\<not> contains (content_type r) ''multipart/form-data''" and "hr_form r = Some f" and "hr_post_form r = Some pf"
    and "replace_body_model cd repl r = Inr r2"
  shows "fst (extract_model cd (invalidate_request_context r2)) = Inr (form_value r ''model'')"
proof -
  have r2: "r2 = replace_request_body (cd_query_encode cd (header_set ''model'' repl pf)) (r\<lparr>hr_post_form := Some (header_set ''model'' repl pf)\<rparr>)"
    using assms by (simp add: replace_body_model_def replace_form_model_def parse_form_cached Let_def)
  let ?b = "cd_query_encode cd (header_set ''model'' repl pf)"
  let ?r = "set_body ?b (invalidate_request_context r2)"
  have "parse_form cd ?r = (False, ?r)" using assms(4) unfolding r2 by (intro parse_form_cached) (simp_all add: replaced_body_simps)
  moreover have "form_value ?r ''model'' = form_value r ''model''" unfolding r2 by (simp add: form_value_def replaced_body_simps)
  moreover have "content_type r2 = content_type r" "hr_method r2 = hr_method r" "read_body r2 = Inr ?b"
    unfolding r2 by (simp_all add: replaced_body_simps) (simp_all add: content_type_def)
  ultimately show ?thesis using assms extracted_model(3) [of "invalidate_request_context r2" ?b cd] by simp
qed

lemma profile_pinned:
  assumes "\<not> has_prefix (hr_path r) ''/upstream/''" and "extract_model cd r = (Inr m, r0)" and "m \<noteq> []"
    and "map_of pins m = Some repl"
  shows "profile_middleware cd errmsg (Some pins) nxt r h =
    (case replace_request_model cd m repl r0 of Inl e \<Rightarrow> send_response r0 h 400 (errmsg e) | Inr r2 \<Rightarrow> nxt r2 h)"
  using assms by (simp add: profile_middleware_def)

text \<open>
  C32. A pin of the active profile rewrites the model a request is routed by: behind the middleware, unless the
  rewrite fails and is answered with 400, any later extraction reads the pin's target, and the context is
  read anew. Two kinds of requests escape: one with a URL-encoded form (or a body of another type), whose parsed form stays cached in the
  request while only its body is rewritten, and a multipart form whose model is given in the query; both keep
  the pinned model.
\<close>
theorem pins_rewrite_model:
  assumes "codec_laws cd" and "hr_form r = None" and "hr_post_form r = None" and "hr_multipart r = None"
    and "\<not> has_prefix (hr_path r) ''/upstream/''" and "extract_model cd r = (Inr m, r0)" and "m \<noteq> []"
    and "map_of pins m = Some repl"
  shows "(\<exists>e. profile_middleware cd errmsg (Some pins) nxt r h = send_response r0 h 400 (errmsg e)) \<or>
    (\<exists>r2. profile_middleware cd errmsg (Some pins) nxt r h = nxt r2 h \<and> hr_context r2 = None \<and>
      fst (extract_model cd r2) =
        Inr (if hr_method r \<noteq> ''GET'' \<and> \<not> contains (content_type r) ''application/json'' \<and>
                (contains (content_type r) ''multipart/form-data'' \<longrightarrow>
                   header_values (fst (cd_query cd (hr_query r))) ''model'' \<noteq> [])
             then m else repl))"
proof -
  obtain d where d: "extract_context cd r = (Inr d, r0)" "m = rx_model d" using assms(6) by (auto simp: extract_model_Inr)
  note k = extract_context_keeps [OF d(1)]
  have again: "extract_model cd r0 = (Inr m, r0)" using extract_again [OF d(1)] d(2) by (simp add: extract_model_Inr)
  have ct: "content_type r0 = content_type r" using k by (simp add: content_type_def)
  note pinned = profile_pinned [OF assms(5-8), of errmsg nxt h]
  have repl: "replace_request_model cd m repl r0 =
      bindE (replace_body_model cd repl r0) (\<lambda>r2. Inr (invalidate_request_context r2))" if "hr_method r \<noteq> ''GET''"
    using that assms(5) again k by (simp add: replace_request_model_def)
  have body: ?thesis
    if "hr_method r \<noteq> ''GET''"
      and res: "\<And>r2. replace_body_model cd repl r0 = Inr r2 \<Longrightarrow> fst (extract_model cd (invalidate_request_context r2)) =
        Inr (if \<not> contains (content_type r) ''application/json'' \<and>
                (contains (content_type r) ''multipart/form-data'' \<longrightarrow>
                   header_values (fst (cd_query cd (hr_query r))) ''model'' \<noteq> []) then m else repl)"
  proof (cases "replace_body_model cd repl r0")
    case (Inl e)
    with pinned repl that(1) show ?thesis by auto
  next
    case (Inr r2)
    with pinned repl that(1) have "profile_middleware cd errmsg (Some pins) nxt r h = nxt (invalidate_request_context r2) h" by simp
    with res [OF Inr] that(1) show ?thesis by (intro disjI2 exI [of _ "invalidate_request_context r2"]) simp
  qed
  show ?thesis
  proof (cases r rule: request_kind)
    case get
    then have "r0 = r" using d by (simp add: extract_get Let_def)
    with replaced_get [OF assms(1) get, of m repl] again assms(5) pinned get show ?thesis by auto
  next
    case (failed e)
    with d show ?thesis by (simp add: extract_failed)
  next
    case (json b)
    then have r0: "r0 = set_body b r" using d by (simp add: extract_json)
    show ?thesis
    proof (rule body)
      fix r2 assume "replace_body_model cd repl r0 = Inr r2"
      from replaced_json [OF assms(1) _ _ _ this, of b] json k ct r0
      show "fst (extract_model cd (invalidate_request_context r2)) =
        Inr (if \<not> contains (content_type r) ''application/json'' \<and>
                (contains (content_type r) ''multipart/form-data'' \<longrightarrow>
                   header_values (fst (cd_query cd (hr_query r))) ''model'' \<noteq> []) then m else repl)" by simp
    qed (use json in simp)
  next
    case (multi b)
    let ?r = "set_body b r"
    obtain bad r1 where p1: "parse_multipart_form cd ?r = (bad, r1)" by fastforce
    then have p: "r1 = r0" "\<not> bad" "m = form_value r0 ''model''"
      using d unfolding extract_multi [OF multi] by (auto simp: new_context_def split: if_splits)
    note p = p1 [unfolded p(1)] p(2,3)
    have fresh: "hr_form ?r = None" "hr_post_form ?r = None" "hr_multipart ?r = None" using assms by simp_all
    obtain mp where mp: "cd_multipart cd (content_type ?r) (hr_body ?r) = Some mp"
    proof (cases "cd_multipart cd (content_type ?r) (hr_body ?r)")
      case None
      obtain b1 r1 where f1: "parse_form cd ?r = (b1, r1)" by fastforce
      note k1 = parse_form_keeps [OF f1]
      have "hr_multipart r1 = None" using k1(9) fresh(3) by simp
      moreover have "cd_multipart cd (header_get (hr_headers r1) ''Content-Type'') (hr_body r1) = None"
        using None k1(4,7) by (simp add: content_type_def)
      ultimately have "parse_multipart_form cd ?r = (True, r1)"
        using fresh(1) f1 by (simp add: parse_multipart_form_def)
      with p(1,2) show ?thesis by simp
    qed (use that in blast)
    then have l: "distinct (map fst (mp_values mp))" "cd_form_body cd (content_type ?r) (hr_body ?r) = ([], False)"
      using assms(1) unfolding codec_laws_def by blast+
    note f = fresh_multipart [OF fresh mp l(2)]
    have q: "cd_query cd (hr_query r0) = (fst (cd_query cd (hr_query r)), False)"
      using f(1) p k by (simp add: prod_eq_iff)
    show ?thesis
    proof (rule body)
      fix r2 assume "replace_body_model cd repl r0 = Inr r2"
      from replaced_multi [OF assms(1) _ _ _ _ _ q l(1) p(3) [symmetric] assms(7) this] multi k ct f p
      show "fst (extract_model cd (invalidate_request_context r2)) =
        Inr (if \<not> contains (content_type r) ''application/json'' \<and>
                (contains (content_type r) ''multipart/form-data'' \<longrightarrow>
                   header_values (fst (cd_query cd (hr_query r))) ''model'' \<noteq> []) then m else repl)" by simp
    qed (use multi in simp)
  next
    case (form b)
    let ?r = "set_body b r"
    obtain bad r1 where p1: "parse_form cd ?r = (bad, r1)" by fastforce
    then have p: "r1 = r0" "m = form_value r0 ''model''"
      using d unfolding extract_form [OF form] by (auto simp: new_context_def split: if_splits)
    note p = p1 [unfolded p(1)] p(2)
    obtain f pf where c: "hr_form r0 = Some f" "hr_post_form r0 = Some pf" using parse_form_keeps(1,2) [OF p(1)] by blast
    show ?thesis
    proof (rule body)
      fix r2 assume "replace_body_model cd repl r0 = Inr r2"
      from replaced_form [OF _ _ _ c this] form k ct p(2)
      show "fst (extract_model cd (invalidate_request_context r2)) =
        Inr (if \<not> contains (content_type r) ''application/json'' \<and>
                (contains (content_type r) ''multipart/form-data'' \<longrightarrow>
                   header_values (fst (cd_query cd (hr_query r))) ''model'' \<noteq> []) then m else repl)" by simp
    qed (use form in simp)
  qed
qed

definition demo_codec :: codec where
  "demo_codec =
     \<lparr>cd_query = (\<lambda>s. ([(''model'', [s])], False)), cd_query_encode = (\<lambda>vs. form_get vs ''model''),
      cd_form_body = (\<lambda>ct b. if contains ct ''multipart/form-data'' then ([], False) else ([(''model'', [b])], False)),
      cd_multipart = (\<lambda>ct b. if contains ct ''multipart/form-data''
         then Some \<lparr>mp_values = [(''model'', [b])], mp_files = []\<rparr> else None),
      cd_multipart_encode = (\<lambda>mp. if length (header_values (mp_values mp) ''model'') = 1
         then Some (form_get (mp_values mp) ''model'', ''multipart/form-data'') else None),
      cd_json_valid = (\<lambda>b. True), cd_json_string = (\<lambda>b k. b), cd_json_bool = (\<lambda>b k. False),
      cd_json_set_model = (\<lambda>b s. Some s), cd_base64 = (\<lambda>s. Some s)\<rparr>"

lemma demo_codec_laws: "codec_laws demo_codec"
proof -
  have "header_values [(''model'', [v])] ''model'' = [v]" for v by (simp add: header_values_def)
  moreover have "length vs = 1 \<Longrightarrow> [case vs of [] \<Rightarrow> [] | v # us \<Rightarrow> v] = vs" for vs :: "string list"
    by (cases vs) auto
  moreover have "contains ''multipart/form-data'' ''multipart/form-data''" "\<not> contains ''multipart/form-data'' ''application/json''"
    by code_simp+
  ultimately show ?thesis
    unfolding codec_laws_def demo_codec_def by (auto simp: form_get_def header_get_def)
qed

definition demo_request :: "string \<Rightarrow> string \<Rightarrow> http_request" where
  "demo_request ct body =
     \<lparr>hr_method = ''POST'', hr_path = ''/v1/chat/completions'', hr_upstream = [], hr_query = [],
      hr_headers = [(''Content-Type'', [ct])], hr_length = int (length body), hr_body = body, hr_cap = None, hr_broken = False,
      hr_form = None, hr_post_form = None, hr_multipart = None, hr_context = None\<rparr>"

theorem pins_rewrite_model_witness:
  "\<exists>r2 :: http_request. profile_middleware demo_codec (\<lambda>e. []) (Some [(''fast'', ''small'')]) (\<lambda>r h. Reply 200 h (OtherBody (hr_body r)))
      (demo_request ''application/json'' ''fast'') [] = Reply 200 [] (OtherBody (hr_body r2)) \<and>
    fst (extract_model demo_codec r2) = Inr ''small''"
proof -
  let ?r = "demo_request ''application/json'' ''fast''" and ?nxt = "\<lambda>r h. Reply 200 h (OtherBody (hr_body r))"
  have e: "extract_model demo_codec ?r = (Inr ''fast'', ?r)" by code_simp
  have c: "contains (content_type ?r) ''application/json''" "\<not> has_prefix (hr_path ?r) ''/upstream/''" by code_simp+
  have f: "hr_form ?r = None" "hr_post_form ?r = None" "hr_multipart ?r = None" by (simp_all add: demo_request_def)
  have "reply_status (profile_middleware demo_codec (\<lambda>e. []) (Some [(''fast'', ''small'')]) ?nxt ?r []) = 200" by code_simp
  with pins_rewrite_model [OF demo_codec_laws f c(2) e, of "[(''fast'', ''small'')]" "''small''" "\<lambda>e. []" ?nxt "[]"] c(1)
  show ?thesis by auto
qed

end
