(* ===== verification/Cors.thy ===== *)
theory Cors
  imports Http
begin

text \<open>
  Cross-origin requests: the CORS settings and their validation (\<open>internal/config/security.go\<close>), the
  middleware that answers preflights and writes the \<open>Access-Control-*\<close> headers (\<open>internal/server/cors.go\<close>),
  and the removal of the headers an upstream set or must not see (\<open>internal/swaputil/cors.go\<close>).

  The parser of URLs, whose strictness
  depends on the release of Go, is the argument \<open>parse\<close> of the validation.
\<close>

section \<open>Settings\<close>

definition cors_wildcard :: string where
  "cors_wildcard = ''*''"

definition default_max_age :: int where
  "default_max_age = 86400"

definition default_cors_methods :: "string list" where
  "default_cors_methods = [''GET'', ''POST'', ''PUT'', ''PATCH'', ''DELETE'', ''OPTIONS'']"

definition default_cors_headers :: "string list" where
  "default_cors_headers = [''Content-Type'', ''Authorization'', ''Accept'', ''X-Requested-With'']"

text \<open>The origins are \<open>None\<close> when the key is absent (a nil slice).\<close>

record cors_config =
  co_origins :: "string list option"
  co_credentials :: bool
  co_private :: bool
  co_methods :: "string list"
  co_headers :: "string list"
  co_exposed :: "string list"
  co_max_age :: int

record url =
  ur_scheme :: string
  ur_host :: string
  ur_path :: string
  ur_query :: string
  ur_fragment :: string
  ur_user :: bool

datatype cors_error =
    OriginsEmpty
  | OriginsRequired
  | WildcardCredentials
  | WildcardPrivateNetwork
  | OriginBlank
  | OriginSpaces string
  | OriginUnparsable string
  | OriginNoHost string
  | OriginNotBare string
  | BadMethod string
  | BadHeader string
  | BadExposed string
  | BadMaxAge

definition is_token_char :: "char \<Rightarrow> bool" where
  "is_token_char c = (let n = code_of c in
     (97 \<le> n \<and> n \<le> 122) \<or> (65 \<le> n \<and> n \<le> 90) \<or> (48 \<le> n \<and> n \<le> 57) \<or> n \<in> {33, 35, 36, 37, 38, 39, 42, 43, 45, 46, 94, 95, 96, 124, 126})"

definition is_http_token :: "string \<Rightarrow> bool" where
  "is_http_token s = (if s = [] then False else list_all is_token_char s)"

definition has_non_origin_settings :: "cors_config \<Rightarrow> bool" where
  "has_non_origin_settings c =
     (co_credentials c \<or> co_private c \<or> 0 < length (co_methods c) \<or> 0 < length (co_headers c) \<or>
      0 < length (co_exposed c) \<or> co_max_age c \<noteq> 0)"

definition validate_cors_origin :: "(string \<Rightarrow> url option) \<Rightarrow> string \<Rightarrow> cors_error + unit" where
  "validate_cors_origin parse origin =
     (if origin = [] then Inl OriginBlank
      else if origin \<noteq> trim_space origin then Inl (OriginSpaces origin)
      else case parse origin of
        None \<Rightarrow> Inl (OriginUnparsable origin)
      | Some u \<Rightarrow>
          if ur_scheme u = [] \<or> ur_host u = [] then Inl (OriginNoHost origin)
          else if ur_path u \<noteq> [] \<or> ur_query u \<noteq> [] \<or> ur_fragment u \<noteq> [] \<or> ur_user u then Inl (OriginNotBare origin)
          else Inr ())"

definition check_origin :: "(string \<Rightarrow> url option) \<Rightarrow> cors_config \<Rightarrow> string \<Rightarrow> unit \<Rightarrow> cors_error + unit" where
  "check_origin parse c origin u =
     (if origin = cors_wildcard then
        (if co_credentials c then Inl WildcardCredentials
         else if co_private c then Inl WildcardPrivateNetwork
         else Inr u)
      else validate_cors_origin parse origin)"

definition check_token :: "(string \<Rightarrow> cors_error) \<Rightarrow> string \<Rightarrow> unit \<Rightarrow> cors_error + unit" where
  "check_token e s u = (if \<not> is_http_token s then Inl (e s) else Inr u)"

definition validate_cors :: "(string \<Rightarrow> url option) \<Rightarrow> cors_config \<Rightarrow> cors_error + unit" where
  "validate_cors parse c =
     (case co_origins c of
        None \<Rightarrow> if \<not> has_non_origin_settings c then Inr () else Inl OriginsRequired
      | Some [] \<Rightarrow> Inl OriginsEmpty
      | Some origins \<Rightarrow>
          bindE (foldE (check_origin parse c) origins ()) (\<lambda>_.
          bindE (foldE (check_token BadMethod) (co_methods c) ()) (\<lambda>_.
          bindE (foldE (check_token BadHeader) (co_headers c) ()) (\<lambda>_.
          bindE (foldE (check_token BadExposed) (co_exposed c) ()) (\<lambda>_.
            if co_max_age c < 0 then Inl BadMaxAge else Inr ())))))"

section \<open>The policy and the middleware\<close>

record cors_policy =
  cp_any :: bool
  cp_origins :: "string list"
  cp_credentials :: bool
  cp_private :: bool
  cp_methods :: string
  cp_headers :: "string list"
  cp_exposed :: string
  cp_max_age :: string

definition effective_origins :: "cors_config \<Rightarrow> string list" where
  "effective_origins c =
     (case co_origins c of None \<Rightarrow> [cors_wildcard] | Some os \<Rightarrow> if os = [] then [cors_wildcard] else os)"

definition new_cors_policy :: "cors_config \<Rightarrow> cors_policy" where
  "new_cors_policy c =
     (let origins = effective_origins c; any = list_ex (\<lambda>o'. o' = cors_wildcard) origins in
      \<lparr>cp_any = any,
       cp_origins = map to_lower (filter (\<lambda>o'. o' \<noteq> cors_wildcard) origins),
       cp_credentials = co_credentials c,
       cp_private = co_private c \<and> \<not> any,
       cp_methods = join_comma (if co_methods c = [] then default_cors_methods else co_methods c),
       cp_headers = co_headers c,
       cp_exposed = join_comma (co_exposed c),
       cp_max_age = itoa (if co_max_age c = 0 then default_max_age else co_max_age c)\<rparr>)"

definition resolve_origin :: "cors_policy \<Rightarrow> string \<Rightarrow> string option" where
  "resolve_origin p origin =
     (if origin = [] then None
      else if cp_any p then Some cors_wildcard
      else if to_lower origin \<in> set (cp_origins p) then Some origin
      else None)"

definition add_vary :: "string \<Rightarrow> headers \<Rightarrow> headers" where
  "add_vary token h =
     (let existing = header_get h ''Vary'' in
      if existing \<noteq> [] then header_set ''Vary'' (existing @ '', '' @ token) h else header_set ''Vary'' token h)"

definition write_shared_headers :: "cors_policy \<Rightarrow> string \<Rightarrow> headers \<Rightarrow> headers" where
  "write_shared_headers p allow_origin h =
     (let h1 = add_vary ''Origin'' (header_set ''Access-Control-Allow-Origin'' allow_origin h);
          h2 = (if cp_credentials p then header_set ''Access-Control-Allow-Credentials'' ''true'' h1 else h1)
      in if cp_exposed p \<noteq> [] then header_set ''Access-Control-Expose-Headers'' (cp_exposed p) h2 else h2)"

definition sanitize_request_headers :: "string \<Rightarrow> string" where
  "sanitize_request_headers s = join_comma (filter is_http_token (map trim_space (split_at (CHR '','') s)))"

definition write_preflight_headers :: "cors_policy \<Rightarrow> http_request \<Rightarrow> headers \<Rightarrow> headers" where
  "write_preflight_headers p r h =
     (let h1 = header_set ''Access-Control-Allow-Methods'' (cp_methods p) h;
          sanitized = sanitize_request_headers (header_get (hr_headers r) ''Access-Control-Request-Headers'');
          h2 = (if cp_headers p \<noteq> [] then header_set ''Access-Control-Allow-Headers'' (join_comma (cp_headers p)) h1
                else if sanitized \<noteq> [] then
                  add_vary ''Access-Control-Request-Headers'' (header_set ''Access-Control-Allow-Headers'' sanitized h1)
                else header_set ''Access-Control-Allow-Headers'' (join_comma default_cors_headers) h1);
          h3 = header_set ''Access-Control-Max-Age'' (cp_max_age p) h2
      in if cp_private p \<and> header_get (hr_headers r) ''Access-Control-Request-Private-Network'' = ''true''
         then add_vary ''Access-Control-Request-Private-Network''
                (header_set ''Access-Control-Allow-Private-Network'' ''true'' h3)
         else h3)"

definition cors_middleware :: "cors_config \<Rightarrow> middleware" where
  "cors_middleware c nxt r h =
     (let p = new_cors_policy c; allow = resolve_origin p (header_get (hr_headers r) ''Origin'') in
      if hr_method r \<noteq> ''OPTIONS'' then
        nxt r (case allow of Some a \<Rightarrow> write_shared_headers p a h | None \<Rightarrow> h)
      else
        Reply 204 (case allow of Some a \<Rightarrow> write_preflight_headers p r (write_shared_headers p a h) | None \<Rightarrow> h) NoBody)"

section \<open>Headers of and for upstreams\<close>

definition cors_response_headers :: "string list" where
  "cors_response_headers =
     [''Access-Control-Allow-Origin'', ''Access-Control-Allow-Methods'', ''Access-Control-Allow-Headers'',
      ''Access-Control-Allow-Credentials'', ''Access-Control-Expose-Headers'', ''Access-Control-Max-Age'',
      ''Access-Control-Allow-Private-Network'']"

definition browser_request_headers :: "string list" where
  "browser_request_headers =
     [''Origin'', ''Referer'', ''Access-Control-Request-Method'', ''Access-Control-Request-Headers'',
      ''Access-Control-Request-Private-Network'']"

definition strip_upstream_cors_headers :: "headers \<Rightarrow> headers" where
  "strip_upstream_cors_headers h = foldl (\<lambda>h k. AList.delete k h) h cors_response_headers"

definition strip_browser_request_headers :: "headers \<Rightarrow> headers" where
  "strip_browser_request_headers h =
     filter (\<lambda>(k, vs). \<not> has_prefix k ''Sec-Fetch-'') (foldl (\<lambda>h k. AList.delete k h) h browser_request_headers)"

text \<open>
  What \<open>httputil.ReverseProxy\<close> does with an upstream's response: after \<open>ModifyResponse\<close> every
  header line is added to what the response already has.
\<close>

definition copy_header :: "headers \<Rightarrow> headers \<Rightarrow> headers" where
  "copy_header src h = foldl (\<lambda>h (k, vs). foldl (\<lambda>h v. header_add k v h) h vs) h src"

definition proxied_reply :: "nat \<Rightarrow> headers \<Rightarrow> string \<Rightarrow> handler" where
  "proxied_reply status upstream content r h =
     Reply status (copy_header (strip_upstream_cors_headers upstream) h) (OtherBody content)"

section \<open>Facts\<close>

lemma header_values_vary [simp]:
  "j \<noteq> ''Vary'' \<Longrightarrow> header_values (add_vary t h) j = header_values h j"
  by (simp add: add_vary_def Let_def)

lemma header_values_copy:
  "header_values (copy_header src h) k = header_values h k @ concat (map snd (filter (\<lambda>(j, vs). j = k) src))"
proof (induction src arbitrary: h)
  case (Cons x src)
  obtain j vs where x: "x = (j, vs)" by (cases x)
  have "header_values (foldl (\<lambda>h v. header_add j v h) h vs) k = (if j = k then header_values h k @ vs else header_values h k)"
    by (induction vs arbitrary: h) auto
  with Cons.IH [of "foldl (\<lambda>h v. header_add j v h) h vs"] show ?case by (simp add: x copy_header_def)
qed (simp add: copy_header_def)

lemma set_delete_all: "set (foldl (\<lambda>h k. AList.delete k h) h ks) = {p \<in> set h. fst p \<notin> set ks}"
  by (induction ks arbitrary: h) (auto simp: set_delete)

lemma stripped_no_cors:
  "k \<in> set cors_response_headers \<Longrightarrow> filter (\<lambda>(j, vs). j = k) (strip_upstream_cors_headers up) = []"
  by (auto simp: filter_empty_conv strip_upstream_cors_headers_def set_delete_all)

lemma proxied_keeps_cors:
  "k \<in> set cors_response_headers \<Longrightarrow> header_values (reply_headers (proxied_reply st up b r h)) k = header_values h k"
  by (simp add: proxied_reply_def header_values_copy stripped_no_cors)

lemma cors_unit_all: "foldE f xs () = Inr () \<longleftrightarrow> (\<forall>x\<in>set xs. f x () = Inr ())"
  by (induction xs) (auto simp: bindE_simps)

lemma validated_wildcard:
  assumes "validate_cors parse c = Inr ()" and "cors_wildcard \<in> set (effective_origins c)"
  shows "\<not> co_credentials c \<and> \<not> co_private c"
proof (cases "co_origins c")
  case None
  with assms(1) show ?thesis by (auto simp: validate_cors_def has_non_origin_settings_def split: if_splits)
next
  case (Some os)
  with assms have "os \<noteq> []" by (auto simp: validate_cors_def)
  with Some assms have "check_origin parse c cors_wildcard () = Inr ()"
    by (cases os) (auto simp: validate_cors_def effective_origins_def bindE_simps cors_unit_all)
  then show ?thesis by (auto simp: check_origin_def split: if_splits)
qed

lemma policy_any: "cp_any (new_cors_policy c) \<longleftrightarrow> cors_wildcard \<in> set (effective_origins c)"
  by (auto simp: new_cors_policy_def Let_def list_ex_iff)

lemma policy_origins:
  "set (cp_origins (new_cors_policy c)) = to_lower ` {x \<in> set (effective_origins c). x \<noteq> cors_wildcard}"
  by (auto simp: new_cors_policy_def Let_def)

lemma policy_credentials: "cp_credentials (new_cors_policy c) = co_credentials c"
  "cp_private (new_cors_policy c) \<longleftrightarrow> co_private c \<and> \<not> cp_any (new_cors_policy c)"
  by (simp_all add: new_cors_policy_def Let_def)

text \<open>The origin a request is granted: nothing, the wildcard, or the request's own origin if it is listed.\<close>

definition granted_origin :: "cors_config \<Rightarrow> http_request \<Rightarrow> string list" where
  "granted_origin c r =
     (let origin = header_get (hr_headers r) ''Origin'' in
      if origin = [] then []
      else if cors_wildcard \<in> set (effective_origins c) then [cors_wildcard]
      else if \<exists>x \<in> set (effective_origins c). equal_fold x origin then [origin]
      else [])"

lemma resolve_granted:
  "granted_origin c r =
    (case resolve_origin (new_cors_policy c) (header_get (hr_headers r) ''Origin'') of None \<Rightarrow> [] | Some a \<Rightarrow> [a])"
proof -
  have "(\<exists>x \<in> set (effective_origins c). equal_fold x o') \<longleftrightarrow> to_lower o' \<in> set (cp_origins (new_cors_policy c))"
    if "cors_wildcard \<notin> set (effective_origins c)" for o'
  proof -
    have "{x \<in> set (effective_origins c). x \<noteq> cors_wildcard} = set (effective_origins c)" using that by blast
    then show ?thesis unfolding policy_origins equal_fold_def by (simp only: image_iff) metis
  qed
  then show ?thesis by (simp add: granted_origin_def Let_def resolve_origin_def policy_any)
qed

lemma lower_wildcard: "equal_fold x cors_wildcard \<longleftrightarrow> x = cors_wildcard"
proof -
  have "lower_char c = CHR ''*'' \<longleftrightarrow> c = CHR ''*''" for c
  proof
    assume l: "lower_char c = CHR ''*''"
    show "c = CHR ''*''"
    proof (rule ccontr)
      assume "c \<noteq> CHR ''*''"
      with l have n: "65 \<le> code_of c \<and> code_of c \<le> 90 \<or> 192 \<le> code_of c \<and> code_of c \<le> 222 \<and> code_of c \<noteq> 215"
        "char_of (code_of c + 32) = CHR ''*''"
        by (simp_all only: lower_char_def Let_def split: if_splits)
      then have "code_of c + 32 \<le> 254" "65 \<le> code_of c" by linarith+
      have "code_of (char_of (code_of c + 32)) = code_of c + 32" using \<open>code_of c + 32 \<le> 254\<close> by (simp add: code_of_def)
      with \<open>65 \<le> code_of c\<close> show False unfolding n(2) by (simp add: code_of_def)
    qed
  qed (simp add: lower_char_def code_of_def)
  note l = this
  then have "lower_char (CHR ''*'') = CHR ''*''" by blast
  then have "to_lower ''*'' = ''*''" by (simp only: to_lower_def list.map)
  moreover have "List.map lower_char x = ''*'' \<longleftrightarrow> x = ''*''"
  proof (cases x)
    case (Cons c cs)
    then show ?thesis by (simp only: list.map list.inject l map_is_Nil_conv)
  qed (simp only: list.map)
  ultimately show ?thesis by (simp only: equal_fold_def to_lower_def cors_wildcard_def)
qed

lemma shared_values:
  "header_values (write_shared_headers p a h) ''Access-Control-Allow-Origin'' = [a]"
  "header_values (write_shared_headers p a h) ''Access-Control-Allow-Credentials'' =
     (if cp_credentials p then [''true''] else header_values h ''Access-Control-Allow-Credentials'')"
  "header_values (write_shared_headers p a h) ''Access-Control-Allow-Private-Network'' =
     header_values h ''Access-Control-Allow-Private-Network''"
  by (simp_all add: write_shared_headers_def Let_def)

lemma preflight_values:
  "header_values (write_preflight_headers p r h) ''Access-Control-Allow-Origin'' = header_values h ''Access-Control-Allow-Origin''"
  "header_values (write_preflight_headers p r h) ''Access-Control-Allow-Credentials'' =
     header_values h ''Access-Control-Allow-Credentials''"
  "header_values (write_preflight_headers p r h) ''Access-Control-Allow-Private-Network'' =
     (if cp_private p \<and> header_get (hr_headers r) ''Access-Control-Request-Private-Network'' = ''true'' then [''true'']
      else header_values h ''Access-Control-Allow-Private-Network'')"
  by (simp_all add: write_preflight_headers_def Let_def)

text \<open>
  C31. Only a listed origin is let in, whatever the upstream answers. With validated settings the response to a
  proxied request or a preflight has at most one \<open>Access-Control-Allow-Origin\<close> line: none without an
  \<open>Origin\<close>, the wildcard if it is configured (or nothing is), and otherwise the request's own origin exactly if
  it is listed up to case. Credentials and access to a private network are granted only to a listed
  origin and never with the wildcard, and a preflight never reaches the next handler.
\<close>
theorem cors_lets_in_listed:
  assumes "validate_cors parse c = Inr ()"
  shows "let H = reply_headers (cors_middleware c (proxied_reply status upstream content) r []) in
    header_values H ''Access-Control-Allow-Origin'' = granted_origin c r \<and>
    header_values H ''Access-Control-Allow-Credentials'' =
      (if co_credentials c \<and> granted_origin c r \<noteq> [] then [''true''] else []) \<and>
    (header_values H ''Access-Control-Allow-Credentials'' \<noteq> [] \<or>
      header_values H ''Access-Control-Allow-Private-Network'' \<noteq> [] \<longrightarrow>
        cors_wildcard \<notin> set (granted_origin c r) \<and> granted_origin c r \<noteq> []) \<and>
    (hr_method r = ''OPTIONS'' \<longrightarrow> (\<forall>nxt. cors_middleware c nxt r [] = Reply 204 H NoBody))"
proof -
  let ?p = "new_cors_policy c" and ?o = "header_get (hr_headers r) ''Origin''"
  let ?H = "reply_headers (cors_middleware c (proxied_reply status upstream content) r [])"
  have keep: "header_values (reply_headers (proxied_reply status upstream content r h)) k = header_values h k"
    if "k \<in> {''Access-Control-Allow-Origin'', ''Access-Control-Allow-Credentials'', ''Access-Control-Allow-Private-Network''}" for k h
    using that by (intro proxied_keeps_cors) (auto simp: cors_response_headers_def)
  have none: "header_values [] k = []" for k by (simp add: header_values_def)
  have wild: "cors_wildcard \<notin> set (granted_origin c r)" if "co_credentials c \<or> co_private c"
  proof
    assume w: "cors_wildcard \<in> set (granted_origin c r)"
    then have "cors_wildcard \<in> set (effective_origins c)"
      by (auto simp: granted_origin_def Let_def split: if_splits) (metis lower_wildcard)
    with validated_wildcard [OF assms] that show False by blast
  qed
  show ?thesis
  proof (cases "resolve_origin ?p ?o")
    case None
    then have g: "granted_origin c r = []" by (simp add: resolve_granted)
    have "header_values ?H k = []"
      if "k \<in> {''Access-Control-Allow-Origin'', ''Access-Control-Allow-Credentials'', ''Access-Control-Allow-Private-Network''}" for k
      using None keep [OF that] none by (simp add: cors_middleware_def Let_def)
    with g show ?thesis by (simp add: Let_def cors_middleware_def)
  next
    case (Some a)
    then have g: "granted_origin c r = [a]" by (simp add: resolve_granted)
    have vals: "header_values ?H ''Access-Control-Allow-Origin'' = [a]"
      "header_values ?H ''Access-Control-Allow-Credentials'' = (if co_credentials c then [''true''] else [])"
      using Some by (simp_all add: cors_middleware_def Let_def keep none shared_values preflight_values policy_credentials)
    have priv: "header_values ?H ''Access-Control-Allow-Private-Network'' \<noteq> [] \<Longrightarrow> co_private c"
      using Some by (simp add: cors_middleware_def Let_def keep none shared_values preflight_values policy_credentials split: if_splits)
    have "co_credentials c \<or> co_private c \<Longrightarrow> a \<noteq> cors_wildcard" using wild g by auto
    with vals priv g Some show ?thesis by (auto simp: Let_def cors_middleware_def)
  qed
qed

definition demo_cors :: cors_config where
  "demo_cors = \<lparr>co_origins = Some [''http://a''], co_credentials = True, co_private = True, co_methods = [], co_headers = [],
     co_exposed = [''X-Id''], co_max_age = 0\<rparr>"

definition demo_cors_request :: http_request where
  "demo_cors_request =
     \<lparr>hr_method = ''GET'', hr_path = ''/v1/models'', hr_upstream = [], hr_query = [], hr_headers = [(''Origin'', [''http://A''])],
      hr_length = 0, hr_body = [], hr_cap = None, hr_broken = False, hr_form = None, hr_post_form = None,
      hr_multipart = None, hr_context = None\<rparr>"

theorem cors_lets_in_listed_witness:
  "header_values (reply_headers (cors_middleware demo_cors
      (proxied_reply 200 [(''Access-Control-Allow-Origin'', [''*''])] []) demo_cors_request [])) ''Access-Control-Allow-Origin'' = [''http://A'']"
proof -
  let ?parse = "\<lambda>s. Some \<lparr>ur_scheme = ''http'', ur_host = drop 7 s, ur_path = [], ur_query = [], ur_fragment = [], ur_user = False\<rparr>"
  have "validate_cors ?parse demo_cors = Inr ()" by code_simp
  moreover have "granted_origin demo_cors demo_cors_request = [''http://A'']" by code_simp
  ultimately show ?thesis
    using cors_lets_in_listed [of ?parse demo_cors 200 "[(''Access-Control-Allow-Origin'', [''*''])]" "[]" demo_cors_request]
    by (simp add: Let_def)
qed

end
