(* ===== verification/Access.thy ===== *)
theory Access
  imports RequestModel Cors
begin

text \<open>
  Who may ask for what: the API key middleware and the request context (\<open>internal/server/auth.go\<close>), the cap and the
  content type of request bodies (\<open>contenttype.go\<close>), the limit of requests at once (\<open>concurrency.go\<close>), and
  the surface a Tailcat client is given (\<open>ServeTailcatHTTP\<close> in \<open>server.go\<close>).
\<close>

section \<open>API keys\<close>

definition auth_middleware :: "codec \<Rightarrow> string list \<Rightarrow> middleware" where
  "auth_middleware cd keys nxt =
     (if keys = [] then nxt
      else (\<lambda>r h.
        if list_ex (\<lambda>key. extract_api_key cd r = key) keys then nxt r h
        else send_response r (header_set ''Www-Authenticate'' ''Basic realm=\"llama-swap\"'' h) 401
               ''unauthorized: invalid or missing API key''))"

section \<open>Bodies\<close>

definition model_post_json_routes :: "string list" where
  "model_post_json_routes =
     [''/v1/chat/completions'', ''/v1/responses'', ''/v1/completions'', ''/v1/messages'', ''/v1/messages/count_tokens'',
      ''/v1/embeddings'', ''/reranking'', ''/rerank'', ''/v1/rerank'', ''/v1/reranking'', ''/infill'', ''/completion'',
      ''/v1/audio/speech'', ''/v1/audio/voices'', ''/v1/images/generations'', ''/sdapi/v1/txt2img'', ''/sdapi/v1/img2img'',
      ''/v1/systemone'', ''/audioapi/v1/tasks/run'', ''/v/chat/completions'', ''/v/responses'', ''/v/completions'', ''/v/messages'',
      ''/v/messages/count_tokens'', ''/v/embeddings'', ''/v/rerank'', ''/v/reranking'']"

definition model_post_form_routes :: "string list" where
  "model_post_form_routes = [''/v1/audio/transcriptions'', ''/v1/images/edits'']"

definition model_get_routes :: "string list" where
  "model_get_routes = [''/v1/audio/voices'', ''/sdapi/v1/loras'', ''/props'']"

datatype body_kind = BodyJson | BodyMultipart

definition body_kind_for_path :: "string \<Rightarrow> body_kind" where
  "body_kind_for_path path = (if path \<in> set model_post_form_routes then BodyMultipart else BodyJson)"

datatype request_error =
    BodyTooLarge int
  | BodyUnreadable
  | BodyEmpty
  | BodyNotJson string
  | ExpectsMultipart string
  | ExpectsJson string

fun request_error_status :: "request_error \<Rightarrow> nat" where
  "request_error_status (BodyTooLarge n) = 413"
| "request_error_status e = 400"

definition shown_type :: "string \<Rightarrow> string" where
  "shown_type ct = (if ct = [] then ''not set'' else ct)"

fun request_error_message :: "request_error \<Rightarrow> string" where
  "request_error_message (BodyTooLarge n) = ''request body exceeds the '' @ itoa (n div 2 ^ 20) @ '' MB limit''"
| "request_error_message BodyUnreadable = ''error reading request body''"
| "request_error_message BodyEmpty = ''request body is empty''"
| "request_error_message (BodyNotJson ct) = ''request body is not valid JSON (Content-Type: '' @ shown_type ct @ '')''"
| "request_error_message (ExpectsMultipart ct) =
     ''no model id could be identified: this endpoint expects multipart/form-data but Content-Type is '' @ shown_type ct"
| "request_error_message (ExpectsJson ct) =
     ''no model id could be identified: Content-Type is '' @ shown_type ct @
     '' and the body is neither a JSON object nor a form with a \"model\" field; send JSON with Content-Type: application/json''"

definition body_too_large_from :: "body_error \<Rightarrow> request_error option" where
  "body_too_large_from e = (case e of TooLarge n \<Rightarrow> Some (BodyTooLarge n) | _ \<Rightarrow> None)"

definition normalize_content_type :: "codec \<Rightarrow> body_kind \<Rightarrow> http_request \<Rightarrow> request_error + http_request" where
  "normalize_content_type cd kind r =
     (if hr_method r \<notin> {''POST'', ''PUT'', ''PATCH''} then Inr r
      else if contains (content_type r) ''multipart/form-data'' then Inr r
      else if kind = BodyJson \<and> contains (content_type r) ''application/json'' then Inr r
      else case read_body r of
        Inl e \<Rightarrow> (case body_too_large_from e of Some e' \<Rightarrow> Inl e' | None \<Rightarrow> Inl BodyUnreadable)
      | Inr body \<Rightarrow>
          (let r1 = set_body body r; trimmed = trim_space body in
           if trimmed = [] then Inl BodyEmpty
           else if kind = BodyJson \<and> (hd trimmed = CHR ''{'' \<or> hd trimmed = CHR ''['') then
             (if \<not> cd_json_valid cd trimmed then Inl (BodyNotJson (content_type r))
              else Inr (r1\<lparr>hr_headers := header_set ''Content-Type'' ''application/json'' (hr_headers r1)\<rparr>))
           else if form_get (fst (cd_query cd body)) ''model'' \<noteq> [] then Inr r1
           else if kind = BodyMultipart then Inl (ExpectsMultipart (content_type r))
           else Inl (ExpectsJson (content_type r))))"

definition prepare_model_body :: "codec \<Rightarrow> int \<Rightarrow> http_request \<Rightarrow> request_error + http_request" where
  "prepare_model_body cd max_bytes r =
     (if max_bytes < hr_length r then Inl (BodyTooLarge max_bytes)
      else normalize_content_type cd (body_kind_for_path (hr_path r)) (cap_body max_bytes r))"

definition content_type_middleware :: "codec \<Rightarrow> int \<Rightarrow> middleware" where
  "content_type_middleware cd max_bytes nxt r h =
     (case prepare_model_body cd max_bytes r of
        Inl e \<Rightarrow> send_response r h (request_error_status e) (request_error_message e)
      | Inr r1 \<Rightarrow> nxt r1 h)"

definition request_context_middleware :: "codec \<Rightarrow> names \<Rightarrow> (string \<Rightarrow> bool) \<Rightarrow> middleware" where
  "request_context_middleware cd c loading nxt r h =
     (case fetch_context cd c loading r of
        (Inl e, r1) \<Rightarrow>
          (case Option.bind e body_too_large_from of
             Some e' \<Rightarrow> send_response r1 h (request_error_status e') (request_error_message e')
           | None \<Rightarrow> send_error r1 h NoModelInContext)
      | (Inr d, r1) \<Rightarrow> nxt r1 h)"

text \<open>
  The limit of requests at once: the semaphore's state is the number of slots taken; \<open>TryAcquire\<close> either takes
  one and the request is served, giving the slot back when it returns, or the request is answered with 429.
\<close>

definition try_acquire :: "nat \<Rightarrow> nat \<Rightarrow> nat option" where
  "try_acquire limit taken = (if taken < limit then Some (taken + 1) else None)"

definition concurrency_middleware :: "nat \<Rightarrow> nat \<Rightarrow> middleware" where
  "concurrency_middleware limit taken nxt r h =
     (case try_acquire limit taken of None \<Rightarrow> send_error r h (ConcurrencyLimit 0 []) | Some t \<Rightarrow> nxt r h)"

section \<open>Tailcat\<close>

record tailcat_config =
  tc_allow :: "string list"
  tc_models :: "string list"
  tc_admin :: bool

definition tailcat_client_allowed :: "string list \<Rightarrow> string option \<Rightarrow> bool" where
  "tailcat_client_allowed allow node_key =
     (if ''*'' \<in> set allow then True
      else case node_key of None \<Rightarrow> False | Some k \<Rightarrow> k \<in> set allow)"

definition is_tailcat_inference_request :: "http_request \<Rightarrow> bool" where
  "is_tailcat_inference_request r =
     (if hr_method r = ''POST'' \<and> (hr_path r \<in> set model_post_json_routes \<or> hr_path r \<in> set model_post_form_routes) then True
      else if hr_method r = ''GET'' \<and> hr_path r \<in> set model_get_routes then True
      else False)"

definition is_tailcat_inference_path :: "string \<Rightarrow> bool" where
  "is_tailcat_inference_path path =
     (path \<in> set model_post_json_routes \<or> path \<in> set model_post_form_routes \<or> path \<in> set model_get_routes)"

definition tailcat_model_allowed :: "string list \<Rightarrow> string \<Rightarrow> bool" where
  "tailcat_model_allowed models m = list_ex (\<lambda>exposed. exposed = ''*'' \<or> exposed = m) models"

text \<open>\<open>http.Error\<close> and \<open>http.NotFound\<close>.\<close>

definition http_error :: "nat \<Rightarrow> string \<Rightarrow> headers \<Rightarrow> reply" where
  "http_error status message h =
     Reply status
       (header_set ''X-Content-Type-Options'' ''nosniff''
         (header_set ''Content-Type'' ''text/plain; charset=utf-8'' (AList.delete ''Content-Length'' h)))
       (PlainText (message @ [CHR 0x0A]))"

definition not_found :: "headers \<Rightarrow> reply" where
  "not_found = http_error 404 ''404 page not found''"

definition forbidden :: "headers \<Rightarrow> reply" where
  "forbidden = http_error 403 ''Tailcat client not allowed''"

text \<open>The model check of an inference request.\<close>

definition tailcat_check_model :: "codec \<Rightarrow> int \<Rightarrow> string list \<Rightarrow> http_request \<Rightarrow> headers \<Rightarrow> reply + http_request" where
  "tailcat_check_model cd max_bytes models r h =
     (case prepare_model_body cd max_bytes r of
        Inl e \<Rightarrow>
          if request_error_status e = 413 then Inl (send_response r h (request_error_status e) (request_error_message e))
          else Inl (not_found h)
      | Inr r1 \<Rightarrow>
          (case extract_model cd r1 of
             (Inl e, r2) \<Rightarrow>
               (case body_too_large_from e of
                  Some e' \<Rightarrow> Inl (send_response r2 h (request_error_status e') (request_error_message e'))
                | None \<Rightarrow> Inl (not_found h))
           | (Inr m, r2) \<Rightarrow> if \<not> tailcat_model_allowed models m then Inl (not_found h) else Inr r2))"

definition serve_tailcat ::
  "codec \<Rightarrow> int \<Rightarrow> bool \<Rightarrow> tailcat_config option \<Rightarrow> string option \<Rightarrow> middleware" where
  "serve_tailcat cd max_bytes enabled tailcat node_key nxt r h =
     (case tailcat of
        None \<Rightarrow> not_found h
      | Some tc \<Rightarrow>
          if \<not> enabled then not_found h
          else if \<not> tailcat_client_allowed (tc_allow tc) node_key then forbidden h
          else
            (let inference = is_tailcat_inference_request r;
                 fixed = hr_method r = ''GET'' \<and> hr_path r \<in> {''/health'', ''/v1/models'', ''/models''};
                 allowed = (inference \<or> (if hr_method r = ''OPTIONS'' then is_tailcat_inference_path (hr_path r) else fixed))
             in if \<not> tc_admin tc \<and> \<not> allowed then not_found h
                else if inference \<and> hr_method r \<noteq> ''OPTIONS'' then
                  (case tailcat_check_model cd max_bytes (tc_models tc) r h of
                     Inl reply \<Rightarrow> reply
                   | Inr r1 \<Rightarrow> nxt r1 h)
                else nxt r h))"

section \<open>Facts\<close>

lemma extract_by_body:
  assumes "hr_method r \<noteq> ''GET''" and "read_body r = Inr b"
  shows "extract_context cd r = extract_context cd (set_body b r)"
proof -
  have "new_context cd (set_body b r) = new_context cd r" by (intro ext) (simp add: new_context_kept [of "set_body b r" r])
  with assms show ?thesis by (cases r rule: request_kind) (simp_all add: extract_rules split: prod.split)
qed

lemma cap_body_simps [simp]:
  "hr_method (cap_body n r) = hr_method r" "hr_path (cap_body n r) = hr_path r" "hr_headers (cap_body n r) = hr_headers r"
  "content_type (cap_body n r) = content_type r" "hr_query (cap_body n r) = hr_query r" "hr_length (cap_body n r) = hr_length r"
  "set_body b (cap_body n r) = set_body b r" "hr_context (cap_body n r) = hr_context r" "hr_body (cap_body n r) = hr_body r"
  by (simp_all add: cap_body_def content_type_def set_body_def)

lemma read_cap_body: "read_body (cap_body n r) = Inr b \<Longrightarrow> b = hr_body r \<and> int (length b) \<le> n"
  by (auto simp: cap_body_def read_body_def split: if_splits option.splits)

lemma read_body_fits: "set_body b r = r \<Longrightarrow> int (length b) \<le> n \<Longrightarrow> read_body (cap_body n r) = Inr b"
proof -
  assume s: "set_body b r = r" and n: "int (length b) \<le> n"
  have "hr_body r = b" "hr_cap r = None" "\<not> hr_broken r" using s by (metis set_body_def http_request.select_convs(7-9) http_request.surjective http_request.update_convs(7-9))+
  with n show ?thesis by (simp add: read_body_def cap_body_def)
qed

definition normalize_passes :: "body_kind \<Rightarrow> http_request \<Rightarrow> bool" where
  "normalize_passes kind r \<longleftrightarrow>
     hr_method r \<notin> {''POST'', ''PUT'', ''PATCH''} \<or> contains (content_type r) ''multipart/form-data'' \<or>
     kind = BodyJson \<and> contains (content_type r) ''application/json''"

definition looks_json :: "body_kind \<Rightarrow> string \<Rightarrow> bool" where
  "looks_json kind b \<longleftrightarrow> kind = BodyJson \<and> (hd (trim_space b) = CHR ''{'' \<or> hd (trim_space b) = CHR ''['')"

lemma normalize_pass: "normalize_passes kind r \<Longrightarrow> normalize_content_type cd kind r = Inr r"
  by (auto simp: normalize_content_type_def normalize_passes_def)

lemma normalize_read:
  "\<not> normalize_passes kind r \<Longrightarrow> normalize_content_type cd kind r =
    (case read_body r of
       Inl e \<Rightarrow> (case body_too_large_from e of Some e' \<Rightarrow> Inl e' | None \<Rightarrow> Inl BodyUnreadable)
     | Inr b \<Rightarrow>
         if trim_space b = [] then Inl BodyEmpty
         else if looks_json kind b then
           (if \<not> cd_json_valid cd (trim_space b) then Inl (BodyNotJson (content_type r))
            else Inr ((set_body b r)\<lparr>hr_headers := header_set ''Content-Type'' ''application/json'' (hr_headers r)\<rparr>))
         else if form_get (fst (cd_query cd b)) ''model'' \<noteq> [] then Inr (set_body b r)
         else if kind = BodyMultipart then Inl (ExpectsMultipart (content_type r))
         else Inl (ExpectsJson (content_type r)))"
proof -
  assume "\<not> normalize_passes kind r"
  then have f: "(hr_method r \<notin> {''POST'', ''PUT'', ''PATCH''}) = False" "contains (content_type r) ''multipart/form-data'' = False"
    "(kind = BodyJson \<and> contains (content_type r) ''application/json'') = False"
    by (auto simp: normalize_passes_def)
  show ?thesis
    by (cases "read_body r")
      (simp_all only: normalize_content_type_def f if_False sum.case Let_def looks_json_def set_body_simps)
qed

lemma normalize_cases:
  assumes "normalize_content_type cd kind r = Inr r1"
  obtains (kept) "r1 = r" "normalize_passes kind r"
  | (labelled) b where "kind = BodyJson" "read_body r = Inr b"
      "r1 = (set_body b r)\<lparr>hr_headers := header_set ''Content-Type'' ''application/json'' (hr_headers r)\<rparr>"
  | (form) b where "\<not> normalize_passes kind r" "read_body r = Inr b" "r1 = set_body b r" "trim_space b \<noteq> []"
      "\<not> looks_json kind b" "form_get (fst (cd_query cd b)) ''model'' \<noteq> []"
proof (cases "normalize_passes kind r")
  case True
  with assms kept show ?thesis by (simp add: normalize_pass)
next
  case False
  note n = assms [unfolded normalize_read [OF False]]
  then obtain b where b: "read_body r = Inr b" by (auto split: sum.splits option.splits)
  with n have nonempty: "trim_space b \<noteq> []" by (auto split: if_splits)
  show ?thesis
  proof (cases "looks_json kind b")
    case True
    with n b nonempty have "r1 = (set_body b r)\<lparr>hr_headers := header_set ''Content-Type'' ''application/json'' (hr_headers r)\<rparr>"
      by (simp split: if_splits)
    moreover have "kind = BodyJson" using True by (simp add: looks_json_def)
    ultimately show ?thesis using labelled b by blast
  next
    case no: False
    with n b nonempty have "r1 = set_body b r" "form_get (fst (cd_query cd b)) ''model'' \<noteq> []"
      by (simp_all split: if_splits)
    with form False b nonempty no show ?thesis by blast
  qed
qed

text \<open>What the gate leaves of a request with a body passes the chain's own preparation, with the same body.\<close>

lemma prepared_again:
  assumes "hr_method r = ''POST''" and "prepare_model_body cd n r = Inr rp" and "extract_context cd rp = (Inr d, r1)"
  shows "\<exists>b r2. prepare_model_body cd n r1 = Inr r2 \<and> set_body b r2 = r1 \<and> read_body r2 = Inr b \<and> hr_method r2 = ''POST'' \<and>
    hr_path r2 = hr_path r \<and> hr_context r2 = hr_context r"
proof -
  let ?kind = "body_kind_for_path (hr_path r)" and ?c = "cap_body n r"
  have len: "hr_length r \<le> n" and norm: "normalize_content_type cd ?kind ?c = Inr rp"
    using assms(2) by (auto simp: prepare_model_body_def split: if_splits)
  have p: "hr_method rp = ''POST'' \<and> hr_path rp = hr_path r \<and> hr_context rp = hr_context r \<and> hr_length rp = hr_length r"
    using norm assms(1) by (cases rule: normalize_cases) simp_all
  note k = extract_context_keeps [OF assms(3)]
  obtain b where b: "read_body rp = Inr b" "int (length b) \<le> n"
  proof (cases "read_body rp")
    case (Inl e)
    with assms(3) p show ?thesis by (simp add: extract_failed)
  next
    case (Inr b)
    have "int (length b) \<le> n" using norm
    proof (cases rule: normalize_cases)
      case kept
      with Inr read_cap_body show ?thesis by blast
    next
      case (labelled b')
      with Inr have "b = b'" by (simp add: read_body_def set_body_def)
      with labelled read_cap_body show ?thesis by blast
    next
      case (form b')
      with Inr have "b = b'" by simp
      with form read_cap_body show ?thesis by blast
    qed
    with Inr that show ?thesis by blast
  qed
  have "extract_context cd (set_body b rp) = (Inr d, r1)"
    using assms(3) p extract_by_body [OF _ b(1)] by simp
  then have s1: "set_body b r1 = r1"
  proof (cases "set_body b rp" rule: request_kind)
    case get
    with p show ?thesis by simp
  next
    case (failed e)
    then show ?thesis by simp
  next
    case (json b')
    with \<open>extract_context cd (set_body b rp) = (Inr d, r1)\<close> have "r1 = set_body b rp" by (simp add: extract_json)
    then show ?thesis by simp
  next
    case (multi b')
    obtain bad r2 where q: "parse_multipart_form cd (set_body b rp) = (bad, r2)" by fastforce
    with \<open>extract_context cd (set_body b rp) = (Inr d, r1)\<close> multi have "r1 = r2"
      by (auto simp: extract_multi split: if_splits)
    with parse_multipart_keeps [OF q] show ?thesis by (intro set_body_kept) (simp_all add: set_body_def)
  next
    case (form b')
    obtain bad r2 where q: "parse_form cd (set_body b rp) = (bad, r2)" by fastforce
    with \<open>extract_context cd (set_body b rp) = (Inr d, r1)\<close> form have "r1 = r2"
      by (auto simp: extract_form split: if_splits)
    with parse_form_keeps [OF q] show ?thesis by (intro set_body_kept) (simp_all add: set_body_def)
  qed
  have rb: "read_body (cap_body n r1) = Inr b" by (rule read_body_fits [OF s1 b(2)])
  have ct: "content_type r1 = content_type rp" using k by (simp add: content_type_def)
  obtain r2 where r2: "normalize_content_type cd ?kind (cap_body n r1) = Inr r2" "r2 = cap_body n r1 \<or> r2 = r1"
    using norm
  proof (cases rule: normalize_cases)
    case kept
    then have "normalize_passes ?kind (cap_body n r1)" using ct p k by (simp add: normalize_passes_def)
    with that normalize_pass show ?thesis by blast
  next
    case (labelled b')
    then have "content_type rp = ''application/json''" by (simp add: content_type_def)
    moreover have "contains ''application/json'' ''application/json''" by code_simp
    ultimately have "normalize_passes ?kind (cap_body n r1)" using labelled ct by (simp add: normalize_passes_def)
    with that normalize_pass show ?thesis by blast
  next
    case (form b')
    then have "b' = b" using b by simp
    have "\<not> normalize_passes ?kind (cap_body n r1)" using form ct p k assms(1) by (simp add: normalize_passes_def)
    from normalize_read [OF this, of cd] form \<open>b' = b\<close> rb s1
    have "normalize_content_type cd ?kind (cap_body n r1) = Inr r1" by simp
    with that show ?thesis by blast
  qed
  have "prepare_model_body cd n r1 = Inr r2" using r2(1) len k p by (simp add: prepare_model_body_def)
  moreover have "set_body b r2 = r1" using r2(2) s1 by auto
  moreover have "read_body r2 = Inr b" using r2(2) rb s1 by (metis set_body_simps(8))
  moreover have "hr_method r2 = ''POST'' \<and> hr_path r2 = hr_path r \<and> hr_context r2 = hr_context r"
    using r2(2) k p by auto
  ultimately show ?thesis by blast
qed

lemma normalize_keeps:
  assumes "normalize_content_type cd kind r = Inr r1"
  shows "hr_method r1 = hr_method r \<and> hr_path r1 = hr_path r \<and> hr_context r1 = hr_context r \<and> hr_query r1 = hr_query r"
  using assms by (cases rule: normalize_cases) simp_all

lemma inference_paths:
  assumes "is_tailcat_inference_request r"
  shows "hr_method r = ''POST'' \<or> hr_method r = ''GET''" "\<not> has_prefix (hr_path r) ''/upstream/''"
proof -
  have "list_all (\<lambda>p. \<not> has_prefix p ''/upstream/'') (model_post_json_routes @ model_post_form_routes @ model_get_routes)"
    by code_simp
  then show "\<not> has_prefix (hr_path r) ''/upstream/''"
    using assms by (auto simp: is_tailcat_inference_request_def list_all_iff split: if_splits)
  show "hr_method r = ''POST'' \<or> hr_method r = ''GET''"
    using assms by (auto simp: is_tailcat_inference_request_def split: if_splits)
qed

lemma tailcat_checked:
  "(\<exists>R. tailcat_check_model cd n models r h = Inl R \<and> reply_status R \<in> {403, 404, 413}) \<or>
   (\<exists>rp r1 m. tailcat_check_model cd n models r h = Inr r1 \<and> prepare_model_body cd n r = Inr rp \<and>
      extract_model cd rp = (Inr m, r1) \<and> tailcat_model_allowed models m)"
proof (cases "prepare_model_body cd n r")
  case (Inl e)
  then show ?thesis by (simp add: tailcat_check_model_def not_found_def http_error_def)
next
  case (Inr rp)
  obtain res r1 where x: "extract_model cd rp = (res, r1)" by fastforce
  show ?thesis
  proof (cases res)
    case Inl': (Inl e)
    show ?thesis
    proof (cases "body_too_large_from e")
      case None
      with Inr x Inl' show ?thesis by (simp add: tailcat_check_model_def not_found_def http_error_def)
    next
      case (Some e')
      then have "request_error_status e' = 413" by (auto simp: body_too_large_from_def split: body_error.splits)
      with Inr x Inl' Some show ?thesis by (simp add: tailcat_check_model_def)
    qed
  next
    case Inr': (Inr m)
    with Inr x show ?thesis by (simp add: tailcat_check_model_def not_found_def http_error_def)
  qed
qed

end
