(* ===== verification/ConfigLoad.thy ===== *)
theory ConfigLoad
  imports SelectorConfig RouterSystem Access
begin

text \<open>
  Loading a configuration (\<open>internal/config/load.go\<close> with \<open>config.go\<close>, \<open>model_config.go\<close>,
  \<open>tailcat.go\<close>): from the decoded values to the configuration the program runs with. Defaults are filled in,
  ranges checked, aliases collected, the legacy and the new way to configure the router brought to one form, and what
  refers to models, groups, profiles and peers is checked.

  Go maps are association lists in the order a range loop happens to visit them. What the operating system
  and third-party packages answer (the store's path, URLs, Tailcat keys) is given by a \<open>host\<close>.
\<close>

section \<open>The configuration\<close>

record capabilities =
  ca_in :: "string list"
  ca_out :: "string list"
  ca_tools :: bool
  ca_reranker :: bool
  ca_embeddings :: bool
  ca_context :: int
  ca_voices :: "string list"
  ca_disable_auto :: bool

record model_config =
  md_proxy :: string
  md_aliases :: "string list"
  md_ttl :: int
  md_unload_timeout :: int
  md_health_timeout :: int
  md_concurrency :: int
  md_params_by_id :: "string list"
  md_send_loading :: "bool option"
  md_ignore_websockets :: bool
  md_capabilities :: capabilities
  md_capacity :: model_cap

text \<open>A peer; for a Tailcat peer its key setting, its connection blob and the identity of its private key.\<close>

record peer_config =
  pe_models :: "string list"
  pe_api_key :: string
  pe_tailcat :: "(string \<times> string \<times> string) option"

text \<open>
  The decoded configuration: \<open>None\<close> is a nil pointer or map. \<open>cf_program\<close> is the program compiled from the
  matrix, which hangs off the matrix the two fields share.
\<close>

record config =
  cf_health_timeout :: int
  cf_every :: int
  cf_start_port :: int
  cf_global_ttl :: int
  cf_unload_timeout :: int
  cf_global_limit :: int
  cf_max_body_mb :: int
  cf_session_headers :: "string list"
  cf_store :: "string option"
  cf_ignore_paths :: "string list"
  cf_cors :: cors_config
  cf_log_to_stdout :: string
  cf_models :: "(string \<times> model_config) list"
  cf_aliases :: "(string \<times> string) list"
  cf_send_loading :: bool
  cf_groups :: "groups option"
  cf_matrix :: "matrix_config option"
  cf_program :: "program option"
  cf_router_use :: string
  cf_router_groups :: "groups option"
  cf_router_matrix :: "matrix_config option"
  cf_router_capacity :: "pools option"
  cf_scheduler_use :: string
  cf_priority :: "(string \<times> int) list"
  cf_preload :: "string list"
  cf_startup_profile :: string
  cf_api_keys :: "string list"
  cf_peers :: "(string \<times> peer_config) list"
  cf_selectors :: selectors
  cf_profiles :: "(string \<times> (string \<times> string) list) list"
  cf_tailcat :: "tailcat_config option"

datatype load_error =
    BadPerformance int
  | BadStartPort
  | BadGlobalTtl
  | BadUnloadTimeout
  | BadGlobalLimit
  | BadMaxBody
  | StoreEmpty
  | StoreStat
  | StoreDirReadOnly
  | StoreIsDirectory
  | StoreReadOnly
  | BadCors cors_error
  | BadLogToStdout string
  | DuplicateAlias string string
  | BadModelTtl string int
  | BadModelUnloadTimeout string int
  | BadCapabilities string
  | BadModelCapacity string cap_error
  | ParamIsModel string string
  | ParamIsAlias string string string
  | BadProxyUrl string
  | BothStyles
  | BadCapacity cap_error
  | MatrixMissing
  | UnknownRouter string
  | GroupsAndMatrix
  | BadMatrix matrix_error
  | MemberTwice string string
  | MemberInGroups string string string
  | UnknownScheduler string
  | PriorityUnknown string
  | EmptyApiKey
  | ApiKeySpaces nat
  | BadNamespace namespace_error
  | BadSelector selector_error
  | ProfileNameEmpty
  | ProfileNoPins string
  | ProfilePinEmpty string
  | ProfileTarget string string string
  | StartupProfile string
  | TailcatKey nat
  | TailcatModelEmpty nat
  | TailcatModelUnknown nat string
  | TailcatKeyReused string string

datatype path_info = NoSuchFile | StatFails | IsDirectory | IsFile

record host =
  ho_parse_url :: "string \<Rightarrow> url option"
  ho_stat :: "string \<Rightarrow> path_info"
  ho_writable :: "string \<Rightarrow> bool"
  ho_dir_writable :: "string \<Rightarrow> bool"
  ho_node_public :: "string \<Rightarrow> string option"
  ho_destination :: "string \<Rightarrow> string option"

definition default_group_id :: string where
  "default_group_id = ''(default)''"

definition default_unload_timeout :: int where
  "default_unload_timeout = 10"

definition default_max_body_mb :: int where
  "default_max_body_mb = 250"

definition default_model_ttl :: int where
  "default_model_ttl = - 1"

definition comfyui_model_id :: string where
  "comfyui_model_id = ''comfyui_auto''"

definition comfyui_concurrency_limit :: int where
  "comfyui_concurrency_limit = 999"

definition default_ignore_paths :: "string list" where
  "default_ignore_paths = [''.*'' @ [CHR 0x5C] @ ''.(js|json|css|png|gif|jpg|jpeg|ico|txt)$'']"

text \<open>The configuration an empty document decodes to.\<close>

definition empty_config :: config where
  "empty_config =
     \<lparr>cf_health_timeout = 120, cf_every = 0, cf_start_port = 5800, cf_global_ttl = 0,
      cf_unload_timeout = default_unload_timeout, cf_global_limit = 0, cf_max_body_mb = default_max_body_mb,
      cf_session_headers = [''X-Session-ID'', ''X-Litellm-Session-Id''], cf_store = None, cf_ignore_paths = [],
      cf_cors = \<lparr>co_origins = None, co_credentials = False, co_private = False, co_methods = [], co_headers = [],
        co_exposed = [], co_max_age = 0\<rparr>,
      cf_log_to_stdout = ''proxy'', cf_models = [], cf_aliases = [], cf_send_loading = False, cf_groups = None, cf_matrix = None,
      cf_program = None, cf_router_use = [], cf_router_groups = None, cf_router_matrix = None, cf_router_capacity = None,
      cf_scheduler_use = [], cf_priority = [], cf_preload = [], cf_startup_profile = [], cf_api_keys = [], cf_peers = [],
      cf_selectors = [], cf_profiles = [], cf_tailcat = None\<rparr>"

text \<open>What name resolution looks at.\<close>

definition names_of :: "config \<Rightarrow> names" where
  "names_of c =
     \<lparr>na_models = map (\<lambda>(m, mc). (m, md_aliases mc)) (cf_models c), na_aliases = cf_aliases c,
      na_selectors = map fst (cf_selectors c), na_pins = map (\<lambda>(p, pins). (p, map fst pins)) (cf_profiles c),
      na_peers = map (\<lambda>(p, pc). (p, pe_models pc)) (cf_peers c)\<rparr>"

definition model_ids :: "config \<Rightarrow> string list" where
  "model_ids c = map fst (cf_models c)"

definition capacities_of :: "config \<Rightarrow> cap_models" where
  "capacities_of c = map (\<lambda>(m, mc). (m, md_capacity mc)) (cf_models c)"

section \<open>Global settings\<close>

definition validate_store_path :: "host \<Rightarrow> string \<Rightarrow> load_error + unit" where
  "validate_store_path ho path =
     (if trim_space path = [] then Inl StoreEmpty
      else case ho_stat ho path of
        StatFails \<Rightarrow> Inl StoreStat
      | NoSuchFile \<Rightarrow> if \<not> ho_dir_writable ho path then Inl StoreDirReadOnly else Inr ()
      | IsDirectory \<Rightarrow> Inl StoreIsDirectory
      | IsFile \<Rightarrow> if \<not> ho_writable ho path then Inl StoreReadOnly else Inr ())"

record stdout_streams =
  so_proxy :: bool
  so_upstream :: bool
  so_http :: bool

definition add_stream :: "string \<Rightarrow> string \<Rightarrow> stdout_streams \<Rightarrow> load_error + stdout_streams" where
  "add_stream value item s =
     (let i = trim_space item in
      if i = ''proxy'' then Inr (s\<lparr>so_proxy := True\<rparr>)
      else if i = ''upstream'' then Inr (s\<lparr>so_upstream := True\<rparr>)
      else if i = ''http'' then Inr (s\<lparr>so_http := True\<rparr>)
      else Inl (BadLogToStdout value))"

definition parse_log_to_stdout :: "string \<Rightarrow> load_error + stdout_streams" where
  "parse_log_to_stdout value =
     (if trim_space value = ''none'' then Inr \<lparr>so_proxy = False, so_upstream = False, so_http = False\<rparr>
      else if trim_space value = ''both'' then Inr \<lparr>so_proxy = True, so_upstream = True, so_http = True\<rparr>
      else foldE (add_stream value) (split_at (CHR '','') value) \<lparr>so_proxy = False, so_upstream = False, so_http = False\<rparr>)"

definition normalize_name :: "string \<Rightarrow> string list \<times> string list \<Rightarrow> string list \<times> string list" where
  "normalize_name raw acc =
     (case acc of (normalized, seen) \<Rightarrow>
        let name = trim_space raw; key = to_lower name in
        if name = [] then acc
        else if key \<in> set seen then acc
        else (normalized @ [name], key # seen))"

definition normalize_header_names :: "string list \<Rightarrow> string list" where
  "normalize_header_names names = fst (fold normalize_name names ([], []))"

definition five_seconds :: int where
  "five_seconds = 5000000000"

text \<open>An early return unless \<open>ok\<close>, and an error of another kind wrapped into one of loading.\<close>

definition guard :: "bool \<Rightarrow> load_error \<Rightarrow> load_error + unit" where
  "guard ok e = (if ok then Inr () else Inl e)"

definition wrapE :: "('e \<Rightarrow> load_error) \<Rightarrow> 'e + 'a \<Rightarrow> load_error + 'a" where
  "wrapE e r = (case r of Inl x \<Rightarrow> Inl (e x) | Inr a \<Rightarrow> Inr a)"

definition load_globals :: "host \<Rightarrow> config \<Rightarrow> load_error + config" where
  "load_globals ho c0 =
     (let c1 = c0\<lparr>cf_health_timeout := (if cf_health_timeout c0 < 15 then 15 else cf_health_timeout c0)\<rparr>;
          c2 = c1\<lparr>cf_every := (if cf_every c1 = 0 then five_seconds else cf_every c1)\<rparr> in
      bindE (guard (\<not> cf_every c2 < five_seconds) (BadPerformance (cf_every c2))) (\<lambda>_.
      bindE (guard (\<not> cf_start_port c2 < 1) BadStartPort) (\<lambda>_.
      bindE (guard (\<not> cf_global_ttl c2 < 0) BadGlobalTtl) (\<lambda>_.
      bindE (guard (\<not> cf_unload_timeout c2 < 0) BadUnloadTimeout) (\<lambda>_.
      let c3 = c2\<lparr>cf_unload_timeout := (if cf_unload_timeout c2 = 0 then default_unload_timeout else cf_unload_timeout c2)\<rparr> in
      bindE (guard (\<not> cf_global_limit c3 < 0) BadGlobalLimit) (\<lambda>_.
      bindE (guard (\<not> cf_max_body_mb c3 < 1) BadMaxBody) (\<lambda>_.
      let c4 = c3\<lparr>cf_session_headers := normalize_header_names (cf_session_headers c3)\<rparr> in
      bindE (case cf_store c4 of None \<Rightarrow> Inr () | Some path \<Rightarrow> validate_store_path ho path) (\<lambda>_.
      let c5 = c4\<lparr>cf_ignore_paths := (if cf_ignore_paths c4 = [] then default_ignore_paths else cf_ignore_paths c4)\<rparr> in
      bindE (wrapE BadCors (validate_cors (ho_parse_url ho) (cf_cors c5))) (\<lambda>_.
      bindE (parse_log_to_stdout (cf_log_to_stdout c5)) (\<lambda>_. Inr c5))))))))))"

section \<open>Models\<close>

definition add_alias :: "string \<Rightarrow> string \<Rightarrow> (string \<times> string) list \<Rightarrow> load_error + (string \<times> string) list" where
  "add_alias m a al =
     (if map_of al a \<noteq> None then Inl (DuplicateAlias a m) else Inr (AList.update a m al))"

definition explicit_aliases :: "(string \<times> model_config) list \<Rightarrow> load_error + (string \<times> string) list" where
  "explicit_aliases models = foldE (\<lambda>(m, mc). foldE (add_alias m) (md_aliases mc)) models []"

definition in_modalities :: "string list" where
  "in_modalities = [''text'', ''audio'', ''image'', ''video'']"

definition out_modalities :: "string list" where
  "out_modalities = [''text'', ''audio'', ''image'', ''video'', ''decisions'']"

definition validate_capabilities :: "capabilities \<Rightarrow> bool" where
  "validate_capabilities c =
     (list_all (\<lambda>m. m \<in> set in_modalities) (ca_in c) \<and> list_all (\<lambda>m. m \<in> set out_modalities) (ca_out c) \<and>
      \<not> ca_context c < 0)"

text \<open>One key of \<open>filters.setParamsByID\<close> becomes an alias of its model.\<close>

definition register_param ::
  "string list \<Rightarrow> string \<Rightarrow> string \<Rightarrow> (string \<times> string) list \<times> string list \<Rightarrow>
     load_error + (string \<times> string) list \<times> string list" where
  "register_param models m key acc =
     (case acc of (al, own) \<Rightarrow>
        if key = m then Inr acc
        else if key \<in> set models then Inl (ParamIsModel m key)
        else case map_of al key of
          Some existing \<Rightarrow> if existing \<noteq> m then Inl (ParamIsAlias key m existing) else Inr acc
        | None \<Rightarrow> Inr (AList.update key m al, own @ [key]))"

definition model_defaults :: "config \<Rightarrow> string \<Rightarrow> model_config \<Rightarrow> model_config" where
  "model_defaults c m mc0 =
     (let mc1 = mc0\<lparr>md_health_timeout := cf_health_timeout c\<rparr>;
          mc2 = (if m = comfyui_model_id then
                   (if md_concurrency mc1 < comfyui_concurrency_limit
                    then mc1\<lparr>md_concurrency := comfyui_concurrency_limit\<rparr> else mc1)\<lparr>md_ignore_websockets := True\<rparr>
                 else mc1)
      in if md_ttl mc2 = default_model_ttl then mc2\<lparr>md_ttl := cf_global_ttl c\<rparr> else mc2)"

definition load_model :: "host \<Rightarrow> string \<Rightarrow> config \<Rightarrow> load_error + config" where
  "load_model ho m c =
     (case map_of (cf_models c) m of
        None \<Rightarrow> Inr c
      | Some mc0 \<Rightarrow>
          (let mc1 = model_defaults c m mc0 in
           bindE (guard (\<not> md_ttl mc1 < 0) (BadModelTtl m (md_ttl mc1))) (\<lambda>_.
           bindE (guard (\<not> md_unload_timeout mc1 < 0) (BadModelUnloadTimeout m (md_unload_timeout mc1))) (\<lambda>_.
           let mc2 = mc1\<lparr>md_unload_timeout := (if md_unload_timeout mc1 = 0 then cf_unload_timeout c else md_unload_timeout mc1)\<rparr> in
           bindE (guard (validate_capabilities (md_capabilities mc2)) (BadCapabilities m)) (\<lambda>_.
           bindE (wrapE (BadModelCapacity m) (validate_model_capacity m (md_capacity mc2))) (\<lambda>_.
           bindE (foldE (register_param (model_ids c) m) (md_params_by_id mc2) (cf_aliases c, md_aliases mc2)) (\<lambda>(al, own).
           bindE (guard (ho_parse_url ho (md_proxy mc2) \<noteq> None) (BadProxyUrl m)) (\<lambda>_.
             let mc3 = mc2\<lparr>md_aliases := own,
                           md_send_loading := (case md_send_loading mc2 of None \<Rightarrow> Some (cf_send_loading c) | Some b \<Rightarrow> Some b)\<rparr>
             in Inr (c\<lparr>cf_aliases := al, cf_models := AList.update m mc3 (cf_models c)\<rparr>)))))))))"

definition load_models :: "host \<Rightarrow> config \<Rightarrow> load_error + config" where
  "load_models ho c =
     bindE (explicit_aliases (cf_models c)) (\<lambda>al.
       foldE (load_model ho) (sort (map fst (cf_models c))) (c\<lparr>cf_aliases := al\<rparr>))"

section \<open>Routing\<close>

definition group_list :: "groups option \<Rightarrow> groups" where
  "group_list g = (case g of None \<Rightarrow> [] | Some gs \<Rightarrow> gs)"

definition add_default_group :: "config \<Rightarrow> config" where
  "add_default_group c =
     (let gs = group_list (cf_groups c);
          members = (if gs = [] then model_ids c
                     else filter (\<lambda>m. \<not> list_ex (\<lambda>(gid, g). m \<in> set (gc_members g)) gs) (model_ids c))
      in c\<lparr>cf_groups := Some (AList.update default_group_id (default_group\<lparr>gc_members := sort members\<rparr>) gs)\<rparr>)"

definition check_member ::
  "string \<Rightarrow> string \<Rightarrow> string list \<times> (string \<times> string) list \<Rightarrow> load_error + string list \<times> (string \<times> string) list" where
  "check_member gid m acc =
     (case acc of (prev, usage) \<Rightarrow>
        if m \<in> set prev then Inl (MemberTwice m gid)
        else case map_of usage m of
          Some existing \<Rightarrow> Inl (MemberInGroups m existing gid)
        | None \<Rightarrow> Inr (m # prev, AList.update m gid usage))"

definition check_group :: "string \<times> group_config \<Rightarrow> (string \<times> string) list \<Rightarrow> load_error + (string \<times> string) list" where
  "check_group gg usage =
     (case gg of (gid, g) \<Rightarrow> bindE (foldE (check_member gid) (gc_members g) ([], usage)) (\<lambda>(prev, usage'). Inr usage'))"

definition has_top_level :: "config \<Rightarrow> bool" where
  "has_top_level c = (cf_matrix c \<noteq> None \<or> cf_groups c \<noteq> None)"

definition has_routing :: "config \<Rightarrow> bool" where
  "has_routing c =
     (cf_router_use c \<noteq> [] \<or> cf_router_matrix c \<noteq> None \<or> group_list (cf_router_groups c) \<noteq> [] \<or> cf_router_capacity c \<noteq> None)"

definition choose_router :: "config \<Rightarrow> load_error + config" where
  "choose_router c =
     (if has_top_level c then Inr c
      else if cf_router_use c = ''capacity'' then
        bindE (wrapE BadCapacity (validate_capacity (cf_router_capacity c) (capacities_of c))) (\<lambda>_. Inr c)
      else if cf_router_use c = ''matrix'' then
        (case cf_router_matrix c of None \<Rightarrow> Inl MatrixMissing | Some mx \<Rightarrow> Inr (c\<lparr>cf_matrix := Some mx\<rparr>))
      else if cf_router_use c = ''group'' \<or> cf_router_use c = [] then Inr (c\<lparr>cf_groups := cf_router_groups c\<rparr>)
      else Inl (UnknownRouter (cf_router_use c)))"

text \<open>\<open>use\<close> is the router the configuration asked for, before it is brought to its canonical form.\<close>

definition check_router :: "string \<Rightarrow> config \<Rightarrow> load_error + config" where
  "check_router use c =
     (case cf_matrix c of
        Some mx \<Rightarrow> bindE (wrapE BadMatrix (validate_matrix mx (model_ids c))) (\<lambda>p. Inr (c\<lparr>cf_program := Some p\<rparr>))
      | None \<Rightarrow>
          if use \<noteq> ''capacity'' then
            bindE (foldE check_group (group_list (cf_groups (add_default_group c))) []) (\<lambda>_. Inr (add_default_group c))
          else Inr c)"

definition canonical_router :: "string \<Rightarrow> config \<Rightarrow> config" where
  "canonical_router use c =
     c\<lparr>cf_router_use := (if cf_matrix c \<noteq> None then ''matrix'' else if use \<noteq> ''capacity'' then ''group'' else cf_router_use c),
       cf_router_matrix := cf_matrix c, cf_router_groups := cf_groups c\<rparr>"

definition load_routing :: "config \<Rightarrow> load_error + config" where
  "load_routing c0 =
     bindE (guard (\<not> (has_top_level c0 \<and> has_routing c0)) BothStyles) (\<lambda>_.
     bindE (choose_router c0) (\<lambda>c1.
     bindE (guard (\<not> (cf_matrix c1 \<noteq> None \<and> group_list (cf_groups c1) \<noteq> [])) GroupsAndMatrix) (\<lambda>_.
     bindE (check_router (cf_router_use c0) c1) (\<lambda>c3. Inr (canonical_router (cf_router_use c0) c3)))))"

section \<open>References\<close>

definition load_scheduler :: "config \<Rightarrow> load_error + config" where
  "load_scheduler c0 =
     (let c = (if cf_scheduler_use c0 = [] then c0\<lparr>cf_scheduler_use := ''fifo''\<rparr> else c0) in
      bindE (guard (cf_scheduler_use c = ''fifo'') (UnknownScheduler (cf_scheduler_use c))) (\<lambda>_.
      bindE (foldE (\<lambda>(m, prio) u. guard (real_model_name (names_of c) m \<noteq> None) (PriorityUnknown m)) (cf_priority c) ()) (\<lambda>_.
        Inr c)))"

definition load_preload :: "config \<Rightarrow> config" where
  "load_preload c =
     (if cf_preload c = [] then c
      else c\<lparr>cf_preload := concat (map (\<lambda>raw.
         let m = trim_space raw in
         if m = [] then [] else case real_model_name (names_of c) m of Some found \<Rightarrow> [found] | None \<Rightarrow> []) (cf_preload c))\<rparr>)"

definition check_api_key :: "nat \<times> string \<Rightarrow> unit \<Rightarrow> load_error + unit" where
  "check_api_key ik u =
     (case ik of (i, key) \<Rightarrow>
        if key = [] then Inl EmptyApiKey else if contains key '' '' then Inl (ApiKeySpaces i) else Inr u)"

definition check_pin :: "config \<Rightarrow> string \<Rightarrow> string \<times> string \<Rightarrow> unit \<Rightarrow> load_error + unit" where
  "check_pin c p pt u =
     (case pt of (pin, target) \<Rightarrow>
        if trim_space pin = [] then Inl (ProfilePinEmpty p)
        else if target = [] then Inr u
        else if resolve_base_model (names_of c) target = None then
          (if map_of (cf_selectors c) target \<noteq> None then Inr u else Inl (ProfileTarget p pin target))
        else Inr u)"

definition check_profile :: "config \<Rightarrow> string \<times> (string \<times> string) list \<Rightarrow> unit \<Rightarrow> load_error + unit" where
  "check_profile c pp u =
     (case pp of (p, pins) \<Rightarrow>
        if trim_space p = [] then Inl ProfileNameEmpty
        else if pins = [] then Inl (ProfileNoPins p)
        else foldE (check_pin c p) pins ())"

definition validate_profiles :: "config \<Rightarrow> load_error + unit" where
  "validate_profiles c =
     bindE (foldE (check_profile c) (cf_profiles c) ()) (\<lambda>_.
       guard (\<not> (cf_startup_profile c \<noteq> [] \<and> map_of (cf_profiles c) (cf_startup_profile c) = None))
         (StartupProfile (cf_startup_profile c)))"

section \<open>Tailcat\<close>

definition public_tailcat_model_ids :: "config \<Rightarrow> string list" where
  "public_tailcat_model_ids c =
     concat (map (\<lambda>(m, mc). m # md_aliases mc) (cf_models c)) @ map fst (cf_selectors c) @
     concat (map (\<lambda>(p, pins). map fst pins) (cf_profiles c)) @
     concat (map (\<lambda>(p, pc). map (peer_model_fqn p) (pe_models pc)) (cf_peers c))"

definition check_allow :: "host \<Rightarrow> nat \<times> string \<Rightarrow> string list \<Rightarrow> load_error + string list" where
  "check_allow ho ir allowed =
     (case ir of (i, raw) \<Rightarrow>
        if raw = ''*'' then Inr (if raw \<in> set allowed then allowed else allowed @ [raw])
        else case ho_node_public ho raw of
          None \<Rightarrow> Inl (TailcatKey i)
        | Some canonical \<Rightarrow>
            if canonical \<noteq> raw then Inl (TailcatKey i)
            else Inr (if canonical \<in> set allowed then allowed else allowed @ [canonical]))"

definition check_exposed :: "string list \<Rightarrow> nat \<times> string \<Rightarrow> string list \<Rightarrow> load_error + string list" where
  "check_exposed valid im models =
     (case im of (i, m) \<Rightarrow>
        if m = [] then Inl (TailcatModelEmpty i)
        else if m \<noteq> ''*'' \<and> m \<notin> set valid then Inl (TailcatModelUnknown i m)
        else Inr (if m \<in> set models then models else models @ [m]))"

definition check_peer_key ::
  "host \<Rightarrow> string \<times> peer_config \<Rightarrow> (string \<times> string) list \<Rightarrow> load_error + (string \<times> string) list" where
  "check_peer_key ho pp used =
     (case pp of (p, pc) \<Rightarrow>
        case pe_tailcat pc of
          None \<Rightarrow> Inr used
        | Some (key, blob, client) \<Rightarrow>
            if key = [] \<or> key = ''ephemeral'' then Inr used
            else
              (let server = (case ho_destination ho blob of None \<Rightarrow> [] | Some s \<Rightarrow> s) in
               case map_of used client of
                 Some prev \<Rightarrow> if prev \<noteq> server then Inl (TailcatKeyReused p client) else Inr (AList.update client server used)
               | None \<Rightarrow> Inr (AList.update client server used)))"

definition validate_tailcat :: "host \<Rightarrow> config \<Rightarrow> load_error + config" where
  "validate_tailcat ho c =
     bindE (case cf_tailcat c of
              None \<Rightarrow> Inr c
            | Some tc \<Rightarrow>
                bindE (foldE (check_allow ho) (enumerate 0 (tc_allow tc)) []) (\<lambda>allowed.
                bindE (foldE (check_exposed (public_tailcat_model_ids c)) (enumerate 0 (tc_models tc)) []) (\<lambda>models.
                  Inr (c\<lparr>cf_tailcat := Some (tc\<lparr>tc_allow := allowed, tc_models := models\<rparr>)\<rparr>)))) (\<lambda>c1.
     bindE (foldE (check_peer_key ho) (cf_peers c1) []) (\<lambda>_. Inr c1))"

section \<open>Loading\<close>

text \<open>The settings under which the coexistence of spillover targets is checked.\<close>

definition settings_of :: "config \<Rightarrow> router_settings" where
  "settings_of c =
     (if cf_router_use c = ''capacity'' then UseCapacity (case cf_router_capacity c of None \<Rightarrow> [] | Some ps \<Rightarrow> ps) (capacities_of c)
      else if cf_router_use c = ''matrix'' then UseMatrix (case cf_router_matrix c of None \<Rightarrow> None | Some mx \<Rightarrow> cf_program c)
      else UseGroup (group_list (cf_router_groups c)))"

definition check_references :: "config \<Rightarrow> load_error + unit" where
  "check_references c =
     bindE (foldE check_api_key (enumerate 0 (cf_api_keys c)) ()) (\<lambda>_.
     bindE (wrapE BadNamespace (validate_peer_namespace (names_of c))) (\<lambda>_.
     bindE (wrapE BadSelector (validate_selectors (names_of c) (cf_selectors c) (settings_of c))) (\<lambda>_.
       validate_profiles c)))"

definition load_config :: "host \<Rightarrow> config \<Rightarrow> load_error + config" where
  "load_config ho c0 =
     bindE (load_globals ho c0) (\<lambda>c1.
     bindE (load_models ho c1) (\<lambda>c2.
     bindE (load_routing c2) (\<lambda>c3.
     bindE (load_scheduler c3) (\<lambda>c4.
     let c5 = load_preload c4 in
     bindE (check_references c5) (\<lambda>_. validate_tailcat ho c5)))))"

section \<open>What the stages change\<close>

lemma guard_ok [simp]: "guard ok e = Inr u \<longleftrightarrow> ok"
  by (simp add: guard_def)

lemma wrapE_ok [simp]: "wrapE e r = Inr a \<longleftrightarrow> r = Inr a"
  by (cases r) (simp_all add: wrapE_def)

definition globals_ok :: "host \<Rightarrow> config \<Rightarrow> bool" where
  "globals_ok ho c \<longleftrightarrow> 15 \<le> cf_health_timeout c \<and> five_seconds \<le> cf_every c \<and> 1 \<le> cf_start_port c \<and> 0 \<le> cf_global_ttl c \<and>
     0 < cf_unload_timeout c \<and> 0 \<le> cf_global_limit c \<and> 1 \<le> cf_max_body_mb c \<and>
     distinct (map to_lower (cf_session_headers c)) \<and> [] \<notin> set (cf_session_headers c) \<and> cf_ignore_paths c \<noteq> [] \<and>
     validate_cors (ho_parse_url ho) (cf_cors c) = Inr ()"

lemma normalize_names:
  "distinct (map to_lower n) \<and> set s = to_lower ` set n \<and> [] \<notin> set n \<Longrightarrow>
   case fold normalize_name names (n, s) of (n', s') \<Rightarrow>
     distinct (map to_lower n') \<and> set s' = to_lower ` set n' \<and> [] \<notin> set n'"
proof (induction names arbitrary: n s)
  case (Cons raw names)
  obtain n1 s1 where step: "normalize_name raw (n, s) = (n1, s1)" by fastforce
  then have "distinct (map to_lower n1) \<and> set s1 = to_lower ` set n1 \<and> [] \<notin> set n1"
    using Cons.prems by (auto simp: normalize_name_def Let_def split: if_splits)
  from Cons.IH [OF this] step show ?case by simp
qed simp

lemma normalize_header_names_ok:
  "distinct (map to_lower (normalize_header_names names)) \<and> [] \<notin> set (normalize_header_names names)"
  using normalize_names [of "[]" "[]" names] by (auto simp: normalize_header_names_def split: prod.splits)

lemma load_globals_ok:
  assumes "load_globals ho c0 = Inr c"
  shows "globals_ok ho c \<and> (\<exists>h e u s i. c = c0\<lparr>cf_health_timeout := h, cf_every := e, cf_unload_timeout := u,
    cf_session_headers := s, cf_ignore_paths := i\<rparr>)"
proof -
  define h where "h = (if cf_health_timeout c0 < 15 then 15 else cf_health_timeout c0)"
  define e where "e = (if cf_every c0 = 0 then five_seconds else cf_every c0)"
  define u where "u = (if cf_unload_timeout c0 = 0 then default_unload_timeout else cf_unload_timeout c0)"
  define s where "s = normalize_header_names (cf_session_headers c0)"
  define i where "i = (if cf_ignore_paths c0 = [] then default_ignore_paths else cf_ignore_paths c0)"
  have c: "c = c0\<lparr>cf_health_timeout := h, cf_every := e, cf_unload_timeout := u, cf_session_headers := s, cf_ignore_paths := i\<rparr>"
    and g: "\<not> e < five_seconds" "\<not> cf_start_port c0 < 1" "\<not> cf_global_ttl c0 < 0" "\<not> cf_unload_timeout c0 < 0"
      "\<not> cf_global_limit c0 < 0" "\<not> cf_max_body_mb c0 < 1" "validate_cors (ho_parse_url ho) (cf_cors c0) = Inr ()"
    using assms by (auto simp: load_globals_def Let_def bindE_simps h_def e_def u_def s_def i_def)
  have "globals_ok ho c"
    using g normalize_header_names_ok [of "cf_session_headers c0"]
    by (auto simp: c globals_ok_def h_def u_def s_def i_def default_unload_timeout_def default_ignore_paths_def)
  with c show ?thesis by blast
qed

text \<open>The alias table agrees with the aliases of the models.\<close>

definition aliases_ok :: "config \<Rightarrow> bool" where
  "aliases_ok c \<longleftrightarrow> (\<forall>a m. map_of (cf_aliases c) a = Some m \<longleftrightarrow>
     (\<exists>mc. map_of (cf_models c) m = Some mc \<and> a \<in> set (md_aliases mc)))"

lemma add_alias_ok: "add_alias m a al = Inr al' \<longleftrightarrow> map_of al a = None \<and> al' = AList.update a m al"
  by (auto simp: add_alias_def)

lemma add_aliases:
  "foldE (add_alias m) as al = Inr al' \<Longrightarrow> map_of al' a = Some k \<longleftrightarrow> map_of al a = Some k \<or> k = m \<and> a \<in> set as"
proof (induction as arbitrary: al)
  case (Cons b as)
  then have b: "map_of al b = None" "foldE (add_alias m) as (AList.update b m al) = Inr al'"
    by (auto simp: add_alias_ok bindE_simps)
  from Cons.IH [OF b(2)] b(1) show ?case by auto
qed simp

lemma explicit_aliases_ok:
  assumes "explicit_aliases models = Inr al" and "distinct (map fst models)"
  shows "map_of al a = Some m \<longleftrightarrow> (\<exists>mc. map_of models m = Some mc \<and> a \<in> set (md_aliases mc))"
proof -
  have "foldE (\<lambda>(m, mc). foldE (add_alias m) (md_aliases mc)) models al0 = Inr al \<Longrightarrow>
      map_of al a = Some m \<longleftrightarrow> map_of al0 a = Some m \<or> (\<exists>mc. (m, mc) \<in> set models \<and> a \<in> set (md_aliases mc))" for al0
  proof (induction models arbitrary: al0)
    case (Cons x models)
    obtain k kc where x: "x = (k, kc)" by (cases x)
    from Cons.prems obtain al1 where al1: "foldE (add_alias k) (md_aliases kc) al0 = Inr al1"
      "foldE (\<lambda>(m, mc). foldE (add_alias m) (md_aliases mc)) models al1 = Inr al"
      by (auto simp: x bindE_simps)
    from Cons.IH [OF al1(2)] add_aliases [OF al1(1)] show ?case by (auto simp: x)
  qed simp
  from this [of "[]"] assms show ?thesis by (auto simp: explicit_aliases_def)
qed

lemma register_params:
  assumes "foldE (register_param ids m) keys (al, own) = Inr (al', own')"
    and "\<And>a. map_of al a = Some m \<longleftrightarrow> a \<in> set own"
  shows "(map_of al' a = Some k \<longleftrightarrow> (if k = m then a \<in> set own' else map_of al a = Some k)) \<and> set own \<subseteq> set own' \<and>
    (\<forall>key\<in>set keys. key = m \<or> key \<notin> set ids \<and> key \<in> set own')"
  using assms
proof (induction keys arbitrary: al own)
  case (Cons key keys)
  obtain al1 own1 where step: "register_param ids m key (al, own) = Inr (al1, own1)"
    "foldE (register_param ids m) keys (al1, own1) = Inr (al', own')"
    using Cons.prems(1) by (auto simp: bindE_simps)
  have one: "(\<forall>b. map_of al1 b = Some m \<longleftrightarrow> b \<in> set own1) \<and> (\<forall>b. k \<noteq> m \<longrightarrow> map_of al1 b = Some k \<longleftrightarrow> map_of al b = Some k) \<and>
      set own \<subseteq> set own1 \<and> (key = m \<or> key \<notin> set ids \<and> key \<in> set own1)"
    using step(1) Cons.prems(2) by (auto simp: register_param_def split: if_splits option.splits)
  from Cons.IH [OF step(2)] one show ?case by auto
qed auto

definition model_ok :: "host \<Rightarrow> config \<Rightarrow> string \<Rightarrow> model_config \<Rightarrow> bool" where
  "model_ok ho c m mc \<longleftrightarrow>
     md_health_timeout mc = cf_health_timeout c \<and> 0 \<le> md_ttl mc \<and> 0 < md_unload_timeout mc \<and>
     validate_capabilities (md_capabilities mc) \<and> validate_model_capacity m (md_capacity mc) = Inr () \<and>
     ho_parse_url ho (md_proxy mc) \<noteq> None \<and> md_send_loading mc \<noteq> None \<and>
     (m = comfyui_model_id \<longrightarrow> comfyui_concurrency_limit \<le> md_concurrency mc \<and> md_ignore_websockets mc) \<and>
     (\<forall>key\<in>set (md_params_by_id mc). key = m \<or> key \<notin> set (model_ids c) \<and> map_of (cf_aliases c) key = Some m)"

lemma model_defaults_simps [simp]:
  "md_aliases (model_defaults c m mc) = md_aliases mc" "md_health_timeout (model_defaults c m mc) = cf_health_timeout c"
  "md_params_by_id (model_defaults c m mc) = md_params_by_id mc" "md_unload_timeout (model_defaults c m mc) = md_unload_timeout mc"
  "md_capacity (model_defaults c m mc) = md_capacity mc" "md_capabilities (model_defaults c m mc) = md_capabilities mc"
  "md_proxy (model_defaults c m mc) = md_proxy mc" "md_send_loading (model_defaults c m mc) = md_send_loading mc"
  by (simp_all add: model_defaults_def Let_def)

lemma model_defaults_comfy:
  "m = comfyui_model_id \<Longrightarrow> comfyui_concurrency_limit \<le> md_concurrency (model_defaults c m mc) \<and> md_ignore_websockets (model_defaults c m mc)"
  by (simp add: model_defaults_def Let_def)

lemma load_model_step:
  assumes "load_model ho m c = Inr c'" and "map_of (cf_models c) m = Some mc0" and "aliases_ok c" and "globals_ok ho c"
    and "distinct (model_ids c)"
  obtains al mc where "c' = c\<lparr>cf_aliases := al, cf_models := AList.update m mc (cf_models c)\<rparr>" "aliases_ok c'"
    "model_ok ho c' m mc" "\<And>a k. map_of (cf_aliases c) a = Some k \<Longrightarrow> map_of al a = Some k" "model_ids c' = model_ids c"
    "md_capacity mc = md_capacity mc0"
proof -
  let ?d = "model_defaults c m mc0"
  let ?d2 = "?d\<lparr>md_unload_timeout := (if md_unload_timeout mc0 = 0 then cf_unload_timeout c else md_unload_timeout mc0)\<rparr>"
  obtain al own where l: "\<not> md_ttl ?d < 0" "\<not> md_unload_timeout mc0 < 0" "validate_capabilities (md_capabilities mc0)"
    "validate_model_capacity m (md_capacity mc0) = Inr ()"
    "foldE (register_param (model_ids c) m) (md_params_by_id mc0) (cf_aliases c, md_aliases mc0) = Inr (al, own)"
    "ho_parse_url ho (md_proxy mc0) \<noteq> None"
    "c' = c\<lparr>cf_aliases := al, cf_models := AList.update m (?d2\<lparr>md_aliases := own,
       md_send_loading := (case md_send_loading mc0 of None \<Rightarrow> Some (cf_send_loading c) | Some b \<Rightarrow> Some b)\<rparr>) (cf_models c)\<rparr>"
  proof -
    obtain al own u where p: "foldE (register_param (model_ids c) m) (md_params_by_id ?d2) (cf_aliases c, md_aliases ?d2) = Inr (al, own)"
      and r: "\<not> md_ttl ?d < 0" "\<not> md_unload_timeout mc0 < 0" "validate_capabilities (md_capabilities ?d2)"
        "validate_model_capacity m (md_capacity ?d2) = Inr u" "ho_parse_url ho (md_proxy ?d2) \<noteq> None"
      and c': "c\<lparr>cf_aliases := al, cf_models := AList.update m (?d2\<lparr>md_aliases := own,
         md_send_loading := (case md_send_loading ?d2 of None \<Rightarrow> Some (cf_send_loading c) | Some b \<Rightarrow> Some b)\<rparr>) (cf_models c)\<rparr> = c'"
      using assms(1) unfolding load_model_def assms(2) option.case Let_def bindE_eq_Inr_iff guard_ok wrapE_ok
        split_paired_Ex prod.case model_defaults_simps sum.inject
      by (elim exE conjE) (rule that)
    show ?thesis by (rule that [of al own]) (use p r c' [symmetric] in simp_all)
  qed
  let ?mc = "?d2\<lparr>md_aliases := own,
       md_send_loading := (case md_send_loading mc0 of None \<Rightarrow> Some (cf_send_loading c) | Some b \<Rightarrow> Some b)\<rparr>"
  have own0: "map_of (cf_aliases c) a = Some m \<longleftrightarrow> a \<in> set (md_aliases mc0)" for a
    using assms(2,3) by (simp add: aliases_ok_def)
  have reg: "map_of al a = Some k \<longleftrightarrow> (if k = m then a \<in> set own else map_of (cf_aliases c) a = Some k)" for a k
    using register_params [OF l(5) own0] by blast
  have own: "set (md_aliases mc0) \<subseteq> set own" "\<forall>key\<in>set (md_params_by_id mc0). key = m \<or> key \<notin> set (model_ids c) \<and> key \<in> set own"
    using register_params [OF l(5) own0] by blast+
  have ids: "model_ids c' = model_ids c"
    using assms(2) by (simp add: l(7) model_ids_def update_keys map_of_eq_None_iff) (metis map_of_SomeD fst_conv image_eqI)
  have "aliases_ok c'"
    using assms(3) unfolding aliases_ok_def by (auto simp: l(7) reg)
  moreover have "model_ok ho c' m ?mc"
    unfolding model_ok_def
  proof (intro conjI)
    show "md_health_timeout ?mc = cf_health_timeout c'" by (simp add: l(7))
    show "0 < md_unload_timeout ?mc" using l(2) assms(4) by (simp add: globals_ok_def)
    show "m = comfyui_model_id \<longrightarrow> comfyui_concurrency_limit \<le> md_concurrency ?mc \<and> md_ignore_websockets ?mc"
      using model_defaults_comfy [of m c mc0] by simp
    show "md_send_loading ?mc \<noteq> None" by (simp split: option.split)
    have "map_of (cf_aliases c') key = Some m \<longleftrightarrow> key \<in> set own" for key by (simp add: l(7) reg)
    with own(2) ids show "\<forall>key\<in>set (md_params_by_id ?mc). key = m \<or> key \<notin> set (model_ids c') \<and> map_of (cf_aliases c') key = Some m"
      by simp
  qed (use l in simp_all)
  moreover have "map_of (cf_aliases c) a = Some k \<Longrightarrow> map_of al a = Some k" for a k
    using own(1) own0 by (auto simp: reg)
  moreover have "md_capacity ?mc = md_capacity mc0" by simp
  ultimately show ?thesis using l(7) ids by (intro that [of ?mc al]) assumption+
qed

lemma model_ok_mono:
  assumes "model_ok ho c m mc" and "cf_health_timeout c' = cf_health_timeout c" and "model_ids c' = model_ids c"
    and "\<And>a k. map_of (cf_aliases c) a = Some k \<Longrightarrow> map_of (cf_aliases c') a = Some k"
  shows "model_ok ho c' m mc"
  using assms unfolding model_ok_def by metis

lemma map_of_ids: "m \<in> set (model_ids c) \<longleftrightarrow> (\<exists>mc. map_of (cf_models c) m = Some mc)"
proof -
  have "m \<in> set (model_ids c) \<longleftrightarrow> m \<in> dom (map_of (cf_models c))" by (simp add: model_ids_def dom_map_of_conv_image_fst)
  then show ?thesis by (auto simp: dom_def)
qed

lemma load_models_fold:
  assumes "foldE (load_model ho) ms c = Inr c'" and "set ms \<subseteq> set (model_ids c)" and "aliases_ok c" and "globals_ok ho c"
    and "distinct (model_ids c)"
  shows "(\<exists>al md. c' = c\<lparr>cf_aliases := al, cf_models := md\<rparr>) \<and> aliases_ok c' \<and> model_ids c' = model_ids c \<and>
    (\<forall>m\<in>set ms. \<exists>mc. map_of (cf_models c') m = Some mc \<and> model_ok ho c' m mc) \<and>
    (\<forall>a k. map_of (cf_aliases c) a = Some k \<longrightarrow> map_of (cf_aliases c') a = Some k) \<and>
    (\<forall>m. m \<notin> set ms \<longrightarrow> map_of (cf_models c') m = map_of (cf_models c) m)"
  using assms
proof (induction ms arbitrary: c)
  case Nil
  then have "c' = c" by simp
  moreover have "\<exists>al md. c = c\<lparr>cf_aliases := al, cf_models := md\<rparr>"
    by (rule exI [of _ "cf_aliases c"], rule exI [of _ "cf_models c"]) simp
  ultimately show ?case using Nil.prems(3) by simp
next
  case (Cons m ms)
  obtain c1 where c1: "load_model ho m c = Inr c1" "foldE (load_model ho) ms c1 = Inr c'"
    using Cons.prems(1) by (auto simp: bindE_simps)
  obtain mc0 where mc0: "map_of (cf_models c) m = Some mc0" using Cons.prems(2) by (auto simp: map_of_ids)
  obtain al mc where s: "c1 = c\<lparr>cf_aliases := al, cf_models := AList.update m mc (cf_models c)\<rparr>" "aliases_ok c1"
    "model_ok ho c1 m mc" "\<And>a k. map_of (cf_aliases c) a = Some k \<Longrightarrow> map_of al a = Some k" "model_ids c1 = model_ids c"
    by (rule load_model_step [OF c1(1) mc0 Cons.prems(3-5)]) (rule that)
  have "globals_ok ho c1" using Cons.prems(4) by (simp add: s(1) globals_ok_def)
  note IH = Cons.IH [OF c1(2) _ s(2) this, unfolded s(5), OF _ Cons.prems(5)]
  have sub: "set ms \<subseteq> set (model_ids c)" using Cons.prems(2) by simp
  from IH [OF sub] obtain al' md' where c': "c' = c1\<lparr>cf_aliases := al', cf_models := md'\<rparr>" by blast
  have health: "cf_health_timeout c' = cf_health_timeout c1" by (simp add: c')
  have ids: "model_ids c' = model_ids c1" using IH [OF sub] s(5) by simp
  have "\<exists>mc. map_of (cf_models c') m = Some mc \<and> model_ok ho c' m mc"
  proof (cases "m \<in> set ms")
    case True
    with IH [OF sub] show ?thesis by blast
  next
    case False
    then have "map_of (cf_models c') m = Some mc" using IH [OF sub] by (simp add: s(1))
    moreover have "model_ok ho c' m mc" by (rule model_ok_mono [OF s(3) health ids]) (use IH [OF sub] in blast)
    ultimately show ?thesis by blast
  qed
  moreover have "c' = c\<lparr>cf_aliases := al', cf_models := md'\<rparr>" by (simp add: c' s(1))
  moreover have "map_of (cf_aliases c) a = Some k \<Longrightarrow> map_of (cf_aliases c') a = Some k" for a k
    using IH [OF sub] s(4) by (simp add: s(1))
  moreover have "k \<notin> set (m # ms) \<Longrightarrow> map_of (cf_models c') k = map_of (cf_models c) k" for k
    using IH [OF sub] by (simp add: s(1))
  ultimately show ?case using IH [OF sub] s(5) by (auto simp del: config.update_convs)
qed

lemma load_models_ok:
  assumes "load_models ho c = Inr c'" and "globals_ok ho c" and "distinct (model_ids c)"
  shows "(\<exists>al md. c' = c\<lparr>cf_aliases := al, cf_models := md\<rparr>)" and "aliases_ok c'" and "model_ids c' = model_ids c"
    and "map_of (cf_models c') m = Some mc \<Longrightarrow> model_ok ho c' m mc"
proof -
  obtain al where al: "explicit_aliases (cf_models c) = Inr al"
    "foldE (load_model ho) (sort (model_ids c)) (c\<lparr>cf_aliases := al\<rparr>) = Inr c'"
    using assms(1) by (auto simp: load_models_def bindE_simps model_ids_def)
  let ?c = "c\<lparr>cf_aliases := al\<rparr>"
  have ids: "model_ids ?c = model_ids c" by (simp add: model_ids_def)
  have "aliases_ok ?c"
    using explicit_aliases_ok [OF al(1)] assms(3) by (simp add: aliases_ok_def model_ids_def)
  moreover have "globals_ok ho ?c" using assms(2) by (simp add: globals_ok_def)
  ultimately have f: "(\<exists>al md. c' = ?c\<lparr>cf_aliases := al, cf_models := md\<rparr>) \<and> aliases_ok c' \<and> model_ids c' = model_ids ?c \<and>
      (\<forall>m\<in>set (sort (model_ids c)). \<exists>mc. map_of (cf_models c') m = Some mc \<and> model_ok ho c' m mc)"
    using load_models_fold [OF al(2)] assms(3) ids by (metis set_sort subset_refl)
  then show "\<exists>al md. c' = c\<lparr>cf_aliases := al, cf_models := md\<rparr>" by auto
  from f show "aliases_ok c'" by blast
  from f ids show ids': "model_ids c' = model_ids c" by simp
  show "model_ok ho c' m mc" if "map_of (cf_models c') m = Some mc"
  proof -
    have "m \<in> set (model_ids c)" using that by (metis ids' map_of_ids)
    with f that show ?thesis by fastforce
  qed
qed

text \<open>The groups as they are written, in whichever of the two places.\<close>

definition written_groups :: "config \<Rightarrow> groups" where
  "written_groups c = group_list (if has_top_level c then cf_groups c else cf_router_groups c)"

definition with_default_group :: "string list \<Rightarrow> groups \<Rightarrow> groups" where
  "with_default_group ids gs = AList.update default_group_id (default_group\<lparr>gc_members := sort
     (if gs = [] then ids else filter (\<lambda>m. \<not> list_ex (\<lambda>(gid, g). m \<in> set (gc_members g)) gs) ids)\<rparr>) gs"

lemma check_member_Inr:
  "check_member gid m (prev, usage) = Inr acc \<longleftrightarrow>
    m \<notin> set prev \<and> map_of usage m = None \<and> acc = (m # prev, AList.update m gid usage)"
  by (auto simp: check_member_def split: option.splits)

lemma check_member_ok:
  "foldE (check_member gid) ms (prev, usage) = Inr (prev', usage') \<Longrightarrow> add_members gid ms usage = Inr usage'"
proof (induction ms arbitrary: prev usage)
  case (Cons m ms)
  then have "map_of usage m = None" "foldE (check_member gid) ms (m # prev, AList.update m gid usage) = Inr (prev', usage')"
    by (auto simp: bindE_simps check_member_Inr)
  with Cons.IH show ?case by simp
qed simp

lemma check_groups_ok: "foldE check_group gs [] = Inr usage \<Longrightarrow> model_to_group gs = Inr usage"
proof -
  have "foldE check_group gs u0 = Inr usage \<Longrightarrow> foldE (\<lambda>(gid, g). add_members gid (gc_members g)) gs u0 = Inr usage" for u0
  proof (induction gs arbitrary: u0)
    case (Cons x gs)
    obtain gid g where x: "x = (gid, g)" by (cases x)
    from Cons.prems obtain u1 where u1: "check_group x u0 = Inr u1" "foldE check_group gs u1 = Inr usage"
      by (auto simp: bindE_simps)
    then have "add_members gid (gc_members g) u0 = Inr u1"
      by (auto simp: check_group_def x bindE_simps dest: check_member_ok)
    with Cons.IH [OF u1(2)] show ?case by (simp add: x)
  qed simp
  then show "foldE check_group gs [] = Inr usage \<Longrightarrow> model_to_group gs = Inr usage" by (simp add: model_to_group_def)
qed

text \<open>The configuration without what the stage of the router may change.\<close>

definition sans_router :: "config \<Rightarrow> config" where
  "sans_router c = c\<lparr>cf_groups := None, cf_matrix := None, cf_program := None, cf_router_use := [], cf_router_groups := None,
     cf_router_matrix := None\<rparr>"

lemma sans_router_fields:
  assumes "sans_router c = sans_router c0"
  shows "cf_models c = cf_models c0" "cf_aliases c = cf_aliases c0" "cf_router_capacity c = cf_router_capacity c0"
    "cf_priority c = cf_priority c0" "cf_peers c = cf_peers c0" "cf_selectors c = cf_selectors c0" "cf_profiles c = cf_profiles c0"
    "cf_api_keys c = cf_api_keys c0" "globals_ok ho c \<longleftrightarrow> globals_ok ho c0" "cf_health_timeout c = cf_health_timeout c0"
proof -
  note eq = arg_cong [OF assms]
  show "cf_models c = cf_models c0" using eq [of cf_models] by (simp add: sans_router_def)
  show "cf_aliases c = cf_aliases c0" using eq [of cf_aliases] by (simp add: sans_router_def)
  show "cf_router_capacity c = cf_router_capacity c0" using eq [of cf_router_capacity] by (simp add: sans_router_def)
  show "cf_priority c = cf_priority c0" using eq [of cf_priority] by (simp add: sans_router_def)
  show "cf_peers c = cf_peers c0" using eq [of cf_peers] by (simp add: sans_router_def)
  show "cf_selectors c = cf_selectors c0" using eq [of cf_selectors] by (simp add: sans_router_def)
  show "cf_profiles c = cf_profiles c0" using eq [of cf_profiles] by (simp add: sans_router_def)
  show "cf_api_keys c = cf_api_keys c0" using eq [of cf_api_keys] by (simp add: sans_router_def)
  show "cf_health_timeout c = cf_health_timeout c0" using eq [of cf_health_timeout] by (simp add: sans_router_def)
  show "globals_ok ho c \<longleftrightarrow> globals_ok ho c0" using eq [of "globals_ok ho"] by (simp add: sans_router_def globals_ok_def)
qed

lemma choose_router_ok:
  assumes "choose_router c0 = Inr c1"
  shows "sans_router c1 = sans_router c0" and "cf_program c1 = cf_program c0" and "cf_router_use c1 = cf_router_use c0"
    and "cf_matrix c1 = None \<Longrightarrow> cf_router_use c0 \<noteq> ''capacity'' \<Longrightarrow> group_list (cf_groups c1) = written_groups c0"
    and "cf_matrix c1 = None \<Longrightarrow> \<not> has_top_level c0 \<Longrightarrow> cf_router_use c0 = ''capacity'' \<Longrightarrow>
       validate_capacity (cf_router_capacity c0) (capacities_of c0) = Inr ()"
proof -
  consider (top) "has_top_level c0" "c1 = c0"
    | (cap) "\<not> has_top_level c0" "cf_router_use c0 = ''capacity''" "c1 = c0"
        "validate_capacity (cf_router_capacity c0) (capacities_of c0) = Inr ()"
    | (mx) mx where "\<not> has_top_level c0" "cf_router_use c0 = ''matrix''" "c1 = c0\<lparr>cf_matrix := Some mx\<rparr>"
    | (grp) "\<not> has_top_level c0" "cf_router_use c0 \<noteq> ''capacity''" "c1 = c0\<lparr>cf_groups := cf_router_groups c0\<rparr>"
  proof (cases "has_top_level c0")
    case True
    with assms have "c1 = c0" by (simp add: choose_router_def)
    with True show ?thesis by (rule top)
  next
    case top: False
    show ?thesis
    proof (cases "cf_router_use c0 = ''capacity''")
      case True
      with assms top have "c1 = c0" "validate_capacity (cf_router_capacity c0) (capacities_of c0) = Inr ()"
        by (auto simp: choose_router_def bindE_eq_Inr_iff)
      with top True show ?thesis by (rule cap)
    next
      case no_cap: False
      show ?thesis
      proof (cases "cf_router_use c0 = ''matrix''")
        case True
        with assms top obtain m where "c1 = c0\<lparr>cf_matrix := Some m\<rparr>"
          by (auto simp: choose_router_def split: option.splits)
        with top True show ?thesis by (rule mx)
      next
        case False
        with assms top no_cap have "c1 = c0\<lparr>cf_groups := cf_router_groups c0\<rparr>"
          by (simp add: choose_router_def split: if_splits)
        with top no_cap show ?thesis by (rule grp)
      qed
    qed
  qed
  then have "sans_router c1 = sans_router c0 \<and> cf_program c1 = cf_program c0 \<and> cf_router_use c1 = cf_router_use c0 \<and>
    (cf_matrix c1 = None \<longrightarrow> cf_router_use c0 \<noteq> ''capacity'' \<longrightarrow> group_list (cf_groups c1) = written_groups c0) \<and>
    (cf_matrix c1 = None \<longrightarrow> \<not> has_top_level c0 \<longrightarrow> cf_router_use c0 = ''capacity'' \<longrightarrow>
       validate_capacity (cf_router_capacity c0) (capacities_of c0) = Inr ())"
    by cases (simp_all add: sans_router_def written_groups_def)
  then show "sans_router c1 = sans_router c0" "cf_program c1 = cf_program c0" "cf_router_use c1 = cf_router_use c0"
    "cf_matrix c1 = None \<Longrightarrow> cf_router_use c0 \<noteq> ''capacity'' \<Longrightarrow> group_list (cf_groups c1) = written_groups c0"
    "cf_matrix c1 = None \<Longrightarrow> \<not> has_top_level c0 \<Longrightarrow> cf_router_use c0 = ''capacity'' \<Longrightarrow>
       validate_capacity (cf_router_capacity c0) (capacities_of c0) = Inr ()"
    by blast+
qed

text \<open>What the routing of a loaded configuration looks like, in each of the three cases.\<close>

definition routing_ok :: "config \<Rightarrow> groups \<Rightarrow> bool" where
  "routing_ok c written \<longleftrightarrow>
     (cf_router_use c = ''matrix'' \<and>
        (\<exists>mx p. cf_router_matrix c = Some mx \<and> cf_program c = Some p \<and> validate_matrix mx (model_ids c) = Inr p)) \<or>
     (cf_router_use c = ''capacity'' \<and> validate_capacity (cf_router_capacity c) (capacities_of c) = Inr ()) \<or>
     (cf_router_use c = ''group'' \<and> cf_router_groups c = Some (with_default_group (model_ids c) written) \<and>
        (\<exists>tab. model_to_group (with_default_group (model_ids c) written) = Inr tab))"

lemma add_default_group_alt:
  "add_default_group c = c\<lparr>cf_groups := Some (with_default_group (model_ids c) (group_list (cf_groups c)))\<rparr>"
  by (simp add: add_default_group_def with_default_group_def Let_def)

lemma load_routing_ok:
  assumes "load_routing c0 = Inr c"
  shows "sans_router c = sans_router c0 \<and> routing_ok c (written_groups c0)"
proof -
  obtain c1 c3 where c1: "\<not> (has_top_level c0 \<and> has_routing c0)" "choose_router c0 = Inr c1"
    and c3: "check_router (cf_router_use c0) c1 = Inr c3" and c: "canonical_router (cf_router_use c0) c3 = c"
    using assms by (auto simp: load_routing_def bindE_eq_Inr_iff)
  note ch = choose_router_ok [OF c1(2)]
  note same = sans_router_fields [OF ch(1)]
  show ?thesis
  proof (cases "cf_matrix c1")
    case (Some mx)
    then obtain p where p: "validate_matrix mx (model_ids c1) = Inr p" "c3 = c1\<lparr>cf_program := Some p\<rparr>"
      using c3 by (auto simp: check_router_def bindE_eq_Inr_iff)
    have cc: "c = c3\<lparr>cf_router_use := ''matrix'', cf_router_matrix := cf_matrix c3, cf_router_groups := cf_groups c3\<rparr>"
      using c Some by (simp add: canonical_router_def p(2))
    have "sans_router c = sans_router c1" by (simp add: cc p(2) sans_router_def)
    moreover have "routing_ok c (written_groups c0)"
      using p Some by (simp add: routing_ok_def cc model_ids_def)
    ultimately show ?thesis using ch(1) by simp
  next
    case None
    show ?thesis
    proof (cases "cf_router_use c0 = ''capacity''")
      case True
      then have "c3 = c1" using c3 None by (simp add: check_router_def)
      then have cc: "c = c1\<lparr>cf_router_use := cf_router_use c1, cf_router_matrix := cf_matrix c1, cf_router_groups := cf_groups c1\<rparr>"
        using c None True by (simp add: canonical_router_def)
      have "\<not> has_top_level c0" using c1(1) True by (simp add: has_routing_def)
      then have "validate_capacity (cf_router_capacity c0) (capacities_of c0) = Inr ()" using ch(5) None True by blast
      moreover have "cf_router_use c = ''capacity''" using ch(3) True by (simp add: cc)
      moreover have s: "sans_router c = sans_router c1" by (simp add: cc sans_router_def)
      ultimately have "routing_ok c (written_groups c0)"
        using sans_router_fields(1,3) [OF s] same by (simp add: routing_ok_def capacities_of_def)
      with s ch(1) show ?thesis by simp
    next
      case False
      then have c3': "c3 = add_default_group c1" "\<exists>u. foldE check_group (group_list (cf_groups (add_default_group c1))) [] = Inr u"
        using c3 None by (auto simp: check_router_def bindE_eq_Inr_iff)
      then obtain u where u: "foldE check_group (with_default_group (model_ids c1) (group_list (cf_groups c1))) [] = Inr u"
        by (auto simp: add_default_group_alt group_list_def)
      have cc: "c = c1\<lparr>cf_groups := Some (with_default_group (model_ids c1) (group_list (cf_groups c1))), cf_router_use := ''group'',
         cf_router_matrix := None, cf_router_groups := Some (with_default_group (model_ids c1) (group_list (cf_groups c1)))\<rparr>"
        using c None False by (simp add: canonical_router_def c3'(1) add_default_group_alt)
      have w: "group_list (cf_groups c1) = written_groups c0" using ch(4) None False by blast
      have s: "sans_router c = sans_router c1" by (simp add: cc sans_router_def)
      have ids: "model_ids c = model_ids c1" by (simp add: cc model_ids_def)
      have "routing_ok c (written_groups c0)"
        using check_groups_ok [OF u] w ids by (simp add: routing_ok_def cc)
      with s ch(1) show ?thesis by simp
    qed
  qed
qed

section \<open>What has been loaded\<close>

text \<open>Everything the configuration refers to exists.\<close>

definition references_ok :: "config \<Rightarrow> bool" where
  "references_ok c \<longleftrightarrow>
     cf_scheduler_use c = ''fifo'' \<and>
     (\<forall>m\<in>fst ` set (cf_priority c). real_model_name (names_of c) m \<noteq> None) \<and>
     set (cf_preload c) \<subseteq> set (model_ids c) \<and>
     (\<forall>key\<in>set (cf_api_keys c). key \<noteq> [] \<and> \<not> contains key '' '') \<and>
     validate_peer_namespace (names_of c) = Inr () \<and>
     validate_selectors (names_of c) (cf_selectors c) (settings_of c) = Inr () \<and>
     (\<forall>(p, pins)\<in>set (cf_profiles c). pins \<noteq> [] \<and> (\<forall>(pin, t)\<in>set pins. t = [] \<or>
        resolve_base_model (names_of c) t \<noteq> None \<or> t \<in> fst ` set (cf_selectors c))) \<and>
     (cf_startup_profile c \<noteq> [] \<longrightarrow> cf_startup_profile c \<in> fst ` set (cf_profiles c)) \<and>
     (\<forall>tc. cf_tailcat c = Some tc \<longrightarrow> distinct (tc_models tc) \<and>
        set (tc_models tc) \<subseteq> insert ''*'' (set (public_tailcat_model_ids c)))"

lemma real_model_name_names:
  "real_model_name (names_of c) m = (if m \<in> set (model_ids c) then Some m else map_of (cf_aliases c) m)"
proof -
  have al: "map_of (map (\<lambda>(m, mc). (m, md_aliases mc)) al) m = map_option md_aliases (map_of al m)" for al
    by (induction al) auto
  then have "map_of (na_models (names_of c)) m = map_option md_aliases (map_of (cf_models c) m)" by (simp add: names_of_def)
  then show ?thesis by (cases "map_of (cf_models c) m") (simp_all add: real_model_name_def map_of_ids names_of_def)
qed

lemma real_model_name_id: "aliases_ok c \<Longrightarrow> real_model_name (names_of c) m = Some k \<Longrightarrow> k \<in> set (model_ids c)"
  by (auto simp: real_model_name_names aliases_ok_def map_of_ids split: if_splits)

lemma check_api_keys:
  "foldE check_api_key (enumerate n keys) () = Inr () \<longleftrightarrow> (\<forall>key\<in>set keys. key \<noteq> [] \<and> \<not> contains key '' '')"
proof (induction keys arbitrary: n)
  case (Cons key keys)
  have "check_api_key (n, key) () = Inr () \<longleftrightarrow> key \<noteq> [] \<and> \<not> contains key '' ''" by (simp add: check_api_key_def)
  with Cons.IH [of "Suc n"] show ?case by (auto simp: bindE_eq_Inr_iff)
qed simp

lemma validate_profiles_ok:
  assumes "validate_profiles c = Inr ()"
  shows "(\<forall>(p, pins)\<in>set (cf_profiles c). pins \<noteq> [] \<and> (\<forall>(pin, t)\<in>set pins. t = [] \<or>
        resolve_base_model (names_of c) t \<noteq> None \<or> t \<in> fst ` set (cf_selectors c))) \<and>
     (cf_startup_profile c \<noteq> [] \<longrightarrow> cf_startup_profile c \<in> fst ` set (cf_profiles c))"
proof
  have all: "\<forall>pp\<in>set (cf_profiles c). check_profile c pp () = Inr ()"
    using assms by (auto simp: validate_profiles_def bindE_eq_Inr_iff cors_unit_all)
  show "\<forall>(p, pins)\<in>set (cf_profiles c). pins \<noteq> [] \<and> (\<forall>(pin, t)\<in>set pins. t = [] \<or>
        resolve_base_model (names_of c) t \<noteq> None \<or> t \<in> fst ` set (cf_selectors c))"
  proof (intro ballI, clarify)
    fix p pins assume "(p, pins) \<in> set (cf_profiles c)"
    with all have "check_profile c (p, pins) () = Inr ()" by blast
    then have "pins \<noteq> [] \<and> (\<forall>pt\<in>set pins. check_pin c p pt () = Inr ())"
      by (auto simp: check_profile_def cors_unit_all split: if_splits)
    moreover have "t = [] \<or> resolve_base_model (names_of c) t \<noteq> None \<or> t \<in> fst ` set (cf_selectors c)"
      if "check_pin c p (pin, t) () = Inr ()" for pin t
      using that by (auto simp: check_pin_def split: if_splits dest!: map_of_SomeD) force+
    ultimately show "pins \<noteq> [] \<and> (\<forall>(pin, t)\<in>set pins. t = [] \<or>
        resolve_base_model (names_of c) t \<noteq> None \<or> t \<in> fst ` set (cf_selectors c))" by fast
  qed
  show "cf_startup_profile c \<noteq> [] \<longrightarrow> cf_startup_profile c \<in> fst ` set (cf_profiles c)"
    using assms by (auto simp: validate_profiles_def bindE_eq_Inr_iff map_of_eq_None_iff)
qed

lemma check_exposed_ok:
  "foldE (check_exposed valid) (enumerate n ms) acc = Inr res \<Longrightarrow> distinct acc \<Longrightarrow> set acc \<subseteq> insert ''*'' (set valid) \<Longrightarrow>
   distinct res \<and> set res \<subseteq> insert ''*'' (set valid)"
proof (induction ms arbitrary: n acc)
  case (Cons m ms)
  obtain a where a: "check_exposed valid (n, m) acc = Inr a" "foldE (check_exposed valid) (enumerate (Suc n) ms) a = Inr res"
    using Cons.prems(1) by (auto simp: bindE_eq_Inr_iff)
  then have "distinct a \<and> set a \<subseteq> insert ''*'' (set valid)"
    using Cons.prems by (auto simp: check_exposed_def split: if_splits)
  with Cons.IH [OF a(2)] show ?case by blast
qed simp

lemma validate_tailcat_ok:
  assumes "validate_tailcat ho c = Inr c'"
  shows "c'\<lparr>cf_tailcat := None\<rparr> = c\<lparr>cf_tailcat := None\<rparr>"
    and "cf_tailcat c' = Some tc \<Longrightarrow> distinct (tc_models tc) \<and> set (tc_models tc) \<subseteq> insert ''*'' (set (public_tailcat_model_ids c))"
proof -
  have "c'\<lparr>cf_tailcat := None\<rparr> = c\<lparr>cf_tailcat := None\<rparr> \<and>
    (\<forall>tc. cf_tailcat c' = Some tc \<longrightarrow> distinct (tc_models tc) \<and> set (tc_models tc) \<subseteq> insert ''*'' (set (public_tailcat_model_ids c)))"
  proof (cases "cf_tailcat c")
    case None
    with assms have "c' = c" by (auto simp: validate_tailcat_def bindE_eq_Inr_iff)
    with None show ?thesis by simp
  next
    case (Some t)
    then obtain allowed models where
      m: "foldE (check_exposed (public_tailcat_model_ids c)) (enumerate 0 (tc_models t)) [] = Inr models"
        "c' = c\<lparr>cf_tailcat := Some (t\<lparr>tc_allow := allowed, tc_models := models\<rparr>)\<rparr>"
      using assms by (auto simp: validate_tailcat_def bindE_eq_Inr_iff)
    have "distinct models \<and> set models \<subseteq> insert ''*'' (set (public_tailcat_model_ids c))"
      by (rule check_exposed_ok [OF m(1)]) simp_all
    then show ?thesis by (simp add: m(2))
  qed
  then show "c'\<lparr>cf_tailcat := None\<rparr> = c\<lparr>cf_tailcat := None\<rparr>"
    "cf_tailcat c' = Some tc \<Longrightarrow> distinct (tc_models tc) \<and> set (tc_models tc) \<subseteq> insert ''*'' (set (public_tailcat_model_ids c))"
    by blast+
qed

end
