(* ===== verification/LoadedConfig.thy ===== *)
theory LoadedConfig
  imports ConfigLoad
begin

text \<open>
  What a configuration that \<open>LoadConfigFromReader\<close> returns is like: the stages of \<open>ConfigLoad\<close> put together.
\<close>

lemma load_preload_ok:
  assumes "aliases_ok c"
  shows "(load_preload c)\<lparr>cf_preload := []\<rparr> = c\<lparr>cf_preload := []\<rparr>"
    and "set (cf_preload (load_preload c)) \<subseteq> set (model_ids c)"
proof -
  show "(load_preload c)\<lparr>cf_preload := []\<rparr> = c\<lparr>cf_preload := []\<rparr>" by (simp add: load_preload_def)
  show "set (cf_preload (load_preload c)) \<subseteq> set (model_ids c)"
    using real_model_name_id [OF assms] by (auto simp: load_preload_def Let_def split: if_splits option.splits)
qed

lemma load_scheduler_ok:
  assumes "load_scheduler c0 = Inr c"
  shows "c = c0\<lparr>cf_scheduler_use := ''fifo''\<rparr>" and "\<forall>m\<in>fst ` set (cf_priority c). real_model_name (names_of c) m \<noteq> None"
proof -
  let ?c = "if cf_scheduler_use c0 = [] then c0\<lparr>cf_scheduler_use := ''fifo''\<rparr> else c0"
  obtain u where c: "cf_scheduler_use ?c = ''fifo''"
    "foldE (\<lambda>(m, prio) u. guard (real_model_name (names_of ?c) m \<noteq> None) (PriorityUnknown m)) (cf_priority ?c) () = Inr u" "?c = c"
    using assms unfolding load_scheduler_def Let_def bindE_eq_Inr_iff guard_ok sum.inject
    by (elim exE conjE) (rule that)
  show "c = c0\<lparr>cf_scheduler_use := ''fifo''\<rparr>"
  proof (cases "cf_scheduler_use c0 = []")
    case False
    with c(1,3) have "c = c0" "cf_scheduler_use c0 = ''fifo''" by simp_all
    then show ?thesis by simp
  qed (use c(3) in simp)
  show "\<forall>m\<in>fst ` set (cf_priority c). real_model_name (names_of c) m \<noteq> None"
    using c(2) unfolding c(3) by (auto simp: cors_unit_all)
qed

text \<open>The last stages touch the scheduler, the preload list and Tailcat only.\<close>

definition late :: "string list \<Rightarrow> tailcat_config option \<Rightarrow> config \<Rightarrow> config" where
  "late p t c = c\<lparr>cf_scheduler_use := ''fifo'', cf_preload := p, cf_tailcat := t\<rparr>"

lemma late_frame [simp]:
  "globals_ok ho (late p t c) = globals_ok ho c" "aliases_ok (late p t c) = aliases_ok c"
  "model_ids (late p t c) = model_ids c" "cf_models (late p t c) = cf_models c"
  "model_ok ho (late p t c) m mc = model_ok ho c m mc" "names_of (late p t c) = names_of c"
  "routing_ok (late p t c) w = routing_ok c w" "settings_of (late p t c) = settings_of c"
  "public_tailcat_model_ids (late p t c) = public_tailcat_model_ids c" "cf_priority (late p t c) = cf_priority c"
  "cf_api_keys (late p t c) = cf_api_keys c" "cf_selectors (late p t c) = cf_selectors c"
  "cf_profiles (late p t c) = cf_profiles c" "cf_startup_profile (late p t c) = cf_startup_profile c"
  "cf_scheduler_use (late p t c) = ''fifo''" "cf_preload (late p t c) = p" "cf_tailcat (late p t c) = t"
  by (simp_all add: late_def globals_ok_def aliases_ok_def model_ids_def model_ok_def names_of_def routing_ok_def
    capacities_of_def settings_of_def public_tailcat_model_ids_def split: option.split)

lemma load_stages:
  assumes "load_config ho c0 = Inr c"
  obtains c1 c2 c3 c4 where "load_globals ho c0 = Inr c1" "load_models ho c1 = Inr c2" "load_routing c2 = Inr c3"
    "load_scheduler c3 = Inr c4" "check_references (load_preload c4) = Inr ()" "validate_tailcat ho (load_preload c4) = Inr c"
proof -
  obtain c1 c2 c3 c4 u where "load_globals ho c0 = Inr c1" "load_models ho c1 = Inr c2" "load_routing c2 = Inr c3"
    "load_scheduler c3 = Inr c4" "check_references (load_preload c4) = Inr u" "validate_tailcat ho (load_preload c4) = Inr c"
    using assms unfolding load_config_def bindE_eq_Inr_iff Let_def by (elim exE conjE) (rule that)
  then show ?thesis by (intro that) simp_all
qed

lemma load_tail:
  assumes "load_scheduler c3 = Inr c4" and "check_references (load_preload c4) = Inr ()"
    and "validate_tailcat ho (load_preload c4) = Inr c" and "aliases_ok c3"
  shows "c = late (cf_preload c) (cf_tailcat c) c3" and "references_ok c"
proof -
  let ?c5 = "load_preload c4"
  note s4 = load_scheduler_ok [OF assms(1)]
  have al4: "aliases_ok c4" using assms(4) by (simp add: s4(1) aliases_ok_def)
  note p5 = load_preload_ok [OF al4] and t = validate_tailcat_ok [OF assms(3)]
  have c5: "?c5 = c4\<lparr>cf_preload := cf_preload ?c5\<rparr>"
    using arg_cong [OF p5(1), of "\<lambda>c. c\<lparr>cf_preload := cf_preload ?c5\<rparr>"] by simp
  have c: "c = ?c5\<lparr>cf_tailcat := cf_tailcat c\<rparr>"
    using arg_cong [OF t(1), of "\<lambda>d. d\<lparr>cf_tailcat := cf_tailcat c\<rparr>"] by simp
  have pre: "cf_preload c = cf_preload ?c5" using arg_cong [OF c, of cf_preload] by simp
  have "c = c3\<lparr>cf_scheduler_use := ''fifo'', cf_preload := cf_preload ?c5, cf_tailcat := cf_tailcat c\<rparr>"
    by (subst c, subst c5, subst s4(1)) simp
  then show l: "c = late (cf_preload c) (cf_tailcat c) c3" by (simp add: late_def pre)
  have l5: "?c5 = late (cf_preload c) (cf_tailcat ?c5) c3"
  proof -
    have "cf_tailcat ?c5 = cf_tailcat c3" using arg_cong [OF c5, of cf_tailcat] by (simp add: s4(1))
    then show ?thesis unfolding late_def pre by (subst c5, subst s4(1)) simp
  qed
  obtain r: "foldE check_api_key (enumerate 0 (cf_api_keys ?c5)) () = Inr ()"
    "validate_peer_namespace (names_of ?c5) = Inr ()"
    "validate_selectors (names_of ?c5) (cf_selectors ?c5) (settings_of ?c5) = Inr ()" "validate_profiles ?c5 = Inr ()"
    using assms(2) by (auto simp: check_references_def bindE_eq_Inr_iff)
  have k: "k c = k c3" "k ?c5 = k c3" if "\<And>p t c. k (late p t c) = k c" for k :: "config \<Rightarrow> 'k"
    using arg_cong [OF l, of k] arg_cong [OF l5, of k] that by simp_all
  have same: "names_of c = names_of ?c5" "cf_selectors c = cf_selectors ?c5" "settings_of c = settings_of ?c5"
    "cf_api_keys c = cf_api_keys ?c5" "cf_profiles c = cf_profiles ?c5" "cf_startup_profile c = cf_startup_profile ?c5"
    "public_tailcat_model_ids c = public_tailcat_model_ids ?c5"
    by (simp_all only: k late_frame)
  have "model_ids c4 = model_ids c3" "cf_priority c4 = cf_priority c3" "names_of c4 = names_of c3"
    by (simp_all add: s4(1) model_ids_def names_of_def)
  then have same4: "model_ids c = model_ids c4" "cf_priority c = cf_priority c4" "names_of c = names_of c4"
    by (simp_all only: k late_frame)
  have use: "cf_scheduler_use c = ''fifo''" using arg_cong [OF l, of cf_scheduler_use] by simp
  note vp = validate_profiles_ok [OF r(4)]
  show "references_ok c"
    unfolding references_ok_def
  proof (intro conjI)
    show "\<forall>m\<in>fst ` set (cf_priority c). real_model_name (names_of c) m \<noteq> None" using s4(2) by (simp only: same4 simp_thms)
    show "set (cf_preload c) \<subseteq> set (model_ids c)" using p5(2) by (simp only: same4 pre)
    show "\<forall>key\<in>set (cf_api_keys c). key \<noteq> [] \<and> \<not> contains key '' ''"
      using r(1) by (simp only: same check_api_keys simp_thms)
    show "\<forall>tc. cf_tailcat c = Some tc \<longrightarrow> distinct (tc_models tc) \<and>
        set (tc_models tc) \<subseteq> insert ''*'' (set (public_tailcat_model_ids c))"
      using t(2) by (simp only: same) blast
  qed (use r(2,3) conjunct1 [OF vp] conjunct2 [OF vp] use in \<open>simp_all only: same simp_thms\<close>)
qed

text \<open>All stages together.\<close>

lemma loaded_config_facts:
  assumes "load_config ho c0 = Inr c" and "distinct (model_ids c0)"
  shows "globals_ok ho c" and "aliases_ok c" and "model_ids c = model_ids c0"
    and "map_of (cf_models c) m = Some mc \<Longrightarrow> model_ok ho c m mc"
    and "routing_ok c (written_groups c0)" and "references_ok c"
proof -
  obtain c1 c2 c3 c4 where st: "load_globals ho c0 = Inr c1" "load_models ho c1 = Inr c2" "load_routing c2 = Inr c3"
    "load_scheduler c3 = Inr c4" "check_references (load_preload c4) = Inr ()" "validate_tailcat ho (load_preload c4) = Inr c"
    by (rule load_stages [OF assms(1)])
  obtain h e u s i where c1: "globals_ok ho c1" "c1 = c0\<lparr>cf_health_timeout := h, cf_every := e, cf_unload_timeout := u,
    cf_session_headers := s, cf_ignore_paths := i\<rparr>" using load_globals_ok [OF st(1)] by blast
  have ids1: "model_ids c1 = model_ids c0" by (simp add: c1(2) model_ids_def)
  have d: "distinct (model_ids c1)" using assms(2) ids1 by simp
  note m = load_models_ok [OF st(2) c1(1) d]
  then obtain al md where c2: "c2 = c1\<lparr>cf_aliases := al, cf_models := md\<rparr>" by blast
  have w: "written_groups c2 = written_groups c0" by (simp add: written_groups_def has_top_level_def c2 c1(2))
  note r = load_routing_ok [OF st(3), unfolded w]
  note f = sans_router_fields [OF conjunct1 [OF r]]
  have ids3: "model_ids c3 = model_ids c2" using f(1) by (simp add: model_ids_def)
  have al3: "aliases_ok c3" using m(2) f(1,2) by (simp add: aliases_ok_def)
  have g3: "globals_ok ho c3" using c1(1) f(9) [of ho] by (simp add: c2 globals_ok_def)
  have m3: "model_ok ho c3 k mc" if "map_of (cf_models c3) k = Some mc" for k mc
    using m(4) [of k mc] that f(1,2,10) ids3 by (simp add: model_ok_def)
  note t = load_tail [OF st(4-6) al3]
  have fr: "globals_ok ho c" "aliases_ok c" "model_ids c = model_ids c0" "cf_models c = cf_models c3"
    "routing_ok c (written_groups c0)"
    by (subst t(1), use g3 al3 ids3 m(3) ids1 r in simp)+
  then show "globals_ok ho c" "aliases_ok c" "model_ids c = model_ids c0" "routing_ok c (written_groups c0)" by blast+
  show "model_ok ho c m mc" if "map_of (cf_models c) m = Some mc"
    by (subst t(1), use m3 [of m mc] that fr(4) in simp)
  show "references_ok c" by (rule t(2))
qed

text \<open>
  C9. What a configuration that loads is like. Ranges hold and defaults are in place; every model has a time to live, a
  positive stop timeout and its loading state set, and what it lists under \<open>setParamsByID\<close> is its own alias; an
  alias names exactly the one model that lists it; the router is one of the three with its settings validated and, for groups, every model
  not listed elsewhere in the default group; the models named in
  priorities, preloads, profiles, selectors and the exposure to Tailcat exist, and no API key is empty or has a space. The members of groups are not among what is checked:
  a member may name no model (\<open>unknown_member_loads\<close> below).
\<close>
theorem loaded_config:
  assumes "load_config ho c0 = Inr c" and "distinct (model_ids c0)"
  shows "globals_ok ho c \<and> aliases_ok c \<and> model_ids c = model_ids c0 \<and>
    (\<forall>m mc. map_of (cf_models c) m = Some mc \<longrightarrow> model_ok ho c m mc) \<and>
    routing_ok c (written_groups c0) \<and> references_ok c"
  using loaded_config_facts [OF assms] by blast

text \<open>Two models that fill the memory of a pool together.\<close>

definition demo_model :: "int \<Rightarrow> int \<Rightarrow> model_config" where
  "demo_model mem cost =
     \<lparr>md_proxy = ''http://a'', md_aliases = [], md_ttl = - 1, md_unload_timeout = 0, md_health_timeout = 0, md_concurrency = 0,
      md_params_by_id = [], md_send_loading = None, md_ignore_websockets = False,
      md_capabilities = \<lparr>ca_in = [''text''], ca_out = [], ca_tools = False, ca_reranker = False, ca_embeddings = False,
        ca_context = 0, ca_voices = [], ca_disable_auto = False\<rparr>,
      md_capacity = \<lparr>mc_capacities = [(''v'', mem)], mc_evict_cost = cost\<rparr>\<rparr>"

definition demo_config :: config where
  "demo_config = empty_config
     \<lparr>cf_models := [(''a'', (demo_model 5 5)\<lparr>md_aliases := [''x''], md_params_by_id := [''a:fast'']\<rparr>), (''b'', demo_model 3 0)],
      cf_router_use := ''capacity'', cf_router_capacity := Some [(''v'', 8)], cf_preload := ['' x '', ''gone''],
      cf_api_keys := [''secret'']\<rparr>"

definition demo_host :: host where
  "demo_host = \<lparr>ho_parse_url = (\<lambda>u. Some \<lparr>ur_scheme = ''http'', ur_host = drop 7 u, ur_path = [], ur_query = [],
       ur_fragment = [], ur_user = False\<rparr>),
     ho_stat = (\<lambda>p. NoSuchFile), ho_writable = (\<lambda>p. True), ho_dir_writable = (\<lambda>p. True), ho_node_public = Some,
     ho_destination = Some\<rparr>"

lemma demo_config_loads:
  "case load_config demo_host demo_config of
     Inr c \<Rightarrow> cf_preload c = [''a''] \<and> map_of (cf_aliases c) ''a:fast'' = Some ''a'' \<and> cf_router_matrix c = None | Inl e \<Rightarrow> False"
  "distinct (model_ids demo_config)"
  by code_simp+

theorem loaded_config_witness:
  "\<exists>c. load_config demo_host demo_config = Inr c \<and> map_of (cf_aliases c) ''a:fast'' = Some ''a'' \<and>
     (\<exists>mc. map_of (cf_models c) ''a'' = Some mc \<and> ''a:fast'' \<in> set (md_aliases mc)) \<and> set (cf_preload c) \<subseteq> {''a'', ''b''}"
proof -
  obtain c where c: "load_config demo_host demo_config = Inr c" "map_of (cf_aliases c) ''a:fast'' = Some ''a''"
    using demo_config_loads(1) by (auto split: sum.splits)
  have "model_ids demo_config = [''a'', ''b'']" by code_simp
  with loaded_config [OF c(1) demo_config_loads(2)] c show ?thesis by (auto simp: aliases_ok_def references_ok_def)
qed

text \<open>Of the names in a configuration, those of group members alone are not looked up when it is loaded.\<close>

lemma unknown_member_loads:
  "case load_config demo_host (empty_config\<lparr>cf_models := [(''a'', demo_model 5 5)],
       cf_groups := Some [(''g'', zero_group\<lparr>gc_members := [''gone'']\<rparr>)]\<rparr>) of
     Inr c \<Rightarrow> model_ids c = [''a''] \<and> map_of (cf_aliases c) ''gone'' = None \<and>
       map_option (map_option gc_members \<circ> (\<lambda>gs. map_of gs ''g'')) (cf_router_groups c) = Some (Some [''gone''])
   | Inl e \<Rightarrow> False"
  by code_simp

end
