(* ===== verification/RouterBuild.thy ===== *)
theory RouterBuild
  imports LoadedConfig
begin

text \<open>
  The local router of a configuration, as \<open>server.New\<close> builds it (\<open>internal/server/server.go\<close>,
  \<open>NewGroup\<close>, \<open>NewMatrix\<close>, \<open>NewCapacity\<close> and \<open>newBaseRouter\<close> of \<open>internal/router\<close>,
  \<open>scheduler.New\<close>): the eviction policy, the models that get a process, and the scheduler over them. Put together with
  loading and with the run of a router, this says what a configuration promises of the models that are up.
\<close>

section \<open>Building\<close>

datatype build_error =
    NoScheduler string
  | GroupTwice string string string
  | NoModelConfig string
  | NoMatrix
  | CompileMatrix matrix_error
  | InvalidCapacity cap_error

record local_router =
  lr_policy :: policy
  lr_processes :: "string list"
  lr_fifo :: fifo_config

text \<open>\<open>scheduler.New\<close>, the only part of \<open>newBaseRouter\<close> that can fail.\<close>

definition new_base_router :: "config \<Rightarrow> policy \<Rightarrow> build_error + fifo_config" where
  "new_base_router c pol =
     (let use = (if cf_scheduler_use c = [] then ''fifo'' else cf_scheduler_use c) in
      if use = ''fifo'' then
        Inr (router_config pol (map (\<lambda>(m, mc). (m, md_concurrency mc)) (cf_models c)) (cf_priority c))
      else Inl (NoScheduler use))"

text \<open>\<open>FindConfig\<close>: the model behind a name, by alias too.\<close>

definition find_config :: "config \<Rightarrow> string \<Rightarrow> (model_config option \<times> string) option" where
  "find_config c m =
     (case real_model_name (names_of c) m of None \<Rightarrow> None | Some found \<Rightarrow> Some (map_of (cf_models c) found, found))"

definition new_group_router :: "config \<Rightarrow> build_error + local_router" where
  "new_group_router c =
     (let gs = group_list (cf_router_groups c) in
      case model_to_group gs of
        Inl (ModelInGroups m existing gid) \<Rightarrow> Inl (GroupTwice m existing gid)
      | Inr table \<Rightarrow>
          (let pol = GroupPolicy \<lparr>gs_groups = gs, gs_table = table\<rparr> in
           bindE (new_base_router c pol) (\<lambda>f.
             case find (\<lambda>m. find_config c m = None) (map fst table) of
               Some m \<Rightarrow> Inl (NoModelConfig m)
             | None \<Rightarrow> Inr \<lparr>lr_policy = pol, lr_processes = map fst table, lr_fifo = f\<rparr>)))"

definition new_matrix_router :: "config \<Rightarrow> build_error + local_router" where
  "new_matrix_router c =
     (case cf_router_matrix c of
        None \<Rightarrow> Inl NoMatrix
      | Some mx \<Rightarrow>
          bindE (case cf_program c of
                   Some p \<Rightarrow> Inr p
                 | None \<Rightarrow> (case validate_matrix mx (model_ids c) of Inl e \<Rightarrow> Inl (CompileMatrix e) | Inr p \<Rightarrow> Inr p)) (\<lambda>p.
            let pol = MatrixPolicy p (resolved_evict_costs mx) in
            bindE (new_base_router c pol) (\<lambda>f.
              Inr \<lparr>lr_policy = pol, lr_processes = model_ids c, lr_fifo = f\<rparr>)))"

definition new_capacity_router :: "config \<Rightarrow> build_error + local_router" where
  "new_capacity_router c =
     (case validate_capacity (cf_router_capacity c) (capacities_of c) of
        Inl e \<Rightarrow> Inl (InvalidCapacity e)
      | Inr u \<Rightarrow>
          (let pol = CapacityPolicy (case cf_router_capacity c of None \<Rightarrow> [] | Some ps \<Rightarrow> ps) (capacities_of c) 0 in
           bindE (new_base_router c pol) (\<lambda>f.
             Inr \<lparr>lr_policy = pol, lr_processes = model_ids c, lr_fifo = f\<rparr>)))"

definition new_local_router :: "config \<Rightarrow> build_error + local_router" where
  "new_local_router c =
     (if cf_router_use c = ''capacity'' then new_capacity_router c
      else if cf_router_use c = ''matrix'' then new_matrix_router c
      else new_group_router c)"

definition handles :: "local_router \<Rightarrow> string \<Rightarrow> bool" where
  "handles lr m = (m \<in> set (lr_processes lr))"

section \<open>The router of a loaded configuration\<close>

lemma new_base_router_fifo:
  "cf_scheduler_use c = ''fifo'' \<Longrightarrow>
   new_base_router c pol = Inr (router_config pol (map (\<lambda>(m, mc). (m, md_concurrency mc)) (cf_models c)) (cf_priority c))"
  by (simp add: new_base_router_def)

text \<open>The table has the members of the groups; a model outside every group as written goes to the default group.\<close>

lemma model_to_group_table:
  "model_to_group gs = Inr tab \<Longrightarrow> (\<exists>gid. map_of tab m = Some gid) \<longleftrightarrow> (\<exists>(gid, g)\<in>set gs. m \<in> set (gc_members g))"
  using model_to_group_ok [of gs tab] by fastforce

lemma grouped_models:
  assumes "m \<in> set ids" and "default_group_id \<notin> fst ` set gs"
  shows "\<exists>(gid, g)\<in>set (with_default_group ids gs). m \<in> set (gc_members g)"
proof -
  let ?d = "default_group\<lparr>gc_members := sort (if gs = [] then ids
     else filter (\<lambda>m. \<not> list_ex (\<lambda>(gid, g). m \<in> set (gc_members g)) gs) ids)\<rparr>"
  have w: "with_default_group ids gs = gs @ [(default_group_id, ?d)]"
  proof -
    have "AList.update default_group_id v gs = gs @ [(default_group_id, v)]" for v :: group_config
      using assms(2) by (induction gs) auto
    then show ?thesis by (simp add: with_default_group_def)
  qed
  show ?thesis
  proof (cases "\<exists>(gid, g)\<in>set gs. m \<in> set (gc_members g)")
    case False
    then have "m \<in> set (gc_members ?d)" using assms(1) by (auto simp: list_ex_iff)
    then show ?thesis unfolding w by auto
  qed (auto simp: w)
qed

lemma find_config_None: "find_config c m = None \<longleftrightarrow> real_model_name (names_of c) m = None"
  by (simp add: find_config_def split: option.split)

text \<open>
  What a configuration's author has to see to for a matrix: names of sets are keys of a map, and the eviction costs
  of all models add up within 64 bits.
\<close>

definition costs_bounded :: "config \<Rightarrow> bool" where
  "costs_bounded c \<longleftrightarrow> (\<forall>mx. cf_router_matrix c = Some mx \<longrightarrow> distinct (map sd_name (mx_sets mx)) \<and>
     (\<Sum>m\<in>set (model_ids c). eviction_cost (resolved_evict_costs mx) m) < 2 ^ 63)"

lemma built_fifo: "new_local_router c = Inr lr \<Longrightarrow>
    lr_fifo lr = router_config (lr_policy lr) (map (\<lambda>(m, mc). (m, md_concurrency mc)) (cf_models c)) (cf_priority c)"
  by (auto simp: new_local_router_def new_group_router_def new_matrix_router_def new_capacity_router_def new_base_router_def Let_def bindE_eq_Inr_iff
      split: if_splits sum.splits option.splits group_error.splits)

lemma built_sound:
  assumes "new_local_router c = Inr lr" and "routing_ok c w" and "costs_bounded c"
  shows "policy_sound (lr_policy lr) (set (lr_processes lr))"
proof -
  consider (mx) mx p where "cf_router_use c = ''matrix''" "cf_router_matrix c = Some mx" "cf_program c = Some p"
      "validate_matrix mx (model_ids c) = Inr p"
    | (cap) "cf_router_use c = ''capacity''" "validate_capacity (cf_router_capacity c) (capacities_of c) = Inr ()"
    | (grp) "cf_router_use c = ''group''"
    using assms(2) unfolding routing_ok_def by blast
  then show ?thesis
  proof cases
    case mx
    then have "lr_policy lr = MatrixPolicy p (resolved_evict_costs mx)" "lr_processes lr = model_ids c"
      using assms(1) by (auto simp: new_local_router_def new_matrix_router_def bindE_eq_Inr_iff Let_def)
    with mx assms(3) show ?thesis by (auto simp: policy_sound_def costs_bounded_def)
  next
    case cap
    then obtain ps where ps: "cf_router_capacity c = Some ps"
      by (cases "cf_router_capacity c") (simp_all add: validate_capacity_def)
    with cap have "lr_policy lr = CapacityPolicy ps (capacities_of c) 0"
      using assms(1) by (auto simp: new_local_router_def new_capacity_router_def bindE_eq_Inr_iff Let_def)
    with cap ps show ?thesis by (simp add: policy_sound_def)
  next
    case grp
    then obtain s where "lr_policy lr = GroupPolicy s"
      using assms(1) by (auto simp: new_local_router_def new_group_router_def bindE_eq_Inr_iff Let_def
          split: sum.splits option.splits group_error.splits)
    then show ?thesis by (simp add: policy_sound_def)
  qed
qed

text \<open>Building fails only for a group member that is the name of no model.\<close>

lemma build_fails:
  assumes "routing_ok c w" and "cf_scheduler_use c = ''fifo''" and "new_local_router c = Inl e"
  shows "cf_router_use c = ''group'' \<and>
    (\<exists>m gid g. e = NoModelConfig m \<and> (gid, g) \<in> set (with_default_group (model_ids c) w) \<and> m \<in> set (gc_members g) \<and>
       real_model_name (names_of c) m = None)"
proof -
  note f = new_base_router_fifo [OF assms(2)]
  consider (mx) "cf_router_use c = ''matrix''" "\<exists>mx p. cf_router_matrix c = Some mx \<and> cf_program c = Some p"
    | (cap) "cf_router_use c = ''capacity''" "validate_capacity (cf_router_capacity c) (capacities_of c) = Inr ()"
    | (grp) tab where "cf_router_use c = ''group''" "cf_router_groups c = Some (with_default_group (model_ids c) w)"
        "model_to_group (with_default_group (model_ids c) w) = Inr tab"
    using assms(1) unfolding routing_ok_def by blast
  then show ?thesis
  proof cases
    case mx
    then have False using assms(3) f by (auto simp: new_local_router_def new_matrix_router_def Let_def)
    then show ?thesis ..
  next
    case cap
    then have False using assms(3) f by (auto simp: new_local_router_def new_capacity_router_def Let_def)
    then show ?thesis ..
  next
    case grp
    let ?find = "find (\<lambda>m. find_config c m = None) (map fst tab)"
    obtain m where m: "?find = Some m" "e = NoModelConfig m"
      using assms(3) grp f by (cases ?find) (auto simp: new_local_router_def new_group_router_def group_list_def Let_def)
    then have "m \<in> set (map fst tab)" "real_model_name (names_of c) m = None"
      by (auto simp: find_Some_iff find_config_None simp del: set_map) (metis nth_mem length_map nth_map)
    moreover from this(1) have "\<exists>gid. map_of tab m = Some gid"
      by (metis map_of_eq_None_iff not_None_eq set_map)
    ultimately show ?thesis using model_to_group_table [OF grp(3), of m] m(2) grp(1) by fastforce
  qed
qed

text \<open>Every configured model gets a process, unless a group is written under the name of the default group.\<close>

lemma built_handles:
  assumes "routing_ok c w" and "new_local_router c = Inr lr" and "default_group_id \<notin> fst ` set w" and "m \<in> set (model_ids c)"
  shows "handles lr m"
proof -
  consider (mx) mx p where "cf_router_use c = ''matrix''" "cf_router_matrix c = Some mx" "cf_program c = Some p"
    | (cap) "cf_router_use c = ''capacity''"
    | (grp) tab where "cf_router_use c = ''group''" "cf_router_groups c = Some (with_default_group (model_ids c) w)"
        "model_to_group (with_default_group (model_ids c) w) = Inr tab"
    using assms(1) unfolding routing_ok_def by blast
  then show ?thesis
  proof cases
    case mx
    then have "lr_processes lr = model_ids c"
      using assms(2) by (auto simp: new_local_router_def new_matrix_router_def bindE_eq_Inr_iff Let_def)
    with assms(4) show ?thesis by (simp add: handles_def)
  next
    case cap
    then have "lr_processes lr = model_ids c"
      using assms(2) by (auto simp: new_local_router_def new_capacity_router_def bindE_eq_Inr_iff Let_def split: sum.splits)
    with assms(4) show ?thesis by (simp add: handles_def)
  next
    case grp
    then have "lr_processes lr = map fst tab"
      using assms(2) by (auto simp: new_local_router_def new_group_router_def bindE_eq_Inr_iff Let_def group_list_def split: option.splits)
    moreover have "\<exists>gid. map_of tab m = Some gid"
      using grouped_models [OF assms(4,3)] model_to_group_table [OF grp(3)] by blast
    ultimately show ?thesis by (auto simp: handles_def dest!: map_of_SomeD) (metis fst_conv image_eqI)
  qed
qed

text \<open>
  C1. From the file to the machine, for a configuration that loads and, if it has a matrix, names its sets apart and keeps the sum of its eviction costs
  within 63 bits: if no group is written under the name \<open>(default)\<close>, the router built from it gives every configured model a
  process; and in any case, however requests, cancellations,
  swaps, unloads, pauses and dying processes interleave, the models that are up at the same time fit together: no
  two that would each have to evict the other under the group router, a part of one combination or one model alone under the matrix
  router, within every pool under the capacity router. The only configuration that loads and has no router is one with
  a group member that names no model.
\<close>
theorem configured_models_fit:
  assumes "load_config ho c0 = Inr c" and "distinct (model_ids c0)" and "costs_bounded c"
  shows "case new_local_router c of
      Inr lr \<Rightarrow>
        (default_group_id \<notin> fst ` set (written_groups c0) \<longrightarrow> list_all (handles lr) (model_ids c0)) \<and>
        (\<forall>evs s. sys_run (lr_fifo lr) (set (lr_processes lr)) evs new_sys = Some s \<longrightarrow> runs_together (lr_policy lr) (sy_up s))
    | Inl e \<Rightarrow> cf_router_use c = ''group'' \<and>
        (\<exists>m gid g. e = NoModelConfig m \<and> (gid, g) \<in> set (with_default_group (model_ids c0) (written_groups c0)) \<and>
           m \<in> set (gc_members g) \<and> real_model_name (names_of c) m = None)"
proof -
  note l = loaded_config_facts [OF assms(1,2)]
  show ?thesis
  proof (cases "new_local_router c")
    case (Inl e)
    with build_fails [OF l(5) _ Inl] l(3,6) show ?thesis by (simp add: references_ok_def)
  next
    case (Inr lr)
    have "runs_together (lr_policy lr) (sy_up s)" if "sys_run (lr_fifo lr) (set (lr_processes lr)) evs new_sys = Some s" for evs s
      by (rule up_models_fit [OF built_sound [OF Inr l(5) assms(3)]]) (use that in \<open>simp add: built_fifo [OF Inr]\<close>)
    moreover have "list_all (handles lr) (model_ids c0)" if "default_group_id \<notin> fst ` set (written_groups c0)"
      using built_handles [OF l(5) Inr that] l(3) by (simp add: list_all_iff)
    ultimately show ?thesis using Inr by simp
  qed
qed

text \<open>Both models of the demonstration come up, one after the other.\<close>

definition demo_two_swaps :: "sys_event list" where
  "demo_two_swaps =
     [SysHandle (EvRequest (demo_sys_env True []) \<lparr>rq_id = 1, rq_model = ''a''\<rparr>) {}, SysGate ''a'', SysEnsure ''a'',
      SysHandle (EvSwapDone (demo_sys_env True [''a'']) ''a'' 1 None) {''a''},
      SysHandle (EvRequest (demo_sys_env True [''a'']) \<lparr>rq_id = 2, rq_model = ''b''\<rparr>) {''a''}, SysGate ''b'', SysEnsure ''b'']"

lemma demo_router_runs:
  "case load_config demo_host demo_config of
     Inl e \<Rightarrow> False
   | Inr c \<Rightarrow> (case new_local_router c of
       Inl e \<Rightarrow> False
     | Inr lr \<Rightarrow> map_option sy_up (sys_run (lr_fifo lr) (set (lr_processes lr)) demo_two_swaps new_sys) = Some {''a'', ''b''})"
  by code_simp

theorem configured_models_fit_witness:
  "\<exists>c lr s. load_config demo_host demo_config = Inr c \<and> new_local_router c = Inr lr \<and> handles lr ''a'' \<and>
     sys_run (lr_fifo lr) (set (lr_processes lr)) demo_two_swaps new_sys = Some s \<and> sy_up s = {''a'', ''b''} \<and>
     runs_together (lr_policy lr) (sy_up s)"
proof -
  obtain c where c: "load_config demo_host demo_config = Inr c" "cf_router_matrix c = None"
    using demo_config_loads(1) by (cases "load_config demo_host demo_config") simp_all
  with demo_router_runs obtain lr where lr: "new_local_router c = Inr lr"
    and run: "map_option sy_up (sys_run (lr_fifo lr) (set (lr_processes lr)) demo_two_swaps new_sys) = Some {''a'', ''b''}"
    by (cases "new_local_router c") simp_all
  from run obtain s where s: "sys_run (lr_fifo lr) (set (lr_processes lr)) demo_two_swaps new_sys = Some s" "sy_up s = {''a'', ''b''}"
    by (simp only: map_option_eq_Some) blast
  have "costs_bounded c" using c(2) by (simp add: costs_bounded_def)
  note fit = configured_models_fit [OF c(1) demo_config_loads(2) this, unfolded lr sum.case]
  have m: "model_ids demo_config = [''a'', ''b'']" "written_groups demo_config = []" by code_simp+
  then have "default_group_id \<notin> fst ` set (written_groups demo_config)" by simp
  with fit have "list_all (handles lr) (model_ids demo_config)" by (rule conjunct1 [THEN mp])
  then have "handles lr ''a''" by (simp add: m)
  moreover have "runs_together (lr_policy lr) (sy_up s)" using fit s(1) by blast
  ultimately show ?thesis using c(1) lr s by blast
qed

end
