(* ===== verification/PeerRouter.thy ===== *)
theory PeerRouter
  imports RouterBuild
begin

text \<open>
  The table of the peer router (\<open>NewPeer\<close> in \<open>internal/router/peer.go\<close>): which peer answers for which name, and
  that the table agrees with the name resolution of \<open>internal/config/peer.go\<close>.
\<close>

section \<open>The table of routes\<close>

record peer_member =
  pm_id :: string
  pm_client :: "string option"
  pm_api_key :: string

type_synonym peer_route = "peer_member \<times> string"

record peer_router =
  pr_routes :: "(string \<times> peer_route) list"
  pr_members :: "peer_member list"

text \<open>The key under which Tailcat clients are shared: a peer without a private key gets its own.\<close>

definition tailcat_client_key :: "string \<Rightarrow> string \<times> string \<times> string \<Rightarrow> string" where
  "tailcat_client_key p t =
     (case t of (key, blob, identity) \<Rightarrow>
        if key = [] \<or> key = ''ephemeral'' then ''ephemeral:'' @ p else identity @ '':'' @ blob)"

definition new_member :: "string \<Rightarrow> peer_config \<Rightarrow> peer_member" where
  "new_member p pc =
     \<lparr>pm_id = p, pm_client = map_option (tailcat_client_key p) (pe_tailcat pc), pm_api_key = pe_api_key pc\<rparr>"

text \<open>The state of the loops: the map of routes and the routes by bare model name.\<close>

type_synonym route_tables = "(string \<times> peer_route) list \<times> (string \<times> peer_route list) list"

definition add_route :: "peer_member \<Rightarrow> route_tables \<Rightarrow> string \<Rightarrow> route_tables" where
  "add_route pm tabs m =
     (case tabs of (table, bare) \<Rightarrow>
        (AList.update (peer_model_fqn (pm_id pm) m) (pm, m) table,
         AList.update m ((case map_of bare m of None \<Rightarrow> [] | Some rs \<Rightarrow> rs) @ [(pm, m)]) bare))"

definition add_peer_model :: "peer_member \<Rightarrow> string list \<times> route_tables \<Rightarrow> string \<Rightarrow> string list \<times> route_tables" where
  "add_peer_model pm acc m =
     (case acc of (seen, tabs) \<Rightarrow> if m \<in> set seen then acc else (m # seen, add_route pm tabs m))"

definition add_peer :: "config \<Rightarrow> route_tables \<times> peer_member list \<Rightarrow> string \<Rightarrow> route_tables \<times> peer_member list" where
  "add_peer c acc p =
     (case map_of (cf_peers c) p of
        None \<Rightarrow> acc
      | Some pc \<Rightarrow>
          (case acc of (tabs, members) \<Rightarrow>
             let pm = new_member p pc in
             (snd (foldl (add_peer_model pm) ([], tabs) (pe_models pc)), members @ [pm])))"

definition add_bare :: "(string \<times> peer_route) list \<Rightarrow> string \<times> peer_route list \<Rightarrow> (string \<times> peer_route) list" where
  "add_bare table mr =
     (case mr of (m, routes) \<Rightarrow>
        if length routes \<noteq> 1 then table
        else if map_of table m \<noteq> None then table
        else AList.update m (hd routes) table)"

definition new_peer :: "config \<Rightarrow> namespace_error + peer_router" where
  "new_peer c =
     bindE (validate_peer_namespace (names_of c)) (\<lambda>_.
       case foldl (add_peer c) (([], []), []) (sort (map fst (cf_peers c))) of ((table, bare), members) \<Rightarrow>
         Inr \<lparr>pr_routes = foldl add_bare table bare, pr_members = members\<rparr>)"

definition peer_handles :: "peer_router \<Rightarrow> string \<Rightarrow> bool" where
  "peer_handles pr m = (map_of (pr_routes pr) m \<noteq> None)"

section \<open>The table is the resolution of names\<close>

text \<open>The models of one peer, each once, in the order they are listed.\<close>

fun firsts :: "string list \<Rightarrow> string list \<Rightarrow> string list" where
  "firsts seen [] = []"
| "firsts seen (m # ms) = (if m \<in> set seen then firsts seen ms else m # firsts (m # seen) ms)"

lemma set_firsts: "set (firsts seen ms) = set ms - set seen"
  by (induction seen ms rule: firsts.induct) auto

lemma distinct_firsts: "distinct (firsts seen ms)"
  by (induction seen ms rule: firsts.induct) (auto simp: set_firsts)

lemma add_peer_models:
  "snd (foldl (add_peer_model pm) (seen, tabs) ms) = foldl (add_route pm) tabs (firsts seen ms)"
  by (induction ms arbitrary: seen tabs) (auto simp: add_peer_model_def)

definition routes_of_peer :: "config \<Rightarrow> string \<Rightarrow> peer_route list" where
  "routes_of_peer c p =
     (case map_of (cf_peers c) p of None \<Rightarrow> [] | Some pc \<Rightarrow> map (Pair (new_member p pc)) (firsts [] (pe_models pc)))"

definition all_routes :: "config \<Rightarrow> peer_route list" where
  "all_routes c = concat (map (routes_of_peer c) (sort (map fst (cf_peers c))))"

lemma add_peers:
  "fst (foldl (add_peer c) acc ps) = foldl (\<lambda>t (pm, m). add_route pm t m) (fst acc) (concat (map (routes_of_peer c) ps))"
proof (induction ps arbitrary: acc)
  case (Cons p ps)
  have pairs: "foldl (\<lambda>t (pm, m). add_route pm t m) tabs (map (Pair pm) ms) = foldl (add_route pm) tabs ms" for pm ms tabs
    by (induction ms arbitrary: tabs) simp_all
  have "fst (add_peer c acc p) = foldl (\<lambda>t (pm, m). add_route pm t m) (fst acc) (routes_of_peer c p)"
    by (cases "map_of (cf_peers c) p"; cases acc) (simp_all add: add_peer_def routes_of_peer_def add_peer_models pairs Let_def)
  with Cons.IH [of "add_peer c acc p"] show ?case by simp
qed simp

text \<open>What the two maps hold after a list of routes with distinct qualified names.\<close>

abbreviation route_fqn :: "peer_route \<Rightarrow> string" where
  "route_fqn r \<equiv> peer_model_fqn (pm_id (fst r)) (snd r)"

definition tables_of :: "peer_route list \<Rightarrow> route_tables" where
  "tables_of rs = foldl (\<lambda>t (pm, m). add_route pm t m) ([], []) rs"

lemma tables_of_snoc:
  "tables_of (rs @ [r]) = add_route (fst r) (tables_of rs) (snd r)"
  by (simp add: tables_of_def case_prod_unfold)

lemma table_of_routes:
  "distinct (map route_fqn rs) \<Longrightarrow> map_of (fst (tables_of rs)) s = find (\<lambda>r. route_fqn r = s) rs"
proof (induction rs rule: rev_induct)
  case (snoc r rs)
  have fnd: "find P (xs @ [x]) = (case find P xs of Some y \<Rightarrow> Some y | None \<Rightarrow> if P x then Some x else None)" for P xs and x :: peer_route
    by (induction xs) auto
  have none: "find (\<lambda>q. route_fqn q = route_fqn r) rs = None" using snoc.prems by (auto simp: find_None_iff simp flip: image_iff intro: rev_image_eqI)
  have ih: "map_of (fst (tables_of rs)) s = find (\<lambda>r. route_fqn r = s) rs" using snoc by simp
  have "map_of (fst (tables_of (rs @ [r]))) s = (if s = route_fqn r then Some r else map_of (fst (tables_of rs)) s)"
    by (cases "tables_of rs") (simp add: tables_of_snoc add_route_def)
  then show ?case using none by (auto simp: ih fnd split: option.split)
qed (simp add: tables_of_def)

lemma bare_of_routes:
  "map_of (snd (tables_of rs)) m = (if filter (\<lambda>r. snd r = m) rs = [] then None else Some (filter (\<lambda>r. snd r = m) rs))"
proof (induction rs arbitrary: m rule: rev_induct)
  case (snoc r rs)
  have step: "map_of (snd (tables_of (rs @ [r]))) m =
      (if m = snd r then Some ((case map_of (snd (tables_of rs)) m of None \<Rightarrow> [] | Some xs \<Rightarrow> xs) @ [r])
       else map_of (snd (tables_of rs)) m)"
    by (simp add: tables_of_snoc add_route_def split: prod.splits)
  show ?case unfolding step snoc.IH by auto
qed (simp add: tables_of_def)

lemma bare_distinct: "distinct (map fst (snd (tables_of rs)))"
proof (induction rs rule: rev_induct)
  case (snoc r rs)
  then show ?case by (auto simp: tables_of_snoc add_route_def distinct_update split: prod.splits)
qed (simp add: tables_of_def)

lemma add_bares:
  "distinct (map fst bare) \<Longrightarrow> map_of (foldl add_bare table bare) s =
    (case map_of table s of
       Some r \<Rightarrow> Some r
     | None \<Rightarrow> (case map_of bare s of Some [r] \<Rightarrow> Some r | _ \<Rightarrow> None))"
proof (induction bare arbitrary: table)
  case (Cons x bare)
  obtain m rs where x: "x = (m, rs)" by (cases x)
  have m: "map_of bare m = None" using Cons.prems by (simp add: x map_of_eq_None_iff)
  have step: "map_of (add_bare table (m, rs)) s =
      (if s = m \<and> map_of table m = None then (case rs of [r] \<Rightarrow> Some r | _ \<Rightarrow> None) else map_of table s)"
    by (cases rs; cases "tl rs") (auto simp: add_bare_def)
  have "map_of (foldl add_bare (add_bare table (m, rs)) bare) s =
      (case map_of (add_bare table (m, rs)) s of
         Some r \<Rightarrow> Some r
       | None \<Rightarrow> (case map_of bare s of Some [r] \<Rightarrow> Some r | _ \<Rightarrow> None))"
    using Cons by (simp add: x)
  then show ?case using m by (auto simp: x step split: option.splits list.splits)
qed (simp split: option.split)


lemma set_all_routes:
  assumes "distinct (map fst (cf_peers c))"
  shows "set (all_routes c) = {(new_member p pc, m) |p pc m. (p, pc) \<in> set (cf_peers c) \<and> m \<in> set (pe_models pc)}"
proof -
  have "map_of (cf_peers c) p = Some pc" if "(p, pc) \<in> set (cf_peers c)" for p pc using assms that by simp
  then show ?thesis by (force simp: all_routes_def routes_of_peer_def set_firsts)
qed

abbreviation route_name :: "peer_route \<Rightarrow> string \<times> string" where
  "route_name r \<equiv> (pm_id (fst r), snd r)"

lemma route_names: 
  assumes "distinct (map fst (cf_peers c))"
  shows "route_name ` set (all_routes c) = set (peer_models (names_of c))"
proof (intro set_eqI iffI)
  fix q assume "q \<in> route_name ` set (all_routes c)"
  then obtain p pc m where q: "q = (p, m)" "(p, pc) \<in> set (cf_peers c)" "m \<in> set (pe_models pc)"
    by (auto simp: set_all_routes [OF assms] new_member_def)
  then have "(p, pe_models pc) \<in> set (na_peers (names_of c))" by (force simp: names_of_def)
  with q show "q \<in> set (peer_models (names_of c))" by (auto simp: set_peer_models)
next
  fix q assume "q \<in> set (peer_models (names_of c))"
  then obtain p pc m where q: "q = (p, m)" "(p, pc) \<in> set (cf_peers c)" "m \<in> set (pe_models pc)"
    by (auto simp: set_peer_models names_of_def)
  then have "(new_member p pc, m) \<in> set (all_routes c)" by (auto simp: set_all_routes [OF assms])
  then show "q \<in> route_name ` set (all_routes c)" by (rule rev_image_eqI) (simp add: q new_member_def)
qed

lemma route_name_inj:
  assumes "distinct (map fst (cf_peers c))"
  shows "inj_on route_name (set (all_routes c))"
proof (rule inj_onI)
  have one: "pc = pc'" if "(p, pc) \<in> set (cf_peers c)" "(p, pc') \<in> set (cf_peers c)" for p pc pc'
    using that assms by (metis map_of_eq_Some_iff option.inject)
  fix a b assume "a \<in> set (all_routes c)" "b \<in> set (all_routes c)" "route_name a = route_name b"
  then show "a = b" by (auto simp: set_all_routes [OF assms] new_member_def dest: one)
qed

lemma distinct_all_routes:
  assumes "distinct (map fst (cf_peers c))"
  shows "distinct (all_routes c)"
proof -
  have "distinct (concat (map (routes_of_peer c) ps))" if "distinct ps" for ps
    using that
  proof (induction ps)
    case (Cons p ps)
    have d: "distinct (routes_of_peer c p)"
      by (auto simp: routes_of_peer_def distinct_map distinct_firsts inj_on_def split: option.split)
    have i: "pm_id (fst r) = q" if "r \<in> set (routes_of_peer c q)" for r q
      using that by (auto simp: routes_of_peer_def new_member_def split: option.splits)
    have "False" if "r \<in> set (routes_of_peer c p)" "r \<in> set (routes_of_peer c q)" "q \<in> set ps" for r q
      using i [OF that(1)] i [OF that(2)] that(3) Cons.prems by simp
    then have "set (routes_of_peer c p) \<inter> set (concat (map (routes_of_peer c) ps)) = {}" by auto
    with d Cons show ?case by simp
  qed simp
  then show ?thesis using assms by (simp add: all_routes_def)
qed

text \<open>The routes of a single name: the one pair that bears it.\<close>

lemma sole_member:
  "distinct xs \<Longrightarrow> (case xs of [r] \<Rightarrow> Some r | _ \<Rightarrow> None) = Some r \<longleftrightarrow> (\<forall>x. x \<in> set xs \<longleftrightarrow> x = r)"
proof (cases xs)
  case (Cons a as)
  show ?thesis if d: "distinct xs"
  proof (cases as)
    case (Cons b bs)
    then have "a \<in> set xs \<and> b \<in> set xs \<and> a \<noteq> b" using d \<open>xs = a # as\<close> by simp
    then have "\<not> (\<forall>x. x \<in> set xs \<longleftrightarrow> x = r)" by metis
    then show ?thesis by (simp add: \<open>xs = a # as\<close> Cons)
  qed (auto simp: Cons)
qed simp

lemma new_peer_routes:
  assumes "new_peer c = Inr pr" and "distinct (map fst (cf_peers c))"
  shows "map_of (pr_routes pr) s = Some r \<longleftrightarrow>
    (\<forall>q. q \<in> set (all_routes c) \<and> route_fqn q = s \<longleftrightarrow> q = r) \<or>
    (\<forall>q\<in>set (all_routes c). route_fqn q \<noteq> s) \<and> (\<forall>q. q \<in> set (all_routes c) \<and> snd q = s \<longleftrightarrow> q = r)"
proof -
  let ?rs = "all_routes c"
  have ns: "validate_peer_namespace (names_of c) = Inr ()"
    using assms(1) by (cases "validate_peer_namespace (names_of c)") (auto simp: new_peer_def bindE_simps)
  have d: "distinct (map fst (na_peers (names_of c)))" using assms(2) by (simp add: names_of_def comp_def case_prod_unfold)
  have inj: "inj_on route_fqn (set ?rs)"
  proof -
    have "inj_on (fqn_of \<circ> route_name) (set ?rs)"
      using comp_inj_on [OF route_name_inj [OF assms(2)]] valid_namespace [OF ns d] route_names [OF assms(2)] by metis
    then show ?thesis by (simp add: comp_def)
  qed
  have pr: "pr_routes pr = foldl add_bare (fst (tables_of ?rs)) (snd (tables_of ?rs))"
    using assms(1) ns add_peers [of c "(([], []), [])" "sort (map fst (cf_peers c))"]
    by (auto simp: new_peer_def bindE_simps tables_of_def all_routes_def split: prod.splits)
  have table: "map_of (fst (tables_of ?rs)) s = find (\<lambda>r. route_fqn r = s) ?rs"
    by (rule table_of_routes) (simp add: distinct_map distinct_all_routes [OF assms(2)] inj)
  have fsome: "find (\<lambda>r. route_fqn r = s) ?rs = Some r \<longleftrightarrow> r \<in> set ?rs \<and> route_fqn r = s" for r
  proof
    assume "find (\<lambda>r. route_fqn r = s) ?rs = Some r"
    then show "r \<in> set ?rs \<and> route_fqn r = s" by (auto simp: find_Some_iff)
  next
    assume r: "r \<in> set ?rs \<and> route_fqn r = s"
    then have "find (\<lambda>r. route_fqn r = s) ?rs \<noteq> None" unfolding find_None_iff by blast
    then obtain x where x: "find (\<lambda>r. route_fqn r = s) ?rs = Some x" by (elim not_None_eq [THEN iffD1, THEN exE])
    then have "x \<in> set ?rs \<and> route_fqn x = s" by (auto simp: find_Some_iff)
    with r inj have "x = r" by (auto simp: inj_on_def)
    with x show "find (\<lambda>r. route_fqn r = s) ?rs = Some r" by simp
  qed
  have uniq: "(\<forall>q. q \<in> set ?rs \<and> route_fqn q = s \<longleftrightarrow> q = r) \<longleftrightarrow> r \<in> set ?rs \<and> route_fqn r = s" for r
  proof
    assume r: "r \<in> set ?rs \<and> route_fqn r = s"
    show "\<forall>q. q \<in> set ?rs \<and> route_fqn q = s \<longleftrightarrow> q = r"
    proof (intro allI iffI)
      fix q assume q: "q \<in> set ?rs \<and> route_fqn q = s"
      show "q = r" by (rule inj_onD [OF inj _ conjunct1 [OF q] conjunct1 [OF r]]) (simp only: conjunct2 [OF q] conjunct2 [OF r])
    qed (simp only: r simp_thms)
  next
    assume "\<forall>q. q \<in> set ?rs \<and> route_fqn q = s \<longleftrightarrow> q = r"
    from this [THEN spec, of r] show "r \<in> set ?rs \<and> route_fqn r = s" by (simp only: simp_thms)
  qed
  have bare: "(case (if filter (\<lambda>r. snd r = s) ?rs = [] then None else Some (filter (\<lambda>r. snd r = s) ?rs)) of Some [r] \<Rightarrow> Some r | _ \<Rightarrow> None)
      = (case filter (\<lambda>r. snd r = s) ?rs of [r] \<Rightarrow> Some r | _ \<Rightarrow> None)" by (simp split: list.split)
  show ?thesis
    unfolding pr add_bares [OF bare_distinct] bare_of_routes bare table uniq
  proof (cases "find (\<lambda>r. route_fqn r = s) ?rs")
    case None
    then have no: "\<forall>q\<in>set ?rs. route_fqn q \<noteq> s" by (simp add: find_None_iff)
    have "(case filter (\<lambda>r. snd r = s) ?rs of [r] \<Rightarrow> Some r | _ \<Rightarrow> None) = Some r \<longleftrightarrow> (\<forall>q. q \<in> set ?rs \<and> snd q = s \<longleftrightarrow> q = r)"
      using sole_member [of "filter (\<lambda>r. snd r = s) ?rs" r] distinct_all_routes [OF assms(2)] by simp
    with None no show "(case find (\<lambda>r. route_fqn r = s) ?rs of None \<Rightarrow> (case filter (\<lambda>r. snd r = s) ?rs of [r] \<Rightarrow> Some r | _ \<Rightarrow> None) | Some r \<Rightarrow> Some r) = Some r \<longleftrightarrow>
      r \<in> set ?rs \<and> route_fqn r = s \<or> (\<forall>q\<in>set ?rs. route_fqn q \<noteq> s) \<and> (\<forall>q. q \<in> set ?rs \<and> snd q = s \<longleftrightarrow> q = r)" by auto
  next
    case (Some x)
    then have x: "x \<in> set ?rs" "route_fqn x = s" using fsome by auto
    then have "\<not> (\<forall>q\<in>set ?rs. route_fqn q \<noteq> s)" by blast
    then show "(case find (\<lambda>r. route_fqn r = s) ?rs of None \<Rightarrow> (case filter (\<lambda>r. snd r = s) ?rs of [r] \<Rightarrow> Some r | _ \<Rightarrow> None) | Some r \<Rightarrow> Some r) = Some r \<longleftrightarrow>
      r \<in> set ?rs \<and> route_fqn r = s \<or> (\<forall>q\<in>set ?rs. route_fqn q \<noteq> s) \<and> (\<forall>q. q \<in> set ?rs \<and> snd q = s \<longleftrightarrow> q = r)"
      using fsome [of r] by (simp only: Some option.case simp_thms)
  qed
qed

lemma unique_in_image:
  assumes "inj_on f A"
  shows "(\<forall>y. y \<in> f ` A \<and> P y \<longleftrightarrow> y = q) \<longleftrightarrow> (\<exists>r. q = f r \<and> (\<forall>x. x \<in> A \<and> P (f x) \<longleftrightarrow> x = r))"
proof
  assume l: "\<forall>y. y \<in> f ` A \<and> P y \<longleftrightarrow> y = q"
  then have "q \<in> f ` A \<and> P q" by simp
  then obtain r where r: "r \<in> A" "q = f r" "P (f r)" by auto
  have "x \<in> A \<and> P (f x) \<longleftrightarrow> x = r" for x
  proof
    assume x: "x \<in> A \<and> P (f x)"
    then have "f x = q" using l by blast
    then show "x = r" using x r assms by (auto dest: inj_onD)
  qed (use r in simp)
  then show "\<exists>r. q = f r \<and> (\<forall>x. x \<in> A \<and> P (f x) \<longleftrightarrow> x = r)" using r by blast
next
  assume "\<exists>r. q = f r \<and> (\<forall>x. x \<in> A \<and> P (f x) \<longleftrightarrow> x = r)"
  then obtain r where r: "q = f r" "\<And>x. x \<in> A \<and> P (f x) \<longleftrightarrow> x = r" by (elim exE conjE) (rule that, simp_all)
  have "r \<in> A \<and> P (f r)" using r(2) by blast
  moreover have "y = q" if "y \<in> f ` A" "P y" for y using that r(1) r(2) [of "inv_into A f y"] by (auto simp: f_inv_into_f inv_into_into)
  ultimately show "\<forall>y. y \<in> f ` A \<and> P y \<longleftrightarrow> y = q" using r(1) by auto
qed

lemma peer_resolves:
  assumes "new_peer c = Inr pr" and "distinct (map fst (cf_peers c))"
  shows "map_option route_name (map_of (pr_routes pr) s) = resolve_peer_model (names_of c) s"
proof -
  note inj = route_name_inj [OF assms(2)] and names = route_names [OF assms(2), symmetric]
  have "map_option route_name (map_of (pr_routes pr) s) = Some q \<longleftrightarrow> resolve_peer_model (names_of c) s = Some q" for q
    unfolding resolve_peer_model_iff names unique_in_image [OF inj] map_option_eq_Some new_peer_routes [OF assms] by auto
  then show ?thesis by (metis option.exhaust)
qed

lemma peer_keys:
  assumes "new_peer c = Inr pr" and "distinct (map fst (cf_peers c))" and "map_of (pr_routes pr) s = Some q"
    and "(pm_id (fst q), pc) \<in> set (cf_peers c)"
  shows "pm_api_key (fst q) = pe_api_key pc"
proof -
  have "q \<in> set (all_routes c)" using assms(3) unfolding new_peer_routes [OF assms(1,2)] by blast
  then obtain p pc' m where q: "q = (new_member p pc', m)" "(p, pc') \<in> set (cf_peers c)" by (auto simp: set_all_routes [OF assms(2)])
  then have "pc' = pc" using assms(2,4) by (auto simp: new_member_def dest: eq_key_imp_eq_value)
  then show ?thesis by (simp add: q(1) new_member_def)
qed

text \<open>C33. The table of the peer router is the resolution of names: the router knows a name exactly when the
  name resolves to a peer's model, and its route is that peer and that model, however the names of peers and models
  collide.\<close>

theorem peer_table_resolves:
  assumes "new_peer c = Inr pr" and "distinct (map fst (cf_peers c))"
  shows "map_option (\<lambda>(pm, m). (pm_id pm, m)) (map_of (pr_routes pr) s) = resolve_peer_model (names_of c) s"
  using peer_resolves [OF assms] by (simp add: case_prod_unfold)

definition demo_peers :: config where
  "demo_peers = demo_config
     \<lparr>cf_peers := [(''q'', \<lparr>pe_models = [''m'', ''n''], pe_api_key = [], pe_tailcat = None\<rparr>),
        (''p'', \<lparr>pe_models = [''m''], pe_api_key = ''secret'', pe_tailcat = None\<rparr>)]\<rparr>"

lemma demo_peers_distinct: "distinct (map fst (cf_peers demo_peers))"
  by code_simp

lemma demo_peers_router: "case new_peer demo_peers of Inr pr \<Rightarrow> True | Inl e \<Rightarrow> False"
  by code_simp

lemma demo_peers_resolve:
  "resolve_peer_model (names_of demo_peers) ''p/m'' = Some (''p'', ''m'')" "resolve_peer_model (names_of demo_peers) ''m'' = None"
  by code_simp+

theorem peer_table_resolves_witness:
  "\<exists>pr. new_peer demo_peers = Inr pr \<and> \<not> peer_handles pr ''m'' \<and>
     map_option (\<lambda>(pm, m). (pm_id pm, m)) (map_of (pr_routes pr) ''p/m'') = Some (''p'', ''m'')"
proof -
  obtain pr where pr: "new_peer demo_peers = Inr pr" using demo_peers_router by (auto split: sum.splits)
  from peer_table_resolves [OF pr demo_peers_distinct, of "''p/m''"] peer_table_resolves [OF pr demo_peers_distinct, of "''m''"] pr
  show ?thesis by (simp add: demo_peers_resolve peer_handles_def)
qed

end
