(* ===== verification/PeerServe.thy ===== *)
theory PeerServe
  imports PeerRouter
begin

text \<open>
  Where a request goes once its model is known: the peer router (\<open>ServeHTTP\<close> and the reverse proxies of
  \<open>internal/router/peer.go\<close>), the entrance of a local router (\<open>ServeHTTP\<close> in \<open>internal/router/base.go\<close>, with the
  websockets it keeps out of the scheduler) and the dispatch between the two (\<open>localPeerHandler\<close> and
  \<open>serveLocal\<close> in \<open>internal/server\<close>). What a peer answers is a function of the request that is
  sent to it (the message of a failed connection with the hint that macOS adds); what the scheduler answers is an argument.
\<close>

section \<open>Serving a peer's model\<close>

text \<open>What came of the request sent to a peer; a client that is gone is not answered.\<close>

datatype peer_answer =
    Answered nat headers string
  | Unreachable string
  | ClientGone

definition modify_response :: "headers \<Rightarrow> headers" where
  "modify_response up =
     (let h = strip_upstream_cors_headers up in
      if contains (to_lower (header_get h ''Content-Type'')) ''text/event-stream''
      then header_set ''X-Accel-Buffering'' ''no'' h else h)"

definition set_peer_key :: "string \<Rightarrow> http_request \<Rightarrow> http_request" where
  "set_peer_key key r =
     (if key = [] then r
      else r\<lparr>hr_headers := header_set ''X-Api-Key'' key (header_set ''Authorization'' (''Bearer '' @ key) (hr_headers r))\<rparr>)"

definition outgoing :: "http_request \<Rightarrow> http_request" where
  "outgoing r = r\<lparr>hr_headers := strip_browser_request_headers (hr_headers r)\<rparr>"

definition peer_reply :: "peer_answer \<Rightarrow> handler" where
  "peer_reply a r h =
     (case a of
        Answered status up content \<Rightarrow> Reply status (copy_header (modify_response up) h) (OtherBody content)
      | Unreachable msg \<Rightarrow> send_response r h 502 (''peer proxy error: '' @ msg)
      | ClientGone \<Rightarrow> Reply 499 h NoBody)"

definition peer_proxy :: "(string \<Rightarrow> http_request \<Rightarrow> peer_answer) \<Rightarrow> peer_member \<Rightarrow> handler" where
  "peer_proxy send pm r h = peer_reply (send (pm_id pm) (outgoing r)) r h"

definition peer_serve ::
  "codec \<Rightarrow> names \<Rightarrow> (string \<Rightarrow> bool) \<Rightarrow> (replace_error \<Rightarrow> string) \<Rightarrow> (string \<Rightarrow> http_request \<Rightarrow> peer_answer) \<Rightarrow>
     peer_router \<Rightarrow> bool \<Rightarrow> handler" where
  "peer_serve cd c loading errmsg send pr shutting r h =
     (if shutting then send_error r h (OtherError ''peer proxy is shutting down'')
      else case fetch_context cd c loading r of
        (Inl e, r1) \<Rightarrow> send_error r1 h NoModelInContext
      | (Inr d, r1) \<Rightarrow>
          (case map_of (pr_routes pr) (rx_model_id d) of
             None \<Rightarrow> send_error r1 h NoPeerModelFound
           | Some (pm, m) \<Rightarrow>
               (case (if rx_model d \<noteq> m then replace_request_model cd (rx_model d) m r1 else Inr r1) of
                  Inl e \<Rightarrow> send_response r1 h 400 (errmsg e)
                | Inr r2 \<Rightarrow> peer_proxy send pm (set_peer_key (pm_api_key pm) r2) h)))"

section \<open>Serving a local model\<close>

definition header_contains_token :: "string list \<Rightarrow> string \<Rightarrow> bool" where
  "header_contains_token vs token =
     list_ex (\<lambda>v. list_ex (\<lambda>part. equal_fold (trim_space part) token) (split_at (CHR '','') v)) vs"

definition is_websocket_upgrade :: "http_request \<Rightarrow> bool" where
  "is_websocket_upgrade r =
     (header_contains_token (header_values (hr_headers r) ''Connection'') ''upgrade'' \<and>
      header_contains_token (header_values (hr_headers r) ''Upgrade'') ''websocket'')"

text \<open>What the scheduler, the client and a shutdown come to, for a request that is handed to the event loop.\<close>

datatype granted =
    NotAdmitted request_failure
  | Granted
  | Refused request_failure
  | LostClient
  | ShutDownMeanwhile

text \<open>The entrance of a local router: \<open>ignored\<close> are the models that keep websockets out, \<open>state\<close> the states of the processes.\<close>

definition base_serve ::
  "codec \<Rightarrow> names \<Rightarrow> (string \<Rightarrow> bool) \<Rightarrow> string \<Rightarrow> (string \<Rightarrow> bool) \<Rightarrow> (string \<Rightarrow> proc_state option) \<Rightarrow>
     (string \<Rightarrow> granted) \<Rightarrow> (string \<Rightarrow> handler) \<Rightarrow> bool \<Rightarrow> handler" where
  "base_serve cd c loading name ignored state schedule process shutting r h =
     (if shutting then send_error r h (OtherError (name @ '' is shutting down''))
      else case fetch_context cd c loading r of
        (Inl e, r1) \<Rightarrow> send_error r1 h NoModelInContext
      | (Inr d, r1) \<Rightarrow>
          (let m = rx_model_id d in
           if is_websocket_upgrade r1 \<and> ignored m then
             (case state m of
                None \<Rightarrow> send_error r1 h NoLocalModelFound
              | Some s \<Rightarrow>
                  if s \<noteq> StateReady then
                    send_response r1 h 409
                      (''model '' @ m @ '' is not loaded; ignored websocket requests cannot start it'')
                  else process m r1 h)
           else case schedule m of
             NotAdmitted e \<Rightarrow> send_error r1 h e
           | Granted \<Rightarrow> process m r1 h
           | Refused e \<Rightarrow> send_error r1 h e
           | LostClient \<Rightarrow> Reply 200 h NoBody
           | ShutDownMeanwhile \<Rightarrow> send_error r1 h (OtherError (name @ '' is shutting down''))))"

section \<open>Dispatch\<close>

definition strip_version_prefix :: "http_request \<Rightarrow> http_request" where
  "strip_version_prefix r = (if has_prefix (hr_path r) ''/v/'' then r\<lparr>hr_path := trim_prefix ''/v'' (hr_path r)\<rparr> else r)"

definition strip_audio_api_prefix :: "http_request \<Rightarrow> http_request" where
  "strip_audio_api_prefix r = r\<lparr>hr_path := trim_prefix ''/audioapi'' (hr_path r)\<rparr>"

definition serve_configured_voices :: "config \<Rightarrow> (string list \<Rightarrow> string \<Rightarrow> string) \<Rightarrow> string \<Rightarrow> http_request \<Rightarrow> headers \<Rightarrow> reply option" where
  "serve_configured_voices c json m r h =
     (if hr_method r \<noteq> ''GET'' \<or> hr_path r \<noteq> ''/v1/audio/voices'' then None
      else case map_of (cf_models c) m of
        None \<Rightarrow> None
      | Some mc \<Rightarrow>
          if ca_voices (md_capabilities mc) = [] then None
          else Some (Reply 200 (header_set ''Content-Type'' ''application/json'' h)
                 (OtherBody (json (ca_voices (md_capabilities mc)) m))))"

definition serve_local :: "bool \<Rightarrow> middleware" where
  "serve_local paused local r h = (if paused then send_error r h InferencePaused else local r h)"

definition send_loading_state :: "config \<Rightarrow> string \<Rightarrow> bool" where
  "send_loading_state c m =
     (case map_of (cf_models c) m of None \<Rightarrow> False | Some mc \<Rightarrow> md_send_loading mc = Some True)"

definition local_peer_handler ::
  "codec \<Rightarrow> config \<Rightarrow> (string list \<Rightarrow> string \<Rightarrow> string) \<Rightarrow> local_router \<Rightarrow> peer_router \<Rightarrow> bool \<Rightarrow> handler \<Rightarrow> handler \<Rightarrow> handler" where
  "local_peer_handler cd c json lr pr paused local peer r h =
     (case fetch_context cd (names_of c) (send_loading_state c) (strip_audio_api_prefix (strip_version_prefix r)) of
        (Inl e, r1) \<Rightarrow> send_error r1 h NoModelInContext
      | (Inr d, r1) \<Rightarrow>
          (case serve_configured_voices c json (rx_model_id d) r1 h of
             Some reply \<Rightarrow> reply
           | None \<Rightarrow>
               if handles lr (rx_model_id d) then serve_local paused local r1 h
               else if peer_handles pr (rx_model_id d) then peer r1 h
               else send_error r1 h NoRouterFound))"

section \<open>A request for a peer's model\<close>

lemma find_removed: "map_of (filter (\<lambda>(k, vs). P k) al) j = (if P j then map_of al j else None)"
  by (induction al) auto

lemma stripped_values:
  "header_values (strip_browser_request_headers h) k =
    (if k \<in> set browser_request_headers \<or> has_prefix k ''Sec-Fetch-'' then [] else header_values h k)"
proof -
  have "map_of (foldl (\<lambda>h j. AList.delete j h) h js) k = (if k \<in> set js then None else map_of h k)" for js
    by (induction js arbitrary: h) (auto simp: delete_conv)
  then have "map_of (strip_browser_request_headers h) k =
      (if k \<in> set browser_request_headers \<or> has_prefix k ''Sec-Fetch-'' then None else map_of h k)"
    unfolding strip_browser_request_headers_def find_removed [of "\<lambda>k. \<not> has_prefix k ''Sec-Fetch-''"] by simp
  then show ?thesis by (simp add: header_values_def)
qed

text \<open>A JSON request without a context, and what its rewriting gives.\<close>

lemma json_replaced:
  assumes "hr_method r \<noteq> ''GET''" and "contains (content_type r) ''application/json''" and "read_body r = Inr b"
    and "\<not> has_prefix (hr_path r) ''/upstream/''" and "cd_json_string cd b ''model'' = s"
    and "cd_json_set_model cd b m = Some b'"
  shows "replace_request_model cd s m r = Inr (invalidate_request_context (replace_request_body b' (set_body b r)))"
  using assms by (simp add: replace_request_model_def extract_model_def extract_json new_context_def replace_body_model_def)

lemma json_context:
  assumes "hr_method r \<noteq> ''GET''" and "contains (content_type r) ''application/json''" and "read_body r = Inr b"
    and "\<not> has_prefix (hr_path r) ''/upstream/''" and "hr_context r = None" and "cd_json_string cd b ''model'' = s"
    and "s \<noteq> []" and "real_model_name ns s = None"
  obtains d where "fetch_context cd ns loading r = (Inr d, (set_body b r)\<lparr>hr_context := Some d\<rparr>)"
    and "rx_model d = s" and "rx_model_id d = s"
proof -
  let ?d = "(new_context cd r s (cd_json_bool cd b ''stream''))\<lparr>rx_model_id := s, rx_loading := loading s\<rparr>"
  show ?thesis by (rule that [of ?d]) (use assms in \<open>simp_all add: fetch_context_def extract_json new_context_def Let_def\<close>)
qed

lemma replaced_path: "hr_path (invalidate_request_context (replace_request_body b r)) = hr_path r"
  by (simp add: invalidate_request_context_def replace_request_body_def)

lemma prefixes_keep:
  "hr_method (strip_audio_api_prefix (strip_version_prefix r)) = hr_method r"
  "content_type (strip_audio_api_prefix (strip_version_prefix r)) = content_type r"
  "read_body (strip_audio_api_prefix (strip_version_prefix r)) = read_body r"
  "hr_context (strip_audio_api_prefix (strip_version_prefix r)) = hr_context r"
  by (simp_all add: strip_audio_api_prefix_def strip_version_prefix_def content_type_def read_body_def split: option.split)

text \<open>What reaches a peer: its key in place of the client's, and nothing of the browser.\<close>

lemma outgoing_headers:
  "header_values (hr_headers (outgoing (set_peer_key key r))) k =
    (if k \<in> set browser_request_headers \<or> has_prefix k ''Sec-Fetch-'' then []
     else if key \<noteq> [] \<and> k = ''Authorization'' then [''Bearer '' @ key]
     else if key \<noteq> [] \<and> k = ''X-Api-Key'' then [key]
     else header_values (hr_headers r) k)"
  by (simp add: outgoing_def set_peer_key_def stripped_values)

lemma outgoing_path: "hr_path (outgoing (set_peer_key key r)) = hr_path r" "hr_body (outgoing (set_peer_key key r)) = hr_body r"
  by (simp_all add: outgoing_def set_peer_key_def)

text \<open>A request with its context, whose model resolves to a peer's.\<close>

lemma peer_dispatch:
  assumes "codec_laws cd" and "new_peer c = Inr pr" and "distinct (map fst (cf_peers c))"
    and "resolve_peer_model (names_of c) s = Some (p, m)" and "\<not> handles lr s" and "(p, pc) \<in> set (cf_peers c)"
    and "hr_method r1 = ''POST''" and "contains (content_type r1) ''application/json''" and "read_body r1 = Inr b"
    and "cd_json_string cd b ''model'' = s" and "cd_json_set_model cd b m = Some b'" and "\<not> has_prefix (hr_path r1) ''/upstream/''"
    and fetch: "fetch_context cd (names_of c) (send_loading_state c) (strip_audio_api_prefix (strip_version_prefix r)) = (Inr d, r1)"
    and d: "rx_model d = s" "rx_model_id d = s" "hr_context r1 = Some d"
  shows "\<exists>out r3. local_peer_handler cd c json lr pr paused local (peer_serve cd (names_of c) loading errmsg send pr False) r h =
      peer_reply (send p out) r3 h \<and>
    hr_body out = (if s = m then b else b') \<and> hr_path out = hr_path r1 \<and>
    (pe_api_key pc \<noteq> [] \<longrightarrow>
       header_values (hr_headers out) ''Authorization'' = [''Bearer '' @ pe_api_key pc] \<and>
       header_values (hr_headers out) ''X-Api-Key'' = [pe_api_key pc]) \<and>
    (\<forall>k\<in>set browser_request_headers. header_values (hr_headers out) k = [])"
proof -
  obtain q where q: "map_of (pr_routes pr) s = Some q" "route_name q = (p, m)"
    using peer_resolves [OF assms(2,3), of s] assms(4) by (cases "map_of (pr_routes pr) s") simp_all
  have key: "pm_api_key (fst q) = pe_api_key pc" using peer_keys [OF assms(2,3) q(1)] q(2) assms(6) by simp
  have get: "hr_method r1 \<noteq> ''GET''" using assms(7) by simp
  let ?r2 = "if s \<noteq> m then replace_request_model cd s m r1 else Inr r1"
  obtain r2 where r2: "?r2 = Inr r2" "hr_path r2 = hr_path r1" "hr_body r2 = (if s = m then b else b')"
  proof (cases "s = m")
    case True
    with that [of r1] read_body_Inr [OF assms(9)] show ?thesis by simp
  next
    case False
    with that json_replaced [OF get assms(8,9,12,10,11)] show ?thesis by (simp add: replaced_body_simps replaced_path)
  qed
  have "fetch_context cd (names_of c) loading r1 = (Inr d, r1)" using d(3) by (simp add: fetch_context_def)
  then have "peer_serve cd (names_of c) loading errmsg send pr False r1 h =
      peer_proxy send (fst q) (set_peer_key (pe_api_key pc) r2) h"
    using q(1) r2(1) q(2) by (cases q; cases "s = m") (simp_all add: peer_serve_def d key [symmetric])
  then have serve: "peer_serve cd (names_of c) loading errmsg send pr False r1 h =
      peer_reply (send p (outgoing (set_peer_key (pe_api_key pc) r2))) (set_peer_key (pe_api_key pc) r2) h"
    using q(2) by (simp add: peer_proxy_def)
  have voices: "serve_configured_voices c json s r1 h = None"
    using assms(7) by (simp add: serve_configured_voices_def)
  have "local_peer_handler cd c json lr pr paused local (peer_serve cd (names_of c) loading errmsg send pr False) r h =
      peer_reply (send p (outgoing (set_peer_key (pe_api_key pc) r2))) (set_peer_key (pe_api_key pc) r2) h"
    using serve voices assms(5) q(1) by (simp add: local_peer_handler_def fetch d peer_handles_def)
  moreover have "header_values (hr_headers (outgoing (set_peer_key (pe_api_key pc) r2))) ''Authorization'' = [''Bearer '' @ pe_api_key pc]"
      "header_values (hr_headers (outgoing (set_peer_key (pe_api_key pc) r2))) ''X-Api-Key'' = [pe_api_key pc]" if "pe_api_key pc \<noteq> []"
    using that by (simp_all add: outgoing_headers browser_request_headers_def)
  ultimately show ?thesis using r2(2,3) outgoing_headers [of "pe_api_key pc" r2]
    by (intro exI [of _ "outgoing (set_peer_key (pe_api_key pc) r2)"] exI conjI) (simp_all add: outgoing_path)
qed

text \<open>
  A JSON request whose model resolves to a peer's model, and to no local one, goes to exactly that peer: its body then names
  the model the way the peer knows it, it carries the peer's API key in place of whatever credentials the
  client sent, and nothing of the browser's headers.
\<close>

lemma peer_request_dispatched:
  assumes "codec_laws cd" and "new_peer c = Inr pr" and "distinct (map fst (cf_peers c))"
    and "resolve_peer_model (names_of c) s = Some (p, m)" and "real_model_name (names_of c) s = None" and "\<not> handles lr s"
    and "(p, pc) \<in> set (cf_peers c)"
    and "hr_method r = ''POST''" and "contains (content_type r) ''application/json''" and "read_body r = Inr b"
    and "hr_context r = None" and "cd_json_string cd b ''model'' = s" and "s \<noteq> []"
    and "cd_json_set_model cd b m \<noteq> None"
    and "\<not> has_prefix (hr_path (strip_audio_api_prefix (strip_version_prefix r))) ''/upstream/''"
  shows "\<exists>out r3. local_peer_handler cd c json lr pr paused local (peer_serve cd (names_of c) loading errmsg send pr False) r h =
      peer_reply (send p out) r3 h \<and>
    cd_json_string cd (hr_body out) ''model'' = m \<and>
    hr_path out = hr_path (strip_audio_api_prefix (strip_version_prefix r)) \<and>
    (pe_api_key pc \<noteq> [] \<longrightarrow>
       header_values (hr_headers out) ''Authorization'' = [''Bearer '' @ pe_api_key pc] \<and>
       header_values (hr_headers out) ''X-Api-Key'' = [pe_api_key pc]) \<and>
    (\<forall>k\<in>set browser_request_headers. header_values (hr_headers out) k = [])"
proof -
  let ?r = "strip_audio_api_prefix (strip_version_prefix r)"
  note kept = prefixes_keep [of r]
  have get: "hr_method ?r \<noteq> ''GET''" using assms(8) by (simp add: kept)
  obtain d where d: "fetch_context cd (names_of c) (send_loading_state c) ?r = (Inr d, (set_body b ?r)\<lparr>hr_context := Some d\<rparr>)"
      "rx_model d = s" "rx_model_id d = s"
    by (rule json_context [where r = ?r, OF get _ _ assms(15) _ assms(12,13,5)]) (use assms in \<open>simp_all add: kept\<close>)
  let ?r1 = "(set_body b ?r)\<lparr>hr_context := Some d\<rparr>"
  have r1: "hr_method ?r1 = ''POST''" "contains (content_type ?r1) ''application/json''" "read_body ?r1 = Inr b"
      "\<not> has_prefix (hr_path ?r1) ''/upstream/''" "hr_path ?r1 = hr_path ?r" "hr_context ?r1 = Some d"
    using assms(8,9,15) kept(2) by (simp_all add: kept(1) content_type_def read_body_def set_body_def)
  from assms(14) obtain b' where b': "cd_json_set_model cd b m = Some b'" by blast
  then have m: "cd_json_string cd (if s = m then b else b') ''model'' = m" using assms(1,12) by (auto simp: codec_laws_def)
  from peer_dispatch [OF assms(1-4,6,7) r1(1-3) assms(12) b' r1(4) d r1(6), where json = json and paused = paused and
      local = local and loading = loading and errmsg = errmsg and send = send and h = h]
  obtain out :: http_request and r3 where o: "local_peer_handler cd c json lr pr paused local (peer_serve cd (names_of c) loading errmsg send pr False) r h =
      peer_reply (send p out) r3 h" "hr_body out = (if s = m then b else b')" "hr_path out = hr_path ?r1"
      "pe_api_key pc \<noteq> [] \<longrightarrow> header_values (hr_headers out) ''Authorization'' = [''Bearer '' @ pe_api_key pc] \<and>
       header_values (hr_headers out) ''X-Api-Key'' = [pe_api_key pc]"
      "\<forall>k\<in>set browser_request_headers. header_values (hr_headers out) k = []"
    by (elim exE conjE) (rule that, assumption+)
  from o(4,5) show ?thesis
    by (intro exI [of _ out] exI [of _ r3] conjI) (simp_all only: o(1-3) m r1(5))
qed

definition demo_local :: local_router where
  "demo_local =
     \<lparr>lr_policy = GroupPolicy \<lparr>gs_groups = [], gs_table = []\<rparr>, lr_processes = [''a''],
      lr_fifo = router_config (GroupPolicy \<lparr>gs_groups = [], gs_table = []\<rparr>) [] []\<rparr>"

lemma demo_peers_local: "real_model_name (names_of demo_peers) ''p/m'' = None" "\<not> handles demo_local ''p/m''"
  by code_simp+

end
