(* ===== verification/Filters.thy ===== *)
theory Filters
  imports RequestModel
begin

text \<open>
  The filters on request bodies: their settings and how they are cleaned (\<open>internal/config/filters.go\<close>), the pipeline
  that rewrites a JSON body and the two middlewares around it (\<open>internal/server/filters.go\<close>).

  The packages that read and edit JSON by path (\<open>gjson\<close>, \<open>sjson\<close>) are the argument \<open>json_editor\<close>, with their laws for plain keys
  as \<open>editor_laws\<close>. The settings that a configuration holds for a model and a peer are the argument \<open>filter_config\<close>.
\<close>

section \<open>Settings\<close>

type_synonym params = "(string \<times> yval) list"

record filters =
  fi_strip :: string
  fi_set :: params
  fi_by_id :: "(string \<times> params) list"

definition protected_params :: "string list" where
  "protected_params = [''model'']"

definition clean_param :: "string list \<Rightarrow> string \<Rightarrow> string list" where
  "clean_param cleaned param =
     (let trimmed = trim_space param in
      if trimmed \<in> set protected_params \<or> trimmed = [] \<or> trimmed \<in> set cleaned then cleaned else cleaned @ [trimmed])"

definition sanitized_strip_params :: "filters \<Rightarrow> string list" where
  "sanitized_strip_params f =
     (if fi_strip f = [] then [] else sort (foldl clean_param [] (split_at (CHR '','') (fi_strip f))))"

text \<open>The cleaned parameters, their keys in order, and the keys that only fill what is undefined.\<close>

definition hard_param :: "params \<Rightarrow> string \<times> yval \<Rightarrow> params" where
  "hard_param result kv =
     (if has_suffix (fst kv) ''?'' \<or> fst kv \<in> set protected_params then result
      else AList.update (fst kv) (snd kv) result)"

definition soft_param :: "params \<times> string list \<Rightarrow> string \<times> yval \<Rightarrow> params \<times> string list" where
  "soft_param acc kv =
     (case acc of (result, soft) \<Rightarrow>
        if \<not> has_suffix (fst kv) ''?'' then acc
        else
          (let key = butlast (fst kv) in
           if key = [] \<or> key \<in> set protected_params then acc
           else if map_of result key \<noteq> None then acc
           else (AList.update key (snd kv) result, List.insert key soft)))"

definition sanitize_params :: "params \<Rightarrow> params \<times> string list \<times> string list" where
  "sanitize_params raw =
     (case foldl soft_param (foldl hard_param [] raw, []) raw of (result, soft) \<Rightarrow>
        (result, sort (map fst result), soft))"

definition sanitized_set_params :: "filters \<Rightarrow> params \<times> string list \<times> string list" where
  "sanitized_set_params f = (if fi_set f = [] then ([], [], []) else sanitize_params (fi_set f))"

definition sanitized_set_params_by_id :: "filters \<Rightarrow> string \<Rightarrow> params \<times> string list \<times> string list" where
  "sanitized_set_params_by_id f requested =
     (case map_of (fi_by_id f) requested of
        None \<Rightarrow> ([], [], [])
      | Some raw \<Rightarrow> if raw = [] then ([], [], []) else sanitize_params raw)"

section \<open>The pipeline\<close>

record json_editor =
  je_get :: "string \<Rightarrow> string \<Rightarrow> yval option"
  je_set :: "string \<Rightarrow> string \<Rightarrow> yval \<Rightarrow> string option"
  je_delete :: "string \<Rightarrow> string \<Rightarrow> string option"

datatype filter_error =
    RewritingModel
  | StrippingParam string
  | SettingParam string

definition strip_param :: "json_editor \<Rightarrow> string \<Rightarrow> string \<Rightarrow> filter_error + string" where
  "strip_param je param body = (case je_delete je body param of None \<Rightarrow> Inl (StrippingParam param) | Some b \<Rightarrow> Inr b)"

definition set_param :: "json_editor \<Rightarrow> params \<Rightarrow> string list \<Rightarrow> string \<Rightarrow> string \<Rightarrow> filter_error + string" where
  "set_param je ps soft key body =
     (if key \<in> set soft \<and> je_get je body key \<noteq> None then Inr body
      else case je_set je body key (the (map_of ps key)) of None \<Rightarrow> Inl (SettingParam key) | Some b \<Rightarrow> Inr b)"

definition set_stage :: "json_editor \<Rightarrow> params \<times> string list \<times> string list \<Rightarrow> string \<Rightarrow> filter_error + string" where
  "set_stage je stage body = (case stage of (ps, keys, soft) \<Rightarrow> foldE (set_param je ps soft) keys body)"

definition apply_filters :: "json_editor \<Rightarrow> string \<Rightarrow> string \<Rightarrow> string \<Rightarrow> filters \<Rightarrow> filter_error + string" where
  "apply_filters je body requested use_model_name f =
     bindE (if use_model_name = [] then Inr body
            else case je_set je body ''model'' (VStr use_model_name) of None \<Rightarrow> Inl RewritingModel | Some b \<Rightarrow> Inr b) (\<lambda>body.
     bindE (foldE (strip_param je) (sanitized_strip_params f) body) (\<lambda>body.
     bindE (set_stage je (sanitized_set_params f) body)
           (set_stage je (sanitized_set_params_by_id f requested))))"

section \<open>The middlewares\<close>

text \<open>Per model the name to use upstream and its filters; per peer its filters.\<close>

record filter_config =
  fc_models :: "(string \<times> string \<times> filters) list"
  fc_peers :: "(string \<times> filters) list"

definition no_filters :: filters where
  "no_filters = \<lparr>fi_strip = [], fi_set = [], fi_by_id = []\<rparr>"

definition resolve_filters :: "names \<Rightarrow> filter_config \<Rightarrow> string \<Rightarrow> (string \<times> filters) option" where
  "resolve_filters c fc requested =
     (case real_model_name c requested of
        Some real \<Rightarrow> Some (case map_of (fc_models fc) real of None \<Rightarrow> ([], no_filters) | Some uf \<Rightarrow> uf)
      | None \<Rightarrow>
          (case resolve_peer_model c requested of
             Some (peer, m) \<Rightarrow> Some ([], case map_of (fc_peers fc) peer of None \<Rightarrow> no_filters | Some f \<Rightarrow> f)
           | None \<Rightarrow> None))"

text \<open>\<open>errmsg\<close> renders a failed step.\<close>

definition filter_middleware ::
  "codec \<Rightarrow> names \<Rightarrow> (string \<Rightarrow> bool) \<Rightarrow> json_editor \<Rightarrow> (filter_error \<Rightarrow> string) \<Rightarrow> filter_config \<Rightarrow> middleware" where
  "filter_middleware cd c loading je errmsg fc nxt r h =
     (if \<not> contains (content_type r) ''application/json'' then nxt r h
      else case fetch_context cd c loading r of
        (Inl e, r1) \<Rightarrow> send_error r1 h NoModelInContext
      | (Inr d, r1) \<Rightarrow>
          (case resolve_filters c fc (rx_model d) of
             None \<Rightarrow> nxt r1 h
           | Some (use_name, f) \<Rightarrow>
               (case read_body r1 of
                  Inl e \<Rightarrow> send_response r1 h 400 ''could not read request body''
                | Inr body \<Rightarrow>
                    (case apply_filters je body (rx_model d) use_name f of
                       Inl e \<Rightarrow> send_response r1 h 500 (errmsg e)
                     | Inr b \<Rightarrow> nxt (replace_request_body b r1) h))))"

definition form_filter_middleware ::
  "codec \<Rightarrow> names \<Rightarrow> (string \<Rightarrow> bool) \<Rightarrow> (replace_error \<Rightarrow> string) \<Rightarrow> filter_config \<Rightarrow> middleware" where
  "form_filter_middleware cd c loading errmsg fc nxt r h =
     (if \<not> contains (content_type r) ''multipart/form-data'' then nxt r h
      else case fetch_context cd c loading r of
        (Inl e, r1) \<Rightarrow> send_error r1 h NoModelInContext
      | (Inr d, r1) \<Rightarrow>
          (case resolve_filters c fc (rx_model d) of
             None \<Rightarrow> nxt r1 h
           | Some (use_name, f) \<Rightarrow>
               if use_name = [] then nxt r1 h
               else (case replace_request_model cd (rx_model d) use_name r1 of
                  Inl e \<Rightarrow> send_response r1 h 400 (errmsg e)
                | Inr r2 \<Rightarrow> nxt (r2\<lparr>hr_context := hr_context r1\<rparr>) h)))"

section \<open>The cleaned parameters\<close>

lemma has_suffix_snoc: "has_suffix (k @ ''?'') ''?''"
  by (auto simp: has_suffix_iff)

lemma suffix_cases:
  obtains "\<not> has_suffix k ''?''" | j where "k = j @ ''?''"
  by (auto simp: has_suffix_iff)

lemma hard_params:
  assumes "distinct (map fst raw)"
  shows "map_of (foldl hard_param ps raw) k =
    (if has_suffix k ''?'' \<or> k \<in> set protected_params then map_of ps k
     else case map_of raw k of None \<Rightarrow> map_of ps k | Some v \<Rightarrow> Some v)"
  using assms
proof (induction raw arbitrary: ps)
  case (Cons kv raw)
  have step: "map_of (hard_param ps kv) k =
      (if k = fst kv \<and> \<not> has_suffix k ''?'' \<and> k \<notin> set protected_params then Some (snd kv) else map_of ps k)" for k
    by (auto simp: hard_param_def)
  have "map_of raw k = None" if "k = fst kv" using Cons.prems that by (simp add: map_of_eq_None_iff)
  moreover have "map_of (kv # raw) k = (if k = fst kv then Some (snd kv) else map_of raw k)" by (cases kv) simp
  ultimately show ?case using Cons.IH [of "hard_param ps kv"] Cons.prems by (auto simp: step split: option.split)
qed (simp split: option.split)

lemma hard_params_distinct: "distinct (map fst ps) \<Longrightarrow> distinct (map fst (foldl hard_param ps raw))"
  by (induction raw arbitrary: ps) (auto simp: hard_param_def distinct_update)

definition soft_allowed :: "string \<Rightarrow> bool" where
  "soft_allowed k \<longleftrightarrow> k \<noteq> [] \<and> k \<notin> set protected_params"

lemma soft_step:
  "soft_param (ps, soft) kv =
    (if has_suffix (fst kv) ''?'' \<and> soft_allowed (butlast (fst kv)) \<and> map_of ps (butlast (fst kv)) = None
     then (AList.update (butlast (fst kv)) (snd kv) ps, List.insert (butlast (fst kv)) soft) else (ps, soft))"
  by (auto simp: soft_param_def soft_allowed_def Let_def)

lemma soft_params:
  assumes "distinct (map fst raw)" and "foldl soft_param (ps, soft) raw = (ps', soft')"
  shows "map_of ps' k = (case map_of ps k of Some v \<Rightarrow> Some v | None \<Rightarrow> if soft_allowed k then map_of raw (k @ ''?'') else None)
    \<and> (k \<in> set soft' \<longleftrightarrow> k \<in> set soft \<or> map_of ps k = None \<and> soft_allowed k \<and> map_of raw (k @ ''?'') \<noteq> None)
    \<and> (distinct (map fst ps) \<longrightarrow> distinct (map fst ps'))"
  using assms
proof (induction raw arbitrary: ps soft)
  case (Cons kv raw)
  obtain ps1 soft1 where s1: "soft_param (ps, soft) kv = (ps1, soft1)" by fastforce
  note ih = Cons.IH [OF _ Cons.prems(2) [unfolded foldl_Cons s1]]
  have new: "map_of raw (fst kv) = None" using Cons.prems(1) by (simp add: map_of_eq_None_iff)
  have map1: "map_of ps1 k = (case map_of ps k of Some v \<Rightarrow> Some v
      | None \<Rightarrow> if soft_allowed k \<and> fst kv = k @ ''?'' then Some (snd kv) else None)"
    using s1 unfolding soft_step by (cases "fst kv" rule: suffix_cases) (auto simp: has_suffix_snoc split: if_splits option.split)
  have set1: "k \<in> set soft1 \<longleftrightarrow> k \<in> set soft \<or> map_of ps k = None \<and> soft_allowed k \<and> fst kv = k @ ''?''"
    using s1 unfolding soft_step by (cases "fst kv" rule: suffix_cases) (auto simp: has_suffix_snoc split: if_splits)
  have dist1: "distinct (map fst ps) \<longrightarrow> distinct (map fst ps1)"
    using s1 unfolding soft_step by (auto simp: distinct_update split: if_splits)
  have raw: "map_of (kv # raw) (k @ ''?'') = (if fst kv = k @ ''?'' then Some (snd kv) else map_of raw (k @ ''?''))"
    by (cases kv) auto
  show ?case using ih Cons.prems(1) new unfolding raw map1 set1 using dist1 by (auto split: option.split)
qed (simp split: option.split)

text \<open>What the settings make of one parameter: a hard value replaces it, a soft one fills it.\<close>

definition param_after :: "params \<Rightarrow> string \<Rightarrow> yval option \<Rightarrow> yval option" where
  "param_after raw k v =
     (if k \<in> set protected_params then v
      else case map_of raw k of
        Some w \<Rightarrow> Some w
      | None \<Rightarrow> (case v of Some x \<Rightarrow> Some x | None \<Rightarrow> map_of raw (k @ ''?'')))"

definition plain_chars :: string where
  "plain_chars = ''abcdefghijklmnopqrstuvwxyzABCDEFGHIJKLMNOPQRSTUVWXYZ0123456789_-''"

definition plain_key :: "string \<Rightarrow> bool" where
  "plain_key k \<longleftrightarrow> k \<noteq> [] \<and> set k \<subseteq> set plain_chars"

definition plain_params :: "params \<Rightarrow> bool" where
  "plain_params raw \<longleftrightarrow> distinct (map fst raw) \<and>
     list_all (\<lambda>(k, v). plain_key (if has_suffix k ''?'' then butlast k else k)) raw"

definition plain_filters :: "filters \<Rightarrow> bool" where
  "plain_filters f \<longleftrightarrow>
     list_all (\<lambda>p. trim_space p = [] \<or> plain_key (trim_space p)) (split_at (CHR '','') (fi_strip f)) \<and>
     plain_params (fi_set f) \<and> list_all (\<lambda>(m, raw). plain_params raw) (fi_by_id f)"

lemma plain_no_suffix: "plain_key k \<Longrightarrow> \<not> has_suffix k ''?''"
  by (auto simp: plain_key_def has_suffix_iff plain_chars_def)

lemma sanitized_params:
  assumes "plain_params raw" and "sanitize_params raw = (ps, keys, soft)"
  shows "plain_key k \<Longrightarrow> map_of ps k = (if k \<in> set protected_params then None else param_after raw k None)"
    and "plain_key k \<Longrightarrow> k \<in> set soft \<longleftrightarrow> map_of ps k \<noteq> None \<and> map_of raw k = None"
    and "distinct keys" and "set keys = fst ` set ps" and "j \<in> set keys \<Longrightarrow> plain_key j"
proof -
  let ?hard = "foldl hard_param [] raw"
  have d: "distinct (map fst raw)" using assms(1) by (simp add: plain_params_def)
  have s: "foldl soft_param (?hard, []) raw = (ps, soft)" and keys: "keys = sort (map fst ps)"
    using assms(2) by (auto simp: sanitize_params_def split: prod.splits)
  note hard = hard_params [OF d, of "[]"] and soft = soft_params [OF d s]
  show 1: "map_of ps k = (if k \<in> set protected_params then None else param_after raw k None)" if "plain_key k" for k
    using soft [of k] hard [of k] plain_no_suffix [OF that] that
    by (auto simp: param_after_def soft_allowed_def plain_key_def split: option.splits)
  show "k \<in> set soft \<longleftrightarrow> map_of ps k \<noteq> None \<and> map_of raw k = None" if "plain_key k"
    using soft [of k] hard [of k] plain_no_suffix [OF that] that by (auto simp: soft_allowed_def split: option.splits)
  show "distinct keys" using soft hard_params_distinct [of "[]" raw] by (simp add: keys)
  show "set keys = fst ` set ps" by (simp add: keys)
  show "plain_key j" if "j \<in> set keys"
  proof -
    from that have "map_of ps j \<noteq> None" by (simp add: keys map_of_eq_None_iff)
    then have "\<not> has_suffix j ''?'' \<and> map_of raw j \<noteq> None \<or> map_of raw (j @ ''?'') \<noteq> None"
      using soft [of j] hard [of j] by (auto split: option.splits if_splits)
    moreover have "plain_key (if has_suffix i ''?'' then butlast i else i)" if "map_of raw i \<noteq> None" for i
      using assms(1) that by (auto simp: plain_params_def list_all_iff dest!: map_of_SomeD)
    ultimately show ?thesis using has_suffix_snoc [of j] by fastforce
  qed
qed

section \<open>The pipeline against its reference\<close>

text \<open>
  What is relied on of the JSON editor, for plain keys (no dots, wildcards or modifiers) and the bodies that are JSON objects in
  which no key occurs twice: setting a key to a value that can be written as JSON and deleting a key succeed and
  give such a body again; the value set is read back, the deleted key is gone, and the other plain keys keep their values. On other
  bodies nothing is relied on: of a key that occurs twice the editor deletes one occurrence, and in an array a number is an index.
\<close>

definition edited :: "json_editor \<Rightarrow> (string \<Rightarrow> bool) \<Rightarrow> (string \<Rightarrow> yval option \<Rightarrow> yval option) \<Rightarrow> string \<Rightarrow> string \<Rightarrow> bool" where
  "edited je object g b b' \<longleftrightarrow> object b' \<and> (\<forall>j. plain_key j \<longrightarrow> je_get je b' j = g j (je_get je b j))"

definition editor_laws :: "json_editor \<Rightarrow> (string \<Rightarrow> bool) \<Rightarrow> (yval \<Rightarrow> bool) \<Rightarrow> bool" where
  "editor_laws je object marshals \<longleftrightarrow>
     (\<forall>b k v. object b \<longrightarrow> plain_key k \<longrightarrow> marshals v \<longrightarrow>
        (\<exists>b'. je_set je b k v = Some b' \<and> edited je object (\<lambda>j w. if j = k then Some v else w) b b')) \<and>
     (\<forall>b k. object b \<longrightarrow> plain_key k \<longrightarrow>
        (\<exists>b'. je_delete je b k = Some b' \<and> edited je object (\<lambda>j w. if j = k then None else w) b b'))"

lemma editor_set:
  assumes "editor_laws je object marshals" and "object b" and "plain_key k" and "marshals v"
  obtains b' where "je_set je b k v = Some b'" and "edited je object (\<lambda>j w. if j = k then Some v else w) b b'"
  using assms unfolding editor_laws_def by blast

lemma editor_delete:
  assumes "editor_laws je object marshals" and "object b" and "plain_key k"
  obtains b' where "je_delete je b k = Some b'" and "edited je object (\<lambda>j w. if j = k then None else w) b b'"
  using assms unfolding editor_laws_def by blast

lemma edited_object: "edited je object g b b' \<Longrightarrow> object b'"
  by (simp add: edited_def)

lemma edited_get: "edited je object g b b' \<Longrightarrow> plain_key k \<Longrightarrow> je_get je b' k = g k (je_get je b k)"
  by (simp add: edited_def)

lemma edited_same: "object b \<Longrightarrow> edited je object (\<lambda>j w. w) b b"
  by (simp add: edited_def)

lemma edited_trans:
  "edited je object g b b1 \<Longrightarrow> edited je object g' b1 b2 \<Longrightarrow> (\<And>j w. plain_key j \<Longrightarrow> g' j (g j w) = g2 j w) \<Longrightarrow>
    edited je object g2 b b2"
  by (simp add: edited_def)

lemma stripped:
  assumes "editor_laws je object marshals"
  shows "object b \<Longrightarrow> list_all plain_key ps \<Longrightarrow>
    \<exists>b'. foldE (strip_param je) ps b = Inr b' \<and> edited je object (\<lambda>j w. if j \<in> set ps then None else w) b b'"
proof (induction ps arbitrary: b)
  case (Cons p ps)
  obtain b1 where b1: "je_delete je b p = Some b1" "edited je object (\<lambda>j w. if j = p then None else w) b b1"
    using editor_delete [OF assms Cons.prems(1)] Cons.prems(2) by auto
  obtain b' where b': "foldE (strip_param je) ps b1 = Inr b'" "edited je object (\<lambda>j w. if j \<in> set ps then None else w) b1 b'"
    using Cons.IH [OF edited_object [OF b1(2)]] Cons.prems(2) by auto
  have "edited je object (\<lambda>j w. if j \<in> set (p # ps) then None else w) b b'" by (rule edited_trans [OF b1(2) b'(2)]) auto
  moreover have "strip_param je p b = Inr b1" by (simp add: strip_param_def b1(1))
  ultimately show ?case using b'(1) by simp
qed (auto simp: edited_def)

text \<open>One key of a stage, and all of them.\<close>

definition keyed :: "params \<Rightarrow> string list \<Rightarrow> string set \<Rightarrow> string \<Rightarrow> yval option \<Rightarrow> yval option" where
  "keyed ps soft K j w = (if j \<in> K \<and> \<not> (j \<in> set soft \<and> w \<noteq> None) then Some (the (map_of ps j)) else w)"

lemma set_key:
  assumes "editor_laws je object marshals" and "object b" and "plain_key k" and "marshals (the (map_of ps k))"
  shows "\<exists>b'. set_param je ps soft k b = Inr b' \<and> edited je object (keyed ps soft {k}) b b'"
proof (cases "k \<in> set soft \<and> je_get je b k \<noteq> None")
  case True
  then have "edited je object (keyed ps soft {k}) b b" using assms(2) by (auto simp: edited_def keyed_def)
  with True show ?thesis by (simp add: set_param_def)
next
  case False
  obtain b' where b': "je_set je b k (the (map_of ps k)) = Some b'"
      "edited je object (\<lambda>j w. if j = k then Some (the (map_of ps k)) else w) b b'"
    by (rule editor_set [OF assms])
  then have "edited je object (keyed ps soft {k}) b b'" using False by (auto simp: edited_def keyed_def)
  with b'(1) False show ?thesis by (auto simp: set_param_def)
qed

lemma set_keys:
  assumes "editor_laws je object marshals"
  shows "object b \<Longrightarrow> list_all plain_key keys \<Longrightarrow> (\<And>k. k \<in> set keys \<Longrightarrow> marshals (the (map_of ps k))) \<Longrightarrow> distinct keys \<Longrightarrow>
    \<exists>b'. foldE (set_param je ps soft) keys b = Inr b' \<and> edited je object (keyed ps soft (set keys)) b b'"
proof (induction keys arbitrary: b)
  case Nil
  then show ?case by (simp add: edited_def keyed_def)
next
  case (Cons k keys)
  obtain b1 where b1: "set_param je ps soft k b = Inr b1" "edited je object (keyed ps soft {k}) b b1"
    using set_key [OF assms Cons.prems(1), of k ps soft] Cons.prems(2,3) by auto
  obtain b' where b': "foldE (set_param je ps soft) keys b1 = Inr b'" "edited je object (keyed ps soft (set keys)) b1 b'"
    using Cons.IH [OF edited_object [OF b1(2)]] Cons.prems(2-4) by auto
  have "edited je object (keyed ps soft (set (k # keys))) b b'"
    by (rule edited_trans [OF b1(2) b'(2)]) (use Cons.prems(4) in \<open>auto simp: keyed_def\<close>)
  with b1(1) b'(1) show ?case by simp
qed

lemma set_stage_after:
  assumes "editor_laws je object marshals" and "object b" and "plain_params raw" and "list_all (\<lambda>(k, v). marshals v) raw"
  obtains b' where "set_stage je (sanitize_params raw) b = Inr b'" and "edited je object (param_after raw) b b'"
proof -
  obtain ps keys soft where s: "sanitize_params raw = (ps, keys, soft)" by (cases "sanitize_params raw")
  note c = sanitized_params [OF assms(3) s]
  have k: "j \<in> set keys \<longleftrightarrow> map_of ps j \<noteq> None" for j unfolding c(4) by (simp add: map_of_eq_None_iff)
  have m: "marshals (the (map_of ps j))" if key: "j \<in> set keys" for j
  proof -
    obtain v where v: "map_of ps j = Some v" using key k by auto
    then have "map_of raw j = Some v \<or> map_of raw (j @ ''?'') = Some v"
      using c(1) [OF c(5) [OF key]] by (auto simp: param_after_def split: if_splits option.splits)
    with v assms(4) show ?thesis by (auto simp: list_all_iff dest!: map_of_SomeD)
  qed
  have "list_all plain_key keys" using c(5) by (simp add: list_all_iff)
  from set_keys [OF assms(1,2) this m c(3), of soft]
  obtain b' where b': "foldE (set_param je ps soft) keys b = Inr b'" "edited je object (keyed ps soft (set keys)) b b'" by blast
  have "keyed ps soft (set keys) j w = param_after raw j w" if "plain_key j" for j w
    unfolding keyed_def k c(2) [OF that] c(1) [OF that] by (auto simp: param_after_def split: option.splits)
  with b'(2) have "edited je object (param_after raw) b b'" by (simp add: edited_def)
  with b'(1) that show ?thesis by (simp add: set_stage_def s)
qed

lemma sanitized_strips:
  "set (sanitized_strip_params f) =
    (if fi_strip f = [] then {} else trim_space ` set (split_at (CHR '','') (fi_strip f)) - {[]} - set protected_params)"
proof -
  have "set (foldl clean_param acc ps) = set acc \<union> (trim_space ` set ps - {[]} - set protected_params)" for acc ps
    by (induction ps arbitrary: acc) (auto simp: clean_param_def Let_def)
  then show ?thesis by (simp add: sanitized_strip_params_def)
qed

lemma plain_model: "plain_key ''model''"
  by code_simp

definition params_for :: "filters \<Rightarrow> string \<Rightarrow> params" where
  "params_for f requested = (case map_of (fi_by_id f) requested of None \<Rightarrow> [] | Some raw \<Rightarrow> raw)"

definition strips_param :: "filters \<Rightarrow> string \<Rightarrow> bool" where
  "strips_param f k \<longleftrightarrow> fi_strip f \<noteq> [] \<and> k \<in> set (map trim_space (split_at (CHR '','') (fi_strip f)))"

text \<open>The reference: what becomes of each parameter by itself.\<close>

definition filtered_param :: "string \<Rightarrow> filters \<Rightarrow> string \<Rightarrow> string \<Rightarrow> yval option \<Rightarrow> yval option" where
  "filtered_param use_model_name f requested k v =
     (if k = ''model'' then (if use_model_name = [] then v else Some (VStr use_model_name))
      else param_after (params_for f requested) k (param_after (fi_set f) k (if strips_param f k then None else v)))"

lemma empty_stage: "set_stage je ([], [], []) = Inr" "sanitize_params [] = ([], [], [])"
  by (auto simp: set_stage_def sanitize_params_def)

lemma stripped_param: "plain_key k \<Longrightarrow> k \<in> set (sanitized_strip_params f) \<longleftrightarrow> k \<noteq> ''model'' \<and> strips_param f k"
proof -
  assume "plain_key k"
  then have "k \<noteq> []" by (simp add: plain_key_def)
  then show ?thesis by (simp add: sanitized_strips strips_param_def protected_params_def conj_commute)
qed

lemma plain_parts:
  assumes "plain_filters f"
  shows "plain_params (fi_set f)" and "plain_params (params_for f requested)" and "list_all plain_key (sanitized_strip_params f)"
proof -
  show "plain_params (fi_set f)" using assms by (simp add: plain_filters_def)
  show "plain_params (params_for f requested)"
  proof (cases "map_of (fi_by_id f) requested")
    case (Some raw)
    with assms show ?thesis by (auto simp: plain_filters_def params_for_def list_all_iff dest!: map_of_SomeD)
  qed (simp add: params_for_def plain_params_def)
  show "list_all plain_key (sanitized_strip_params f)" using assms by (auto simp: plain_filters_def list_all_iff sanitized_strips)
qed

lemma sanitized_stages:
  "sanitized_set_params f = sanitize_params (fi_set f)"
  "sanitized_set_params_by_id f requested = sanitize_params (params_for f requested)"
  by (simp_all add: sanitized_set_params_def sanitized_set_params_by_id_def params_for_def empty_stage split: option.split)

definition values_marshal :: "(yval \<Rightarrow> bool) \<Rightarrow> string \<Rightarrow> filters \<Rightarrow> bool" where
  "values_marshal marshals use_model_name f \<longleftrightarrow>
     (use_model_name = [] \<or> marshals (VStr use_model_name)) \<and>
     list_all (\<lambda>(k, v). marshals v) (fi_set f) \<and> list_all (\<lambda>(m, raw). list_all (\<lambda>(k, v). marshals v) raw) (fi_by_id f)"

lemma params_for_marshal:
  assumes "values_marshal marshals use_name f"
  shows "list_all (\<lambda>(k, v). marshals v) (params_for f requested)"
proof (cases "map_of (fi_by_id f) requested")
  case (Some raw)
  from map_of_SomeD [OF this] assms Some show ?thesis by (auto simp: values_marshal_def params_for_def list_all_iff)
qed (simp add: params_for_def)

lemma applied_filters:
  assumes "editor_laws je object marshals" and "plain_filters f" and "object b" and "values_marshal marshals use_name f"
  obtains b' where "apply_filters je b requested use_name f = Inr b'"
    and "edited je object (filtered_param use_name f requested) b b'"
proof -
  note p = plain_parts [OF assms(2)]
  obtain b1 where
    b1: "(if use_name = [] then Inr b else case je_set je b ''model'' (VStr use_name) of None \<Rightarrow> Inl RewritingModel | Some b \<Rightarrow> Inr b) = Inr b1"
    and g1: "edited je object (\<lambda>j w. if j = ''model'' \<and> use_name \<noteq> [] then Some (VStr use_name) else w) b b1"
  proof (cases "use_name = []")
    case True
    with edited_same [of object, OF assms(3)] show ?thesis by (intro that [of b]) simp_all
  next
    case False
    with assms(4) have "marshals (VStr use_name)" by (simp add: values_marshal_def)
    from editor_set [OF assms(1,3) plain_model this] False show ?thesis using that by fastforce
  qed
  obtain b2 where b2: "foldE (strip_param je) (sanitized_strip_params f) b1 = Inr b2"
    and g2: "edited je object (\<lambda>j w. if j \<in> set (sanitized_strip_params f) then None else w) b1 b2"
    using stripped [OF assms(1) edited_object [OF g1] p(3)] by blast
  have "list_all (\<lambda>(k, v). marshals v) (fi_set f)" using assms(4) by (simp add: values_marshal_def)
  from set_stage_after [OF assms(1) edited_object [OF g2] p(1) this]
  obtain b3 where b3: "set_stage je (sanitize_params (fi_set f)) b2 = Inr b3" and g3: "edited je object (param_after (fi_set f)) b2 b3"
    by blast
  from set_stage_after [OF assms(1) edited_object [OF g3] p(2) params_for_marshal [OF assms(4)], of requested]
  obtain b4 where b4: "set_stage je (sanitize_params (params_for f requested)) b3 = Inr b4"
    and g4: "edited je object (param_after (params_for f requested)) b3 b4" by blast
  have "edited je object (\<lambda>j w. if j = ''model'' \<and> use_name \<noteq> [] then Some (VStr use_name)
      else if j \<noteq> ''model'' \<and> strips_param f j then None else w) b b2"
    by (rule edited_trans [OF g1 g2]) (auto simp: stripped_param)
  from edited_trans [OF edited_trans [OF this g3 refl] g4] have "edited je object (filtered_param use_name f requested) b b4"
    by (simp add: filtered_param_def param_after_def protected_params_def)
  with b1 b2 b3 b4 that show ?thesis by (simp add: apply_filters_def sanitized_stages)
qed


text \<open>A small editor: a body is a list of keys and texts, every character marked and every text ended by a full stop.\<close>

fun put_text :: "string \<Rightarrow> string" where
  "put_text [] = ''.''"
| "put_text (c # s) = CHR ''x'' # c # put_text s"

fun get_text :: "string \<Rightarrow> string \<times> string" where
  "get_text [] = ([], [])"
| "get_text [c] = ([], [])"
| "get_text (m # c # s) = (if m = CHR ''x'' then (case get_text s of (t, rest) \<Rightarrow> (c # t, rest)) else ([], c # s))"

fun put_pairs :: "(string \<times> string) list \<Rightarrow> string" where
  "put_pairs [] = []"
| "put_pairs ((k, v) # ps) = put_text k @ put_text v @ put_pairs ps"

fun get_pairs :: "nat \<Rightarrow> string \<Rightarrow> (string \<times> string) list" where
  "get_pairs 0 b = []"
| "get_pairs (Suc n) b =
     (if b = [] then [] else case get_text b of (k, r) \<Rightarrow> (case get_text r of (v, r') \<Rightarrow> (k, v) # get_pairs n r'))"

lemma put_text_nonempty: "put_text s \<noteq> []"
  by (cases s) simp_all

lemma get_put_text: "get_text (put_text s @ t) = (s, t)"
proof (induction s)
  case Nil
  show ?case by (cases t) simp_all
qed simp

lemma get_put_pairs: "length ps \<le> n \<Longrightarrow> get_pairs n (put_pairs ps) = ps"
proof (induction ps arbitrary: n)
  case Nil
  show ?case by (cases n) simp_all
next
  case (Cons p ps)
  then show ?case by (cases p; cases n) (simp_all add: get_put_text put_text_nonempty)
qed

lemma put_pairs_length: "length ps \<le> length (put_pairs ps)"
proof (induction ps)
  case (Cons p ps)
  have "1 \<le> length (put_text (fst p))" by (cases "fst p") simp_all
  with Cons show ?case by (cases p) simp
qed simp

definition demo_pairs :: "string \<Rightarrow> (string \<times> string) list" where
  "demo_pairs b = get_pairs (length b) b"

definition demo_editor :: json_editor where
  "demo_editor =
     \<lparr>je_get = (\<lambda>b k. map_option VStr (map_of (demo_pairs b) k)),
      je_set = (\<lambda>b k v. case v of VStr s \<Rightarrow> Some (put_pairs (AList.update k s (demo_pairs b))) | _ \<Rightarrow> None),
      je_delete = (\<lambda>b k. Some (put_pairs (AList.delete k (demo_pairs b))))\<rparr>"

lemma demo_pairs_put: "demo_pairs (put_pairs ps) = ps"
  by (simp add: demo_pairs_def get_put_pairs put_pairs_length)

definition demo_object :: "string \<Rightarrow> bool" where
  "demo_object b \<longleftrightarrow> put_pairs (demo_pairs b) = b \<and> distinct (map fst (demo_pairs b))"

definition demo_marshals :: "yval \<Rightarrow> bool" where
  "demo_marshals v \<longleftrightarrow> (case v of VStr s \<Rightarrow> True | _ \<Rightarrow> False)"

lemma demo_editor_laws: "editor_laws demo_editor demo_object demo_marshals"
  by (auto simp: editor_laws_def edited_def demo_object_def demo_marshals_def demo_editor_def demo_pairs_put update_conv' delete_conv
      distinct_update distinct_delete split: yval.splits)

definition demo_filters :: filters where
  "demo_filters =
     \<lparr>fi_strip = ''top_k, model'', fi_set = [(''temperature'', VStr ''1''), (''seed?'', VStr ''7'')],
      fi_by_id = [(''b'', [(''temperature'', VStr ''2'')])]\<rparr>"

definition pairs_codec :: codec where
  "pairs_codec = demo_codec\<lparr>cd_json_string := (\<lambda>b k. case map_of (demo_pairs b) k of None \<Rightarrow> [] | Some v \<Rightarrow> v)\<rparr>"

definition pairs_body :: string where
  "pairs_body = put_pairs [(''model'', ''b''), (''top_k'', ''5''), (''seed'', ''3'')]"


end
