(* ===== verification/Routes.thy ===== *)
theory Routes
  imports PeerServe Filters
begin

text \<open>
  The HTTP surface of the server: the table of routes and the chains of middlewares before each handler (\<open>routes\<close> in
  \<open>internal/server/server.go\<close>), the passthroughs under \<open>/upstream\<close>, \<open>/comfyui\<close> and \<open>/audiocpp\<close> and the redirects
  (\<open>api.go\<close>, \<open>comfyui.go\<close>, \<open>audiocpp.go\<close>).

  Of \<open>http.ServeMux\<close> the table uses exact paths, one wildcard segment and trailing wildcards; the exact path
  wins. What the multiplexer answers by itself (cleaned paths, 404, 405) is the argument \<open>unmatched\<close>.
  The handlers of the API and the middlewares with a state of their own are arguments.
\<close>

section \<open>Redirects and the passthroughs\<close>

definition redirect_relative :: "string \<Rightarrow> nat \<Rightarrow> headers \<Rightarrow> reply" where
  "redirect_relative target code h = Reply code (header_set ''Location'' target h) NoBody"

definition handle_health :: handler where
  "handle_health r h = Reply 200 h (OtherBody ''OK'')"

definition handle_root_redirect :: handler where
  "handle_root_redirect r h = redirect_relative ''ui/'' 302 h"

definition handle_upstream_redirect :: handler where
  "handle_upstream_redirect r h = redirect_relative ''ui/#/models'' 302 h"

definition with_query :: "http_request \<Rightarrow> string \<Rightarrow> string" where
  "with_query r target = (if hr_query r \<noteq> [] then target @ ''?'' @ hr_query r else target)"

definition permanent_status :: "http_request \<Rightarrow> nat" where
  "permanent_status r = (if hr_method r = ''GET'' \<or> hr_method r = ''HEAD'' then 301 else 308)"

definition handle_comfyui_redirect :: handler where
  "handle_comfyui_redirect r h = redirect_relative (with_query r ''comfyui/'') (permanent_status r) h"

definition handle_audiocpp_redirect :: handler where
  "handle_audiocpp_redirect r h = redirect_relative (with_query r ''audiocpp/'') (permanent_status r) h"

definition pinned_context :: "string \<Rightarrow> string \<Rightarrow> string \<Rightarrow> req_context" where
  "pinned_context asked model key =
     \<lparr>rx_model = asked, rx_model_id = model, rx_streaming = False, rx_loading = False, rx_api_key = key\<rparr>"

text \<open>
  \<open>escaped\<close> is the last segment of the escaped path, \<open>ignored\<close> whether a path matches an entry of \<open>upstream.ignorePaths\<close>, \<open>running\<close>
  the states of the running models.
\<close>

definition handle_upstream ::
  "config \<Rightarrow> local_router \<Rightarrow> peer_router \<Rightarrow> bool \<Rightarrow> (string \<Rightarrow> bool) \<Rightarrow> (string \<Rightarrow> proc_state option) \<Rightarrow> (http_request \<Rightarrow> string) \<Rightarrow>
     handler \<Rightarrow> handler \<Rightarrow> handler" where
  "handle_upstream c lr pr paused ignored running escaped local peer r h =
     (case find_model_in_path (names_of c) (''/'' @ hr_upstream r) of
        None \<Rightarrow> send_response r h 404 ''model not found''
      | Some (asked, model, remaining) \<Rightarrow>
          if remaining = ''/'' \<and> \<not> has_suffix (hr_path r) ''/'' then
            redirect_relative (with_query r (''./'' @ escaped r @ ''/'')) (permanent_status r) h
          else
            (let r1 = r\<lparr>hr_path := remaining, hr_context := Some (pinned_context asked model [])\<rparr> in
             if ignored remaining \<and> handles lr model \<and> running model \<noteq> Some StateReady then
               send_response r1 h 409 (''model '' @ model @ '' is not loaded; path matches upstream.ignorePaths'')
             else if handles lr model then serve_local paused local r1 h
             else if peer_handles pr model then peer r1 h
             else send_response r1 h 404 (''no router for model '' @ model)))"

definition audiocpp_model_id :: string where
  "audiocpp_model_id = ''audiocpp_auto''"

text \<open>The default pattern for static files, and the two patterns of the websocket and the polling.\<close>

definition comfyui_ignores_path :: "string \<Rightarrow> bool" where
  "comfyui_ignores_path path \<longleftrightarrow>
     list_ex (\<lambda>e. has_suffix path (CHR ''.'' # e))
       [''js'', ''json'', ''css'', ''png'', ''gif'', ''jpg'', ''jpeg'', ''ico'', ''txt''] \<or>
     path = ''/ws'' \<or> has_prefix path ''/ws/'' \<or> path = ''/api/jobs''"

definition serves_model :: "config \<Rightarrow> local_router \<Rightarrow> string \<Rightarrow> bool" where
  "serves_model c lr m \<longleftrightarrow> map_of (cf_models c) m \<noteq> None \<and> handles lr m"

definition handle_comfyui ::
  "codec \<Rightarrow> config \<Rightarrow> local_router \<Rightarrow> bool \<Rightarrow> (string \<Rightarrow> proc_state option) \<Rightarrow> handler \<Rightarrow> handler" where
  "handle_comfyui cd c lr paused running local r h =
     (if \<not> serves_model c lr comfyui_model_id then
        send_response r h 404 (''local model '' @ comfyui_model_id @ '' not found'')
      else
        (let remaining = ''/'' @ trim_prefix ''/'' (hr_upstream r); r1 = r\<lparr>hr_path := remaining\<rparr> in
         if hr_method r = ''GET'' \<and> comfyui_ignores_path remaining \<and> running comfyui_model_id \<noteq> Some StateReady then
           send_response r1 h 409 (''model '' @ comfyui_model_id @ '' is not loaded; ignored ComfyUI paths cannot start it'')
         else
           serve_local paused local
             (r1\<lparr>hr_context := Some (pinned_context comfyui_model_id comfyui_model_id (extract_api_key cd r1))\<rparr>) h))"

definition handle_audiocpp :: "codec \<Rightarrow> config \<Rightarrow> local_router \<Rightarrow> bool \<Rightarrow> handler \<Rightarrow> handler" where
  "handle_audiocpp cd c lr paused local r h =
     (if \<not> serves_model c lr audiocpp_model_id then
        send_response r h 404 (''local model '' @ audiocpp_model_id @ '' not found'')
      else
        (let r1 = r\<lparr>hr_path := ''/'' @ trim_prefix ''/'' (hr_upstream r)\<rparr> in
         serve_local paused local
           (r1\<lparr>hr_context := Some (pinned_context audiocpp_model_id audiocpp_model_id (extract_api_key cd r1))\<rparr>) h))"

section \<open>The table of routes\<close>

datatype path_pattern =
    Exact string
  | Segment string string
  | Under string

datatype endpoint =
    Model
  | Upstream
  | Comfyui
  | Audiocpp
  | Api string
  | ComfyuiRedirect
  | AudiocppRedirect
  | Health
  | RootRedirect
  | UiRedirect
  | UiFile
  | Favicon
  | UpstreamRedirect

record route =
  rt_method :: "string option"
  rt_pattern :: path_pattern
  rt_endpoint :: endpoint

definition handle_at :: "string \<Rightarrow> path_pattern \<Rightarrow> endpoint \<Rightarrow> route" where
  "handle_at m p e = \<lparr>rt_method = (if m = [] then None else Some m), rt_pattern = p, rt_endpoint = e\<rparr>"

definition routes :: "bool \<Rightarrow> route list" where
  "routes help_disabled =
     map (\<lambda>p. handle_at ''POST'' (Exact p) Model) model_post_json_routes @
     map (\<lambda>p. handle_at ''POST'' (Exact p) Model) model_post_form_routes @
     map (\<lambda>p. handle_at ''GET'' (Exact p) Model) model_get_routes @
     [handle_at ''GET'' (Exact ''/v1/models'') (Api ''ListModels''),
      handle_at ''GET'' (Exact ''/models'') (Api ''ListModels''),
      handle_at ''GET'' (Exact ''/logs'') (Api ''Logs''),
      handle_at ''GET'' (Exact ''/logs/stream'') (Api ''LogStream''),
      handle_at ''GET'' (Under ''/logs/stream/'') (Api ''LogStream''),
      handle_at ''GET'' (Exact ''/health'') Health,
      handle_at ''GET'' (Exact ''/wol-health'') Health,
      handle_at ''GET'' (Exact ''/'') RootRedirect,
      handle_at [] (Exact ''/ui'') UiRedirect,
      handle_at ''GET'' (Under ''/ui/'') (Api ''UI''),
      handle_at ''GET'' (Exact ''/ui/site.webmanifest'') UiFile,
      handle_at ''GET'' (Exact ''/ui/web-app-manifest-192x192.png'') UiFile,
      handle_at ''GET'' (Exact ''/ui/web-app-manifest-512x512.png'') UiFile,
      handle_at ''GET'' (Exact ''/favicon.ico'') Favicon,
      handle_at ''GET'' (Exact ''/metrics'') (Api ''Metrics''),
      handle_at ''GET'' (Exact ''/unload'') (Api ''Unload''),
      handle_at ''GET'' (Exact ''/running'') (Api ''Running''),
      handle_at ''GET'' (Exact ''/upstream'') UpstreamRedirect,
      handle_at [] (Under ''/upstream/'') Upstream,
      handle_at [] (Exact ''/comfyui'') ComfyuiRedirect,
      handle_at [] (Under ''/comfyui/'') Comfyui,
      handle_at [] (Exact ''/audiocpp'') AudiocppRedirect,
      handle_at [] (Under ''/audiocpp/'') Audiocpp,
      handle_at ''POST'' (Exact ''/api/models/unload'') (Api ''UnloadAll''),
      handle_at ''POST'' (Under ''/api/models/unload/'') (Api ''UnloadModel''),
      handle_at ''POST'' (Exact ''/api/models/pause'') (Api ''Pause''),
      handle_at ''POST'' (Exact ''/api/models/resume'') (Api ''Resume''),
      handle_at ''GET'' (Exact ''/api/profiles'') (Api ''Profiles''),
      handle_at ''PUT'' (Exact ''/api/profiles/active'') (Api ''ActiveProfile''),
      handle_at ''POST'' (Segment ''/api/inflight/'' ''/cancel'') (Api ''CancelInflight''),
      handle_at ''GET'' (Exact ''/api/events'') (Api ''Events''),
      handle_at ''GET'' (Exact ''/api/events/logs'') (Api ''LogEvents''),
      handle_at ''GET'' (Exact ''/api/metrics/activity'') (Api ''Activity''),
      handle_at ''GET'' (Exact ''/api/metrics/stats'') (Api ''ActivityStats''),
      handle_at ''GET'' (Exact ''/api/performance'') (Api ''Performance''),
      handle_at ''GET'' (Exact ''/api/version'') (Api ''Version''),
      handle_at ''GET'' (Exact ''/api/hardware'') (Api ''Hardware''),
      handle_at ''GET'' (Exact ''/api/tailcat'') (Api ''Tailcat''),
      handle_at ''GET'' (Segment ''/api/captures/'' []) (Api ''Capture'')] @
     (if help_disabled then [] else [handle_at [] (Exact ''/api/mcp'') (Api ''MCP'')])"

fun matches_path :: "path_pattern \<Rightarrow> string \<Rightarrow> bool" where
  "matches_path (Exact p) path = (path = p)"
| "matches_path (Under p) path = has_prefix path p"
| "matches_path (Segment pre suf) path =
     (has_prefix path pre \<and>
      (let rest = drop (length pre) path; seg = take (length rest - length suf) rest in
       rest = seg @ suf \<and> seg \<noteq> [] \<and> CHR ''/'' \<notin> set seg))"

definition matches_method :: "string option \<Rightarrow> string \<Rightarrow> bool" where
  "matches_method m method = (case m of None \<Rightarrow> True | Some g \<Rightarrow> method = g \<or> g = ''GET'' \<and> method = ''HEAD'')"

definition is_exact :: "path_pattern \<Rightarrow> bool" where
  "is_exact p = (case p of Exact s \<Rightarrow> True | _ \<Rightarrow> False)"

definition find_route :: "route list \<Rightarrow> http_request \<Rightarrow> route option" where
  "find_route table r =
     (let found = filter (\<lambda>rt. matches_method (rt_method rt) (hr_method r) \<and> matches_path (rt_pattern rt) (hr_path r)) table in
      case find (\<lambda>rt. is_exact (rt_pattern rt)) found of
        Some rt \<Rightarrow> Some rt
      | None \<Rightarrow> (case found of [] \<Rightarrow> None | rt # rts \<Rightarrow> Some rt))"

section \<open>The chains\<close>

text \<open>What the server is built from: the middlewares with a state of their own and the handlers.\<close>

record server_parts =
  sv_limit :: middleware
  sv_selector :: middleware
  sv_inflight :: middleware
  sv_upstream_inflight :: middleware
  sv_metrics :: middleware
  sv_dispatch :: handler
  sv_upstream :: handler
  sv_comfyui :: handler
  sv_audiocpp :: handler
  sv_api :: "string \<Rightarrow> handler"
  sv_ui :: handler
  sv_favicon :: handler
  sv_unmatched :: handler

text \<open>The stateless parts: the codec, the configuration with the filters, the editor of JSON and the texts of errors.\<close>

record server_env =
  se_codec :: codec
  se_config :: config
  se_filters :: filter_config
  se_editor :: json_editor
  se_replace_error :: "replace_error \<Rightarrow> string"
  se_filter_error :: "filter_error \<Rightarrow> string"
  se_profile :: string
  se_help_disabled :: bool

definition max_request_body_bytes :: "config \<Rightarrow> int" where
  "max_request_body_bytes c = wrap64 ((if cf_max_body_mb c \<le> 0 then 250 else cf_max_body_mb c) * 2 ^ 20)"

definition active_pins :: "server_env \<Rightarrow> (string \<times> string) list option" where
  "active_pins e = map_of (cf_profiles (se_config e)) (se_profile e)"

definition api_chain :: "server_env \<Rightarrow> middleware list" where
  "api_chain e = [auth_middleware (se_codec e) (cf_api_keys (se_config e))]"

definition model_route_chain :: "server_env \<Rightarrow> server_parts \<Rightarrow> middleware list" where
  "model_route_chain e p =
     (let cd = se_codec e; c = se_config e; ns = names_of c; loading = send_loading_state c in
      [auth_middleware cd (cf_api_keys c), content_type_middleware cd (max_request_body_bytes c)] @
      (if 0 < cf_global_limit c then [sv_limit p] else []) @
      [profile_middleware cd (se_replace_error e) (active_pins e),
       sv_selector p,
       request_context_middleware cd ns loading,
       sv_inflight p,
       filter_middleware cd ns loading (se_editor e) (se_filter_error e) (se_filters e),
       form_filter_middleware cd ns loading (se_replace_error e) (se_filters e),
       sv_metrics p])"

definition upstream_chain :: "server_env \<Rightarrow> server_parts \<Rightarrow> middleware list" where
  "upstream_chain e p =
     chain_append (api_chain e)
       [profile_middleware (se_codec e) (se_replace_error e) (active_pins e), sv_upstream_inflight p, sv_metrics p]"

definition endpoint_handler :: "server_env \<Rightarrow> server_parts \<Rightarrow> endpoint \<Rightarrow> handler" where
  "endpoint_handler e p ep =
     (case ep of
        Model \<Rightarrow> chain_then (model_route_chain e p) (sv_dispatch p)
      | Upstream \<Rightarrow> chain_then (upstream_chain e p) (sv_upstream p)
      | Comfyui \<Rightarrow> chain_then (api_chain e) (sv_comfyui p)
      | Audiocpp \<Rightarrow> chain_then (api_chain e) (sv_audiocpp p)
      | Api name \<Rightarrow> chain_then (api_chain e) (sv_api p name)
      | ComfyuiRedirect \<Rightarrow> chain_then (api_chain e) handle_comfyui_redirect
      | AudiocppRedirect \<Rightarrow> chain_then (api_chain e) handle_audiocpp_redirect
      | Health \<Rightarrow> handle_health
      | RootRedirect \<Rightarrow> handle_root_redirect
      | UiRedirect \<Rightarrow> (\<lambda>r h. redirect_relative ''ui/'' 308 h)
      | UiFile \<Rightarrow> sv_ui p
      | Favicon \<Rightarrow> sv_favicon p
      | UpstreamRedirect \<Rightarrow> handle_upstream_redirect)"

text \<open>The wildcard of a trailing pattern, which the passthroughs read.\<close>

definition path_value :: "path_pattern \<Rightarrow> http_request \<Rightarrow> string" where
  "path_value p r = (case p of Under pre \<Rightarrow> drop (length pre) (hr_path r) | _ \<Rightarrow> hr_upstream r)"

definition serve_mux :: "server_env \<Rightarrow> server_parts \<Rightarrow> handler" where
  "serve_mux e p r h =
     (case find_route (routes (se_help_disabled e)) r of
        None \<Rightarrow> sv_unmatched p r h
      | Some rt \<Rightarrow> endpoint_handler e p (rt_endpoint rt) (r\<lparr>hr_upstream := path_value (rt_pattern rt) r\<rparr>) h)"

definition serve_request :: "server_env \<Rightarrow> server_parts \<Rightarrow> handler" where
  "serve_request e p = chain_then [cors_middleware (cf_cors (se_config e))] (serve_mux e p)"

section \<open>The model routes\<close>

lemma find_route_cong:
  "hr_method r = hr_method r' \<Longrightarrow> hr_path r = hr_path r' \<Longrightarrow> find_route table r = find_route table r'"
  by (simp add: find_route_def)

definition model_route :: "string \<Rightarrow> string \<Rightarrow> route" where
  "model_route m path = \<lparr>rt_method = Some m, rt_pattern = Exact path, rt_endpoint = Model\<rparr>"

lemma model_routes_found:
  "list_all (\<lambda>path. find_route (routes b) ((demo_request [] [])\<lparr>hr_method := ''POST'', hr_path := path\<rparr>) = Some (model_route ''POST'' path))
     (model_post_json_routes @ model_post_form_routes)"
  "list_all (\<lambda>path. find_route (routes b) ((demo_request [] [])\<lparr>hr_method := ''GET'', hr_path := path\<rparr>) = Some (model_route ''GET'' path))
     model_get_routes"
  by (cases b; simp_all only:; code_simp)+

lemma inference_route:
  assumes "is_tailcat_inference_request r"
  shows "find_route (routes b) r = Some (model_route (hr_method r) (hr_path r))"
proof -
  have "find_route (routes b) r = find_route (routes b) ((demo_request [] [])\<lparr>hr_method := hr_method r, hr_path := hr_path r\<rparr>)"
    by (rule find_route_cong) simp_all
  with model_routes_found [of b] assms show ?thesis
    by (auto simp: is_tailcat_inference_request_def list_all_iff split: if_splits)
qed

text \<open>A request for a model route goes through the chain of the model routes as it came.\<close>

lemma inference_served:
  assumes "is_tailcat_inference_request r"
  shows "\<exists>h'. \<forall>p. serve_request e p r h = chain_then (model_route_chain e p) (sv_dispatch p) r h'"
proof -
  have "hr_method r \<noteq> ''OPTIONS''" using inference_paths(1) [OF assms] by auto
  then obtain h' where "\<And>p. serve_request e p r h = serve_mux e p r h'" by (simp add: serve_request_def cors_middleware_def Let_def)
  with inference_route [OF assms] have "\<forall>p. serve_request e p r h = chain_then (model_route_chain e p) (sv_dispatch p) r h'"
    by (simp add: serve_mux_def endpoint_handler_def path_value_def model_route_def)
  then show ?thesis ..
qed

section \<open>Keys guard everything\<close>

definition open_endpoints :: "endpoint list" where
  "open_endpoints = [Health, RootRedirect, UiRedirect, UiFile, Favicon, UpstreamRedirect]"

text \<open>The paths that answer without a key: health checks, redirects, and what a browser fetches before it could have one.\<close>

definition open_paths :: "string list" where
  "open_paths =
     [''/health'', ''/wol-health'', ''/'', ''/ui'', ''/ui/site.webmanifest'', ''/ui/web-app-manifest-192x192.png'',
      ''/ui/web-app-manifest-512x512.png'', ''/favicon.ico'', ''/upstream'']"

lemma open_routes:
  "list_all (\<lambda>rt. rt_endpoint rt \<in> set open_endpoints \<longrightarrow> (case rt_pattern rt of Exact s \<Rightarrow> s \<in> set open_paths | _ \<Rightarrow> False)) (routes b)"
  by (cases b) (simp_all only:, code_simp+)

lemma find_route_Some:
  assumes "find_route table r = Some rt"
  shows "rt \<in> set table \<and> matches_method (rt_method rt) (hr_method r) \<and> matches_path (rt_pattern rt) (hr_path r)"
proof -
  let ?found = "filter (\<lambda>rt. matches_method (rt_method rt) (hr_method r) \<and> matches_path (rt_pattern rt) (hr_path r)) table"
  have find: "find P xs = Some x \<Longrightarrow> x \<in> set xs" for P xs and x :: route
    by (induction xs) (auto split: if_splits)
  have "rt \<in> set ?found"
  proof (cases "find (\<lambda>rt. is_exact (rt_pattern rt)) ?found")
    case None
    with assms show ?thesis by (cases ?found) (simp_all add: find_route_def Let_def)
  next
    case (Some x)
    with assms have "x = rt" by (simp add: find_route_def Let_def)
    with find [OF Some] show ?thesis by simp
  qed
  then show ?thesis by simp
qed

lemma open_endpoint_path:
  assumes "find_route (routes b) r = Some rt" and "rt_endpoint rt \<in> set open_endpoints"
  shows "hr_path r \<in> set open_paths"
proof -
  note f = find_route_Some [OF assms(1)]
  with open_routes [of b] assms(2) show ?thesis by (cases "rt_pattern rt") (auto simp: list_all_iff)
qed

lemma auth_refuses:
  "keys \<noteq> [] \<Longrightarrow> extract_api_key cd r \<notin> set keys \<Longrightarrow> auth_middleware cd keys nxt r h =
     send_response r (header_set ''Www-Authenticate'' ''Basic realm=\"llama-swap\"'' h) 401
       ''unauthorized: invalid or missing API key''"
  by (auto simp: auth_middleware_def list_ex_iff)

lemma guarded_endpoint:
  assumes "ep \<notin> set open_endpoints"
  shows "\<exists>nxt. endpoint_handler e p ep = auth_middleware (se_codec e) (cf_api_keys (se_config e)) nxt"
  using assms by (cases ep) (auto simp: endpoint_handler_def open_endpoints_def api_chain_def model_route_chain_def upstream_chain_def
    chain_append_def Let_def)

lemma key_kept: "extract_api_key cd (r\<lparr>hr_upstream := u\<rparr>) = extract_api_key cd r"
  by (rule api_key_kept) simp


definition demo_env_of :: "config \<Rightarrow> codec \<Rightarrow> server_env" where
  "demo_env_of c cd =
     \<lparr>se_codec = cd, se_config = c, se_filters = \<lparr>fc_models = [], fc_peers = [(''p'', demo_filters)]\<rparr>, se_editor = demo_editor,
      se_replace_error = (\<lambda>e. []), se_filter_error = (\<lambda>e. []), se_profile = [], se_help_disabled = False\<rparr>"

definition demo_parts :: "handler \<Rightarrow> server_parts" where
  "demo_parts f =
     \<lparr>sv_limit = id, sv_selector = id, sv_inflight = id, sv_upstream_inflight = id, sv_metrics = id, sv_dispatch = f,
      sv_upstream = f, sv_comfyui = f, sv_audiocpp = f, sv_api = (\<lambda>name. f), sv_ui = f, sv_favicon = f,
      sv_unmatched = (\<lambda>r h. Reply 404 h NoBody)\<rparr>"


end
