(* ===== verification/TokenUsage.thy ===== *)
theory TokenUsage
  imports Complex_Main Http
begin

text \<open>
  How the token counts of a response are read (the second half of \<open>internal/server/metrics.go\<close>): the usage objects of the
  different endpoints, the events of a streamed response, the timings of llama-server and the metrics of vLLM; and the message of
  a failed response.

  The JSON reader \<open>gjson\<close> is the argument \<open>json_reader\<close>; a \<open>gjson.Result\<close> is the raw text of the value, or \<open>None\<close> where
  nothing was found. Rates are real numbers: the rounding of \<open>float64\<close> is not modelled. Times are in milliseconds, and
  the time since the start of the request is an argument.
\<close>

section \<open>Reading\<close>

datatype json_kind = JNull | JFalse | JNumber | JString | JTrue | JJson

record json_reader =
  jr_valid :: "string \<Rightarrow> bool"
  jr_get :: "string \<Rightarrow> string \<Rightarrow> string option"
  jr_kind :: "string \<Rightarrow> json_kind"
  jr_int :: "string \<Rightarrow> int"
  jr_float :: "string \<Rightarrow> real"
  jr_text :: "string \<Rightarrow> string"
  jr_array :: "string \<Rightarrow> string list"

text \<open>\<open>Get\<close> on a result, and \<open>Int\<close> and \<open>Float\<close> of a field, which are 0 where there is none.\<close>

definition get_in :: "json_reader \<Rightarrow> string option \<Rightarrow> string \<Rightarrow> string option" where
  "get_in jr raw path = (case raw of None \<Rightarrow> None | Some t \<Rightarrow> jr_get jr t path)"

definition int_of :: "json_reader \<Rightarrow> string option \<Rightarrow> int" where
  "int_of jr raw = (case raw of None \<Rightarrow> 0 | Some t \<Rightarrow> jr_int jr t)"

definition float_of :: "json_reader \<Rightarrow> string option \<Rightarrow> real" where
  "float_of jr raw = (case raw of None \<Rightarrow> 0 | Some t \<Rightarrow> jr_float jr t)"

text \<open>The chains of \<open>if v := ...; v.Exists() {} else if\<close>: the first of several paths that is there.\<close>

fun first_field :: "json_reader \<Rightarrow> string \<Rightarrow> string list \<Rightarrow> string option" where
  "first_field jr u [] = None"
| "first_field jr u (p # ps) = (case jr_get jr u p of Some v \<Rightarrow> Some v | None \<Rightarrow> first_field jr u ps)"

text \<open>\<open>int(x)\<close> of a float: the integer part.\<close>

definition truncate_float :: "real \<Rightarrow> int" where
  "truncate_float x = (if x < 0 then \<lceil>x\<rceil> else \<lfloor>x\<rfloor>)"

section \<open>Errors\<close>

definition error_message_paths :: "string list" where
  "error_message_paths = [''error.message'', ''error'', ''message'', ''detail'']"

fun find_message :: "json_reader \<Rightarrow> string \<Rightarrow> string list \<Rightarrow> string" where
  "find_message jr body [] = []"
| "find_message jr body (p # ps) =
     (case jr_get jr body p of
        None \<Rightarrow> find_message jr body ps
      | Some v \<Rightarrow>
          if jr_kind jr v = JString \<and> trim_space (jr_text jr v) \<noteq> [] then trim_space (jr_text jr v)
          else find_message jr body ps)"

definition extract_error_message :: "json_reader \<Rightarrow> string \<Rightarrow> string" where
  "extract_error_message jr body = (if jr_valid jr body then find_message jr body error_message_paths else [])"

text \<open>\<open>text\<close> is \<open>http.StatusText\<close> of the status.\<close>

definition failed_error_message :: "json_reader \<Rightarrow> nat \<Rightarrow> string \<Rightarrow> string + string \<Rightarrow> string" where
  "failed_error_message jr status text decoded =
     (case decoded of
        Inl err \<Rightarrow> ''response decode failed: '' @ err
      | Inr body \<Rightarrow>
          (let msg = extract_error_message jr body in
           if msg \<noteq> [] then (if 500 < length msg then take 500 msg @ ''...'' else msg)
           else if text \<noteq> [] then decimal status @ '' '' @ text
           else ''HTTP '' @ decimal status))"

section \<open>Usage\<close>

definition usage_paths :: "string list" where
  "usage_paths = [''usage'', ''response.usage'', ''message.usage'']"

definition input_paths :: "string list" where
  "input_paths = [''prompt_tokens'', ''input_tokens'']"

definition output_paths :: "string list" where
  "output_paths = [''completion_tokens'', ''output_tokens'']"

definition cached_paths :: "string list" where
  "cached_paths = [''cache_read_input_tokens'', ''input_tokens_details.cached_tokens'', ''prompt_tokens_details.cached_tokens'']"

definition extract_usage_tokens :: "json_reader \<Rightarrow> string option \<Rightarrow> int \<times> int \<times> int \<times> bool" where
  "extract_usage_tokens jr usage =
     (case usage of
        None \<Rightarrow> (0, 0, -1, False)
      | Some u \<Rightarrow>
          (let i = first_field jr u input_paths; out = first_field jr u output_paths; c = first_field jr u cached_paths in
           (int_of jr i, int_of jr out, (case c of None \<Rightarrow> -1 | Some v \<Rightarrow> jr_int jr v),
            i \<noteq> None \<or> out \<noteq> None \<or> c \<noteq> None)))"

record token_metrics =
  tk_cached :: int
  tk_draft :: int
  tk_draft_acc :: int
  tk_input :: int
  tk_output :: int
  tk_prompt_rate :: real
  tk_rate :: real

text \<open>The three sources of rates, in the order in which they override each other.\<close>

definition rate_field :: "json_reader \<Rightarrow> string \<Rightarrow> string \<Rightarrow> string \<Rightarrow> string option" where
  "rate_field jr u path long_path =
     (let long_value = (case jr_get jr u long_path of Some w \<Rightarrow> if jr_kind jr w = JNumber then Some w else None | None \<Rightarrow> None)
      in case jr_get jr u path of
           Some v \<Rightarrow> if jr_kind jr v \<noteq> JNull then Some v else long_value
         | None \<Rightarrow> long_value)"

definition usage_rates :: "json_reader \<Rightarrow> string option \<Rightarrow> token_metrics \<times> int \<Rightarrow> token_metrics \<times> int" where
  "usage_rates jr usage acc =
     (case usage of
        None \<Rightarrow> acc
      | Some u \<Rightarrow>
          (case acc of (tk, duration) \<Rightarrow>
             (let prompt = rate_field jr u ''prompt_tokens_per_sec'' ''prompt_tokens_per_second'';
              rate = rate_field jr u ''completion_tokens_per_sec'' ''generation_tokens_per_second'';
              duration1 =
                (case jr_get jr u ''total_time'' of
                   None \<Rightarrow> duration
                 | Some v \<Rightarrow> max duration (truncate_float (jr_float jr v * 1000)))
              in (tk\<lparr>tk_prompt_rate := (case prompt of None \<Rightarrow> tk_prompt_rate tk | Some v \<Rightarrow> jr_float jr v),
                     tk_rate := (case rate of None \<Rightarrow> tk_rate tk | Some v \<Rightarrow> jr_float jr v)\<rparr>, duration1))))"

definition timing_rates :: "json_reader \<Rightarrow> string option \<Rightarrow> token_metrics \<times> int \<Rightarrow> token_metrics \<times> int" where
  "timing_rates jr timings acc =
     (case timings of
        None \<Rightarrow> acc
      | Some t \<Rightarrow>
          (case acc of (tk, duration) \<Rightarrow>
             (let tk1 = tk\<lparr>tk_input := int_of jr (jr_get jr t ''prompt_n''), tk_output := int_of jr (jr_get jr t ''predicted_n''),
                   tk_prompt_rate := float_of jr (jr_get jr t ''prompt_per_second''),
                   tk_rate := float_of jr (jr_get jr t ''predicted_per_second'')\<rparr>;
                  took = truncate_float (float_of jr (jr_get jr t ''prompt_ms'') + float_of jr (jr_get jr t ''predicted_ms''));
                  tk2 = (case jr_get jr t ''cache_n'' of None \<Rightarrow> tk1 | Some v \<Rightarrow> tk1\<lparr>tk_cached := jr_int jr v\<rparr>);
                  tk3 = (case (jr_get jr t ''draft_n'', jr_get jr t ''draft_n_accepted'') of
                           (Some d, Some a) \<Rightarrow> tk2\<lparr>tk_draft := jr_int jr d, tk_draft_acc := jr_int jr a\<rparr>
                         | _ \<Rightarrow> tk2)
              in (tk3, max duration took))))"

definition response_rates :: "json_reader \<Rightarrow> string option \<Rightarrow> token_metrics \<Rightarrow> token_metrics" where
  "response_rates jr metrics tk =
     (let spec = get_in jr metrics ''speculative_decoding'';
          tk1 = (case (get_in jr spec ''num_draft_tokens'', get_in jr spec ''num_accepted_draft_tokens'') of
                   (Some d, Some a) \<Rightarrow> tk\<lparr>tk_draft := jr_int jr d, tk_draft_acc := jr_int jr a\<rparr>
                 | _ \<Rightarrow> tk);
          ttft = float_of jr (get_in jr metrics ''time_to_first_token_ms'');
          tk2 = (if 0 < ttft
                 then tk1\<lparr>tk_prompt_rate := of_int (wrap64 (tk_input tk1 - max 0 (tk_cached tk1))) / (ttft / 1000)\<rparr> else tk1);
          itl = float_of jr (get_in jr metrics ''mean_itl_ms'')
      in (if 0 < itl then tk2\<lparr>tk_rate := 1000 / itl\<rparr> else tk2))"

definition build_metrics ::
  "json_reader \<Rightarrow> int \<Rightarrow> int \<times> int \<times> int \<Rightarrow> string option \<Rightarrow> string option \<Rightarrow> string option \<Rightarrow> token_metrics \<times> int" where
  "build_metrics jr wall tokens usage timings metrics =
     (case tokens of (i, out, cached) \<Rightarrow>
        (case timing_rates jr timings (usage_rates jr usage
           (\<lparr>tk_cached = cached, tk_draft = -1, tk_draft_acc = -1, tk_input = i, tk_output = out,
             tk_prompt_rate = -1, tk_rate = -1\<rparr>, wall)) of
           (tk, duration) \<Rightarrow> (response_rates jr metrics tk, duration)))"

definition parse_metrics :: "json_reader \<Rightarrow> int \<Rightarrow> string option \<Rightarrow> string option \<Rightarrow> string option \<Rightarrow> token_metrics \<times> int" where
  "parse_metrics jr wall usage timings metrics =
     (case extract_usage_tokens jr usage of (i, out, cached, ok) \<Rightarrow> build_metrics jr wall (i, out, cached) usage timings metrics)"

section \<open>Streams\<close>

record stream_state =
  ss_input :: int
  ss_output :: int
  ss_cached :: int
  ss_any :: bool
  ss_usage :: "string option"
  ss_timings :: "string option"
  ss_metrics :: "string option"

definition new_stream :: stream_state where
  "new_stream = \<lparr>ss_input = 0, ss_output = 0, ss_cached = -1, ss_any = False, ss_usage = None, ss_timings = None, ss_metrics = None\<rparr>"

definition add_usage_object :: "json_reader \<Rightarrow> string \<Rightarrow> stream_state \<Rightarrow> string \<Rightarrow> stream_state" where
  "add_usage_object jr data s path =
     (case jr_get jr data path of
        None \<Rightarrow> s
      | Some u \<Rightarrow>
          (case extract_usage_tokens jr (Some u) of (i, out, c, ok) \<Rightarrow>
             if \<not> ok then s
             else s\<lparr>ss_any := True, ss_input := (if 0 < i then i else ss_input s),
                    ss_output := (if 0 < out then out else ss_output s),
                    ss_cached := (if 0 \<le> c then c else ss_cached s), ss_usage := Some u\<rparr>))"

definition add_event :: "json_reader \<Rightarrow> stream_state \<Rightarrow> string \<Rightarrow> stream_state" where
  "add_event jr s data =
     (let s1 = foldl (add_usage_object jr data) s usage_paths;
          s2 = (case jr_get jr data ''timings'' of None \<Rightarrow> s1 | Some t \<Rightarrow> s1\<lparr>ss_timings := Some t, ss_any := True\<rparr>)
      in (case jr_get jr data ''metrics'' of None \<Rightarrow> s2 | Some m \<Rightarrow> s2\<lparr>ss_metrics := Some m, ss_any := True\<rparr>))"

definition event_data :: "json_reader \<Rightarrow> string \<Rightarrow> string option" where
  "event_data jr raw =
     (let line = trim_space raw in
      if line = [] \<or> \<not> has_prefix line ''data:'' then None
      else (let data = trim_space (drop 5 line) in
            if data = [] \<or> data = ''[DONE]'' then None
            else if \<not> jr_valid jr data then None else Some data))"

definition add_line :: "json_reader \<Rightarrow> stream_state \<Rightarrow> string \<Rightarrow> stream_state" where
  "add_line jr s raw = (case event_data jr raw of None \<Rightarrow> s | Some data \<Rightarrow> add_event jr s data)"

text \<open>The lines of the body; an empty one is skipped, so what follows the last newline may be empty.\<close>

definition newline :: char where
  "newline = char_of (10 :: nat)"

definition process_streaming_response :: "json_reader \<Rightarrow> int \<Rightarrow> string \<Rightarrow> (token_metrics \<times> int) option" where
  "process_streaming_response jr wall body =
     (let s = foldl (add_line jr) new_stream (split_at newline body) in
      if \<not> ss_any s then None
      else Some (build_metrics jr wall (ss_input s, ss_output s, ss_cached s) (ss_usage s) (ss_timings s) (ss_metrics s)))"

section \<open>The stream against its events\<close>

definition sse_events :: "json_reader \<Rightarrow> string \<Rightarrow> string list" where
  "sse_events jr body = List.map_filter (event_data jr) (split_at newline body)"

text \<open>The usage objects that carry a count, in the order of the stream.\<close>

definition usages :: "json_reader \<Rightarrow> string list \<Rightarrow> string list" where
  "usages jr events =
     filter (\<lambda>u. snd (snd (snd (extract_usage_tokens jr (Some u)))))
       (concat (map (\<lambda>e. List.map_filter (jr_get jr e) usage_paths) events))"

definition last_opt :: "'a list \<Rightarrow> 'a option" where
  "last_opt xs = (if xs = [] then None else Some (last xs))"

definition last_such :: "('a \<Rightarrow> bool) \<Rightarrow> 'a \<Rightarrow> 'a list \<Rightarrow> 'a" where
  "last_such P d xs = (case last_opt (filter P xs) of None \<Rightarrow> d | Some x \<Rightarrow> x)"

lemma last_such_Cons: "last_such P d (x # xs) = last_such P (if P x then x else d) xs"
  by (simp add: last_such_def last_opt_def)

lemma last_such_append: "last_such P d (xs @ ys) = last_such P (last_such P d xs) ys"
  by (induction xs arbitrary: d) (simp_all add: last_such_Cons, simp add: last_such_def last_opt_def)

lemma last_opt_append: "last_opt (xs @ ys) = (case last_opt ys of None \<Rightarrow> last_opt xs | Some y \<Rightarrow> Some y)"
  by (simp add: last_opt_def)

definition usage_input :: "json_reader \<Rightarrow> string \<Rightarrow> int" where
  "usage_input jr u = fst (extract_usage_tokens jr (Some u))"

definition usage_output :: "json_reader \<Rightarrow> string \<Rightarrow> int" where
  "usage_output jr u = fst (snd (extract_usage_tokens jr (Some u)))"

definition usage_cached :: "json_reader \<Rightarrow> string \<Rightarrow> int" where
  "usage_cached jr u = fst (snd (snd (extract_usage_tokens jr (Some u))))"

abbreviation counts :: "json_reader \<Rightarrow> string \<Rightarrow> bool" where
  "counts jr u \<equiv> snd (snd (snd (extract_usage_tokens jr (Some u))))"

text \<open>The state after usage objects, timings and metrics.\<close>

definition stream_of :: "json_reader \<Rightarrow> string list \<Rightarrow> string list \<Rightarrow> string list \<Rightarrow> stream_state" where
  "stream_of jr us ts ms =
     \<lparr>ss_input = last_such (\<lambda>i. 0 < i) 0 (map (usage_input jr) us), ss_output = last_such (\<lambda>i. 0 < i) 0 (map (usage_output jr) us),
      ss_cached = last_such (\<lambda>i. 0 \<le> i) (-1) (map (usage_cached jr) us), ss_any = (us \<noteq> [] \<or> ts \<noteq> [] \<or> ms \<noteq> []),
      ss_usage = last_opt us, ss_timings = last_opt ts, ss_metrics = last_opt ms\<rparr>"

lemma last_such_snoc: "last_such P d (xs @ [x]) = (if P x then x else last_such P d xs)"
  by (simp add: last_such_def last_opt_def)

lemma last_opt_snoc: "last_opt (xs @ [x]) = Some x"
  by (simp add: last_opt_def)

lemma add_usage_stream:
  "add_usage_object jr e (stream_of jr us ts ms) path =
    stream_of jr (us @ filter (counts jr) (List.map_filter (jr_get jr e) [path])) ts ms"
  by (cases "jr_get jr e path")
     (simp_all add: add_usage_object_def stream_of_def last_such_snoc last_opt_snoc List.map_filter_def usage_input_def usage_output_def
       usage_cached_def case_prod_unfold)

lemma add_usages_stream:
  "foldl (add_usage_object jr e) (stream_of jr us ts ms) paths =
    stream_of jr (us @ filter (counts jr) (List.map_filter (jr_get jr e) paths)) ts ms"
proof (induction paths arbitrary: us)
  case (Cons p ps)
  show ?case unfolding foldl_Cons add_usage_stream Cons.IH by (simp add: List.map_filter_def)
qed (simp add: List.map_filter_def)

lemma add_event_stream:
  "add_event jr (stream_of jr us ts ms) e =
    stream_of jr (us @ filter (counts jr) (List.map_filter (jr_get jr e) usage_paths))
      (ts @ List.map_filter (\<lambda>e. jr_get jr e ''timings'') [e]) (ms @ List.map_filter (\<lambda>e. jr_get jr e ''metrics'') [e])"
  unfolding add_event_def add_usages_stream Let_def
  by (cases "jr_get jr e ''timings''"; cases "jr_get jr e ''metrics''") (auto simp: stream_of_def List.map_filter_def last_opt_snoc)

lemma map_filter_snoc: "List.map_filter f (xs @ ys) = List.map_filter f xs @ List.map_filter f ys"
  by (simp add: List.map_filter_def)

lemma events_stream:
  "foldl (add_event jr) new_stream es =
    stream_of jr (usages jr es) (List.map_filter (\<lambda>e. jr_get jr e ''timings'') es) (List.map_filter (\<lambda>e. jr_get jr e ''metrics'') es)"
proof (induction es rule: rev_induct)
  case Nil
  show ?case by (simp add: new_stream_def stream_of_def usages_def List.map_filter_def last_such_def last_opt_def)
next
  case (snoc e es)
  then show ?case by (simp add: add_event_stream map_filter_snoc usages_def)
qed

lemma lines_stream: "foldl (add_line jr) s ls = foldl (add_event jr) s (List.map_filter (event_data jr) ls)"
  by (induction ls arbitrary: s) (simp_all add: add_line_def List.map_filter_def split: option.split)

text \<open>
  C35. The counts read from a streamed response are those of its events and of nothing else in it: the last positive number of
  input and of output tokens and the last number of cached tokens that any usage object reports, with the rates of the last such object, the last
  timings and the last metrics; a stream in which no event carries any of the three is reported as having no data.
\<close>

theorem stream_counts:
  "process_streaming_response jr wall body =
    (let es = sse_events jr body; us = usages jr es;
         ts = List.map_filter (\<lambda>e. jr_get jr e ''timings'') es; ms = List.map_filter (\<lambda>e. jr_get jr e ''metrics'') es
     in if us = [] \<and> ts = [] \<and> ms = [] then None
        else Some (build_metrics jr wall
          (last_such (\<lambda>i. 0 < i) 0 (map (usage_input jr) us), last_such (\<lambda>i. 0 < i) 0 (map (usage_output jr) us),
           last_such (\<lambda>i. 0 \<le> i) (-1) (map (usage_cached jr) us)) (last_opt us) (last_opt ts) (last_opt ms)))"
  by (simp add: process_streaming_response_def Let_def lines_stream events_stream sse_events_def stream_of_def)

end
