(* ===== verification/ByteCache.thy ===== *)
theory ByteCache
  imports Prelude
begin

text \<open>
  The capture cache of \<open>internal/cache/cache.go\<close>: byte strings by number, evicting in the order of insertion
  to stay below a total size.
\<close>

datatype cache_error = ErrExceedsMaxSize | ErrNotFound

record bcache =
  bc_items :: "int \<rightharpoonup> string"
  bc_order :: "int list"
  bc_size :: int
  bc_max :: int

definition bc_new :: "int \<Rightarrow> bcache" where
  "bc_new max_bytes = \<lparr>bc_items = Map.empty, bc_order = [], bc_size = 0, bc_max = max_bytes\<rparr>"

definition remove_order :: "int \<Rightarrow> bcache \<Rightarrow> bcache" where
  "remove_order k c = c\<lparr>bc_order := remove1 k (bc_order c)\<rparr>"

text \<open>The body of the eviction loop, and the loop.\<close>

definition evict_head :: "bcache \<Rightarrow> bcache" where
  "evict_head c =
     (let oldest = hd (bc_order c); c1 = c\<lparr>bc_order := tl (bc_order c)\<rparr> in
      case bc_items c1 oldest of None \<Rightarrow> c1
      | Some d \<Rightarrow> c1\<lparr>bc_size := bc_size c1 - int (length d), bc_items := (bc_items c1)(oldest := None)\<rparr>)"

lemma evict_head_order [simp]: "bc_order (evict_head c) = tl (bc_order c)"
  by (simp add: evict_head_def Let_def split: option.splits)

function evict_oldest :: "int \<Rightarrow> bcache \<Rightarrow> bcache" where
  "evict_oldest need c =
     (if bc_max c < bc_size c + need \<and> bc_order c \<noteq> [] then evict_oldest need (evict_head c) else c)"
  by pat_completeness auto
termination
  by (relation "measure (\<lambda>(need, c). length (bc_order c))") auto

definition bc_add :: "int \<Rightarrow> string \<Rightarrow> bcache \<Rightarrow> cache_error + bcache" where
  "bc_add k d c =
     (if bc_max c < int (length d) then Inl ErrExceedsMaxSize
      else
        (let c1 = (case bc_items c k of None \<Rightarrow> c
                   | Some old \<Rightarrow> remove_order k (c\<lparr>bc_size := bc_size c - int (length old)\<rparr>));
             c2 = evict_oldest (int (length d)) c1
         in Inr (c2\<lparr>bc_items := (bc_items c2)(k \<mapsto> d), bc_order := bc_order c2 @ [k],
                    bc_size := bc_size c2 + int (length d)\<rparr>)))"

definition bc_get :: "int \<Rightarrow> bcache \<Rightarrow> cache_error + string" where
  "bc_get k c = (case bc_items c k of None \<Rightarrow> Inl ErrNotFound | Some d \<Rightarrow> Inr d)"

definition bc_has :: "int \<Rightarrow> bcache \<Rightarrow> bool" where
  "bc_has k c = (bc_items c k \<noteq> None)"

definition bc_clear :: "bcache \<Rightarrow> bcache" where
  "bc_clear c = c\<lparr>bc_items := Map.empty, bc_order := [], bc_size := 0\<rparr>"

declare evict_oldest.simps [simp del]

section \<open>The invariant\<close>

definition total_size :: "(int \<rightharpoonup> string) \<Rightarrow> int list \<Rightarrow> int" where
  "total_size m ks = sum_list (map (\<lambda>k. case m k of None \<Rightarrow> 0 | Some d \<Rightarrow> int (length d)) ks)"

text \<open>
  While an entry is replaced its old data is still in the map but no longer counted nor in the order:
  \<open>bc_ok\<close> speaks of all keys but those in \<open>ex\<close>.
\<close>

definition bc_ok :: "int set \<Rightarrow> bcache \<Rightarrow> bool" where
  "bc_ok ex c \<longleftrightarrow> distinct (bc_order c) \<and> set (bc_order c) = dom (bc_items c) - ex \<and>
     bc_size c = total_size (bc_items c) (bc_order c)"

lemma total_size_nonneg [simp]: "0 \<le> total_size m ks"
  unfolding total_size_def by (induction ks) (auto split: option.splits)

lemma total_size_simps [simp]:
  "total_size m [] = 0"
  "total_size m (k # ks) = (case m k of None \<Rightarrow> 0 | Some d \<Rightarrow> int (length d)) + total_size m ks"
  "total_size m (ks @ ks') = total_size m ks + total_size m ks'"
  by (simp_all add: total_size_def)

lemma total_size_cong: "(\<And>k. k \<in> set ks \<Longrightarrow> m k = m' k) \<Longrightarrow> total_size m ks = total_size m' ks"
  unfolding total_size_def by (metis (mono_tags, lifting) map_eq_conv)

lemma total_size_remove1:
  "distinct ks \<Longrightarrow> k \<in> set ks \<Longrightarrow> m k = Some d \<Longrightarrow> total_size m (remove1 k ks) = total_size m ks - int (length d)"
  by (induction ks) auto

text \<open>What the eviction loop does: it drops the shortest prefix of the order that makes enough room.\<close>

lemma evict_oldest_spec:
  assumes "bc_ok ex c" and "need \<le> bc_max c" and "0 \<le> need"
  shows "\<exists>n. bc_order (evict_oldest need c) = drop n (bc_order c) \<and>
    bc_items (evict_oldest need c) = (\<lambda>k. if k \<in> set (take n (bc_order c)) then None else bc_items c k) \<and>
    bc_ok ex (evict_oldest need c) \<and> bc_max (evict_oldest need c) = bc_max c \<and>
    bc_size (evict_oldest need c) + need \<le> bc_max c \<and>
    (\<forall>i < n. bc_max c < total_size (bc_items c) (drop i (bc_order c)) + need)"
  using assms
proof (induction need c rule: evict_oldest.induct)
  case (1 need c)
  show ?case
  proof (cases "bc_max c < bc_size c + need \<and> bc_order c \<noteq> []")
    case False
    have "bc_size c + need \<le> bc_max c"
      using False "1.prems" by (cases "bc_order c = []") (auto simp: bc_ok_def)
    with False "1.prems" show ?thesis
      by (intro exI [of _ 0]) (simp add: evict_oldest.simps [of need c])
  next
    case True
    then obtain k ks where order: "bc_order c = k # ks" by (cases "bc_order c") auto
    from "1.prems"(1) order obtain d where d: "bc_items c k = Some d" by (auto simp: bc_ok_def)
    let ?c = "c\<lparr>bc_order := ks, bc_size := bc_size c - int (length d), bc_items := (bc_items c)(k := None)\<rparr>"
    have head: "evict_head c = ?c" using order d by (simp add: evict_head_def)
    have step: "evict_oldest need c = evict_oldest need ?c"
      using True head by (simp add: evict_oldest.simps [of need c])
    have size: "total_size ((bc_items c)(k := None)) ks = total_size (bc_items c) ks"
      using "1.prems"(1) order by (intro total_size_cong) (auto simp: bc_ok_def)
    have ok: "bc_ok ex ?c" using "1.prems"(1) order d size by (auto simp: bc_ok_def)
    have le: "need \<le> bc_max ?c" using "1.prems"(2) by simp
    have "\<exists>n. bc_order (evict_oldest need ?c) = drop n (bc_order ?c) \<and>
      bc_items (evict_oldest need ?c) = (\<lambda>j. if j \<in> set (take n (bc_order ?c)) then None else bc_items ?c j) \<and>
      bc_ok ex (evict_oldest need ?c) \<and> bc_max (evict_oldest need ?c) = bc_max ?c \<and>
      bc_size (evict_oldest need ?c) + need \<le> bc_max ?c \<and>
      (\<forall>i < n. bc_max ?c < total_size (bc_items ?c) (drop i (bc_order ?c)) + need)"
      by (rule "1.IH" [OF True, unfolded head, OF ok le "1.prems"(3)])
    then obtain n where "bc_order (evict_oldest need ?c) = drop n (bc_order ?c) \<and>
      bc_items (evict_oldest need ?c) = (\<lambda>j. if j \<in> set (take n (bc_order ?c)) then None else bc_items ?c j) \<and>
      bc_ok ex (evict_oldest need ?c) \<and> bc_max (evict_oldest need ?c) = bc_max ?c \<and>
      bc_size (evict_oldest need ?c) + need \<le> bc_max ?c \<and>
      (\<forall>i < n. bc_max ?c < total_size (bc_items ?c) (drop i (bc_order ?c)) + need)" by (rule exE)
    then have n: "bc_order (evict_oldest need ?c) = drop n ks"
      "bc_items (evict_oldest need ?c) = (\<lambda>j. if j \<in> set (take n ks) then None else ((bc_items c)(k := None)) j)"
      "bc_ok ex (evict_oldest need ?c)" "bc_max (evict_oldest need ?c) = bc_max c"
      "bc_size (evict_oldest need ?c) + need \<le> bc_max c"
      "\<forall>i < n. bc_max c < total_size ((bc_items c)(k := None)) (drop i ks) + need"
      by (simp_all cong: if_cong)
    have drops: "total_size ((bc_items c)(k := None)) (drop i ks) = total_size (bc_items c) (drop i ks)" for i
      using "1.prems"(1) order by (intro total_size_cong) (auto simp: bc_ok_def dest: in_set_dropD)
    show ?thesis
    proof (intro exI [of _ "Suc n"] conjI)
      show "\<forall>i < Suc n. bc_max c < total_size (bc_items c) (drop i (bc_order c)) + need"
        using n(6) True "1.prems"(1) order unfolding drops
        by (auto simp: less_Suc_eq_0_disj bc_ok_def)
    qed (use n step order in auto)
  qed
qed

lemma bc_add_spec:
  assumes "bc_ok {} c" and "bc_add k d c = Inr c'"
  shows "bc_ok {} c' \<and> bc_max c' = bc_max c \<and> bc_size c' \<le> bc_max c \<and>
    (\<exists>n. bc_order c' = drop n (removeAll k (bc_order c)) @ [k] \<and>
      bc_items c' = (\<lambda>j. if j = k then Some d
                         else if j \<in> set (take n (removeAll k (bc_order c))) then None else bc_items c j) \<and>
      (\<forall>i < n. bc_max c < total_size (bc_items c) (drop i (removeAll k (bc_order c))) + int (length d)))"
proof -
  let ?c1 = "case bc_items c k of None \<Rightarrow> c
     | Some old \<Rightarrow> remove_order k (c\<lparr>bc_size := bc_size c - int (length old)\<rparr>)"
  have fit: "int (length d) \<le> bc_max c" and c': "c' = (let c2 = evict_oldest (int (length d)) ?c1 in
      c2\<lparr>bc_items := (bc_items c2)(k \<mapsto> d), bc_order := bc_order c2 @ [k], bc_size := bc_size c2 + int (length d)\<rparr>)"
    using assms(2) by (auto simp: bc_add_def Let_def split: if_splits)
  have c1: "bc_items ?c1 = bc_items c" "bc_order ?c1 = removeAll k (bc_order c)" "bc_max ?c1 = bc_max c" "bc_ok {k} ?c1"
    using assms(1) total_size_remove1 [of "bc_order c" k "bc_items c"]
    by (force simp: bc_ok_def remove_order_def distinct_remove1_removeAll distinct_removeAll removeAll_id
        split: option.splits)+
  obtain n where n: "bc_order (evict_oldest (int (length d)) ?c1) = drop n (removeAll k (bc_order c))"
    "bc_items (evict_oldest (int (length d)) ?c1) = (\<lambda>j. if j \<in> set (take n (removeAll k (bc_order c))) then None else bc_items c j)"
    "bc_ok {k} (evict_oldest (int (length d)) ?c1)" "bc_max (evict_oldest (int (length d)) ?c1) = bc_max c"
    "bc_size (evict_oldest (int (length d)) ?c1) + int (length d) \<le> bc_max c"
    "\<forall>i < n. bc_max c < total_size (bc_items c) (drop i (removeAll k (bc_order c))) + int (length d)"
    using evict_oldest_spec [OF c1(4), of "int (length d)"] fit unfolding c1 by auto
  let ?c2 = "evict_oldest (int (length d)) ?c1"
  have "k \<notin> set (bc_order ?c2)" using n(3) by (auto simp: bc_ok_def)
  then have "total_size ((bc_items ?c2)(k \<mapsto> d)) (bc_order ?c2) = total_size (bc_items ?c2) (bc_order ?c2)"
    by (intro total_size_cong) auto
  with n(3) have "bc_ok {} c'" by (auto simp: c' Let_def bc_ok_def)
  moreover have "bc_items c' = (\<lambda>j. if j = k then Some d
      else if j \<in> set (take n (removeAll k (bc_order c))) then None else bc_items c j)"
    by (auto simp: c' Let_def n(2))
  ultimately show ?thesis using n by (auto simp: c' Let_def)
qed

section \<open>Property\<close>

datatype cache_op = CacheAdd int string | CacheClear

text \<open>A refused addition leaves the cache unchanged.\<close>

fun cache_step :: "cache_op \<Rightarrow> bcache \<Rightarrow> bcache" where
  "cache_step (CacheAdd k d) c = (case bc_add k d c of Inl e \<Rightarrow> c | Inr c' \<Rightarrow> c')"
| "cache_step CacheClear c = bc_clear c"

definition bc_inv :: "int \<Rightarrow> bcache \<Rightarrow> bool" where
  "bc_inv m c \<longleftrightarrow> bc_ok {} c \<and> bc_max c = m \<and> bc_size c \<le> m"

lemma bc_new_inv: "0 \<le> m \<Longrightarrow> bc_inv m (bc_new m)"
  by (simp add: bc_inv_def bc_ok_def bc_new_def)

lemma cache_step_inv [inv_intro]: "0 \<le> m \<Longrightarrow> bc_inv m c \<Longrightarrow> bc_inv m (cache_step opr c)"
proof (cases opr)
  case (CacheAdd k d)
  assume "0 \<le> m" "bc_inv m c"
  with CacheAdd bc_add_spec [of c k d] show ?thesis by (auto simp: bc_inv_def split: sum.splits)
qed (auto simp: bc_inv_def bc_ok_def bc_clear_def)

lemma cache_run_inv: "0 \<le> m \<Longrightarrow> bc_inv m c \<Longrightarrow> bc_inv m (fold cache_step ops c)"
  by (induction ops arbitrary: c) (auto intro: cache_step_inv)

text \<open>
  C23. Through any history of additions and clears the cache counts its bytes exactly and stays within its
  limit. An addition is refused exactly when the data alone exceeds the limit; otherwise the data can be read back,
  and what it costs is the fewest oldest entries: those before some point of the insertion order,
  where stopping any earlier would exceed the limit.
\<close>
theorem cache_bounded_fifo:
  assumes "0 \<le> m" and "c = fold cache_step ops (bc_new m)"
  shows "bc_size c = total_size (bc_items c) (bc_order c) \<and> set (bc_order c) = dom (bc_items c) \<and>
    distinct (bc_order c) \<and> 0 \<le> bc_size c \<and> bc_size c \<le> m \<and>
    (\<forall>e. bc_add k d c = Inl e \<longleftrightarrow> m < int (length d) \<and> e = ErrExceedsMaxSize) \<and>
    (\<forall>c'. bc_add k d c = Inr c' \<longrightarrow> bc_get k c' = Inr d \<and> bc_has k c' \<and>
      (\<exists>n. bc_order c' = drop n (removeAll k (bc_order c)) @ [k] \<and>
        bc_items c' = (\<lambda>j. if j = k then Some d
                           else if j \<in> set (take n (removeAll k (bc_order c))) then None else bc_items c j) \<and>
        (\<forall>i < n. m < total_size (bc_items c) (drop i (removeAll k (bc_order c))) + int (length d))))"
proof -
  have inv: "bc_ok {} c" "bc_max c = m" "bc_size c \<le> m"
    using cache_run_inv [OF assms(1) bc_new_inv [OF assms(1)], of ops] assms(2) by (auto simp: bc_inv_def)
  have base: "bc_size c = total_size (bc_items c) (bc_order c)" "set (bc_order c) = dom (bc_items c)" "distinct (bc_order c)"
    using inv(1) by (auto simp: bc_ok_def)
  then have nn: "0 \<le> bc_size c" by simp
  have err: "bc_add k d c = Inl e \<longleftrightarrow> m < int (length d) \<and> e = ErrExceedsMaxSize" for e
    using inv(2) by (auto simp: bc_add_def Let_def)
  have "bc_get k c' = Inr d \<and> bc_has k c' \<and>
      (\<exists>n. bc_order c' = drop n (removeAll k (bc_order c)) @ [k] \<and>
        bc_items c' = (\<lambda>j. if j = k then Some d
                           else if j \<in> set (take n (removeAll k (bc_order c))) then None else bc_items c j) \<and>
        (\<forall>i < n. m < total_size (bc_items c) (drop i (removeAll k (bc_order c))) + int (length d)))"
    if "bc_add k d c = Inr c'" for c'
    using bc_add_spec [OF inv(1) that] inv(2) by (auto simp: bc_get_def bc_has_def)
  with base nn inv(3) err show ?thesis by blast
qed

theorem cache_bounded_fifo_witness:
  "bc_size (fold cache_step [CacheAdd 1 ''abc'', CacheAdd 2 ''de'', CacheAdd 3 ''fg''] (bc_new 5)) \<le> 5 \<and>
   bc_order (fold cache_step [CacheAdd 1 ''abc'', CacheAdd 2 ''de'', CacheAdd 3 ''fg''] (bc_new 5)) = [2, 3]"
  using cache_bounded_fifo [of 5 _ "[CacheAdd 1 ''abc'', CacheAdd 2 ''de'', CacheAdd 3 ''fg'']", OF _ refl]
  by (simp add: bc_add_def bc_new_def evict_oldest.simps evict_head_def)

end
