(* ===== verification/Metrics.thy ===== *)
theory Metrics
  imports TokenUsage Access ByteCache "HOL-Library.Word"
begin

unbundle bit_operations_syntax

text \<open>
  What is kept of the requests that were served: the response recorder and \<open>record\<close> (\<open>internal/server/metrics.go\<close>), the captures
  with their redacted headers (\<open>internal/server/captures.go\<close>) and the middleware around a handler
  (\<open>internal/server/metrics_middleware.go\<close>).

  Arguments stand for the activity store (\<open>activity_store\<close>), for the decompressors and for the encoding of a capture
  (\<open>metrics_env\<close>). A handler is a function from the request to the request it leaves behind, the headers it set and the calls it made on the response writer.
  The time of an entry and log lines are not modelled.
\<close>

section \<open>The recorder\<close>

datatype writer_call = WriteHeader nat | Write string | Flush | MarkStatus nat

record copier =
  cp_status :: nat
  cp_wrote :: bool
  cp_body :: string
  cp_client :: "writer_call list"

definition new_body_copier :: copier where
  "new_body_copier = \<lparr>cp_status = 200, cp_wrote = False, cp_body = [], cp_client = []\<rparr>"

definition copier_write_header :: "nat \<Rightarrow> copier \<Rightarrow> copier" where
  "copier_write_header n c =
     (if cp_wrote c then c
      else c\<lparr>cp_wrote := True, cp_status := n, cp_client := cp_client c @ [WriteHeader n]\<rparr>)"

definition copier_write :: "string \<Rightarrow> copier \<Rightarrow> copier" where
  "copier_write b c =
     (let c1 = (if cp_wrote c then c else copier_write_header 200 c);
          c2 = c1\<lparr>cp_client := cp_client c1 @ [Write b]\<rparr>
      in if cp_status c2 = 101 then c2 else c2\<lparr>cp_body := cp_body c2 @ b\<rparr>)"

definition copier_mark :: "nat \<Rightarrow> copier \<Rightarrow> copier" where
  "copier_mark n c = c\<lparr>cp_status := n, cp_client := cp_client c @ [MarkStatus n]\<rparr>"

definition copier_flush :: "copier \<Rightarrow> copier" where
  "copier_flush c =
     (let c1 = (if cp_wrote c then c else copier_write_header 200 c) in c1\<lparr>cp_client := cp_client c1 @ [Flush]\<rparr>)"

definition copier_call :: "copier \<Rightarrow> writer_call \<Rightarrow> copier" where
  "copier_call c w =
     (case w of WriteHeader n \<Rightarrow> copier_write_header n c | Write b \<Rightarrow> copier_write b c | Flush \<Rightarrow> copier_flush c
      | MarkStatus n \<Rightarrow> copier_mark n c)"

definition mark_client_closed :: "bool \<Rightarrow> copier \<Rightarrow> copier" where
  "mark_client_closed gone c = (if cp_wrote c \<or> \<not> gone then c else copier_mark 499 c)"

section \<open>Captures\<close>

record capture =
  ca_id :: int
  ca_path :: string
  ca_req_headers :: "(string \<times> string) list"
  ca_req_body :: "string option"
  ca_resp_headers :: "(string \<times> string) list"
  ca_resp_body :: "string option"

type_synonym capture_fields = "64 word"

definition capture_req_headers :: capture_fields where "capture_req_headers = 1"
definition capture_req_body :: capture_fields where "capture_req_body = 2"
definition capture_resp_headers :: capture_fields where "capture_resp_headers = 4"
definition capture_resp_body :: capture_fields where "capture_resp_body = 8"

definition capture_req_all :: capture_fields where
  "capture_req_all = capture_req_headers OR capture_req_body"

definition capture_resp_all :: capture_fields where
  "capture_resp_all = capture_resp_headers OR capture_resp_body"

definition capture_all :: capture_fields where
  "capture_all = capture_req_all OR capture_resp_all"

definition capture_fields_by_path :: "(string \<times> capture_fields) list" where
  "capture_fields_by_path =
     [(''/v1/audio/speech'', capture_req_all OR capture_resp_headers),
      (''/v1/audio/voices'', capture_req_headers OR capture_resp_all),
      (''/v1/audio/transcriptions'', (capture_req_headers OR capture_resp_headers) OR capture_resp_body),
      (''/v1/images/generations'', capture_req_all OR capture_resp_headers),
      (''/v1/images/edits'', capture_req_headers OR capture_resp_headers),
      (''/sdapi/v1/txt2img'', capture_req_all OR capture_resp_headers),
      (''/sdapi/v1/img2img'', capture_req_headers OR capture_resp_headers)]"

definition capture_fields_for :: "string \<Rightarrow> capture_fields" where
  "capture_fields_for path = (case map_of capture_fields_by_path path of Some cf \<Rightarrow> cf | None \<Rightarrow> capture_all)"

definition sensitive_headers :: "string list" where
  "sensitive_headers = [''authorization'', ''proxy-authorization'', ''cookie'', ''set-cookie'', ''x-api-key'']"

definition header_map :: "headers \<Rightarrow> (string \<times> string) list" where
  "header_map h = List.map_filter (\<lambda>(k, vs). if vs = [] then None else Some (k, hd vs)) h"

definition redact_headers :: "(string \<times> string) list \<Rightarrow> (string \<times> string) list" where
  "redact_headers hs = map (\<lambda>(k, v). if to_lower k \<in> set sensitive_headers then (k, ''[REDACTED]'') else (k, v)) hs"

section \<open>The monitor\<close>

record activity =
  ac_id :: int
  ac_src :: string
  ac_model :: string
  ac_path :: string
  ac_content_type :: string
  ac_status :: nat
  ac_tokens :: token_metrics
  ac_duration :: int
  ac_has_capture :: bool
  ac_error :: string
  ac_metadata :: "(string \<times> string) list"

record 's activity_store =
  as_insert :: "activity \<Rightarrow> 's \<Rightarrow> 's \<times> activity option"
  as_memory :: bool
  as_prune :: "int \<Rightarrow> 's \<Rightarrow> 's"

record 's metrics_monitor =
  mm_store :: 's
  mm_max :: int
  mm_enable :: bool
  mm_cache :: bcache
  mm_events :: "activity list"

record metrics_env =
  me_reader :: json_reader
  me_status_text :: "nat \<Rightarrow> string"
  me_gunzip :: "string \<Rightarrow> string + string"
  me_inflate :: "string \<Rightarrow> string + string"
  me_pack :: "capture \<Rightarrow> string option"

definition new_metrics_monitor :: "'s \<Rightarrow> int \<Rightarrow> int \<Rightarrow> 's metrics_monitor" where
  "new_metrics_monitor st max_metrics capture_mb =
     \<lparr>mm_store = st, mm_max = (if max_metrics \<le> 0 then 1000 else max_metrics), mm_enable = (0 < capture_mb),
      mm_cache = bc_new (capture_mb * 1024 * 1024), mm_events = []\<rparr>"

definition queue_metrics :: "'s activity_store \<Rightarrow> activity \<Rightarrow> 's metrics_monitor \<Rightarrow> activity option \<times> 's metrics_monitor" where
  "queue_metrics st tm mm =
     (case as_insert st tm (mm_store mm) of
        (s1, None) \<Rightarrow> (None, mm\<lparr>mm_store := s1\<rparr>)
      | (s1, Some stored) \<Rightarrow> (Some stored, mm\<lparr>mm_store := (if as_memory st then as_prune st (mm_max mm) s1 else s1)\<rparr>))"

definition emit_metric :: "activity \<Rightarrow> 's metrics_monitor \<Rightarrow> 's metrics_monitor" where
  "emit_metric tm mm = mm\<lparr>mm_events := mm_events mm @ [tm]\<rparr>"

definition overlay_capture_state :: "'s metrics_monitor \<Rightarrow> activity list \<Rightarrow> activity list" where
  "overlay_capture_state mm entries =
     map (\<lambda>e. e\<lparr>ac_has_capture := (mm_enable mm \<and> bc_has (ac_id e) (mm_cache mm))\<rparr>) entries"

definition add_capture :: "metrics_env \<Rightarrow> capture \<Rightarrow> 's metrics_monitor \<Rightarrow> bool \<times> 's metrics_monitor" where
  "add_capture env cap mm =
     (if \<not> mm_enable mm then (False, mm)
      else case me_pack env cap of
        None \<Rightarrow> (False, mm)
      | Some b \<Rightarrow>
          (case bc_add (ca_id cap) b (mm_cache mm) of Inl e \<Rightarrow> (False, mm) | Inr c \<Rightarrow> (True, mm\<lparr>mm_cache := c\<rparr>)))"

definition get_capture_by_id :: "(string \<Rightarrow> capture option) \<Rightarrow> 's metrics_monitor \<Rightarrow> int \<Rightarrow> capture option" where
  "get_capture_by_id unpack mm k =
     (if \<not> mm_enable mm then None
      else case bc_get k (mm_cache mm) of Inl e \<Rightarrow> None | Inr b \<Rightarrow> unpack b)"

definition store_capture ::
  "metrics_env \<Rightarrow> int \<Rightarrow> string \<Rightarrow> headers \<Rightarrow> capture_fields \<Rightarrow> string option \<Rightarrow> (string \<times> string) list \<Rightarrow> string option \<Rightarrow>
     's metrics_monitor \<Rightarrow> bool \<times> 's metrics_monitor" where
  "store_capture env k path resp_headers cf req_body req_headers body mm =
     (if \<not> mm_enable mm then (False, mm)
      else add_capture env
        \<lparr>ca_id = k, ca_path = path, ca_req_headers = req_headers,
         ca_req_body = (if cf AND capture_req_body \<noteq> 0 then req_body else None),
         ca_resp_headers =
           (if cf AND capture_resp_headers \<noteq> 0
            then filter (\<lambda>(h, v). h \<noteq> ''Content-Encoding'') (redact_headers (header_map resp_headers)) else []),
         ca_resp_body = (if cf AND capture_resp_body \<noteq> 0 then body else None)\<rparr> mm)"

definition decompress_body :: "metrics_env \<Rightarrow> string \<Rightarrow> string \<Rightarrow> string + string" where
  "decompress_body env body encoding =
     (let e = to_lower (trim_space encoding) in
      if e = ''gzip'' then me_gunzip env body else if e = ''deflate'' then me_inflate env body else Inr body)"

definition decode_response_body :: "metrics_env \<Rightarrow> string \<Rightarrow> headers \<Rightarrow> string + string" where
  "decode_response_body env body resp_headers =
     (if body = [] then Inr []
      else (let encoding = header_get resp_headers ''Content-Encoding'' in
            if encoding = [] then Inr body else decompress_body env body encoding))"

definition filter_accept_encoding :: "string \<Rightarrow> string" where
  "filter_accept_encoding accept =
     (if accept = [] then []
      else join_comma (map trim_space
        (filter (\<lambda>part. to_lower (case cut_at (CHR '';'') (trim_space part) of None \<Rightarrow> trim_space part | Some (e, q) \<Rightarrow> e)
           \<in> {''gzip'', ''deflate''}) (split_at (CHR '','') accept))))"

text \<open>Where a request came from: the identity Tailcat authenticated, the host of its connection.\<close>

record connection =
  cn_tailcat :: "string option"
  cn_host :: string

definition forwarded_ip :: "http_request \<Rightarrow> string option" where
  "forwarded_ip r =
     (let xff = header_get (hr_headers r) ''X-Forwarded-For'';
          first = trim_space (case cut_at (CHR '','') xff of None \<Rightarrow> xff | Some (a, b) \<Rightarrow> a);
          xr = trim_space (header_get (hr_headers r) ''X-Real-Ip'')
      in if xff \<noteq> [] \<and> first \<noteq> [] then Some first else if xr \<noteq> [] then Some xr else None)"

definition activity_source :: "connection \<Rightarrow> http_request \<Rightarrow> string" where
  "activity_source cn r =
     (case cn_tailcat cn of
        Some source \<Rightarrow> source
      | None \<Rightarrow> (case forwarded_ip r of Some ip \<Rightarrow> ''xff:'' @ ip | None \<Rightarrow> ''ip:'' @ cn_host cn))"

section \<open>Recording\<close>

text \<open>The metadata of the request's context with the selector that chose its model.\<close>

definition entry_metadata :: "(string \<times> string) list \<Rightarrow> string \<Rightarrow> (string \<times> string) list" where
  "entry_metadata metadata selector = (if selector = [] then metadata else AList.update ''selector'' selector metadata)"

definition response_tokens ::
  "metrics_env \<Rightarrow> int \<Rightarrow> string \<Rightarrow> headers \<Rightarrow> string \<Rightarrow> (token_metrics \<times> int) option" where
  "response_tokens env wall path resp_headers body =
     (let jr = me_reader env in
      if contains (header_get resp_headers ''Content-Type'') ''text/event-stream''
      then process_streaming_response jr wall body
      else if jr_valid jr body then
        (let timings = (if has_prefix path ''/infill''
               then (case jr_array jr body of [] \<Rightarrow> jr_get jr body ''timings'' | arr \<Rightarrow> jr_get jr (last arr) ''timings'')
               else jr_get jr body ''timings'');
             usage = jr_get jr body ''usage''; metrics = jr_get jr body ''metrics''
         in if usage \<noteq> None \<or> timings \<noteq> None \<or> metrics \<noteq> None
            then Some (parse_metrics jr wall usage timings metrics) else None)
      else None)"

definition zero_tokens :: token_metrics where
  "zero_tokens = \<lparr>tk_cached = 0, tk_draft = 0, tk_draft_acc = 0, tk_input = 0, tk_output = 0, tk_prompt_rate = 0, tk_rate = 0\<rparr>"

definition queue_and_emit :: "'s activity_store \<Rightarrow> activity \<Rightarrow> 's metrics_monitor \<Rightarrow> 's metrics_monitor" where
  "queue_and_emit st tm mm =
     (case queue_metrics st tm mm of (None, mm1) \<Rightarrow> mm1 | (Some stored, mm1) \<Rightarrow> emit_metric stored mm1)"

text \<open>The two paths that store a capture: the row first, then the capture under its id, then the event.\<close>

definition queue_capture_emit ::
  "metrics_env \<Rightarrow> 's activity_store \<Rightarrow> activity \<Rightarrow> headers \<Rightarrow> capture_fields \<Rightarrow> string option \<Rightarrow> (string \<times> string) list \<Rightarrow>
     string option \<Rightarrow> 's metrics_monitor \<Rightarrow> 's metrics_monitor" where
  "queue_capture_emit env st tm resp_headers cf req_body req_headers body mm =
     (case queue_metrics st tm mm of
        (None, mm1) \<Rightarrow> mm1
      | (Some stored, mm1) \<Rightarrow>
          (case store_capture env (ac_id stored) (ac_path tm) resp_headers cf req_body req_headers body mm1 of (has, mm2) \<Rightarrow>
             emit_metric (stored\<lparr>ac_has_capture := has\<rparr>) mm2))"

definition record_activity ::
  "metrics_env \<Rightarrow> 's activity_store \<Rightarrow> connection \<Rightarrow> (string \<times> string) list \<Rightarrow> string \<Rightarrow> int \<Rightarrow> string \<Rightarrow> http_request \<Rightarrow> copier \<Rightarrow>
     headers \<Rightarrow> capture_fields \<Rightarrow> string option \<Rightarrow> (string \<times> string) list \<Rightarrow> 's metrics_monitor \<Rightarrow> 's metrics_monitor" where
  "record_activity env st cn metadata selector wall model r cp resp_headers cf req_body req_headers mm =
     (let tm = \<lparr>ac_id = 0, ac_src = activity_source cn r, ac_model = model, ac_path = hr_path r,
            ac_content_type = header_get resp_headers ''Content-Type'', ac_status = cp_status cp, ac_tokens = zero_tokens,
            ac_duration = wall, ac_has_capture = False, ac_error = [], ac_metadata = entry_metadata metadata selector\<rparr>
      in if cp_status cp = 499 then queue_and_emit st (tm\<lparr>ac_error := ''client disconnected before response''\<rparr>) mm
         else if cp_status cp \<noteq> 200 then
           queue_capture_emit env st
             (tm\<lparr>ac_error := failed_error_message (me_reader env) (cp_status cp) (me_status_text env (cp_status cp))
                  (decode_response_body env (cp_body cp) resp_headers)\<rparr>)
             resp_headers (cf AND NOT capture_resp_body) req_body req_headers None mm
         else if cp_body cp = [] then queue_and_emit st tm mm
         else (case decode_response_body env (cp_body cp) resp_headers of
             Inl err \<Rightarrow> queue_and_emit st (tm\<lparr>ac_error := ''response decompression failed: '' @ err\<rparr>) mm
           | Inr body \<Rightarrow>
               queue_capture_emit env st
                 (case response_tokens env wall (hr_path r) resp_headers body of
                    None \<Rightarrow> tm | Some (tk, d) \<Rightarrow> tm\<lparr>ac_tokens := tk, ac_duration := d\<rparr>)
                 resp_headers cf req_body req_headers (Some body) mm))"

section \<open>The middleware\<close>

datatype metered =
    Unmetered http_request
  | Rejected reply
  | Metered http_request headers "writer_call list"

definition is_metrics_record_path :: "string \<Rightarrow> bool" where
  "is_metrics_record_path path \<longleftrightarrow>
     path \<in> set model_post_json_routes \<or> path \<in> set model_post_form_routes \<or> path \<in> set model_get_routes"

text \<open>\<open>gone\<close>: the client has hung up by the time the handler returns.\<close>

definition meter_request ::
  "metrics_env \<Rightarrow> 's activity_store \<Rightarrow> connection \<Rightarrow> (string \<times> string) list \<Rightarrow> string \<Rightarrow> int \<Rightarrow> bool \<Rightarrow>
     (http_request \<Rightarrow> http_request \<times> headers \<times> writer_call list) \<Rightarrow> capture_fields \<Rightarrow> string \<Rightarrow> http_request \<Rightarrow>
     's metrics_monitor \<Rightarrow> metered \<times> 's metrics_monitor" where
  "meter_request env st cn metadata selector wall gone nxt cf model r1 mm =
     (let (req_body, r2) =
            (if mm_enable mm \<and> cf AND capture_req_body \<noteq> 0
             then (case read_body r1 of Inl e \<Rightarrow> (None, r1) | Inr b \<Rightarrow> (Some b, set_body b r1)) else (None, r1));
          req_headers =
            (if mm_enable mm \<and> cf AND capture_req_headers \<noteq> 0 then redact_headers (header_map (hr_headers r2)) else []);
          accept = header_get (hr_headers r2) ''Accept-Encoding'';
          r3 = (if accept = [] then r2
                else r2\<lparr>hr_headers := header_set ''Accept-Encoding'' (filter_accept_encoding accept) (hr_headers r2)\<rparr>)
      in case nxt r3 of (r4, resp_headers, calls) \<Rightarrow>
        (let cp = mark_client_closed gone (foldl copier_call new_body_copier calls) in
         (Metered r3 resp_headers (cp_client cp),
          record_activity env st cn metadata selector wall model r4 cp resp_headers cf req_body req_headers mm)))"

definition metrics_middleware ::
  "metrics_env \<Rightarrow> 's activity_store \<Rightarrow> codec \<Rightarrow> names \<Rightarrow> (string \<Rightarrow> bool) \<Rightarrow> connection \<Rightarrow> (string \<times> string) list \<Rightarrow> string \<Rightarrow> int \<Rightarrow> bool \<Rightarrow>
     (http_request \<Rightarrow> http_request \<times> headers \<times> writer_call list) \<Rightarrow> http_request \<Rightarrow> headers \<Rightarrow> 's metrics_monitor \<Rightarrow>
     metered \<times> 's metrics_monitor" where
  "metrics_middleware env st cd c loading cn metadata selector wall gone nxt r h mm =
     (if hr_method r \<noteq> ''POST'' then (Unmetered r, mm)
      else case (if has_prefix (hr_path r) ''/upstream/''
                 then map_option (\<lambda>(search, real, rest). rest) (find_model_in_path c (trim_prefix ''/upstream'' (hr_path r)))
                 else Some (hr_path r)) of
        None \<Rightarrow> (Unmetered r, mm)
      | Some check_path \<Rightarrow>
          if \<not> is_metrics_record_path check_path then (Unmetered r, mm)
          else (case fetch_context cd c loading r of
              (Inl e, r1) \<Rightarrow> (Rejected (send_error r1 h NoModelInContext), mm)
            | (Inr d, r1) \<Rightarrow>
                meter_request env st cn metadata selector wall gone nxt (capture_fields_for check_path) (rx_model_id d) r1 mm))"

section \<open>What the client sees\<close>

text \<open>
  The response as \<open>net/http\<close> sends it: informational statuses (1xx, but not the switch of protocols) go out at once and any number
  of them may come before the final status, which is the first other one; a write or a flush implies 200, and what comes after the
  final status is dropped.
\<close>

definition informational :: "nat \<Rightarrow> bool" where
  "informational n \<longleftrightarrow> 100 \<le> n \<and> n < 200 \<and> n \<noteq> 101"

type_synonym response_view = "nat list \<times> nat option \<times> string"

definition view_final :: "nat \<Rightarrow> nat option \<Rightarrow> nat option" where
  "view_final n status = (case status of None \<Rightarrow> Some n | Some s \<Rightarrow> Some s)"

definition view_call :: "response_view \<Rightarrow> writer_call \<Rightarrow> response_view" where
  "view_call v w =
     (case v of (infos, status, body) \<Rightarrow>
        (case w of
           WriteHeader n \<Rightarrow> if informational n \<and> status = None then (infos @ [n], None, body) else (infos, view_final n status, body)
         | Write b \<Rightarrow> (infos, view_final 200 status, body @ b)
         | Flush \<Rightarrow> (infos, view_final 200 status, body)
         | MarkStatus n \<Rightarrow> (infos, status, body)))"

definition client_view :: "writer_call list \<Rightarrow> response_view" where
  "client_view calls = foldl view_call ([], None, []) calls"

definition final_status :: "response_view \<Rightarrow> nat option" where
  "final_status v = fst (snd v)"

lemma client_view_append: "client_view (xs @ ys) = foldl view_call (client_view xs) ys"
  by (simp add: client_view_def)

lemma client_view_snoc: "client_view (calls @ [w]) = view_call (client_view calls) w"
  by (simp add: client_view_def)

lemma copier_call_simps:
  "copier_call c (WriteHeader n) = copier_write_header n c" "copier_call c (Write b) = copier_write b c"
  "copier_call c Flush = copier_flush c" "copier_call c (MarkStatus n) = copier_mark n c"
  by (simp_all add: copier_call_def)

lemmas copier_ops = copier_call_simps copier_write_header_def copier_write_def copier_flush_def copier_mark_def

lemma view_call_infos: "fst (view_call v w) = [] \<Longrightarrow> fst v = []"
  by (cases v; cases w) (auto simp: view_call_def split: if_splits)

lemma view_infos_prefix: "fst (client_view (calls @ [w])) = [] \<Longrightarrow> fst (client_view calls) = []"
  by (simp add: client_view_snoc view_call_infos)

text \<open>The copier and the client agree as long as no informational status has gone out.\<close>

definition copied :: "copier \<Rightarrow> response_view \<Rightarrow> bool" where
  "copied c v \<longleftrightarrow> client_view (cp_client c) = v \<and> (cp_wrote c \<longleftrightarrow> final_status v \<noteq> None)"

lemma copier_step: "copied c v \<Longrightarrow> fst (view_call v w) = [] \<Longrightarrow> copied (copier_call c w) (view_call v w)"
  by (cases v; cases "cp_wrote c"; cases w)
     (auto simp: copied_def copier_ops Let_def client_view_append view_call_def view_final_def final_status_def informational_def
       split: if_splits option.splits)

lemma copier_run: "fst (client_view calls) = [] \<Longrightarrow> copied (foldl copier_call new_body_copier calls) (client_view calls)"
proof (induction calls rule: rev_induct)
  case Nil
  show ?case by (simp add: new_body_copier_def client_view_def copied_def final_status_def)
next
  case (snoc w calls)
  from copier_step [OF snoc.IH [OF view_infos_prefix [OF snoc.prems]], of w] snoc.prems show ?case
    by (simp add: client_view_snoc)
qed

text \<open>
  A status is marked, without being sent, only as \<open>MarkClientClosed\<close> does it: as 499, for a client that is gone, before the
  response has started.
\<close>

definition marks_closed :: "bool \<Rightarrow> writer_call list \<Rightarrow> bool" where
  "marks_closed gone calls \<longleftrightarrow>
     (\<forall>xs n ys. calls = xs @ MarkStatus n # ys \<longrightarrow> n = 499 \<and> gone \<and> final_status (client_view xs) = None)"

lemma marks_closed_snoc:
  assumes "marks_closed gone (calls @ [w])"
  shows "marks_closed gone calls" and "w = MarkStatus n \<Longrightarrow> n = 499 \<and> gone \<and> final_status (client_view calls) = None"
proof -
  have ok: "n = 499 \<and> gone \<and> final_status (client_view xs) = None" if "calls @ [w] = xs @ MarkStatus n # ys" for xs n ys
    using assms that unfolding marks_closed_def by blast
  show "marks_closed gone calls" unfolding marks_closed_def by (intro allI impI, rule ok) simp
  show "w = MarkStatus n \<Longrightarrow> n = 499 \<and> gone \<and> final_status (client_view calls) = None" using ok [of calls n "[]"] by simp
qed

definition status_kept :: "bool \<Rightarrow> copier \<Rightarrow> response_view \<Rightarrow> bool" where
  "status_kept gone c v \<longleftrightarrow>
     (case final_status v of Some n \<Rightarrow> cp_status c = n | None \<Rightarrow> cp_status c = 200 \<or> gone \<and> cp_status c = 499)"

lemma copier_step_status:
  assumes "copied c v" and "status_kept gone c v" and "fst (view_call v w) = []"
    and "\<And>n. w = MarkStatus n \<Longrightarrow> n = 499 \<and> gone \<and> final_status v = None"
  shows "status_kept gone (copier_call c w) (view_call v w)"
  using assms
  by (cases v; cases "cp_wrote c"; cases w)
     (auto simp: copied_def status_kept_def copier_ops Let_def view_call_def view_final_def final_status_def split: if_splits option.splits)

lemma copier_status:
  "fst (client_view calls) = [] \<Longrightarrow> marks_closed gone calls \<Longrightarrow>
    status_kept gone (foldl copier_call new_body_copier calls) (client_view calls)"
proof (induction calls rule: rev_induct)
  case Nil
  show ?case by (simp add: new_body_copier_def client_view_def status_kept_def final_status_def)
next
  case (snoc w calls)
  note infos = view_infos_prefix [OF snoc.prems(1)]
  have "status_kept gone (copier_call (foldl copier_call new_body_copier calls) w) (view_call (client_view calls) w)"
    by (rule copier_step_status [OF copier_run [OF infos] snoc.IH [OF infos marks_closed_snoc(1) [OF snoc.prems(2)]]])
      (use snoc.prems(1) marks_closed_snoc(2) [OF snoc.prems(2)] in \<open>auto simp: client_view_snoc\<close>)
  then show ?case by (simp add: client_view_snoc)
qed

definition served_copier :: "bool \<Rightarrow> writer_call list \<Rightarrow> copier" where
  "served_copier gone calls = mark_client_closed gone (foldl copier_call new_body_copier calls)"

lemma served_view:
  assumes "fst (client_view calls) = []"
  shows "client_view (cp_client (served_copier gone calls)) = client_view calls"
proof -
  have "view_call v (MarkStatus n) = v" for v n by (cases v) (simp add: view_call_def)
  then show ?thesis using copier_run [OF assms]
    by (auto simp: served_copier_def mark_client_closed_def copier_mark_def client_view_snoc copied_def)
qed

lemma served_status:
  assumes "fst (client_view calls) = []" and "marks_closed gone calls"
  shows "cp_status (served_copier gone calls) =
    (case final_status (client_view calls) of Some n \<Rightarrow> n | None \<Rightarrow> if gone then 499 else 200)"
proof -
  let ?c = "foldl copier_call new_body_copier calls"
  have "cp_wrote ?c \<longleftrightarrow> final_status (client_view calls) \<noteq> None" using copier_run [OF assms(1)] by (simp add: copied_def)
  with copier_status [OF assms] show ?thesis
    by (cases "final_status (client_view calls)") (auto simp: served_copier_def mark_client_closed_def copier_mark_def status_kept_def)
qed

text \<open>
  After an informational status the copier takes the response for started: the final status that follows never reaches the client,
  which is told 200 by the body.
\<close>

lemma final_status_swallowed:
  "client_view [WriteHeader 103, WriteHeader 404, Write ''no''] = ([103], Some 404, ''no'')"
  "client_view (cp_client (served_copier False [WriteHeader 103, WriteHeader 404, Write ''no''])) = ([103], Some 200, ''no'')"
  by code_simp+

section \<open>What is recorded\<close>

lemma evict_keeps: "bc_items (evict_oldest need c) k = Some b \<Longrightarrow> bc_items c k = Some b"
proof (induction need c rule: evict_oldest.induct)
  case (1 need c)
  have "bc_items (evict_head c) k = Some b \<Longrightarrow> bc_items c k = Some b"
    by (auto simp: evict_head_def Let_def split: option.splits if_splits)
  with 1 show ?case unfolding evict_oldest.simps [of need c] by (auto split: if_splits)
qed

lemma bc_add_items:
  assumes "bc_add k d c = Inr c'"
  shows "bc_items c' j = Some b \<Longrightarrow> j = k \<and> b = d \<or> bc_items c j = Some b" and "bc_has k c'"
  using assms by (auto simp: bc_add_def Let_def bc_has_def remove_order_def split: if_splits option.splits dest!: evict_keeps)

definition redacted :: "(string \<times> string) list \<Rightarrow> bool" where
  "redacted hs \<longleftrightarrow> (\<forall>(k, v) \<in> set hs. to_lower k \<in> set sensitive_headers \<longrightarrow> v = ''[REDACTED]'')"

lemma redact_headers_redacted: "redacted (redact_headers hs)"
  by (auto simp: redacted_def redact_headers_def split: if_splits)

lemma redacted_Nil: "redacted []"
  by (simp add: redacted_def)

lemma redacted_filter: "redacted hs \<Longrightarrow> redacted (filter P hs)"
  by (auto simp: redacted_def)

text \<open>One step of bookkeeping: at most one row, one event and one capture.\<close>

definition booked :: "'s activity_store \<Rightarrow> activity \<Rightarrow> 's metrics_monitor \<Rightarrow> 's metrics_monitor \<Rightarrow> bool" where
  "booked st tm mm mm' \<longleftrightarrow>
     (case as_insert st tm (mm_store mm) of
        (s1, None) \<Rightarrow> mm_store mm' = s1 \<and> mm_events mm' = mm_events mm \<and> mm_cache mm' = mm_cache mm
      | (s1, Some row) \<Rightarrow>
          mm_store mm' = (if as_memory st then as_prune st (mm_max mm) s1 else s1) \<and>
          (\<exists>has. mm_events mm' = mm_events mm @ [row\<lparr>ac_has_capture := has\<rparr>] \<and>
             (has \<and> has \<noteq> ac_has_capture row \<longrightarrow> bc_has (ac_id row) (mm_cache mm'))))"

lemma queue_and_emit_books: "booked st tm mm (queue_and_emit st tm mm)" "mm_cache (queue_and_emit st tm mm) = mm_cache mm"
proof -
  obtain s1 row where i: "as_insert st tm (mm_store mm) = (s1, row)" by fastforce
  have "\<exists>has. r = r\<lparr>ac_has_capture := has\<rparr> \<and> (has \<and> has \<noteq> ac_has_capture r \<longrightarrow> X)" for r :: activity and X
    by (rule exI [of _ "ac_has_capture r"]) simp
  with i show "booked st tm mm (queue_and_emit st tm mm)"
    by (cases row) (simp_all add: booked_def queue_and_emit_def queue_metrics_def emit_metric_def)
  show "mm_cache (queue_and_emit st tm mm) = mm_cache mm"
    using i by (cases row) (simp_all add: queue_and_emit_def queue_metrics_def emit_metric_def)
qed

lemma store_capture_spec:
  assumes "store_capture env k path rsp cf rb rh body mm = (has, mm')"
  shows "mm_store mm' = mm_store mm" "mm_events mm' = mm_events mm" "has \<Longrightarrow> bc_has k (mm_cache mm')"
    and "bc_items (mm_cache mm') j = Some b \<Longrightarrow> redacted rh \<Longrightarrow> bc_items (mm_cache mm) j = Some b \<or>
      (\<exists>cap. me_pack env cap = Some b \<and> ca_id cap = j \<and> redacted (ca_req_headers cap) \<and> redacted (ca_resp_headers cap) \<and>
         (ca_resp_body cap \<noteq> None \<longrightarrow> cf AND capture_resp_body \<noteq> 0 \<and> body \<noteq> None))"
proof -
  let ?cap = "\<lparr>ca_id = k, ca_path = path, ca_req_headers = rh, ca_req_body = (if cf AND capture_req_body \<noteq> 0 then rb else None),
      ca_resp_headers = (if cf AND capture_resp_headers \<noteq> 0
        then filter (\<lambda>(h, v). h \<noteq> ''Content-Encoding'') (redact_headers (header_map rsp)) else []),
      ca_resp_body = (if cf AND capture_resp_body \<noteq> 0 then body else None)\<rparr>"
  have a: "(if mm_enable mm then add_capture env ?cap mm else (False, mm)) = (has, mm')"
    using assms by (simp add: store_capture_def split: if_splits)
  show "mm_store mm' = mm_store mm" "mm_events mm' = mm_events mm" "has \<Longrightarrow> bc_has k (mm_cache mm')"
    using a by (auto simp: add_capture_def bc_add_items split: if_splits option.splits sum.splits)
  assume b: "bc_items (mm_cache mm') j = Some b" and rh: "redacted rh"
  have red: "redacted (ca_resp_headers ?cap)" by (simp add: redacted_filter redact_headers_redacted) (simp add: redacted_def)
  show "bc_items (mm_cache mm) j = Some b \<or>
      (\<exists>cap. me_pack env cap = Some b \<and> ca_id cap = j \<and> redacted (ca_req_headers cap) \<and> redacted (ca_resp_headers cap) \<and>
         (ca_resp_body cap \<noteq> None \<longrightarrow> cf AND capture_resp_body \<noteq> 0 \<and> body \<noteq> None))"
  proof (cases "mm' = mm")
    case False
    then obtain d c where d: "me_pack env ?cap = Some d" "bc_add k d (mm_cache mm) = Inr c" "mm' = mm\<lparr>mm_cache := c\<rparr>"
      using a by (auto simp: add_capture_def split: if_splits option.splits sum.splits)
    with bc_add_items(1) [OF d(2), of j b] b have "j = k \<and> b = d \<or> bc_items (mm_cache mm) j = Some b" by simp
    then show ?thesis
    proof
      assume "j = k \<and> b = d"
      with d(1) rh red show ?thesis by (intro disjI2 exI [of _ ?cap]) (auto split: if_splits)
    qed simp
  qed (use b in simp)
qed

lemma queue_capture_books:
  "booked st tm mm (queue_capture_emit env st tm rsp cf rb rh body mm)"
  "bc_items (mm_cache (queue_capture_emit env st tm rsp cf rb rh body mm)) j = Some b \<Longrightarrow> redacted rh \<Longrightarrow>
     bc_items (mm_cache mm) j = Some b \<or>
     (\<exists>cap. me_pack env cap = Some b \<and> ca_id cap = j \<and> redacted (ca_req_headers cap) \<and> redacted (ca_resp_headers cap) \<and>
        (ca_resp_body cap \<noteq> None \<longrightarrow> cf AND capture_resp_body \<noteq> 0 \<and> body \<noteq> None))"
proof -
  obtain s1 row where i: "as_insert st tm (mm_store mm) = (s1, row)" by fastforce
  let ?mm1 = "mm\<lparr>mm_store := (if as_memory st then as_prune st (mm_max mm) s1 else s1)\<rparr>"
  show "booked st tm mm (queue_capture_emit env st tm rsp cf rb rh body mm)"
  proof (cases row)
    case (Some stored)
    obtain has mm2 where c: "store_capture env (ac_id stored) (ac_path tm) rsp cf rb rh body ?mm1 = (has, mm2)" by fastforce
    from store_capture_spec(1-3) [OF c] i Some c show ?thesis
      by (auto simp: booked_def queue_capture_emit_def queue_metrics_def emit_metric_def)
  qed (use i in \<open>simp add: booked_def queue_capture_emit_def queue_metrics_def\<close>)
  assume b: "bc_items (mm_cache (queue_capture_emit env st tm rsp cf rb rh body mm)) j = Some b" and rh: "redacted rh"
  show "bc_items (mm_cache mm) j = Some b \<or>
     (\<exists>cap. me_pack env cap = Some b \<and> ca_id cap = j \<and> redacted (ca_req_headers cap) \<and> redacted (ca_resp_headers cap) \<and>
        (ca_resp_body cap \<noteq> None \<longrightarrow> cf AND capture_resp_body \<noteq> 0 \<and> body \<noteq> None))"
  proof (cases row)
    case (Some stored)
    obtain has mm2 where c: "store_capture env (ac_id stored) (ac_path tm) rsp cf rb rh body ?mm1 = (has, mm2)" by fastforce
    have "bc_items (mm_cache mm2) j = Some b"
      using b i Some c by (simp add: queue_capture_emit_def queue_metrics_def emit_metric_def)
    from store_capture_spec(4) [OF c this rh] show ?thesis by simp
  qed (use i b in \<open>simp add: queue_capture_emit_def queue_metrics_def\<close>)
qed

lemma record_books:
  "\<exists>tm. booked st tm mm (record_activity env st cn metadata selector wall model r cp rsp cf rb rh mm) \<and>
     ac_model tm = model \<and> ac_status tm = cp_status cp"
proof -
  let ?tm = "\<lparr>ac_id = 0, ac_src = activity_source cn r, ac_model = model, ac_path = hr_path r,
            ac_content_type = header_get rsp ''Content-Type'', ac_status = cp_status cp, ac_tokens = zero_tokens,
            ac_duration = wall, ac_has_capture = False, ac_error = [], ac_metadata = entry_metadata metadata selector\<rparr>"
  have "\<exists>tm. record_activity env st cn metadata selector wall model r cp rsp cf rb rh mm = queue_and_emit st tm mm \<and>
        ac_model tm = model \<and> ac_status tm = cp_status cp \<or>
      (\<exists>cf' body. record_activity env st cn metadata selector wall model r cp rsp cf rb rh mm =
         queue_capture_emit env st tm rsp cf' rb rh body mm \<and> ac_model tm = model \<and> ac_status tm = cp_status cp)"
    unfolding record_activity_def Let_def
    by (cases "cp_status cp = 499"; cases "cp_status cp = 200"; cases "cp_body cp = []";
        cases "decode_response_body env (cp_body cp) rsp";
        cases "response_tokens env wall (hr_path r) rsp (projr (decode_response_body env (cp_body cp) rsp))")
       (auto intro!: exI split: prod.split)
  then show ?thesis by (metis queue_and_emit_books(1) queue_capture_books(1))
qed

lemma no_resp_body: "(cf AND NOT capture_resp_body) AND capture_resp_body = 0"
  by (simp add: bit_eq_iff bit_simps)

lemma record_captures:
  assumes "bc_items (mm_cache (record_activity env st cn metadata selector wall model r cp rsp cf rb rh mm)) j = Some b"
    and "redacted rh"
  shows "bc_items (mm_cache mm) j = Some b \<or>
     (\<exists>cap. me_pack env cap = Some b \<and> ca_id cap = j \<and> redacted (ca_req_headers cap) \<and> redacted (ca_resp_headers cap) \<and>
        cp_status cp \<noteq> 499 \<and> (ca_resp_body cap \<noteq> None \<longrightarrow> cp_status cp = 200))"
proof (cases "cp_status cp = 499 \<or> cp_status cp = 200 \<and> cp_body cp = []")
  case True
  then show ?thesis using assms(1) by (auto simp: record_activity_def Let_def queue_and_emit_books(2))
next
  case False
  show ?thesis
  proof (cases "cp_status cp = 200")
    case True
    with False assms(1) show ?thesis
      using queue_capture_books(2) [OF _ assms(2)]
      by (auto simp: record_activity_def Let_def queue_and_emit_books(2) split: sum.splits dest!: queue_capture_books(2) [OF _ assms(2)])
  next
    case no: False
    with False assms(1) show ?thesis
      by (auto simp: record_activity_def Let_def dest!: queue_capture_books(2) [OF _ assms(2)])
  qed
qed

text \<open>A metered request, in its parts.\<close>

lemma meter_request_parts:
  assumes "meter_request env st cn metadata selector wall gone nxt cf model r1 mm = (Metered r3 rsp cl, mm')"
  obtains r4 calls rb rh where "nxt r3 = (r4, rsp, calls)" "cl = cp_client (served_copier gone calls)" "redacted rh"
    "mm' = record_activity env st cn metadata selector wall model r4 (served_copier gone calls) rsp cf rb rh mm"
proof -
  obtain rb r2 where rb: "(if mm_enable mm \<and> cf AND capture_req_body \<noteq> 0
      then (case read_body r1 of Inl e \<Rightarrow> (None, r1) | Inr b \<Rightarrow> (Some b, set_body b r1)) else (None, r1)) = (rb, r2)" by fastforce
  define rh where "rh = (if mm_enable mm \<and> cf AND capture_req_headers \<noteq> 0 then redact_headers (header_map (hr_headers r2)) else [])"
  have "redacted rh" unfolding rh_def using redact_headers_redacted by (simp add: redacted_Nil)
  moreover obtain r4 calls where "nxt r3 = (r4, rsp, calls)" "cl = cp_client (served_copier gone calls)"
      "mm' = record_activity env st cn metadata selector wall model r4 (served_copier gone calls) rsp cf rb rh mm"
    using assms unfolding meter_request_def rb Let_def rh_def [symmetric] served_copier_def [symmetric] prod.case
    by (auto split: prod.splits)
  ultimately show ?thesis using that by blast
qed

lemma metered_parts:
  assumes "metrics_middleware env st cd c loading cn metadata selector wall gone nxt r h mm = (Metered r3 rsp cl, mm')"
  obtains d r1 r4 calls cf rb rh where "fetch_context cd c loading r = (Inr d, r1)" "nxt r3 = (r4, rsp, calls)"
    "cl = cp_client (served_copier gone calls)" "redacted rh"
    "mm' = record_activity env st cn metadata selector wall (rx_model_id d) r4 (served_copier gone calls) rsp cf rb rh mm"
proof -
  from assms obtain d r1 cf where p: "fetch_context cd c loading r = (Inr d, r1)"
      "meter_request env st cn metadata selector wall gone nxt cf (rx_model_id d) r1 mm = (Metered r3 rsp cl, mm')"
    unfolding metrics_middleware_def by (auto split: if_splits option.splits prod.splits sum.splits)
  show ?thesis by (rule meter_request_parts [OF p(2)]) (rule that [OF p(1)])
qed



text \<open>A store that is a list of rows, and captures written as their first request header and whether they have a body.\<close>

definition demo_store :: "activity list activity_store" where
  "demo_store =
     \<lparr>as_insert = (\<lambda>tm rows. (rows @ [tm\<lparr>ac_id := int (length rows) + 1\<rparr>], Some (tm\<lparr>ac_id := int (length rows) + 1\<rparr>))),
      as_memory = False, as_prune = (\<lambda>n rows. rows)\<rparr>"

definition demo_env :: metrics_env where
  "demo_env =
     \<lparr>me_reader = \<lparr>jr_valid = (\<lambda>s. False), jr_get = (\<lambda>s p. None), jr_kind = (\<lambda>s. JNull), jr_int = (\<lambda>s. 0), jr_float = (\<lambda>s. 0),
        jr_text = (\<lambda>s. s), jr_array = (\<lambda>s. [])\<rparr>,
      me_status_text = (\<lambda>n. []), me_gunzip = Inl, me_inflate = Inl,
      me_pack = (\<lambda>cap. Some (concat (map (\<lambda>(k, v). k @ '': '' @ v @ '' '') (ca_req_headers cap)) @
        (case ca_resp_body cap of None \<Rightarrow> [] | Some b \<Rightarrow> b)))\<rparr>"

definition demo_served :: "http_request \<Rightarrow> http_request \<times> headers \<times> writer_call list" where
  "demo_served r = (r, [(''Content-Type'', [''text/plain''])], [Write ''hello'', Flush, Write ''!''])"

definition secret_request :: http_request where
  "secret_request = (demo_request ''application/json'' ''a'')\<lparr>hr_headers :=
     [(''Content-Type'', [''application/json'']), (''Authorization'', [''Bearer k''])]\<rparr>"

definition demo_metered :: "metered \<times> activity list metrics_monitor" where
  "demo_metered = metrics_middleware demo_env demo_store demo_codec demo_names (\<lambda>m. False)
     \<lparr>cn_tailcat = None, cn_host = ''::1''\<rparr> [] [] 5 False demo_served secret_request [] (new_metrics_monitor [] 10 1)"

lemma demo_metered_facts:
  "case demo_metered of (res, mm) \<Rightarrow>
     (case res of Metered r3 rsp cl \<Rightarrow> rsp = [(''Content-Type'', [''text/plain''])] | _ \<Rightarrow> False) \<and>
     bc_get 1 (mm_cache mm) = Inr ''Content-Type: application/json Authorization: [REDACTED] hello!''"
  unfolding demo_metered_def by code_simp

lemma demo_fetch:
  "case fetch_context demo_codec demo_names (\<lambda>m. False) secret_request of (Inr d, r1) \<Rightarrow> rx_model_id d = ''a'' | (Inl e, r1) \<Rightarrow> False"
  by code_simp

lemma demo_metered_run:
  obtains r3 rsp cl mm where "demo_metered = (Metered r3 rsp cl, mm)"
    "bc_get 1 (mm_cache mm) = Inr ''Content-Type: application/json Authorization: [REDACTED] hello!''"
proof -
  obtain res mm where m: "demo_metered = (res, mm)" by fastforce
  note f = demo_metered_facts [unfolded m prod.case]
  then obtain r3 rsp cl where "res = Metered r3 rsp cl" by (cases res) simp_all
  with m f that show ?thesis by blast
qed



end
