(* ===== verification/PeerRequest.thy ===== *)
theory PeerRequest
  imports Routes Metrics
begin

text \<open>
  A request for a peer's model from the socket to the peer: the multiplexer, the model chain with its filters
  and the dispatch, composed. The middlewares with a state of their own forward the request, which is what they do
  where no limit is reached and the model is not a selector: at most the reader of the body is a fresh one and the header
  \<open>Accept-Encoding\<close> another. That of the limit, of the selectors and of the metrics is shown to; nothing is assumed of the local router.
\<close>

section \<open>Forwarding\<close>

text \<open>A JSON request on its way: what of it the next stage relies on.\<close>

definition json_request :: "string \<Rightarrow> string \<Rightarrow> req_context option \<Rightarrow> http_request \<Rightarrow> bool" where
  "json_request path b ctx r \<longleftrightarrow>
     hr_method r = ''POST'' \<and> hr_path r = path \<and> contains (content_type r) ''application/json'' \<and>
     \<not> contains (content_type r) ''multipart/form-data'' \<and> read_body r = Inr b \<and> hr_context r = ctx"

definition carried :: "http_request \<Rightarrow> http_request \<Rightarrow> bool" where
  "carried r r' \<longleftrightarrow> hr_method r' = hr_method r \<and> hr_path r' = hr_path r \<and> hr_query r' = hr_query r \<and>
     hr_context r' = hr_context r \<and> read_body r' = read_body r \<and>
     (\<forall>n. n \<noteq> ''Accept-Encoding'' \<longrightarrow> header_values (hr_headers r') n = header_values (hr_headers r) n)"

definition forwards :: "(http_request \<Rightarrow> bool) \<Rightarrow> middleware \<Rightarrow> bool" where
  "forwards P mw \<longleftrightarrow> (\<forall>r h. P r \<longrightarrow> (\<exists>r' h'. carried r r' \<and> (\<forall>nxt. mw nxt r h = nxt r' h')))"

lemma carried_refl [simp]: "carried r r"
  by (simp add: carried_def)

lemma carried_json: "json_request path b ctx r \<Longrightarrow> carried r r' \<Longrightarrow> json_request path b ctx r'"
  by (simp add: json_request_def carried_def content_type_def header_get_def)

lemma carried_set_body: "read_body r = Inr b \<Longrightarrow> carried r (set_body b r)"
  by (simp add: carried_def read_body_def set_body_def)

lemma read_body_headers: "read_body (r\<lparr>hr_headers := hs\<rparr>) = read_body r"
  by (cases "hr_cap r") (simp_all add: read_body_def)

lemma carried_encoding: "carried r r' \<Longrightarrow> carried r (r'\<lparr>hr_headers := header_set ''Accept-Encoding'' v (hr_headers r')\<rparr>)"
  by (simp add: carried_def read_body_headers)

lemma forwards_json:
  assumes "forwards (json_request path b ctx) mw" and "json_request path b ctx r"
  obtains r' h' where "json_request path b ctx r'" and "\<And>nxt. mw nxt r h = nxt r' h'"
  using assms carried_json unfolding forwards_def by meson

text \<open>The parts of a server forward a JSON request with this body and model.\<close>

definition parts_forward :: "server_parts \<Rightarrow> string \<Rightarrow> string \<Rightarrow> string \<Rightarrow> bool" where
  "parts_forward p path b s \<longleftrightarrow>
     forwards (json_request path b None) (sv_limit p) \<and> forwards (json_request path b None) (sv_selector p) \<and>
     (\<forall>d. rx_model d = s \<longrightarrow> forwards (json_request path b (Some d)) (sv_inflight p)) \<and>
     (\<forall>d b'. rx_model d = s \<longrightarrow> forwards (json_request path b' (Some d)) (sv_metrics p))"

text \<open>
  The parts that the sources give them: the limit below its bound, the selectors (\<open>selector.go\<close>) for a model
  that is not one of them (\<open>chosen\<close> is what becomes of one that is), and the metrics, whose writer does not change the response.
\<close>

definition selector_part :: "codec \<Rightarrow> (string \<times> 'a) list \<Rightarrow> ('a \<Rightarrow> string \<Rightarrow> middleware) \<Rightarrow> middleware" where
  "selector_part cd sels chosen nxt r h =
     (if sels = [] then nxt r h
      else case extract_model cd r of
        (Inl e, r1) \<Rightarrow> nxt r1 h
      | (Inr m, r1) \<Rightarrow>
          if m = [] then nxt r1 h
          else (case map_of sels m of None \<Rightarrow> nxt r1 h | Some sel \<Rightarrow> chosen sel m nxt r1 h))"

definition metrics_part ::
  "metrics_env \<Rightarrow> 's activity_store \<Rightarrow> codec \<Rightarrow> names \<Rightarrow> (string \<Rightarrow> bool) \<Rightarrow> connection \<Rightarrow> (string \<times> string) list \<Rightarrow> string \<Rightarrow> int \<Rightarrow>
     bool \<Rightarrow> 's metrics_monitor \<Rightarrow> middleware" where
  "metrics_part env st cd ns loading cn metadata selector wall gone mm nxt r h =
     (case fst (metrics_middleware env st cd ns loading cn metadata selector wall gone (\<lambda>r3. (r3, h, [])) r h mm) of
        Unmetered r1 \<Rightarrow> nxt r1 h
      | Rejected reply \<Rightarrow> reply
      | Metered r3 h3 calls \<Rightarrow> nxt r3 h)"

lemma limit_forwards: "taken < n \<Longrightarrow> forwards P (concurrency_middleware n taken)"
  unfolding forwards_def concurrency_middleware_def try_acquire_def using carried_refl by fastforce

lemma selector_forwards:
  assumes "cd_json_string cd b ''model'' = s" and "map_of sels s = None"
  shows "forwards (json_request path b ctx) (selector_part cd sels chosen)"
  unfolding forwards_def
proof (intro allI impI)
  fix r h assume j: "json_request path b ctx r"
  show "\<exists>r' h'. carried r r' \<and> (\<forall>nxt. selector_part cd sels chosen nxt r h = nxt r' h')"
  proof (cases "sels = []")
    case True
    then show ?thesis by (intro exI [of _ r] exI [of _ h]) (simp add: selector_part_def)
  next
    case False
    have "extract_model cd r = (Inr s, set_body b r)"
      using j assms(1) by (simp add: json_request_def extract_model_def extract_json new_context_def)
    then show ?thesis using False assms(2) carried_set_body [of r b] j
      by (intro exI [of _ "set_body b r"] exI [of _ h]) (simp add: selector_part_def json_request_def)
  qed
qed

lemma metrics_forwards:
  assumes "path \<in> set model_post_json_routes"
  shows "forwards (json_request path b (Some d)) (metrics_part env st cd ns loading cn metadata selector wall gone mm)"
  unfolding forwards_def
proof (intro allI impI)
  fix r h assume j: "json_request path b (Some d) r"
  have "list_all (\<lambda>p. \<not> has_prefix p ''/upstream/'') model_post_json_routes" by code_simp
  then have path: "\<not> has_prefix (hr_path r) ''/upstream/''" "is_metrics_record_path (hr_path r)"
    using assms j by (simp_all add: list_all_iff json_request_def is_metrics_record_path_def)
  let ?cf = "capture_fields_for (hr_path r)"
  define r2 where "r2 = snd (if mm_enable mm \<and> ?cf AND capture_req_body \<noteq> 0
      then (case read_body r of Inl e \<Rightarrow> (None, r) | Inr b \<Rightarrow> (Some b, set_body b r)) else (None, r))"
  have r2: "carried r r2" using carried_set_body [of r b] j by (auto simp: r2_def json_request_def)
  define r3 where "r3 = (if header_get (hr_headers r2) ''Accept-Encoding'' = [] then r2
      else r2\<lparr>hr_headers := header_set ''Accept-Encoding''
        (filter_accept_encoding (header_get (hr_headers r2) ''Accept-Encoding'')) (hr_headers r2)\<rparr>)"
  have r3: "carried r r3" using carried_encoding [OF r2] r2 by (simp add: r3_def)
  have "metrics_part env st cd ns loading cn metadata selector wall gone mm nxt r h = nxt r3 h" for nxt
    using j path by (simp add: metrics_part_def metrics_middleware_def fetch_context_def json_request_def meter_request_def Let_def
        case_prod_beta r3_def r2_def)
  with r3 show "\<exists>r' h'. carried r r' \<and> (\<forall>nxt. metrics_part env st cd ns loading cn metadata selector wall gone mm nxt r h = nxt r' h')"
    by blast
qed

text \<open>The two packages that read and edit JSON agree on the model.\<close>

definition linked :: "codec \<Rightarrow> json_editor \<Rightarrow> bool" where
  "linked cd je \<longleftrightarrow>
     (\<forall>b t. je_get je b ''model'' = Some (VStr t) \<longrightarrow> cd_json_string cd b ''model'' = t) \<and>
     (\<forall>b t. cd_json_set_model cd b t = je_set je b ''model'' (VStr t))"

text \<open>A JSON request as it arrives: posted to a model route, readable, within the cap.\<close>

definition json_post :: "server_env \<Rightarrow> string \<Rightarrow> http_request \<Rightarrow> bool" where
  "json_post e b r \<longleftrightarrow>
     hr_method r = ''POST'' \<and> hr_path r \<in> set model_post_json_routes \<and> contains (content_type r) ''application/json'' \<and>
     \<not> contains (content_type r) ''multipart/form-data'' \<and> hr_cap r = None \<and> \<not> hr_broken r \<and> hr_body r = b \<and>
     int (length b) \<le> max_request_body_bytes (se_config e) \<and> hr_length r = int (length b) \<and> hr_context r = None"

section \<open>Routing\<close>

lemma json_post_inference: "json_post e b r \<Longrightarrow> is_tailcat_inference_request r"
  by (simp add: json_post_def is_tailcat_inference_request_def)

lemma json_route_paths:
  "list_all (\<lambda>p. \<not> has_prefix p ''/upstream/'' \<and>
     \<not> has_prefix (trim_prefix ''/audioapi'' (if has_prefix p ''/v/'' then trim_prefix ''/v'' p else p)) ''/upstream/'') model_post_json_routes"
  by code_simp

lemma stripped_path:
  "hr_path (strip_audio_api_prefix (strip_version_prefix r)) =
     trim_prefix ''/audioapi'' (if has_prefix (hr_path r) ''/v/'' then trim_prefix ''/v'' (hr_path r) else hr_path r)"
  by (simp add: strip_audio_api_prefix_def strip_version_prefix_def)

lemma json_post_paths:
  assumes "json_post e b r"
  shows "\<not> has_prefix (hr_path r) ''/upstream/''" and "\<not> has_prefix (hr_path (strip_audio_api_prefix (strip_version_prefix r))) ''/upstream/''"
  using json_route_paths assms by (simp_all add: stripped_path json_post_def list_all_iff)

section \<open>The chain\<close>

lemma auth_passes: "keys = [] \<or> extract_api_key cd r \<in> set keys \<Longrightarrow> auth_middleware cd keys nxt r h = nxt r h"
  by (auto simp: auth_middleware_def list_ex_iff)

lemma json_body_passes:
  assumes "hr_length r \<le> n" and "contains (content_type r) ''application/json''" and "hr_path r \<in> set model_post_json_routes"
  shows "content_type_middleware cd n nxt r h = nxt (cap_body n r) h"
proof -
  have "list_all (\<lambda>p. body_kind_for_path p = BodyJson) model_post_json_routes" by code_simp
  then have "body_kind_for_path (hr_path r) = BodyJson" using assms(3) by (simp add: list_all_iff)
  then have "normalize_content_type cd (body_kind_for_path (hr_path r)) (cap_body n r) = Inr (cap_body n r)"
    using assms(2) by (intro normalize_pass) (simp add: normalize_passes_def)
  then show ?thesis using assms(1) by (simp add: content_type_middleware_def prepare_model_body_def)
qed

text \<open>The stages that look at the request, one by one.\<close>

lemma context_passes:
  assumes "json_request path b None r" and "\<not> has_prefix path ''/upstream/''" and "cd_json_string cd b ''model'' = s" and "s \<noteq> []"
    and "real_model_name ns s = None"
  obtains d r' where "json_request path b (Some d) r'" and "rx_model d = s" and "rx_model_id d = s"
    and "\<And>nxt. request_context_middleware cd ns loading nxt r h = nxt r' h"
proof -
  have r: "hr_method r \<noteq> ''GET''" "contains (content_type r) ''application/json''" "read_body r = Inr b"
      "\<not> has_prefix (hr_path r) ''/upstream/''" "hr_context r = None"
    using assms(1,2) by (simp_all add: json_request_def)
  obtain d where d: "fetch_context cd ns loading r = (Inr d, (set_body b r)\<lparr>hr_context := Some d\<rparr>)" "rx_model d = s" "rx_model_id d = s"
    by (rule json_context [OF r assms(3-5)])
  have "json_request path b (Some d) ((set_body b r)\<lparr>hr_context := Some d\<rparr>)"
    using assms(1) by (simp add: json_request_def content_type_def read_body_def set_body_def)
  with d that show ?thesis by (simp add: request_context_middleware_def)
qed

lemma filter_passes_on:
  assumes "json_request path b (Some d) r" and "resolve_filters c fc (rx_model d) = Some (use_name, f)"
    and "apply_filters je b (rx_model d) use_name f = Inr b'"
  shows "filter_middleware cd c loading je errmsg fc nxt r h = nxt (replace_request_body b' r) h"
    and "json_request path b' (Some d) (replace_request_body b' r)"
  using assms by (simp_all add: filter_middleware_def fetch_context_def json_request_def replaced_body_simps)
    (simp_all add: replace_request_body_def)

lemma model_chain_json:
  assumes "json_post e b r" and "parts_forward p (hr_path r) b s" and "active_pins e = None"
    and "cf_api_keys (se_config e) = [] \<or> extract_api_key (se_codec e) r \<in> set (cf_api_keys (se_config e))"
    and "cd_json_string (se_codec e) b ''model'' = s" and "s \<noteq> []" and "real_model_name (names_of (se_config e)) s = None"
    and "resolve_filters (names_of (se_config e)) (se_filters e) s = Some (use_name, f)"
    and "apply_filters (se_editor e) b s use_name f = Inr b'"
  shows "\<exists>d r' h'. rx_model d = s \<and> rx_model_id d = s \<and> json_request (hr_path r) b' (Some d) r' \<and>
    chain_then (model_route_chain e p) fin r h = fin r' h'"
proof -
  let ?c = "se_config e"
  let ?r0 = "cap_body (max_request_body_bytes ?c) r"
  have up: "\<not> has_prefix (hr_path r) ''/upstream/''" by (rule json_post_paths(1) [OF assms(1)])
  have auth: "auth_middleware (se_codec e) (cf_api_keys ?c) nxt r h = nxt r h" for nxt
    by (rule auth_passes [OF assms(4)])
  have body: "content_type_middleware (se_codec e) (max_request_body_bytes ?c) nxt r h = nxt ?r0 h" for nxt
    by (rule json_body_passes) (use assms(1) in \<open>simp_all add: json_post_def\<close>)
  have j0: "json_request (hr_path r) b None ?r0"
    using assms(1) by (simp add: json_request_def json_post_def cap_body_def read_body_def content_type_def)
  obtain r1 h1 where r1: "json_request (hr_path r) b None r1" "\<And>nxt. (if 0 < cf_global_limit ?c then sv_limit p nxt else nxt) ?r0 h = nxt r1 h1"
  proof (cases "0 < cf_global_limit ?c")
    case True
    have "forwards (json_request (hr_path r) b None) (sv_limit p)" using assms(2) by (simp add: parts_forward_def)
    from forwards_json [OF this j0, of h] obtain r1 h1 where "json_request (hr_path r) b None r1" "\<And>nxt. sv_limit p nxt ?r0 h = nxt r1 h1"
      by metis
    with True that show ?thesis by simp
  next
    case False
    with that [OF j0] show ?thesis by simp
  qed
  have prof: "profile_middleware (se_codec e) (se_replace_error e) (active_pins e) nxt = nxt" for nxt
    by (intro ext) (simp add: profile_middleware_def assms(3))
  have "forwards (json_request (hr_path r) b None) (sv_selector p)" using assms(2) by (simp add: parts_forward_def)
  from forwards_json [OF this r1(1), of h1] obtain r2 h2 where r2: "json_request (hr_path r) b None r2" "\<And>nxt. sv_selector p nxt r1 h1 = nxt r2 h2"
    by metis
  obtain d r3 where d: "rx_model d = s" "rx_model_id d = s" and r3: "json_request (hr_path r) b (Some d) r3"
      "\<And>nxt. request_context_middleware (se_codec e) (names_of ?c) (send_loading_state ?c) nxt r2 h2 = nxt r3 h2"
    by (rule context_passes [OF r2(1) up assms(5-7), of "send_loading_state ?c" h2]) (rule that)
  have "forwards (json_request (hr_path r) b (Some d)) (sv_inflight p)" using assms(2) d(1) by (simp add: parts_forward_def)
  from forwards_json [OF this r3(1), of h2] obtain r4 h4 where r4: "json_request (hr_path r) b (Some d) r4" "\<And>nxt. sv_inflight p nxt r3 h2 = nxt r4 h4"
    by metis
  note flt = filter_passes_on [OF r4(1), unfolded d(1), OF assms(8,9)]
  let ?r5 = "replace_request_body b' r4"
  have fform: "form_filter_middleware (se_codec e) (names_of ?c) (send_loading_state ?c) (se_replace_error e) (se_filters e) nxt ?r5 h4 =
      nxt ?r5 h4" for nxt
    using flt(2) by (simp add: form_filter_middleware_def json_request_def)
  have "forwards (json_request (hr_path r) b' (Some d)) (sv_metrics p)" using assms(2) d(1) by (simp add: parts_forward_def)
  from forwards_json [OF this flt(2), of h4] obtain r6 h6 where r6: "json_request (hr_path r) b' (Some d) r6" "\<And>nxt. sv_metrics p nxt ?r5 h4 = nxt r6 h6"
    by metis
  have limit: "chain_then ((if 0 < cf_global_limit ?c then [sv_limit p] else []) @ ms) fin ?r0 h = chain_then ms fin r1 h1" for ms
    using r1(2) [of "chain_then ms fin"] by (cases "0 < cf_global_limit ?c") simp_all
  have "chain_then (model_route_chain e p) fin r h = fin r6 h6"
    unfolding model_route_chain_def Let_def append.simps chain_then_Cons auth body limit prof r2(2) r3(2) r4(2) flt(1) fform r6(2) chain_then_Nil ..
  with d r6(1) show ?thesis by blast
qed

section \<open>From the socket to the peer\<close>

definition peer_filters :: "server_env \<Rightarrow> string \<Rightarrow> filters" where
  "peer_filters e p = (case map_of (fc_peers (se_filters e)) p of None \<Rightarrow> no_filters | Some f \<Rightarrow> f)"

lemma dispatch_keeps:
  "hr_context r = Some d \<Longrightarrow>
    fetch_context cd ns loading (strip_audio_api_prefix (strip_version_prefix r)) = (Inr d, strip_audio_api_prefix (strip_version_prefix r))"
  by (simp add: fetch_context_def prefixes_keep)

lemma stripped_json:
  assumes "json_request path b ctx r" and "path \<in> set model_post_json_routes"
  shows "hr_method (strip_audio_api_prefix (strip_version_prefix r)) = ''POST''"
    and "contains (content_type (strip_audio_api_prefix (strip_version_prefix r))) ''application/json''"
    and "read_body (strip_audio_api_prefix (strip_version_prefix r)) = Inr b"
    and "\<not> has_prefix (hr_path (strip_audio_api_prefix (strip_version_prefix r))) ''/upstream/''"
    and "hr_context (strip_audio_api_prefix (strip_version_prefix r)) = ctx"
  using assms json_route_paths by (simp_all only: prefixes_keep json_request_def stripped_path list_all_iff) auto


definition linked_codec :: codec where
  "linked_codec = pairs_codec\<lparr>cd_json_set_model := (\<lambda>b t. je_set demo_editor b ''model'' (VStr t))\<rparr>"

lemma linked_codec_laws: "codec_laws linked_codec" "linked linked_codec demo_editor"
proof -
  have "map_of (AList.update k v al) k = Some v" for k :: string and v :: string and al by (simp add: update_conv')
  with demo_codec_laws show "codec_laws linked_codec"
    by (auto simp: codec_laws_def linked_codec_def pairs_codec_def demo_editor_def demo_pairs_put)
  show "linked linked_codec demo_editor" by (auto simp: linked_def linked_codec_def pairs_codec_def demo_editor_def)
qed

definition peer_body :: string where
  "peer_body = put_pairs [(''model'', ''p/m''), (''top_k'', ''5'')]"

text \<open>The request accepts an encoding that the metrics cannot decode, and they take it out; the limit has one slot left.\<close>

definition peer_post :: http_request where
  "peer_post = (demo_request ''application/json'' peer_body)\<lparr>hr_headers :=
     [(''Content-Type'', [''application/json'']), (''Accept-Encoding'', [''br, gzip'']), (''Authorization'', [''Bearer secret''])]\<rparr>"

definition demo_metrics_part :: middleware where
  "demo_metrics_part = metrics_part demo_env demo_store linked_codec (names_of demo_peers) (\<lambda>m. False)
     \<lparr>cn_tailcat = None, cn_host = ''::1''\<rparr> [] [] 5 False (new_metrics_monitor [] 10 1)"

definition demo_peer_parts :: "peer_router \<Rightarrow> server_parts" where
  "demo_peer_parts pr =
     (demo_parts (local_peer_handler linked_codec demo_peers (\<lambda>vs m. []) demo_local pr False (\<lambda>r h. Reply 200 h NoBody)
       (peer_serve linked_codec (names_of demo_peers) (\<lambda>m. False) (\<lambda>e. []) (\<lambda>p (out :: http_request). Answered 200 [] (hr_body out)) pr False)))
     \<lparr>sv_limit := concurrency_middleware 2 1, sv_selector := selector_part linked_codec [(''sel'', ())] (\<lambda>sel m nxt r h. Reply 503 h NoBody),
      sv_metrics := demo_metrics_part\<rparr>"

lemma demo_post_facts:
  "plain_filters (peer_filters (demo_env_of demo_peers linked_codec) ''p'')"
  "values_marshal demo_marshals [] (peer_filters (demo_env_of demo_peers linked_codec) ''p'')"
  "json_post (demo_env_of demo_peers linked_codec) peer_body peer_post"
  "je_get demo_editor peer_body ''model'' = Some (VStr ''p/m'')" "je_get demo_editor peer_body ''top_k'' = Some (VStr ''5'')"
  "je_get demo_editor peer_body ''temperature'' = None"
  "extract_api_key linked_codec peer_post \<in> set (cf_api_keys demo_peers)"
  "active_pins (demo_env_of demo_peers linked_codec) = None"
  "demo_object peer_body" "demo_marshals (VStr ''m'')" "cd_json_string linked_codec peer_body ''model'' = ''p/m''"
  by code_simp+

lemma demo_parts_forward: "parts_forward (demo_peer_parts pr) (hr_path peer_post) peer_body ''p/m''"
proof -
  have path: "hr_path peer_post \<in> set model_post_json_routes"
    by (simp add: peer_post_def demo_request_def model_post_json_routes_def)
  have same: "forwards P id" for P unfolding forwards_def id_apply using carried_refl by blast
  show ?thesis
    unfolding parts_forward_def
    by (simp add: demo_peer_parts_def demo_parts_def demo_metrics_part_def limit_forwards same
        selector_forwards [OF demo_post_facts(11)] metrics_forwards [OF path])
qed


end
