(* ===== verification/TailcatGate.thy ===== *)
theory TailcatGate
  imports Routes
begin

text \<open>
  What a client that comes in over Tailcat reaches of the server: the gate (\<open>ServeTailcatHTTP\<close> in \<open>internal/server/server.go\<close>)
  in front of the routes and the chain of the model routes.
\<close>

definition gated :: "server_env \<Rightarrow> bool \<Rightarrow> tailcat_config option \<Rightarrow> string option \<Rightarrow> server_parts \<Rightarrow> handler" where
  "gated e tc_on tailcat key p =
     serve_tailcat (se_codec e) (max_request_body_bytes (se_config e)) tc_on tailcat key (serve_request e p)"

text \<open>
  Preparing the body and extracting the model of the request the gate hands on finds the model the gate has found.
\<close>

lemma gate_model_again:
  assumes "is_tailcat_inference_request r" and "prepare_model_body cd n r = Inr rp" and "extract_model cd rp = (Inr m, r1)"
  shows "hr_method r1 = hr_method r" and "hr_path r1 = hr_path r"
    and "\<exists>r2 r3. prepare_model_body cd n r1 = Inr r2 \<and> extract_model cd r2 = (Inr m, r3)"
proof -
  obtain d where d: "extract_context cd rp = (Inr d, r1)" "m = rx_model d"
    using assms(3) by (auto simp: extract_model_Inr)
  note k = extract_context_keeps [OF d(1)]
  have len: "hr_length r \<le> n" "normalize_content_type cd (body_kind_for_path (hr_path r)) (cap_body n r) = Inr rp"
    using assms(2) by (auto simp: prepare_model_body_def split: if_splits)
  show "hr_method r1 = hr_method r" "hr_path r1 = hr_path r" using normalize_keeps [OF len(2)] k by simp_all
  show "\<exists>r2 r3. prepare_model_body cd n r1 = Inr r2 \<and> extract_model cd r2 = (Inr m, r3)"
  proof (cases "hr_method r = ''POST''")
    case True
    obtain b r2 where r2: "prepare_model_body cd n r1 = Inr r2" "set_body b r2 = r1" "read_body r2 = Inr b" "hr_method r2 = ''POST''"
      using prepared_again [OF True assms(2) d(1)] by blast
    have "extract_context cd r2 = (Inr d, r1)"
      using extract_by_body [OF _ r2(3), of cd] r2 extract_again [OF d(1)] by simp
    with r2(1) d(2) show ?thesis by (auto simp: extract_model_Inr)
  next
    case False
    then have g: "hr_method r = ''GET''" using inference_paths(1) [OF assms(1)] by blast
    have "normalize_passes kind r'" if "hr_method r' = ''GET''" for kind r' using that by (simp add: normalize_passes_def)
    note pass = normalize_pass [OF this]
    have rp: "rp = cap_body n r" using len(2) pass [of "cap_body n r" cd] g by simp
    have r1: "r1 = rp" using d(1) g rp by (simp add: extract_get Let_def)
    have "prepare_model_body cd n r1 = Inr (cap_body n r1)"
      using len(1) pass [of "cap_body n r1" cd] g unfolding r1 rp by (simp add: prepare_model_body_def)
    moreover have "extract_context cd (cap_body n r1) = (Inr (new_context cd (cap_body n r1) m (rx_streaming d)), cap_body n r1)"
      using d g unfolding r1 rp by (simp add: extract_get Let_def new_context_def) auto
    ultimately show ?thesis by (auto simp: extract_model_Inr new_context_def)
  qed
qed

text \<open>Beyond the keys and the body, the chain finds in the request that has passed the gate the model the gate has checked.\<close>

lemma model_route_chain_head:
  "model_route_chain e p =
     auth_middleware (se_codec e) (cf_api_keys (se_config e)) #
     content_type_middleware (se_codec e) (max_request_body_bytes (se_config e)) # drop 2 (model_route_chain e p)"
  by (simp add: model_route_chain_def Let_def)

lemma chain_after_gate:
  assumes "is_tailcat_inference_request r"
    and "prepare_model_body (se_codec e) (max_request_body_bytes (se_config e)) r = Inr rp"
    and "extract_model (se_codec e) rp = (Inr m, r1)"
  shows "(cf_api_keys (se_config e) \<noteq> [] \<and> extract_api_key (se_codec e) r1 \<notin> set (cf_api_keys (se_config e)) \<and>
      (\<exists>R. (\<forall>p. serve_request e p r1 h = R) \<and> reply_status R = 401)) \<or>
    (\<exists>r2 r3 h2. extract_model (se_codec e) r2 = (Inr m, r3) \<and>
      (\<forall>p. serve_request e p r1 h = chain_then (drop 2 (model_route_chain e p)) (sv_dispatch p) r2 h2))"
proof -
  note again = gate_model_again [OF assms]
  have "is_tailcat_inference_request r1" using assms(1) unfolding is_tailcat_inference_request_def again(1,2) .
  from inference_served [OF this, of e h]
  obtain h' where h': "\<And>p. serve_request e p r1 h = chain_then (model_route_chain e p) (sv_dispatch p) r1 h'" by blast
  show ?thesis
  proof (cases "cf_api_keys (se_config e) = [] \<or> extract_api_key (se_codec e) r1 \<in> set (cf_api_keys (se_config e))")
    case True
    then have auth: "auth_middleware (se_codec e) (cf_api_keys (se_config e)) nxt r1 h' = nxt r1 h'" for nxt
      by (auto simp: auth_middleware_def list_ex_iff)
    obtain r2 r3 where r2: "prepare_model_body (se_codec e) (max_request_body_bytes (se_config e)) r1 = Inr r2"
        "extract_model (se_codec e) r2 = (Inr m, r3)" using again(3) by blast
    have "serve_request e p r1 h = chain_then (drop 2 (model_route_chain e p)) (sv_dispatch p) r2 h'" for p
      unfolding h' by (subst model_route_chain_head) (simp add: auth content_type_middleware_def r2(1))
    with r2(2) show ?thesis by blast
  next
    case False
    then have "\<forall>p. serve_request e p r1 h = send_response r1 (header_set ''Www-Authenticate'' ''Basic realm=\"llama-swap\"'' h') 401
        ''unauthorized: invalid or missing API key''"
      unfolding h' by (subst model_route_chain_head) (simp add: auth_refuses)
    moreover have "reply_status (send_response r1 h'' 401 t) = 401" for h'' t by simp
    ultimately show ?thesis using False by blast
  qed
qed


text \<open>A client that may ask for one model asks for it, with a key; and one that asks for another.\<close>

definition gate_env :: server_env where
  "gate_env = demo_env_of demo_config demo_codec"

definition gate_post :: "string \<Rightarrow> http_request" where
  "gate_post m = (demo_request ''application/json'' m)\<lparr>hr_headers :=
     [(''Content-Type'', [''application/json'']), (''Authorization'', [''Bearer secret''])]\<rparr>"

definition gate_config :: "tailcat_config option" where
  "gate_config = Some \<lparr>tc_allow = [''k''], tc_models = [''{a}''], tc_admin = False\<rparr>"

definition gate_parts :: server_parts where
  "gate_parts = (demo_parts (\<lambda>r h. Reply 200 h NoBody))\<lparr>sv_selector := (\<lambda>nxt r h. Reply 200 h NoBody)\<rparr>"

lemma gate_facts:
  "case tailcat_check_model demo_codec 262144000 [''{a}''] (gate_post ''{a}'') [] of Inr r1 \<Rightarrow> r1 = gate_post ''{a}'' | Inl R \<Rightarrow> False"
  "case prepare_model_body demo_codec 262144000 (gate_post ''{a}'') of Inr r1 \<Rightarrow> True | Inl R \<Rightarrow> False"
  "extract_api_key demo_codec (gate_post ''{a}'') = ''secret''" "max_request_body_bytes demo_config = 262144000"
  "cf_api_keys demo_config = [''secret'']" "cf_global_limit demo_config = 0" "map_of (cf_profiles demo_config) [] = None"
  by code_simp+

lemma gate_inference: "is_tailcat_inference_request (gate_post m)"
  by (simp add: is_tailcat_inference_request_def gate_post_def demo_request_def model_post_json_routes_def)

lemma gate_env_simps: "se_codec gate_env = demo_codec" "se_config gate_env = demo_config" "se_profile gate_env = []"
  by (simp_all add: gate_env_def demo_env_of_def)

lemma gate_lets_in: "gated gate_env True gate_config (Some ''k'') p (gate_post ''{a}'') h = serve_request gate_env p (gate_post ''{a}'') h"
proof -
  have "hr_method (gate_post m) \<noteq> ''OPTIONS''" for m by (simp add: gate_post_def demo_request_def)
  moreover have "tailcat_check_model demo_codec 262144000 [''{a}''] (gate_post ''{a}'') h = Inr (gate_post ''{a}'')"
    using gate_facts(1) by (auto simp: tailcat_check_model_def split: sum.splits prod.splits option.splits if_splits)
  ultimately show ?thesis
    by (simp add: gated_def serve_tailcat_def gate_config_def tailcat_client_allowed_def Let_def gate_env_simps gate_facts(4) gate_inference)
qed

lemma gate_serves: "reply_status (serve_request gate_env gate_parts (gate_post ''{a}'') []) = 200"
proof -
  from inference_served [OF gate_inference [of "''{a}''"], of gate_env "[]"]
  obtain h' where h': "serve_request gate_env gate_parts (gate_post ''{a}'') [] =
      chain_then (model_route_chain gate_env gate_parts) (sv_dispatch gate_parts) (gate_post ''{a}'') h'" by blast
  obtain r2 where r2: "prepare_model_body demo_codec 262144000 (gate_post ''{a}'') = Inr r2"
    using gate_facts(2) by (auto split: sum.splits)
  show ?thesis unfolding h'
    by (simp add: model_route_chain_def Let_def gate_env_simps gate_facts auth_middleware_def content_type_middleware_def r2
        profile_middleware_def active_pins_def gate_parts_def)
qed


end
