(* ===== verification/Watcher.thy ===== *)
theory Watcher
  imports Prelude "HOL-Library.AList"
begin

text \<open>
  The two pollers that notice a changed configuration: of a file (\<open>internal/watcher/watcher.go\<close>) and of the YAML files of a
  directory (\<open>dirwatcher.go\<close>). What \<open>os.Stat\<close> and \<open>os.ReadDir\<close> find at a poll is an argument; a run is the list of
  what its polls find. Both share one contract, the locale \<open>poller\<close>.
\<close>

section \<open>A file\<close>

record snapshot =
  sn_exists :: bool
  sn_time :: int
  sn_size :: int

definition stat :: "(int \<times> int) option \<Rightarrow> snapshot" where
  "stat fi =
     (case fi of
        None \<Rightarrow> \<lparr>sn_exists = False, sn_time = 0, sn_size = 0\<rparr>
      | Some (t, n) \<Rightarrow> \<lparr>sn_exists = True, sn_time = t, sn_size = n\<rparr>)"

definition changed :: "snapshot \<Rightarrow> snapshot \<Rightarrow> bool" where
  "changed prev cur =
     (if \<not> sn_exists cur then False
      else if \<not> sn_exists prev then True
      else sn_time prev \<noteq> sn_time cur \<or> sn_size prev \<noteq> sn_size cur)"

text \<open>The loop: whether \<open>OnChange\<close> is called at each poll.\<close>

fun poll_loop :: "('s \<Rightarrow> 's \<Rightarrow> bool) \<Rightarrow> 's \<Rightarrow> 's list \<Rightarrow> bool list" where
  "poll_loop fires prev [] = []"
| "poll_loop fires prev (cur # later) = fires prev cur # poll_loop fires cur later"

definition watcher_run :: "(int \<times> int) option \<Rightarrow> (int \<times> int) option list \<Rightarrow> bool list" where
  "watcher_run baseline polls = poll_loop changed (stat baseline) (map stat polls)"

section \<open>A directory\<close>

record dir_snapshot =
  ds_exists :: bool
  ds_names :: "string list"
  ds_states :: "(string \<times> snapshot) list"

definition new_dir_snapshot :: dir_snapshot where
  "new_dir_snapshot = \<lparr>ds_exists = False, ds_names = [], ds_states = []\<rparr>"

text \<open>A Go map read: the zero snapshot for a name that is not there.\<close>

definition file_state :: "dir_snapshot \<Rightarrow> string \<Rightarrow> snapshot" where
  "file_state s n = (case map_of (ds_states s) n of None \<Rightarrow> stat None | Some x \<Rightarrow> x)"

definition same_state :: "snapshot \<Rightarrow> snapshot \<Rightarrow> bool" where
  "same_state a b \<longleftrightarrow> \<not> (sn_exists a \<noteq> sn_exists b \<or> sn_size a \<noteq> sn_size b \<or> sn_time a \<noteq> sn_time b)"

definition dir_equal :: "dir_snapshot \<Rightarrow> dir_snapshot \<Rightarrow> bool" where
  "dir_equal s other =
     (if \<not> ds_exists s \<and> \<not> ds_exists other then True
      else if ds_exists s \<noteq> ds_exists other then False
      else if length (ds_names s) \<noteq> length (ds_names other) then False
      else if \<not> list_all2 (=) (ds_names s) (ds_names other) then False
      else list_all (\<lambda>n. same_state (file_state s n) (file_state other n)) (ds_names s))"

definition has_content :: "dir_snapshot \<Rightarrow> bool" where
  "has_content s \<longleftrightarrow> ds_exists s \<and> 0 < length (ds_names s)"

definition dir_fires :: "dir_snapshot \<Rightarrow> dir_snapshot \<Rightarrow> bool" where
  "dir_fires prev cur \<longleftrightarrow> has_content cur \<and> (\<not> has_content prev \<or> \<not> dir_equal prev cur)"

text \<open>An entry of a directory: its name, whether it is a directory, and what \<open>os.Stat\<close> says of it.\<close>

type_synonym dir_entry = "string \<times> bool \<times> (int \<times> int) option"

definition scan_entry :: "dir_snapshot \<Rightarrow> dir_entry \<Rightarrow> dir_snapshot" where
  "scan_entry snap e =
     (case e of (name, is_dir, fi) \<Rightarrow>
        if is_dir then snap
        else if \<not> has_suffix name ''.yml'' \<and> \<not> has_suffix name ''.yaml'' then snap
        else (case fi of
            None \<Rightarrow> snap
          | Some x \<Rightarrow> snap\<lparr>ds_names := ds_names snap @ [name], ds_states := AList.update name (stat (Some x)) (ds_states snap)\<rparr>))"

definition scan_dir :: "dir_entry list option \<Rightarrow> dir_snapshot" where
  "scan_dir entries =
     (case entries of
        None \<Rightarrow> new_dir_snapshot
      | Some es \<Rightarrow>
          (let snap = foldl scan_entry (new_dir_snapshot\<lparr>ds_exists := True\<rparr>) es
           in snap\<lparr>ds_names := sort (ds_names snap)\<rparr>))"

definition dir_watcher_run :: "dir_entry list option \<Rightarrow> dir_entry list option list \<Rightarrow> bool list" where
  "dir_watcher_run baseline polls = poll_loop dir_fires (scan_dir baseline) (map scan_dir polls)"

section \<open>What is in effect\<close>

text \<open>What was seen when the configuration was last read: at the start, and whenever \<open>OnChange\<close> is called.\<close>

fun last_read :: "'a \<Rightarrow> 'a list \<Rightarrow> bool list \<Rightarrow> 'a" where
  "last_read seen (x # xs) (f # fs) = last_read (if f then x else seen) xs fs"
| "last_read seen xs fs = seen"

locale poller =
  fixes fires :: "'s \<Rightarrow> 's \<Rightarrow> bool" and present :: "'s \<Rightarrow> bool" and same :: "'s \<Rightarrow> 's \<Rightarrow> bool"
  assumes quiet: "\<not> present cur \<Longrightarrow> \<not> fires prev cur"
    and appears: "\<not> present prev \<Longrightarrow> present cur \<Longrightarrow> fires prev cur"
    and differs: "present prev \<Longrightarrow> present cur \<Longrightarrow> fires prev cur \<longleftrightarrow> \<not> same prev cur"
    and same_refl: "present s \<Longrightarrow> same s s"
    and same_trans: "same a b \<Longrightarrow> same b c \<Longrightarrow> same a c"
begin

lemma in_effect:
  assumes "present prev \<Longrightarrow> same seen prev" and "present (last (prev # polls))"
  shows "same (last_read seen polls (poll_loop fires prev polls)) (last (prev # polls))"
  using assms
proof (induction polls arbitrary: prev seen)
  case (Cons cur polls)
  let ?seen = "if fires prev cur then cur else seen"
  have "same ?seen cur" if "present cur"
  proof (cases "fires prev cur")
    case False
    with that appears have prev: "present prev" by blast
    with False that differs have "same prev cur" by blast
    with Cons.prems(1) [OF prev] False same_trans show ?thesis by auto
  qed (simp add: same_refl that)
  moreover have "present (last (cur # polls))" using Cons.prems(2) by simp
  ultimately show ?case using Cons.IH [of cur ?seen] by simp
qed simp

text \<open>No call without a change since the last poll that saw something.\<close>

lemma fires_present: "poll_loop fires prev polls ! i \<Longrightarrow> i < length polls \<Longrightarrow> present (polls ! i)"
  using quiet by (induction polls arbitrary: prev i) (auto simp: nth_Cons split: nat.splits)

end

interpretation single: poller changed sn_exists "\<lambda>a b. sn_time a = sn_time b \<and> sn_size a = sn_size b"
  by unfold_locales (auto simp: changed_def)

lemma dir_equal_iff:
  "dir_equal a b \<longleftrightarrow> \<not> ds_exists a \<and> \<not> ds_exists b \<or>
     ds_exists a \<and> ds_exists b \<and> ds_names a = ds_names b \<and> (\<forall>n\<in>set (ds_names a). file_state a n = file_state b n)"
proof -
  have "same_state x y \<longleftrightarrow> x = y" for x y by (cases x; cases y) (auto simp: same_state_def)
  then show ?thesis by (auto simp: dir_equal_def list.rel_eq list_all_iff)
qed

interpretation listing: poller dir_fires has_content dir_equal
  by unfold_locales (auto simp: dir_fires_def dir_equal_iff has_content_def)

section \<open>Directories in effect\<close>

text \<open>The YAML files of a directory with their times and sizes.\<close>

definition yaml_name :: "string \<Rightarrow> bool" where
  "yaml_name n \<longleftrightarrow> has_suffix n ''.yml'' \<or> has_suffix n ''.yaml''"

definition yaml_files :: "dir_entry list option \<Rightarrow> string \<Rightarrow> (int \<times> int) option" where
  "yaml_files entries n =
     (case entries of None \<Rightarrow> None
      | Some es \<Rightarrow> if yaml_name n then (case map_of es n of Some (False, fi) \<Rightarrow> fi | _ \<Rightarrow> None) else None)"

definition listed :: "dir_entry list option \<Rightarrow> bool" where
  "listed entries \<longleftrightarrow> (case entries of None \<Rightarrow> True | Some es \<Rightarrow> distinct (map fst es))"

lemma scanned:
  assumes "distinct (map fst es)" and "set (ds_names snap) = fst ` set (ds_states snap)"
    and "fst ` set (ds_states snap) \<inter> fst ` set es = {}"
  shows "set (ds_names (foldl scan_entry snap es)) = fst ` set (ds_states (foldl scan_entry snap es)) \<and>
    ds_exists (foldl scan_entry snap es) = ds_exists snap \<and>
    map_of (ds_states (foldl scan_entry snap es)) n =
      (case yaml_files (Some es) n of None \<Rightarrow> map_of (ds_states snap) n | Some x \<Rightarrow> Some (stat (Some x)))"
  using assms
proof (induction es arbitrary: snap)
  case Nil
  then show ?case by (simp add: yaml_files_def)
next
  case (Cons e es)
  obtain name d fi where e: "e = (name, d, fi)" by (cases e)
  let ?snap = "scan_entry snap e"
  have keys: "fst ` set (AList.update k v al) = insert k (fst ` set al)" for k :: string and v :: snapshot and al
    unfolding dom_map_of_conv_image_fst [symmetric] by (simp add: update_conv')
  have step: "set (ds_names ?snap) = fst ` set (ds_states ?snap)" "fst ` set (ds_states ?snap) \<inter> fst ` set es = {}"
      "ds_exists ?snap = ds_exists snap"
    using Cons.prems by (auto simp: scan_entry_def e keys split: option.splits)
  have found: "map_of (ds_states ?snap) n =
      (if n = name \<and> \<not> d \<and> yaml_name name \<and> fi \<noteq> None then Some (stat fi) else map_of (ds_states snap) n)"
    by (auto simp: scan_entry_def e yaml_name_def update_conv' split: option.splits)
  have none: "map_of es name = None" "n = name \<Longrightarrow> map_of (ds_states snap) n = None"
    using Cons.prems by (auto simp: e map_of_eq_None_iff)
  have "yaml_files (Some (e # es)) n =
      (if n = name then (if yaml_name name \<and> \<not> d then fi else None) else yaml_files (Some es) n)"
    by (cases d) (auto simp: yaml_files_def e)
  moreover have "n = name \<Longrightarrow> yaml_files (Some es) n = None" using none by (simp add: yaml_files_def)
  ultimately show ?case using Cons.IH [OF _ step(1,2)] Cons.prems(1) step(3) found none(2)
    by (auto split: option.splits)
qed

lemma scan_dir_states:
  assumes "listed entries"
  shows "map_of (ds_states (scan_dir entries)) n = map_option (\<lambda>x. stat (Some x)) (yaml_files entries n)"
    and "set (ds_names (scan_dir entries)) = dom (yaml_files entries)"
    and "ds_exists (scan_dir entries) \<longleftrightarrow> entries \<noteq> None"
proof -
  have states: "map_of (ds_states (scan_dir entries)) n = map_option (\<lambda>x. stat (Some x)) (yaml_files entries n) \<and>
      set (ds_names (scan_dir entries)) = fst ` set (ds_states (scan_dir entries)) \<and> (ds_exists (scan_dir entries) \<longleftrightarrow> entries \<noteq> None)" for n
  proof (cases entries)
    case None
    then show ?thesis by (simp add: scan_dir_def new_dir_snapshot_def yaml_files_def)
  next
    case (Some es)
    then have "distinct (map fst es)" using assms by (simp add: listed_def)
    from scanned [OF this, of "new_dir_snapshot\<lparr>ds_exists := True\<rparr>" n] Some show ?thesis
      by (cases "yaml_files (Some es) n") (simp_all add: scan_dir_def new_dir_snapshot_def Let_def)
  qed
  show "map_of (ds_states (scan_dir entries)) n = map_option (\<lambda>x. stat (Some x)) (yaml_files entries n)"
    and "ds_exists (scan_dir entries) \<longleftrightarrow> entries \<noteq> None" using states [of n] by simp_all
  have "fst ` set (ds_states (scan_dir entries)) = dom (map_of (ds_states (scan_dir entries)))" by (simp add: dom_map_of_conv_image_fst)
  also have "\<dots> = dom (yaml_files entries)" unfolding dom_def using states by simp
  finally show "set (ds_names (scan_dir entries)) = dom (yaml_files entries)" using states [of n] by simp
qed

lemma same_files:
  assumes "listed a" and "listed b" and "dir_equal (scan_dir a) (scan_dir b)" and "b \<noteq> None"
  shows "yaml_files a = yaml_files b"
proof
  fix n
  have eq: "ds_names (scan_dir a) = ds_names (scan_dir b)"
      "\<forall>n\<in>set (ds_names (scan_dir a)). file_state (scan_dir a) n = file_state (scan_dir b) n"
    using assms scan_dir_states(3) [OF assms(2)] by (auto simp: dir_equal_iff)
  have dom: "dom (yaml_files a) = dom (yaml_files b)"
    using eq(1) scan_dir_states(2) [OF assms(1)] scan_dir_states(2) [OF assms(2)] by simp
  have inj: "stat (Some x) = stat (Some y) \<Longrightarrow> x = y" for x y by (cases x; cases y) (simp add: stat_def)
  show "yaml_files a n = yaml_files b n"
  proof (cases "n \<in> dom (yaml_files a)")
    case True
    then obtain x y where xy: "yaml_files a n = Some x" "yaml_files b n = Some y" using dom by blast
    have "file_state (scan_dir a) n = file_state (scan_dir b) n" using eq(2) True scan_dir_states(2) [OF assms(1)] by simp
    with xy inj show ?thesis
      by (simp add: file_state_def scan_dir_states(1) [OF assms(1)] scan_dir_states(1) [OF assms(2)])
  next
    case False
    then have "n \<notin> dom (yaml_files b)" using dom by simp
    with False show ?thesis unfolding domIff by metis
  qed
qed

lemma last_read_map: "last_read (f x) (map f xs) fs = f (last_read x xs fs)"
  by (induction x xs fs rule: last_read.induct) auto

lemma last_read_in: "last_read x xs fs \<in> set (x # xs)"
  by (induction x xs fs rule: last_read.induct) auto

text \<open>
  C40. The configuration in effect is never stale: whenever the last poll saw YAML files, the directory that was last read, at the start or when \<open>OnChange\<close> was called,
  has the same YAML files with the same times and sizes, whatever was added, changed, removed or unreadable in
  between and in whatever order the directory lists its entries.
\<close>

theorem directory_in_effect:
  assumes "\<forall>d\<in>set (baseline # polls). listed d" and "last (baseline # polls) = Some es" and "yaml_files (Some es) n \<noteq> None"
  shows "yaml_files (last_read baseline polls (dir_watcher_run baseline polls)) = yaml_files (Some es)"
proof -
  let ?read = "last_read baseline polls (dir_watcher_run baseline polls)" and ?last = "last (baseline # polls)"
  have in1: "?last \<in> set (baseline # polls)" by (rule last_in_set) simp
  have l: "listed ?last" "listed ?read" using assms(1) in1 last_read_in [of baseline polls] by blast+
  have scan_last: "last (scan_dir baseline # map scan_dir polls) = scan_dir ?last"
    using last_map [of "baseline # polls" scan_dir] by simp
  have "n \<in> dom (yaml_files ?last)" using assms(2,3) by auto
  then have "n \<in> set (ds_names (scan_dir ?last))" using scan_dir_states(2) [OF l(1)] by simp
  then have "has_content (scan_dir ?last)"
    using scan_dir_states(3) [OF l(1)] assms(2) by (auto simp: has_content_def)
  then have "dir_equal (last_read (scan_dir baseline) (map scan_dir polls) (poll_loop dir_fires (scan_dir baseline) (map scan_dir polls))) (scan_dir ?last)"
    using listing.in_effect [of "scan_dir baseline" "scan_dir baseline" "map scan_dir polls"] listing.same_refl scan_last by simp
  then have "dir_equal (scan_dir ?read) (scan_dir ?last)" unfolding last_read_map by (simp add: dir_watcher_run_def)
  from same_files [OF l(2,1) this] assms(2) show ?thesis by simp
qed

text \<open>The file vanishes, comes back changed, and is listed in another order.\<close>

theorem directory_in_effect_witness:
  "dir_watcher_run (Some [(''a.yml'', False, Some (1, 5))])
     [Some [], Some [(''b.yaml'', False, Some (2, 3)), (''a.yml'', False, Some (1, 5)), (''x.txt'', False, Some (1, 1))],
      Some [(''a.yml'', False, Some (1, 5)), (''b.yaml'', False, Some (2, 3))]] = [False, True, False] \<and>
   yaml_files (last_read (Some [(''a.yml'', False, Some (1, 5))])
     [Some [], Some [(''b.yaml'', False, Some (2, 3)), (''a.yml'', False, Some (1, 5)), (''x.txt'', False, Some (1, 1))],
      Some [(''a.yml'', False, Some (1, 5)), (''b.yaml'', False, Some (2, 3))]]
     (dir_watcher_run (Some [(''a.yml'', False, Some (1, 5))])
     [Some [], Some [(''b.yaml'', False, Some (2, 3)), (''a.yml'', False, Some (1, 5)), (''x.txt'', False, Some (1, 1))],
      Some [(''a.yml'', False, Some (1, 5)), (''b.yaml'', False, Some (2, 3))]])) =
   yaml_files (Some [(''a.yml'', False, Some (1, 5)), (''b.yaml'', False, Some (2, 3))])"
proof
  let ?base = "Some [(''a.yml'', False, Some (1, 5))] :: dir_entry list option"
  let ?polls = "[Some [], Some [(''b.yaml'', False, Some (2, 3)), (''a.yml'', False, Some (1, 5)), (''x.txt'', False, Some (1, 1))],
      Some [(''a.yml'', False, Some (1, 5)), (''b.yaml'', False, Some (2, 3))]] :: dir_entry list option list"
  show "dir_watcher_run ?base ?polls = [False, True, False]" by code_simp
  have "yaml_files (Some [(''a.yml'', False, Some (1, 5)), (''b.yaml'', False, Some (2, 3))]) ''a.yml'' \<noteq> None" by code_simp
  from directory_in_effect [OF _ _ this, of ?base ?polls]
  show "yaml_files (last_read ?base ?polls (dir_watcher_run ?base ?polls)) =
      yaml_files (Some [(''a.yml'', False, Some (1, 5)), (''b.yaml'', False, Some (2, 3))])"
    by (simp add: listed_def)
qed

end
