(* ===== verification/Launch.thy ===== *)
theory Launch
  imports ProcStatus
begin

text \<open>
  Starting and killing an upstream command: \<open>doStart\<close>, \<open>sendStopSignal\<close> and \<open>killProcess\<close> of
  \<open>internal/process/process_command.go\<close>. What the operating system, the clock and the health endpoint
  answer is an argument (the records \<open>launch\<close> and \<open>poll\<close>); what the functions do to the command is the
  list of effects they return.
\<close>

datatype proc_error =
    StartAborted
  | ProcShutdown
  | ExitedUnexpectedly
  | ProcStopped
  | CouldNotStart proc_state
  | ProxyMissing
  | BadCommand string
  | BadProxy string
  | SpawnFailed string
  | ExitedPrematurely
  | HealthTimeout
  | NoProgress

datatype cmd_effect =
    Spawned nat
  | SignalSent nat
  | TreeKilled nat
  | Reaped nat
  | Released nat
  | HealthPassed nat
  | Reported loading

section \<open>Stopping a command\<close>

text \<open>
  \<open>sendStopSignal\<close>: run the configured stop command when it can be split into arguments, otherwise
  terminate the process tree. \<open>subst_pid\<close> stands for the replacement of \<open>${PID}\<close> and \<open>sanitize\<close> for
  \<open>config.SanitizeCommand\<close>, whose shell lexer is a third-party package.
\<close>

datatype stop_signal = NothingToStop | RunStopCommand "string list" | TerminateTree

definition send_stop_signal ::
  "(string \<Rightarrow> nat \<Rightarrow> string) \<Rightarrow> (string \<Rightarrow> string + string list) \<Rightarrow> string \<Rightarrow> nat option \<Rightarrow> stop_signal" where
  "send_stop_signal subst_pid sanitize cmd_stop pid =
     (case pid of None \<Rightarrow> NothingToStop
      | Some n \<Rightarrow>
          if cmd_stop \<noteq> [] then
            (case sanitize (subst_pid cmd_stop n) of
               Inr args \<Rightarrow> RunStopCommand args
             | Inl e \<Rightarrow> TerminateTree)
          else TerminateTree)"

text \<open>
  \<open>killProcess\<close>: the stop signal, the signal that kills the process tree when the graceful timeout
  passes first, and the wait for the command's exit, after which its context is released. The run loop
  takes the three parts as steps of their own; \<open>doStart\<close> takes them in one piece, where \<open>graceful\<close>
  tells whether the command exits within the timeout.
\<close>

definition kill_begin :: "nat option \<Rightarrow> cmd_effect list" where
  "kill_begin cmd = (case cmd of None \<Rightarrow> [] | Some k \<Rightarrow> [SignalSent k])"

definition kill_escalate :: "nat option \<Rightarrow> cmd_effect list" where
  "kill_escalate cmd = (case cmd of None \<Rightarrow> [] | Some k \<Rightarrow> [TreeKilled k])"

definition kill_end :: "nat \<Rightarrow> cmd_effect list" where
  "kill_end c = [Reaped c, Released c]"

definition kill_process :: "nat option \<Rightarrow> nat option \<Rightarrow> bool \<Rightarrow> cmd_effect list" where
  "kill_process cmd cancel graceful =
     (case cancel of None \<Rightarrow> []
      | Some c \<Rightarrow> kill_begin cmd @ (if graceful then [] else kill_escalate cmd) @ kill_end c)"

lemmas kill_defs = kill_process_def kill_begin_def kill_escalate_def kill_end_def

section \<open>Starting a command\<close>

datatype start_result = StartOk nat | StartFailed proc_error

record launch_config =
  lc_proxy :: string
  lc_args :: "string + string list"
  lc_proxy_error :: "string option"
  lc_check_endpoint :: string

text \<open>
  One round of the health check loop: what the two selects find, the clock, the status of the answer,
  whether the start was cancelled meanwhile, the body, and the clock when the deadline is renewed.
\<close>

datatype interrupt = Uninterrupted | Cancelled | Exited

record poll =
  po_top :: interrupt
  po_now :: int
  po_status :: int
  po_cancelled :: bool
  po_body :: string
  po_reset_now :: int
  po_wait :: interrupt

record launch =
  la_cmd :: nat
  la_spawn_error :: "string option"
  la_cancelled_spawn :: bool
  la_cancelled_boot :: bool
  la_boot_now :: int
  la_polls :: "poll list"
  la_graceful :: bool

definition abort :: "launch \<Rightarrow> proc_error \<Rightarrow> start_result \<times> cmd_effect list" where
  "abort la e = (StartFailed e, kill_process (Some (la_cmd la)) (Some (la_cmd la)) (la_graceful la))"

definition premature_exit :: "launch \<Rightarrow> start_result \<times> cmd_effect list" where
  "premature_exit la = (StartFailed ExitedPrematurely, [Released (la_cmd la)])"

text \<open>
  The variables of the loop: deadline, last progress value and last report. A changed progress value
  renews the deadline; a changed report is announced.
\<close>

record watch =
  wa_deadline :: int
  wa_progress :: "rat option"
  wa_report :: "loading option"

definition on_report :: "(string \<Rightarrow> raw_progress option) \<Rightarrow> int \<Rightarrow> poll \<Rightarrow> watch \<Rightarrow> watch \<times> cmd_effect list" where
  "on_report decode timeout p w =
     (case parse_loading_progress decode (po_body p) of
        None \<Rightarrow> (w, [])
      | Some lp \<Rightarrow>
          (let w1 = (if ld_progress lp \<noteq> None \<and> (wa_progress w = None \<or> the (ld_progress lp) \<noteq> the (wa_progress w))
                     then w\<lparr>wa_progress := ld_progress lp, wa_deadline := po_reset_now p + timeout\<rparr> else w)
           in if \<not> loading_equal (Some lp) (wa_report w1)
              then (w1\<lparr>wa_report := Some lp\<rparr>, [Reported lp]) else (w1, [])))"

fun health_loop ::
  "(string \<Rightarrow> raw_progress option) \<Rightarrow> int \<Rightarrow> launch \<Rightarrow> poll list \<Rightarrow> watch \<Rightarrow> (start_result \<times> cmd_effect list) option" where
  "health_loop decode timeout la [] w = None"
| "health_loop decode timeout la (p # ps) w =
     (case po_top p of
        Cancelled \<Rightarrow> Some (abort la StartAborted)
      | Exited \<Rightarrow> Some (premature_exit la)
      | Uninterrupted \<Rightarrow>
          if wa_deadline w < po_now p then
            Some (abort la (if wa_progress w \<noteq> None then NoProgress else HealthTimeout))
          else if po_status p = 200 then Some (StartOk (la_cmd la), [HealthPassed (la_cmd la)])
          else if po_cancelled p then Some (abort la StartAborted)
          else
            (let (w', reported) = on_report decode timeout p w in
             map_option (\<lambda>(r, es). (r, reported @ es))
               (case po_wait p of
                  Cancelled \<Rightarrow> Some (abort la StartAborted)
                | Exited \<Rightarrow> Some (premature_exit la)
                | Uninterrupted \<Rightarrow> health_loop decode timeout la ps w')))"

text \<open>\<open>doStart\<close> once the command runs.\<close>

definition after_spawn ::
  "(string \<Rightarrow> raw_progress option) \<Rightarrow> launch_config \<Rightarrow> int \<Rightarrow> launch \<Rightarrow> (start_result \<times> cmd_effect list) option" where
  "after_spawn decode cfg timeout la =
     (if la_cancelled_spawn la then Some (abort la StartAborted)
      else if trim_space (lc_check_endpoint cfg) = ''none'' then Some (StartOk (la_cmd la), [])
      else if la_cancelled_boot la then Some (abort la StartAborted)
      else health_loop decode timeout la (la_polls la)
             \<lparr>wa_deadline = la_boot_now la + timeout, wa_progress = None, wa_report = None\<rparr>)"

definition do_start ::
  "(string \<Rightarrow> raw_progress option) \<Rightarrow> launch_config \<Rightarrow> int \<Rightarrow> launch \<Rightarrow> (start_result \<times> cmd_effect list) option" where
  "do_start decode cfg timeout la =
     (if lc_proxy cfg = [] then Some (StartFailed ProxyMissing, [])
      else case lc_args cfg of Inl e \<Rightarrow> Some (StartFailed (BadCommand e), [])
      | Inr args \<Rightarrow>
         (case lc_proxy_error cfg of Some e \<Rightarrow> Some (StartFailed (BadProxy e), [])
          | None \<Rightarrow>
           (case la_spawn_error la of Some e \<Rightarrow> Some (StartFailed (SpawnFailed e), [])
            | None \<Rightarrow> map_option (\<lambda>(r, es). (r, Spawned (la_cmd la) # es)) (after_spawn decode cfg timeout la))))"

section \<open>What the polls report\<close>

definition progress_of :: "(string \<Rightarrow> raw_progress option) \<Rightarrow> poll \<Rightarrow> rat option" where
  "progress_of decode p = (case parse_loading_progress decode (po_body p) of None \<Rightarrow> None | Some lp \<Rightarrow> ld_progress lp)"

fun last_progress :: "(string \<Rightarrow> raw_progress option) \<Rightarrow> rat option \<Rightarrow> poll list \<Rightarrow> rat option" where
  "last_progress decode v [] = v"
| "last_progress decode v (p # ps) =
     last_progress decode (if progress_of decode p = None then v else progress_of decode p) ps"

text \<open>Poll \<open>j\<close> reports a progress value that differs from the one reported before it.\<close>

definition moved :: "(string \<Rightarrow> raw_progress option) \<Rightarrow> rat option \<Rightarrow> poll list \<Rightarrow> nat \<Rightarrow> bool" where
  "moved decode v ps j \<longleftrightarrow> progress_of decode (ps ! j) \<noteq> None \<and>
     progress_of decode (ps ! j) \<noteq> last_progress decode v (take j ps)"

lemma on_report_watch:
  "wa_progress (fst (on_report decode timeout p w)) =
     (if progress_of decode p = None then wa_progress w else progress_of decode p)"
  "wa_deadline (fst (on_report decode timeout p w)) =
     (if progress_of decode p \<noteq> None \<and> progress_of decode p \<noteq> wa_progress w
      then po_reset_now p + timeout else wa_deadline w)"
  by (cases "parse_loading_progress decode (po_body p)"; cases "wa_progress w";
      simp add: on_report_def progress_of_def Let_def del: loading_equal_iff; force)+

lemma on_report_reports: "\<exists>lps. snd (on_report decode timeout p w) = map Reported lps"
proof (cases "parse_loading_progress decode (po_body p)")
  case None
  then show ?thesis by (simp add: on_report_def)
next
  case (Some lp)
  then have "snd (on_report decode timeout p w) = [] \<or> snd (on_report decode timeout p w) = map Reported [lp]"
    by (simp add: on_report_def Let_def)
  then show ?thesis by (metis list.simps(8))
qed

lemma moved_Suc [simp]:
  "moved decode v (p # ps) (Suc j) =
    moved decode (if progress_of decode p = None then v else progress_of decode p) ps j"
  "moved decode v (p # ps) 0 \<longleftrightarrow> progress_of decode p \<noteq> None \<and> progress_of decode p \<noteq> v"
  by (simp_all add: moved_def)

text \<open>When the loop gives up for lack of time, and with which error.\<close>


lemma health_loop_outcome:
  assumes "health_loop decode timeout la ps w = Some (StartFailed e, es)" and "e = HealthTimeout \<or> e = NoProgress"
  shows "\<exists>k < length ps.
    (\<forall>i < k. po_top (ps ! i) = Uninterrupted \<and> po_status (ps ! i) \<noteq> 200 \<and> po_wait (ps ! i) = Uninterrupted) \<and>
    (\<forall>j < k. moved decode (wa_progress w) ps j \<and> (\<forall>i < k. j < i \<longrightarrow> \<not> moved decode (wa_progress w) ps i) \<longrightarrow>
       po_reset_now (ps ! j) + timeout < po_now (ps ! k)) \<and>
    ((\<forall>j < k. \<not> moved decode (wa_progress w) ps j) \<longrightarrow> wa_deadline w < po_now (ps ! k)) \<and>
    (e = NoProgress \<longleftrightarrow> last_progress decode (wa_progress w) (take k ps) \<noteq> None)"
  using assms
proof (induction decode timeout la ps w arbitrary: es rule: health_loop.induct)
  case (2 decode timeout la p ps w)
  show ?case
  proof (cases "po_top p = Uninterrupted \<and> \<not> wa_deadline w < po_now p")
    case False
    then have "po_top p = Uninterrupted \<and> wa_deadline w < po_now p \<and> (e = NoProgress \<longleftrightarrow> wa_progress w \<noteq> None)"
      using "2.prems" by (auto simp: abort_def premature_exit_def split: interrupt.splits if_splits)
    then show ?thesis by (intro exI [of _ 0]) simp
  next
    case True
    obtain w' rep where rep: "on_report decode timeout p w = (w', rep)" by (cases "on_report decode timeout p w")
    have step: "po_status p \<noteq> 200" "\<not> po_cancelled p" "po_wait p = Uninterrupted"
      "\<exists>es'. health_loop decode timeout la ps w' = Some (StartFailed e, es')"
      using "2.prems" True rep
      by (auto simp: abort_def premature_exit_def split: interrupt.splits if_splits)
    then obtain es' where es': "health_loop decode timeout la ps w' = Some (StartFailed e, es')" by blast
    obtain k where k: "k < length ps"
      "\<forall>i < k. po_top (ps ! i) = Uninterrupted \<and> po_status (ps ! i) \<noteq> 200 \<and> po_wait (ps ! i) = Uninterrupted"
      "\<forall>j < k. moved decode (wa_progress w') ps j \<and> (\<forall>i < k. j < i \<longrightarrow> \<not> moved decode (wa_progress w') ps i) \<longrightarrow>
         po_reset_now (ps ! j) + timeout < po_now (ps ! k)"
      "(\<forall>j < k. \<not> moved decode (wa_progress w') ps j) \<longrightarrow> wa_deadline w' < po_now (ps ! k)"
      "e = NoProgress \<longleftrightarrow> last_progress decode (wa_progress w') (take k ps) \<noteq> None"
      using "2.IH" [OF _ _ _ _ rep [symmetric] refl _ es' "2.prems"(2)] True step by auto
    have w': "wa_progress w' = (if progress_of decode p = None then wa_progress w else progress_of decode p)"
      "wa_deadline w' = (if progress_of decode p \<noteq> None \<and> progress_of decode p \<noteq> wa_progress w
        then po_reset_now p + timeout else wa_deadline w)"
      using on_report_watch [of decode timeout p w] by (simp_all add: rep)
    have mS: "moved decode (wa_progress w) (p # ps) (Suc i) = moved decode (wa_progress w') ps i" for i
      by (simp only: moved_Suc(1) w'(1))
    have m0: "moved decode (wa_progress w) (p # ps) 0 \<longleftrightarrow> progress_of decode p \<noteq> None \<and> progress_of decode p \<noteq> wa_progress w"
      by (rule moved_Suc(2))
    show ?thesis
    proof (intro exI [of _ "Suc k"] conjI)
      show "Suc k < length (p # ps)" using k(1) by simp
      show "\<forall>i < Suc k. po_top ((p # ps) ! i) = Uninterrupted \<and> po_status ((p # ps) ! i) \<noteq> 200 \<and>
          po_wait ((p # ps) ! i) = Uninterrupted"
        using k(2) True step by (auto simp: less_Suc_eq_0_disj)
      show "\<forall>j < Suc k. moved decode (wa_progress w) (p # ps) j \<and>
          (\<forall>i < Suc k. j < i \<longrightarrow> \<not> moved decode (wa_progress w) (p # ps) i) \<longrightarrow>
          po_reset_now ((p # ps) ! j) + timeout < po_now ((p # ps) ! Suc k)"
      proof (intro allI impI)
        fix j
        assume j: "j < Suc k" and m: "moved decode (wa_progress w) (p # ps) j \<and>
          (\<forall>i < Suc k. j < i \<longrightarrow> \<not> moved decode (wa_progress w) (p # ps) i)"
        show "po_reset_now ((p # ps) ! j) + timeout < po_now ((p # ps) ! Suc k)"
        proof (cases j)
          case 0
          have "\<not> moved decode (wa_progress w') ps i" if "i < k" for i
            using m that 0 mS [of i] by (metis Suc_less_eq zero_less_Suc)
          then have "wa_deadline w' < po_now (ps ! k)" using k(4) by blast
          moreover have "wa_deadline w' = po_reset_now p + timeout" using m 0 m0 w'(2) by simp
          ultimately show ?thesis using 0 by simp
        next
          case (Suc j')
          have "\<not> moved decode (wa_progress w') ps i" if "i < k" "j' < i" for i
            using m that Suc mS [of i] by (metis Suc_less_eq)
          moreover have "moved decode (wa_progress w') ps j'" using m Suc mS [of j'] by simp
          ultimately have "po_reset_now (ps ! j') + timeout < po_now (ps ! k)" using k(3) j Suc by blast
          with Suc show ?thesis by simp
        qed
      qed
      show "(\<forall>j < Suc k. \<not> moved decode (wa_progress w) (p # ps) j) \<longrightarrow> wa_deadline w < po_now ((p # ps) ! Suc k)"
      proof
        assume still: "\<forall>j < Suc k. \<not> moved decode (wa_progress w) (p # ps) j"
        then have "\<forall>j < k. \<not> moved decode (wa_progress w') ps j" using mS by (metis Suc_less_eq)
        then have "wa_deadline w' < po_now (ps ! k)" using k(4) by blast
        moreover have "wa_deadline w' = wa_deadline w" using still m0 w'(2) by (metis zero_less_Suc)
        ultimately show "wa_deadline w < po_now ((p # ps) ! Suc k)" by simp
      qed
      show "e = NoProgress \<longleftrightarrow> last_progress decode (wa_progress w) (take (Suc k) (p # ps)) \<noteq> None"
        using k(5) w'(1) by simp
    qed
  qed
qed simp

lemma kill_some [simp]: "Reaped c \<in> set (kill_process (Some c) (Some c) g)" "Released c \<in> set (kill_process (Some c) (Some c) g)"
  by (simp_all add: kill_defs)

text \<open>How a loop that ends leaves the command.\<close>

definition left_ok :: "nat \<Rightarrow> start_result \<times> cmd_effect list \<Rightarrow> bool" where
  "left_ok c r = ((\<forall>x. Spawned x \<notin> set (snd r)) \<and> (case fst r of
       StartOk c' \<Rightarrow> c' = c \<and> HealthPassed c \<in> set (snd r) \<and> (\<forall>x. Released x \<notin> set (snd r) \<and> Reaped x \<notin> set (snd r))
     | StartFailed e \<Rightarrow> Released c \<in> set (snd r) \<and> (e = ExitedPrematurely \<or> Reaped c \<in> set (snd r))))"

lemma left_ok_abort: "left_ok (la_cmd la) (abort la e)" and left_ok_exit: "left_ok (la_cmd la) (premature_exit la)"
  by (simp_all add: left_ok_def abort_def premature_exit_def kill_defs)

lemma left_ok_append:
  "left_ok c (r, es) \<Longrightarrow> left_ok c (r, map Reported lps @ es)"
  by (auto simp: left_ok_def split: start_result.splits)

lemma health_loop_left: "health_loop decode timeout la ps w = Some r \<Longrightarrow> left_ok (la_cmd la) r"
proof (induction decode timeout la ps w arbitrary: r rule: health_loop.induct)
  case (2 decode timeout la p ps w)
  obtain w' rep where rep: "on_report decode timeout p w = (w', rep)" by (cases "on_report decode timeout p w")
  obtain lps where lps: "rep = map Reported lps" using on_report_reports [of decode timeout p w] rep by auto
  have ok: "left_ok (la_cmd la) (StartOk (la_cmd la), [HealthPassed (la_cmd la)])" by (simp add: left_ok_def)
  have app: "left_ok (la_cmd la) q \<Longrightarrow> left_ok (la_cmd la) (case q of (r, es) \<Rightarrow> (r, rep @ es))" for q
    using left_ok_append [of "la_cmd la" _ _ lps] by (cases q) (simp add: lps)
  show ?case
  proof (cases "po_top p = Uninterrupted \<and> \<not> wa_deadline w < po_now p \<and> po_status p \<noteq> 200 \<and> \<not> po_cancelled p")
    case False
    with "2.prems" ok left_ok_abort left_ok_exit show ?thesis by (auto split: interrupt.splits if_splits)
  next
    case True
    let ?rest = "case po_wait p of Cancelled \<Rightarrow> Some (abort la StartAborted)
      | Exited \<Rightarrow> Some (premature_exit la) | Uninterrupted \<Rightarrow> health_loop decode timeout la ps w'"
    obtain q where q: "?rest = Some q" "r = (case q of (r, es) \<Rightarrow> (r, rep @ es))"
      using "2.prems" True rep by auto
    have "left_ok (la_cmd la) q"
      using q(1) "2.IH" [OF _ _ _ _ rep [symmetric] refl] True left_ok_abort [of la] left_ok_exit [of la]
      by (auto split: interrupt.splits)
    with q(2) app show ?thesis by simp
  qed
qed simp


text \<open>A deadline that no progress renews is enforced.\<close>

lemma health_loop_ends:
  assumes "k < length ps" "wa_deadline w < po_now (ps ! k)" "\<forall>j < k. \<not> moved decode (wa_progress w) ps j"
  shows "health_loop decode timeout la ps w \<noteq> None"
  using assms
proof (induction decode timeout la ps w arbitrary: k rule: health_loop.induct)
  case (2 decode timeout la p ps w)
  obtain w' rep where rep: "on_report decode timeout p w = (w', rep)" by (cases "on_report decode timeout p w")
  show ?case
  proof (cases k)
    case 0
    with "2.prems" show ?thesis by (auto split: interrupt.splits)
  next
    case (Suc k')
    have m0: "\<not> (progress_of decode p \<noteq> None \<and> progress_of decode p \<noteq> wa_progress w)"
      using "2.prems"(3) Suc moved_Suc(2) [of decode "wa_progress w" p ps] by (metis zero_less_Suc)
    then have w': "wa_progress w' = wa_progress w" "wa_deadline w' = wa_deadline w"
      using on_report_watch [of decode timeout p w] by (auto simp: rep split: if_splits)
    have "moved decode (wa_progress w) (p # ps) (Suc j) = moved decode (wa_progress w') ps j" for j
      using moved_Suc(1) [of decode "wa_progress w" p ps j] m0 w'(1) by (auto split: if_splits)
    then have still: "\<forall>j < k'. \<not> moved decode (wa_progress w') ps j"
      using "2.prems"(3) Suc by (metis Suc_less_eq)
    have "health_loop decode timeout la ps w' \<noteq> None"
      if "po_top p = Uninterrupted" "\<not> wa_deadline w < po_now p" "po_status p \<noteq> 200" "\<not> po_cancelled p"
        "po_wait p = Uninterrupted"
      using "2.IH" [OF that(1-4) rep [symmetric] refl that(5), of k'] "2.prems"(1,2) Suc w' still by simp
    then show ?thesis using rep by (auto split: interrupt.splits)
  qed
qed simp

section \<open>Properties\<close>

lemma do_start_some:
  assumes "do_start decode cfg timeout la = Some (r, es)"
  shows "(es = [] \<and> (\<exists>e. r = StartFailed e \<and> e \<noteq> HealthTimeout \<and> e \<noteq> NoProgress)) \<or>
    (\<exists>es'. es = Spawned (la_cmd la) # es' \<and> after_spawn decode cfg timeout la = Some (r, es'))"
  using assms by (auto simp: do_start_def split: if_splits sum.splits option.splits)

lemma after_spawn_left:
  "after_spawn decode cfg timeout la = Some r \<Longrightarrow>
    left_ok (la_cmd la) r \<or> trim_space (lc_check_endpoint cfg) = ''none'' \<and> r = (StartOk (la_cmd la), [])"
  using left_ok_abort [of la StartAborted] health_loop_left [of decode timeout la _ _ r]
  by (auto simp: after_spawn_def split: if_splits)

text \<open>
  A start that fails leaves no command behind: if it spawned one, the command has exited and its
  context is released (it was killed and waited for, or had exited by itself). A start that succeeds hands over
  the command it spawned, not killed, after a passed health check unless checking is turned off.
\<close>
lemma start_leaves_no_command:
  assumes "do_start decode cfg timeout la = Some (r, es)"
  shows "(\<forall>e. r = StartFailed e \<longrightarrow> (\<forall>c. Spawned c \<in> set es \<longrightarrow>
      Released c \<in> set es \<and> (e = ExitedPrematurely \<or> Reaped c \<in> set es))) \<and>
    (\<forall>c. r = StartOk c \<longrightarrow> c = la_cmd la \<and> Spawned c \<in> set es \<and> Released c \<notin> set es \<and> Reaped c \<notin> set es \<and>
      (HealthPassed c \<in> set es \<or> trim_space (lc_check_endpoint cfg) = ''none''))"
  using do_start_some [OF assms]
proof (elim disjE exE conjE)
  fix es'
  assume es: "es = Spawned (la_cmd la) # es'" and "after_spawn decode cfg timeout la = Some (r, es')"
  from after_spawn_left [OF this(2)] show ?thesis
    by (auto simp: es left_ok_def)
qed auto

definition no_progress :: "string \<Rightarrow> raw_progress option" where
  "no_progress body = (if body = ''half'' then Some \<lparr>rw_progress = Some (1/2), rw_message = None\<rparr> else None)"

definition demo_poll :: "int \<Rightarrow> string \<Rightarrow> poll" where
  "demo_poll t body = \<lparr>po_top = Uninterrupted, po_now = t, po_status = 503, po_cancelled = False, po_body = body,
     po_reset_now = t + 1, po_wait = Uninterrupted\<rparr>"

definition demo_launch :: "poll list \<Rightarrow> launch" where
  "demo_launch ps = \<lparr>la_cmd = 7, la_spawn_error = None, la_cancelled_spawn = False, la_cancelled_boot = False,
     la_boot_now = 0, la_polls = ps, la_graceful = False\<rparr>"

definition demo_cfg :: launch_config where
  "demo_cfg = \<lparr>lc_proxy = ''http://x'', lc_args = Inr [''srv''], lc_proxy_error = None, lc_check_endpoint = ''/health''\<rparr>"

lemmas demo_start_simps = do_start_def after_spawn_def demo_cfg_def demo_launch_def demo_poll_def abort_def kill_defs
  on_report_def parse_loading_progress_def no_progress_def max_progress_body_len_def Let_def trim_space_def
  is_space_def code_of_def

lemma demo_start_times_out:
  "do_start no_progress demo_cfg 10 (demo_launch [demo_poll 5 ''half'', demo_poll 12 ''half'', demo_poll 17 ''half'']) =
    Some (StartFailed NoProgress, [Spawned 7, Reported \<lparr>ld_progress = Some (1/2), ld_message = []\<rparr>,
      SignalSent 7, TreeKilled 7, Reaped 7, Released 7])"
  by (simp add: demo_start_simps)

text \<open>
  The health check deadline bounds the time without progress. A start that fails for lack of time did so
  at a poll later than the deadline: the timeout counted from the last poll that changed the reported progress, or from
  boot when none did; and without a change of progress a poll later than the first deadline ends the start.
\<close>
lemma start_deadline:
  assumes "lc_proxy cfg \<noteq> []" and "lc_args cfg = Inr args" and "lc_proxy_error cfg = None"
    and "la_spawn_error la = None"
  shows "(\<forall>e es. do_start decode cfg timeout la = Some (StartFailed e, es) \<and> e \<in> {HealthTimeout, NoProgress} \<longrightarrow>
      (\<exists>k < length (la_polls la).
        (\<forall>j < k. moved decode None (la_polls la) j \<and> (\<forall>i < k. j < i \<longrightarrow> \<not> moved decode None (la_polls la) i) \<longrightarrow>
           po_reset_now (la_polls la ! j) + timeout < po_now (la_polls la ! k)) \<and>
        ((\<forall>j < k. \<not> moved decode None (la_polls la) j) \<longrightarrow> la_boot_now la + timeout < po_now (la_polls la ! k)) \<and>
        (e = NoProgress \<longleftrightarrow> last_progress decode None (take k (la_polls la)) \<noteq> None))) \<and>
    (\<forall>k < length (la_polls la). la_boot_now la + timeout < po_now (la_polls la ! k) \<and>
      (\<forall>j < k. \<not> moved decode None (la_polls la) j) \<longrightarrow> do_start decode cfg timeout la \<noteq> None)"
proof -
  let ?w = "\<lparr>wa_deadline = la_boot_now la + timeout, wa_progress = None, wa_report = None\<rparr>"
  have hl: "\<exists>es'. health_loop decode timeout la (la_polls la) ?w = Some (StartFailed e, es')"
    if "do_start decode cfg timeout la = Some (StartFailed e, es)" "e \<in> {HealthTimeout, NoProgress}" for e es
    using do_start_some [OF that(1)] that(2) by (auto simp: after_spawn_def abort_def split: if_splits)
  have fail: "\<exists>k < length (la_polls la).
        (\<forall>j < k. moved decode None (la_polls la) j \<and> (\<forall>i < k. j < i \<longrightarrow> \<not> moved decode None (la_polls la) i) \<longrightarrow>
           po_reset_now (la_polls la ! j) + timeout < po_now (la_polls la ! k)) \<and>
        ((\<forall>j < k. \<not> moved decode None (la_polls la) j) \<longrightarrow> la_boot_now la + timeout < po_now (la_polls la ! k)) \<and>
        (e = NoProgress \<longleftrightarrow> last_progress decode None (take k (la_polls la)) \<noteq> None)"
    if "do_start decode cfg timeout la = Some (StartFailed e, es)" "e \<in> {HealthTimeout, NoProgress}" for e es
  proof -
    from hl [OF that] obtain es'
      where es': "health_loop decode timeout la (la_polls la) ?w = Some (StartFailed e, es')" by blast
    have "e = HealthTimeout \<or> e = NoProgress" using that(2) by blast
    from health_loop_outcome [OF es' this] show ?thesis by (simp only: watch.simps) blast
  qed
  have "do_start decode cfg timeout la \<noteq> None"
    if "k < length (la_polls la)" "la_boot_now la + timeout < po_now (la_polls la ! k)"
      "\<forall>j < k. \<not> moved decode None (la_polls la) j" for k
    using that assms health_loop_ends [of k "la_polls la" ?w decode timeout la] by (auto simp: do_start_def after_spawn_def)
  with fail show ?thesis by blast
qed

end
