(* ===== verification/ProcessLoop.thy ===== *)
theory ProcessLoop
  imports Launch
begin

text \<open>
  The run loop of a managed process, \<open>ProcessCommand.run\<close> in \<open>internal/process/process_command.go\<close>: the
  goroutine that owns the lifecycle state. It is at its outer select (\<open>AtSelect\<close>), at the select inside the
  start case (\<open>Launching\<close>, with the pending request), waiting for the result of a start it has cancelled
  (\<open>Awaiting\<close>), waiting in \<open>killProcess\<close> for a command to exit (\<open>Killing\<close>), or has returned
  (\<open>Returned\<close>); the last two waits end in one of the four ways of \<open>ending\<close>. Each case of the selects and each
  end of a wait is a handler. The answers sent to callers, the state changes
  announced and the effects on commands are collected in \<open>pl_answers\<close>, \<open>pl_events\<close> and \<open>pl_effects\<close>.
  \<open>ServeHTTP\<close> and the ticker that unloads an idle process run in goroutines of their own; they read
  and write the atomic fields (handler, last use, number of requests being served) and are modelled at the end.
\<close>

record start_req =
  sr_id :: nat
  sr_block :: bool

text \<open>
  What follows the exit of the command that is killed: a \<open>Stop\<close> or the end of the parent context, each at the
  outer select or inside a start.
\<close>

datatype ending = StopEnd nat | ParentEnd | AbortEnd nat start_req | AbortParentEnd start_req

datatype phase = AtSelect | Launching start_req | Awaiting ending | Killing nat bool ending | Returned

record proc =
  pl_phase :: phase
  pl_state :: proc_state
  pl_status :: status
  pl_cmd :: "nat option"
  pl_handler :: "nat option"
  pl_ready_waiters :: "nat list"
  pl_run_resp :: "nat option"
  pl_last_use :: int
  pl_inflight :: int
  pl_answers :: "(nat \<times> proc_error option) list"
  pl_events :: "(proc_state \<times> proc_state) list"
  pl_effects :: "cmd_effect list"

definition new_process :: proc where
  "new_process = \<lparr>pl_phase = AtSelect, pl_state = StateStopped, pl_status = new_status StateStopped,
     pl_cmd = None, pl_handler = None, pl_ready_waiters = [], pl_run_resp = None, pl_last_use = 0,
     pl_inflight = 0, pl_answers = [], pl_events = [], pl_effects = []\<rparr>"

definition set_state :: "int \<Rightarrow> proc_state \<Rightarrow> proc \<Rightarrow> proc" where
  "set_state now s p =
     p\<lparr>pl_state := s,
       pl_status := (new_status s)\<lparr>su_since :=
         (if s = StateReady then (if pl_state p = StateReady then su_since (pl_status p) else Some now) else None)\<rparr>,
       pl_events := (if pl_state p \<noteq> s then pl_events p @ [(pl_state p, s)] else pl_events p)\<rparr>"

definition respond :: "nat \<Rightarrow> proc_error option \<Rightarrow> proc \<Rightarrow> proc" where
  "respond r e p = p\<lparr>pl_answers := pl_answers p @ [(r, e)]\<rparr>"

definition notify_waiters :: "proc_error option \<Rightarrow> proc \<Rightarrow> proc" where
  "notify_waiters e p =
     p\<lparr>pl_answers := pl_answers p @ map (\<lambda>w. (w, e)) (pl_ready_waiters p), pl_ready_waiters := []\<rparr>"

definition respond_run :: "proc_error option \<Rightarrow> proc \<Rightarrow> proc" where
  "respond_run e p =
     (case pl_run_resp p of None \<Rightarrow> p | Some r \<Rightarrow> (respond r e p)\<lparr>pl_run_resp := None\<rparr>)"

section \<open>The ends of the two waits\<close>

definition finish_stop :: "int \<Rightarrow> nat \<Rightarrow> bool \<Rightarrow> proc \<Rightarrow> proc" where
  "finish_stop now stop tore_down p0 =
     (let p1 = set_state now StateStopped p0;
          p2 = (if tore_down then notify_waiters (Some ProcStopped) p1 else p1)
      in (respond stop None (respond_run None p2))\<lparr>pl_phase := AtSelect\<rparr>)"

definition finish_parent :: "proc \<Rightarrow> proc" where
  "finish_parent p = (respond_run (Some ProcShutdown) (notify_waiters (Some ProcShutdown) p))\<lparr>pl_phase := Returned\<rparr>"

definition finish_abort :: "int \<Rightarrow> nat \<Rightarrow> start_req \<Rightarrow> proc \<Rightarrow> proc" where
  "finish_abort now stop req p =
     (respond stop None
       (respond (sr_id req) (Some StartAborted) (notify_waiters (Some StartAborted) (set_state now StateStopped p))))
       \<lparr>pl_phase := AtSelect\<rparr>"

definition finish_ending :: "int \<Rightarrow> ending \<Rightarrow> proc \<Rightarrow> proc" where
  "finish_ending now en p =
     (case en of
        StopEnd stop \<Rightarrow> finish_stop now stop True (p\<lparr>pl_cmd := None, pl_handler := None\<rparr>)
      | ParentEnd \<Rightarrow> finish_parent (p\<lparr>pl_cmd := None\<rparr>)
      | AbortEnd stop req \<Rightarrow> finish_abort now stop req p
      | AbortParentEnd req \<Rightarrow> finish_parent p)"

text \<open>\<open>killProcess\<close> in the loop: its beginning, the graceful timeout, the exit of the command.\<close>

definition run_kill :: "nat \<Rightarrow> ending \<Rightarrow> proc \<Rightarrow> proc" where
  "run_kill c en p = p\<lparr>pl_effects := pl_effects p @ kill_begin (Some c), pl_phase := Killing c False en\<rparr>"

definition on_kill_timeout :: "nat \<Rightarrow> ending \<Rightarrow> proc \<Rightarrow> proc" where
  "on_kill_timeout c en p = p\<lparr>pl_effects := pl_effects p @ kill_escalate (Some c), pl_phase := Killing c True en\<rparr>"

definition on_kill_exit :: "int \<Rightarrow> nat \<Rightarrow> ending \<Rightarrow> proc \<Rightarrow> proc" where
  "on_kill_exit now c en p = finish_ending now en (p\<lparr>pl_effects := pl_effects p @ kill_end c\<rparr>)"

text \<open>The result of a start that was cancelled: a command that made it is killed.\<close>

definition kill_result :: "int \<Rightarrow> start_result \<Rightarrow> ending \<Rightarrow> proc \<Rightarrow> proc" where
  "kill_result now res en p =
     (case res of StartOk c \<Rightarrow> run_kill c en p | StartFailed e \<Rightarrow> finish_ending now en p)"

section \<open>The cases of the outer select\<close>

definition on_parent_done :: "int \<Rightarrow> proc \<Rightarrow> proc" where
  "on_parent_done now p0 =
     (let p1 = set_state now StateShutdown p0
      in case pl_cmd p1 of
           None \<Rightarrow> finish_parent p1
         | Some c \<Rightarrow> run_kill c ParentEnd (p1\<lparr>pl_handler := None\<rparr>))"

definition on_cmd_done :: "int \<Rightarrow> nat \<Rightarrow> proc \<Rightarrow> proc" where
  "on_cmd_done now c p0 =
     (let p1 = set_state now StateStopped
                 (p0\<lparr>pl_effects := pl_effects p0 @ kill_end c, pl_cmd := None, pl_handler := None\<rparr>)
      in respond_run (Some ExitedUnexpectedly) (notify_waiters (Some ExitedUnexpectedly) p1))"

definition on_wait_ready :: "nat \<Rightarrow> proc \<Rightarrow> proc" where
  "on_wait_ready w p =
     (case pl_state p of
        StateReady \<Rightarrow> respond w None p
      | StateShutdown \<Rightarrow> respond w (Some ProcShutdown) p
      | _ \<Rightarrow> p\<lparr>pl_ready_waiters := pl_ready_waiters p @ [w]\<rparr>)"

definition on_start :: "int \<Rightarrow> start_req \<Rightarrow> proc \<Rightarrow> proc" where
  "on_start now req p =
     (if \<not> sr_block req \<and> pl_state p = StateReady then respond (sr_id req) None p
      else if \<not> sr_block req \<and> pl_state p = StateShutdown then respond (sr_id req) (Some ProcShutdown) p
      else if pl_state p \<noteq> StateStopped then respond (sr_id req) (Some (CouldNotStart (pl_state p))) p
      else (set_state now StateStarting p)\<lparr>pl_phase := Launching req\<rparr>)"

definition on_stop :: "int \<Rightarrow> nat \<Rightarrow> proc \<Rightarrow> proc" where
  "on_stop now stop p =
     (case pl_cmd p of
        None \<Rightarrow> finish_stop now stop False p
      | Some c \<Rightarrow> run_kill c (StopEnd stop) (set_state now StateStopping p))"

section \<open>The cases of the select inside a start\<close>

definition start_finished :: "int \<Rightarrow> int \<Rightarrow> start_result \<Rightarrow> start_req \<Rightarrow> proc \<Rightarrow> proc" where
  "start_finished used now res req p0 =
     (case res of
        StartOk c \<Rightarrow>
          (let p1 = notify_waiters None (set_state now StateReady
                      (p0\<lparr>pl_cmd := Some c, pl_handler := Some c, pl_last_use := used\<rparr>))
           in (if sr_block req then p1\<lparr>pl_run_resp := Some (sr_id req)\<rparr> else respond (sr_id req) None p1)
                \<lparr>pl_phase := AtSelect\<rparr>)
      | StartFailed e \<Rightarrow>
          (respond (sr_id req) (Some e) (notify_waiters (Some e) (set_state now StateStopped p0)))
            \<lparr>pl_phase := AtSelect\<rparr>)"

definition start_stopped :: "nat \<Rightarrow> start_req \<Rightarrow> proc \<Rightarrow> proc" where
  "start_stopped stop req p = p\<lparr>pl_phase := Awaiting (AbortEnd stop req)\<rparr>"

definition start_parent_done :: "int \<Rightarrow> start_req \<Rightarrow> proc \<Rightarrow> proc" where
  "start_parent_done now req p = (set_state now StateShutdown p)\<lparr>pl_phase := Awaiting (AbortParentEnd req)\<rparr>"

text \<open>What the building blocks of the handlers do to each field.\<close>

lemma set_state_fields [simp]:
  "pl_phase (set_state now s p) = pl_phase p"
  "pl_cmd (set_state now s p) = pl_cmd p"
  "pl_handler (set_state now s p) = pl_handler p"
  "pl_ready_waiters (set_state now s p) = pl_ready_waiters p"
  "pl_run_resp (set_state now s p) = pl_run_resp p"
  "pl_last_use (set_state now s p) = pl_last_use p"
  "pl_inflight (set_state now s p) = pl_inflight p"
  "pl_answers (set_state now s p) = pl_answers p"
  "pl_effects (set_state now s p) = pl_effects p"
  "pl_state (set_state now s p) = s"
  "pl_status (set_state now s p) = (new_status s)\<lparr>su_since :=
     (if s = StateReady then (if pl_state p = StateReady then su_since (pl_status p) else Some now) else None)\<rparr>"
  by (simp_all add: set_state_def)

lemma respond_fields [simp]:
  "pl_phase (respond r e p) = pl_phase p"
  "pl_cmd (respond r e p) = pl_cmd p"
  "pl_handler (respond r e p) = pl_handler p"
  "pl_ready_waiters (respond r e p) = pl_ready_waiters p"
  "pl_run_resp (respond r e p) = pl_run_resp p"
  "pl_last_use (respond r e p) = pl_last_use p"
  "pl_inflight (respond r e p) = pl_inflight p"
  "pl_answers (respond r e p) = pl_answers p @ [(r, e)]"
  "pl_effects (respond r e p) = pl_effects p"
  "pl_state (respond r e p) = pl_state p"
  "pl_status (respond r e p) = pl_status p"
  by (simp_all add: respond_def)

lemma notify_waiters_fields [simp]:
  "pl_phase (notify_waiters e p) = pl_phase p"
  "pl_cmd (notify_waiters e p) = pl_cmd p"
  "pl_handler (notify_waiters e p) = pl_handler p"
  "pl_ready_waiters (notify_waiters e p) = []"
  "pl_run_resp (notify_waiters e p) = pl_run_resp p"
  "pl_last_use (notify_waiters e p) = pl_last_use p"
  "pl_inflight (notify_waiters e p) = pl_inflight p"
  "pl_answers (notify_waiters e p) = pl_answers p @ map (\<lambda>w. (w, e)) (pl_ready_waiters p)"
  "pl_effects (notify_waiters e p) = pl_effects p"
  "pl_state (notify_waiters e p) = pl_state p"
  "pl_status (notify_waiters e p) = pl_status p"
  by (simp_all add: notify_waiters_def)

lemma respond_run_fields [simp]:
  "pl_phase (respond_run e p) = pl_phase p"
  "pl_cmd (respond_run e p) = pl_cmd p"
  "pl_handler (respond_run e p) = pl_handler p"
  "pl_ready_waiters (respond_run e p) = pl_ready_waiters p"
  "pl_run_resp (respond_run e p) = None"
  "pl_last_use (respond_run e p) = pl_last_use p"
  "pl_inflight (respond_run e p) = pl_inflight p"
  "pl_answers (respond_run e p) = pl_answers p @ (case pl_run_resp p of None \<Rightarrow> [] | Some r \<Rightarrow> [(r, e)])"
  "pl_effects (respond_run e p) = pl_effects p"
  "pl_state (respond_run e p) = pl_state p"
  "pl_status (respond_run e p) = pl_status p"
  by (cases "pl_run_resp p"; simp add: respond_run_def)+

lemma run_kill_fields [simp]:
  "pl_phase (run_kill c en p) = Killing c False en"
  "pl_cmd (run_kill c en p) = pl_cmd p"
  "pl_handler (run_kill c en p) = pl_handler p"
  "pl_ready_waiters (run_kill c en p) = pl_ready_waiters p"
  "pl_run_resp (run_kill c en p) = pl_run_resp p"
  "pl_last_use (run_kill c en p) = pl_last_use p"
  "pl_inflight (run_kill c en p) = pl_inflight p"
  "pl_answers (run_kill c en p) = pl_answers p"
  "pl_effects (run_kill c en p) = pl_effects p @ [SignalSent c]"
  "pl_state (run_kill c en p) = pl_state p"
  "pl_status (run_kill c en p) = pl_status p"
  by (simp_all add: run_kill_def kill_defs)

section \<open>Requests served, and the idle ticker\<close>

datatype served = Unavailable | Untracked nat | Tracked nat

text \<open>
  \<open>ServeHTTP\<close> reads the handler and answers 503 without one; the second argument tells a WebSocket that is
  not tracked. A tracked request then counts itself, runs the handler, and at its end notes the time of use.
\<close>

definition serve_http :: "proc \<Rightarrow> bool \<Rightarrow> served" where
  "serve_http p ignored =
     (case pl_handler p of None \<Rightarrow> Unavailable
      | Some c \<Rightarrow> if ignored then Untracked c else Tracked c)"

definition serve_track :: "proc \<Rightarrow> proc" where
  "serve_track p = p\<lparr>pl_inflight := pl_inflight p + 1\<rparr>"

definition serve_end :: "int \<Rightarrow> proc \<Rightarrow> proc" where
  "serve_end now p = p\<lparr>pl_last_use := now, pl_inflight := pl_inflight p - 1\<rparr>"

datatype ttl_action = TickerExits | TickerWaits | TickerStops

definition ttl_tick :: "int \<Rightarrow> int \<Rightarrow> proc \<Rightarrow> ttl_action" where
  "ttl_tick ttl now p =
     (if pl_state p \<noteq> StateReady then TickerExits
      else if pl_inflight p \<noteq> 0 then TickerWaits
      else if ttl < now - pl_last_use p then TickerStops
      else TickerWaits)"

section \<open>Steps\<close>

text \<open>
  One step of the loop or of a request being served. \<open>StartDone\<close> is the result of \<open>doStart\<close>,
  \<open>KillTimeout\<close> the end of the graceful timeout and \<open>KillExit\<close> the exit of the command that is killed.
\<close>

datatype proc_event =
    ParentDone int
  | CmdDone int
  | WaitReadyReq nat
  | StartReq int start_req
  | StartDone int int start_result
  | StopReq int nat
  | KillTimeout
  | KillExit int
  | ServeTrack
  | ServeEnd int

fun proc_step :: "proc_event \<Rightarrow> proc \<Rightarrow> proc option" where
  "proc_step (ParentDone now) p = (case pl_phase p of
       AtSelect \<Rightarrow> Some (on_parent_done now p)
     | Launching req \<Rightarrow> Some (start_parent_done now req p)
     | _ \<Rightarrow> None)"
| "proc_step (CmdDone now) p = (case (pl_phase p, pl_cmd p) of
       (AtSelect, Some c) \<Rightarrow> Some (on_cmd_done now c p)
     | _ \<Rightarrow> None)"
| "proc_step (WaitReadyReq w) p = (if pl_phase p = AtSelect then Some (on_wait_ready w p) else None)"
| "proc_step (StartReq now req) p = (if pl_phase p = AtSelect then Some (on_start now req p) else None)"
| "proc_step (StartDone used now res) p = (case pl_phase p of
       Launching req \<Rightarrow> Some (start_finished used now res req p)
     | Awaiting en \<Rightarrow> Some (kill_result now res en p)
     | _ \<Rightarrow> None)"
| "proc_step (StopReq now stop) p = (case pl_phase p of
       AtSelect \<Rightarrow> Some (on_stop now stop p)
     | Launching req \<Rightarrow> Some (start_stopped stop req p)
     | _ \<Rightarrow> None)"
| "proc_step KillTimeout p = (case pl_phase p of
       Killing c False en \<Rightarrow> Some (on_kill_timeout c en p)
     | _ \<Rightarrow> None)"
| "proc_step (KillExit now) p = (case pl_phase p of
       Killing c forced en \<Rightarrow> Some (on_kill_exit now c en p)
     | _ \<Rightarrow> None)"
| "proc_step ServeTrack p = Some (serve_track p)"
| "proc_step (ServeEnd now) p = (if 0 < pl_inflight p then Some (serve_end now p) else None)"

fun proc_run :: "proc_event list \<Rightarrow> proc \<Rightarrow> proc option" where
  "proc_run [] p = Some p"
| "proc_run (ev # evs) p = (case proc_step ev p of None \<Rightarrow> None | Some p' \<Rightarrow> proc_run evs p')"

section \<open>The lifecycle invariant\<close>

definition loop_ok :: "proc \<Rightarrow> bool" where
  "loop_ok p \<longleftrightarrow>
     (case pl_phase p of
        AtSelect \<Rightarrow> (pl_state p = StateStopped \<and> pl_cmd p = None \<or> pl_state p = StateReady \<and> pl_cmd p \<noteq> None) \<and>
          (pl_ready_waiters p \<noteq> [] \<longrightarrow> pl_state p = StateStopped) \<and>
          (pl_run_resp p \<noteq> None \<longrightarrow> pl_state p = StateReady)
      | Launching req \<Rightarrow> pl_state p = StateStarting \<and> pl_cmd p = None \<and> pl_run_resp p = None
      | Awaiting (AbortEnd stop req) \<Rightarrow> pl_state p = StateStarting \<and> pl_cmd p = None \<and> pl_run_resp p = None
      | Awaiting (AbortParentEnd req) \<Rightarrow> pl_state p = StateShutdown \<and> pl_cmd p = None \<and> pl_run_resp p = None
      | Awaiting en \<Rightarrow> False
      | Killing c forced (StopEnd stop) \<Rightarrow> pl_state p = StateStopping \<and> pl_cmd p = Some c \<and> pl_ready_waiters p = []
      | Killing c forced ParentEnd \<Rightarrow> pl_state p = StateShutdown \<and> pl_cmd p = Some c \<and> pl_ready_waiters p = []
      | Killing c forced (AbortEnd stop req) \<Rightarrow> pl_state p = StateStarting \<and> pl_cmd p = None \<and> pl_run_resp p = None
      | Killing c forced (AbortParentEnd req) \<Rightarrow> pl_state p = StateShutdown \<and> pl_cmd p = None \<and> pl_run_resp p = None
      | Returned \<Rightarrow> pl_state p = StateShutdown \<and> pl_cmd p = None \<and> pl_ready_waiters p = [] \<and> pl_run_resp p = None)"

definition proc_inv :: "proc \<Rightarrow> bool" where
  "proc_inv p \<longleftrightarrow> loop_ok p \<and>
     pl_handler p = (if pl_state p = StateReady \<or> pl_state p = StateStopping then pl_cmd p else None) \<and>
     su_state (pl_status p) = pl_state p \<and>
     (su_since (pl_status p) \<noteq> None \<longleftrightarrow> pl_state p = StateReady) \<and> 0 \<le> pl_inflight p"

lemmas loop_defs = new_status_def kill_result_def finish_ending_def finish_stop_def finish_parent_def finish_abort_def

lemmas select_defs = on_parent_done_def on_cmd_done_def on_wait_ready_def on_start_def on_stop_def

lemmas launch_defs = start_finished_def start_stopped_def start_parent_done_def on_kill_timeout_def on_kill_exit_def

lemmas serve_defs = serve_track_def serve_end_def

lemmas inv_defs = proc_inv_def loop_ok_def

text \<open>The handler a step runs.\<close>

lemma proc_step_handlers:
  assumes "proc_step ev p = Some p'"
  obtains
    (parent) now where "ev = ParentDone now" "pl_phase p = AtSelect" "p' = on_parent_done now p"
  | (exited) now c where "ev = CmdDone now" "pl_phase p = AtSelect" "pl_cmd p = Some c" "p' = on_cmd_done now c p"
  | (wait) w where "ev = WaitReadyReq w" "pl_phase p = AtSelect" "p' = on_wait_ready w p"
  | (start) now req where "ev = StartReq now req" "pl_phase p = AtSelect" "p' = on_start now req p"
  | (stop) now st where "ev = StopReq now st" "pl_phase p = AtSelect" "p' = on_stop now st p"
  | (finished) used now res req where
      "ev = StartDone used now res" "pl_phase p = Launching req" "p' = start_finished used now res req p"
  | (abort_start) now st req where "ev = StopReq now st" "pl_phase p = Launching req" "p' = start_stopped st req p"
  | (parent_start) now req where "ev = ParentDone now" "pl_phase p = Launching req" "p' = start_parent_done now req p"
  | (awaited) used now res en where "ev = StartDone used now res" "pl_phase p = Awaiting en" "p' = kill_result now res en p"
  | (timeout) c en where "ev = KillTimeout" "pl_phase p = Killing c False en" "p' = on_kill_timeout c en p"
  | (killed) now c forced en where "ev = KillExit now" "pl_phase p = Killing c forced en" "p' = on_kill_exit now c en p"
  | (track) "ev = ServeTrack" "p' = serve_track p"
  | (serve_end) now where "ev = ServeEnd now" "0 < pl_inflight p" "p' = serve_end now p"
  using assms by (cases ev; cases "pl_phase p") (auto split: option.splits bool.splits if_splits)

lemma new_process_inv [simp]: "proc_inv new_process"
  by (simp add: proc_inv_def loop_ok_def new_process_def new_status_def)

lemma proc_step_inv [inv_intro]:
  assumes "proc_inv p" and "proc_step ev p = Some p'"
  shows "proc_inv p'"
  using assms(2)
proof (cases rule: proc_step_handlers)
  case (parent now)
  with assms(1) show ?thesis
    by (cases "pl_cmd p") (auto simp: inv_defs on_parent_done_def finish_parent_def loop_defs Let_def split: if_splits)
next
  case (stop now st)
  with assms(1) show ?thesis
    by (cases "pl_cmd p") (auto simp: inv_defs on_stop_def loop_defs Let_def split: if_splits)
next
  case (finished used now res req)
  with assms(1) show ?thesis by (cases res) (auto simp: inv_defs launch_defs loop_defs Let_def split: if_splits)
next
  case (awaited used now res en)
  with assms(1) show ?thesis by (cases res; cases en) (auto simp: inv_defs loop_defs split: if_splits)
next
  case (timeout c en)
  with assms(1) show ?thesis by (cases en) (auto simp: inv_defs launch_defs loop_defs split: if_splits)
next
  case (killed now c forced en)
  with assms(1) show ?thesis by (cases en) (auto simp: inv_defs launch_defs loop_defs split: if_splits)
next
  case track
  with assms(1) show ?thesis by (auto simp: inv_defs serve_defs split: phase.splits ending.splits)
next
  case (serve_end now)
  with assms(1) show ?thesis by (auto simp: inv_defs serve_defs split: phase.splits ending.splits)
qed (use assms(1) in \<open>auto simp: inv_defs select_defs launch_defs loop_defs Let_def split: if_splits\<close>)

lemma proc_run_inv: "proc_run evs p = Some p' \<Longrightarrow> proc_inv p \<Longrightarrow> proc_inv p'"
  by (induction evs p rule: proc_run.induct) (auto split: option.splits intro: proc_step_inv)

lemma proc_run_append:
  "proc_run (evs @ evs') p = (case proc_run evs p of None \<Rightarrow> None | Some p' \<Rightarrow> proc_run evs' p')"
  by (induction evs p rule: proc_run.induct) (auto split: option.splits)

section \<open>Every request is answered once\<close>

fun requests_of :: "proc_event list \<Rightarrow> nat list" where
  "requests_of [] = []"
| "requests_of (WaitReadyReq w # evs) = w # requests_of evs"
| "requests_of (StartReq now req # evs) = sr_id req # requests_of evs"
| "requests_of (StopReq now stop # evs) = stop # requests_of evs"
| "requests_of (_ # evs) = requests_of evs"

text \<open>The requests the loop still owes an answer.\<close>

fun ending_held :: "ending \<Rightarrow> nat multiset" where
  "ending_held (StopEnd stop) = {#stop#}"
| "ending_held (AbortEnd stop req) = {#stop, sr_id req#}"
| "ending_held (AbortParentEnd req) = {#sr_id req#}"
| "ending_held ParentEnd = {#}"

definition held :: "proc \<Rightarrow> nat multiset" where
  "held p = mset (pl_ready_waiters p) + mset_set (set_option (pl_run_resp p)) +
     (case pl_phase p of
        Launching req \<Rightarrow> {#sr_id req#} | Awaiting en \<Rightarrow> ending_held en | Killing c forced en \<Rightarrow> ending_held en | _ \<Rightarrow> {#})"

definition answered :: "proc \<Rightarrow> nat multiset" where
  "answered p = mset (map fst (pl_answers p))"

lemma map_fst_answers [simp]: "image_mset fst {#(w, e). w \<in># M#} = M"
  by (simp add: multiset.map_comp comp_def)

lemmas answer_defs = held_def answered_def

text \<open>
  The start request that a cancelled parent context overtakes is the only one not answered by the loop, which returns.
\<close>

definition overtaken :: "proc_event \<Rightarrow> proc \<Rightarrow> nat multiset" where
  "overtaken ev p = (case (ev, pl_phase p) of
     (StartDone used now (StartFailed e), Awaiting (AbortParentEnd req)) \<Rightarrow> {#sr_id req#}
   | (KillExit now, Killing c forced (AbortParentEnd req)) \<Rightarrow> {#sr_id req#}
   | _ \<Rightarrow> {#})"

lemma proc_step_answers:
  assumes "proc_inv p" and "proc_step ev p = Some p'"
  shows "answered p' + held p' + overtaken ev p = answered p + held p + mset (requests_of [ev])"
  using assms(2)
proof (cases rule: proc_step_handlers)
  case (parent now)
  with assms(1) show ?thesis
    by (cases "pl_cmd p"; cases "pl_run_resp p")
       (auto simp: inv_defs answer_defs overtaken_def on_parent_done_def finish_parent_def Let_def comp_def)
next
  case (exited now c)
  with assms(1) show ?thesis
    by (cases "pl_run_resp p") (auto simp: inv_defs answer_defs overtaken_def on_cmd_done_def Let_def comp_def)
next
  case (wait w)
  with assms(1) show ?thesis by (auto simp: inv_defs answer_defs overtaken_def on_wait_ready_def)
next
  case (start now req)
  with assms(1) show ?thesis by (auto simp: inv_defs answer_defs overtaken_def on_start_def)
next
  case (stop now st)
  with assms(1) show ?thesis
    by (cases "pl_cmd p"; cases "pl_run_resp p")
       (auto simp: inv_defs answer_defs overtaken_def on_stop_def loop_defs Let_def comp_def)
next
  case (finished used now res req)
  with assms(1) show ?thesis
    by (cases res) (auto simp: inv_defs answer_defs overtaken_def launch_defs Let_def comp_def)
next
  case (awaited used now res en)
  with assms(1) show ?thesis
    by (cases res; cases en; cases "pl_run_resp p") (auto simp: inv_defs answer_defs overtaken_def loop_defs Let_def comp_def)
next
  case (timeout c en)
  then show ?thesis by (simp add: answer_defs overtaken_def launch_defs)
next
  case (killed now c forced en)
  with assms(1) show ?thesis
    by (cases en; cases "pl_run_resp p")
       (auto simp: inv_defs answer_defs overtaken_def launch_defs loop_defs Let_def comp_def)
next
  case track
  then show ?thesis by (simp add: answer_defs overtaken_def serve_defs)
next
  case (serve_end now)
  then show ?thesis by (simp add: answer_defs overtaken_def serve_defs)
qed (use assms(1) in \<open>auto simp: inv_defs answer_defs overtaken_def launch_defs\<close>)

lemma overtaken_returned: "proc_step ev p = Some p' \<Longrightarrow> overtaken ev p \<noteq> {#} \<Longrightarrow> pl_phase p' = Returned"
  by (erule proc_step_handlers)
     (auto simp: overtaken_def launch_defs loop_defs split: start_result.splits ending.splits)

lemma returned_stays:
  "proc_step ev p = Some p' \<Longrightarrow> pl_phase p = Returned \<Longrightarrow> pl_phase p' = Returned \<and> overtaken ev p = {#}"
  by (cases ev) (auto simp: overtaken_def serve_defs split: if_splits)

lemma requests_of_Cons: "requests_of (ev # evs) = requests_of [ev] @ requests_of evs"
  by (cases ev) simp_all

lemma proc_run_answers:
  assumes "proc_run evs p = Some p'" and "proc_inv p"
  shows "\<exists>lost. size lost \<le> 1 \<and> (lost \<noteq> {#} \<longrightarrow> pl_phase p' = Returned \<and> pl_phase p \<noteq> Returned) \<and>
    answered p' + held p' + lost = answered p + held p + mset (requests_of evs)"
  using assms
proof (induction evs p rule: proc_run.induct)
  case (1 p)
  then show ?case by (intro exI [of _ "{#}"]) simp
next
  case (2 ev evs p)
  obtain q where q: "proc_step ev p = Some q" "proc_run evs q = Some p'"
    using "2.prems"(1) by (auto split: option.splits)
  have inv: "proc_inv q" by (rule proc_step_inv [OF "2.prems"(2) q(1)])
  obtain lost where lost: "size lost \<le> 1" "lost \<noteq> {#} \<longrightarrow> pl_phase p' = Returned \<and> pl_phase q \<noteq> Returned"
    "answered p' + held p' + lost = answered q + held q + mset (requests_of evs)"
    using "2.IH" [OF q inv] by blast
  have step: "answered q + held q + overtaken ev p = answered p + held p + mset (requests_of [ev])"
    by (rule proc_step_answers [OF "2.prems"(2) q(1)])
  have sum: "answered p' + held p' + (lost + overtaken ev p) = answered p + held p + mset (requests_of (ev # evs))"
    using lost(3) step by (simp add: requests_of_Cons [of ev evs] ac_simps) (metis union_assoc union_commute)
  show ?case
  proof (cases "overtaken ev p = {#}")
    case True
    have "lost \<noteq> {#} \<longrightarrow> pl_phase p \<noteq> Returned"
      using lost(2) returned_stays [OF q(1)] by blast
    with True sum lost show ?thesis by (intro exI [of _ lost]) simp
  next
    case False
    then have "pl_phase q = Returned" by (rule overtaken_returned [OF q(1)])
    with lost(2) have "lost = {#}" by blast
    moreover have "pl_phase p' = Returned"
      using q(2) \<open>pl_phase q = Returned\<close>
      by (induction evs q rule: proc_run.induct) (auto split: option.splits dest: returned_stays)
    moreover have "size (overtaken ev p) \<le> 1" "pl_phase p \<noteq> Returned"
      using False by (auto simp: overtaken_def split: proc_event.splits phase.splits start_result.splits ending.splits)
    ultimately show ?thesis using sum by (intro exI [of _ "overtaken ev p"]) simp
  qed
qed

section \<open>Commands\<close>

text \<open>What the loop did to one command.\<close>

fun about :: "nat \<Rightarrow> cmd_effect \<Rightarrow> bool" where
  "about c (Reported lp) \<longleftrightarrow> False"
| "about c (Spawned k) \<longleftrightarrow> k = c"
| "about c (SignalSent k) \<longleftrightarrow> k = c"
| "about c (TreeKilled k) \<longleftrightarrow> k = c"
| "about c (Reaped k) \<longleftrightarrow> k = c"
| "about c (Released k) \<longleftrightarrow> k = c"
| "about c (HealthPassed k) \<longleftrightarrow> k = c"

definition effects_on :: "nat \<Rightarrow> proc \<Rightarrow> cmd_effect list" where
  "effects_on c p = filter (about c) (pl_effects p)"

definition handed_over :: "proc_event \<Rightarrow> proc \<Rightarrow> nat list" where
  "handed_over ev p = (case (ev, pl_phase p) of
       (StartDone used now (StartOk c), Launching req) \<Rightarrow> [c]
     | (StartDone used now (StartOk c), Awaiting en) \<Rightarrow> [c]
     | _ \<Rightarrow> [])"

fun commands_of :: "proc_event list \<Rightarrow> proc \<Rightarrow> nat list" where
  "commands_of [] p = []"
| "commands_of (ev # evs) p =
     handed_over ev p @ (case proc_step ev p of None \<Rightarrow> [] | Some p' \<Rightarrow> commands_of evs p')"

text \<open>The command exited by itself, after the stop signal, or after its process tree was killed; then it was reaped.\<close>

definition gone :: "nat \<Rightarrow> cmd_effect list set" where
  "gone c = {[Reaped c, Released c], [SignalSent c, Reaped c, Released c],
     [SignalSent c, TreeKilled c, Reaped c, Released c]}"

text \<open>The effects a command has seen, by whether it is being killed, owned, or done with.\<close>

definition accounted :: "nat \<Rightarrow> proc \<Rightarrow> bool" where
  "accounted c p \<longleftrightarrow>
     (case pl_phase p of
        Killing k forced en \<Rightarrow>
          if k = c then effects_on c p = (if forced then [SignalSent c, TreeKilled c] else [SignalSent c])
          else effects_on c p \<in> gone c
      | _ \<Rightarrow> if pl_cmd p = Some c then effects_on c p = [] else effects_on c p \<in> gone c)"

definition untouched :: "nat \<Rightarrow> proc \<Rightarrow> bool" where
  "untouched c p \<longleftrightarrow> effects_on c p = [] \<and> pl_cmd p \<noteq> Some c \<and> (\<forall>forced en. pl_phase p \<noteq> Killing c forced en)"

lemmas account_defs = accounted_def untouched_def effects_on_def gone_def kill_defs

lemma effects_fields [simp]:
  "effects_on c (set_state now s p) = effects_on c p" "effects_on c (respond r e p) = effects_on c p"
  "effects_on c (notify_waiters e p) = effects_on c p" "effects_on c (respond_run e p) = effects_on c p"
  by (simp_all add: effects_on_def)

lemma proc_step_commands:
  assumes "proc_inv p" and "proc_step ev p = Some p'"
  shows "accounted c p \<and> c \<notin> set (handed_over ev p) \<Longrightarrow> accounted c p'"
    and "untouched c p \<Longrightarrow> if c \<in> set (handed_over ev p) then accounted c p' else untouched c p'"
proof -
  note simps = account_defs inv_defs handed_over_def select_defs launch_defs loop_defs serve_defs Let_def
  have "(accounted c p \<and> c \<notin> set (handed_over ev p) \<longrightarrow> accounted c p') \<and>
      (untouched c p \<longrightarrow> (if c \<in> set (handed_over ev p) then accounted c p' else untouched c p'))"
    using assms(2)
  proof (cases rule: proc_step_handlers)
    case (parent now)
    with assms(1) show ?thesis by (cases "pl_cmd p") (auto simp: simps)
  next
    case (wait w)
    with assms(1) show ?thesis by (cases "pl_state p") (auto simp: simps)
  next
    case (stop now st)
    with assms(1) show ?thesis by (cases "pl_cmd p") (auto simp: simps)
  next
    case (finished used now res req)
    with assms(1) show ?thesis by (cases res) (auto simp: simps)
  next
    case (awaited used now res en)
    with assms(1) show ?thesis by (cases res; cases en) (auto simp: simps)
  next
    case (killed now k forced en)
    with assms(1) show ?thesis by (cases en) (auto simp: simps split: if_splits)
  next
    case track
    then show ?thesis by (auto simp: simps split: phase.splits)
  next
    case (serve_end now)
    then show ?thesis by (auto simp: simps split: phase.splits)
  qed (use assms(1) in \<open>auto simp: simps\<close>)
  then show "accounted c p \<and> c \<notin> set (handed_over ev p) \<Longrightarrow> accounted c p'"
    and "untouched c p \<Longrightarrow> if c \<in> set (handed_over ev p) then accounted c p' else untouched c p'" by blast+
qed

lemma proc_run_accounted:
  "proc_run evs p = Some p' \<Longrightarrow> proc_inv p \<Longrightarrow> accounted c p \<Longrightarrow> c \<notin> set (commands_of evs p) \<Longrightarrow> accounted c p'"
proof (induction evs p rule: proc_run.induct)
  case (2 ev evs p)
  obtain q where q: "proc_step ev p = Some q" "proc_run evs q = Some p'"
    using "2.prems"(1) by (auto split: option.splits)
  have c: "c \<notin> set (handed_over ev p)" "c \<notin> set (commands_of evs q)" using "2.prems"(4) q(1) by simp_all
  have "accounted c q" using proc_step_commands(1) [OF "2.prems"(2) q(1)] "2.prems"(3) c(1) by blast
  from "2.IH" [OF q proc_step_inv [OF "2.prems"(2) q(1)] this c(2)] show ?case .
qed simp

lemma proc_run_commands:
  "proc_run evs p = Some p' \<Longrightarrow> proc_inv p \<Longrightarrow> untouched c p \<Longrightarrow> distinct (commands_of evs p) \<Longrightarrow>
    if c \<in> set (commands_of evs p) then accounted c p' else untouched c p'"
proof (induction evs p rule: proc_run.induct)
  case (2 ev evs p)
  obtain q where q: "proc_step ev p = Some q" "proc_run evs q = Some p'"
    using "2.prems"(1) by (auto split: option.splits)
  note inv = proc_step_inv [OF "2.prems"(2) q(1)] and step = proc_step_commands(2) [OF "2.prems"(2) q(1) "2.prems"(3)]
  have d: "distinct (commands_of evs q)" "set (handed_over ev p) \<inter> set (commands_of evs q) = {}"
    using "2.prems"(4) q(1) by auto
  show ?case
  proof (cases "c \<in> set (handed_over ev p)")
    case True
    with step d(2) proc_run_accounted [OF q(2) inv] q(1) show ?thesis by auto
  next
    case False
    with step "2.IH" [OF q inv _ d(1)] q(1) show ?thesis by simp
  qed
qed simp

section \<open>The idle ticker\<close>

text \<open>The times at which a run of steps touched the process: it became ready, or a request ended.\<close>

definition use_of :: "proc_event \<Rightarrow> proc \<Rightarrow> int list" where
  "use_of ev p = (case (ev, pl_phase p) of
       (StartDone used now (StartOk c), Launching req) \<Rightarrow> [used]
     | (ServeEnd now, _) \<Rightarrow> [now]
     | _ \<Rightarrow> [])"

fun uses :: "proc_event list \<Rightarrow> proc \<Rightarrow> int list" where
  "uses [] p = []"
| "uses (ev # evs) p = use_of ev p @ (case proc_step ev p of None \<Rightarrow> [] | Some p' \<Rightarrow> uses evs p')"

definition served_now :: "proc_event list \<Rightarrow> int" where
  "served_now evs = int (length (filter (\<lambda>ev. ev = ServeTrack) evs)) -
     int (length (filter (\<lambda>ev. case ev of ServeEnd now \<Rightarrow> True | _ \<Rightarrow> False) evs))"

lemma step_last_use:
  assumes "proc_step ev p = Some p'"
  shows "pl_last_use p' = (if use_of ev p = [] then pl_last_use p else last (use_of ev p))"
    "pl_inflight p' = pl_inflight p + served_now [ev]"
proof -
  have "pl_last_use p' = (if use_of ev p = [] then pl_last_use p else last (use_of ev p)) \<and>
      pl_inflight p' = pl_inflight p + served_now [ev]"
    using assms
    by (cases rule: proc_step_handlers)
       (auto simp: use_of_def served_now_def select_defs launch_defs loop_defs serve_defs Let_def
         split: option.splits proc_state.splits start_result.splits ending.splits)
  then show "pl_last_use p' = (if use_of ev p = [] then pl_last_use p else last (use_of ev p))"
    "pl_inflight p' = pl_inflight p + served_now [ev]" by blast+
qed

lemma served_now_Cons: "served_now (ev # evs) = served_now [ev] + served_now evs"
  by (simp add: served_now_def)

lemma proc_run_last_use:
  "proc_run evs p = Some p' \<Longrightarrow>
    pl_last_use p' = (if uses evs p = [] then pl_last_use p else last (uses evs p)) \<and>
    pl_inflight p' = pl_inflight p + served_now evs"
proof (induction evs p rule: proc_run.induct)
  case (2 ev evs p)
  obtain q where q: "proc_step ev p = Some q" "proc_run evs q = Some p'"
    using "2.prems" by (auto split: option.splits)
  show ?case
    using "2.IH" [OF q] step_last_use [OF q(1)] q(1) served_now_Cons [of ev evs] by simp
qed (simp add: served_now_def)

lemma sorted_last_max: "sorted xs \<Longrightarrow> x \<in> set xs \<Longrightarrow> x \<le> (last xs :: int)"
  by (induction xs) (auto split: if_splits)

section \<open>Properties\<close>

text \<open>
  C4. In every state the run loop can reach: it is ready exactly when it waits at its outer select and owns a
  command, and stopping exactly while a \<open>Stop\<close> kills the command it owns; requests have a handler exactly in these two
  states, that command's; otherwise it owns a command only while the end of the parent context kills it. A blocked
  \<open>Run\<close> caller is held only while a command is owned, \<open>WaitReady\<close> callers only while stopped or
  starting or while a start is given up for a shutdown; the published status is the state. A loop that has returned is shut down and holds nothing: no
  command, no handler, no caller.
\<close>
theorem process_lifecycle:
  assumes "proc_run evs new_process = Some p"
  shows "(pl_state p = StateReady \<longleftrightarrow> pl_phase p = AtSelect \<and> pl_cmd p \<noteq> None) \<and>
    (pl_state p = StateStopping \<longleftrightarrow> (\<exists>c forced stop. pl_phase p = Killing c forced (StopEnd stop) \<and> pl_cmd p = Some c)) \<and>
    (pl_handler p \<noteq> None \<longleftrightarrow> pl_state p \<in> {StateReady, StateStopping}) \<and> (pl_handler p \<noteq> None \<longrightarrow> pl_handler p = pl_cmd p) \<and>
    (serve_http p ignored = Unavailable \<longleftrightarrow> pl_state p \<notin> {StateReady, StateStopping}) \<and>
    (pl_cmd p \<noteq> None \<and> pl_handler p = None \<longrightarrow>
      pl_state p = StateShutdown \<and> (\<exists>c forced. pl_phase p = Killing c forced ParentEnd \<and> pl_cmd p = Some c)) \<and>
    (pl_run_resp p \<noteq> None \<longrightarrow> pl_cmd p \<noteq> None) \<and>
    (pl_ready_waiters p \<noteq> [] \<longrightarrow> pl_cmd p = None \<and> pl_phase p \<noteq> Returned) \<and>
    su_state (pl_status p) = pl_state p \<and> (su_since (pl_status p) \<noteq> None \<longleftrightarrow> pl_state p = StateReady) \<and>
    (pl_phase p = Returned \<longrightarrow> pl_state p = StateShutdown \<and> pl_cmd p = None \<and> pl_handler p = None \<and>
      pl_ready_waiters p = [] \<and> pl_run_resp p = None)"
proof -
  have inv: "proc_inv p" by (rule proc_run_inv [OF assms new_process_inv])
  show ?thesis
  proof (cases "pl_phase p")
    case (Awaiting en)
    with inv show ?thesis by (cases en) (auto simp: inv_defs serve_http_def)
  next
    case (Killing c forced en)
    with inv show ?thesis by (cases en) (auto simp: inv_defs serve_http_def)
  qed (use inv in \<open>auto simp: inv_defs serve_http_def split: option.splits\<close>)
qed

definition demo_run :: "proc_event list" where
  "demo_run = [WaitReadyReq 1, StartReq 10 \<lparr>sr_id = 2, sr_block = True\<rparr>, StartDone 20 21 (StartOk 7),
     ServeTrack, WaitReadyReq 3, ServeEnd 30, StopReq 40 4, KillTimeout, KillExit 45,
     StartReq 50 \<lparr>sr_id = 5, sr_block = False\<rparr>, ParentDone 60, StartDone 61 62 (StartOk 8), KillExit 63]"

lemmas demo_simps = demo_run_def new_process_def set_state_def respond_def notify_waiters_def respond_run_def
  kill_defs loop_defs run_kill_def on_wait_ready_def on_start_def on_stop_def launch_defs serve_defs Let_def

theorem process_lifecycle_witness:
  "\<exists>p q. proc_run (take 4 demo_run) new_process = Some p \<and> pl_state p = StateReady \<and> pl_handler p = Some 7 \<and>
    proc_run (take 8 demo_run) new_process = Some q \<and> pl_phase q = Killing 7 True (StopEnd 4) \<and>
    pl_state q = StateStopping \<and> serve_http q False \<noteq> Unavailable"
proof -
  obtain p where p: "proc_run (take 4 demo_run) new_process = Some p" "pl_phase p = AtSelect" "pl_handler p = Some 7" "pl_cmd p = Some 7"
    by (simp add: demo_simps)
  obtain q where q: "proc_run (take 8 demo_run) new_process = Some q" "pl_phase q = Killing 7 True (StopEnd 4)" "pl_cmd q = Some 7"
    by (simp add: demo_simps)
  from process_lifecycle [OF p(1)] process_lifecycle [OF q(1), of False] p q show ?thesis by auto
qed

text \<open>
  C21. The run loop answers every request exactly once: the requests received are those answered, those
  it still holds (waiting for readiness, a blocked \<open>Run\<close>, the start in progress), and at most one start
  request overtaken by the cancellation of the parent context, after which the loop has returned and
  the caller leaves by that context. Once the loop has returned nothing is held.
\<close>
theorem process_answers_once:
  assumes "proc_run evs new_process = Some p"
  shows "\<exists>lost. size lost \<le> 1 \<and> (lost \<noteq> {#} \<longrightarrow> pl_phase p = Returned) \<and>
    (pl_phase p = Returned \<longrightarrow> held p = {#}) \<and>
    mset (requests_of evs) = answered p + held p + lost"
proof -
  have inv: "proc_inv p" by (rule proc_run_inv [OF assms new_process_inv])
  then have none: "pl_phase p = Returned \<longrightarrow> held p = {#}"
    by (auto simp: proc_inv_def loop_ok_def held_def)
  have start: "answered new_process + held new_process = {#}"
    by (simp add: answered_def held_def new_process_def)
  obtain lost where "size lost \<le> 1" "lost \<noteq> {#} \<longrightarrow> pl_phase p = Returned"
    "answered p + held p + lost = answered new_process + held new_process + mset (requests_of evs)"
    using proc_run_answers [OF assms new_process_inv] by blast
  with none start show ?thesis by (metis add.left_neutral)
qed

theorem process_answers_once_witness:
  "\<exists>p lost. proc_run demo_run new_process = Some p \<and> size lost \<le> 1 \<and>
    mset [1, 2, 3, 4, 5] = answered p + held p + lost"
proof -
  obtain p where p: "proc_run demo_run new_process = Some p" by (simp add: demo_simps)
  have "requests_of demo_run = [1, 2, 3, 4, 5]" by (simp add: demo_run_def)
  with process_answers_once [OF p] p show ?thesis by metis
qed

text \<open>The answer a step gives to the callers that wait for readiness, if it settles the question.\<close>

fun ending_verdict :: "ending \<Rightarrow> proc_error" where
  "ending_verdict (StopEnd stop) = ProcStopped"
| "ending_verdict (AbortEnd stop req) = StartAborted"
| "ending_verdict en = ProcShutdown"

definition verdict :: "proc_event \<Rightarrow> proc \<Rightarrow> proc_error option option" where
  "verdict ev p =
     (case (pl_phase p, ev) of
        (Launching req, StartDone used now (StartOk c)) \<Rightarrow> Some None
      | (Launching req, StartDone used now (StartFailed e)) \<Rightarrow> Some (Some e)
      | (Awaiting en, StartDone used now (StartFailed e)) \<Rightarrow> Some (Some (ending_verdict en))
      | (Killing c forced en, KillExit now) \<Rightarrow> Some (Some (ending_verdict en))
      | (AtSelect, CmdDone now) \<Rightarrow> Some (Some ExitedUnexpectedly)
      | (AtSelect, ParentDone now) \<Rightarrow> if pl_cmd p = None then Some (Some ProcShutdown) else None
      | _ \<Rightarrow> None)"

text \<open>The callers that are told success although nothing became ready: of \<open>Stop\<close>, and of the \<open>Run\<close> it ends.\<close>

definition stop_callers :: "proc_event \<Rightarrow> proc \<Rightarrow> nat set" where
  "stop_callers ev p =
     (case (pl_phase p, ev) of
        (AtSelect, StopReq now stop) \<Rightarrow> {stop}
      | (Awaiting (AbortEnd stop req), StartDone used now res) \<Rightarrow> {stop}
      | (Killing c forced (AbortEnd stop req), KillExit now) \<Rightarrow> {stop}
      | (Killing c forced (StopEnd stop), KillExit now) \<Rightarrow> insert stop (set_option (pl_run_resp p))
      | _ \<Rightarrow> {})"

lemma step_answers_waiters:
  assumes "proc_inv p" and "proc_step ev p = Some p'"
  shows "\<exists>new. pl_answers p' = pl_answers p @ new \<and>
    (case verdict ev p of
       None \<Rightarrow> \<exists>ws. pl_ready_waiters p' = pl_ready_waiters p @ ws
     | Some a \<Rightarrow> pl_ready_waiters p' = [] \<and> (\<forall>w\<in>set (pl_ready_waiters p). (w, a) \<in> set new)) \<and>
    (\<forall>req a. pl_phase p = Launching req \<and> verdict ev p = Some a \<longrightarrow>
       (sr_id req, a) \<in> set new \<or> a = None \<and> sr_block req \<and> pl_run_resp p' = Some (sr_id req)) \<and>
    (\<forall>r. (r, None) \<in> set new \<longrightarrow> pl_state p' = StateReady \<or> r \<in> stop_callers ev p)"
  using assms(2)
proof (cases rule: proc_step_handlers)
  case (parent now)
  with assms(1) show ?thesis
    by (cases "pl_cmd p"; cases "pl_run_resp p") (auto simp: inv_defs verdict_def on_parent_done_def finish_parent_def Let_def)
next
  case (exited now c)
  with assms(1) show ?thesis by (cases "pl_run_resp p") (auto simp: inv_defs verdict_def on_cmd_done_def Let_def)
next
  case (wait w)
  with assms(1) show ?thesis by (auto simp: inv_defs verdict_def on_wait_ready_def)
next
  case (start now req)
  with assms(1) show ?thesis by (auto simp: inv_defs verdict_def on_start_def)
next
  case (stop now st)
  with assms(1) show ?thesis
    by (cases "pl_cmd p"; cases "pl_run_resp p") (auto simp: inv_defs verdict_def stop_callers_def on_stop_def loop_defs Let_def)
next
  case (finished used now res req)
  with assms(1) show ?thesis by (cases res) (auto simp: inv_defs verdict_def launch_defs Let_def)
next
  case (awaited used now res en)
  with assms(1) show ?thesis
    by (cases res; cases en; cases "pl_run_resp p")
       (auto simp: inv_defs verdict_def stop_callers_def loop_defs Let_def)
next
  case (killed now c forced en)
  with assms(1) show ?thesis
    by (cases en; cases "pl_run_resp p") (auto simp: inv_defs verdict_def stop_callers_def launch_defs loop_defs Let_def)
qed (simp_all add: verdict_def launch_defs serve_defs split: phase.splits)

lemma step_settles:
  assumes "proc_inv p" and "proc_step ev p = Some p'"
  shows "(pl_state p' \<noteq> pl_state p \<and> pl_state p' \<in> {StateReady, StateStopped} \<or>
      pl_phase p' = Returned \<and> pl_phase p \<noteq> Returned \<longrightarrow> verdict ev p \<noteq> None) \<and>
    (verdict ev p = Some None \<longleftrightarrow> pl_state p' = StateReady \<and> pl_state p \<noteq> StateReady)"
  using assms(2)
proof (cases rule: proc_step_handlers)
  case (parent now)
  with assms(1) show ?thesis by (cases "pl_cmd p") (auto simp: inv_defs verdict_def on_parent_done_def finish_parent_def Let_def)
next
  case (wait w)
  with assms(1) show ?thesis by (auto simp: inv_defs verdict_def on_wait_ready_def)
next
  case (stop now st)
  with assms(1) show ?thesis by (cases "pl_cmd p") (auto simp: inv_defs verdict_def on_stop_def loop_defs Let_def)
next
  case (finished used now res req)
  with assms(1) show ?thesis by (cases res) (auto simp: inv_defs verdict_def launch_defs Let_def)
next
  case (awaited used now res en)
  with assms(1) show ?thesis by (cases res; cases en) (auto simp: inv_defs verdict_def loop_defs Let_def)
next
  case (killed now c forced en)
  with assms(1) show ?thesis by (cases en) (auto simp: inv_defs verdict_def launch_defs loop_defs Let_def)
next
  case track
  then show ?thesis by (auto simp: verdict_def serve_defs split: phase.splits)
next
  case (serve_end now)
  then show ?thesis by (auto simp: verdict_def serve_defs split: phase.splits)
qed (use assms(1) in \<open>auto simp: inv_defs verdict_def select_defs launch_defs Let_def\<close>)



text \<open>
  C8. No command leaks. The commands that starts hand to the run loop are distinct; each of them is, at any time, the
  one the loop owns and has not touched, or the one it is killing, which has been sent the stop signal and, after the graceful
  timeout, the signal to its process tree, or it is gone: it was waited for and released, exactly once, after it exited by itself, after
  the stop signal, or after its process tree was killed. When the loop has returned, every one of them is gone.
  The loop never touches a command it was not handed.
\<close>
theorem process_no_leak:
  assumes "proc_run evs new_process = Some p" and "distinct (commands_of evs new_process)"
  shows "(\<forall>c\<in>set (commands_of evs new_process).
      pl_phase p = AtSelect \<and> pl_cmd p = Some c \<and> effects_on c p = [] \<or>
      (\<exists>forced en. pl_phase p = Killing c forced en \<and>
        effects_on c p = (if forced then [SignalSent c, TreeKilled c] else [SignalSent c])) \<or>
      effects_on c p \<in> {[Reaped c, Released c], [SignalSent c, Reaped c, Released c],
        [SignalSent c, TreeKilled c, Reaped c, Released c]}) \<and>
    (pl_phase p = Returned \<longrightarrow> (\<forall>c\<in>set (commands_of evs new_process).
      effects_on c p \<in> {[Reaped c, Released c], [SignalSent c, Reaped c, Released c],
        [SignalSent c, TreeKilled c, Reaped c, Released c]})) \<and>
    (\<forall>c. c \<notin> set (commands_of evs new_process) \<longrightarrow> effects_on c p = [] \<and> pl_cmd p \<noteq> Some c)"
proof -
  have inv: "proc_inv p" by (rule proc_run_inv [OF assms(1) new_process_inv])
  have "untouched c new_process" for c by (simp add: untouched_def new_process_def effects_on_def)
  note run = proc_run_commands [OF assms(1) new_process_inv this assms(2)]
  have acc: "accounted c p" if "c \<in> set (commands_of evs new_process)" for c using run [of c] that by simp
  have unt: "untouched c p" if "c \<notin> set (commands_of evs new_process)" for c using run [of c] that by simp
  have "(case pl_phase p of AtSelect \<Rightarrow> True | Killing k forced en \<Rightarrow> True | _ \<Rightarrow> pl_cmd p = None)"
    using inv by (auto simp: inv_defs split: phase.splits ending.splits)
  note owned = this
  have any: "pl_phase p = AtSelect \<and> pl_cmd p = Some c \<and> effects_on c p = [] \<or>
      (\<exists>forced en. pl_phase p = Killing c forced en \<and>
        effects_on c p = (if forced then [SignalSent c, TreeKilled c] else [SignalSent c])) \<or> effects_on c p \<in> gone c"
    if "c \<in> set (commands_of evs new_process)" for c
    using acc [OF that] owned by (cases "pl_phase p") (auto simp: accounted_def split: if_splits)
  have end_of: "effects_on c p \<in> gone c" if "pl_phase p = Returned" "c \<in> set (commands_of evs new_process)" for c
    using acc [OF that(2)] owned that(1) by (simp add: accounted_def)
  show ?thesis
    unfolding gone_def [symmetric] using any end_of unt by (simp add: untouched_def)
qed

theorem process_no_leak_witness:
  "\<exists>p. proc_run demo_run new_process = Some p \<and> commands_of demo_run new_process = [7, 8] \<and>
    effects_on 7 p = [SignalSent 7, TreeKilled 7, Reaped 7, Released 7] \<and>
    effects_on 8 p \<in> {[Reaped 8, Released 8], [SignalSent 8, Reaped 8, Released 8],
      [SignalSent 8, TreeKilled 8, Reaped 8, Released 8]}"
proof -
  obtain p where p: "proc_run demo_run new_process = Some p" "pl_phase p = Returned"
      "effects_on 7 p = [SignalSent 7, TreeKilled 7, Reaped 7, Released 7]"
    by (simp add: demo_simps effects_on_def)
  have c: "commands_of demo_run new_process = [7, 8]" by (simp add: demo_simps handed_over_def)
  then have "distinct (commands_of demo_run new_process)" by simp
  from process_no_leak [OF p(1) this] p c show ?thesis by simp
qed

text \<open>
  The ticker stops a process only when it is ready, no tracked request is being served, and more than
  the configured time has passed since it became ready and since every tracked request ended (clock
  readings in the order of the steps).
\<close>
lemma ttl_unloads_idle:
  assumes "proc_run evs new_process = Some p" and "sorted (uses evs new_process)" and "ttl_tick ttl now p = TickerStops"
  shows "pl_state p = StateReady \<and> served_now evs = 0 \<and> (\<forall>t \<in> set (uses evs new_process). ttl < now - t)"
proof -
  have ready: "pl_state p = StateReady" and flight: "pl_inflight p = 0" and use: "ttl < now - pl_last_use p"
    using assms(3) by (auto simp: ttl_tick_def split: if_splits)
  have run: "pl_last_use p = (if uses evs new_process = [] then 0 else last (uses evs new_process))" "pl_inflight p = served_now evs"
    using proc_run_last_use [OF assms(1)] by (simp_all add: new_process_def)
  have "ttl < now - t" if "t \<in> set (uses evs new_process)" for t
    using sorted_last_max [OF assms(2) that] that use run(1) by (cases "uses evs new_process") auto
  with ready flight run(2) show ?thesis by auto
qed

end
