(* ===== verification/History.thy ===== *)
theory History
  imports Prelude "HOL-Library.Word" "HOL-Library.Sublist"
begin

text \<open>
  Bounded histories. The interface \<open>bounded_history\<close> says what a buffer that overwrites its oldest
  content promises; the ring of \<open>internal/ring/buffer.go\<close> and the circular byte buffer of
  \<open>internal/logmon/logging.go\<close> implement it. On the latter stands the log monitor of the same file: a
  history, and a broadcast queue that never blocks the writer but counts what it drops.
\<close>

locale bounded_history =
  fixes ok :: "'s \<Rightarrow> bool" and capacity :: "'s \<Rightarrow> nat" and put :: "'a list \<Rightarrow> 's \<Rightarrow> 's" and history :: "'s \<Rightarrow> 'a list"
  assumes ok_put: "ok s \<Longrightarrow> ok (put xs s)"
    and capacity_put: "ok s \<Longrightarrow> capacity (put xs s) = capacity s"
    and history_put: "ok s \<Longrightarrow> history (put xs s) = lastn (capacity s) (history s @ xs)"
    and history_fits: "ok s \<Longrightarrow> length (history s) \<le> capacity s"
begin

lemma fold_put:
  "ok s \<Longrightarrow> ok (fold put xss s) \<and> capacity (fold put xss s) = capacity s \<and>
    history (fold put xss s) = lastn (capacity s) (history s @ concat xss)"
proof (induction xss arbitrary: s)
  case Nil
  then show ?case using history_fits by simp
next
  case (Cons xs xss)
  from Cons.IH [OF ok_put [OF Cons.prems, of xs]] Cons.prems show ?case
    by (simp add: capacity_put history_put lastn_lastn_append)
qed

lemma history_from_empty:
  "ok s \<Longrightarrow> history s = [] \<Longrightarrow> history (fold put xss s) = lastn (capacity s) (concat xss)"
  using fold_put by simp

end

section \<open>The generic ring\<close>

record 'a ring =
  ri_buf :: "'a list"
  ri_head :: nat
  ri_size :: nat

definition ring_new :: "'a \<Rightarrow> int \<Rightarrow> 'a ring" where
  "ring_new zero capacity =
     \<lparr>ri_buf = replicate (nat (if capacity < 1 then 1 else capacity)) zero, ri_head = 0, ri_size = 0\<rparr>"

definition ring_push :: "'a \<Rightarrow> 'a ring \<Rightarrow> 'a ring" where
  "ring_push v r =
     (let cap = length (ri_buf r) in
      if ri_size r < cap
      then r\<lparr>ri_buf := (ri_buf r)[(ri_head r + ri_size r) mod cap := v], ri_size := ri_size r + 1\<rparr>
      else r\<lparr>ri_buf := (ri_buf r)[ri_head r := v], ri_head := (ri_head r + 1) mod cap\<rparr>)"

definition ring_slice :: "'a ring \<Rightarrow> 'a list" where
  "ring_slice r =
     (if ri_size r = 0 then []
      else map (\<lambda>i. ri_buf r ! ((ri_head r + i) mod length (ri_buf r))) [0..<ri_size r])"

definition ring_ok :: "'a ring \<Rightarrow> bool" where
  "ring_ok r \<longleftrightarrow> ri_head r < length (ri_buf r) \<and> ri_size r \<le> length (ri_buf r)"

lemma ring_slice_nth:
  "ring_slice r = map (\<lambda>i. ri_buf r ! ((ri_head r + i) mod length (ri_buf r))) [0..<ri_size r]"
  by (simp add: ring_slice_def)

lemma mod_shift:
  fixes h :: nat
  assumes "h < c" "i < c"
  shows "(h + i) mod c = (if h + i < c then h + i else h + i - c)"
  using assms by (auto simp: le_mod_geq not_less)

lemma mod_shift_neq:
  fixes h :: nat
  assumes "h < c" "i < c" "j < c" "i \<noteq> j"
  shows "(h + i) mod c \<noteq> (h + j) mod c"
  using assms by (auto simp: mod_shift)

lemma ring_push_ok: "ring_ok r \<Longrightarrow> ring_ok (ring_push v r)"
  by (auto simp: ring_ok_def ring_push_def Let_def intro!: mod_less_divisor intro: le_less_trans [OF le0])

lemma ring_push_capacity: "length (ri_buf (ring_push v r)) = length (ri_buf r)"
  by (simp add: ring_push_def Let_def)

lemma ring_slice_length [simp]: "length (ring_slice r) = ri_size r"
  by (simp add: ring_slice_nth)

lemma ring_push_slice:
  assumes "ring_ok r"
  shows "ring_slice (ring_push v r) = lastn (length (ri_buf r)) (ring_slice r @ [v])"
proof -
  let ?c = "length (ri_buf r)" and ?h = "ri_head r" and ?n = "ri_size r"
  have h: "?h < ?c" and n: "?n \<le> ?c" using assms by (simp_all add: ring_ok_def)
  show ?thesis
  proof (cases "?n < ?c")
    case True
    have "ring_slice (ring_push v r) = ring_slice r @ [v]"
    proof (rule nth_equalityI)
      show "length (ring_slice (ring_push v r)) = length (ring_slice r @ [v])"
        using True by (simp add: ring_push_def Let_def)
      fix i assume "i < length (ring_slice (ring_push v r))"
      then have i: "i < Suc ?n" using True by (simp add: ring_push_def Let_def)
      show "ring_slice (ring_push v r) ! i = (ring_slice r @ [v]) ! i"
      proof (cases "i = ?n")
        case eq: True
        have "(?h + ?n) mod ?c < ?c" using h by (intro mod_less_divisor) (cases "ri_buf r"; simp)
        with eq True h show ?thesis by (simp add: ring_slice_nth ring_push_def Let_def nth_append)
      next
        case False
        with i have "i < ?n" by simp
        with True h mod_shift_neq [OF h, of ?n i] show ?thesis
          by (simp add: ring_slice_nth ring_push_def Let_def nth_append del: upt_Suc)
      qed
    qed
    with True show ?thesis by simp
  next
    case False
    with n have full: "?n = ?c" by simp
    have "ring_slice (ring_push v r) = tl (ring_slice r) @ [v]"
    proof (rule nth_equalityI)
      show len: "length (ring_slice (ring_push v r)) = length (tl (ring_slice r) @ [v])"
        using full h by (simp add: ring_push_def Let_def)
      fix i assume "i < length (ring_slice (ring_push v r))"
      then have i: "i < ?c" using full by (simp add: ring_push_def Let_def)
      have idx: "((?h + 1) mod ?c + i) mod ?c = (?h + Suc i) mod ?c" by (simp add: mod_add_left_eq)
      show "ring_slice (ring_push v r) ! i = (tl (ring_slice r) @ [v]) ! i"
      proof (cases "Suc i = ?c")
        case True
        then have "(?h + Suc i) mod ?c = ?h" using h by simp
        moreover have "(tl (ring_slice r) @ [v]) ! i = v"
        proof -
          have "i = length (tl (ring_slice r))" using True full by simp
          then show ?thesis by (metis nth_append_length)
        qed
        ultimately show ?thesis
          using True full i h idx by (simp add: ring_slice_nth ring_push_def Let_def)
      next
        case False
        with i have lt: "Suc i < ?c" by simp
        then have "i < length (tl (ring_slice r))" using full by simp
        then have "(tl (ring_slice r) @ [v]) ! i = ring_slice r ! Suc i"
          by (simp only: nth_append if_True nth_tl)
        also have "\<dots> = ri_buf r ! ((?h + Suc i) mod ?c)"
          using lt full by (simp add: ring_slice_nth)
        finally have right: "(tl (ring_slice r) @ [v]) ! i = ri_buf r ! ((?h + Suc i) mod ?c)" .
        have "ri_buf r \<noteq> []" using h by auto
        then have "?h \<noteq> (?h + Suc i) mod ?c" using mod_shift_neq [OF h, of 0 "Suc i"] lt h by simp
        moreover have "ring_slice (ring_push v r) ! i = (ri_buf r)[?h := v] ! (((?h + 1) mod ?c + i) mod ?c)"
          using full i by (simp add: ring_slice_nth ring_push_def Let_def)
        ultimately show ?thesis using right idx by simp
      qed
    qed
    moreover have "lastn ?c (ring_slice r @ [v]) = tl (ring_slice r) @ [v]"
    proof -
      have "length (ring_slice r) = ?c" using full by simp
      then obtain x xs where slice: "ring_slice r = x # xs" using h by (cases "ring_slice r") auto
      with \<open>length (ring_slice r) = ?c\<close> have c: "?c = Suc (length xs)" by simp
      show ?thesis unfolding slice lastn_def c by simp
    qed
    ultimately show ?thesis by simp
  qed
qed

definition ring_push_all :: "'a list \<Rightarrow> 'a ring \<Rightarrow> 'a ring" where
  "ring_push_all xs r = fold ring_push xs r"

lemma ring_push_all_spec:
  "ring_ok r \<Longrightarrow> ring_ok (ring_push_all xs r) \<and> length (ri_buf (ring_push_all xs r)) = length (ri_buf r) \<and>
    ring_slice (ring_push_all xs r) = lastn (length (ri_buf r)) (ring_slice r @ xs)"
proof (induction xs arbitrary: r)
  case Nil
  then show ?case by (simp add: ring_push_all_def ring_ok_def)
next
  case (Cons x xs)
  from Cons.IH [OF ring_push_ok [OF Cons.prems, of x]] Cons.prems show ?case
    using lastn_lastn_append [of "length (ri_buf r)" "ring_slice r @ [x]" xs]
    by (simp add: ring_push_all_def ring_push_capacity ring_push_slice)
qed

interpretation ring: bounded_history ring_ok "\<lambda>r. length (ri_buf r)" ring_push_all ring_slice
  using ring_push_all_spec by unfold_locales (auto simp: ring_ok_def)

lemma ring_new_length: "length (ri_buf (ring_new z c)) = nat (max 1 c)"
  by (simp add: ring_new_def max_def)

lemma ring_new_ok [simp]: "ring_ok (ring_new z c)" and ring_new_empty [simp]: "ring_slice (ring_new z c) = []"
  by (auto simp: ring_ok_def ring_new_def ring_slice_def)

section \<open>The circular byte buffer\<close>

record cbuf =
  cb_data :: string
  cb_head :: nat
  cb_size :: nat

text \<open>Go's \<open>copy(dst[i:], src)\<close>.\<close>

definition copy_at :: "nat \<Rightarrow> 'a list \<Rightarrow> 'a list \<Rightarrow> 'a list" where
  "copy_at i src dst = take i dst @ take (length dst - i) src @ drop (i + length src) dst"

definition new_circular_buffer :: "nat \<Rightarrow> cbuf" where
  "new_circular_buffer capacity = \<lparr>cb_data = replicate capacity (CHR 0x00), cb_head = 0, cb_size = 0\<rparr>"

definition cb_write :: "string \<Rightarrow> cbuf \<Rightarrow> cbuf" where
  "cb_write p cb =
     (if p = [] then cb
      else
        (let cap = length (cb_data cb); n = length p in
         if cap \<le> n then \<lparr>cb_data = copy_at 0 (drop (n - cap) p) (cb_data cb), cb_head = 0, cb_size = cap\<rparr>
         else
           (let first = cap - cb_head cb;
                cb' = (if n \<le> first
                  then cb\<lparr>cb_data := copy_at (cb_head cb) p (cb_data cb), cb_head := (cb_head cb + n) mod cap\<rparr>
                  else cb\<lparr>cb_data := copy_at 0 (drop first p) (copy_at (cb_head cb) (take first p) (cb_data cb)),
                          cb_head := n - first\<rparr>)
            in cb'\<lparr>cb_size := (if cap < cb_size cb' + n then cap else cb_size cb' + n)\<rparr>)))"

text \<open>The index is not negative, since the size is at most the capacity.\<close>

definition get_history :: "cbuf \<Rightarrow> string" where
  "get_history cb =
     (if cb_size cb = 0 then []
      else
        (let cap = length (cb_data cb); start = (cb_head cb + cap - cb_size cb) mod cap in
         if start + cb_size cb \<le> cap then take (cb_size cb) (drop start (cb_data cb))
         else drop start (cb_data cb) @ take (cb_size cb - (cap - start)) (cb_data cb)))"

definition cb_ok :: "cbuf \<Rightarrow> bool" where
  "cb_ok cb \<longleftrightarrow> (cb_head cb < length (cb_data cb) \<or> cb_data cb = [] \<and> cb_head cb = 0) \<and> cb_size cb \<le> length (cb_data cb)"

text \<open>The data from the oldest byte to the newest.\<close>

definition unrolled :: "cbuf \<Rightarrow> string" where
  "unrolled cb = drop (cb_head cb) (cb_data cb) @ take (cb_head cb) (cb_data cb)"

lemma get_history_unrolled:
  assumes "cb_ok cb"
  shows "get_history cb = lastn (cb_size cb) (unrolled cb)"
proof (cases "cb_size cb = 0")
  case False
  let ?c = "length (cb_data cb)" and ?h = "cb_head cb" and ?n = "cb_size cb"
  have b: "?h < ?c" "?n \<le> ?c" using assms False by (auto simp: cb_ok_def)
  show ?thesis
  proof (cases "?n \<le> ?h")
    case True
    then have "(?h + ?c - ?n) mod ?c = ?h - ?n" using b False
      by (simp add: mod_if [of "?h + ?c - ?n"])
    with b False True show ?thesis
      by (simp add: get_history_def Let_def unrolled_def lastn_append_le lastn_def take_drop min_def)
  next
    case lt: False
    then have s: "(?h + ?c - ?n) mod ?c = ?h + ?c - ?n" using b by simp
    show ?thesis
    proof (cases "?h = 0")
      case True
      with b lt s show ?thesis by (simp add: get_history_def Let_def unrolled_def lastn_def)
    next
      case False
      with b lt s show ?thesis
        by (simp add: get_history_def Let_def unrolled_def lastn_def add.commute)
    qed
  qed
qed (simp add: get_history_def)

lemma copy_at_length [simp]: "i \<le> length dst \<Longrightarrow> length (copy_at i src dst) = length dst"
  by (simp add: copy_at_def)

text \<open>A write shorter than the buffer moves its content along.\<close>

lemma cb_write_unrolled:
  assumes "cb_ok cb" "p \<noteq> []" "length p < length (cb_data cb)"
  shows "cb_head (cb_write p cb) < length (cb_data cb) \<and> length (cb_data (cb_write p cb)) = length (cb_data cb) \<and>
    cb_size (cb_write p cb) = min (length (cb_data cb)) (cb_size cb + length p) \<and>
    unrolled (cb_write p cb) = drop (length p) (unrolled cb) @ p"
proof -
  let ?d = "cb_data cb" and ?c = "length (cb_data cb)" and ?h = "cb_head cb" and ?n = "length p"
  have h: "?h < ?c" using assms by (auto simp: cb_ok_def)
  show ?thesis
  proof (cases "?n \<le> ?c - ?h")
    case True
    have w: "cb_data (cb_write p cb) = take ?h ?d @ p @ drop (?h + ?n) ?d"
      "cb_head (cb_write p cb) = (?h + ?n) mod ?c" "cb_size (cb_write p cb) = min ?c (cb_size cb + ?n)"
      using assms True h by (auto simp: cb_write_def Let_def copy_at_def min_def)
    show ?thesis
    proof (cases "?h + ?n = ?c")
      case eq: True
      then have "(?h + ?n) mod ?c = 0" by simp
      then show ?thesis using w eq h True by (cases "cb_data cb") (simp_all add: unrolled_def)
    next
      case False
      then have "?h + ?n < ?c" using True h by simp
      then have "(?h + ?n) mod ?c = ?h + ?n" by simp
      with w \<open>?h + ?n < ?c\<close> h show ?thesis by (simp add: unrolled_def min_def add.commute)
    qed
  next
    case False
    let ?f = "?c - ?h"
    have w: "cb_data (cb_write p cb) = drop ?f p @ drop (?n - ?f) (take ?h ?d) @ take ?f p"
      "cb_head (cb_write p cb) = ?n - ?f" "cb_size (cb_write p cb) = min ?c (cb_size cb + ?n)"
      using assms False h by (auto simp: cb_write_def Let_def copy_at_def min_def)
    have "unrolled (cb_write p cb) = drop (?n - ?f) (take ?h ?d) @ take ?f p @ drop ?f p"
      using w False by (simp add: unrolled_def)
    also have "\<dots> = drop ?n (unrolled cb) @ p" using False by (simp add: unrolled_def)
    finally show ?thesis using w False h assms(3) by simp
  qed
qed

lemma cb_write_spec:
  assumes "cb_ok cb"
  shows "cb_ok (cb_write p cb) \<and> length (cb_data (cb_write p cb)) = length (cb_data cb) \<and>
    get_history (cb_write p cb) = lastn (length (cb_data cb)) (get_history cb @ p)"
proof -
  let ?c = "length (cb_data cb)" and ?n = "length p"
  have size: "cb_size cb \<le> ?c" using assms by (simp add: cb_ok_def)
  have len: "length (unrolled cb) = ?c" using assms by (auto simp: unrolled_def cb_ok_def)
  have fits: "length (get_history cb) \<le> ?c" using get_history_unrolled [OF assms] len by simp
  show ?thesis
  proof (cases "p = []")
    case True
    with assms fits show ?thesis by (simp add: cb_write_def)
  next
    case p: False
    show ?thesis
    proof (cases "?c \<le> ?n")
      case True
      have w: "cb_write p cb = \<lparr>cb_data = lastn ?c p, cb_head = 0, cb_size = ?c\<rparr>"
        using p True by (simp add: cb_write_def copy_at_def lastn_def Let_def)
      have ok: "cb_ok (cb_write p cb)" using True w by (auto simp: cb_ok_def)
      from get_history_unrolled [OF ok] w True have "get_history (cb_write p cb) = lastn ?c p"
        by (simp add: unrolled_def)
      with ok w True show ?thesis by (simp add: lastn_append_le)
    next
      case False
      then have lt: "?n < ?c" by simp
      note w = cb_write_unrolled [OF assms p lt]
      then have ok: "cb_ok (cb_write p cb)" by (simp add: cb_ok_def)
      have "lastn (min ?c (cb_size cb + ?n)) (drop ?n (unrolled cb) @ p) = lastn ?c (lastn (cb_size cb) (unrolled cb) @ p)"
        using size len lt by (auto simp: lastn_append_ge lastn_def min_def)
      with ok w get_history_unrolled [OF ok] get_history_unrolled [OF assms] show ?thesis by simp
    qed
  qed
qed

interpretation log: bounded_history cb_ok "\<lambda>cb. length (cb_data cb)" cb_write get_history
proof
  show "length (get_history cb) \<le> length (cb_data cb)" if "cb_ok cb" for cb
    using get_history_unrolled [OF that] that by (auto simp: unrolled_def cb_ok_def)
qed (simp_all add: cb_write_spec)

lemma new_circular_buffer_ok [simp]: "cb_ok (new_circular_buffer n)"
  and new_circular_buffer_empty [simp]: "get_history (new_circular_buffer n) = []"
  by (auto simp: cb_ok_def new_circular_buffer_def get_history_def)

section \<open>The log monitor\<close>

datatype level = LevelDebug | LevelInfo | LevelWarn | LevelError

definition level_rank :: "level \<Rightarrow> nat" where
  "level_rank l = (case l of LevelDebug \<Rightarrow> 0 | LevelInfo \<Rightarrow> 1 | LevelWarn \<Rightarrow> 2 | LevelError \<Rightarrow> 3)"

definition level_string :: "level \<Rightarrow> string" where
  "level_string l = (case l of LevelDebug \<Rightarrow> ''DEBUG'' | LevelInfo \<Rightarrow> ''INFO'' | LevelWarn \<Rightarrow> ''WARN'' | LevelError \<Rightarrow> ''ERROR'')"

definition buffer_size :: nat where
  "buffer_size = 100 * 1024"

definition broadcast_capacity :: nat where
  "broadcast_capacity = 1024"

text \<open>What the event bus is given: data, or the notice of a number of dropped bytes.\<close>

datatype published = PubData string | PubDropped "64 word"

record monitor =
  mo_stdout :: string
  mo_buffer :: "cbuf option"
  mo_queue :: "string list"
  mo_dropped :: "64 word"
  mo_published :: "published list"
  mo_level :: level
  mo_prefix :: string
  mo_time_format :: string

definition new_monitor :: monitor where
  "new_monitor = \<lparr>mo_stdout = [], mo_buffer = None, mo_queue = [], mo_dropped = 0, mo_published = [],
     mo_level = LevelInfo, mo_prefix = [], mo_time_format = []\<rparr>"

text \<open>
  \<open>Write\<close>, with the outcome of the underlying writer: \<open>None\<close> when it takes all bytes, otherwise the
  number it took before it failed. The result is the count returned, and whether an error is.
\<close>

definition monitor_write :: "nat option \<Rightarrow> string \<Rightarrow> monitor \<Rightarrow> (nat \<times> bool) \<times> monitor" where
  "monitor_write failed p w =
     (if p = [] then ((0, False), w)
      else (case failed of
          Some n \<Rightarrow> ((n, True), w\<lparr>mo_stdout := mo_stdout w @ take n p\<rparr>)
        | None \<Rightarrow>
            (let w1 = w\<lparr>mo_stdout := mo_stdout w @ p,
                       mo_buffer := Some (cb_write p (case mo_buffer w of None \<Rightarrow> new_circular_buffer buffer_size | Some b \<Rightarrow> b))\<rparr>
             in ((length p, False),
                 if length (mo_queue w1) < broadcast_capacity then w1\<lparr>mo_queue := mo_queue w1 @ [p]\<rparr>
                 else w1\<lparr>mo_dropped := mo_dropped w1 + of_nat (length p)\<rparr>))))"

definition monitor_history :: "monitor \<Rightarrow> string" where
  "monitor_history w = (case mo_buffer w of None \<Rightarrow> [] | Some b \<Rightarrow> get_history b)"

definition monitor_clear :: "monitor \<Rightarrow> monitor" where
  "monitor_clear w = w\<lparr>mo_buffer := None\<rparr>"

text \<open>One round of \<open>broadcastLoop\<close>.\<close>

definition broadcast_step :: "monitor \<Rightarrow> monitor option" where
  "broadcast_step w =
     (case mo_queue w of [] \<Rightarrow> None
      | msg # rest \<Rightarrow>
          Some (w\<lparr>mo_queue := rest, mo_dropped := 0,
            mo_published := mo_published w @ (if 0 < mo_dropped w then [PubDropped (mo_dropped w)] else []) @ [PubData msg]\<rparr>))"

definition format_message :: "string \<Rightarrow> monitor \<Rightarrow> string \<Rightarrow> string \<Rightarrow> string" where
  "format_message now w lev msg =
     (let prefix = (if mo_prefix w \<noteq> [] then ''['' @ mo_prefix w @ ''] '' else []);
          timestamp = (if mo_time_format w \<noteq> [] then now @ '' '' else [])
      in timestamp @ prefix @ ''['' @ lev @ ''] '' @ msg @ ''\<newline>'')"

definition monitor_log :: "string \<Rightarrow> nat option \<Rightarrow> level \<Rightarrow> string \<Rightarrow> monitor \<Rightarrow> monitor" where
  "monitor_log now failed lev msg w =
     (if level_rank lev < level_rank (mo_level w) then w
      else snd (monitor_write failed (format_message now w (level_string lev) msg) w))"

definition set_prefix :: "string \<Rightarrow> monitor \<Rightarrow> monitor" where
  "set_prefix s w = w\<lparr>mo_prefix := s\<rparr>"

definition set_log_level :: "level \<Rightarrow> monitor \<Rightarrow> monitor" where
  "set_log_level l w = w\<lparr>mo_level := l\<rparr>"

definition set_log_time_format :: "string \<Rightarrow> monitor \<Rightarrow> monitor" where
  "set_log_time_format s w = w\<lparr>mo_time_format := s\<rparr>"

text \<open>Operations on a monitor, as its callers and the broadcast goroutine interleave them.\<close>

datatype monitor_op = OpWrite "nat option" string | OpClear | OpBroadcast

fun monitor_step :: "monitor_op \<Rightarrow> monitor \<Rightarrow> monitor" where
  "monitor_step (OpWrite failed p) w = snd (monitor_write failed p w)"
| "monitor_step OpClear w = monitor_clear w"
| "monitor_step OpBroadcast w = (case broadcast_step w of None \<Rightarrow> w | Some w' \<Rightarrow> w')"

text \<open>The chunks written without error, all of them and those since the last clear.\<close>

fun chunks :: "monitor_op list \<Rightarrow> string list" where
  "chunks [] = []"
| "chunks (OpWrite None p # ops) = (if p = [] then chunks ops else p # chunks ops)"
| "chunks (_ # ops) = chunks ops"

fun since_clear :: "monitor_op list \<Rightarrow> string \<Rightarrow> string" where
  "since_clear [] acc = acc"
| "since_clear (OpWrite None p # ops) acc = since_clear ops (acc @ p)"
| "since_clear (OpClear # ops) acc = since_clear ops []"
| "since_clear (_ # ops) acc = since_clear ops acc"

fun pub_data :: "published \<Rightarrow> string list" where
  "pub_data (PubData d) = [d]"
| "pub_data (PubDropped n) = []"

fun pub_bytes :: "published \<Rightarrow> 64 word" where
  "pub_bytes (PubData d) = of_nat (length d)"
| "pub_bytes (PubDropped n) = n"

definition sent :: "monitor \<Rightarrow> string list" where
  "sent w = concat (map pub_data (mo_published w)) @ mo_queue w"

definition accounted :: "monitor \<Rightarrow> 64 word" where
  "accounted w = sum_list (map pub_bytes (mo_published w)) +
     sum_list (map (\<lambda>d. of_nat (length d)) (mo_queue w)) + mo_dropped w"

definition monitor_ok :: "monitor \<Rightarrow> bool" where
  "monitor_ok w \<longleftrightarrow> (\<forall>b. mo_buffer w = Some b \<longrightarrow> cb_ok b \<and> length (cb_data b) = buffer_size) \<and>
     length (mo_queue w) \<le> broadcast_capacity"

lemma new_circular_buffer_length [simp]: "length (cb_data (new_circular_buffer n)) = n"
  by (simp add: new_circular_buffer_def)

lemma monitor_step_ok [inv_intro]: "monitor_ok w \<Longrightarrow> monitor_ok (monitor_step opr w)"
  by (cases opr)
     (auto simp: monitor_ok_def monitor_write_def monitor_clear_def broadcast_step_def Let_def
        log.ok_put log.capacity_put split: option.splits list.splits)

lemma monitor_step_history:
  assumes "monitor_ok w" and "monitor_history w = lastn buffer_size acc"
  shows "monitor_history (monitor_step opr w) = lastn buffer_size (since_clear [opr] acc)"
proof (cases opr)
  case (OpWrite failed p)
  with assms show ?thesis
    using log.history_put [of "new_circular_buffer buffer_size" p]
    by (cases "mo_buffer w"; cases failed)
       (auto simp: monitor_ok_def monitor_write_def monitor_history_def Let_def
         log.history_put lastn_lastn_append [of buffer_size acc p, symmetric])
qed (use assms in \<open>auto simp: monitor_clear_def monitor_history_def broadcast_step_def split: list.splits\<close>)

lemma since_clear_Cons: "since_clear (opr # ops) acc = since_clear ops (since_clear [opr] acc)"
  by (cases opr; cases "case opr of OpWrite f p \<Rightarrow> f | _ \<Rightarrow> None") simp_all

lemma chunks_Cons: "chunks (opr # ops) = chunks [opr] @ chunks ops"
  by (cases opr; cases "case opr of OpWrite f p \<Rightarrow> f | _ \<Rightarrow> None") simp_all

lemma monitor_run_history:
  "monitor_ok w \<Longrightarrow> monitor_history w = lastn buffer_size acc \<Longrightarrow>
    monitor_ok (fold monitor_step ops w) \<and>
    monitor_history (fold monitor_step ops w) = lastn buffer_size (since_clear ops acc)"
proof (induction ops arbitrary: w acc)
  case (Cons opr ops)
  from Cons.IH [OF monitor_step_ok [OF Cons.prems(1)] monitor_step_history [OF Cons.prems]]
  show ?case by (simp add: since_clear_Cons [of opr ops])
qed simp

lemma monitor_step_sent:
  "subseq (sent (monitor_step opr w)) (sent w @ chunks [opr]) \<and>
    accounted (monitor_step opr w) = accounted w + of_nat (length (concat (chunks [opr])))"
proof (cases opr)
  case (OpWrite failed p)
  then show ?thesis
    by (cases failed) (auto simp: monitor_write_def sent_def accounted_def Let_def)
qed (auto simp: monitor_clear_def broadcast_step_def sent_def accounted_def word_neq_0_conv [symmetric] split: list.splits)

lemma monitor_run_sent:
  "subseq (sent (fold monitor_step ops w)) (sent w @ chunks ops) \<and>
    accounted (fold monitor_step ops w) = accounted w + of_nat (length (concat (chunks ops)))"
proof (induction ops arbitrary: w)
  case (Cons opr ops)
  let ?w = "monitor_step opr w"
  have "subseq (sent ?w @ chunks ops) ((sent w @ chunks [opr]) @ chunks ops)"
    using monitor_step_sent [of opr w] by (intro list_emb_append_mono) auto
  with Cons.IH [of ?w] have "subseq (sent (fold monitor_step ops ?w)) (sent w @ chunks (opr # ops))"
    by (metis append.assoc chunks_Cons subseq_order.trans)
  with Cons.IH [of ?w] monitor_step_sent [of opr w] show ?case by (simp add: chunks_Cons [of opr ops])
qed simp

section \<open>Properties\<close>

text \<open>
  The histories are bounded and keep what is newest: a ring of any requested capacity holds the last
  entries pushed, and the circular byte buffer the last bytes written, whatever the sizes of the writes.
\<close>
lemma bounded_histories:
  "ring_slice (ring_push_all xs (ring_new z c)) = lastn (nat (max 1 c)) xs \<and>
   get_history (fold cb_write ps (new_circular_buffer n)) = lastn n (concat ps)"
  using ring.history_put [of "ring_new z c" xs] log.history_from_empty [of "new_circular_buffer n" ps]
  by (simp add: ring_new_length)

text \<open>
  Under any interleaving of writes, clears and broadcast rounds the log monitor keeps exactly the last 100
  KiB written since the last clear; its subscribers get chunks in the order written; and every byte
  written is published, queued, or counted as dropped (in the 64-bit counter), while the writer never waits.
\<close>
lemma monitor_keeps_and_accounts:
  "monitor_history (fold monitor_step ops new_monitor) = lastn buffer_size (since_clear ops []) \<and>
   subseq (sent (fold monitor_step ops new_monitor)) (chunks ops) \<and>
   accounted (fold monitor_step ops new_monitor) = of_nat (length (concat (chunks ops))) \<and>
   length (mo_queue (fold monitor_step ops new_monitor)) \<le> broadcast_capacity"
proof -
  have "monitor_ok new_monitor" "monitor_history new_monitor = lastn buffer_size []"
    by (simp_all add: monitor_ok_def new_monitor_def monitor_history_def lastn_def)
  from monitor_run_history [OF this, of ops] monitor_run_sent [of ops new_monitor]
  show ?thesis by (simp add: monitor_ok_def sent_def accounted_def new_monitor_def)
qed

end
