(* ===== verification/Inflight.thy ===== *)
theory Inflight
  imports Prelude "HOL-Library.Word" "HOL-Library.Product_Lexorder"
begin

text \<open>
  The tracker of requests in progress, \<open>internal/server/inflight.go\<close>: mutations under a mutex, a bounded
  queue of updates, and a publisher goroutine that is started on demand and recovers from dropped updates by a
  snapshot. The steps are the atomic actions of the code, so that the interleavings of a mutation with the
  publisher, which does not hold the mutex, are those of the program. The time a request has taken, which is
  computed when an entry is copied, is not part of the entries here.
\<close>

record ientry =
  ie_timestamp :: int
  ie_path :: string
  ie_method :: string
  ie_req_headers :: "(string \<times> string) list"
  ie_remote :: string
  ie_model :: string
  ie_metadata :: "(string \<times> string) list"
  ie_resp_headers :: "(string \<times> string) list"
  ie_resp_bytes :: int

record irequest =
  ir_entry :: ientry
  ir_last :: int
  ir_timer :: bool
  ir_cancelled :: bool

datatype iupdate = Upsert string ientry | Removed string | SnapshotOf "(string \<times> ientry) list"

text \<open>
  Who holds the mutex: nobody, a mutation whose update did not fit into the queue, or one whose update is queued
  (or, after the flag is set, replaced by a snapshot to come). The publisher: at its loop, at the check for a
  snapshot, discarding queued updates, about to read the tracker, or about to publish what it read.
\<close>

datatype mutex = MuFree | MuFull | MuQueued
datatype publisher = AtLoop | AtRecovery | Discarding | AtCurrent | Publishing "(string \<times> ientry) list"

record inflight =
  it_next :: "64 word"
  it_requests :: "(string \<times> irequest) list"
  it_updates :: "iupdate list"
  it_size :: nat
  it_needs :: bool
  it_running :: bool
  it_mutex :: mutex
  it_pub :: "publisher option"
  it_checking :: nat
  it_reclaiming :: nat
  it_published :: "iupdate list"

definition new_inflight :: "nat \<Rightarrow> inflight" where
  "new_inflight outbox = \<lparr>it_next = 0, it_requests = [], it_updates = [], it_size = outbox, it_needs = False,
     it_running = False, it_mutex = MuFree, it_pub = None, it_checking = 0, it_reclaiming = 0, it_published = []\<rparr>"

definition outbox_size :: nat where
  "outbox_size = 128"

definition update_interval :: int where
  "update_interval = 250000000"

section \<open>Mutations\<close>

text \<open>The send of \<open>enqueueLocked\<close>; the flag and the start of the publisher are the steps that follow.\<close>

definition enqueue_update :: "iupdate \<Rightarrow> inflight \<Rightarrow> inflight" where
  "enqueue_update u t =
     (if length (it_updates t) < it_size t
      then t\<lparr>it_updates := it_updates t @ [u], it_mutex := MuQueued\<rparr>
      else t\<lparr>it_mutex := MuFull\<rparr>)"

definition put_request :: "string \<Rightarrow> irequest \<Rightarrow> inflight \<Rightarrow> inflight" where
  "put_request k r t = t\<lparr>it_requests := AList.update k r (it_requests t)\<rparr>"

definition track_add :: "ientry \<Rightarrow> int \<Rightarrow> inflight \<Rightarrow> inflight" where
  "track_add e now t =
     (let k = decimal (unat (it_next t + 1));
          r = \<lparr>ir_entry = e\<lparr>ie_resp_headers := [], ie_resp_bytes := 0\<rparr>, ir_last = now, ir_timer = False, ir_cancelled = False\<rparr>
      in enqueue_update (Upsert k (ir_entry r)) (put_request k r (t\<lparr>it_next := it_next t + 1\<rparr>)))"

definition track_remove :: "string \<Rightarrow> inflight \<Rightarrow> inflight" where
  "track_remove k t =
     (case map_of (it_requests t) k of None \<Rightarrow> t
      | Some r \<Rightarrow> enqueue_update (Removed k) (t\<lparr>it_requests := AList.delete k (it_requests t)\<rparr>))"

definition set_response_headers :: "string \<Rightarrow> (string \<times> string) list \<Rightarrow> int \<Rightarrow> inflight \<Rightarrow> inflight" where
  "set_response_headers k hs now t =
     (case map_of (it_requests t) k of None \<Rightarrow> t
      | Some r \<Rightarrow>
          (let r' = r\<lparr>ir_entry := (ir_entry r)\<lparr>ie_resp_headers := hs\<rparr>, ir_last := now\<rparr>
           in enqueue_update (Upsert k (ir_entry r')) (put_request k r' t)))"

definition add_response_bytes :: "string \<Rightarrow> int \<Rightarrow> int \<Rightarrow> inflight \<Rightarrow> inflight" where
  "add_response_bytes k n now t =
     (if n \<le> 0 then t
      else case map_of (it_requests t) k of None \<Rightarrow> t
      | Some r \<Rightarrow>
          (let r1 = r\<lparr>ir_entry := (ir_entry r)\<lparr>ie_resp_bytes := wrap64 (ie_resp_bytes (ir_entry r) + n)\<rparr>\<rparr>;
               remaining = update_interval - (now - ir_last r1)
           in if remaining \<le> 0 \<and> \<not> ir_timer r1
              then enqueue_update (Upsert k (ir_entry r1)) (put_request k (r1\<lparr>ir_last := now\<rparr>) t)
              else put_request k (if \<not> ir_timer r1 then r1\<lparr>ir_timer := True\<rparr> else r1) t))"

definition emit_pending :: "string \<Rightarrow> int \<Rightarrow> inflight \<Rightarrow> inflight" where
  "emit_pending k now t =
     (case map_of (it_requests t) k of None \<Rightarrow> t
      | Some r \<Rightarrow> enqueue_update (Upsert k (ir_entry r)) (put_request k (r\<lparr>ir_timer := False, ir_last := now\<rparr>) t))"

definition cancel_request :: "string \<Rightarrow> inflight \<Rightarrow> bool \<times> inflight" where
  "cancel_request k t =
     (case map_of (it_requests t) k of None \<Rightarrow> (False, t)
      | Some r \<Rightarrow> (True, put_request k (r\<lparr>ir_cancelled := True\<rparr>) t))"

definition inflight_snapshot :: "inflight \<Rightarrow> (string \<times> ientry) list" where
  "inflight_snapshot t =
     sort_key (\<lambda>(k, e). (ie_timestamp e, k)) (map (\<lambda>(k, r). (k, ir_entry r)) (it_requests t))"

section \<open>The publisher\<close>

definition start_publisher :: "inflight \<Rightarrow> inflight" where
  "start_publisher t = (if it_running t then t else t\<lparr>it_running := True, it_pub := Some AtLoop\<rparr>)"

definition publish_step :: "inflight \<Rightarrow> inflight option" where
  "publish_step t =
     (case it_pub t of None \<Rightarrow> None
      | Some AtLoop \<Rightarrow>
          (case it_updates t of
             [] \<Rightarrow> Some (t\<lparr>it_running := False, it_pub := None, it_checking := it_checking t + 1\<rparr>)
           | u # us \<Rightarrow> Some (t\<lparr>it_updates := us, it_published := it_published t @ [u], it_pub := Some AtRecovery\<rparr>))
      | Some AtRecovery \<Rightarrow>
          Some (if it_needs t then t\<lparr>it_needs := False, it_pub := Some Discarding\<rparr> else t\<lparr>it_pub := Some AtLoop\<rparr>)
      | Some Discarding \<Rightarrow>
          (case it_updates t of
             [] \<Rightarrow> Some (t\<lparr>it_pub := Some AtCurrent\<rparr>)
           | u # us \<Rightarrow> Some (t\<lparr>it_updates := us\<rparr>))
      | Some AtCurrent \<Rightarrow>
          (if it_mutex t = MuFree then Some (t\<lparr>it_pub := Some (Publishing (inflight_snapshot t))\<rparr>) else None)
      | Some (Publishing s) \<Rightarrow>
          Some (t\<lparr>it_published := it_published t @ [SnapshotOf s], it_pub := Some AtRecovery\<rparr>))"

text \<open>A publisher that found the queue empty gives up its token, looks again, and reclaims the token if work has come.\<close>

definition check_again :: "inflight \<Rightarrow> inflight option" where
  "check_again t =
     (if it_checking t = 0 then None
      else Some (t\<lparr>it_checking := it_checking t - 1,
                    it_reclaiming := it_reclaiming t + (if it_updates t \<noteq> [] then 1 else 0)\<rparr>))"

definition reclaim :: "inflight \<Rightarrow> inflight option" where
  "reclaim t =
     (if it_reclaiming t = 0 then None else Some (start_publisher (t\<lparr>it_reclaiming := it_reclaiming t - 1\<rparr>)))"

datatype inflight_event =
    IAdd ientry int
  | IRemove string
  | IHeaders string "(string \<times> string) list" int
  | IBytes string int int
  | ITimer string int
  | ICancel string
  | IFlag
  | IStart
  | IPublish
  | ICheck
  | IReclaim

fun mutation :: "inflight_event \<Rightarrow> inflight \<Rightarrow> inflight" where
  "mutation (IAdd e now) t = track_add e now t"
| "mutation (IRemove k) t = track_remove k t"
| "mutation (IHeaders k hs now) t = set_response_headers k hs now t"
| "mutation (IBytes k n now) t = add_response_bytes k n now t"
| "mutation (ITimer k now) t = emit_pending k now t"
| "mutation (ICancel k) t = snd (cancel_request k t)"
| "mutation ev t = t"

fun inflight_step :: "inflight_event \<Rightarrow> inflight \<Rightarrow> inflight option" where
  "inflight_step IFlag t = (if it_mutex t = MuFull then Some (t\<lparr>it_needs := True, it_mutex := MuQueued\<rparr>) else None)"
| "inflight_step IStart t = (if it_mutex t = MuQueued then Some ((start_publisher t)\<lparr>it_mutex := MuFree\<rparr>) else None)"
| "inflight_step IPublish t = publish_step t"
| "inflight_step ICheck t = check_again t"
| "inflight_step IReclaim t = reclaim t"
| "inflight_step ev t = (if it_mutex t = MuFree then Some (mutation ev t) else None)"

fun inflight_run :: "inflight_event list \<Rightarrow> inflight \<Rightarrow> inflight option" where
  "inflight_run [] t = Some t"
| "inflight_run (ev # evs) t = (case inflight_step ev t of None \<Rightarrow> None | Some t' \<Rightarrow> inflight_run evs t')"

section \<open>What subscribers see\<close>

text \<open>
  Subscribers apply the published updates in order. An entry agrees with the tracker's when it is the same, but for
  the number of bytes while a timer to publish it is pending.
\<close>

fun apply_update :: "iupdate \<Rightarrow> (string \<rightharpoonup> ientry) \<Rightarrow> string \<rightharpoonup> ientry" where
  "apply_update (Upsert k e) m = m(k \<mapsto> e)"
| "apply_update (Removed k) m = m(k := None)"
| "apply_update (SnapshotOf s) m = map_of s"

definition subscribers_view :: "inflight \<Rightarrow> string \<rightharpoonup> ientry" where
  "subscribers_view t = fold apply_update (it_published t) Map.empty"

definition agrees :: "ientry option \<Rightarrow> irequest option \<Rightarrow> bool" where
  "agrees v r \<longleftrightarrow> (case r of None \<Rightarrow> v = None
     | Some r \<Rightarrow> if ir_timer r then \<exists>b. v = Some ((ir_entry r)\<lparr>ie_resp_bytes := b\<rparr>) else v = Some (ir_entry r))"

lemma agrees_simps [simp]:
  "agrees v None \<longleftrightarrow> v = None"
  "\<not> ir_timer r \<Longrightarrow> agrees v (Some r) \<longleftrightarrow> v = Some (ir_entry r)"
  by (simp_all add: agrees_def)

fun update_key :: "iupdate \<Rightarrow> string option" where
  "update_key (Upsert k e) = Some k"
| "update_key (Removed k) = Some k"
| "update_key (SnapshotOf s) = None"

definition concerns :: "string \<Rightarrow> iupdate list \<Rightarrow> bool" where
  "concerns k us \<longleftrightarrow> Some k \<in> update_key ` set us"

lemma apply_other: "update_key u \<noteq> None \<Longrightarrow> update_key u \<noteq> Some k \<Longrightarrow> apply_update u m k = m k"
  by (cases u) auto

lemma apply_same: "update_key u = Some k \<Longrightarrow> apply_update u m k = apply_update u m' k"
  by (cases u) auto

lemma apply_cong: "m k = m' k \<Longrightarrow> update_key u \<noteq> None \<Longrightarrow> apply_update u m k = apply_update u m' k"
  by (cases u) auto

lemma fold_apply_cong:
  "None \<notin> update_key ` set us \<Longrightarrow> m k = m' k \<Longrightarrow> fold apply_update us m k = fold apply_update us m' k"
proof (induction us arbitrary: m m')
  case (Cons u us)
  have "apply_update u m k = apply_update u m' k"
    using apply_cong [of m k m' u] Cons.prems by (cases "update_key u") auto
  with Cons.IH [of "apply_update u m" "apply_update u m'"] Cons.prems(1) show ?case by auto
qed simp

lemma fold_apply_other:
  "None \<notin> update_key ` set us \<Longrightarrow> \<not> concerns k us \<Longrightarrow> fold apply_update us m k = m k"
proof (induction us arbitrary: m)
  case (Cons u us)
  have "apply_update u m k = m k" by (rule apply_other) (use Cons.prems in \<open>auto simp: concerns_def\<close>)
  with Cons.IH [of "apply_update u m"] Cons.prems show ?case by (auto simp: concerns_def)
qed simp

lemma fold_apply_concerned:
  "None \<notin> update_key ` set us \<Longrightarrow> concerns k us \<Longrightarrow> fold apply_update us m k = fold apply_update us m' k"
proof (induction us arbitrary: m m')
  case (Cons u us)
  show ?case
  proof (cases "concerns k us")
    case True
    with Cons show ?thesis by auto
  next
    case False
    then have "update_key u = Some k" using Cons.prems(2) by (auto simp: concerns_def)
    from apply_same [OF this] have "apply_update u m k = apply_update u m' k" .
    moreover have "None \<notin> update_key ` set us" using Cons.prems(1) by auto
    ultimately show ?thesis using fold_apply_cong [of us "apply_update u m" k "apply_update u m'"] by simp
  qed
qed (simp add: concerns_def)

text \<open>
  The updates of a queue are the latest news when the last one for a key agrees with the tracker; a view is up to
  date with a queue when it agrees after the queue has been applied.
\<close>

definition latest_news :: "inflight \<Rightarrow> bool" where
  "latest_news t \<longleftrightarrow> (\<forall>k. concerns k (it_updates t) \<longrightarrow>
     agrees (fold apply_update (it_updates t) Map.empty k) (map_of (it_requests t) k))"

definition up_to_date :: "(string \<rightharpoonup> ientry) \<Rightarrow> inflight \<Rightarrow> bool" where
  "up_to_date view t \<longleftrightarrow> (\<forall>k. agrees (fold apply_update (it_updates t) view k) (map_of (it_requests t) k))"

lemma up_to_date_latest: "None \<notin> update_key ` set (it_updates t) \<Longrightarrow> up_to_date view t \<Longrightarrow> latest_news t"
  unfolding up_to_date_def latest_news_def using fold_apply_concerned by metis

definition inflight_inv :: "inflight \<Rightarrow> bool" where
  "inflight_inv t \<longleftrightarrow>
     None \<notin> update_key ` set (it_updates t) \<and> distinct (map fst (it_requests t)) \<and>
     (it_running t \<longleftrightarrow> it_pub t \<noteq> None) \<and>
     (it_updates t \<noteq> [] \<longrightarrow> it_running t \<or> 0 < it_checking t \<or> 0 < it_reclaiming t \<or> it_mutex t \<noteq> MuFree) \<and>
     (it_needs t \<or> it_mutex t = MuFull \<or>
       (case it_pub t of
          Some Discarding \<Rightarrow> True
        | Some AtCurrent \<Rightarrow> latest_news t
        | Some (Publishing s) \<Rightarrow> up_to_date (map_of s) t
        | _ \<Rightarrow> up_to_date (subscribers_view t) t))"

lemma new_inflight_inv: "inflight_inv (new_inflight n)"
  by (simp add: inflight_inv_def new_inflight_def up_to_date_def subscribers_view_def)

text \<open>A mutation changes the entry of one key, and queues the news of it or has no place for them.\<close>

lemma enqueue_update_inv:
  assumes "inflight_inv t" and "it_mutex t = MuFree" and "update_key u = Some k"
    and t': "it_updates t' = it_updates t" "it_needs t' = it_needs t" "it_pub t' = it_pub t" "it_running t' = it_running t"
      "it_size t' = it_size t" "it_checking t' = it_checking t" "it_reclaiming t' = it_reclaiming t" "it_published t' = it_published t"
    and d: "distinct (map fst (it_requests t'))"
    and other: "\<And>j. j \<noteq> k \<Longrightarrow> map_of (it_requests t') j = map_of (it_requests t) j"
    and news: "\<And>m. agrees (apply_update u m k) (map_of (it_requests t') k)"
  shows "inflight_inv (enqueue_update u t')"
proof (cases "length (it_updates t) < it_size t")
  case False
  with assms show ?thesis by (simp add: enqueue_update_def inflight_inv_def)
next
  case True
  have e: "enqueue_update u t' = t'\<lparr>it_updates := it_updates t @ [u], it_mutex := MuQueued\<rparr>"
    using True t' by (simp add: enqueue_update_def)
  have up: "up_to_date view (enqueue_update u t')" if "up_to_date view t" for view
    unfolding up_to_date_def
  proof
    fix j
    show "agrees (fold apply_update (it_updates (enqueue_update u t')) view j) (map_of (it_requests (enqueue_update u t')) j)"
    proof (cases "j = k")
      case True
      with news show ?thesis by (simp add: e)
    next
      case False
      with that other [OF False] apply_other [of u j] assms(3) show ?thesis by (simp add: e up_to_date_def)
    qed
  qed
  have news': "latest_news (enqueue_update u t')" if "latest_news t"
    unfolding latest_news_def
  proof (intro allI impI)
    fix j assume c: "concerns j (it_updates (enqueue_update u t'))"
    show "agrees (fold apply_update (it_updates (enqueue_update u t')) Map.empty j) (map_of (it_requests (enqueue_update u t')) j)"
    proof (cases "j = k")
      case True
      with news show ?thesis by (simp add: e)
    next
      case False
      then have "concerns j (it_updates t)" using c assms(3) by (auto simp: e concerns_def)
      with that other [OF False] apply_other [of u j] assms(3) False show ?thesis by (simp add: e latest_news_def)
    qed
  qed
  have view: "subscribers_view (enqueue_update u t') = subscribers_view t" by (simp add: e subscribers_view_def t')
  have base: "it_needs (enqueue_update u t') = it_needs t" "it_pub (enqueue_update u t') = it_pub t"
    "it_mutex (enqueue_update u t') = MuQueued" "it_running (enqueue_update u t') = it_running t"
    "it_requests (enqueue_update u t') = it_requests t'" "it_updates (enqueue_update u t') = it_updates t @ [u]"
    by (simp_all add: e t')
  show ?thesis
    using assms(1-3) d up news' unfolding inflight_inv_def view base
    by (auto split: option.splits publisher.splits)
qed

lemma map_of_put [simp]: "map_of (it_requests (put_request k r t)) j = (if j = k then Some r else map_of (it_requests t) j)"
  by (simp add: put_request_def update_conv')

lemma put_fields [simp]:
  "it_updates (put_request k r t) = it_updates t" "it_needs (put_request k r t) = it_needs t"
  "it_pub (put_request k r t) = it_pub t" "it_running (put_request k r t) = it_running t"
  "it_size (put_request k r t) = it_size t" "it_checking (put_request k r t) = it_checking t"
  "it_reclaiming (put_request k r t) = it_reclaiming t" "it_published (put_request k r t) = it_published t"
  "it_mutex (put_request k r t) = it_mutex t"
  by (simp_all add: put_request_def)

lemma put_distinct: "inflight_inv t \<Longrightarrow> distinct (map fst (it_requests (put_request k r t)))"
  by (simp add: put_request_def inflight_inv_def distinct_update)

text \<open>A change of an entry that is not announced keeps the invariant when the entry agrees with the same views.\<close>

lemma silent_inv:
  assumes "inflight_inv t" and "map_of (it_requests t) k = Some r0" and "\<And>v. agrees v (Some r0) \<Longrightarrow> agrees v (Some r)"
  shows "inflight_inv (put_request k r t)"
proof -
  have mono: "agrees v (map_of (it_requests (put_request k r t)) j)" if "agrees v (map_of (it_requests t) j)" for v j
    using that assms(2,3) by auto
  have "up_to_date view (put_request k r t)" if "up_to_date view t" for view
    using that mono by (auto simp: up_to_date_def simp del: map_of_put)
  moreover have "latest_news (put_request k r t)" if "latest_news t"
    using that mono by (auto simp: latest_news_def simp del: map_of_put)
  moreover have "subscribers_view (put_request k r t) = subscribers_view t" by (simp add: subscribers_view_def)
  ultimately show ?thesis
    using assms(1) put_distinct [OF assms(1), of k r] unfolding inflight_inv_def
    by (auto split: option.splits publisher.splits)
qed

lemma track_add_inv:
  assumes "inflight_inv t" and "it_mutex t = MuFree"
  shows "inflight_inv (track_add e now t)"
proof -
  let ?t = "t\<lparr>it_next := it_next t + 1\<rparr>"
  have "up_to_date view ?t = up_to_date view t" "latest_news ?t = latest_news t" "subscribers_view ?t = subscribers_view t" for view
    by (simp_all add: up_to_date_def latest_news_def subscribers_view_def)
  moreover have "it_updates ?t = it_updates t" "it_requests ?t = it_requests t" "it_running ?t = it_running t" "it_pub ?t = it_pub t"
    "it_checking ?t = it_checking t" "it_reclaiming ?t = it_reclaiming t" "it_mutex ?t = it_mutex t" "it_needs ?t = it_needs t"
    by simp_all
  ultimately have "inflight_inv ?t = inflight_inv t" by (simp only: inflight_inv_def)
  with assms(1) have "inflight_inv ?t" by simp
  from put_distinct [OF this] show ?thesis
    unfolding track_add_def Let_def
    by (intro enqueue_update_inv [OF assms, where k = "decimal (unat (it_next t + 1))"]) simp_all
qed

lemma track_remove_inv:
  assumes "inflight_inv t" and "it_mutex t = MuFree"
  shows "inflight_inv (track_remove k t)"
proof (cases "map_of (it_requests t) k")
  case (Some r)
  have "distinct (map fst (AList.delete k (it_requests t)))" using assms(1) by (simp add: inflight_inv_def distinct_delete)
  then have "inflight_inv (enqueue_update (Removed k) (t\<lparr>it_requests := AList.delete k (it_requests t)\<rparr>))"
    by (intro enqueue_update_inv [OF assms, where k = k]) (simp_all add: delete_conv')
  then show ?thesis using Some by (simp add: track_remove_def)
qed (use assms in \<open>simp add: track_remove_def\<close>)

lemma set_response_headers_inv:
  assumes "inflight_inv t" and "it_mutex t = MuFree"
  shows "inflight_inv (set_response_headers k hs now t)"
proof (cases "map_of (it_requests t) k")
  case (Some r)
  let ?r = "r\<lparr>ir_entry := (ir_entry r)\<lparr>ie_resp_headers := hs\<rparr>, ir_last := now\<rparr>"
  have "inflight_inv (enqueue_update (Upsert k (ir_entry ?r)) (put_request k ?r t))"
    using put_distinct [OF assms(1)]
    by (intro enqueue_update_inv [OF assms, where k = k]) (auto simp: agrees_def intro: exI [of _ "ie_resp_bytes (ir_entry r)"])
  then show ?thesis using Some by (simp add: set_response_headers_def Let_def)
qed (use assms in \<open>simp add: set_response_headers_def\<close>)

lemma emit_pending_inv:
  assumes "inflight_inv t" and "it_mutex t = MuFree"
  shows "inflight_inv (emit_pending k now t)"
proof (cases "map_of (it_requests t) k")
  case (Some r)
  have "inflight_inv (enqueue_update (Upsert k (ir_entry r)) (put_request k (r\<lparr>ir_timer := False, ir_last := now\<rparr>) t))"
    using put_distinct [OF assms(1)] by (intro enqueue_update_inv [OF assms, where k = k]) simp_all
  then show ?thesis using Some by (simp add: emit_pending_def)
qed (use assms in \<open>simp add: emit_pending_def\<close>)

lemma add_response_bytes_inv:
  assumes "inflight_inv t" and "it_mutex t = MuFree"
  shows "inflight_inv (add_response_bytes k n now t)"
proof (cases "n \<le> 0 \<or> map_of (it_requests t) k = None")
  case True
  with assms show ?thesis by (auto simp: add_response_bytes_def)
next
  case False
  then obtain r where r: "map_of (it_requests t) k = Some r" by blast
  let ?r = "r\<lparr>ir_entry := (ir_entry r)\<lparr>ie_resp_bytes := wrap64 (ie_resp_bytes (ir_entry r) + n)\<rparr>\<rparr>"
  show ?thesis
  proof (cases "update_interval - (now - ir_last r) \<le> 0 \<and> \<not> ir_timer r")
    case True
    have "inflight_inv (enqueue_update (Upsert k (ir_entry ?r)) (put_request k (?r\<lparr>ir_last := now\<rparr>) t))"
      using put_distinct [OF assms(1)] True by (intro enqueue_update_inv [OF assms, where k = k]) simp_all
    with True False r show ?thesis by (simp add: add_response_bytes_def Let_def)
  next
    case no: False
    have "agrees v (Some (?r\<lparr>ir_timer := True\<rparr>))" if "agrees v (Some r)" for v
    proof (cases "ir_timer r")
      case True
      with that obtain b where "v = Some ((ir_entry r)\<lparr>ie_resp_bytes := b\<rparr>)" by (auto simp: agrees_def)
      then show ?thesis by (auto simp: agrees_def intro: exI [of _ b])
    next
      case False
      with that have "v = Some (ir_entry r)" by simp
      then show ?thesis by (auto simp: agrees_def intro!: exI [of _ "ie_resp_bytes (ir_entry r)"])
    qed
    from silent_inv [OF assms(1) r this]
    have "inflight_inv (put_request k (?r\<lparr>ir_timer := True\<rparr>) t)" .
    moreover have "add_response_bytes k n now t = put_request k (?r\<lparr>ir_timer := True\<rparr>) t"
    proof (cases "ir_timer r")
      case True
      then have same: "?r\<lparr>ir_timer := True\<rparr> = ?r" by simp
      show ?thesis unfolding same using True False r by (simp add: add_response_bytes_def Let_def)
    next
      case fresh: False
      with no False r show ?thesis by (simp add: add_response_bytes_def Let_def)
    qed
    ultimately show ?thesis by simp
  qed
qed

lemma cancel_request_inv:
  assumes "inflight_inv t"
  shows "inflight_inv (snd (cancel_request k t))"
proof (cases "map_of (it_requests t) k")
  case (Some r)
  have "agrees v (Some (r\<lparr>ir_cancelled := True\<rparr>))" if "agrees v (Some r)" for v
    using that by (auto simp: agrees_def)
  from silent_inv [OF assms Some this] Some show ?thesis by (simp add: cancel_request_def)
qed (use assms in \<open>simp add: cancel_request_def\<close>)

lemma mutation_inv:
  assumes "inflight_inv t" and "it_mutex t = MuFree"
  shows "inflight_inv (mutation ev t)"
  using assms track_add_inv track_remove_inv set_response_headers_inv add_response_bytes_inv emit_pending_inv cancel_request_inv
  by (cases ev) simp_all

lemma inflight_invD:
  assumes "inflight_inv t"
  shows "None \<notin> update_key ` set (it_updates t)" and "distinct (map fst (it_requests t))" and "it_running t \<longleftrightarrow> it_pub t \<noteq> None"
    and "it_updates t \<noteq> [] \<Longrightarrow> it_running t \<or> 0 < it_checking t \<or> 0 < it_reclaiming t \<or> it_mutex t \<noteq> MuFree"
    and "\<not> it_needs t \<Longrightarrow> it_mutex t \<noteq> MuFull \<Longrightarrow> (case it_pub t of
          Some Discarding \<Rightarrow> True
        | Some AtCurrent \<Rightarrow> latest_news t
        | Some (Publishing s) \<Rightarrow> up_to_date (map_of s) t
        | _ \<Rightarrow> up_to_date (subscribers_view t) t)"
  using assms unfolding inflight_inv_def by blast+

lemma set_inflight_snapshot: "set (inflight_snapshot t) = (\<lambda>(k, r). (k, ir_entry r)) ` set (it_requests t)"
  by (simp add: inflight_snapshot_def)

lemma map_of_snapshot:
  assumes "distinct (map fst (it_requests t))"
  shows "map_of (inflight_snapshot t) k = map_option ir_entry (map_of (it_requests t) k)"
proof -
  have "distinct (map fst (map (\<lambda>(k, r). (k, ir_entry r)) (it_requests t)))"
    using assms by (simp add: case_prod_unfold comp_def)
  moreover have "mset (map fst (inflight_snapshot t)) = mset (map fst (map (\<lambda>(k, r). (k, ir_entry r)) (it_requests t)))"
    unfolding inflight_snapshot_def by (simp only: mset_map mset_sort)
  ultimately have d: "distinct (map fst (inflight_snapshot t))" using mset_eq_imp_distinct_iff by blast
  show ?thesis
  proof (cases "map_of (it_requests t) k")
    case None
    then have "k \<notin> fst ` set (inflight_snapshot t)"
      by (force simp: set_inflight_snapshot map_of_eq_None_iff)
    then have "map_of (inflight_snapshot t) k = None" by (simp add: map_of_eq_None_iff)
    with None show ?thesis by simp
  next
    case (Some r)
    then have "(k, ir_entry r) \<in> set (inflight_snapshot t)"
      by (force simp: set_inflight_snapshot dest: map_of_SomeD)
    with d Some show ?thesis by simp
  qed
qed

lemma agrees_self: "agrees (map_option ir_entry r) r"
proof (cases r)
  case (Some r0)
  have "\<exists>b. ir_entry r0 = (ir_entry r0)\<lparr>ie_resp_bytes := b\<rparr>" by (rule exI [of _ "ie_resp_bytes (ir_entry r0)"]) simp
  then show ?thesis by (simp add: Some agrees_def)
qed simp

lemma snapshot_up_to_date:
  assumes "None \<notin> update_key ` set (it_updates t)" and "distinct (map fst (it_requests t))" and "latest_news t"
  shows "up_to_date (map_of (inflight_snapshot t)) t"
  unfolding up_to_date_def
proof
  fix k
  show "agrees (fold apply_update (it_updates t) (map_of (inflight_snapshot t)) k) (map_of (it_requests t) k)"
  proof (cases "concerns k (it_updates t)")
    case True
    then have "agrees (fold apply_update (it_updates t) Map.empty k) (map_of (it_requests t) k)"
      using assms(3) unfolding latest_news_def by blast
    then show ?thesis unfolding fold_apply_concerned [OF assms(1) True, of Map.empty "map_of (inflight_snapshot t)"] .
  next
    case False
    with fold_apply_other [OF assms(1)] have "fold apply_update (it_updates t) (map_of (inflight_snapshot t)) k =
      map_option ir_entry (map_of (it_requests t) k)" by (simp add: map_of_snapshot [OF assms(2)])
    then show ?thesis by (simp only: agrees_self)
  qed
qed

text \<open>Steps that leave requests, queue and flag alone do not change what is up to date.\<close>

lemma same_facts:
  assumes "it_requests t' = it_requests t" and "it_updates t' = it_updates t"
  shows "up_to_date view t' = up_to_date view t" and "latest_news t' = latest_news t"
  using assms by (simp_all add: up_to_date_def latest_news_def)

lemma inflight_invI:
  assumes "None \<notin> update_key ` set (it_updates t)" and "distinct (map fst (it_requests t))" and "it_running t \<longleftrightarrow> it_pub t \<noteq> None"
    and "it_updates t \<noteq> [] \<Longrightarrow> it_running t \<or> 0 < it_checking t \<or> 0 < it_reclaiming t \<or> it_mutex t \<noteq> MuFree"
    and "\<not> it_needs t \<Longrightarrow> it_mutex t \<noteq> MuFull \<Longrightarrow> (case it_pub t of
          Some Discarding \<Rightarrow> True
        | Some AtCurrent \<Rightarrow> latest_news t
        | Some (Publishing s) \<Rightarrow> up_to_date (map_of s) t
        | _ \<Rightarrow> up_to_date (subscribers_view t) t)"
  shows "inflight_inv t"
  using assms unfolding inflight_inv_def by blast

lemma publish_loop_inv:
  assumes inv: "inflight_inv t" and pub: "it_pub t = Some AtLoop" and step: "publish_step t = Some t'"
  shows "inflight_inv t'"
proof (cases "it_updates t")
  case Nil
  with pub step have t': "t' = t\<lparr>it_running := False, it_pub := None, it_checking := it_checking t + 1\<rparr>"
    by (simp add: publish_step_def)
  show ?thesis
  proof (rule inflight_invI)
    assume "\<not> it_needs t'" "it_mutex t' \<noteq> MuFull"
    then have "up_to_date (subscribers_view t) t" using inflight_invD(5) [OF inv] pub by (simp add: t')
    then have "up_to_date (subscribers_view t') t'" by (simp add: t' up_to_date_def subscribers_view_def)
    moreover have "it_pub t' = None" by (simp add: t')
    ultimately show "case it_pub t' of Some Discarding \<Rightarrow> True | Some AtCurrent \<Rightarrow> latest_news t'
        | Some (Publishing s) \<Rightarrow> up_to_date (map_of s) t' | _ \<Rightarrow> up_to_date (subscribers_view t') t'" by simp
  qed (use inflight_invD(1,2) [OF inv] Nil in \<open>simp_all add: t'\<close>)
next
  case (Cons u us)
  with pub step have t': "t' = t\<lparr>it_updates := us, it_published := it_published t @ [u], it_pub := Some AtRecovery\<rparr>"
    by (simp add: publish_step_def)
  show ?thesis
  proof (rule inflight_invI)
    assume "\<not> it_needs t'" "it_mutex t' \<noteq> MuFull"
    then have "up_to_date (subscribers_view t) t" using inflight_invD(5) [OF inv] pub by (simp add: t')
    then have "up_to_date (subscribers_view t') t'" by (simp add: t' up_to_date_def subscribers_view_def Cons)
    moreover have "it_pub t' = Some AtRecovery" by (simp add: t')
    ultimately show "case it_pub t' of Some Discarding \<Rightarrow> True | Some AtCurrent \<Rightarrow> latest_news t'
        | Some (Publishing s) \<Rightarrow> up_to_date (map_of s) t' | _ \<Rightarrow> up_to_date (subscribers_view t') t'" by simp
  qed (use inflight_invD(1-3) [OF inv] Cons pub in \<open>auto simp: t'\<close>)
qed

lemma publish_recovery_inv:
  assumes inv: "inflight_inv t" and pub: "it_pub t = Some AtRecovery" and step: "publish_step t = Some t'"
  shows "inflight_inv t'"
proof (cases "it_needs t")
  case True
  with pub step have t': "t' = t\<lparr>it_needs := False, it_pub := Some Discarding\<rparr>" by (simp add: publish_step_def)
  show ?thesis
    by (rule inflight_invI) (use inflight_invD(1-4) [OF inv] pub in \<open>simp_all add: t'\<close>)
next
  case False
  with pub step have t': "t' = t\<lparr>it_pub := Some AtLoop\<rparr>" by (simp add: publish_step_def)
  show ?thesis
  proof (rule inflight_invI)
    assume "\<not> it_needs t'" "it_mutex t' \<noteq> MuFull"
    then have "up_to_date (subscribers_view t) t" using inflight_invD(5) [OF inv] pub by (simp add: t')
    then have "up_to_date (subscribers_view t') t'" by (simp add: t' up_to_date_def subscribers_view_def)
    moreover have "it_pub t' = Some AtLoop" by (simp add: t')
    ultimately show "case it_pub t' of Some Discarding \<Rightarrow> True | Some AtCurrent \<Rightarrow> latest_news t'
        | Some (Publishing s) \<Rightarrow> up_to_date (map_of s) t' | _ \<Rightarrow> up_to_date (subscribers_view t') t'" by simp
  qed (use inflight_invD(1-4) [OF inv] pub in \<open>simp_all add: t'\<close>)
qed

lemma publish_discard_inv:
  assumes inv: "inflight_inv t" and pub: "it_pub t = Some Discarding" and step: "publish_step t = Some t'"
  shows "inflight_inv t'"
proof (cases "it_updates t")
  case Nil
  with pub step have t': "t' = t\<lparr>it_pub := Some AtCurrent\<rparr>" by (simp add: publish_step_def)
  have "latest_news t'" by (simp add: t' latest_news_def Nil concerns_def)
  moreover have "it_pub t' = Some AtCurrent" by (simp add: t')
  ultimately show ?thesis
    by (intro inflight_invI) (use inflight_invD(1-4) [OF inv] pub in \<open>simp_all add: t'\<close>)
next
  case (Cons u us)
  with pub step have t': "t' = t\<lparr>it_updates := us\<rparr>" by (simp add: publish_step_def)
  show ?thesis
    by (rule inflight_invI) (use inflight_invD(1-4) [OF inv] pub Cons in \<open>simp_all add: t'\<close>)
qed

lemma publish_current_inv:
  assumes inv: "inflight_inv t" and pub: "it_pub t = Some AtCurrent" and step: "publish_step t = Some t'"
  shows "inflight_inv t'"
proof -
  from pub step have t': "t' = t\<lparr>it_pub := Some (Publishing (inflight_snapshot t))\<rparr>" and mu: "it_mutex t = MuFree"
    by (simp_all add: publish_step_def split: if_splits)
  show ?thesis
  proof (rule inflight_invI)
    assume "\<not> it_needs t'" "it_mutex t' \<noteq> MuFull"
    then have "latest_news t" using inflight_invD(5) [OF inv] pub by (simp add: t')
    then have "up_to_date (map_of (inflight_snapshot t)) t"
      using snapshot_up_to_date inflight_invD(1,2) [OF inv] by blast
    then have "up_to_date (map_of (inflight_snapshot t)) t'" by (simp add: t' up_to_date_def)
    moreover have "it_pub t' = Some (Publishing (inflight_snapshot t))" by (simp add: t')
    ultimately show "case it_pub t' of Some Discarding \<Rightarrow> True | Some AtCurrent \<Rightarrow> latest_news t'
        | Some (Publishing s) \<Rightarrow> up_to_date (map_of s) t' | _ \<Rightarrow> up_to_date (subscribers_view t') t'" by simp
  qed (use inflight_invD(1-4) [OF inv] pub in \<open>simp_all add: t'\<close>)
qed

lemma publish_snapshot_inv:
  assumes inv: "inflight_inv t" and pub: "it_pub t = Some (Publishing s)" and step: "publish_step t = Some t'"
  shows "inflight_inv t'"
proof -
  from pub step have t': "t' = t\<lparr>it_published := it_published t @ [SnapshotOf s], it_pub := Some AtRecovery\<rparr>"
    by (simp add: publish_step_def)
  show ?thesis
  proof (rule inflight_invI)
    assume "\<not> it_needs t'" "it_mutex t' \<noteq> MuFull"
    then have "up_to_date (map_of s) t" using inflight_invD(5) [OF inv] pub by (simp add: t')
    then have "up_to_date (subscribers_view t') t'" by (simp add: t' up_to_date_def subscribers_view_def)
    moreover have "it_pub t' = Some AtRecovery" by (simp add: t')
    ultimately show "case it_pub t' of Some Discarding \<Rightarrow> True | Some AtCurrent \<Rightarrow> latest_news t'
        | Some (Publishing s) \<Rightarrow> up_to_date (map_of s) t' | _ \<Rightarrow> up_to_date (subscribers_view t') t'" by simp
  qed (use inflight_invD(1-4) [OF inv] pub in \<open>simp_all add: t'\<close>)
qed

lemma publish_step_inv: "inflight_inv t \<Longrightarrow> publish_step t = Some t' \<Longrightarrow> inflight_inv t'"
proof (cases "it_pub t")
  case None
  moreover assume "publish_step t = Some t'"
  ultimately show ?thesis by (simp add: publish_step_def)
next
  case (Some p)
  moreover assume "inflight_inv t" "publish_step t = Some t'"
  ultimately show ?thesis
    using publish_loop_inv publish_recovery_inv publish_discard_inv publish_current_inv publish_snapshot_inv
    by (cases p) blast+
qed

lemma start_publisher_inv:
  assumes "inflight_inv t"
  shows "inflight_inv (start_publisher t)"
proof (cases "it_running t")
  case False
  let ?t = "t\<lparr>it_running := True, it_pub := Some AtLoop\<rparr>"
  have none: "it_pub t = None" using inflight_invD(3) [OF assms] False by simp
  have "inflight_inv ?t"
  proof (rule inflight_invI)
    assume "\<not> it_needs ?t" "it_mutex ?t \<noteq> MuFull"
    then have "up_to_date (subscribers_view t) t" using inflight_invD(5) [OF assms] none by simp
    then have "up_to_date (subscribers_view ?t) ?t" by (simp add: up_to_date_def subscribers_view_def)
    then show "case it_pub ?t of Some Discarding \<Rightarrow> True | Some AtCurrent \<Rightarrow> latest_news ?t
        | Some (Publishing s) \<Rightarrow> up_to_date (map_of s) ?t | _ \<Rightarrow> up_to_date (subscribers_view ?t) ?t" by simp
  qed (use inflight_invD(1,2) [OF assms] in simp_all)
  then show ?thesis using False by (simp add: start_publisher_def)
qed (use assms in \<open>simp add: start_publisher_def\<close>)

text \<open>The fields that decide the invariant, without the counters of retiring publishers and the mutex.\<close>

lemma inflight_inv_cong:
  assumes "inflight_inv t" and "it_updates t' = it_updates t" and "it_requests t' = it_requests t" and "it_running t' = it_running t"
    and "it_pub t' = it_pub t" and "it_published t' = it_published t" and "it_needs t \<or> it_mutex t = MuFull \<Longrightarrow> it_needs t' \<or> it_mutex t' = MuFull"
    and "it_updates t \<noteq> [] \<Longrightarrow> it_running t \<or> 0 < it_checking t' \<or> 0 < it_reclaiming t' \<or> it_mutex t' \<noteq> MuFree"
  shows "inflight_inv t'"
proof (rule inflight_invI)
  assume "\<not> it_needs t'" "it_mutex t' \<noteq> MuFull"
  with assms(7) have "\<not> it_needs t" "it_mutex t \<noteq> MuFull" by blast+
  from inflight_invD(5) [OF assms(1) this]
  show "case it_pub t' of Some Discarding \<Rightarrow> True | Some AtCurrent \<Rightarrow> latest_news t'
      | Some (Publishing s) \<Rightarrow> up_to_date (map_of s) t' | _ \<Rightarrow> up_to_date (subscribers_view t') t'"
    unfolding up_to_date_def latest_news_def subscribers_view_def assms(2,3,5,6) .
qed (use inflight_invD(1-3) [OF assms(1)] assms(8) in \<open>simp_all add: assms(2-5)\<close>)

lemma inflight_step_inv:
  assumes "inflight_inv t" and "inflight_step ev t = Some t'"
  shows "inflight_inv t'"
proof (cases ev)
  case IFlag
  with assms(2) have "t' = t\<lparr>it_needs := True, it_mutex := MuQueued\<rparr>" by (simp split: if_splits)
  then show ?thesis by (intro inflight_inv_cong [OF assms(1)]) simp_all
next
  case IStart
  with assms(2) have t': "t' = (start_publisher t)\<lparr>it_mutex := MuFree\<rparr>" "it_mutex t = MuQueued" by (simp_all split: if_splits)
  have "it_running (start_publisher t)" "it_mutex (start_publisher t) = MuQueued"
    using t'(2) by (simp_all add: start_publisher_def)
  then show ?thesis unfolding t'(1) by (intro inflight_inv_cong [OF start_publisher_inv [OF assms(1)]]) simp_all
next
  case IPublish
  with assms publish_step_inv show ?thesis by simp
next
  case ICheck
  with assms(2) have "t' = t\<lparr>it_checking := it_checking t - 1,
      it_reclaiming := it_reclaiming t + (if it_updates t \<noteq> [] then 1 else 0)\<rparr>"
    by (simp add: check_again_def split: if_splits)
  then show ?thesis by (intro inflight_inv_cong [OF assms(1)]) simp_all
next
  case IReclaim
  with assms(2) have t': "t' = start_publisher (t\<lparr>it_reclaiming := it_reclaiming t - 1\<rparr>)"
    by (simp add: reclaim_def split: if_splits)
  show ?thesis
  proof (cases "it_running t")
    case True
    then have "t' = t\<lparr>it_reclaiming := it_reclaiming t - 1\<rparr>" by (simp add: t' start_publisher_def)
    with True show ?thesis by (intro inflight_inv_cong [OF assms(1)]) simp_all
  next
    case False
    then have "t' = (start_publisher t)\<lparr>it_reclaiming := it_reclaiming t - 1\<rparr>" by (simp add: t' start_publisher_def)
    moreover have "it_running (start_publisher t)" by (simp add: start_publisher_def)
    ultimately show ?thesis by (intro inflight_inv_cong [OF start_publisher_inv [OF assms(1)]]) simp_all
  qed
qed (use assms mutation_inv [of t ev] in \<open>simp_all del: mutation.simps split: if_splits\<close>)

lemma inflight_run_inv: "inflight_run evs t = Some t' \<Longrightarrow> inflight_inv t \<Longrightarrow> inflight_inv t'"
  by (induction evs arbitrary: t) (auto split: option.splits dest: inflight_step_inv)

section \<open>Properties\<close>

text \<open>
  C12. The live view of the requests in progress: whenever no publisher is active or retiring and no mutation is under way,
  in any interleaving of mutations and publishers, the queue is empty and subscribers that applied the published
  updates see exactly the tracker's requests, but for the bytes of those whose timer is pending, unless the flag
  that asks for a snapshot is still set.
\<close>
theorem quiet_view_agrees:
  assumes "inflight_run evs (new_inflight n) = Some t"
    and "it_mutex t = MuFree" and "it_pub t = None" and "it_checking t = 0" and "it_reclaiming t = 0"
  shows "it_updates t = [] \<and> (\<not> it_needs t \<longrightarrow> (\<forall>k. agrees (subscribers_view t k) (map_of (it_requests t) k)))"
proof -
  note inv = inflight_run_inv [OF assms(1) new_inflight_inv]
  have q: "it_updates t = []" using inflight_invD(3,4) [OF inv] assms(2-5) by auto
  moreover have "agrees (subscribers_view t k) (map_of (it_requests t) k)" if "\<not> it_needs t" for k
    using inflight_invD(5) [OF inv that] assms(2,3) q by (simp add: up_to_date_def)
  ultimately show ?thesis by blast
qed

definition demo_entry :: ientry where
  "demo_entry = \<lparr>ie_timestamp = 1, ie_path = ''/v1/chat/completions'', ie_method = ''POST'', ie_req_headers = [], ie_remote = ''::1'',
     ie_model = ''m'', ie_metadata = [], ie_resp_headers = [], ie_resp_bytes = 0\<rparr>"

text \<open>Two requests with room for one update: the second update is dropped, and a snapshot repairs it.\<close>

definition demo_repaired :: "inflight_event list" where
  "demo_repaired =
     [IAdd demo_entry 1, IStart, IAdd demo_entry 2, IFlag, IPublish, IPublish, IPublish, IStart, IPublish, IPublish,
      IPublish, IPublish, ICheck]"

text \<open>The same, but the publisher goes idle between the failed send and the setting of the flag.\<close>

definition demo_stranded :: "inflight_event list" where
  "demo_stranded =
     [IAdd demo_entry 1, IStart, IAdd demo_entry 2, IPublish, IPublish, IPublish, ICheck, IFlag, IStart, IPublish, ICheck]"

definition demo_view :: "inflight \<Rightarrow> bool \<times> ientry option \<times> ientry option" where
  "demo_view t = (it_mutex t = MuFree \<and> it_pub t = None \<and> it_checking t = 0 \<and> it_reclaiming t = 0 \<and> it_updates t = [],
     subscribers_view t ''1'', subscribers_view t ''2'')"

lemma demo_repaired_view:
  "map_option (\<lambda>t. (demo_view t, it_needs t)) (inflight_run demo_repaired (new_inflight 1)) =
     Some ((True, Some demo_entry, Some demo_entry), False)"
  by code_simp

theorem quiet_view_agrees_witness:
  "\<exists>t. inflight_run demo_repaired (new_inflight 1) = Some t \<and> length (it_requests t) = 2 \<and>
     (\<forall>k. agrees (subscribers_view t k) (map_of (it_requests t) k))"
proof -
  obtain t where t: "inflight_run demo_repaired (new_inflight 1) = Some t" "demo_view t = (True, Some demo_entry, Some demo_entry)"
    "\<not> it_needs t"
    using demo_repaired_view by auto
  have "map_option (\<lambda>t. length (it_requests t)) (inflight_run demo_repaired (new_inflight 1)) = Some 2" by code_simp
  then have "length (it_requests t) = 2" using t(1) by simp
  with quiet_view_agrees [OF t(1)] t show ?thesis by (simp add: demo_view_def)
qed

text \<open>
  The proviso on the flag is needed: when the publisher drains the queue and goes idle between the failed send and the
  setting of the flag, the publisher started next finds an empty queue and never looks at the flag. Everything is
  quiet, request 2 is in the tracker, and no subscriber has heard of it until the next update.
\<close>

lemma snapshot_left_behind:
  "\<exists>t. inflight_run demo_stranded (new_inflight 1) = Some t \<and> it_mutex t = MuFree \<and> it_pub t = None \<and> it_checking t = 0 \<and>
     it_reclaiming t = 0 \<and> it_updates t = [] \<and> it_needs t \<and> map_of (it_requests t) ''2'' \<noteq> None \<and> subscribers_view t ''2'' = None"
proof -
  have "map_option (\<lambda>t. (demo_view t, it_needs t, map_of (it_requests t) ''2'' \<noteq> None)) (inflight_run demo_stranded (new_inflight 1)) =
     Some ((True, Some demo_entry, None), True, True)" by code_simp
  then show ?thesis by (auto simp: demo_view_def)
qed

end
