(* ===== verification/EventBus.thy ===== *)
theory EventBus
  imports Prelude "HOL-Library.Word"
begin

text \<open>
  The event dispatcher of \<open>internal/event/event.go\<close>: a registry of event types with a binary search, one
  group of subscribers per type, a queue and a listener goroutine per subscriber, and publishers that wait while
  a queue is full. A step is a critical section of the group's lock, one call of a handler, or a broadcast.
\<close>

section \<open>Subscriber groups\<close>

text \<open>
  The goroutine of \<open>Listen\<close>: about to take the lock; asleep on the condition variable; outside the lock, with the
  events it took and has not handled; or returned. \<open>co_handled\<close> is what the handler was called with.
\<close>

datatype 'e listener = Ready | Asleep | Handling "'e list" | Returned

record 'e consumer =
  co_queue :: "'e list"
  co_stop :: bool
  co_listener :: "'e listener"
  co_handled :: "'e list"

text \<open>
  A group: its consumers by address (those removed as well), the list of those subscribed, the bound on the queues, and
  the publishers that wait in \<open>Broadcast\<close>, each with its event and whether it was woken. \<open>gr_type\<close> is the
  Go type the group was made for.
\<close>

record 'e group =
  gr_type :: string
  gr_consumers :: "'e consumer list"
  gr_subs :: "nat list"
  gr_max :: int
  gr_max_len :: nat
  gr_waiting :: "nat \<rightharpoonup> 'e \<times> bool"

definition new_consumer :: "'e consumer" where
  "new_consumer = \<lparr>co_queue = [], co_stop = False, co_listener = Ready, co_handled = []\<rparr>"

definition new_group :: "string \<Rightarrow> int \<Rightarrow> 'e group" where
  "new_group T n = \<lparr>gr_type = T, gr_consumers = [], gr_subs = [], gr_max = n, gr_max_len = 0, gr_waiting = Map.empty\<rparr>"

definition upd_consumer :: "nat \<Rightarrow> ('e consumer \<Rightarrow> 'e consumer) \<Rightarrow> 'e group \<Rightarrow> 'e group" where
  "upd_consumer i f g = g\<lparr>gr_consumers := (gr_consumers g)[i := f (gr_consumers g ! i)]\<rparr>"

definition longest_queue :: "'e consumer list \<Rightarrow> nat list \<Rightarrow> nat" where
  "longest_queue cs subs =
     foldl (\<lambda>m i. if m < length (co_queue (cs ! i)) then length (co_queue (cs ! i)) else m) 0 subs"

text \<open>\<open>cond.Broadcast\<close> wakes the listeners and the publishers that wait.\<close>

definition wake :: "'e consumer \<Rightarrow> 'e consumer" where
  "wake c = (case co_listener c of Asleep \<Rightarrow> c\<lparr>co_listener := Ready\<rparr> | _ \<Rightarrow> c)"

definition wake_all :: "'e group \<Rightarrow> 'e group" where
  "wake_all g = g\<lparr>gr_consumers := map wake (gr_consumers g), gr_waiting := (\<lambda>p. map_option (\<lambda>(e, w). (e, True)) (gr_waiting g p))\<rparr>"

definition push_event :: "'e \<Rightarrow> 'e consumer \<Rightarrow> 'e consumer" where
  "push_event e c = c\<lparr>co_queue := co_queue c @ [e]\<rparr>"

definition deliver :: "'e \<Rightarrow> 'e group \<Rightarrow> 'e group" where
  "deliver e g =
     (let cs = foldl (\<lambda>cs i. cs[i := push_event e (cs ! i)]) (gr_consumers g) (gr_subs g)
      in wake_all (g\<lparr>gr_consumers := cs, gr_max_len := longest_queue cs (gr_subs g)\<rparr>))"

text \<open>\<open>Broadcast\<close>, from the lock or from the wake-up to the next wait or the end.\<close>

definition broadcast :: "nat \<Rightarrow> 'e \<Rightarrow> 'e group \<Rightarrow> 'e group" where
  "broadcast p e g =
     (let n = longest_queue (gr_consumers g) (gr_subs g); g1 = g\<lparr>gr_max_len := n\<rparr>
      in if gr_max g \<le> int n then g1\<lparr>gr_waiting := (gr_waiting g1)(p \<mapsto> (e, False))\<rparr>
         else deliver e (g1\<lparr>gr_waiting := (gr_waiting g1)(p := None)\<rparr>))"

definition add_consumer :: "'e group \<Rightarrow> 'e group" where
  "add_consumer g = g\<lparr>gr_consumers := gr_consumers g @ [new_consumer], gr_subs := gr_subs g @ [length (gr_consumers g)]\<rparr>"

definition del_consumer :: "nat \<Rightarrow> 'e group \<Rightarrow> 'e group" where
  "del_consumer i g = (upd_consumer i (\<lambda>c. c\<lparr>co_stop := True\<rparr>) g)\<lparr>gr_subs := remove1 i (gr_subs g)\<rparr>"

text \<open>\<open>Listen\<close>: the critical section, a call of the handler, the broadcast after the last call.\<close>

definition listen :: "'e consumer \<Rightarrow> 'e consumer" where
  "listen c =
     (if co_queue c = [] then (if co_stop c then c\<lparr>co_listener := Returned\<rparr> else c\<lparr>co_listener := Asleep\<rparr>)
      else c\<lparr>co_listener := Handling (co_queue c), co_queue := []\<rparr>)"

datatype 'e group_event = GDel nat | GRetry nat | GListen nat | GHandle nat | GDone nat

fun group_step :: "'e group_event \<Rightarrow> 'e group \<Rightarrow> 'e group option" where
  "group_step (GDel i) g = (if i < length (gr_consumers g) then Some (del_consumer i g) else None)"
| "group_step (GRetry p) g =
     (case gr_waiting g p of Some (e, True) \<Rightarrow> Some (broadcast p e g) | _ \<Rightarrow> None)"
| "group_step (GListen i) g =
     (if i < length (gr_consumers g) \<and> co_listener (gr_consumers g ! i) = Ready then Some (upd_consumer i listen g) else None)"
| "group_step (GHandle i) g =
     (if i < length (gr_consumers g) then
        (case co_listener (gr_consumers g ! i) of
           Handling (e # es) \<Rightarrow> Some (upd_consumer i (\<lambda>c. c\<lparr>co_listener := Handling es, co_handled := co_handled c @ [e]\<rparr>) g)
         | _ \<Rightarrow> None)
      else None)"
| "group_step (GDone i) g =
     (if i < length (gr_consumers g) \<and> co_listener (gr_consumers g ! i) = Handling []
      then Some (wake_all (upd_consumer i (\<lambda>c. c\<lparr>co_listener := Ready\<rparr>) g)) else None)"

section \<open>The dispatcher\<close>

text \<open>The registry is an array of sorted event types and the array of their groups, by address.\<close>

record 'e dispatcher =
  di_keys :: "32 word list"
  di_grps :: "nat list"
  di_heap :: "'e group list"
  di_max :: int
  di_closed :: bool

datatype bus_error = BusClosed | BusConflict | CloseOfClosed | NotEnabled

definition new_dispatcher :: "int \<Rightarrow> 'e dispatcher" where
  "new_dispatcher n = \<lparr>di_keys = [], di_grps = [], di_heap = [], di_max = n, di_closed = False\<rparr>"

definition default_max_queue :: int where
  "default_max_queue = 50000"

function bin_search :: "32 word list \<Rightarrow> 32 word \<Rightarrow> nat \<Rightarrow> nat \<Rightarrow> nat" where
  "bin_search keys t left right =
     (if left < right then
        (let mid = left + (right - left) div 2
         in if keys ! mid < t then bin_search keys t (mid + 1) right else bin_search keys t left mid)
      else left)"
  by auto
termination by (relation "measure (\<lambda>(keys, t, left, right). right - left)") auto

declare bin_search.simps [simp del]

definition find_group :: "'e dispatcher \<Rightarrow> 32 word \<Rightarrow> nat option" where
  "find_group d t =
     (let left = bin_search (di_keys d) t 0 (length (di_keys d))
      in if left < length (di_keys d) \<and> di_keys d ! left = t then Some (di_grps d ! left) else None)"

text \<open>\<open>sort.Search\<close>: the smallest index where a monotone condition holds.\<close>

function sort_search :: "(nat \<Rightarrow> bool) \<Rightarrow> nat \<Rightarrow> nat \<Rightarrow> nat" where
  "sort_search f i j =
     (if i < j then (let h = (i + j) div 2 in if \<not> f h then sort_search f (h + 1) j else sort_search f i h) else i)"
  by auto
termination by (relation "measure (\<lambda>(f, i, j). j - i)") auto

declare sort_search.simps [simp del]

text \<open>\<open>groupOf\<close>: the group, if it was made for the same Go type.\<close>

definition typed_group :: "string \<Rightarrow> nat \<Rightarrow> 'e dispatcher \<Rightarrow> bus_error + 'e group" where
  "typed_group T a d = (if gr_type (di_heap d ! a) = T then Inr (di_heap d ! a) else Inl BusConflict)"

definition put_group :: "nat \<Rightarrow> 'e group \<Rightarrow> 'e dispatcher \<Rightarrow> 'e dispatcher" where
  "put_group a g d = d\<lparr>di_heap := (di_heap d)[a := g]\<rparr>"

definition subscribe_to :: "string \<Rightarrow> 32 word \<Rightarrow> 'e dispatcher \<Rightarrow> bus_error + 'e dispatcher" where
  "subscribe_to T t d =
     (if di_closed d then Inl BusClosed
      else case find_group d t of
        Some a \<Rightarrow> bindE (typed_group T a d) (\<lambda>g. Inr (put_group a (add_consumer g) d))
      | None \<Rightarrow>
          (let idx = sort_search (\<lambda>i. t \<le> di_keys d ! i) 0 (length (di_keys d))
           in Inr (d\<lparr>di_keys := take idx (di_keys d) @ [t] @ drop idx (di_keys d),
                      di_grps := take idx (di_grps d) @ [length (di_heap d)] @ drop idx (di_grps d),
                      di_heap := di_heap d @ [add_consumer (new_group T (di_max d))]\<rparr>)))"

text \<open>A goroutine publishes one event at a time: one that waits cannot publish.\<close>

definition publish :: "string \<Rightarrow> 32 word \<Rightarrow> nat \<Rightarrow> 'e \<Rightarrow> 'e dispatcher \<Rightarrow> bus_error + 'e dispatcher" where
  "publish T t p e d =
     (case find_group d t of
        None \<Rightarrow> Inr d
      | Some a \<Rightarrow> bindE (typed_group T a d)
          (\<lambda>g. if gr_waiting g p \<noteq> None then Inl NotEnabled else Inr (put_group a (broadcast p e g) d)))"

definition close_dispatcher :: "'e dispatcher \<Rightarrow> bus_error + 'e dispatcher" where
  "close_dispatcher d = (if di_closed d then Inl CloseOfClosed else Inr (d\<lparr>di_closed := True\<rparr>))"

datatype 'e bus_event =
    BSubscribe string "32 word"
  | BPublish string "32 word" nat 'e
  | BClose
  | BGroup nat "'e group_event"

fun bus_step :: "'e bus_event \<Rightarrow> 'e dispatcher \<Rightarrow> bus_error + 'e dispatcher" where
  "bus_step (BSubscribe T t) d = subscribe_to T t d"
| "bus_step (BPublish T t p e) d = publish T t p e d"
| "bus_step BClose d = close_dispatcher d"
| "bus_step (BGroup a ev) d =
     (if a < length (di_heap d) then
        (case group_step ev (di_heap d ! a) of None \<Rightarrow> Inl NotEnabled | Some g \<Rightarrow> Inr (put_group a g d))
      else Inl NotEnabled)"

definition bus_run :: "'e bus_event list \<Rightarrow> 'e dispatcher \<Rightarrow> bus_error + 'e dispatcher" where
  "bus_run evs d = foldE bus_step evs d"

section \<open>Queues and groups\<close>

lemma longest_queue_gen:
  fixes cs :: "'e consumer list"
  defines "q \<equiv> \<lambda>i. length (co_queue (cs ! i))"
  shows "foldl (\<lambda>m i. if m < q i then q i else m) n subs = Max (insert n (q ` set subs))"
proof (induction subs arbitrary: n)
  case (Cons i subs)
  have "Max (insert (if n < q i then q i else n) (q ` set subs)) = Max (insert n (insert (q i) (q ` set subs)))"
    by (cases "q ` set subs = {}") (auto simp: max_def)
  with Cons show ?case by simp
qed simp

lemma longest_queue_Max: "longest_queue cs subs = Max (insert 0 ((\<lambda>i. length (co_queue (cs ! i))) ` set subs))"
  unfolding longest_queue_def by (rule longest_queue_gen)

lemma longest_queue_ge: "i \<in> set subs \<Longrightarrow> length (co_queue (cs ! i)) \<le> longest_queue cs subs"
  unfolding longest_queue_Max by (rule Max_ge) auto

lemma longest_queue_attained:
  assumes "0 < longest_queue cs subs"
  obtains i where "i \<in> set subs" and "length (co_queue (cs ! i)) = longest_queue cs subs"
proof -
  have "longest_queue cs subs \<in> insert 0 ((\<lambda>i. length (co_queue (cs ! i))) ` set subs)"
    unfolding longest_queue_Max by (rule Max_in) auto
  with assms that show ?thesis by auto
qed

lemma length_push_all [simp]: "length (foldl (\<lambda>cs i. cs[i := push_event e (cs ! i)]) cs subs) = length cs"
  by (induction subs arbitrary: cs) auto

lemma nth_push_all:
  "distinct subs \<Longrightarrow> j < length cs \<Longrightarrow>
   foldl (\<lambda>cs i. cs[i := push_event e (cs ! i)]) cs subs ! j = (if j \<in> set subs then push_event e (cs ! j) else cs ! j)"
proof (induction subs arbitrary: cs)
  case (Cons a subs)
  then show ?case by (cases "a = j") auto
qed simp

lemma wake_simps [simp]:
  "co_queue (wake c) = co_queue c" "co_stop (wake c) = co_stop c" "co_handled (wake c) = co_handled c"
  "co_listener (wake c) = (if co_listener c = Asleep then Ready else co_listener c)"
  by (auto simp: wake_def split: listener.split)

lemma push_event_simps [simp]:
  "co_queue (push_event e c) = co_queue c @ [e]" "co_stop (push_event e c) = co_stop c"
  "co_handled (push_event e c) = co_handled c" "co_listener (push_event e c) = co_listener c"
  by (simp_all add: push_event_def)

lemma new_consumer_simps [simp]:
  "co_queue new_consumer = []" "\<not> co_stop new_consumer" "co_listener new_consumer = Ready" "co_handled new_consumer = []"
  by (simp_all add: new_consumer_def)

text \<open>A consumer that will wake the waiting publishers: it has events to take, or it is handling some.\<close>

definition busy :: "'e consumer \<Rightarrow> bool" where
  "busy c \<longleftrightarrow> (case co_listener c of Ready \<Rightarrow> co_queue c \<noteq> [] | Handling es \<Rightarrow> True | _ \<Rightarrow> False)"

definition consumer_ok :: "int \<Rightarrow> bool \<Rightarrow> 'e consumer \<Rightarrow> bool" where
  "consumer_ok n sub c \<longleftrightarrow> (co_stop c \<longleftrightarrow> \<not> sub) \<and> int (length (co_queue c)) \<le> max 0 n \<and>
     (co_listener c = Asleep \<longrightarrow> co_queue c = []) \<and> (co_listener c = Returned \<longrightarrow> co_queue c = [] \<and> co_stop c)"

definition publishers_ok :: "'e group \<Rightarrow> bool" where
  "publishers_ok g \<longleftrightarrow> (0 < gr_max g \<longrightarrow> (\<exists>p e. gr_waiting g p = Some (e, False)) \<longrightarrow> (\<exists>c \<in> set (gr_consumers g). busy c))"

definition group_ok :: "'e group \<Rightarrow> bool" where
  "group_ok g \<longleftrightarrow> distinct (gr_subs g) \<and> set (gr_subs g) \<subseteq> {..<length (gr_consumers g)} \<and>
     (\<forall>i<length (gr_consumers g). consumer_ok (gr_max g) (i \<in> set (gr_subs g)) (gr_consumers g ! i)) \<and>
     publishers_ok g \<and> finite (dom (gr_waiting g))"

text \<open>What a consumer has been sent: handled, taken, queued.\<close>

definition inbox :: "'e consumer \<Rightarrow> 'e list" where
  "inbox c = co_handled c @ (case co_listener c of Handling es \<Rightarrow> es | _ \<Rightarrow> []) @ co_queue c"

definition group_view :: "'e group \<Rightarrow> (bool \<times> 'e list) list" where
  "group_view g = map (\<lambda>i. (i \<in> set (gr_subs g), inbox (gr_consumers g ! i))) [0..<length (gr_consumers g)]"

lemma inbox_simps [simp]:
  "inbox (wake c) = inbox c" "inbox (push_event e c) = inbox c @ [e]" "inbox new_consumer = []"
  "inbox (c\<lparr>co_stop := b\<rparr>) = inbox c"
  by (auto simp: inbox_def split: listener.split)

lemma inbox_listen: "co_listener c = Ready \<Longrightarrow> inbox (listen c) = inbox c"
  by (auto simp: inbox_def listen_def)

lemma length_group_view [simp]: "length (group_view g) = length (gr_consumers g)"
  by (simp add: group_view_def)

lemma nth_group_view [simp]:
  "i < length (gr_consumers g) \<Longrightarrow> group_view g ! i = (i \<in> set (gr_subs g), inbox (gr_consumers g ! i))"
  by (simp add: group_view_def)

subsection \<open>The steps keep the group in order\<close>

lemma group_okD:
  assumes "group_ok g"
  shows "distinct (gr_subs g)" and "i \<in> set (gr_subs g) \<Longrightarrow> i < length (gr_consumers g)"
    and "i < length (gr_consumers g) \<Longrightarrow> consumer_ok (gr_max g) (i \<in> set (gr_subs g)) (gr_consumers g ! i)"
    and "publishers_ok g" and "finite (dom (gr_waiting g))"
  using assms by (auto simp: group_ok_def)

lemma wake_all_simps [simp]:
  "gr_subs (wake_all g) = gr_subs g" "gr_max (wake_all g) = gr_max g" "gr_type (wake_all g) = gr_type g"
  "gr_consumers (wake_all g) = map wake (gr_consumers g)" "dom (gr_waiting (wake_all g)) = dom (gr_waiting g)"
  "gr_waiting (wake_all g) p = map_option (\<lambda>(e, w). (e, True)) (gr_waiting g p)"
  by (auto simp: wake_all_def)

lemma publishers_ok_wake_all: "publishers_ok (wake_all g)"
  by (auto simp: publishers_ok_def)

lemma consumer_ok_wake: "consumer_ok n s c \<Longrightarrow> consumer_ok n s (wake c)"
  by (auto simp: consumer_ok_def)

lemma group_ok_wake_all: "group_ok g \<Longrightarrow> group_ok (wake_all g)"
  by (auto simp: group_ok_def publishers_ok_wake_all consumer_ok_wake)

lemma group_ok_upd:
  assumes "group_ok g" and "i < length (gr_consumers g)"
    and "consumer_ok (gr_max g) (i \<in> set (gr_subs g)) (f (gr_consumers g ! i))"
    and "busy (gr_consumers g ! i) \<Longrightarrow> busy (f (gr_consumers g ! i))"
  shows "group_ok (upd_consumer i f g)"
proof -
  have "\<exists>c \<in> set ((gr_consumers g)[i := f (gr_consumers g ! i)]). busy c" if ex: "\<exists>c \<in> set (gr_consumers g). busy c"
  proof -
    from ex obtain j where j: "j < length (gr_consumers g)" "busy (gr_consumers g ! j)" by (auto simp: in_set_conv_nth)
    then have "busy ((gr_consumers g)[i := f (gr_consumers g ! i)] ! j)" using assms(2,4) by (auto simp: nth_list_update)
    with j(1) show ?thesis by (metis length_list_update nth_mem)
  qed
  then show ?thesis
    using assms(1-3) by (auto simp: group_ok_def publishers_ok_def upd_consumer_def nth_list_update)
qed

lemma group_ok_del: assumes "group_ok g" and "i < length (gr_consumers g)" shows "group_ok (del_consumer i g)"
proof -
  let ?cs = "(gr_consumers g)[i := (gr_consumers g ! i)\<lparr>co_stop := True\<rparr>]"
  note ok = group_okD [OF assms(1)]
  have subs: "set (remove1 i (gr_subs g)) = set (gr_subs g) - {i}" using ok(1) by simp
  have cons: "consumer_ok (gr_max g) (j \<in> set (remove1 i (gr_subs g))) (?cs ! j)" if "j < length ?cs" for j
    using ok(3) [of j] that assms(2) by (auto simp: subs nth_list_update consumer_ok_def)
  have "\<exists>c \<in> set ?cs. busy c" if ex: "\<exists>c \<in> set (gr_consumers g). busy c"
  proof -
    from ex obtain j where j: "j < length (gr_consumers g)" "busy (gr_consumers g ! j)" by (auto simp: in_set_conv_nth)
    then have "busy (?cs ! j)" using assms(2) by (auto simp: nth_list_update busy_def split: listener.splits)
    with j(1) show ?thesis by (metis length_list_update nth_mem)
  qed
  then have "publishers_ok (del_consumer i g)"
    using ok(4) by (auto simp: publishers_ok_def del_consumer_def upd_consumer_def)
  with ok cons show ?thesis
    by (auto simp: group_ok_def del_consumer_def upd_consumer_def subs)
qed

lemma group_ok_add: assumes "group_ok g" shows "group_ok (add_consumer g)"
  using assms by (auto simp: group_ok_def publishers_ok_def add_consumer_def nth_append less_Suc_eq consumer_ok_def)

lemma new_group_ok: "group_ok (new_group T n)"
  by (simp add: group_ok_def publishers_ok_def new_group_def)

lemma consumer_ok_listen:
  "co_listener c = Ready \<Longrightarrow> consumer_ok n s c \<Longrightarrow> consumer_ok n s (listen c)"
  by (auto simp: consumer_ok_def listen_def)

lemma group_ok_deliver:
  assumes "group_ok g" and "int (longest_queue (gr_consumers g) (gr_subs g)) < gr_max g"
  shows "group_ok (deliver e g)"
proof -
  let ?cs = "foldl (\<lambda>cs i. cs[i := push_event e (cs ! i)]) (gr_consumers g) (gr_subs g)"
  note ok = group_okD [OF assms(1)]
  have "consumer_ok (gr_max g) (i \<in> set (gr_subs g)) (wake (?cs ! i))" if "i < length (gr_consumers g)" for i
  proof (cases "i \<in> set (gr_subs g)")
    case True
    have "length (co_queue (gr_consumers g ! i)) \<le> longest_queue (gr_consumers g) (gr_subs g)"
      using True by (rule longest_queue_ge)
    with assms(2) ok(3) [OF that] True that show ?thesis
      by (auto simp: nth_push_all [OF ok(1)] consumer_ok_def)
  next
    case False
    with ok(3) [OF that] that show ?thesis by (auto simp: nth_push_all [OF ok(1)] consumer_ok_wake)
  qed
  moreover have "publishers_ok (deliver e g)" unfolding deliver_def Let_def by (rule publishers_ok_wake_all)
  ultimately show ?thesis using ok by (auto simp: group_ok_def deliver_def Let_def)
qed

lemma group_ok_broadcast:
  assumes "group_ok g"
  shows "group_ok (broadcast p e g)"
proof -
  note ok = group_okD [OF assms]
  let ?n = "longest_queue (gr_consumers g) (gr_subs g)"
  show ?thesis
  proof (cases "gr_max g \<le> int ?n")
    case True
    have "\<exists>c \<in> set (gr_consumers g). busy c" if pos: "0 < gr_max g"
    proof -
      have "0 < ?n" using True pos by linarith
      then obtain i where i: "i \<in> set (gr_subs g)" "length (co_queue (gr_consumers g ! i)) = ?n"
        using longest_queue_attained by blast
      have "co_queue (gr_consumers g ! i) \<noteq> []" using i(2) \<open>0 < ?n\<close> by auto
      then have "busy (gr_consumers g ! i)"
        using ok(3) [OF ok(2) [OF i(1)]] by (auto simp: consumer_ok_def busy_def split: listener.split)
      with ok(2) [OF i(1)] show ?thesis by (metis nth_mem)
    qed
    with ok True show ?thesis by (auto simp: broadcast_def Let_def group_ok_def publishers_ok_def)
  next
    case False
    let ?g = "g\<lparr>gr_max_len := ?n, gr_waiting := (gr_waiting g)(p := None)\<rparr>"
    have "group_ok ?g" using ok by (auto simp: group_ok_def publishers_ok_def split: if_splits)
    from group_ok_deliver [OF this] False show ?thesis by (simp add: broadcast_def Let_def)
  qed
qed

lemma group_step_ok:
  assumes "group_step ev g = Some g'" and "group_ok g"
  shows "group_ok g'"
proof (cases ev)
  case (GDel i)
  with assms show ?thesis by (auto simp: group_ok_del split: if_splits)
next
  case (GRetry p)
  with assms show ?thesis by (auto simp: group_ok_broadcast split: option.splits bool.splits)
next
  case (GListen i)
  then have i: "i < length (gr_consumers g)" "co_listener (gr_consumers g ! i) = Ready" "g' = upd_consumer i listen g"
    using assms(1) by (auto split: if_splits)
  show ?thesis unfolding i(3)
    using group_okD(3) [OF assms(2) i(1)] i(1,2)
    by (intro group_ok_upd [OF assms(2)] consumer_ok_listen) (auto simp: busy_def listen_def)
next
  case (GHandle i)
  then obtain e es where i: "i < length (gr_consumers g)" "co_listener (gr_consumers g ! i) = Handling (e # es)"
    "g' = upd_consumer i (\<lambda>c. c\<lparr>co_listener := Handling es, co_handled := co_handled c @ [e]\<rparr>) g"
    using assms(1) by (auto split: if_splits listener.splits list.splits)
  show ?thesis unfolding i(3)
    using group_okD(3) [OF assms(2) i(1)] i(1,2) by (intro group_ok_upd [OF assms(2)]) (auto simp: busy_def consumer_ok_def)
next
  case (GDone i)
  then have i: "i < length (gr_consumers g)" "g' = wake_all (upd_consumer i (\<lambda>c. c\<lparr>co_listener := Ready\<rparr>) g)"
    using assms(1) by (auto split: if_splits)
  let ?g = "upd_consumer i (\<lambda>c. c\<lparr>co_listener := Ready\<rparr>) g"
  have "consumer_ok (gr_max g) (j \<in> set (gr_subs g)) (wake (gr_consumers ?g ! j))" if "j < length (gr_consumers g)" for j
    using group_okD(3) [OF assms(2) that] that i(1) by (auto simp: upd_consumer_def nth_list_update consumer_ok_def)
  with assms(2) publishers_ok_wake_all [of ?g] show ?thesis
    unfolding i(2) by (auto simp: group_ok_def upd_consumer_def)
qed

subsection \<open>What the steps do to the inboxes\<close>

lemma group_view_cong:
  assumes "gr_subs g' = gr_subs g" and "length (gr_consumers g') = length (gr_consumers g)"
    and "\<And>i. i < length (gr_consumers g) \<Longrightarrow> inbox (gr_consumers g' ! i) = inbox (gr_consumers g ! i)"
  shows "group_view g' = group_view g"
  by (rule nth_equalityI) (simp_all add: assms)

lemma group_view_wake_all [simp]: "group_view (wake_all g) = group_view g"
  by (rule group_view_cong) auto

lemma group_view_upd:
  assumes "i < length (gr_consumers g)" and "inbox (f (gr_consumers g ! i)) = inbox (gr_consumers g ! i)"
  shows "group_view (upd_consumer i f g) = group_view g"
  using assms by (intro group_view_cong) (auto simp: upd_consumer_def nth_list_update)

lemma group_view_add:
  assumes "group_ok g"
  shows "group_view (add_consumer g) = group_view g @ [(True, [])]"
proof (rule nth_equalityI)
  show "length (group_view (add_consumer g)) = length (group_view g @ [(True, [])])" by (simp add: add_consumer_def)
next
  fix i assume "i < length (group_view (add_consumer g))"
  then have "i < length (gr_consumers g) \<or> i = length (gr_consumers g)" by (auto simp: add_consumer_def)
  then show "group_view (add_consumer g) ! i = (group_view g @ [(True, [])]) ! i"
    by (auto simp: group_view_def nth_append add_consumer_def simp del: upt_Suc)
qed

lemma group_view_del:
  assumes "group_ok g" and "i < length (gr_consumers g)"
  shows "group_view (del_consumer i g) = (group_view g)[i := (False, snd (group_view g ! i))]"
proof (rule nth_equalityI)
  show "length (group_view (del_consumer i g)) = length ((group_view g)[i := (False, snd (group_view g ! i))])"
    by (simp add: del_consumer_def upd_consumer_def)
next
  fix j assume "j < length (group_view (del_consumer i g))"
  then have j: "j < length (gr_consumers g)" by (simp add: del_consumer_def upd_consumer_def)
  then show "group_view (del_consumer i g) ! j = (group_view g)[i := (False, snd (group_view g ! i))] ! j"
    using assms(2) group_okD(1) [OF assms(1)]
    by (cases "i = j") (auto simp: group_view_def del_consumer_def upd_consumer_def)
qed

definition post_all :: "'e \<Rightarrow> (bool \<times> 'e list) list \<Rightarrow> (bool \<times> 'e list) list" where
  "post_all e v = map (\<lambda>(sub, q). (sub, if sub then q @ [e] else q)) v"

lemma group_view_deliver:
  assumes "distinct (gr_subs g)"
  shows "group_view (deliver e g) = post_all e (group_view g)"
  by (rule nth_equalityI) (auto simp: deliver_def Let_def post_all_def nth_push_all [OF assms])

lemma group_view_broadcast:
  assumes "group_ok g"
  shows "group_view (broadcast p e g) =
     (if gr_max g \<le> int (longest_queue (gr_consumers g) (gr_subs g)) then group_view g else post_all e (group_view g))"
  using group_view_deliver [of "g\<lparr>gr_max_len := longest_queue (gr_consumers g) (gr_subs g), gr_waiting := (gr_waiting g)(p := None)\<rparr>" e]
    group_okD(1) [OF assms]
  by (simp add: broadcast_def Let_def) (simp add: group_view_def)

text \<open>Listening, handling and the broadcast after it only move events from the queue to the handler.\<close>

lemma group_step_view:
  assumes "group_step ev g = Some g'" and "ev = GListen i \<or> ev = GHandle i \<or> ev = GDone i"
  shows "group_view g' = group_view g"
proof -
  consider "ev = GListen i" | "ev = GHandle i" | "ev = GDone i" using assms(2) by blast
  then show ?thesis
  proof cases
    case 1
    with assms(1) show ?thesis by (auto simp: group_view_upd inbox_listen split: if_splits)
  next
    case 2
    with assms(1) show ?thesis
      by (auto simp: group_view_upd inbox_def split: if_splits listener.splits list.splits)
  next
    case 3
    with assms(1) show ?thesis by (auto simp: group_view_upd inbox_def split: if_splits)
  qed
qed

lemma group_step_type: "group_step ev g = Some g' \<Longrightarrow> gr_type g' = gr_type g \<and> gr_max g' = gr_max g"
  by (cases ev) (auto simp: del_consumer_def upd_consumer_def broadcast_def deliver_def Let_def
      split: if_splits option.splits bool.splits listener.splits list.splits)

section \<open>The registry\<close>

text \<open>The inlined search is \<open>sort.Search\<close>.\<close>

lemma bin_search_sort_search: "bin_search keys t left right = sort_search (\<lambda>i. t \<le> keys ! i) left right"
proof (induction keys t left right rule: bin_search.induct)
  case (1 keys t left right)
  show ?case
  proof (cases "left < right")
    case True
    let ?mid = "left + (right - left) div 2"
    have mid: "(left + right) div 2 = ?mid" using True by linarith
    have "bin_search keys t left right =
        (if keys ! ?mid < t then bin_search keys t (?mid + 1) right else bin_search keys t left ?mid)"
      using True by (subst bin_search.simps) (simp only: Let_def if_True)
    also have "\<dots> = (if \<not> t \<le> keys ! ?mid then sort_search (\<lambda>i. t \<le> keys ! i) (?mid + 1) right
        else sort_search (\<lambda>i. t \<le> keys ! i) left ?mid)"
      using 1(1) [OF True refl] 1(2) [OF True refl] by (simp only: not_le split: if_split) blast
    also have "\<dots> = sort_search (\<lambda>i. t \<le> keys ! i) left right"
      using True by (subst (3) sort_search.simps) (simp only: Let_def mid if_True)
    finally show ?thesis .
  next
    case False
    then show ?thesis by (subst bin_search.simps, subst sort_search.simps) (simp only: if_False)
  qed
qed

lemma sort_search_first:
  assumes mono: "\<And>a b. a \<le> b \<Longrightarrow> b < n \<Longrightarrow> f a \<Longrightarrow> f b"
  shows "i \<le> j \<Longrightarrow> j \<le> n \<Longrightarrow> \<forall>k<i. \<not> f k \<Longrightarrow> \<forall>k\<ge>j. k < n \<longrightarrow> f k \<Longrightarrow>
     sort_search f i j \<le> j \<and> (\<forall>k < sort_search f i j. \<not> f k) \<and> (\<forall>k\<ge>sort_search f i j. k < n \<longrightarrow> f k)"
proof (induction "j - i" arbitrary: i j rule: less_induct)
  case less
  note pre = less.prems
  show ?case
  proof (cases "i < j")
    case True
    let ?h = "(i + j) div 2"
    have h: "i \<le> ?h" "?h < j" using True by auto
    show ?thesis
    proof (cases "f ?h")
      case yes: True
      have all: "\<forall>k\<ge>?h. k < n \<longrightarrow> f k" using mono yes by blast
      have eq: "sort_search f i j = sort_search f i ?h"
        using True yes by (subst sort_search.simps) (simp only: Let_def if_True not_True_eq_False if_False)
      have "?h - i < j - i" and "?h \<le> n" using h pre(2) by linarith+
      from less.hyps [OF this(1) h(1) this(2) pre(3) all] h show ?thesis unfolding eq by (meson less_imp_le order_trans)
    next
      case no: False
      have all: "\<forall>k<?h + 1. \<not> f k"
      proof (intro allI impI notI)
        fix k assume "k < ?h + 1" "f k"
        then have "f ?h" using mono [of k ?h] h pre(2) by linarith
        with no show False by blast
      qed
      have eq: "sort_search f i j = sort_search f (?h + 1) j"
        using True no by (subst sort_search.simps) (simp only: Let_def if_True not_False_eq_True)
      have "j - (?h + 1) < j - i" and "?h + 1 \<le> j" using h by linarith+
      from less.hyps [OF this pre(2) all pre(4)] show ?thesis unfolding eq .
    qed
  next
    case False
    then have "sort_search f i j = i" by (subst sort_search.simps) (simp only: if_False)
    with pre False show ?thesis by auto
  qed
qed

definition registry :: "'e dispatcher \<Rightarrow> 32 word \<rightharpoonup> nat" where
  "registry d = map_of (zip (di_keys d) (di_grps d))"

definition bus_ok :: "'e dispatcher \<Rightarrow> bool" where
  "bus_ok d \<longleftrightarrow> sorted (di_keys d) \<and> distinct (di_keys d) \<and> length (di_grps d) = length (di_keys d) \<and>
     distinct (di_grps d) \<and> set (di_grps d) = {..<length (di_heap d)} \<and>
     (\<forall>g \<in> set (di_heap d). group_ok g \<and> gr_max g = di_max d)"

lemma bus_okD:
  assumes "bus_ok d"
  shows "sorted (di_keys d)" and "distinct (di_keys d)" and "length (di_grps d) = length (di_keys d)"
    and "distinct (di_grps d)" and "set (di_grps d) = {..<length (di_heap d)}"
    and "a < length (di_heap d) \<Longrightarrow> group_ok (di_heap d ! a)" and "a < length (di_heap d) \<Longrightarrow> gr_max (di_heap d ! a) = di_max d"
  using assms by (auto simp: bus_ok_def)

lemma new_dispatcher_ok: "bus_ok (new_dispatcher n)"
  by (simp add: bus_ok_def new_dispatcher_def)

lemma registry_iff:
  assumes "bus_ok d"
  shows "registry d t = Some a \<longleftrightarrow> (\<exists>i<length (di_keys d). di_keys d ! i = t \<and> di_grps d ! i = a)"
proof -
  have "distinct (map fst (zip (di_keys d) (di_grps d)))" using bus_okD(2,3) [OF assms] by simp
  then show ?thesis using bus_okD(3) [OF assms] by (auto simp: registry_def map_of_eq_Some_iff in_set_zip)
qed

lemma registry_group: "bus_ok d \<Longrightarrow> registry d t = Some a \<Longrightarrow> a < length (di_heap d)"
  using bus_okD(3,5) nth_mem by (fastforce simp: registry_iff)

lemma registry_inj: "bus_ok d \<Longrightarrow> registry d t = Some a \<Longrightarrow> registry d t' = Some a \<Longrightarrow> t = t'"
  using bus_okD(3,4) [of d] by (auto simp: registry_iff nth_eq_iff_index_eq)

lemma registry_onto:
  assumes "bus_ok d" and "a < length (di_heap d)"
  obtains t where "registry d t = Some a"
proof -
  have "a \<in> set (di_grps d)" using bus_okD(5) [OF assms(1)] assms(2) by simp
  then obtain i where "i < length (di_keys d)" "di_grps d ! i = a"
    using bus_okD(3) [OF assms(1)] by (auto simp: in_set_conv_nth)
  then show ?thesis using that registry_iff [OF assms(1)] by blast
qed

text \<open>Where the search ends: all keys before are smaller, all from there on are not.\<close>

lemma search_splits:
  fixes t :: "32 word"
  assumes "sorted keys"
  shows "sort_search (\<lambda>i. t \<le> keys ! i) 0 (length keys) \<le> length keys" (is "?l \<le> _")
    and "k < sort_search (\<lambda>i. t \<le> keys ! i) 0 (length keys) \<Longrightarrow> keys ! k < t"
    and "sort_search (\<lambda>i. t \<le> keys ! i) 0 (length keys) \<le> k \<Longrightarrow> k < length keys \<Longrightarrow> t \<le> keys ! k"
proof -
  have "t \<le> keys ! b" if "a \<le> b" "b < length keys" "t \<le> keys ! a" for a b
    using sorted_nth_mono [OF assms(1) that(1,2)] that(3) by (rule order_trans [rotated])
  note first = sort_search_first [where f = "\<lambda>i. t \<le> keys ! i" and n = "length keys", OF this]
  have "?l \<le> length keys \<and> (\<forall>k<?l. \<not> t \<le> keys ! k) \<and> (\<forall>k\<ge>?l. k < length keys \<longrightarrow> t \<le> keys ! k)"
    by (rule first) simp_all
  then show "?l \<le> length keys" and "k < ?l \<Longrightarrow> keys ! k < t" and "?l \<le> k \<Longrightarrow> k < length keys \<Longrightarrow> t \<le> keys ! k"
    unfolding not_le by blast+
qed

lemma find_group_registry:
  assumes "bus_ok d"
  shows "find_group d t = registry d t"
proof -
  define l where "l = sort_search (\<lambda>i. t \<le> di_keys d ! i) 0 (length (di_keys d))"
  note sp = search_splits [OF bus_okD(1) [OF assms], where t = t, folded l_def]
  have fg: "find_group d t = (if l < length (di_keys d) \<and> di_keys d ! l = t then Some (di_grps d ! l) else None)"
    by (simp add: find_group_def Let_def bin_search_sort_search l_def)
  show ?thesis
  proof (cases "l < length (di_keys d) \<and> di_keys d ! l = t")
    case True
    then have "registry d t = Some (di_grps d ! l)" unfolding registry_iff [OF assms] by blast
    with True show ?thesis by (simp add: fg)
  next
    case False
    have "registry d t \<noteq> Some a" for a
    proof
      assume "registry d t = Some a"
      then obtain k where k: "k < length (di_keys d)" "di_keys d ! k = t" unfolding registry_iff [OF assms] by blast
      have "l \<le> k" using sp(2) [of k] k by (metis less_irrefl not_le)
      then have "di_keys d ! l \<le> t" and "l < length (di_keys d)"
        using sorted_nth_mono [OF bus_okD(1) [OF assms] _ k(1), of l] k by auto
      with sp(3) [OF order_refl] False show False by (meson order_antisym)
    qed
    with False show ?thesis unfolding fg by (cases "registry d t") auto
  qed
qed

lemma map_of_insert:
  assumes "t \<notin> fst ` set (xs @ ys)"
  shows "map_of (xs @ (t, a) # ys) = (map_of (xs @ ys))(t \<mapsto> a)"
  using assms by (induction xs) (auto simp: fun_eq_iff)

lemma bus_ok_insert:
  assumes "bus_ok d" and "registry d t = None" and "group_ok g" and "gr_max g = di_max d"
  defines "idx \<equiv> sort_search (\<lambda>i. t \<le> di_keys d ! i) 0 (length (di_keys d))"
  defines "d' \<equiv> d\<lparr>di_keys := take idx (di_keys d) @ [t] @ drop idx (di_keys d),
     di_grps := take idx (di_grps d) @ [length (di_heap d)] @ drop idx (di_grps d), di_heap := di_heap d @ [g]\<rparr>"
  shows "bus_ok d'" and "registry d' = (registry d)(t \<mapsto> length (di_heap d))"
proof -
  note ok = bus_okD [OF assms(1)]
  note sp = search_splits [OF ok(1), where t = t, folded idx_def]
  have tk: "t \<notin> set (di_keys d)"
    using assms(2) ok(3) by (auto simp: registry_def map_of_zip_is_None)
  have lt: "\<forall>x \<in> set (take idx (di_keys d)). x < t" using sp(2) by (auto simp: set_conv_nth)
  have ge: "\<forall>x \<in> set (drop idx (di_keys d)). t \<le> x"
  proof
    fix x assume "x \<in> set (drop idx (di_keys d))"
    then obtain k where "k < length (di_keys d) - idx" "x = di_keys d ! (idx + k)" by (auto simp: in_set_conv_nth)
    with sp(1) sp(3) [where k = "idx + k"] show "t \<le> x" by auto
  qed
  have "sorted (take idx (di_keys d) @ [t] @ drop idx (di_keys d))"
    using lt ge ok(1) by (auto simp: sorted_append sorted_wrt_take sorted_wrt_drop less_imp_le intro: order_trans)
      (meson less_imp_le order_trans)
  moreover have "distinct (take idx (di_keys d) @ [t] @ drop idx (di_keys d))"
    using ok(2) tk by (auto simp: set_take_disj_set_drop_if_distinct dest: in_set_takeD in_set_dropD)
  moreover have "distinct (take idx (di_grps d) @ [length (di_heap d)] @ drop idx (di_grps d))"
    using ok(4,5) by (auto simp: set_take_disj_set_drop_if_distinct dest!: in_set_takeD in_set_dropD)
  moreover have "set (take idx (di_grps d) @ [length (di_heap d)] @ drop idx (di_grps d)) = insert (length (di_heap d)) (set (di_grps d))"
    by (metis append_Cons append_Nil append_take_drop_id list.simps(15) set_append Un_insert_right)
  ultimately show "bus_ok d'"
    using assms(1,3,4) ok by (auto simp: bus_ok_def d'_def)
  have zip: "zip (di_keys d') (di_grps d') = take idx (zip (di_keys d) (di_grps d)) @ (t, length (di_heap d)) #
      drop idx (zip (di_keys d) (di_grps d))"
    using sp(1) ok(3) by (simp add: d'_def take_zip drop_zip)
  have "t \<notin> fst ` set (take idx (zip (di_keys d) (di_grps d)) @ drop idx (zip (di_keys d) (di_grps d)))"
    using tk by (auto dest: set_zip_leftD)
  from map_of_insert [OF this] show "registry d' = (registry d)(t \<mapsto> length (di_heap d))"
    unfolding registry_def zip by simp
qed

lemma put_group_ok:
  assumes "bus_ok d" and "a < length (di_heap d)" and "group_ok g" and "gr_max g = di_max d"
  shows "bus_ok (put_group a g d)" and "registry (put_group a g d) = registry d"
proof -
  have "set ((di_heap d)[a := g]) \<subseteq> insert g (set (di_heap d))" by (rule set_update_subset_insert)
  with assms show "bus_ok (put_group a g d)" by (auto simp: bus_ok_def put_group_def)
qed (simp add: registry_def put_group_def)

section \<open>What a subscriber is sent\<close>

text \<open>
  The dispatcher as its users see it: for each event type, the subscribers there have been, whether each is still
  subscribed, and all it was ever sent.
\<close>

datatype 'e mail = Join "32 word" | Leave "32 word" nat | Post "32 word" 'e

fun apply_mail :: "'e mail \<Rightarrow> (32 word \<Rightarrow> (bool \<times> 'e list) list) \<Rightarrow> 32 word \<Rightarrow> (bool \<times> 'e list) list" where
  "apply_mail (Join t) v = v(t := v t @ [(True, [])])"
| "apply_mail (Leave t i) v = v(t := (v t)[i := (False, snd (v t ! i))])"
| "apply_mail (Post t e) v = v(t := post_all e (v t))"

definition bus_view :: "'e dispatcher \<Rightarrow> 32 word \<Rightarrow> (bool \<times> 'e list) list" where
  "bus_view d t = (case registry d t of None \<Rightarrow> [] | Some a \<Rightarrow> group_view (di_heap d ! a))"

definition queue_full :: "'e group \<Rightarrow> bool" where
  "queue_full g \<longleftrightarrow> gr_max g \<le> int (longest_queue (gr_consumers g) (gr_subs g))"

definition key_of :: "'e dispatcher \<Rightarrow> nat \<Rightarrow> 32 word" where
  "key_of d a = (case map_of (zip (di_grps d) (di_keys d)) a of None \<Rightarrow> 0 | Some t \<Rightarrow> t)"

text \<open>
  The mail a step sends. A publisher that finds a queue full sends nothing until one of its retries does not.
\<close>

fun mail_of :: "'e bus_event \<Rightarrow> 'e dispatcher \<Rightarrow> 'e mail list" where
  "mail_of (BSubscribe T t) d = [Join t]"
| "mail_of (BPublish T t p e) d =
     (case registry d t of None \<Rightarrow> [Post t e] | Some a \<Rightarrow> if queue_full (di_heap d ! a) then [] else [Post t e])"
| "mail_of (BGroup a (GDel i)) d = [Leave (key_of d a) i]"
| "mail_of (BGroup a (GRetry p)) d =
     (case gr_waiting (di_heap d ! a) p of None \<Rightarrow> []
      | Some (e, w) \<Rightarrow> if queue_full (di_heap d ! a) then [] else [Post (key_of d a) e])"
| "mail_of ev d = []"

fun mails :: "'e bus_event list \<Rightarrow> 'e dispatcher \<Rightarrow> 'e mail list" where
  "mails [] d = []"
| "mails (ev # evs) d = mail_of ev d @ (case bus_step ev d of Inl e \<Rightarrow> [] | Inr d' \<Rightarrow> mails evs d')"

fun posted :: "32 word \<Rightarrow> 'e mail list \<Rightarrow> 'e list" where
  "posted t [] = []"
| "posted t (Post u e # ms) = (if u = t then e # posted t ms else posted t ms)"
| "posted t (m # ms) = posted t ms"

fun published_events :: "32 word \<Rightarrow> 'e bus_event list \<Rightarrow> 'e list" where
  "published_events t [] = []"
| "published_events t (BPublish T u p e # evs) = (if u = t then e # published_events t evs else published_events t evs)"
| "published_events t (ev # evs) = published_events t evs"

text \<open>The events of the publishers that wait.\<close>

definition waiting_mset :: "(nat \<rightharpoonup> 'e \<times> bool) \<Rightarrow> 'e multiset" where
  "waiting_mset w = image_mset (\<lambda>p. fst (the (w p))) (mset_set (dom w))"

definition held_back :: "'e dispatcher \<Rightarrow> 32 word \<Rightarrow> 'e multiset" where
  "held_back d t = (case registry d t of None \<Rightarrow> {#} | Some a \<Rightarrow> waiting_mset (gr_waiting (di_heap d ! a)))"

lemma waiting_mset_upd:
  assumes "finite (dom w)" and "w p = None"
  shows "waiting_mset (w(p \<mapsto> (e, b))) = add_mset e (waiting_mset w)"
proof -
  have p: "p \<notin> dom w" using assms(2) by auto
  have "image_mset (\<lambda>q. fst (the ((w(p \<mapsto> (e, b))) q))) (mset_set (dom w)) = image_mset (\<lambda>q. fst (the (w q))) (mset_set (dom w))"
    using p assms(1) by (intro image_mset_cong) auto
  moreover have "mset_set (insert p (dom w)) = add_mset p (mset_set (dom w))"
    using assms(1) p by (rule mset_set.insert)
  ultimately show ?thesis by (simp add: waiting_mset_def)
qed

lemma waiting_mset_del:
  assumes "finite (dom w)" and "w p = Some (e, b)"
  shows "waiting_mset w = add_mset e (waiting_mset (w(p := None)))"
proof -
  have "w = (w(p := None))(p \<mapsto> (e, b))" using assms(2) by auto
  moreover have "finite (dom (w(p := None)))" using assms(1) by simp
  ultimately show ?thesis using waiting_mset_upd [of "w(p := None)" p e b] by simp
qed

lemma waiting_mset_woken: "waiting_mset (\<lambda>p. map_option (\<lambda>(e, w). (e, True)) (f p)) = waiting_mset f"
proof -
  have dom: "dom (\<lambda>p. map_option (\<lambda>(e, w). (e, True)) (f p)) = dom f" by auto
  show ?thesis
  proof (cases "finite (dom f)")
    case True
    then show ?thesis unfolding waiting_mset_def dom by (intro image_mset_cong) auto
  qed (simp add: waiting_mset_def dom)
qed

lemma waiting_deliver: "waiting_mset (gr_waiting (deliver e g)) = waiting_mset (gr_waiting g)"
  by (simp add: deliver_def Let_def wake_all_def waiting_mset_woken)

lemma waiting_broadcast:
  assumes "group_ok g"
  shows "waiting_mset (gr_waiting (broadcast p e g)) =
     (if queue_full g then add_mset e (waiting_mset ((gr_waiting g)(p := None))) else waiting_mset ((gr_waiting g)(p := None)))"
proof -
  have "finite (dom ((gr_waiting g)(p := None)))" using group_okD(5) [OF assms] by simp
  from waiting_mset_upd [OF this, of p e False] show ?thesis
    by (simp add: broadcast_def Let_def queue_full_def waiting_deliver)
qed

lemma key_of_registry:
  assumes "bus_ok d" and "registry d t = Some a"
  shows "key_of d a = t"
proof -
  obtain i where i: "i < length (di_keys d)" "di_keys d ! i = t" "di_grps d ! i = a"
    using assms registry_iff by blast
  have "map_of (zip (di_grps d) (di_keys d)) a = Some t"
    using map_of_zip_nth [of "di_grps d" "di_keys d" i] bus_okD(3,4) [OF assms(1)] i by simp
  then show ?thesis by (simp add: key_of_def)
qed

text \<open>Replacing one group changes the view, and the waiting events, of its type only.\<close>

lemma put_group_view:
  assumes "bus_ok d" and "registry d t = Some a"
  shows "bus_view (put_group a g d) = (bus_view d)(t := group_view g)"
    and "held_back (put_group a g d) = (held_back d)(t := waiting_mset (gr_waiting g))"
proof -
  have reg: "registry (put_group a g d) = registry d" by (simp add: registry_def put_group_def)
  have same: "di_heap (put_group a g d) ! b = (if b = a then g else di_heap d ! b)" for b
    using registry_group [OF assms] by (simp add: put_group_def)
  have other: "b \<noteq> a" if "registry d u = Some b" "u \<noteq> t" for u b
    using registry_inj [OF assms(1) _ assms(2)] that by blast
  show "bus_view (put_group a g d) = (bus_view d)(t := group_view g)"
    using assms(2) other by (auto simp: fun_eq_iff bus_view_def reg same split: option.split)
  show "held_back (put_group a g d) = (held_back d)(t := waiting_mset (gr_waiting g))"
    using assms(2) other by (auto simp: fun_eq_iff held_back_def reg same split: option.split)
qed

lemma bus_viewI: "registry d t = Some a \<Longrightarrow> bus_view d t = group_view (di_heap d ! a)"
  and held_backI: "registry d t = Some a \<Longrightarrow> held_back d t = waiting_mset (gr_waiting (di_heap d ! a))"
  by (simp_all add: bus_view_def held_back_def)

text \<open>One step: the invariant, the mail it sends, and the events that wait.\<close>

definition step_sound :: "'e bus_event \<Rightarrow> 'e dispatcher \<Rightarrow> 'e dispatcher \<Rightarrow> bool" where
  "step_sound ev d d' \<longleftrightarrow> bus_ok d' \<and> di_max d' = di_max d \<and> bus_view d' = fold apply_mail (mail_of ev d) (bus_view d) \<and>
     (\<forall>t. mset (published_events t [ev]) + held_back d t = mset (posted t (mail_of ev d)) + held_back d' t)"

lemma subscribe_sound:
  assumes "subscribe_to T t d = Inr d'" and "bus_ok d"
  shows "step_sound (BSubscribe T t) d d'"
proof (cases "registry d t")
  case None
  define idx where "idx = sort_search (\<lambda>i. t \<le> di_keys d ! i) 0 (length (di_keys d))"
  let ?g = "add_consumer (new_group T (di_max d))"
  have g: "group_ok ?g" "gr_max ?g = di_max d" "group_view ?g = [(True, [])]" "gr_waiting ?g = Map.empty"
    using group_ok_add [OF new_group_ok, of T "di_max d"] group_view_add [OF new_group_ok, of T "di_max d"]
    by (simp_all add: add_consumer_def new_group_def group_view_def)
  have d': "d' = d\<lparr>di_keys := take idx (di_keys d) @ [t] @ drop idx (di_keys d),
      di_grps := take idx (di_grps d) @ [length (di_heap d)] @ drop idx (di_grps d), di_heap := di_heap d @ [?g]\<rparr>"
    using assms(1) None by (simp add: subscribe_to_def find_group_registry [OF assms(2)] idx_def Let_def split: if_splits)
  note ins = bus_ok_insert [OF assms(2) None g(1,2), folded idx_def, folded d']
  have heap: "di_heap d' ! a = di_heap d ! a" if "registry d u = Some a" for u a
    using registry_group [OF assms(2) that] by (simp add: d' nth_append)
  have new: "di_heap d' ! length (di_heap d) = ?g" by (simp add: d')
  have "bus_view d' = (bus_view d)(t := [(True, [])])" and "held_back d' = held_back d"
    using None heap by (auto simp: fun_eq_iff bus_view_def held_back_def ins(2) new g waiting_mset_def split: option.split)
  moreover have "bus_view d t = []" using None by (simp add: bus_view_def)
  moreover have "di_max d' = di_max d" by (simp add: d')
  ultimately show ?thesis using ins(1) by (simp add: step_sound_def)
next
  case (Some a)
  let ?g = "add_consumer (di_heap d ! a)"
  have d': "d' = put_group a ?g d"
    using assms(1) Some by (auto simp: subscribe_to_def find_group_registry [OF assms(2)] typed_group_def split: if_splits)
  note a = registry_group [OF assms(2) Some]
  note ok = bus_okD(6,7) [OF assms(2) a]
  have "bus_ok d'" unfolding d' using ok group_ok_add [OF ok(1)] by (intro put_group_ok(1) [OF assms(2) a]) (auto simp: add_consumer_def)
  moreover have "gr_waiting ?g = gr_waiting (di_heap d ! a)" by (simp add: add_consumer_def)
  moreover have "di_max d' = di_max d" by (simp add: d' put_group_def)
  ultimately show ?thesis
    using put_group_view [OF assms(2) Some, of ?g] bus_viewI [OF Some] held_backI [OF Some] group_view_add [OF ok(1)]
    by (auto simp: step_sound_def d')
qed

lemma broadcast_sound:
  assumes "bus_ok d" and "registry d t = Some a" and d': "d' = put_group a (broadcast p e (di_heap d ! a)) d"
  defines "g \<equiv> di_heap d ! a"
  shows "bus_ok d'" and "di_max d' = di_max d"
    and "bus_view d' = fold apply_mail (if queue_full g then [] else [Post t e]) (bus_view d)"
    and "held_back d' = (held_back d)(t := (if queue_full g then {#e#} else {#}) + waiting_mset ((gr_waiting g)(p := None)))"
proof -
  note a = registry_group [OF assms(1,2)]
  note ok = bus_okD(6,7) [OF assms(1) a, folded g_def]
  have max: "gr_max (broadcast p e g) = di_max d"
    using ok(2) by (simp add: broadcast_def Let_def deliver_def)
  note view = put_group_view [OF assms(1,2), of "broadcast p e g"]
  show "bus_ok d'" unfolding d' g_def [symmetric] by (rule put_group_ok(1) [OF assms(1) a group_ok_broadcast [OF ok(1)] max])
  show "di_max d' = di_max d" by (simp add: d' put_group_def)
  show "bus_view d' = fold apply_mail (if queue_full g then [] else [Post t e]) (bus_view d)"
    using view(1) bus_viewI [OF assms(2), folded g_def] group_view_broadcast [OF ok(1), of p e]
    by (auto simp: d' g_def [symmetric] queue_full_def fun_eq_iff)
  show "held_back d' = (held_back d)(t := (if queue_full g then {#e#} else {#}) + waiting_mset ((gr_waiting g)(p := None)))"
    using view(2) waiting_broadcast [OF ok(1), of p e] by (simp add: d' g_def [symmetric])
qed

lemma publish_sound:
  assumes "publish T t p e d = Inr d'" and "bus_ok d"
  shows "step_sound (BPublish T t p e) d d'"
proof (cases "registry d t")
  case None
  with assms have "d' = d" by (simp add: publish_def find_group_registry)
  moreover have "bus_view d t = []" using None by (simp add: bus_view_def)
  ultimately show ?thesis using assms(2) None by (auto simp: step_sound_def post_all_def fun_eq_iff)
next
  case (Some a)
  let ?g = "di_heap d ! a"
  have d': "d' = put_group a (broadcast p e ?g) d" and free: "gr_waiting ?g p = None"
    using assms(1) Some by (simp_all add: publish_def find_group_registry [OF assms(2)] typed_group_def split: if_splits) (cases "gr_waiting ?g p", auto)
  have "(gr_waiting ?g)(p := None) = gr_waiting ?g" using free by auto
  with broadcast_sound [OF assms(2) Some d'] held_backI [OF Some] Some show ?thesis by (auto simp: step_sound_def)
qed

lemma group_event_sound:
  assumes "bus_step (BGroup a ev) d = Inr d'" and "bus_ok d"
  shows "step_sound (BGroup a ev) d d'"
proof -
  have a: "a < length (di_heap d)" using assms(1) by (auto split: if_splits)
  obtain g where g: "group_step ev (di_heap d ! a) = Some g" and d': "d' = put_group a g d"
    using assms(1) by (auto split: if_splits option.splits)
  obtain t where t: "registry d t = Some a" using registry_onto [OF assms(2) a] .
  note ok = bus_okD(6,7) [OF assms(2) a]
  note key = key_of_registry [OF assms(2) t]
  note pg = put_group_ok [OF assms(2) a group_step_ok [OF g ok(1)]]
  have max: "gr_max g = di_max d" using group_step_type [OF g] ok(2) by simp
  note here = pg(1) [OF max, folded d'] put_group_view [OF assms(2) t, of g, folded d'] bus_viewI [OF t] held_backI [OF t]
  have dmax: "di_max d' = di_max d" by (simp add: d' put_group_def)
  have quiet: ?thesis if "ev = GListen i \<or> ev = GHandle i \<or> ev = GDone i" for i
  proof -
    have "group_view g = group_view (di_heap d ! a)" by (rule group_step_view [OF g that])
    moreover have "waiting_mset (gr_waiting g) = waiting_mset (gr_waiting (di_heap d ! a))"
      using g that by (auto simp: upd_consumer_def wake_all_def waiting_mset_woken split: if_splits listener.splits list.splits)
    ultimately show ?thesis using here dmax that by (auto simp: step_sound_def fun_eq_iff)
  qed
  show ?thesis
  proof (cases ev)
    case (GDel i)
    then have i: "i < length (gr_consumers (di_heap d ! a))" "g = del_consumer i (di_heap d ! a)" using g by (auto split: if_splits)
    have "gr_waiting g = gr_waiting (di_heap d ! a)" by (simp add: i(2) del_consumer_def upd_consumer_def)
    with here dmax group_view_del [OF ok(1) i(1)] show ?thesis by (auto simp: step_sound_def GDel key i(2))
  next
    case (GRetry p)
    then obtain e where e: "gr_waiting (di_heap d ! a) p = Some (e, True)" "g = broadcast p e (di_heap d ! a)"
      using g by (auto split: option.splits bool.splits)
    note b = broadcast_sound [OF assms(2) t, of d' p e] waiting_mset_del [OF group_okD(5) [OF ok(1)] e(1)]
    with e d' here(5) show ?thesis by (auto simp: step_sound_def GRetry key)
  qed (use quiet in auto)
qed

lemma close_sound:
  assumes "bus_ok d"
  shows "step_sound BClose d (d\<lparr>di_closed := True\<rparr>)"
proof -
  have "registry (d\<lparr>di_closed := True\<rparr>) = registry d" by (simp add: registry_def)
  moreover have "bus_ok (d\<lparr>di_closed := True\<rparr>)" using assms by (simp add: bus_ok_def)
  ultimately show ?thesis by (simp add: step_sound_def bus_view_def held_back_def fun_eq_iff cong: option.case_cong)
qed

lemma bus_step_sound:
  assumes "bus_step ev d = Inr d'" and "bus_ok d"
  shows "step_sound ev d d'"
proof (cases ev)
  case BClose
  with assms(1) have "d' = d\<lparr>di_closed := True\<rparr>" by (simp add: close_dispatcher_def split: if_splits)
  with BClose close_sound [OF assms(2)] show ?thesis by simp
qed (use assms subscribe_sound publish_sound group_event_sound in auto)

lemma published_events_Cons: "published_events t (ev # evs) = published_events t [ev] @ published_events t evs"
  by (cases ev) auto

lemma posted_append: "posted t (ms @ ns) = posted t ms @ posted t ns"
  by (induction t ms rule: posted.induct) auto

lemma bus_run_sound:
  assumes "bus_run evs d = Inr d'" and "bus_ok d"
  shows "bus_ok d' \<and> di_max d' = di_max d \<and> bus_view d' = fold apply_mail (mails evs d) (bus_view d) \<and>
     mset (published_events t evs) + held_back d t = mset (posted t (mails evs d)) + held_back d' t"
  using assms
proof (induction evs arbitrary: d)
  case Nil
  then show ?case by (simp add: bus_run_def)
next
  case (Cons ev evs)
  obtain d1 where d1: "bus_step ev d = Inr d1" "bus_run evs d1 = Inr d'"
    using Cons.prems(1) by (auto simp: bus_run_def bindE_simps)
  have s: "step_sound ev d d1" by (rule bus_step_sound [OF d1(1) Cons.prems(2)])
  then have "bus_ok d1" by (simp add: step_sound_def)
  note IH = Cons.IH [OF d1(2) this]
  have "mset (published_events t (ev # evs)) + held_back d t = mset (published_events t evs) + (mset (published_events t [ev]) + held_back d t)"
    unfolding published_events_Cons [of t ev evs] by simp
  also have "\<dots> = mset (posted t (mail_of ev d)) + (mset (published_events t evs) + held_back d1 t)"
    using s by (simp add: step_sound_def)
  also have "\<dots> = mset (posted t (mails (ev # evs) d)) + held_back d' t"
    using IH d1(1) by (simp add: posted_append)
  finally show ?case using IH s d1(1) by (simp add: step_sound_def)
qed

section \<open>Publishers are woken\<close>

fun group_run :: "'e group_event list \<Rightarrow> 'e group \<Rightarrow> 'e group option" where
  "group_run [] g = Some g"
| "group_run (ev # evs) g = (case group_step ev g of None \<Rightarrow> None | Some g' \<Rightarrow> group_run evs g')"

definition asleep :: "'e group \<Rightarrow> nat \<Rightarrow> bool" where
  "asleep g p \<longleftrightarrow> (\<exists>e. gr_waiting g p = Some (e, False))"

lemma handle_all_wakes:
  assumes "i < length (gr_consumers g)" and "co_listener (gr_consumers g ! i) = Handling es"
  shows "\<exists>g'. group_run (replicate (length es) (GHandle i) @ [GDone i]) g = Some g' \<and> (\<forall>p. \<not> asleep g' p)"
  using assms
proof (induction es arbitrary: g)
  case Nil
  then show ?case by (auto simp: asleep_def)
next
  case (Cons e es)
  let ?g = "upd_consumer i (\<lambda>c. c\<lparr>co_listener := Handling es, co_handled := co_handled c @ [e]\<rparr>) g"
  have "i < length (gr_consumers ?g)" and "co_listener (gr_consumers ?g ! i) = Handling es"
    using Cons.prems by (auto simp: upd_consumer_def)
  from Cons.IH [OF this] Cons.prems show ?case by simp
qed

lemma busy_wakes:
  assumes "i < length (gr_consumers g)" and "busy (gr_consumers g ! i)"
  shows "\<exists>steps g'. set steps \<subseteq> {GListen i, GHandle i, GDone i} \<and> group_run steps g = Some g' \<and> (\<forall>p. \<not> asleep g' p)"
proof (cases "co_listener (gr_consumers g ! i)")
  case Ready
  let ?q = "co_queue (gr_consumers g ! i)" and ?g = "upd_consumer i listen g"
  have "?q \<noteq> []" using assms(2) Ready by (simp add: busy_def)
  then have "i < length (gr_consumers ?g)" and "co_listener (gr_consumers ?g ! i) = Handling ?q"
    using assms(1) by (auto simp: upd_consumer_def listen_def)
  from handle_all_wakes [OF this] obtain g' where
    "group_run (replicate (length ?q) (GHandle i) @ [GDone i]) ?g = Some g'" "\<forall>p. \<not> asleep g' p" by blast
  then have "group_run (GListen i # replicate (length ?q) (GHandle i) @ [GDone i]) g = Some g'"
    using assms(1) Ready by simp
  with \<open>\<forall>p. \<not> asleep g' p\<close> show ?thesis
    by (intro exI [of _ "GListen i # replicate (length ?q) (GHandle i) @ [GDone i]"] exI [of _ g']) auto
next
  case (Handling es)
  from handle_all_wakes [OF assms(1) this] show ?thesis
    by (elim exE) (rule exI [of _ "replicate (length es) (GHandle i) @ [GDone i]"], auto)
qed (use assms(2) in \<open>auto simp: busy_def\<close>)

section \<open>Properties\<close>

text \<open>Two subscribers of type 7, the second of which leaves; the bound is one event per queue.\<close>

definition demo_bus :: "nat bus_event list" where
  "demo_bus = [BSubscribe ''M'' 7, BSubscribe ''L'' 3, BPublish ''M'' 7 0 10, BSubscribe ''M'' 7, BPublish ''M'' 7 1 11,
     BGroup 0 (GListen 0), BGroup 0 (GHandle 0), BGroup 0 (GDone 0), BGroup 0 (GRetry 1), BGroup 0 (GDel 1),
     BPublish ''M'' 7 2 12]"

lemma demo_bus_result:
  "map_sum id (\<lambda>d. (bus_view d 7, bus_view d 3, map (\<lambda>g. map co_handled (gr_consumers g)) (di_heap d), gr_waiting (di_heap d ! 0) 2))
     (bus_run demo_bus (new_dispatcher 1)) =
   Inr ([(True, [10, 11]), (False, [11])], [(True, [])], [[[10], []], [[]]], Some (12, False))"
  by code_simp

text \<open>
  C25. The dispatcher delivers: in every interleaving of subscriptions, publishers and listeners, each
  subscriber was sent (has handled, has taken or has queued, in this order) exactly the events posted to its type from
  its subscription to its removal, in their order, and removals cut nothing off what was queued before; the events
  published to a type are exactly those posted and those of publishers that still wait for room.
\<close>
theorem bus_delivers:
  assumes "bus_run evs (new_dispatcher n) = Inr d"
  shows "bus_view d = fold apply_mail (mails evs (new_dispatcher n)) (\<lambda>t. []) \<and>
     (\<forall>t. mset (published_events t evs) = mset (posted t (mails evs (new_dispatcher n))) + held_back d t)"
proof -
  have "bus_view (new_dispatcher n :: 'a dispatcher) = (\<lambda>t. [])" and "held_back (new_dispatcher n :: 'a dispatcher) = (\<lambda>t. {#})"
    by (auto simp: fun_eq_iff bus_view_def held_back_def registry_def new_dispatcher_def)
  with bus_run_sound [OF assms new_dispatcher_ok] show ?thesis by auto
qed

theorem bus_delivers_witness:
  "\<exists>d. bus_run demo_bus (new_dispatcher 1) = Inr d \<and> bus_view d 7 = [(True, [10, 11]), (False, [11])] \<and>
     bus_view d = fold apply_mail (mails demo_bus (new_dispatcher 1)) (\<lambda>t. [])"
proof -
  from demo_bus_result obtain d where "bus_run demo_bus (new_dispatcher 1) = Inr d" "bus_view d 7 = [(True, [10, 11]), (False, [11])]"
    by (cases "bus_run demo_bus (new_dispatcher 1)") auto
  with bus_delivers show ?thesis by blast
qed

text \<open>
  C26. Back pressure is safe: no queue exceeds the bound, and a publisher that sleeps is always woken: some listener
  has work, and once it has handled what it takes, no publisher of the group is asleep.
\<close>
theorem bus_wakes_publishers:
  assumes "bus_run evs (new_dispatcher n) = Inr d" and "0 < n" and "g \<in> set (di_heap d)"
  shows "(\<forall>c \<in> set (gr_consumers g). int (length (co_queue c)) \<le> n) \<and>
     (asleep g p \<longrightarrow> (\<exists>i steps g'. i < length (gr_consumers g) \<and> set steps \<subseteq> {GListen i, GHandle i, GDone i} \<and>
        group_run steps g = Some g' \<and> (\<forall>p. \<not> asleep g' p)))"
proof -
  have ok: "bus_ok d" and "di_max d = n"
    using bus_run_sound [OF assms(1) new_dispatcher_ok] by (auto simp: new_dispatcher_def)
  with assms(3) have g: "group_ok g" "gr_max g = n" by (auto simp: bus_ok_def)
  have "int (length (co_queue c)) \<le> n" if "c \<in> set (gr_consumers g)" for c
    using that group_okD(3) [OF g(1)] g(2) assms(2) by (fastforce simp: in_set_conv_nth consumer_ok_def)
  moreover have "\<exists>i<length (gr_consumers g). busy (gr_consumers g ! i)" if "asleep g p"
    using group_okD(4) [OF g(1)] that g(2) assms(2) by (force simp: publishers_ok_def asleep_def in_set_conv_nth)
  ultimately show ?thesis using busy_wakes by blast
qed

theorem bus_wakes_publishers_witness:
  "\<exists>d g. bus_run demo_bus (new_dispatcher 1) = Inr d \<and> g \<in> set (di_heap d) \<and> asleep g 2 \<and>
     (\<exists>i steps g'. group_run steps g = Some g' \<and> \<not> asleep g' 2 \<and> set steps \<subseteq> {GListen i, GHandle i, GDone i})"
proof -
  from demo_bus_result obtain d where d: "bus_run demo_bus (new_dispatcher 1) = Inr d"
    "gr_waiting (di_heap d ! 0) 2 = Some (12, False)" "di_heap d \<noteq> []"
    by (cases "bus_run demo_bus (new_dispatcher 1)") auto
  have g: "di_heap d ! 0 \<in> set (di_heap d)" and a: "asleep (di_heap d ! 0) 2" using d(2,3) by (auto simp: asleep_def)
  obtain i steps g' where "group_run steps (di_heap d ! 0) = Some g'" "\<forall>p. \<not> asleep g' p"
    "set steps \<subseteq> {GListen i, GHandle i, GDone i}"
    using bus_wakes_publishers [OF d(1) _ g, of 2] a by auto
  with d(1) g a show ?thesis by blast
qed

end
