(* ===== verification/ConfigMerge.thy ===== *)
theory ConfigMerge
  imports Prelude
begin

text \<open>
  Merging configuration sources (\<open>internal/config/merge.go\<close>). A parsed YAML src is a tree of mappings,
  sequences and scalars; the trees of all sources are merged into the first. The meaning of a tree is the node it
  has at each path of keys.
\<close>

section \<open>Nodes\<close>

text \<open>
  A mapping is the list of its keys and values in the order of the file: keys may repeat in the tree, as in
  \<open>yaml.Node\<close>. An alias is the name of its anchor.
\<close>

datatype ynode =
    Scalar (sc_tag: string) (sc_value: string)
  | Sequence "ynode list"
  | Mapping "(string \<times> ynode) list"
  | Alias string

datatype merge_error =
    ConflictValue string string
  | ConflictKinds string string
  | ExpectedMapping string string
  | DuplicateEntity string string string
  | TopLevelNotMapping string

definition is_null_scalar :: "ynode \<Rightarrow> bool" where
  "is_null_scalar n = (case n of Scalar tag v \<Rightarrow> (tag = ''!!null'' \<or> tag = []) \<and> v = [] | _ \<Rightarrow> False)"

text \<open>The index of a mapping: the last value of a key.\<close>

definition index_mapping :: "(string \<times> ynode) list \<Rightarrow> string \<rightharpoonup> ynode" where
  "index_mapping es = map_of (rev es)"

definition join_path :: "string \<Rightarrow> string \<Rightarrow> string" where
  "join_path parent key = (if parent = [] then key else parent @ ''.'' @ key)"

definition identity_map_paths :: "string list" where
  "identity_map_paths = [''models'', ''groups'', ''profiles'', ''selectors'', ''peers'', ''matrix'',
     ''routing.router.settings.groups'', ''routing.router.settings.matrix'', ''routing.router.settings.capacity.pools'']"

section \<open>Merging\<close>

fun merge_identity_map :: "string \<Rightarrow> string \<Rightarrow> string \<Rightarrow> ynode \<Rightarrow> ynode \<Rightarrow> merge_error + ynode" where
  "merge_identity_map path name src (Mapping d) (Mapping s) =
     (let idx = index_mapping d
      in bindE (foldE (\<lambda>(k, v) acc. if idx k \<noteq> None then Inl (DuplicateEntity name k src) else Inr (acc @ [(k, v)])) s d)
           (\<lambda>es. Inr (Mapping es)))"
| "merge_identity_map path name src d s = Inl (ExpectedMapping path src)"

text \<open>The second pass of \<open>mergeNodes\<close>: the keys only the source has.\<close>

definition append_new :: "(string \<times> ynode) list \<Rightarrow> (string \<times> ynode) list \<Rightarrow> (string \<times> ynode) list" where
  "append_new d s = d @ filter (\<lambda>(k, v). index_mapping d k = None) s"

fun merge_value :: "string \<Rightarrow> string \<Rightarrow> ynode \<Rightarrow> ynode \<Rightarrow> merge_error + ynode"
  and merge_shared :: "string \<Rightarrow> string \<Rightarrow> (string \<times> ynode) list \<Rightarrow> (string \<times> ynode) list \<Rightarrow>
     merge_error + (string \<times> ynode) list" where
  "merge_value path src (Mapping d) (Mapping s) =
     bindE (merge_shared path src d s) (\<lambda>d'. Inr (Mapping (append_new d' s)))"
| "merge_value path src (Sequence d) (Sequence s) = Inr (Sequence (d @ s))"
| "merge_value path src (Scalar t v) (Scalar t' v') =
     (if is_null_scalar (Scalar t v) then Inr (Scalar t' v')
      else if is_null_scalar (Scalar t' v') then Inr (Scalar t v)
      else if v = v' \<and> t = t' then Inr (Scalar t v)
      else Inl (ConflictValue path src))"
| "merge_value path src d s =
     (if is_null_scalar d then Inr s else if is_null_scalar s then Inr d else Inl (ConflictKinds path src))"
| "merge_shared path src [] s = Inr []"
| "merge_shared path src ((k, v) # d) s =
     (case index_mapping s k of
        None \<Rightarrow> bindE (merge_shared path src d s) (\<lambda>d'. Inr ((k, v) # d'))
      | Some sv \<Rightarrow>
          bindE (if join_path path k \<in> set identity_map_paths
                 then merge_identity_map (join_path path k) k src v sv
                 else merge_value (join_path path k) src v sv)
            (\<lambda>v'. bindE (merge_shared path src d s) (\<lambda>d'. Inr ((k, v') # d'))))"

text \<open>
  The root of a parsed file. A root without content (an empty file, an empty mapping, a scalar) counts as an empty
  file.
\<close>

definition source_root :: "string \<Rightarrow> ynode option \<Rightarrow> merge_error + ynode option" where
  "source_root src doc =
     (case doc of
        None \<Rightarrow> Inr None
      | Some (Mapping []) \<Rightarrow> Inr None
      | Some (Mapping es) \<Rightarrow> Inr (Some (Mapping es))
      | Some (Sequence (x # xs)) \<Rightarrow> Inl (TopLevelNotMapping src)
      | Some _ \<Rightarrow> Inr None)"

text \<open>\<open>LoadConfigSources\<close> over the files in their order, each with the document it parses to.\<close>

definition merge_source :: "string \<times> ynode option \<Rightarrow> ynode option \<Rightarrow> merge_error + ynode option" where
  "merge_source source merged =
     bindE (source_root (fst source) (snd source))
       (\<lambda>root. case root of
          None \<Rightarrow> Inr merged
        | Some n \<Rightarrow> (case merged of None \<Rightarrow> Inr (Some n) | Some m \<Rightarrow> bindE (merge_value [] (fst source) m n) (\<lambda>m'. Inr (Some m'))))"

definition merge_sources :: "(string \<times> ynode option) list \<Rightarrow> merge_error + ynode option" where
  "merge_sources srcs = foldE merge_source srcs None"

section \<open>The meaning of a tree\<close>

fun at_path :: "string list \<Rightarrow> ynode \<Rightarrow> ynode option" where
  "at_path [] n = Some n"
| "at_path (k # ks) (Mapping es) = (case map_of es k of None \<Rightarrow> None | Some v \<Rightarrow> at_path ks v)"
| "at_path (k # ks) n = None"

text \<open>A mapping is seen through its paths, so at its own path only that it is one counts.\<close>

definition outline :: "ynode \<Rightarrow> ynode" where
  "outline n = (case n of Mapping es \<Rightarrow> Mapping [] | _ \<Rightarrow> n)"

definition view :: "ynode \<Rightarrow> string list \<Rightarrow> ynode option" where
  "view n ks = map_option outline (at_path ks n)"

text \<open>No mapping of the tree has a key twice (the decoder refuses a document where one does).\<close>

fun unique_keys :: "ynode \<Rightarrow> bool" where
  "unique_keys (Mapping es) \<longleftrightarrow> distinct (map fst es) \<and> (\<forall>(k, v) \<in> set es. unique_keys v)"
| "unique_keys n = True"

text \<open>What two sources say about one path, taken together.\<close>

definition combine_views :: "ynode option \<Rightarrow> ynode option \<Rightarrow> ynode option" where
  "combine_views x y =
     (case (x, y) of
        (None, y) \<Rightarrow> y
      | (Some a, None) \<Rightarrow> Some a
      | (Some a, Some b) \<Rightarrow>
          Some (if is_null_scalar a then b else if is_null_scalar b then a
                else case (a, b) of (Sequence as, Sequence bs) \<Rightarrow> Sequence (as @ bs) | _ \<Rightarrow> a))"

text \<open>When two nodes at the same path can be merged; entities of an identity map must not be in both.\<close>

definition node_fits :: "bool \<Rightarrow> ynode \<Rightarrow> ynode \<Rightarrow> bool" where
  "node_fits identity a b =
     (if identity then (case (a, b) of (Mapping d, Mapping s) \<Rightarrow> fst ` set d \<inter> fst ` set s = {} | _ \<Rightarrow> False)
      else is_null_scalar a \<or> is_null_scalar b \<or>
        (case (a, b) of (Mapping d, Mapping s) \<Rightarrow> True | (Sequence as, Sequence bs) \<Rightarrow> True
         | (Scalar t v, Scalar t' v') \<Rightarrow> t = t' \<and> v = v' | _ \<Rightarrow> False))"

definition identity_at :: "string \<Rightarrow> string list \<Rightarrow> bool" where
  "identity_at path ks \<longleftrightarrow> ks \<noteq> [] \<and> foldl join_path path ks \<in> set identity_map_paths"

definition compatible_at :: "string \<Rightarrow> ynode \<Rightarrow> ynode \<Rightarrow> string list \<Rightarrow> bool" where
  "compatible_at path d s ks \<longleftrightarrow>
     (\<forall>a b. at_path ks d = Some a \<longrightarrow> at_path ks s = Some b \<longrightarrow> node_fits (identity_at path ks) a b)"

lemma combine_views_None [simp]: "combine_views None y = y" "combine_views x None = x"
  by (auto simp: combine_views_def split: option.split)

lemma null_simps [simp]:
  "\<not> is_null_scalar (Mapping es)" "\<not> is_null_scalar (Sequence ns)" "\<not> is_null_scalar (Alias a)"
  "is_null_scalar (outline n) = is_null_scalar n"
  by (auto simp: is_null_scalar_def outline_def split: ynode.split)

lemma outline_simps [simp]:
  "outline (Mapping es) = Mapping []" "outline (Sequence ns) = Sequence ns" "outline (Scalar t v) = Scalar t v"
  "outline (Alias a) = Alias a" "outline (outline n) = outline n"
  by (auto simp: outline_def split: ynode.split)

lemma view_simps [simp]:
  "view n [] = Some (outline n)"
  "view (Mapping es) (k # ks) = (case map_of es k of None \<Rightarrow> None | Some v \<Rightarrow> view v ks)"
  "view (Scalar t v) (k # ks) = None" "view (Sequence ns) (k # ks) = None" "view (Alias a) (k # ks) = None"
  by (auto simp: view_def split: option.split)

lemma null_leaf: "is_null_scalar n \<Longrightarrow> view n (k # ks) = None"
  by (cases n) auto

lemma index_mapping_unique: "distinct (map fst es) \<Longrightarrow> index_mapping es = map_of es"
  unfolding index_mapping_def by (subst map_of_inject_set) (simp_all add: rev_map [symmetric])

lemma map_of_fst_None: "map_of es k = None \<longleftrightarrow> k \<notin> fst ` set es"
  by (simp add: map_of_eq_None_iff)

lemma map_of_same_keys: "map fst es = map fst es' \<Longrightarrow> map_of es k = None \<longleftrightarrow> map_of es' k = None"
  unfolding map_of_eq_None_iff by (metis list.set_map)

subsection \<open>Identity maps\<close>

lemma identity_fold:
  "foldE (\<lambda>(k, v) acc. if P k then Inl (e k) else Inr (acc @ [(k, v)])) s d = Inr r \<longleftrightarrow>
     (\<forall>k \<in> fst ` set s. \<not> P k) \<and> r = d @ s"
  by (induction s arbitrary: d) (auto simp: bindE_simps split: if_splits)

lemma merge_identity_iff:
  assumes "unique_keys d"
  shows "merge_identity_map path name src d s = Inr m \<longleftrightarrow>
     node_fits True d s \<and> (\<exists>ds ss. d = Mapping ds \<and> s = Mapping ss \<and> m = Mapping (ds @ ss))"
proof (cases "(\<exists>ds. d = Mapping ds) \<and> (\<exists>ss. s = Mapping ss)")
  case True
  then obtain ds ss where ds: "d = Mapping ds" "s = Mapping ss" by blast
  then have idx: "index_mapping ds = map_of ds" using assms by (simp add: index_mapping_unique)
  have "merge_identity_map path name src d s = Inr m \<longleftrightarrow> (\<forall>k \<in> fst ` set ss. \<not> map_of ds k \<noteq> None) \<and> m = Mapping (ds @ ss)"
    unfolding ds merge_identity_map.simps Let_def idx bindE_eq_Inr_iff identity_fold by auto
  moreover have "(\<forall>k \<in> fst ` set ss. \<not> map_of ds k \<noteq> None) \<longleftrightarrow> node_fits True d s"
    unfolding ds node_fits_def map_of_fst_None by simp (simp only: disjoint_iff, blast)
  ultimately show ?thesis by (simp add: ds)
next
  case False
  then show ?thesis by (cases d; cases s) (auto simp: node_fits_def)
qed

text \<open>A mapping extended by keys it does not have.\<close>

lemma view_extended:
  assumes "fst ` set d \<inter> fst ` set s = {}"
  shows "view (Mapping (d @ s)) ks = combine_views (view (Mapping d) ks) (view (Mapping s) ks)"
proof (cases ks)
  case (Cons k ks')
  show ?thesis
  proof (cases "map_of s k")
    case (Some v)
    then have "k \<in> fst ` set s" by (metis map_of_fst_None option.distinct(1))
    then have "map_of d k = None" using assms by (auto simp: map_of_fst_None)
    with Cons Some show ?thesis by (simp add: map_add_def)
  qed (simp add: Cons map_add_def split: option.split)
qed (simp add: combine_views_def)

subsection \<open>Merging two trees\<close>

text \<open>The shared keys, once merged: what each key has, and that its value has unique keys.\<close>

definition shared_ok :: "(string \<times> ynode) list \<Rightarrow> (string \<times> ynode) list \<Rightarrow> (string \<times> ynode) list \<Rightarrow> bool" where
  "shared_ok d s d' \<longleftrightarrow> map fst d' = map fst d \<and> (\<forall>(k, v) \<in> set d'. unique_keys v) \<and>
     (\<forall>k v. map_of d k = Some v \<longrightarrow> (\<exists>v'. map_of d' k = Some v' \<and>
        (\<forall>ks. view v' ks = combine_views (view v ks) (case map_of s k of None \<Rightarrow> None | Some w \<Rightarrow> view w ks))))"

lemma shared_ok_append:
  assumes sh: "shared_ok d s d'" and u: "unique_keys (Mapping d)" "unique_keys (Mapping s)"
  shows "unique_keys (Mapping (append_new d' s))"
    and "view (Mapping (append_new d' s)) ks = combine_views (view (Mapping d) ks) (view (Mapping s) ks)"
proof -
  have keys: "map fst d' = map fst d" using sh by (simp add: shared_ok_def)
  then have dist: "distinct (map fst d')" using u(1) by simp
  have idx: "index_mapping d' = map_of d'" by (rule index_mapping_unique [OF dist])
  let ?f = "filter (\<lambda>(k, v). map_of d' k = None) s"
  have "distinct (map fst ?f)" using u(2) by (simp add: distinct_map_filter)
  moreover have "set (map fst d') \<inter> set (map fst ?f) = {}" by (force simp: map_of_eq_None_iff)
  ultimately have "distinct (map fst (d' @ ?f))" unfolding map_append distinct_append using dist by blast
  moreover have "\<forall>(k, v) \<in> set (d' @ ?f). unique_keys v" using sh u(2) by (auto simp: shared_ok_def)
  ultimately show "unique_keys (Mapping (append_new d' s))" unfolding append_new_def idx unique_keys.simps by blast
  show "view (Mapping (append_new d' s)) ks = combine_views (view (Mapping d) ks) (view (Mapping s) ks)"
  proof (cases ks)
    case (Cons k ks')
    have new: "map_of (append_new d' s) k = (case map_of d' k of None \<Rightarrow> map_of s k | Some v \<Rightarrow> Some v)"
    proof (cases "map_of d' k")
      case None
      then have "map_of (filter (\<lambda>(k, v). map_of d' k = None) s) k = map_of s k"
        by (induction s) (auto)
      with None show ?thesis by (simp add: append_new_def idx map_add_def split: option.split)
    next
      case (Some v)
      then have "map_of (filter (\<lambda>(k, v). map_of d' k = None) s) k = None"
        by (force simp: map_of_eq_None_iff dest: map_of_SomeD)
      with Some show ?thesis by (simp add: append_new_def idx map_add_def)
    qed
    show ?thesis
    proof (cases "map_of d k")
      case None
      then have "map_of d' k = None" using map_of_same_keys [OF keys] by blast
      with None Cons new show ?thesis by simp
    next
      case (Some v)
      with sh obtain v' where "map_of d' k = Some v'"
        "view v' ks' = combine_views (view v ks') (case map_of s k of None \<Rightarrow> None | Some w \<Rightarrow> view w ks')"
        unfolding shared_ok_def by blast
      with Some Cons new show ?thesis by simp
    qed
  qed (simp add: combine_views_def)
qed

lemma shared_ok_Cons:
  assumes "shared_ok d s d'" and "k \<notin> fst ` set d" and "unique_keys v'"
    and "\<And>ks. view v' ks = combine_views (view v ks) (case map_of s k of None \<Rightarrow> None | Some w \<Rightarrow> view w ks)"
  shows "shared_ok ((k, v) # d) s ((k, v') # d')"
  using assms by (auto simp: shared_ok_def)

lemma null_yields:
  assumes "is_null_scalar d \<and> m = s \<or> \<not> is_null_scalar d \<and> is_null_scalar s \<and> m = d" and "unique_keys d" and "unique_keys s"
  shows "unique_keys m \<and> (\<forall>ks. view m ks = combine_views (view d ks) (view s ks))"
proof -
  have "view m ks = combine_views (view d ks) (view s ks)" for ks
    using assms(1) by (cases ks) (auto simp: combine_views_def null_leaf split: option.split)
  with assms show ?thesis by auto
qed

lemma merge_meaning:
  "merge_value path src d s = Inr m \<Longrightarrow> unique_keys d \<Longrightarrow> unique_keys s \<Longrightarrow>
      unique_keys m \<and> (\<forall>ks. view m ks = combine_views (view d ks) (view s ks))"
  "merge_shared path' src' de se = Inr de' \<Longrightarrow> unique_keys (Mapping de) \<Longrightarrow> unique_keys (Mapping se) \<Longrightarrow> shared_ok de se de'"
proof (induction path src d s and path' src' de se arbitrary: m and de' rule: merge_value_merge_shared.induct)
  case (1 path src d s)
  then obtain d' where d': "merge_shared path src d s = Inr d'" "m = Mapping (append_new d' s)" by (auto simp: bindE_simps)
  from 1(1) [OF d'(1) 1(3,4)] show ?case using shared_ok_append 1(3,4) d'(2) by blast
next
  case (2 path src d s)
  then have m: "m = Sequence (d @ s)" by simp
  show ?case
  proof (intro conjI allI)
    fix ks show "view m ks = combine_views (view (Sequence d) ks) (view (Sequence s) ks)"
      unfolding m by (cases ks) (simp_all add: combine_views_def)
  qed (simp add: m)
next
  case (3 path src t v t' v')
  show ?case
  proof (intro conjI allI)
    fix ks show "view m ks = combine_views (view (Scalar t v) ks) (view (Scalar t' v') ks)"
      using 3(1) by (cases ks) (auto simp: combine_views_def split: if_splits)
  qed (use 3(1) in \<open>auto split: if_splits\<close>)
next
  case (5 path src s)
  then show ?case by (simp add: shared_ok_def)
next
  case (6 path src k v d s)
  have kd: "k \<notin> fst ` set d" "unique_keys (Mapping d)" "unique_keys v" using 6(5) by auto
  have idx: "index_mapping s = map_of s" using 6(6) by (simp add: index_mapping_unique)
  show ?case
  proof (cases "map_of s k")
    case None
    then obtain d' where d': "merge_shared path src d s = Inr d'" "de' = (k, v) # d'" using 6(4) idx by (auto simp: bindE_simps)
    have "index_mapping s k = None" using None idx by simp
    note sh = 6(1) [OF this d'(1) kd(2) 6(6)]
    show ?thesis unfolding d'(2) by (rule shared_ok_Cons [OF sh kd(1,3)]) (simp add: None)
  next
    case (Some w)
    then have w: "unique_keys w" using 6(6) map_of_SomeD [of s k w] by auto
    have iw: "index_mapping s k = Some w" using Some idx by simp
    obtain v' where v': "(if join_path path k \<in> set identity_map_paths then merge_identity_map (join_path path k) k src v w
        else merge_value (join_path path k) src v w) = Inr v'"
      and "bindE (merge_shared path src d s) (\<lambda>d'. Inr ((k, v') # d')) = Inr de'"
      using 6(4) iw by (auto simp: bindE_simps)
    then obtain d' where d': "merge_shared path src d s = Inr d'" "de' = (k, v') # d'" by (auto simp: bindE_simps)
    note sh = 6(3) [OF iw v' d'(1) kd(2) 6(6)]
    have "unique_keys v' \<and> (\<forall>ks. view v' ks = combine_views (view v ks) (view w ks))"
    proof (cases "join_path path k \<in> set identity_map_paths")
      case True
      with v' obtain ds ss where m: "v = Mapping ds" "w = Mapping ss" "v' = Mapping (ds @ ss)" "node_fits True v w"
        using merge_identity_iff [OF kd(3)] by auto
      then have "fst ` set ds \<inter> fst ` set ss = {}" by (simp add: node_fits_def)
      with m kd(3) w view_extended [OF this] show ?thesis by auto
    next
      case False
      with v' 6(2) [OF iw False _ kd(3) w] show ?thesis by simp
    qed
    then show ?thesis unfolding d'(2) by (intro shared_ok_Cons [OF sh kd(1)]) (simp_all add: Some)
  qed
qed (rule null_yields; auto split: if_splits)+

subsection \<open>When the merge succeeds\<close>

lemma identity_at_Nil [simp]: "\<not> identity_at path []"
  by (simp add: identity_at_def)

lemma identity_at_Cons:
  "identity_at path (k # ks) \<longleftrightarrow>
     (if ks = [] then join_path path k \<in> set identity_map_paths else identity_at (join_path path k) ks)"
  by (simp add: identity_at_def)

text \<open>Nodes that are not both mappings only meet at their own path.\<close>

lemma compatible_leaves:
  assumes "\<not> ((\<exists>x. d = Mapping x) \<and> (\<exists>y. s = Mapping y))"
  shows "(\<forall>ks. compatible_at path d s ks) \<longleftrightarrow> node_fits False d s"
proof -
  have "compatible_at path d s ks \<longleftrightarrow> (ks = [] \<longrightarrow> node_fits False d s)" for ks
    using assms by (cases ks; cases d; cases s) (auto simp: compatible_at_def)
  then show ?thesis by auto
qed

definition key_fits :: "string \<Rightarrow> ynode \<Rightarrow> ynode \<Rightarrow> bool" where
  "key_fits p v w \<longleftrightarrow> (if p \<in> set identity_map_paths then node_fits True v w else \<forall>ks. compatible_at p v w ks)"

definition shared_fit :: "string \<Rightarrow> (string \<times> ynode) list \<Rightarrow> (string \<times> ynode) list \<Rightarrow> bool" where
  "shared_fit path d s \<longleftrightarrow>
     (\<forall>k v w. map_of d k = Some v \<longrightarrow> map_of s k = Some w \<longrightarrow> key_fits (join_path path k) v w)"

lemma fits_identity_below:
  assumes "node_fits True v w" and "ks \<noteq> []"
  shows "compatible_at path v w ks"
proof (cases ks)
  case (Cons k ks')
  obtain vs ws where "v = Mapping vs" "w = Mapping ws" "fst ` set vs \<inter> fst ` set ws = {}"
    using assms(1) by (auto simp: node_fits_def split: ynode.splits)
  then have "map_of vs k = None \<or> map_of ws k = None" unfolding map_of_fst_None by blast
  with \<open>v = Mapping vs\<close> \<open>w = Mapping ws\<close> Cons show ?thesis by (auto simp: compatible_at_def)
qed (use assms(2) in simp)

lemma compatible_Cons:
  assumes "map_of d k = Some v" and "map_of s k = Some w"
  shows "compatible_at path (Mapping d) (Mapping s) (k # ks) \<longleftrightarrow>
     (if ks = [] then node_fits (join_path path k \<in> set identity_map_paths) v w else compatible_at (join_path path k) v w ks)"
  using assms by (cases ks) (auto simp: compatible_at_def identity_at_Cons)

lemma compatible_mappings:
  "(\<forall>ks. compatible_at path (Mapping d) (Mapping s) ks) \<longleftrightarrow> shared_fit path d s" (is "?all \<longleftrightarrow> _")
proof
  assume all: ?all
  show "shared_fit path d s"
    unfolding shared_fit_def
  proof (intro allI impI)
    fix k v w assume kv: "map_of d k = Some v" "map_of s k = Some w"
    have here: "node_fits (join_path path k \<in> set identity_map_paths) v w"
      using all compatible_Cons [OF kv, of path "[]"] by simp
    have below: "compatible_at (join_path path k) v w ks" if "ks \<noteq> []" for ks
      using all compatible_Cons [OF kv, of path ks] that by simp
    show "key_fits (join_path path k) v w"
    proof (cases "join_path path k \<in> set identity_map_paths")
      case False
      have "compatible_at (join_path path k) v w ks" for ks
        using below [of ks] here False by (cases "ks = []") (simp_all add: compatible_at_def)
      then have "\<forall>ks. compatible_at (join_path path k) v w ks" by blast
      with False show ?thesis by (simp add: key_fits_def)
    qed (use here in \<open>simp add: key_fits_def\<close>)
  qed
next
  assume fit: "shared_fit path d s"
  have "compatible_at path (Mapping d) (Mapping s) (k # ks)" for k ks
  proof (cases "map_of d k = None \<or> map_of s k = None")
    case True
    then show ?thesis by (auto simp: compatible_at_def)
  next
    case False
    then obtain v w where kv: "map_of d k = Some v" "map_of s k = Some w" by auto
    then have sf: "key_fits (join_path path k) v w" using fit unfolding shared_fit_def by blast
    show ?thesis
    proof (cases "join_path path k \<in> set identity_map_paths")
      case True
      with sf have "node_fits True v w" by (simp add: key_fits_def)
      with True fits_identity_below [OF this] show ?thesis by (simp add: compatible_Cons [OF kv])
    next
      case False
      with sf have all: "compatible_at (join_path path k) v w ks" for ks by (simp add: key_fits_def)
      from all [of "[]"] have "node_fits False v w" by (simp add: compatible_at_def)
      with False all show ?thesis by (simp add: compatible_Cons [OF kv])
    qed
  qed
  moreover have "compatible_at path (Mapping d) (Mapping s) []" by (simp add: compatible_at_def node_fits_def)
  ultimately show ?all by (metis list.exhaust)
qed

lemma shared_fit_Cons:
  assumes "k \<notin> fst ` set d"
  shows "shared_fit path ((k, v) # d) s \<longleftrightarrow> shared_fit path d s \<and>
     (\<forall>w. map_of s k = Some w \<longrightarrow> key_fits (join_path path k) v w)"
proof -
  have none: "map_of d k = None" using assms by (simp add: map_of_fst_None)
  show ?thesis
  proof (intro iffI conjI allI impI)
    assume all: "shared_fit path ((k, v) # d) s"
    have "key_fits (join_path path k') v' w" if "map_of d k' = Some v'" "map_of s k' = Some w" for k' v' w
    proof -
      have "map_of ((k, v) # d) k' = Some v'" using that(1) none by auto
      with all that(2) show ?thesis unfolding shared_fit_def by blast
    qed
    then show "shared_fit path d s" unfolding shared_fit_def by blast
    show "key_fits (join_path path k) v w" if "map_of s k = Some w" for w
      using all that unfolding shared_fit_def by simp
  next
    assume "shared_fit path d s \<and> (\<forall>w. map_of s k = Some w \<longrightarrow> key_fits (join_path path k) v w)"
    then show "shared_fit path ((k, v) # d) s" by (simp add: shared_fit_def)
  qed
qed

lemma ex_Inr_bindE: "(\<exists>m. bindE r f = Inr m) \<longleftrightarrow> (\<exists>a. r = Inr a \<and> (\<exists>m. f a = Inr m))"
  by (auto simp: bindE_simps)

lemma merge_succeeds:
  "unique_keys d \<Longrightarrow> unique_keys s \<Longrightarrow> (\<exists>m. merge_value path src d s = Inr m) \<longleftrightarrow> (\<forall>ks. compatible_at path d s ks)"
  "unique_keys (Mapping de) \<Longrightarrow> unique_keys (Mapping se) \<Longrightarrow>
     (\<exists>r. merge_shared path' src' de se = Inr r) \<longleftrightarrow> shared_fit path' de se"
proof (induction path src d s and path' src' de se rule: merge_value_merge_shared.induct)
  case (1 path src d s)
  then show ?case by (simp only: compatible_mappings merge_value.simps ex_Inr_bindE) simp
next
  case (2 path src d s)
  then show ?case by (subst compatible_leaves) (auto simp: node_fits_def)
next
  case (3 path src t v t' v')
  then show ?case by (subst compatible_leaves) (auto simp: node_fits_def)
next
  case (5 path src s)
  then show ?case by (simp add: shared_fit_def)
next
  case (6 path src k v d s)
  have kd: "k \<notin> fst ` set d" "unique_keys (Mapping d)" "unique_keys v" using 6(4) by auto
  have idx: "index_mapping s = map_of s" using 6(5) by (simp add: index_mapping_unique)
  show ?case
  proof (cases "map_of s k")
    case None
    have "index_mapping s k = None" using None idx by simp
    from 6(1) [OF this kd(2) 6(5)] show ?thesis
      by (simp add: shared_fit_Cons [OF kd(1)] None idx ex_Inr_bindE)
  next
    case (Some w)
    then have w: "unique_keys w" using 6(5) map_of_SomeD [of s k w] by auto
    have iw: "index_mapping s k = Some w" using Some idx by simp
    let ?r = "if join_path path k \<in> set identity_map_paths then merge_identity_map (join_path path k) k src v w
        else merge_value (join_path path k) src v w"
    have r: "(\<exists>v'. ?r = Inr v') \<longleftrightarrow> key_fits (join_path path k) v w"
    proof (cases "join_path path k \<in> set identity_map_paths")
      case True
      then show ?thesis
        by (auto simp: key_fits_def merge_identity_iff [OF kd(3)]) (auto simp: node_fits_def split: ynode.splits)
    next
      case False
      with 6(2) [OF iw False kd(3) w] show ?thesis by (simp add: key_fits_def)
    qed
    have rest: "(\<exists>r. merge_shared path src d s = Inr r) \<longleftrightarrow> shared_fit path d s" if "?r = Inr v'" for v'
      by (rule 6(3) [OF iw that kd(2) 6(5)])
    have "(\<exists>m. merge_shared path src ((k, v) # d) s = Inr m) \<longleftrightarrow>
        (\<exists>v'. ?r = Inr v' \<and> (\<exists>d'. merge_shared path src d s = Inr d'))"
      by (simp add: iw ex_Inr_bindE)
    also have "\<dots> \<longleftrightarrow> (\<exists>v'. ?r = Inr v') \<and> shared_fit path d s" using rest by blast
    also have "\<dots> \<longleftrightarrow> shared_fit path ((k, v) # d) s"
      unfolding r shared_fit_Cons [OF kd(1)] Some by auto
    finally show ?thesis .
  qed
qed (subst compatible_leaves; auto simp: node_fits_def split: ynode.splits)+

text \<open>The source an error names.\<close>

fun error_source :: "merge_error \<Rightarrow> string" where
  "error_source (ConflictValue path src) = src"
| "error_source (ConflictKinds path src) = src"
| "error_source (ExpectedMapping path src) = src"
| "error_source (DuplicateEntity name k src) = src"
| "error_source (TopLevelNotMapping src) = src"

lemma identity_error:
  assumes "merge_identity_map path name src d s = Inl e"
  shows "error_source e = src"
proof -
  have "foldE (\<lambda>(k, v) acc. if P k then Inl (DuplicateEntity name k src) else Inr (acc @ [(k, v)])) es acc = Inl e \<Longrightarrow>
      error_source e = src" for es acc P
    by (induction es arbitrary: acc) (auto simp: bindE_simps split: if_splits)
  with assms show ?thesis by (cases d; cases s) (auto simp: bindE_simps Let_def)
qed

lemma merge_error_source:
  "merge_value path src d s = Inl e \<Longrightarrow> error_source e = src"
  "merge_shared path' src' de se = Inl e \<Longrightarrow> error_source e = src'"
proof (induction path src d s and path' src' de se rule: merge_value_merge_shared.induct)
  case (6 path src k v d s)
  show ?case
  proof (cases "index_mapping s k")
    case (Some w)
    let ?r = "if join_path path k \<in> set identity_map_paths then merge_identity_map (join_path path k) k src v w
        else merge_value (join_path path k) src v w"
    from 6(4) Some consider "?r = Inl e" | v' where "?r = Inr v'" "merge_shared path src d s = Inl e"
      by (auto simp: bindE_simps)
    then show ?thesis
    proof cases
      case 1
      then show ?thesis using 6(2) [OF Some] identity_error by (cases "join_path path k \<in> set identity_map_paths") auto
    next
      case 2
      from 6(3) [OF Some 2] show ?thesis .
    qed
  qed (use 6 in \<open>auto simp: bindE_simps\<close>)
qed (auto simp: bindE_simps split: if_splits)

subsection \<open>Merging all sources\<close>

definition doc_view :: "ynode option \<Rightarrow> string list \<Rightarrow> ynode option" where
  "doc_view doc ks = (case doc of Some (Mapping (e # es)) \<Rightarrow> view (Mapping (e # es)) ks | _ \<Rightarrow> None)"

definition merged_view :: "ynode option \<Rightarrow> string list \<Rightarrow> ynode option" where
  "merged_view m ks = (case m of None \<Rightarrow> None | Some n \<Rightarrow> view n ks)"

definition tree_ok :: "ynode option \<Rightarrow> bool" where
  "tree_ok doc \<longleftrightarrow> (case doc of None \<Rightarrow> True | Some n \<Rightarrow> unique_keys n)"

definition setting :: "ynode option \<Rightarrow> bool" where
  "setting x \<longleftrightarrow> (case x of Some (Scalar t v) \<Rightarrow> \<not> is_null_scalar (Scalar t v) | _ \<Rightarrow> False)"

lemma source_root_view:
  assumes "source_root src doc = Inr r" and "tree_ok doc"
  shows "doc_view doc = merged_view r" and "tree_ok r"
  using assms by (auto simp: source_root_def doc_view_def merged_view_def tree_ok_def fun_eq_iff split: option.splits ynode.splits list.splits)

lemma merge_keeps_settings:
  assumes "merge_value [] src d s = Inr m" and "unique_keys d" and "unique_keys s"
    and "setting x" and "view d ks = x \<or> view s ks = x"
  shows "view m ks = x"
proof -
  obtain t v where x: "x = Some (Scalar t v)" "\<not> is_null_scalar (Scalar t v)"
    using assms(4) by (auto simp: setting_def split: option.splits ynode.splits)
  have m: "view m ks = combine_views (view d ks) (view s ks)" using merge_meaning(1) [OF assms(1-3)] by blast
  have comp: "compatible_at [] d s ks" using merge_succeeds(1) [OF assms(2,3)] assms(1) by blast
  have leaf: "n = Scalar t v" if "outline n = Scalar t v" for n using that by (cases n) auto
  have two: "(view d ks = x \<and> (view s ks = x \<or> is_null_scalar b)) \<or> (view s ks = x \<and> is_null_scalar a)"
    if "view d ks = Some a" "view s ks = Some b" for a b
  proof -
    from that obtain a' b' where ab: "at_path ks d = Some a'" "at_path ks s = Some b'" "a = outline a'" "b = outline b'"
      by (auto simp: view_def)
    from ab(1,2) comp have "node_fits (identity_at [] ks) a' b'" unfolding compatible_at_def by blast
    moreover have "a' = Scalar t v \<or> b' = Scalar t v" using assms(5) that ab(3,4) leaf x(1) by force
    ultimately show ?thesis
      using that ab(3,4) x by (auto simp: node_fits_def split: if_splits ynode.splits)
  qed
  show ?thesis
  proof (cases "view d ks = None \<or> view s ks = None")
    case True
    with assms(5) x m show ?thesis by auto
  next
    case False
    then obtain a b where ab: "view d ks = Some a" "view s ks = Some b" by auto
    from two [OF ab] show ?thesis unfolding m ab using ab x by (auto simp: combine_views_def)
  qed
qed

lemma merge_source_step:
  assumes "merge_source source m = Inr m'" and "tree_ok (snd source)" and "tree_ok m"
  shows "tree_ok m'" and "merged_view m' ks = combine_views (merged_view m ks) (doc_view (snd source) ks)"
    and "setting x \<Longrightarrow> merged_view m ks = x \<or> doc_view (snd source) ks = x \<Longrightarrow> merged_view m' ks = x"
proof -
  obtain r where r: "source_root (fst source) (snd source) = Inr r"
    and m': "(case r of None \<Rightarrow> Inr m | Some n \<Rightarrow> (case m of None \<Rightarrow> Inr (Some n) |
        Some k \<Rightarrow> bindE (merge_value [] (fst source) k n) (\<lambda>m'. Inr (Some m')))) = Inr m'"
    using assms(1) by (auto simp: merge_source_def bindE_simps)
  note rv = source_root_view [OF r assms(2)]
  have "tree_ok m' \<and> merged_view m' ks = combine_views (merged_view m ks) (doc_view (snd source) ks) \<and>
      (setting x \<longrightarrow> merged_view m ks = x \<or> doc_view (snd source) ks = x \<longrightarrow> merged_view m' ks = x)"
  proof (cases r)
    case None
    with m' have "m' = m" by simp
    with None assms(3) show ?thesis by (auto simp: rv(1) merged_view_def setting_def)
  next
    case (Some n)
    show ?thesis
    proof (cases m)
      case None
      with Some m' have "m' = Some n" by simp
      with None Some rv(2) show ?thesis by (auto simp: rv(1) merged_view_def setting_def)
    next
      case (Some k)
      with \<open>r = Some n\<close> m' obtain k' where k': "merge_value [] (fst source) k n = Inr k'" "m' = Some k'" by (auto simp: bindE_simps)
      have u: "unique_keys k" "unique_keys n" using assms(3) rv(2) Some \<open>r = Some n\<close> by (auto simp: tree_ok_def)
      from merge_meaning(1) [OF k'(1) u] merge_keeps_settings [OF k'(1) u, of x ks] Some \<open>r = Some n\<close> k'(2)
      show ?thesis by (simp add: rv(1) merged_view_def tree_ok_def)
    qed
  qed
  then show "tree_ok m'" and "merged_view m' ks = combine_views (merged_view m ks) (doc_view (snd source) ks)"
    and "setting x \<Longrightarrow> merged_view m ks = x \<or> doc_view (snd source) ks = x \<Longrightarrow> merged_view m' ks = x" by blast+
qed

lemma merge_sources_fold:
  assumes "foldE merge_source srcs m = Inr m'" and "\<forall>s \<in> set srcs. tree_ok (snd s)" and "tree_ok m"
  shows "merged_view m' ks = foldl combine_views (merged_view m ks) (map (\<lambda>s. doc_view (snd s) ks) srcs)"
    and "setting x \<Longrightarrow> merged_view m ks = x \<or> (\<exists>s \<in> set srcs. doc_view (snd s) ks = x) \<Longrightarrow> merged_view m' ks = x"
  using assms
proof (induction srcs arbitrary: m)
  case (Cons s srcs)
  { case 1
    then obtain m1 where m1: "merge_source s m = Inr m1" "foldE merge_source srcs m1 = Inr m'" by (auto simp: bindE_simps)
    with 1 Cons.IH(1) [OF m1(2)] merge_source_step(1,2) [OF m1(1)] show ?case by simp }
  { case 2
    then obtain m1 where m1: "merge_source s m = Inr m1" "foldE merge_source srcs m1 = Inr m'" by (auto simp: bindE_simps)
    have ok: "tree_ok m1" using merge_source_step(1) [OF m1(1)] 2 by simp
    have "merged_view m1 ks = x \<or> (\<exists>s \<in> set srcs. doc_view (snd s) ks = x)"
      using 2 merge_source_step(3) [OF m1(1) _ _ 2(1)] by auto
    from Cons.IH(2) [OF 2(1) this m1(2) _ ok] 2 show ?case by simp }
qed simp_all

section \<open>Properties\<close>

definition str_scalar :: "string \<Rightarrow> ynode" where
  "str_scalar v = Scalar ''!!str'' v"

definition demo_base :: ynode where
  "demo_base = Mapping [(''port'', Scalar ''!!int'' ''9''), (''hooks'', Mapping [(''preload'', Sequence [str_scalar ''a''])]),
     (''models'', Mapping [(''a'', Mapping [(''cmd'', str_scalar ''run a'')])])]"

definition demo_extra :: ynode where
  "demo_extra = Mapping [(''hooks'', Mapping [(''preload'', Sequence [str_scalar ''b'']), (''log'', str_scalar ''x'')]),
     (''models'', Mapping [(''b'', Mapping [(''cmd'', str_scalar ''run b'')])])]"

text \<open>
  C27. The merged configuration says at every path what its sources say there, taken together in their order:
  a key of one source is kept, sequences are joined, an empty value yields. So every value a source sets is in effect in the
  merged configuration: no source silently overrides another.
\<close>
theorem merged_configuration:
  assumes "merge_sources srcs = Inr m" and "\<forall>s \<in> set srcs. tree_ok (snd s)"
  shows "merged_view m ks = foldl combine_views None (map (\<lambda>s. doc_view (snd s) ks) srcs) \<and>
     (\<forall>s \<in> set srcs. setting (doc_view (snd s) ks) \<longrightarrow> merged_view m ks = doc_view (snd s) ks)"
proof -
  have "tree_ok None" and "merged_view None ks = None" by (simp_all add: tree_ok_def merged_view_def)
  with merge_sources_fold [OF assms(1) [unfolded merge_sources_def] assms(2), where ks = ks] show ?thesis by fastforce
qed

theorem merged_configuration_witness:
  "\<exists>m. merge_sources [(''f1'', Some demo_base), (''f2'', None), (''f3'', Some demo_extra)] = Inr m \<and>
     merged_view m [''port''] = Some (Scalar ''!!int'' ''9'') \<and> merged_view m [''hooks'', ''log''] = Some (str_scalar ''x'') \<and>
     merged_view m [''hooks'', ''preload''] = Some (Sequence [str_scalar ''a'', str_scalar ''b''])"
proof -
  let ?srcs = "[(''f1'', Some demo_base), (''f2'', None), (''f3'', Some demo_extra)]"
  have "merge_sources ?srcs = Inr (Some (Mapping [(''port'', Scalar ''!!int'' ''9''),
      (''hooks'', Mapping [(''preload'', Sequence [str_scalar ''a'', str_scalar ''b'']), (''log'', str_scalar ''x'')]),
      (''models'', Mapping [(''a'', Mapping [(''cmd'', str_scalar ''run a'')]), (''b'', Mapping [(''cmd'', str_scalar ''run b'')])])]))"
    (is "_ = Inr ?m") by code_simp
  moreover have ok: "\<forall>s \<in> set ?srcs. tree_ok (snd s)" by (simp add: tree_ok_def demo_base_def demo_extra_def str_scalar_def)
  ultimately have m: "merged_view ?m ks = foldl combine_views None (map (\<lambda>s. doc_view (snd s) ks) ?srcs)" for ks
    using merged_configuration by blast
  have "merged_view ?m [''port''] = Some (Scalar ''!!int'' ''9'')" unfolding m by code_simp
  moreover have "merged_view ?m [''hooks'', ''log''] = Some (str_scalar ''x'')" unfolding m by code_simp
  moreover have "merged_view ?m [''hooks'', ''preload''] = Some (Sequence [str_scalar ''a'', str_scalar ''b''])"
    unfolding m by code_simp
  ultimately show ?thesis using \<open>merge_sources ?srcs = Inr ?m\<close> by blast
qed

text \<open>
  C28. A source merges into what is merged so far exactly if the two fit at every path they share: equal scalars,
  an empty value, two sequences or two mappings, and below a map of entities (models, groups, peers, ...) no
  entity in both. Otherwise the error names the source that was to be merged.
\<close>
theorem merge_conflicts_iff:
  assumes "unique_keys d" and "unique_keys s"
  shows "((\<exists>m. merge_value [] src d s = Inr m) \<longleftrightarrow> (\<forall>ks. compatible_at [] d s ks)) \<and>
     (\<forall>e. merge_value [] src d s = Inl e \<longrightarrow> error_source e = src)"
  using merge_succeeds(1) [OF assms] merge_error_source(1) by blast

theorem merge_conflicts_iff_witness:
  "(\<forall>ks. compatible_at [] demo_base demo_extra ks) \<and> \<not> (\<forall>ks. compatible_at [] demo_base demo_base ks) \<and>
     merge_value [] ''f2'' demo_base demo_base = Inl (DuplicateEntity ''models'' ''a'' ''f2'')"
proof -
  have u: "unique_keys demo_base" "unique_keys demo_extra" by (simp_all add: demo_base_def demo_extra_def str_scalar_def)
  have "map_sum id (\<lambda>_. ()) (merge_value [] ''f2'' demo_base demo_extra) = Inr ()" by code_simp
  then have ok: "\<exists>m. merge_value [] ''f2'' demo_base demo_extra = Inr m"
    by (cases "merge_value [] ''f2'' demo_base demo_extra") auto
  have "map_sum id (\<lambda>_. ()) (merge_value [] ''f2'' demo_base demo_base) = Inl (DuplicateEntity ''models'' ''a'' ''f2'')" by code_simp
  then have "merge_value [] ''f2'' demo_base demo_base = Inl (DuplicateEntity ''models'' ''a'' ''f2'')"
    by (cases "merge_value [] ''f2'' demo_base demo_base") auto
  with ok merge_conflicts_iff [OF u, of "''f2''"] merge_conflicts_iff [OF u(1,1), of "''f2''"] show ?thesis by simp
qed

end
