(* ===== verification/Regexps.thy ===== *)
theory Regexps
  imports Prelude
begin

text \<open>
  The regular expressions of the sources (package \<open>regexp\<close>): matching prefers the leftmost match and, among
  those, the one a backtracking search finds first. An expression is data; \<open>remainders\<close> lists what may be
  left after a match at the start of a string, the preferred one first. The patterns used never match the
  empty string, and searching is defined for those.
\<close>

datatype rx = Eps | Cls "char \<Rightarrow> bool" | Cat rx rx | Alt rx rx | Star rx

fun remainders :: "rx \<Rightarrow> string \<Rightarrow> string list" where
  "remainders Eps s = [s]"
| "remainders (Cls P) [] = []"
| "remainders (Cls P) (c # s) = (if P c then [s] else [])"
| "remainders (Cat a b) s = concat (map (remainders b) (remainders a s))"
| "remainders (Alt a b) s = remainders a s @ remainders b s"
| "remainders (Star a) s =
     concat (map (\<lambda>t. if length t < length s then remainders (Star a) t else []) (remainders a s)) @ [s]"

declare remainders.simps(6) [simp del]
lemmas remainders_Star = remainders.simps(6)

lemma in_remainders_Star:
  "t \<in> set (remainders (Star a) s) \<longleftrightarrow>
     t = s \<or> (\<exists>m \<in> set (remainders a s). length m < length s \<and> t \<in> set (remainders (Star a) m))"
  by (subst remainders_Star) auto

definition Plus :: "rx \<Rightarrow> rx" where
  "Plus a = Cat a (Star a)"

fun Rep :: "nat \<Rightarrow> rx \<Rightarrow> rx" where
  "Rep 0 a = Eps"
| "Rep (Suc n) a = Cat a (Rep n a)"

definition AtLeast :: "nat \<Rightarrow> rx \<Rightarrow> rx" where
  "AtLeast n a = Cat (Rep n a) (Star a)"

definition Opt :: "rx \<Rightarrow> rx" where
  "Opt a = Alt a Eps"

fun Lit :: "string \<Rightarrow> rx" where
  "Lit [] = Eps"
| "Lit (c # s) = Cat (Cls (\<lambda>x. x = c)) (Lit s)"

text \<open>The character classes of the patterns.\<close>

definition in_range :: "char \<Rightarrow> char \<Rightarrow> char \<Rightarrow> bool" where
  "in_range a b c = (code_of a \<le> code_of c \<and> code_of c \<le> code_of b)"

definition upper :: "char \<Rightarrow> bool" where "upper = in_range (CHR ''A'') (CHR ''Z'')"

definition lower :: "char \<Rightarrow> bool" where "lower = in_range (CHR ''a'') (CHR ''z'')"

definition digit :: "char \<Rightarrow> bool" where "digit = in_range (CHR ''0'') (CHR ''9'')"

definition alnum :: "char \<Rightarrow> bool" where
  "alnum c = (upper c \<or> lower c \<or> digit c)"

definition one_of :: "string \<Rightarrow> rx" where
  "one_of cs = Cls (\<lambda>c. c \<in> set cs)"

text \<open>The preferred match at the start of the string: the matched part.\<close>

definition match_here :: "rx \<Rightarrow> string \<Rightarrow> string option" where
  "match_here r s =
     (case remainders r s of [] \<Rightarrow> None
      | t # ts \<Rightarrow> if length t < length s then Some (take (length s - length t) s) else None)"

text \<open>\<open>ReplaceAllStringFunc\<close>: replace every match, from the left.\<close>

function replace_all :: "rx \<Rightarrow> (string \<Rightarrow> string) \<Rightarrow> string \<Rightarrow> string" where
  "replace_all r f [] = []"
| "replace_all r f (c # s) =
     (case match_here r (c # s) of
        None \<Rightarrow> c # replace_all r f s
      | Some u \<Rightarrow> f u @ replace_all r f (drop (length u) (c # s)))"
  by pat_completeness auto

text \<open>\<open>FindAllString\<close>: all matches, from the left.\<close>

lemma match_here_nonempty: "match_here r s = Some u \<Longrightarrow> u \<noteq> []"
  by (auto simp: match_here_def split: list.splits if_splits)

termination replace_all
  by (relation "measure (\<lambda>(r, f, s). length s)") (auto dest!: match_here_nonempty)

function find_all :: "rx \<Rightarrow> string \<Rightarrow> string list" where
  "find_all r [] = []"
| "find_all r (c # s) =
     (case match_here r (c # s) of
        None \<Rightarrow> find_all r s
      | Some u \<Rightarrow> u # find_all r (drop (length u) (c # s)))"
  by pat_completeness auto
termination find_all
  by (relation "measure (\<lambda>(r, s). length s)") (auto dest!: match_here_nonempty)

text \<open>\<open>MatchString\<close>, for an expression without anchors.\<close>

fun matches_somewhere :: "rx \<Rightarrow> string \<Rightarrow> bool" where
  "matches_somewhere r [] = (remainders r [] \<noteq> [])"
| "matches_somewhere r (c # s) = (remainders r (c # s) \<noteq> [] \<or> matches_somewhere r s)"

section \<open>The language of an expression\<close>

inductive word :: "rx \<Rightarrow> string \<Rightarrow> bool" where
  word_Eps: "word Eps []"
| word_Cls: "P c \<Longrightarrow> word (Cls P) [c]"
| word_Cat: "word a u \<Longrightarrow> word b v \<Longrightarrow> word (Cat a b) (u @ v)"
| word_Alt1: "word a u \<Longrightarrow> word (Alt a b) u"
| word_Alt2: "word b u \<Longrightarrow> word (Alt a b) u"
| word_Star0: "word (Star a) []"
| word_Star: "word a u \<Longrightarrow> word (Star a) v \<Longrightarrow> word (Star a) (u @ v)"

inductive_simps word_Eps_iff [simp]: "word Eps u"
inductive_simps word_Cls_iff: "word (Cls P) u"
inductive_simps word_Cat_iff: "word (Cat a b) u"
inductive_simps word_Alt_iff: "word (Alt a b) u"

lemma remainders_sound: "t \<in> set (remainders r s) \<Longrightarrow> \<exists>u. s = u @ t \<and> word r u"
proof (induction r s arbitrary: t rule: remainders.induct)
  case (3 P c s)
  then show ?case by (auto simp: word_Cls_iff split: if_splits)
next
  case (4 a b s)
  then obtain m where m: "m \<in> set (remainders a s)" "t \<in> set (remainders b m)" by auto
  from 4(1) [OF m(1)] obtain u where u: "s = u @ m" "word a u" by blast
  from 4(2) [OF m] obtain v where v: "m = v @ t" "word b v" by blast
  have "s = (u @ v) @ t" using u(1) v(1) by simp
  then show ?case using word_Cat [OF u(2) v(2)] by (intro exI [of _ "u @ v"] conjI)
next
  case (5 a b s)
  then show ?case by (auto simp: word_Alt_iff)
next
  case (6 a s)
  show ?case
  proof (cases "t = s")
    case True
    then show ?thesis using word_Star0 by auto
  next
    case False
    with 6(3) [unfolded in_remainders_Star [of t a s]]
    obtain m where m: "m \<in> set (remainders a s)" "length m < length s" "t \<in> set (remainders (Star a) m)" by blast
    from 6(1) [OF m(1)] obtain u where u: "s = u @ m" "word a u" by blast
    from 6(2) [OF m] obtain v where v: "m = v @ t" "word (Star a) v" by blast
    have "s = (u @ v) @ t" using u(1) v(1) by simp
    then show ?thesis using word_Star [OF u(2) v(2)] by (intro exI [of _ "u @ v"] conjI)
  qed
qed auto

text \<open>Words of a star that are not empty start with a word of the body that is not empty.\<close>

lemma word_Star_nonempty:
  "word r w \<Longrightarrow> r = Star a \<Longrightarrow> w \<noteq> [] \<Longrightarrow> \<exists>u v. w = u @ v \<and> u \<noteq> [] \<and> word a u \<and> word (Star a) v"
proof (induction rule: word.induct)
  case (word_Star b u v)
  then show ?case by (cases "u = []") auto
qed auto

lemma remainders_complete: "word r u \<Longrightarrow> t \<in> set (remainders r (u @ t))"
proof (induction r arbitrary: u t)
  case (Cls P)
  then show ?case by (auto simp: word_Cls_iff)
next
  case (Cat a b)
  from Cat.prems obtain x y where xy: "u = x @ y" "word a x" "word b y" by (auto simp: word_Cat_iff)
  from Cat.IH(1) [OF xy(2), of "y @ t"] Cat.IH(2) [OF xy(3), of t] show ?case by (auto simp: xy(1))
next
  case (Alt a b)
  then show ?case by (auto simp: word_Alt_iff)
next
  case (Star a)
  from Star.prems show ?case
  proof (induction "length u" arbitrary: u rule: less_induct)
    case less
    show ?case
    proof (cases "u = []")
      case False
      from word_Star_nonempty [OF less.prems refl False] obtain x y where
        xy: "u = x @ y" "x \<noteq> []" "word a x" "word (Star a) y" by blast
      have "t \<in> set (remainders (Star a) (y @ t))" using less.hyps [OF _ xy(4)] xy(1,2) by simp
      moreover have "y @ t \<in> set (remainders a (u @ t))" using Star.IH [OF xy(3), of "y @ t"] by (simp add: xy(1))
      moreover have "length (y @ t) < length (u @ t)" using xy(1,2) by simp
      ultimately show ?thesis unfolding in_remainders_Star [of t a "u @ t"] by blast
    next
      case True
      then show ?thesis by (subst in_remainders_Star) simp
    qed
  qed
qed simp

lemma remainders_iff: "t \<in> set (remainders r s) \<longleftrightarrow> (\<exists>u. s = u @ t \<and> word r u)"
  using remainders_sound remainders_complete by blast

lemma remainders_nonempty: "remainders r s \<noteq> [] \<longleftrightarrow> (\<exists>u y. s = u @ y \<and> word r u)"
proof -
  have "remainders r s \<noteq> [] \<longleftrightarrow> (\<exists>t. t \<in> set (remainders r s))" by (cases "remainders r s") auto
  then show ?thesis unfolding remainders_iff by blast
qed

lemma matches_somewhere_iff: "matches_somewhere r s \<longleftrightarrow> (\<exists>x u y. s = x @ u @ y \<and> word r u)"
proof -
  note here = remainders_nonempty [of r]
  show ?thesis
  proof (induction s)
    case (Cons c s)
    have "(\<exists>x u y. c # s = x @ u @ y \<and> word r u) \<longleftrightarrow>
        (\<exists>u y. c # s = u @ y \<and> word r u) \<or> (\<exists>x u y. s = x @ u @ y \<and> word r u)" (is "?L \<longleftrightarrow> ?R")
    proof
      assume ?L
      then obtain x u y where x: "c # s = x @ u @ y" "word r u" by blast
      then show ?R by (cases x) auto
    next
      assume ?R
      then show ?L
      proof
        assume "\<exists>u y. c # s = u @ y \<and> word r u"
        then obtain u y where "c # s = [] @ u @ y" "word r u" by auto
        then show ?L by blast
      next
        assume "\<exists>x u y. s = x @ u @ y \<and> word r u"
        then obtain x u y where "c # s = (c # x) @ u @ y" "word r u" by auto
        then show ?L by blast
      qed
    qed
    with Cons here [of "c # s"] show ?case by simp
  qed (use here [of "[]"] in auto)
qed

section \<open>Searching and replacing\<close>

lemma match_here_sound:
  assumes "match_here r s = Some u"
  shows "\<exists>y. s = u @ y \<and> word r u"
proof -
  obtain t ts where t: "remainders r s = t # ts" "length t < length s" "u = take (length s - length t) s"
    using assms by (auto simp: match_here_def split: list.splits if_splits)
  then have "t \<in> set (remainders r s)" by simp
  then obtain v where "s = v @ t" "word r v" unfolding remainders_iff by blast
  with t(3) show ?thesis by simp
qed

lemma match_here_None:
  assumes "\<not> word r []"
  shows "match_here r s = None \<longleftrightarrow> \<not> (\<exists>u y. s = u @ y \<and> word r u)"
proof (cases "remainders r s")
  case Nil
  then have "\<not> t \<in> set (remainders r s)" for t by simp
  with Nil show ?thesis unfolding remainders_iff by (auto simp: match_here_def)
next
  case (Cons t ts)
  then have "t \<in> set (remainders r s)" by simp
  then obtain u where u: "s = u @ t" "word r u" unfolding remainders_iff by blast
  then have "u \<noteq> []" using assms by auto
  with u Cons show ?thesis by (auto simp: match_here_def)
qed

lemma find_all_None: "\<not> word r [] \<Longrightarrow> find_all r s = [] \<longleftrightarrow> \<not> matches_somewhere r s"
proof (induction r s rule: find_all.induct)
  case (1 r)
  then show ?case using remainders_sound [of _ r "[]"] by (cases "remainders r []") fastforce+
next
  case (2 r c s)
  note here = remainders_nonempty [of r "c # s"]
  show ?case
  proof (cases "match_here r (c # s)")
    case None
    with 2 here match_here_None [OF 2(3), of "c # s"] show ?thesis by simp
  next
    case (Some u)
    with match_here_sound [OF Some] here show ?thesis by auto
  qed
qed

text \<open>The characters the words of an expression are made of.\<close>

fun may_have :: "char \<Rightarrow> rx \<Rightarrow> bool" where
  "may_have c Eps = False"
| "may_have c (Cls P) = P c"
| "may_have c (Cat a b) = (may_have c a \<or> may_have c b)"
| "may_have c (Alt a b) = (may_have c a \<or> may_have c b)"
| "may_have c (Star a) = may_have c a"

lemma word_chars: "word r u \<Longrightarrow> c \<in> set u \<Longrightarrow> may_have c r"
  by (induction r u rule: word.induct) auto

lemma prefix_before: "u @ z = x @ b # y \<Longrightarrow> b \<notin> set u \<Longrightarrow> \<exists>z'. x = u @ z'"
  by (auto simp: append_eq_append_conv2 append_eq_Cons_conv)

definition starts_word :: "rx \<Rightarrow> string \<Rightarrow> bool" where
  "starts_word r s \<longleftrightarrow> (\<exists>u y. s = u @ y \<and> word r u)"

lemma matches_somewhere_Cons: "matches_somewhere r (c # s) \<longleftrightarrow> starts_word r (c # s) \<or> matches_somewhere r s"
  by (simp only: matches_somewhere.simps remainders_nonempty starts_word_def)

lemma matches_somewhere_suffix: "matches_somewhere r y \<Longrightarrow> matches_somewhere r (x @ y)"
  unfolding matches_somewhere_iff by (metis append_assoc)

lemma starts_word_somewhere: "starts_word r s \<Longrightarrow> matches_somewhere r s"
  unfolding matches_somewhere_iff starts_word_def by (metis append_Nil)

text \<open>Strings without a match, separated by a character that no match has.\<close>

lemma no_match_separated:
  assumes "\<not> may_have b q" and "\<not> matches_somewhere q (x @ [b])" and "\<not> matches_somewhere q y"
  shows "\<not> matches_somewhere q (x @ b # y)"
  using assms(2)
proof (induction x)
  case Nil
  have "\<not> word q []" using Nil starts_word_somewhere [of q "[b]"] by (auto simp: starts_word_def)
  have "\<not> starts_word q (b # y)"
  proof
    assume "starts_word q (b # y)"
    then obtain u z where u: "b # y = u @ z" "word q u" by (auto simp: starts_word_def)
    with word_chars [OF u(2), of b] assms(1) \<open>\<not> word q []\<close> show False by (cases u) auto
  qed
  with assms(3) show ?case by (simp add: matches_somewhere_Cons del: matches_somewhere.simps)
next
  case (Cons c x)
  then have no: "\<not> starts_word q (c # x @ [b])" "\<not> matches_somewhere q (x @ [b])"
    by (simp_all add: matches_somewhere_Cons del: matches_somewhere.simps)
  have "\<not> starts_word q ((c # x) @ b # y)"
  proof
    assume "starts_word q ((c # x) @ b # y)"
    then obtain u z where u: "u @ z = (c # x) @ b # y" "word q u" unfolding starts_word_def by metis
    then obtain z' where "c # x = u @ z'" using prefix_before [OF u(1)] word_chars [OF u(2), of b] assms(1) by blast
    then have "c # x @ [b] = u @ z' @ [b]" by simp
    with no(1) u(2) show False unfolding starts_word_def by blast
  qed
  with Cons.IH [OF no(2)] show ?case by (simp add: matches_somewhere_Cons del: matches_somewhere.simps)
qed

lemma replace_all_prefix:
  assumes "replace_all p (\<lambda>_. a # w) s = v @ z" and "a \<notin> set v"
  shows "\<exists>z'. s = v @ z'"
  using assms
proof (induction p "\<lambda>_::string. a # w" s arbitrary: v rule: replace_all.induct)
  case (2 p c s)
  show ?case
  proof (cases v)
    case (Cons c' v')
    show ?thesis
    proof (cases "match_here p (c # s)")
      case None
      with 2(3) Cons have "c' = c" "replace_all p (\<lambda>_. a # w) s = v' @ z" by auto
      with 2(1) [OF None this(2)] 2(4) Cons show ?thesis by auto
    next
      case (Some u)
      with 2(3,4) Cons show ?thesis by simp
    qed
  qed simp
qed simp

text \<open>
  Replacing all matches of one pattern by a bracketed text leaves no match of another, provided none starts where
  the first does not match.
\<close>

lemma replace_all_no_match:
  assumes sep: "\<not> may_have a q" "\<not> may_have b q" and ph: "\<not> matches_somewhere q (a # w @ [b])"
    and here: "\<And>x y. s = x @ y \<Longrightarrow> y \<noteq> [] \<Longrightarrow> match_here p y = None \<Longrightarrow> \<not> starts_word q y"
  shows "\<not> matches_somewhere q (replace_all p (\<lambda>_. a # w @ [b]) s)"
  using here
proof (induction p "\<lambda>_::string. a # w @ [b]" s rule: replace_all.induct)
  case (1 p)
  have "\<not> word q []" using ph starts_word_somewhere [of q "a # w @ [b]"] by (auto simp: starts_word_def)
  then show ?case using remainders_iff [of "[]" q "[]"] remainders_sound [of _ q "[]"] by (cases "remainders q []") fastforce+
next
  case (2 p c s)
  show ?case
  proof (cases "match_here p (c # s)")
    case None
    have "\<not> matches_somewhere q (replace_all p (\<lambda>_. a # w @ [b]) s)"
    proof (rule 2(1) [OF None])
      show "\<not> starts_word q y" if "s = x @ y" "y \<noteq> []" "match_here p y = None" for x y
        using 2(3) [of "c # x" y] that by simp
    qed
    moreover have "\<not> starts_word q (c # replace_all p (\<lambda>_. a # w @ [b]) s)"
    proof
      assume "starts_word q (c # replace_all p (\<lambda>_. a # w @ [b]) s)"
      then obtain u z where u: "c # replace_all p (\<lambda>_. a # w @ [b]) s = u @ z" "word q u" unfolding starts_word_def by blast
      have "a \<notin> set u" using word_chars [OF u(2)] sep(1) by blast
      show False
      proof (cases u)
        case Nil
        with u(2) have "starts_word q (c # s)" unfolding starts_word_def by (metis append_Nil)
        with 2(3) [of "[]" "c # s"] None show False by simp
      next
        case (Cons c' u')
        with u(1) have "c' = c" "replace_all p (\<lambda>_. a # w @ [b]) s = u' @ z" by auto
        with replace_all_prefix [OF this(2)] \<open>a \<notin> set u\<close> Cons obtain z' where "c # s = u @ z'" by auto
        with u(2) have "starts_word q (c # s)" unfolding starts_word_def by blast
        with 2(3) [of "[]" "c # s"] None show False by simp
      qed
    qed
    ultimately show ?thesis using None by (simp add: matches_somewhere_Cons del: matches_somewhere.simps)
  next
    case (Some u)
    obtain y where y: "c # s = u @ y" using match_here_sound [OF Some] by blast
    then have d: "drop (length u) (c # s) = y" by simp
    have "\<not> matches_somewhere q (replace_all p (\<lambda>_. a # w @ [b]) (drop (length u) (c # s)))"
    proof (rule 2(2) [OF Some])
      show "\<not> starts_word q y'" if "drop (length u) (c # s) = x @ y'" "y' \<noteq> []" "match_here p y' = None" for x y'
        using 2(3) [of "u @ x" y'] that y d by simp
    qed
    from no_match_separated [OF sep(2) _ this, of "a # w"] ph Some show ?thesis by simp
  qed
qed

lemma replace_all_gone:
  assumes "\<not> may_have a p" and "\<not> may_have b p" and "\<not> matches_somewhere p (a # w @ [b])"
  shows "\<not> matches_somewhere p (replace_all p (\<lambda>_. a # w @ [b]) s)"
proof (rule replace_all_no_match [OF assms])
  fix x y assume "match_here p y = None"
  moreover have "\<not> word p []" using assms(3) starts_word_somewhere [of p "a # w @ [b]"] by (auto simp: starts_word_def)
  ultimately show "\<not> starts_word p y" using match_here_None unfolding starts_word_def by blast
qed

lemma replace_all_keeps_gone:
  assumes "\<not> may_have a q" and "\<not> may_have b q" and "\<not> matches_somewhere q (a # w @ [b])" and "\<not> matches_somewhere q s"
  shows "\<not> matches_somewhere q (replace_all p (\<lambda>_. a # w @ [b]) s)"
proof (rule replace_all_no_match [OF assms(1-3)])
  fix x y assume "s = x @ y"
  then show "\<not> starts_word q y" using assms(4) starts_word_somewhere matches_somewhere_suffix by blast
qed

section \<open>The words of simple expressions\<close>

lemma word_Lit [simp]: "word (Lit s) u \<longleftrightarrow> u = s"
  by (induction s arbitrary: u) (auto simp: word_Cat_iff word_Cls_iff)

lemma word_Star_Cls [simp]: "word (Star (Cls P)) u \<longleftrightarrow> list_all P u"
proof
  show "word (Star (Cls P)) u \<Longrightarrow> list_all P u"
  proof (induction "Star (Cls P)" u rule: word.induct)
    case (word_Star u v)
    then show ?case by (auto simp: word_Cls_iff)
  qed simp
next
  assume "list_all P u"
  then show "word (Star (Cls P)) u"
  proof (induction u)
    case (Cons c u)
    then have "word (Cls P) [c]" by (simp add: word_Cls)
    from word_Star [OF this] Cons show ?case by fastforce
  qed (simp add: word_Star0)
qed

lemma word_Plus_Cls [simp]: "word (Plus (Cls P)) u \<longleftrightarrow> u \<noteq> [] \<and> list_all P u"
proof (cases u)
  case (Cons c v)
  have "word (Plus (Cls P)) (c # v) \<longleftrightarrow> (\<exists>x y. c # v = x @ y \<and> (\<exists>c. x = [c] \<and> P c) \<and> list_all P y)"
    by (auto simp: Plus_def word_Cat_iff word_Cls_iff)
  also have "\<dots> \<longleftrightarrow> P c \<and> list_all P v" by (auto intro: exI [of _ "[c]"])
  finally show ?thesis using Cons by simp
qed (auto simp: Plus_def word_Cat_iff word_Cls_iff)

text \<open>Words that start and end with characters they have nowhere else do not overlap: all of them are found.\<close>

definition delimited :: "char \<Rightarrow> char \<Rightarrow> string \<Rightarrow> bool" where
  "delimited d e u \<longleftrightarrow> (\<exists>w. u = d # w @ [e] \<and> d \<notin> set w \<and> e \<notin> set w \<and> d \<noteq> e)"

lemma delimited_same_start:
  assumes "delimited d e u" and "delimited d e v" and "u @ x = v @ y"
  shows "u = v"
proof -
  obtain w w' where w: "u = d # w @ [e]" "e \<notin> set w" "v = d # w' @ [e]" "e \<notin> set w'"
    using assms(1,2) by (auto simp: delimited_def)
  then have "w @ e # x = w' @ e # y" using assms(3) by simp
  then have "w = w'" using w(2,4) by (auto simp: append_eq_append_conv2 Cons_eq_append_conv append_eq_Cons_conv)
  with w show ?thesis by simp
qed

lemma delimited_no_overlap:
  assumes "delimited d e u" and "delimited d e v" and "v @ y = x @ u @ z" and "x \<noteq> []"
  shows "\<exists>x'. x = v @ x'"
proof -
  obtain w w' where w: "u = d # w' @ [e]" "v = d # w @ [e]" "d \<notin> set w" "d \<noteq> e"
    using assms(1,2) by (auto simp: delimited_def)
  from assms(3) obtain t where "x = v @ t \<or> (v = x @ t \<and> t @ y = u @ z)" by (auto simp: append_eq_append_conv2)
  then consider t where "x = v @ t" | "v = x @ t" "t \<noteq> []" "t @ y = u @ z"
    by (cases "t = []") auto
  then show ?thesis
  proof cases
    case 2
    then have "hd t = d" using w(1) by (cases t) auto
    moreover have "t \<noteq> [] \<Longrightarrow> hd t \<in> set (w @ [e])"
    proof -
      obtain c x' where "x = c # x'" using assms(4) by (cases x) auto
      with 2(1) w(2) have "w @ [e] = x' @ t" by simp
      then show "t \<noteq> [] \<Longrightarrow> hd t \<in> set (w @ [e])" by (cases t) auto
    qed
    ultimately show ?thesis using 2(2) w(3,4) by auto
  qed blast
qed

lemma find_all_complete:
  assumes words: "\<And>u. word r u \<Longrightarrow> delimited d e u" and u: "word r u"
  shows "s = x @ u @ y \<Longrightarrow> u \<in> set (find_all r s)"
proof (induction "length s" arbitrary: s x rule: less_induct)
  case less
  have "u \<noteq> []" using words [OF u] by (auto simp: delimited_def)
  with less.prems have "s \<noteq> []" by simp
  then obtain c s' where s: "s = c # s'" by (meson neq_Nil_conv)
  have "\<not> word r []" using words [of "[]"] by (auto simp: delimited_def)
  note none = match_here_None [OF this]
  show ?case
  proof (cases "match_here r s")
    case None
    have "x \<noteq> []"
    proof
      assume "x = []"
      with less.prems u None show False unfolding none by auto
    qed
    then obtain x' where "s' = x' @ u @ y" using less.prems s by (cases x) auto
    from less.hyps [OF _ this] s None show ?thesis by simp
  next
    case (Some v)
    then obtain y' where v: "s = v @ y'" "word r v" using match_here_sound by blast
    have "drop (length v) (c # s') = y'" using v(1) s by simp
    then have found: "find_all r s = v # find_all r y'" using Some by (simp add: s del: drop_Cons')
    show ?thesis
    proof (cases "x = []")
      case True
      then have "u @ y = v @ y'" using less.prems v(1) by simp
      with delimited_same_start [OF words [OF u] words [OF v(2)]] found show ?thesis by simp
    next
      case False
      have "v @ y' = x @ u @ y" using less.prems v(1) by simp
      from delimited_no_overlap [OF words [OF u] words [OF v(2)] this False] obtain x' where "x = v @ x'" by blast
      then have "y' = x' @ u @ y" using less.prems v(1) by simp
      moreover have "length y' < length s" using v match_here_nonempty [OF Some] by simp
      ultimately show ?thesis using less.hyps found by simp
    qed
  qed
qed

end
