(* ===== verification/Macros.thy ===== *)
theory Macros
  imports ValueTree Regexps
begin

text \<open>
  The expansion of macros in a decoded configuration (\<open>internal/config/macros.go\<close>): the validation of
  declarations, substitution in values of every depth, the scope of a model's macros, the allocation of ports, and
  the check that nothing is left unexpanded.
\<close>

type_synonym macro_list = "(string \<times> yval) list"

datatype macro_error =
    MacroNameTooLong string
  | MacroNameInvalid string
  | MacroSelfReference string
  | MacroNotScalar string
  | MacroReserved string
  | InModel string macro_error
  | StartPortUnreadable
  | StartPortTooSmall
  | SameSetParamsKey string string string
  | PortOnlyWithCmd string
  | UnknownMacroInKey string string
  | ShouldBeSubstituted string string string
  | UnknownMacroInField string string string
  | UnknownMacro string string
  | EnvNotSet string string

section \<open>Declarations\<close>

definition macro_char :: "char \<Rightarrow> bool" where
  "macro_char c = (alnum c \<or> c \<in> set ''_-'')"

definition slug :: "string \<Rightarrow> string" where
  "slug name = CHR ''$'' # CHR ''{'' # name @ ''}''"

definition macro_pattern :: rx where
  "macro_pattern = Cat (Lit [CHR ''$'', CHR ''{'']) (Cat (Plus (Cls macro_char)) (Lit ''}''))"

definition env_macro_pattern :: rx where
  "env_macro_pattern = Cat (Lit (CHR ''$'' # CHR ''{'' # ''env.'')) (Cat (Cls (\<lambda>c. upper c \<or> lower c \<or> c = CHR ''_''))
     (Cat (Star (Cls (\<lambda>c. alnum c \<or> c = CHR ''_''))) (Lit ''}'')))"

text \<open>The groups of the two patterns: the name in a match.\<close>

definition macro_name_of :: "string \<Rightarrow> string" where
  "macro_name_of u = butlast (drop 2 u)"

definition env_name_of :: "string \<Rightarrow> string" where
  "env_name_of u = butlast (drop 6 u)"

text \<open>\<open>len\<close> of a string counts bytes: two for a character beyond ASCII.\<close>

definition byte_len :: "string \<Rightarrow> nat" where
  "byte_len s = sum_list (List.map (\<lambda>c. if code_of c < 128 then 1 else 2) s)"

definition validate_macro :: "string \<Rightarrow> yval \<Rightarrow> macro_error + unit" where
  "validate_macro name value =
     (if 64 \<le> byte_len name then Inl (MacroNameTooLong name)
      else if name = [] \<or> \<not> list_all macro_char name then Inl (MacroNameInvalid name)
      else case (case value of
             VStr v \<Rightarrow> if contains v (slug name) then Some (MacroSelfReference name) else None
           | VInt n \<Rightarrow> None | VFloat f \<Rightarrow> None | VBool b \<Rightarrow> None
           | _ \<Rightarrow> Some (MacroNotScalar name)) of
          Some e \<Rightarrow> Inl e
        | None \<Rightarrow> if name \<in> {''PID'', ''PORT'', ''MODEL_ID''} then Inl (MacroReserved name) else Inr ())"

definition validate_declarations :: "macro_list \<Rightarrow> (string \<times> macro_list) list \<Rightarrow> macro_error + unit" where
  "validate_declarations globals locals =
     bindE (foldE (\<lambda>(n, v) _. validate_macro n v) globals ())
       (\<lambda>_. foldE (\<lambda>(m, ms) _. foldE (\<lambda>(n, v) _.
          (case validate_macro n v of Inl e \<Rightarrow> Inl (InModel m e) | Inr u \<Rightarrow> Inr u)) ms ()) locals ())"

section \<open>Substitution\<close>

text \<open>The verb \<open>%v\<close> for the scalars a macro can be.\<close>

definition fmt_value :: "yval \<Rightarrow> string" where
  "fmt_value v =
     (case v of
        VStr s \<Rightarrow> s
      | VInt n \<Rightarrow> if n < 0 then CHR ''-'' # decimal (nat (- n)) else decimal (nat n)
      | VBool b \<Rightarrow> if b then ''true'' else ''false''
      | VFloat s \<Rightarrow> s
      | VNull \<Rightarrow> ''<nil>''
      | _ \<Rightarrow> [])"

fun substitute_in_value :: "string \<Rightarrow> yval \<Rightarrow> yval \<Rightarrow> yval" where
  "substitute_in_value name mv (VStr s) =
     (if s = slug name then mv
      else if contains s (slug name) then VStr (replace_text (slug name) (fmt_value mv) s)
      else VStr s)"
| "substitute_in_value name mv (VMap es) = VMap (List.map (\<lambda>(k, v). (k, substitute_in_value name mv v)) es)"
| "substitute_in_value name mv (VList vs) = VList (List.map (substitute_in_value name mv) vs)"
| "substitute_in_value name mv v = v"

text \<open>The last macro first.\<close>

definition substitute_macro_list :: "yval \<Rightarrow> macro_list \<Rightarrow> yval" where
  "substitute_macro_list v macros = foldr (\<lambda>(n, mv) acc. substitute_in_value n mv acc) macros v"

fun put_macro :: "string \<times> yval \<Rightarrow> macro_list \<Rightarrow> macro_list" where
  "put_macro e [] = [e]"
| "put_macro e (x # xs) = (if fst x = fst e then e # xs else x # put_macro e xs)"

definition merge_model_macros :: "string \<Rightarrow> macro_list \<Rightarrow> macro_list \<Rightarrow> macro_list" where
  "merge_model_macros model_id globals model = foldl (\<lambda>acc e. put_macro e acc) ((''MODEL_ID'', VStr model_id) # globals) model"

definition set_params_of :: "(string \<times> yval) list \<Rightarrow> ((string \<times> yval) list \<times> (string \<times> yval) list) option" where
  "set_params_of model =
     (case map_of model ''filters'' of
        Some (VMap filters) \<Rightarrow>
          (case map_of filters ''setParamsByID'' of Some (VMap params) \<Rightarrow> Some (filters, params) | _ \<Rightarrow> None)
      | _ \<Rightarrow> None)"

definition substitute_in_key :: "string \<Rightarrow> macro_list \<Rightarrow> string" where
  "substitute_in_key key macros = foldr (\<lambda>(n, mv) k. replace_text (slug n) (fmt_value mv) k) macros key"

definition substitute_set_params_keys :: "string \<Rightarrow> macro_list \<Rightarrow> (string \<times> yval) list \<Rightarrow> macro_error + (string \<times> yval) list" where
  "substitute_set_params_keys model_id macros model =
     (case set_params_of model of
        None \<Rightarrow> Inr model
      | Some (filters, params) \<Rightarrow>
          bindE (foldE (\<lambda>(key, value) resolved.
                   (let new_key = substitute_in_key key macros
                    in if map_of resolved new_key \<noteq> None then Inl (SameSetParamsKey model_id key new_key)
                       else Inr (resolved @ [(new_key, value)]))) params [])
            (\<lambda>resolved. Inr (AList.update ''filters'' (VMap (AList.update ''setParamsByID'' (VMap resolved) filters)) model)))"

definition validate_set_params_keys :: "string \<Rightarrow> (string \<times> yval) list \<Rightarrow> macro_error + unit" where
  "validate_set_params_keys model_id model =
     (case set_params_of model of
        None \<Rightarrow> Inr ()
      | Some (filters, params) \<Rightarrow>
          foldE (\<lambda>(key, value) _.
            (case find_all macro_pattern key of [] \<Rightarrow> Inr () | u # us \<Rightarrow> Inl (UnknownMacroInKey (macro_name_of u) model_id)))
            params ())"

section \<open>What is left unexpanded\<close>

definition check_match :: "string \<Rightarrow> string \<Rightarrow> string \<Rightarrow> bool \<Rightarrow> string \<Rightarrow> macro_error + unit" where
  "check_match path model_id field allow_pid u =
     (let name = macro_name_of u
      in if name = ''PID'' \<and> allow_pid then Inr ()
         else if model_id \<noteq> [] then
           (if field \<in> {''cmd'', ''cmdStop'', ''proxy'', ''checkEndpoint'', ''filters.stripParams'', ''name'', ''description''}
            then (if name = ''PORT'' \<or> name = ''MODEL_ID'' then Inl (ShouldBeSubstituted name model_id field)
                  else Inl (UnknownMacroInField name model_id field))
            else Inl (UnknownMacro (''model '' @ model_id @ '' '' @
                   (if has_prefix field ''capabilities.'' then ''capabilities''
                    else if has_prefix field ''metadata.'' then ''metadata'' else field)) name))
         else Inl (UnknownMacro path name))"

definition check_string :: "string \<Rightarrow> string \<Rightarrow> string \<Rightarrow> bool \<Rightarrow> string \<Rightarrow> macro_error + unit" where
  "check_string path model_id field allow_pid s =
     bindE (foldE (\<lambda>u _. check_match path model_id field allow_pid u) (find_all macro_pattern s) ())
       (\<lambda>_. case find_all env_macro_pattern s of [] \<Rightarrow> Inr () | u # us \<Rightarrow> Inl (EnvNotSet path (env_name_of u)))"

fun validate_macro_uses :: "string \<Rightarrow> string \<Rightarrow> string \<Rightarrow> bool \<Rightarrow> yval \<Rightarrow> macro_error + unit"
  and validate_entries :: "string \<Rightarrow> string \<Rightarrow> string \<Rightarrow> bool \<Rightarrow> (string \<times> yval) list \<Rightarrow> macro_error + unit"
  and validate_items :: "string \<Rightarrow> string \<Rightarrow> string \<Rightarrow> bool \<Rightarrow> nat \<Rightarrow> yval list \<Rightarrow> macro_error + unit" where
  "validate_macro_uses path model_id field pid (VStr s) = check_string path model_id field pid s"
| "validate_macro_uses path model_id field pid (VMap es) = validate_entries path model_id field pid es"
| "validate_macro_uses path model_id field pid (VList vs) = validate_items path model_id field pid 0 vs"
| "validate_macro_uses path model_id field pid v = Inr ()"
| "validate_entries path model_id field pid [] = Inr ()"
| "validate_entries path model_id field pid ((k, v) # es) =
     bindE (validate_macro_uses (path @ ''.'' @ k) model_id (if model_id \<noteq> [] then field @ ''.'' @ k else field) pid v)
       (\<lambda>_. validate_entries path model_id field pid es)"
| "validate_items path model_id field pid i [] = Inr ()"
| "validate_items path model_id field pid i (v # vs) =
     bindE (validate_macro_uses (path @ ''['' @ decimal i @ '']'') model_id field pid v)
       (\<lambda>_. validate_items path model_id field pid (i + 1) vs)"

text \<open>The keys of the type \<open>Config\<close>.\<close>

definition known_fields :: "string list" where
  "known_fields = [''tailcat'', ''healthCheckTimeout'', ''logRequests'', ''logLevel'', ''logTimeFormat'', ''logToStdout'',
     ''metricsMaxInMemory'', ''captureBuffer'', ''store'', ''ui'', ''performance'', ''helpagent'', ''globalTTL'',
     ''unloadTimeout'', ''models'', ''profiles'', ''selectors'', ''globalConcurrencyLimit'', ''maxRequestBodyMB'', ''routing'',
     ''groups'', ''matrix'', ''macros'', ''startPort'', ''hooks'', ''sendLoadingState'', ''includeAliasesInList'', ''apiKeys'',
     ''peers'', ''upstream'', ''security'']"

definition validate_model_uses :: "string \<Rightarrow> yval \<Rightarrow> macro_error + unit" where
  "validate_model_uses model_id v =
     (case v of
        VMap model \<Rightarrow>
          foldE (\<lambda>(field, fv) _.
            validate_macro_uses (''models.'' @ model_id @ ''.'' @ field) model_id field (field = ''cmdStop'') fv) model ()
      | _ \<Rightarrow> Inr ())"

definition validate_config_macro_uses :: "(string \<times> yval) list \<Rightarrow> macro_error + unit" where
  "validate_config_macro_uses raw =
     foldE (\<lambda>(key, value) _.
       (if key \<notin> set known_fields then Inr ()
        else if key \<noteq> ''models'' then validate_macro_uses key [] [] False value
        else case value of
          VMap models \<Rightarrow> foldE (\<lambda>(model_id, mv) _. validate_model_uses model_id mv) models ()
        | _ \<Rightarrow> Inr ())) raw ()"

section \<open>Resolving a configuration\<close>

text \<open>\<open>StripComments\<close> of a command, line by line.\<close>

fun join_lines :: "string list \<Rightarrow> string" where
  "join_lines [] = []"
| "join_lines [l] = l"
| "join_lines (l # ls) = l @ [char_of (10::nat)] @ join_lines ls"

definition strip_comments :: "string \<Rightarrow> string" where
  "strip_comments cmd =
     join_lines (filter (\<lambda>l. \<not> has_prefix (trim_space l) ''#'') (split_at (char_of (10::nat)) cmd))"

definition strip_raw_command_comments :: "(string \<times> yval) list \<Rightarrow> (string \<times> yval) list" where
  "strip_raw_command_comments model =
     foldl (\<lambda>m field. (case map_of m field of Some (VStr s) \<Rightarrow> AList.update field (VStr (strip_comments s)) m | _ \<Rightarrow> m))
       model [''cmd'', ''cmdStop'']"

definition default_proxy :: string where
  "default_proxy = ''http://localhost:'' @ slug ''PORT''"

definition prepare_model :: "(string \<times> yval) list \<Rightarrow> (string \<times> yval) list" where
  "prepare_model model =
     (let m = strip_raw_command_comments (AList.delete ''macros'' model)
      in case map_of m ''proxy'' of
           None \<Rightarrow> AList.update ''proxy'' (VStr default_proxy) m
         | Some VNull \<Rightarrow> AList.update ''proxy'' (VStr default_proxy) m
         | Some v \<Rightarrow> m)"

definition raw_models :: "(string \<times> yval) list \<Rightarrow> (string \<times> yval) list" where
  "raw_models raw =
     (case map_of raw ''models'' of
        Some (VMap ms) \<Rightarrow> List.map (\<lambda>(k, v). (k, case v of VMap m \<Rightarrow> VMap (prepare_model m) | _ \<Rightarrow> v)) ms
      | _ \<Rightarrow> [])"

definition string_field :: "(string \<times> yval) list \<Rightarrow> string \<Rightarrow> string" where
  "string_field model field = (case map_of model field of Some (VStr s) \<Rightarrow> s | _ \<Rightarrow> [])"

definition substitute_model :: "string \<Rightarrow> macro_list \<Rightarrow> (string \<times> yval) list \<Rightarrow> macro_error + (string \<times> yval) list" where
  "substitute_model model_id macros model =
     (case substitute_macro_list (VMap model) macros of
        VMap m \<Rightarrow> substitute_set_params_keys model_id macros m
      | _ \<Rightarrow> Inr model)"

definition resolve_model ::
  "macro_list \<Rightarrow> (string \<times> macro_list) list \<Rightarrow> string \<Rightarrow> (string \<times> yval) list \<times> int \<Rightarrow> macro_error + (string \<times> yval) list \<times> int" where
  "resolve_model globals locals model_id st =
     (case st of (models, next_port) \<Rightarrow>
       (case map_of models model_id of
          Some (VMap model) \<Rightarrow>
            (let macros = merge_model_macros model_id globals (case map_of locals model_id of Some l \<Rightarrow> l | None \<Rightarrow> [])
             in bindE (substitute_model model_id macros model) (\<lambda>model1.
                  let cmd_has_port = contains (string_field model1 ''cmd'') (slug ''PORT'');
                      proxy_has_port = contains (string_field model1 ''proxy'') (slug ''PORT'')
                  in bindE (if cmd_has_port \<or> proxy_has_port then
                              (if \<not> cmd_has_port \<and> proxy_has_port then Inl (PortOnlyWithCmd model_id)
                               else bindE (substitute_model model_id [(''PORT'', VInt next_port)] model1)
                                      (\<lambda>model2. Inr (model2, next_port + 1)))
                            else Inr (model1, next_port))
                       (\<lambda>(model2, next2).
                          bindE (validate_set_params_keys model_id model2)
                            (\<lambda>_. Inr (AList.update model_id (VMap model2) models, next2)))))
        | _ \<Rightarrow> Inr (models, next_port)))"

text \<open>
  \<open>rawStartPort\<close> decodes one field with the YAML library, the parameter \<open>decode_port\<close>: an integer, or
  nothing where the value is not one.
\<close>

definition raw_start_port :: "(yval option \<Rightarrow> int option) \<Rightarrow> (string \<times> yval) list \<Rightarrow> macro_error + int" where
  "raw_start_port decode_port raw =
     (case decode_port (map_of raw ''startPort'') of
        None \<Rightarrow> Inl StartPortUnreadable
      | Some p \<Rightarrow> if p < 1 then Inl StartPortTooSmall else Inr p)"

definition resolve_config_macros ::
  "(yval option \<Rightarrow> int option) \<Rightarrow> macro_list \<Rightarrow> (string \<times> macro_list) list \<Rightarrow> (string \<times> yval) list \<Rightarrow>
   macro_error + (string \<times> yval) list" where
  "resolve_config_macros decode_port globals locals raw =
     bindE (validate_declarations globals locals) (\<lambda>_.
       let raw1 = AList.delete ''macros'' raw;
           models = raw_models raw1;
           raw2 = List.map (\<lambda>(k, v). (k, if k = ''models'' then v else substitute_macro_list v globals)) raw1
       in bindE (raw_start_port decode_port raw2) (\<lambda>start.
            bindE (foldE (resolve_model globals locals) (sort (List.map fst models)) (models, start)) (\<lambda>(models', next_port).
              let raw3 = AList.update ''models'' (VMap models') raw2
              in bindE (validate_config_macro_uses raw3) (\<lambda>_. Inr raw3))))"

section \<open>Nothing is left unexpanded\<close>

definition macro_name :: "string \<Rightarrow> bool" where
  "macro_name n \<longleftrightarrow> n \<noteq> [] \<and> list_all macro_char n"

lemma word_macro_pattern: "word macro_pattern u \<longleftrightarrow> (\<exists>n. macro_name n \<and> u = slug n)"
  by (auto simp: macro_pattern_def word_Cat_iff macro_name_def slug_def simp del: Lit.simps)

lemma macro_char_other: "\<not> macro_char (CHR ''$'')" "\<not> macro_char (CHR ''{'')" "\<not> macro_char (CHR ''}'')"
  by code_simp+

lemma macro_pattern_delimited:
  assumes "word macro_pattern u"
  shows "delimited (CHR ''$'') (CHR ''}'') u"
proof -
  obtain n where n: "macro_name n" "u = slug n" using assms word_macro_pattern by blast
  then have "CHR ''$'' \<notin> set n" "CHR ''}'' \<notin> set n" using macro_char_other by (auto simp: macro_name_def list_all_iff)
  then show ?thesis unfolding delimited_def n(2) slug_def by (intro exI [of _ "CHR ''{'' # n"]) simp
qed

lemma macro_name_of_slug [simp]: "macro_name_of (slug n) = n"
  by (simp add: macro_name_of_def slug_def)

lemma found_macros:
  assumes "macro_name n" and "contains s (slug n)"
  shows "slug n \<in> set (find_all macro_pattern s)"
proof -
  have "word macro_pattern (slug n)" using assms(1) word_macro_pattern by blast
  with assms(2) show ?thesis
    unfolding contains_iff using find_all_complete [OF macro_pattern_delimited] by blast
qed

lemma env_pattern_nonempty: "\<not> word env_macro_pattern []"
  by (simp add: env_macro_pattern_def word_Cat_iff word_Cls_iff)

lemma foldE_unit: "foldE (\<lambda>x _. f x) xs () = Inr () \<longleftrightarrow> (\<forall>x \<in> set xs. f x = Inr ())"
proof (induction xs)
  case (Cons x xs)
  then show ?case by (cases "f x") auto
qed simp

text \<open>
  A string is clean if it has no macro and no environment macro; where the process identifier is allowed,
  that one macro may remain. A value is \<open>clean_outside\<close> if its strings are, those below a mapping
  with a key that is not a string excepted; it is \<open>clean\<close> if all its strings are.
\<close>

definition clean_string :: "bool \<Rightarrow> string \<Rightarrow> bool" where
  "clean_string pid s \<longleftrightarrow> (\<forall>n. macro_name n \<longrightarrow> contains s (slug n) \<longrightarrow> pid \<and> n = ''PID'') \<and>
     \<not> matches_somewhere env_macro_pattern s"

fun clean_outside :: "bool \<Rightarrow> yval \<Rightarrow> bool" where
  "clean_outside pid (VStr s) \<longleftrightarrow> clean_string pid s"
| "clean_outside pid (VMap es) \<longleftrightarrow> (\<forall>(k, v) \<in> set es. clean_outside pid v)"
| "clean_outside pid (VList vs) \<longleftrightarrow> (\<forall>v \<in> set vs. clean_outside pid v)"
| "clean_outside pid v \<longleftrightarrow> True"

fun clean :: "bool \<Rightarrow> yval \<Rightarrow> bool" where
  "clean pid (VStr s) \<longleftrightarrow> clean_string pid s"
| "clean pid (VMap es) \<longleftrightarrow> (\<forall>(k, v) \<in> set es. clean pid v)"
| "clean pid (VAnyMap es) \<longleftrightarrow> (\<forall>(k, v) \<in> set es. clean pid k \<and> clean pid v)"
| "clean pid (VList vs) \<longleftrightarrow> (\<forall>v \<in> set vs. clean pid v)"
| "clean pid v \<longleftrightarrow> True"

lemma clean_string_keyed: "string_keyed v \<Longrightarrow> clean_outside pid v \<Longrightarrow> clean pid v"
  by (induction pid v rule: clean.induct) fastforce+

lemma check_match_ok: "check_match path m field pid u = Inr () \<Longrightarrow> macro_name_of u = ''PID'' \<and> pid"
  by (auto simp: check_match_def Let_def split: if_splits)

lemma check_string_clean:
  assumes "check_string path m field pid s = Inr ()"
  shows "clean_string pid s"
  unfolding clean_string_def
proof (intro conjI allI impI)
  have "foldE (\<lambda>u _. check_match path m field pid u) (find_all macro_pattern s) () = Inr ()"
    and env: "find_all env_macro_pattern s = []"
    using assms by (auto simp: check_string_def bindE_simps split: list.splits)
  then have all: "\<forall>u \<in> set (find_all macro_pattern s). check_match path m field pid u = Inr ()"
    unfolding foldE_unit by blast
  show "\<not> matches_somewhere env_macro_pattern s" using env find_all_None [OF env_pattern_nonempty] by blast
  fix n assume "macro_name n" "contains s (slug n)"
  then have "check_match path m field pid (slug n) = Inr ()" using all found_macros by blast
  from check_match_ok [OF this] show "pid" and "n = ''PID''" by simp_all
qed

lemma validate_macro_uses_clean:
  "validate_macro_uses path m field pid v = Inr () \<Longrightarrow> clean_outside pid v"
  "validate_entries path m field pid es = Inr () \<Longrightarrow> \<forall>(k, v) \<in> set es. clean_outside pid v"
  "validate_items path m field pid i vs = Inr () \<Longrightarrow> \<forall>v \<in> set vs. clean_outside pid v"
  by (induction path m field pid v and path m field pid es and path m field pid i vs
      rule: validate_macro_uses_validate_entries_validate_items.induct)
    (auto simp: bindE_simps check_string_clean)

text \<open>
  A condition on the values of the fields of a configuration: of every field of every model, told whether the process
  identifier may occur there, and of every other field.
\<close>

definition model_fields :: "(bool \<Rightarrow> yval \<Rightarrow> bool) \<Rightarrow> yval \<Rightarrow> bool" where
  "model_fields ok v \<longleftrightarrow> (case v of VMap model \<Rightarrow> \<forall>(field, fv) \<in> set model. ok (field = ''cmdStop'') fv | _ \<Rightarrow> True)"

definition config_fields :: "(bool \<Rightarrow> yval \<Rightarrow> bool) \<Rightarrow> string \<Rightarrow> yval \<Rightarrow> bool" where
  "config_fields ok key value \<longleftrightarrow>
     (if key = ''models'' then (\<forall>models. value = VMap models \<longrightarrow> (\<forall>(model_id, mv) \<in> set models. model_fields ok mv))
      else ok False value)"

lemma config_fields_string_keyed:
  assumes "config_fields clean_outside key value" and "string_keyed value"
  shows "config_fields clean key value"
proof -
  have "model_fields clean mv" if "model_fields clean_outside mv" "string_keyed mv" for mv
    using that clean_string_keyed by (fastforce simp: model_fields_def split: yval.splits)
  then show ?thesis using assms clean_string_keyed by (fastforce simp: config_fields_def split: if_splits)
qed

lemma validate_model_uses_clean: "validate_model_uses m v = Inr () \<Longrightarrow> model_fields clean_outside v"
  by (auto simp: validate_model_uses_def model_fields_def case_prod_beta' foldE_unit validate_macro_uses_clean(1) split: yval.splits)

lemma validate_config_clean:
  assumes "validate_config_macro_uses raw = Inr ()" and "(key, value) \<in> set raw" and "key \<in> set known_fields"
  shows "config_fields clean_outside key value"
proof -
  have here: "(if key \<notin> set known_fields then Inr ()
        else if key \<noteq> ''models'' then validate_macro_uses key [] [] False value
        else case value of
          VMap models \<Rightarrow> foldE (\<lambda>(model_id, mv) _. validate_model_uses model_id mv) models ()
        | _ \<Rightarrow> Inr ()) = Inr ()"
    using assms(1,2) unfolding validate_config_macro_uses_def case_prod_beta' foldE_unit by fastforce
  show ?thesis
  proof (cases "key = ''models''")
    case True
    have "model_fields clean_outside mv" if "value = VMap models" "(model_id, mv) \<in> set models" for models model_id mv
    proof -
      have "foldE (\<lambda>x _. validate_model_uses (fst x) (snd x)) models () = Inr ()"
        using here True assms(3) that(1) by (simp add: case_prod_beta')
      then have "validate_model_uses model_id mv = Inr ()" using that(2) unfolding foldE_unit by fastforce
      then show ?thesis by (rule validate_model_uses_clean)
    qed
    with True show ?thesis by (auto simp: config_fields_def)
  next
    case False
    with here assms(3) validate_macro_uses_clean(1) show ?thesis by (simp add: config_fields_def)
  qed
qed

section \<open>Ports\<close>

text \<open>A model with its macros expanded, and whether it asks for a port.\<close>

definition macros_for :: "macro_list \<Rightarrow> (string \<times> macro_list) list \<Rightarrow> string \<Rightarrow> macro_list" where
  "macros_for globals locals model_id =
     merge_model_macros model_id globals (case map_of locals model_id of Some l \<Rightarrow> l | None \<Rightarrow> [])"

definition wants_port :: "(string \<times> yval) list \<Rightarrow> bool" where
  "wants_port model \<longleftrightarrow> contains (string_field model ''cmd'') (slug ''PORT'')"

definition port_user :: "macro_list \<Rightarrow> (string \<times> macro_list) list \<Rightarrow> (string \<times> yval) list \<Rightarrow> string \<Rightarrow> bool" where
  "port_user globals locals models model_id \<longleftrightarrow>
     (case map_of models model_id of
        Some (VMap model) \<Rightarrow>
          (case substitute_model model_id (macros_for globals locals model_id) model of Inr m \<Rightarrow> wants_port m | Inl e \<Rightarrow> False)
      | _ \<Rightarrow> False)"

text \<open>What becomes of one model, given the port it gets if it wants one.\<close>

definition resolved_as ::
  "macro_list \<Rightarrow> (string \<times> macro_list) list \<Rightarrow> string \<Rightarrow> (string \<times> yval) list \<Rightarrow> int \<Rightarrow> (string \<times> yval) list \<Rightarrow> bool" where
  "resolved_as globals locals model_id model port m2 \<longleftrightarrow>
     (\<exists>m1. substitute_model model_id (macros_for globals locals model_id) model = Inr m1 \<and>
        (contains (string_field m1 ''proxy'') (slug ''PORT'') \<longrightarrow> wants_port m1) \<and>
        (if wants_port m1 then substitute_model model_id [(''PORT'', VInt port)] m1 = Inr m2 else m2 = m1) \<and>
        validate_set_params_keys model_id m2 = Inr ())"

lemma resolve_model_other:
  "resolve_model globals locals x (models, p) = Inr (models', p') \<Longrightarrow> y \<noteq> x \<Longrightarrow> map_of models' y = map_of models y"
  by (auto simp: resolve_model_def Let_def bindE_simps split: option.splits yval.splits if_splits)

lemma resolve_model_here:
  assumes "resolve_model globals locals x (models, p) = Inr (models', p')"
  shows "p' = p + (if port_user globals locals models x then 1 else 0)"
    and "map_of models x = Some (VMap model) \<Longrightarrow> \<exists>m2. map_of models' x = Some (VMap m2) \<and> resolved_as globals locals x model p m2"
proof -
  have "p' = p + (if port_user globals locals models x then 1 else 0) \<and>
     (\<forall>model. map_of models x = Some (VMap model) \<longrightarrow> (\<exists>m2. map_of models' x = Some (VMap m2) \<and> resolved_as globals locals x model p m2))"
  proof (cases "\<exists>model. map_of models x = Some (VMap model)")
    case False
    with assms show ?thesis by (auto simp: resolve_model_def port_user_def split: option.splits yval.splits)
  next
    case True
    then obtain model where model: "map_of models x = Some (VMap model)" by blast
    let ?subst = "substitute_model x (macros_for globals locals x) model"
    from assms model obtain m1 where m1: "?subst = Inr m1"
      by (auto simp: resolve_model_def macros_for_def Let_def bindE_simps)
    let ?proxy = "contains (string_field m1 ''proxy'') (slug ''PORT'')"
    have "bindE (if wants_port m1 \<or> ?proxy then
             (if \<not> wants_port m1 \<and> ?proxy then Inl (PortOnlyWithCmd x)
              else bindE (substitute_model x [(''PORT'', VInt p)] m1) (\<lambda>model2. Inr (model2, p + 1)))
           else Inr (m1, p))
         (\<lambda>(model2, next2). bindE (validate_set_params_keys x model2) (\<lambda>_. Inr (AList.update x (VMap model2) models, next2))) =
       Inr (models', p')"
      using assms m1 unfolding resolve_model_def macros_for_def wants_port_def
      by (simp only: model prod.case option.case yval.case Let_def bindE_Inr)
    moreover have "port_user globals locals models x = wants_port m1" by (simp add: port_user_def model m1)
    ultimately show ?thesis using model m1
      by (auto simp: bindE_simps resolved_as_def split: if_splits)
  qed
  then show "p' = p + (if port_user globals locals models x then 1 else 0)"
    and "map_of models x = Some (VMap model) \<Longrightarrow> \<exists>m2. map_of models' x = Some (VMap m2) \<and> resolved_as globals locals x model p m2"
    by blast+
qed

lemma resolve_models:
  assumes "foldE (resolve_model globals locals) ids (models, p) = Inr (models', p')" and "distinct ids"
  shows "y \<notin> set ids \<Longrightarrow> map_of models' y = map_of models y"
    and "y \<in> set ids \<Longrightarrow> map_of models y = Some (VMap model) \<Longrightarrow>
      \<exists>m2. map_of models' y = Some (VMap m2) \<and>
        resolved_as globals locals y model (p + int (length (filter (port_user globals locals models) (takeWhile (\<lambda>x. x \<noteq> y) ids)))) m2"
  using assms
proof (induction ids arbitrary: models p)
  case (Cons x ids)
  { case 1
    then obtain ms1 p1 where s: "resolve_model globals locals x (models, p) = Inr (ms1, p1)"
      "foldE (resolve_model globals locals) ids (ms1, p1) = Inr (models', p')" by (auto simp: bindE_simps)
    from Cons.IH(1) [OF _ s(2)] resolve_model_other [OF s(1)] 1 show ?case by auto }
  { case 2
    then obtain ms1 p1 where s: "resolve_model globals locals x (models, p) = Inr (ms1, p1)"
      "foldE (resolve_model globals locals) ids (ms1, p1) = Inr (models', p')" by (auto simp: bindE_simps)
    have d: "distinct ids" "x \<notin> set ids" using 2(4) by auto
    have users: "port_user globals locals ms1 z = port_user globals locals models z" if "z \<noteq> x" for z
      using resolve_model_other [OF s(1) that] by (simp add: port_user_def)
    show ?case
    proof (cases "y = x")
      case True
      have "map_of models' y = map_of ms1 y" using Cons.IH(1) [OF _ s(2) d(1)] d(2) True by simp
      with resolve_model_here(2) [OF s(1)] 2(2) True show ?thesis by simp
    next
      case False
      then have y: "y \<in> set ids" "map_of ms1 y = Some (VMap model)" using 2(1,2) resolve_model_other [OF s(1)] by auto
      have "filter (port_user globals locals ms1) (takeWhile (\<lambda>x. x \<noteq> y) ids) =
          filter (port_user globals locals models) (takeWhile (\<lambda>x. x \<noteq> y) ids)"
      proof (rule filter_cong [OF refl])
        fix z assume "z \<in> set (takeWhile (\<lambda>x. x \<noteq> y) ids)"
        then have "z \<noteq> x" using d(2) set_takeWhileD by fastforce
        then show "port_user globals locals ms1 z = port_user globals locals models z" by (rule users)
      qed
      with Cons.IH(2) [OF y s(2) d(1)] False resolve_model_here(1) [OF s(1)] show ?thesis
        by (auto simp: algebra_simps split: if_splits)
    qed }
qed simp_all

lemma sorted_takeWhile_filter:
  fixes ys :: "string list"
  assumes "sorted ys" and "distinct ys" and "y \<in> set ys"
  shows "takeWhile (\<lambda>x. x \<noteq> y) ys = filter (\<lambda>x. x < y) ys"
  using assms
proof (induction ys)
  case (Cons z ys)
  show ?case
  proof (cases "z = y")
    case True
    then have "filter (\<lambda>x. x < y) ys = []" using Cons.prems by (auto simp: filter_empty_conv)
    with True show ?thesis by simp
  next
    case False
    with Cons.prems have "y \<in> set ys" "z < y" by auto
    with Cons show ?thesis using False by simp
  qed
qed simp

text \<open>The port of a model: the first one, plus the number of models before it that ask for one.\<close>

definition port_for :: "macro_list \<Rightarrow> (string \<times> macro_list) list \<Rightarrow> (string \<times> yval) list \<Rightarrow> int \<Rightarrow> string \<Rightarrow> int" where
  "port_for globals locals models start y =
     start + int (card {x \<in> dom (map_of models). port_user globals locals models x \<and> x < y})"

lemma port_for_less:
  assumes "port_user globals locals models x" and "x < y"
  shows "port_for globals locals models start x < port_for globals locals models start y"
proof -
  let ?U = "\<lambda>y. {x \<in> dom (map_of models). port_user globals locals models x \<and> x < y}"
  have "x \<in> dom (map_of models)" using assms(1) by (auto simp: port_user_def split: option.splits)
  then have "?U x \<subset> ?U y" using assms by auto
  moreover have "finite (?U y)" using finite_dom_map_of [of models] by simp
  ultimately have "card (?U x) < card (?U y)" by (rule psubset_card_mono [rotated])
  then show ?thesis by (simp add: port_for_def)
qed

lemma resolve_models_ports:
  assumes "foldE (resolve_model globals locals) (sort (List.map fst models)) (models, start) = Inr (models', p')"
    and "distinct (List.map fst models)" and "map_of models y = Some (VMap model)"
  shows "\<exists>m2. map_of models' y = Some (VMap m2) \<and> resolved_as globals locals y model (port_for globals locals models start y) m2"
proof -
  let ?ids = "sort (List.map fst models)"
  let ?pu = "port_user globals locals models"
  have d: "distinct ?ids" using assms(2) by simp
  have "y \<in> fst ` set models" using map_of_SomeD [OF assms(3)] by force
  then have y: "y \<in> set ?ids" by simp
  define L where "L = filter ?pu (takeWhile (\<lambda>x. x \<noteq> y) ?ids)"
  have "set L = {x \<in> dom (map_of models). ?pu x \<and> x < y}"
    unfolding L_def sorted_takeWhile_filter [OF sorted_sort d y] by (auto simp: dom_map_of_conv_image_fst)
  moreover have "distinct L" using d by (simp add: L_def)
  ultimately have "length L = card {x \<in> dom (map_of models). ?pu x \<and> x < y}"
    using distinct_card [of L] by simp
  with resolve_models(2) [OF assms(1) d y assms(3), folded L_def] show ?thesis by (simp only: port_for_def)
qed

section \<open>Properties\<close>

text \<open>Two models use the default proxy with an allocated port, one has its own; macros nest and a model overrides one.\<close>

definition demo_macro_globals :: macro_list where
  "demo_macro_globals = [(''bin'', VStr ''srv''), (''run'', VStr (slug ''bin'' @ '' -p '' @ slug ''PORT'')), (''n'', VInt 4)]"

definition demo_macro_locals :: "(string \<times> macro_list) list" where
  "demo_macro_locals = [(''b'', [(''n'', VInt 8)])]"

definition demo_raw :: "(string \<times> yval) list" where
  "demo_raw = [(''startPort'', VInt 70),
     (''models'', VMap [(''b'', VMap [(''cmd'', VStr (slug ''run'' @ '' -n '' @ slug ''n'')), (''macros'', VMap [(''n'', VInt 8)])]),
        (''c'', VMap [(''cmd'', VStr ''x''), (''proxy'', VStr ''u'')]),
        (''a'', VMap [(''cmd'', VStr (slug ''run'')), (''ttl'', VStr (slug ''n''))])])]"

definition demo_port :: "yval option \<Rightarrow> int option" where
  "demo_port v = (case v of None \<Rightarrow> Some 5800 | Some (VInt n) \<Rightarrow> Some n | _ \<Rightarrow> None)"

lemma demo_resolved:
  "resolve_config_macros demo_port demo_macro_globals demo_macro_locals demo_raw =
   Inr [(''startPort'', VInt 70),
     (''models'', VMap [(''b'', VMap [(''cmd'', VStr ''srv -p 71 -n 8''), (''proxy'', VStr ''http://localhost:71'')]),
        (''c'', VMap [(''cmd'', VStr ''x''), (''proxy'', VStr ''u'')]),
        (''a'', VMap [(''cmd'', VStr ''srv -p 70''), (''ttl'', VInt 4), (''proxy'', VStr ''http://localhost:70'')])])]"
  by code_simp


definition demo_models_resolved :: yval where
  "demo_models_resolved =
     VMap [(''b'', VMap [(''cmd'', VStr ''srv -p 71 -n 8''), (''proxy'', VStr ''http://localhost:71'')]),
        (''c'', VMap [(''cmd'', VStr ''x''), (''proxy'', VStr ''u'')]),
        (''a'', VMap [(''cmd'', VStr ''srv -p 70''), (''ttl'', VInt 4), (''proxy'', VStr ''http://localhost:70'')])]"


text \<open>The exception is real: a macro below a mapping with a number for a key is neither expanded nor refused.\<close>

lemma any_map_keeps_macro:
  "resolve_config_macros demo_port [(''foo'', VStr ''x'')] []
     [(''models'', VMap [(''m'', VMap [(''cmd'', VStr ''c''), (''proxy'', VStr ''u''),
        (''metadata'', VMap [(''n'', VAnyMap [(VInt 1, VStr (slug ''foo''))])])])])] =
   Inr [(''models'', VMap [(''m'', VMap [(''cmd'', VStr ''c''), (''proxy'', VStr ''u''),
        (''metadata'', VMap [(''n'', VAnyMap [(VInt 1, VStr (slug ''foo''))])])])])]"
  by code_simp

text \<open>
  Ports are allocated by model, not by the order of the map: in the order of their names, every model whose
  command asks for a port once its macros are expanded gets the next one, so two models never share a port, and a
  model that does not ask keeps its values.
\<close>
lemma ports_by_name:
  assumes "resolve_config_macros decode_port globals locals raw = Inr resolved"
  defines "models \<equiv> raw_models (AList.delete ''macros'' raw)"
  assumes "distinct (List.map fst models)"
  shows "\<exists>start models'. 1 \<le> start \<and> map_of resolved ''models'' = Some (VMap models') \<and>
     (\<forall>y model. map_of models y = Some (VMap model) \<longrightarrow> (\<exists>m. map_of models' y = Some (VMap m) \<and>
        resolved_as globals locals y model (port_for globals locals models start y) m)) \<and>
     (\<forall>x y. port_user globals locals models x \<longrightarrow> x < y \<longrightarrow>
        port_for globals locals models start x < port_for globals locals models start y)"
proof -
  from assms(1) obtain raw2 start models' next_port where r: "raw_start_port decode_port raw2 = Inr start"
    "foldE (resolve_model globals locals) (sort (List.map fst models)) (models, start) = Inr (models', next_port)"
    "resolved = AList.update ''models'' (VMap models') raw2"
    unfolding resolve_config_macros_def models_def by (auto simp: Let_def bindE_simps)
  have "1 \<le> start" using r(1) by (auto simp: raw_start_port_def split: option.splits if_splits)
  moreover have "map_of resolved ''models'' = Some (VMap models')" by (simp add: r(3))
  ultimately show ?thesis using resolve_models_ports [OF r(2) assms(3)] port_for_less by blast
qed

end
