(* ===== verification/Redact.thy ===== *)
theory Redact
  imports ValueTree Regexps
begin

text \<open>
  Removing credentials from a configuration before it is shown (\<open>internal/config/redact.go\<close>): what is removed
  under a credential's key, from commands and environment entries, and wherever a known token format occurs.
\<close>

definition redacted_placeholder :: string where
  "redacted_placeholder = ''[REDACTED]''"

definition secret_key_hints :: "string list" where
  "secret_key_hints = [''apikey'', ''api_key'', ''token'', ''secret'', ''password'', ''passwd'', ''credential'', ''bearer'']"

definition is_secret_key :: "string \<Rightarrow> bool" where
  "is_secret_key key = (if key = [] then False else list_ex (contains (to_lower key)) secret_key_hints)"

section \<open>The patterns\<close>

definition secret_value_patterns :: "rx list" where
  "secret_value_patterns =
     [Cat (Lit ''hf_'') (AtLeast 16 (Cls alnum)),
      Cat (Lit ''sk-'') (AtLeast 20 (Cls (\<lambda>c. alnum c \<or> c \<in> set ''_-''))),
      Cat (Lit ''gh'') (Cat (one_of ''oprsu'') (Cat (Lit ''_'') (AtLeast 20 (Cls alnum)))),
      Cat (Lit ''xox'') (Cat (one_of ''baprs'') (Cat (Lit ''-'') (AtLeast 10 (Cls (\<lambda>c. alnum c \<or> c = CHR ''-''))))),
      Cat (Lit ''AKIA'') (Rep 16 (Cls (\<lambda>c. digit c \<or> upper c)))]"

text \<open>Case-insensitive literals and classes; \<open>\s\<close> and \<open>\S\<close>.\<close>

fun LitI :: "string \<Rightarrow> rx" where
  "LitI [] = Eps"
| "LitI (c # s) = Cat (Cls (\<lambda>x. lower_char x = lower_char c)) (LitI s)"

definition space :: "char \<Rightarrow> bool" where
  "space c \<longleftrightarrow> code_of c \<in> {9, 10, 12, 13, 32}"

fun alts :: "rx list \<Rightarrow> rx" where
  "alts [] = Eps"
| "alts [r] = r"
| "alts (r # rs) = Alt r (alts rs)"

text \<open>A pattern of two groups, the second of which is replaced.\<close>

definition cmd_secret_patterns :: "(rx \<times> rx) list" where
  "cmd_secret_patterns =
     [(Cat (Lit ''-'') (Cat (Opt (Lit ''-'')) (Cat (Cls alnum) (Cat (Star (Cls (\<lambda>c. alnum c \<or> c = CHR ''-'')))
         (Cat (alts (List.map LitI [''key'', ''token'', ''secret'', ''password'', ''auth'']))
           (Cat (Star (Cls (\<lambda>c. alnum c \<or> c = CHR ''-''))) (Plus (Cls (\<lambda>c. c = CHR ''='' \<or> space c)))))))),
       Plus (Cls (\<lambda>c. \<not> space c))),
      (Cat (LitI ''authorization'') (Cat (Opt (Cls (\<lambda>c. code_of c = 34 \<or> code_of c = 39))) (Cat (Star (Cls space))
         (Cat (one_of '':='') (Cat (Star (Cls space)) (Cat (Alt (LitI ''bearer'') (LitI ''basic'')) (Plus (Cls space))))))),
       Plus (Cls (\<lambda>c. \<not> space c)))]"

definition env_secret_name :: rx where
  "env_secret_name = alts (List.map LitI [''key'', ''token'', ''secret'', ''password'', ''passwd'', ''credential''])"

text \<open>The preferred match of a pattern of two groups: what is left after the first, and after the second.\<close>

definition match_groups :: "rx \<times> rx \<Rightarrow> string \<Rightarrow> (string \<times> string) option" where
  "match_groups g s =
     (case concat (List.map (\<lambda>t. List.map (Pair t) (remainders (snd g) t)) (remainders (fst g) s)) of
        [] \<Rightarrow> None
      | (t1, t2) # ts \<Rightarrow> if length t2 < length s then Some (t1, t2) else None)"

function replace_second :: "rx \<times> rx \<Rightarrow> string \<Rightarrow> string \<Rightarrow> string" where
  "replace_second g ph [] = []"
| "replace_second g ph (c # s) =
     (case match_groups g (c # s) of
        None \<Rightarrow> c # replace_second g ph s
      | Some (t1, t2) \<Rightarrow> take (length (c # s) - length t1) (c # s) @ ph @ replace_second g ph t2)"
  by pat_completeness auto
termination
  by (relation "measure (\<lambda>(g, ph, s). length s)") (auto simp: match_groups_def split: list.splits if_splits)

section \<open>Redaction\<close>

definition scrub_tokens :: "string \<Rightarrow> string" where
  "scrub_tokens s = foldl (\<lambda>s r. replace_all r (\<lambda>_. redacted_placeholder) s) s secret_value_patterns"

text \<open>The first \<open>'='\<close> of an environment entry splits name and value.\<close>

definition redact_env :: "string \<Rightarrow> string option" where
  "redact_env s =
     (let name = takeWhile (\<lambda>c. c \<noteq> CHR ''='') s
      in if length name < length s \<and> name \<noteq> [] \<and> matches_somewhere env_secret_name name
         then Some (name @ ''='' @ redacted_placeholder) else None)"

definition redact_string :: "string \<Rightarrow> string \<Rightarrow> string" where
  "redact_string key s =
     (if equal_fold key ''proxy'' \<and> has_prefix s ''tailcat://'' then ''tailcat://'' @ redacted_placeholder
      else if to_lower key \<in> {''cmd'', ''cmdstop''}
      then scrub_tokens (foldl (\<lambda>s g. replace_second g redacted_placeholder s) s cmd_secret_patterns)
      else if to_lower key = ''env''
      then (case redact_env s of Some r \<Rightarrow> r | None \<Rightarrow> scrub_tokens s)
      else scrub_tokens s)"

definition redact_whole :: "yval \<Rightarrow> yval" where
  "redact_whole v =
     (case v of
        VMap es \<Rightarrow> VMap (List.map (\<lambda>(k, x). (k, VStr redacted_placeholder)) es)
      | VList vs \<Rightarrow> VList (List.map (\<lambda>x. VStr redacted_placeholder) vs)
      | VNull \<Rightarrow> VNull
      | _ \<Rightarrow> VStr redacted_placeholder)"

fun redact_value :: "string \<Rightarrow> yval \<Rightarrow> yval" where
  "redact_value key v =
     (if is_secret_key key then redact_whole v
      else case v of
        VMap es \<Rightarrow> VMap (List.map (\<lambda>(k, x). (k, redact_value k x)) es)
      | VList vs \<Rightarrow> VList (List.map (redact_value key) vs)
      | VStr s \<Rightarrow> VStr (redact_string key s)
      | _ \<Rightarrow> v)"

declare redact_value.simps [simp del]

text \<open>\<open>pruneEmpty\<close>: the pruned value and whether it is empty.\<close>

fun prune_empty :: "yval \<Rightarrow> yval \<times> bool" where
  "prune_empty (VMap es) =
     (let out = List.map (\<lambda>(k, x). (k, fst (prune_empty x))) (filter (\<lambda>(k, x). \<not> snd (prune_empty x)) es)
      in (VMap out, out = []))"
| "prune_empty (VList vs) =
     (let out = List.map (\<lambda>x. fst (prune_empty x)) (filter (\<lambda>x. \<not> snd (prune_empty x)) vs)
      in (VList out, out = []))"
| "prune_empty (VStr s) = (VStr s, s = [])"
| "prune_empty VNull = (VNull, True)"
| "prune_empty v = (v, False)"

fun navigate_config :: "string list \<Rightarrow> yval \<Rightarrow> yval option" where
  "navigate_config [] node = Some node"
| "navigate_config (k # ks) (VMap es) = (case map_of es k of None \<Rightarrow> None | Some v \<Rightarrow> navigate_config ks v)"
| "navigate_config (k # ks) node = None"

text \<open>\<open>RedactedYAML\<close>, between the decoded configuration and the value that is rendered.\<close>

definition redacted_config :: "yval \<Rightarrow> string \<Rightarrow> yval option" where
  "redacted_config tree path =
     map_option (\<lambda>node. fst (prune_empty (redact_value [] node)))
       (if path = [] then Some tree else navigate_config (split_at (CHR ''.'') path) tree)"

section \<open>No token is left\<close>

definition token_free :: "string \<Rightarrow> bool" where
  "token_free s \<longleftrightarrow> (\<forall>r \<in> set secret_value_patterns. \<not> matches_somewhere r s)"

lemma placeholder_shape: "redacted_placeholder = CHR ''['' # ''REDACTED'' @ [CHR '']'']"
  by (simp add: redacted_placeholder_def)

lemma patterns_apart:
  "list_all (\<lambda>r. \<not> may_have (CHR ''['') r \<and> \<not> may_have (CHR '']'') r \<and> \<not> matches_somewhere r redacted_placeholder)
     secret_value_patterns"
  by code_simp

lemma pattern_apart:
  assumes "r \<in> set secret_value_patterns"
  shows "\<not> may_have (CHR ''['') r" and "\<not> may_have (CHR '']'') r"
    and "\<not> matches_somewhere r (CHR ''['' # ''REDACTED'' @ [CHR '']''])"
  using patterns_apart assms unfolding list_all_iff placeholder_shape by blast+

lemma scrub_fold:
  assumes "set rs \<subseteq> set secret_value_patterns" and "r \<in> set rs \<or> \<not> matches_somewhere r s"
    and "r \<in> set secret_value_patterns"
  shows "\<not> matches_somewhere r (foldl (\<lambda>s r. replace_all r (\<lambda>_. redacted_placeholder) s) s rs)"
  using assms(1,2)
proof (induction rs arbitrary: s)
  case (Cons p rs)
  let ?s = "replace_all p (\<lambda>_. redacted_placeholder) s"
  have "r \<in> set rs \<or> \<not> matches_somewhere r ?s"
  proof (cases "p = r")
    case True
    then show ?thesis unfolding placeholder_shape using replace_all_gone [OF pattern_apart [OF assms(3)]] by blast
  next
    case False
    with Cons.prems(2) show ?thesis
      unfolding placeholder_shape using replace_all_keeps_gone [OF pattern_apart [OF assms(3)]] by auto
  qed
  with Cons show ?case by simp
qed simp

lemma scrub_token_free: "token_free (scrub_tokens s)"
  unfolding token_free_def scrub_tokens_def using scrub_fold [OF subset_refl] by blast

section \<open>Environment entries\<close>

lemma remainders_before:
  "\<not> may_have b r \<Longrightarrow> remainders r (n @ b # v) = List.map (\<lambda>t. t @ b # v) (remainders r n)"
proof (induction r n rule: remainders.induct)
  case (4 p q n)
  have "List.map (remainders q) (List.map (\<lambda>t. t @ b # v) (remainders p n)) =
      List.map (List.map (\<lambda>t. t @ b # v)) (List.map (remainders q) (remainders p n))"
    using 4(2,3) by auto
  with 4(1,3) show ?case by (simp del: map_map add: map_concat)
next
  case (6 p n)
  have eq: "remainders p (n @ b # v) = List.map (\<lambda>t. t @ b # v) (remainders p n)" using 6(1,3) by simp
  have "(if length (t @ b # v) < length (n @ b # v) then remainders (Star p) (t @ b # v) else []) =
      List.map (\<lambda>t. t @ b # v) (if length t < length n then remainders (Star p) t else [])" if "t \<in> set (remainders p n)" for t
    using 6(2) [OF that] 6(3) by simp
  then have "List.map (\<lambda>t. if length t < length (n @ b # v) then remainders (Star p) t else []) (remainders p (n @ b # v)) =
      List.map (List.map (\<lambda>t. t @ b # v)) (List.map (\<lambda>t. if length t < length n then remainders (Star p) t else []) (remainders p n))"
    unfolding eq by simp
  then show ?case by (simp add: remainders_Star [of p "n @ b # v"] remainders_Star [of p n] map_concat)
qed auto

lemma match_here_before:
  assumes "\<not> may_have b r"
  shows "match_here r (n @ b # v) = match_here r n"
  unfolding match_here_def remainders_before [OF assms] by (auto split: list.splits)

lemma replace_all_before:
  assumes "\<not> may_have b r"
  shows "replace_all r f (n @ b # v) = replace_all r f n @ b # replace_all r f v"
proof (induction "length n" arbitrary: n rule: less_induct)
  case less
  show ?case
  proof (cases n)
    case Nil
    then show ?thesis using match_here_before [OF assms, of "[]" v] by (simp add: match_here_def split: list.splits if_splits)
  next
    case (Cons c n')
    show ?thesis
    proof (cases "match_here r n")
      case None
      with match_here_before [OF assms, of n v] less [of n'] show ?thesis unfolding Cons by simp
    next
      case (Some u)
      obtain y where y: "n = u @ y" using match_here_sound [OF Some] by blast
      with match_here_nonempty [OF Some] less [of y] match_here_before [OF assms, of n v] Some
      have "replace_all r f (n @ b # v) = f u @ replace_all r f y @ b # replace_all r f v" "replace_all r f n = f u @ replace_all r f y"
        by (cases u; simp)+
      then show ?thesis by simp
    qed
  qed
qed

lemma replace_all_chars: "set (replace_all r (\<lambda>_. ph) s) \<subseteq> set s \<union> set ph"
proof (induction r "\<lambda>_::string. ph" s rule: replace_all.induct)
  case (2 r c s)
  show ?case
  proof (cases "match_here r (c # s)")
    case None
    with 2(1) [OF None] show ?thesis by auto
  next
    case (Some u)
    have "set (drop (length u) (c # s)) \<subseteq> set (c # s)" by (rule set_drop_subset)
    with 2(2) [OF Some] Some show ?thesis by (auto simp del: drop_Cons')
  qed
qed simp

lemma scrub_before:
  "list_all (\<lambda>r. \<not> may_have b r) rs \<Longrightarrow>
    foldl (\<lambda>s r. replace_all r (\<lambda>_. ph) s) (n @ b # v) rs =
      foldl (\<lambda>s r. replace_all r (\<lambda>_. ph) s) n rs @ b # foldl (\<lambda>s r. replace_all r (\<lambda>_. ph) s) v rs"
  by (induction rs arbitrary: n v) (simp_all add: replace_all_before)

lemma scrub_chars: "b \<notin> set ph \<Longrightarrow> b \<notin> set s \<Longrightarrow> b \<notin> set (foldl (\<lambda>s r. replace_all r (\<lambda>_. ph) s) s rs)"
proof (induction rs arbitrary: s)
  case (Cons r rs)
  with replace_all_chars [of r ph s] show ?case by auto
qed simp

lemma scrub_fold_keeps:
  assumes "\<not> may_have (CHR ''['') q" and "\<not> may_have (CHR '']'') q"
    and "\<not> matches_somewhere q (CHR ''['' # ''REDACTED'' @ [CHR '']''])" and "\<not> matches_somewhere q s"
  shows "\<not> matches_somewhere q (foldl (\<lambda>s r. replace_all r (\<lambda>_. redacted_placeholder) s) s rs)"
  using assms(4) unfolding placeholder_shape
  by (induction rs arbitrary: s) (simp_all only: foldl_Nil foldl_Cons replace_all_keeps_gone [OF assms(1-3)] not_False_eq_True)

lemmas scrub_keeps_gone = scrub_fold_keeps [of _ _ secret_value_patterns, folded placeholder_shape scrub_tokens_def]

lemma scrub_prefix: "foldl (\<lambda>s r. replace_all r (\<lambda>_. a # w) s) s rs = v @ z \<Longrightarrow> a \<notin> set v \<Longrightarrow> \<exists>z'. s = v @ z'"
proof (induction rs arbitrary: s)
  case (Cons r rs)
  then obtain z1 where "replace_all r (\<lambda>_. a # w) s = v @ z1" by auto
  with replace_all_prefix [OF this] Cons.prems(2) show ?case by blast
qed auto

text \<open>The entries \<open>NAME=value\<close> of an environment whose name, up to the first \<open>'='\<close>, is that of a credential.\<close>

definition secret_entry :: "string \<Rightarrow> bool" where
  "secret_entry s \<longleftrightarrow> (\<exists>name v. s = name @ ''='' @ v \<and> CHR ''='' \<notin> set name \<and> matches_somewhere env_secret_name name)"

lemma env_name_apart:
  "\<not> may_have (CHR ''['') env_secret_name" "\<not> may_have (CHR '']'') env_secret_name"
  "\<not> matches_somewhere env_secret_name redacted_placeholder" "\<not> matches_somewhere env_secret_name []"
  "CHR ''='' \<notin> set redacted_placeholder" "list_all (\<lambda>r. \<not> may_have (CHR ''='') r) secret_value_patterns"
  by code_simp+

lemma split_at_equals: "CHR ''='' \<in> set s \<Longrightarrow> \<exists>name v. s = name @ ''='' @ v \<and> CHR ''='' \<notin> set name"
  using split_list_first [of "CHR ''=''" s] by auto

lemma takeWhile_before: "b \<notin> set n \<Longrightarrow> takeWhile (\<lambda>c. c \<noteq> b) (n @ b # v) = n"
  by (induction n) auto

lemma scrub_no_entry:
  assumes "\<not> secret_entry s"
  shows "\<not> secret_entry (scrub_tokens s)"
proof (cases "CHR ''='' \<in> set s")
  case True
  then obtain n v where n: "s = n @ ''='' @ v" "CHR ''='' \<notin> set n" using split_at_equals by blast
  have s: "scrub_tokens s = scrub_tokens n @ CHR ''='' # scrub_tokens v"
    unfolding n(1) scrub_tokens_def using scrub_before [OF env_name_apart(6)] by simp
  have e: "CHR ''='' \<notin> set (scrub_tokens n)" unfolding scrub_tokens_def by (rule scrub_chars [OF env_name_apart(5) n(2)])
  have no: "\<not> matches_somewhere env_secret_name (scrub_tokens n)"
    using scrub_keeps_gone [OF env_name_apart(1-3)] assms n unfolding secret_entry_def by blast
  show ?thesis
  proof
    assume "secret_entry (scrub_tokens s)"
    then obtain n' v' where n': "scrub_tokens n @ CHR ''='' # scrub_tokens v = n' @ CHR ''='' # v'" "CHR ''='' \<notin> set n'"
        "matches_somewhere env_secret_name n'" unfolding s secret_entry_def by auto
    then have "n' = scrub_tokens n" using e takeWhile_before by metis
    with no n'(3) show False by simp
  qed
next
  case False
  then have "CHR ''='' \<notin> set (scrub_tokens s)" unfolding scrub_tokens_def by (rule scrub_chars [OF env_name_apart(5)])
  then show ?thesis by (auto simp: secret_entry_def)
qed

lemma redact_env_entry: "redact_env s = None \<Longrightarrow> \<not> secret_entry s"
proof
  assume none: "redact_env s = None" and "secret_entry s"
  then obtain n v where n: "s = n @ ''='' @ v" "CHR ''='' \<notin> set n" "matches_somewhere env_secret_name n"
    by (auto simp: secret_entry_def)
  then have "takeWhile (\<lambda>c. c \<noteq> CHR ''='') s = n" using takeWhile_before by simp
  moreover have "n \<noteq> []" using n(3) env_name_apart(4) by auto
  ultimately show False using none n(1,3) by (simp add: redact_env_def)
qed

text \<open>
  What may be shown at a key: under a credential's key, itself or a key above it, only the placeholder. Elsewhere an
  environment entry with a credential's name is shown without its value, any other string has no token in it, and the address of
  a tunnel is shown without its path.
\<close>

definition shown_string :: "string \<Rightarrow> string \<Rightarrow> bool" where
  "shown_string key s \<longleftrightarrow>
     (if to_lower key = ''env'' \<and> secret_entry s
      then (\<exists>name. CHR ''='' \<notin> set name \<and> s = name @ ''='' @ redacted_placeholder)
      else token_free s) \<and>
     (equal_fold key ''proxy'' \<and> has_prefix s ''tailcat://'' \<longrightarrow> s = ''tailcat://'' @ redacted_placeholder)"

fun shown :: "bool \<Rightarrow> string \<Rightarrow> yval \<Rightarrow> bool" where
  "shown sec key (VStr s) \<longleftrightarrow> (if sec then s = redacted_placeholder else shown_string key s)"
| "shown sec key (VList vs) \<longleftrightarrow> (\<forall>v \<in> set vs. shown sec key v)"
| "shown sec key (VMap es) \<longleftrightarrow> (\<forall>(k, v) \<in> set es. shown (sec \<or> is_secret_key k) k v)"
| "shown sec key VNull \<longleftrightarrow> True"
| "shown sec key v \<longleftrightarrow> \<not> sec"

lemma tailcat_token_free: "token_free (''tailcat://'' @ redacted_placeholder)"
  unfolding token_free_def by code_simp

lemma env_not_proxy: "to_lower key = ''env'' \<Longrightarrow> \<not> equal_fold key ''proxy''"
  by (auto simp: equal_fold_def to_lower_def)

lemma redact_env_shown:
  assumes "redact_env s = Some r" and "to_lower key = ''env''"
  shows "shown_string key r"
proof -
  let ?n = "takeWhile (\<lambda>c. c \<noteq> CHR ''='') s"
  have "CHR ''='' \<notin> set ?n" by (auto dest: set_takeWhileD)
  moreover have "matches_somewhere env_secret_name ?n" "r = ?n @ ''='' @ redacted_placeholder"
    using assms(1) by (auto simp: redact_env_def Let_def split: if_splits)
  ultimately show ?thesis using assms(2) env_not_proxy unfolding shown_string_def secret_entry_def by auto
qed

lemma scrub_tunnel: "has_prefix (scrub_tokens s) ''tailcat://'' \<Longrightarrow> has_prefix s ''tailcat://''"
  using scrub_prefix [of "CHR ''[''" "''REDACTED'' @ [CHR '']'']" s secret_value_patterns "''tailcat://''"]
  unfolding has_prefix_iff scrub_tokens_def placeholder_shape by auto

lemma redact_string_shown: "shown_string key (redact_string key s)"
proof -
  consider (tunnel) "equal_fold key ''proxy''" "has_prefix s ''tailcat://''"
    | (command) "\<not> (equal_fold key ''proxy'' \<and> has_prefix s ''tailcat://'')" "to_lower key \<in> {''cmd'', ''cmdstop''}"
    | (entry) r where "to_lower key = ''env''" "redact_env s = Some r"
    | (none) "\<not> (equal_fold key ''proxy'' \<and> has_prefix s ''tailcat://'')" "to_lower key \<notin> {''cmd'', ''cmdstop''}"
        "to_lower key = ''env'' \<longrightarrow> redact_env s = None"
    by (cases "redact_env s") auto
  then show ?thesis
  proof cases
    case tunnel
    have "\<not> secret_entry (''tailcat://'' @ redacted_placeholder)" by (auto simp: secret_entry_def redacted_placeholder_def Cons_eq_append_conv)
    with tunnel tailcat_token_free show ?thesis by (simp add: redact_string_def shown_string_def)
  next
    case command
    then have "to_lower key \<noteq> ''env''" "\<not> equal_fold key ''proxy''" by (auto simp: equal_fold_def to_lower_def)
    with command scrub_token_free show ?thesis by (simp add: redact_string_def shown_string_def)
  next
    case entry
    with env_not_proxy redact_env_shown [OF entry(2,1)] show ?thesis by (simp add: redact_string_def)
  next
    case none
    then have "redact_string key s = scrub_tokens s" by (auto simp: redact_string_def split: option.split)
    moreover have "\<not> (to_lower key = ''env'' \<and> secret_entry (scrub_tokens s))"
      using none(3) redact_env_entry scrub_no_entry by blast
    moreover have "\<not> (equal_fold key ''proxy'' \<and> has_prefix (scrub_tokens s) ''tailcat://'')" using none(1) scrub_tunnel by blast
    ultimately show ?thesis using scrub_token_free unfolding shown_string_def by metis
  qed
qed

lemma redact_whole_shown: "shown True key (redact_whole v)"
  by (cases v) (auto simp: redact_whole_def)

lemma redact_value_shown: "string_keyed v \<Longrightarrow> shown (is_secret_key key) key (redact_value key v)"
proof (induction key v rule: redact_value.induct)
  case (1 key v)
  show ?case
  proof (cases "is_secret_key key")
    case True
    then show ?thesis using redact_whole_shown by (subst redact_value.simps) simp
  next
    case False
    note eq = redact_value.simps [of key v]
    show ?thesis
    proof (cases v)
      case (VMap es)
      have "shown (is_secret_key k) k (redact_value k x)" if "(k, x) \<in> set es" for k x
        using 1(2) [OF False VMap that refl] 1(3) that VMap by auto
      then show ?thesis using False VMap unfolding eq by auto
    next
      case (VList vs)
      have "shown (is_secret_key key) key (redact_value key x)" if "x \<in> set vs" for x
        using 1(1) [OF False VList that] 1(3) that VList by auto
      then show ?thesis using False VList unfolding eq by auto
    qed (use False 1(3) redact_string_shown in \<open>simp_all add: redact_value.simps\<close>)
  qed
qed

lemma prune_shown: "shown sec key v \<Longrightarrow> shown sec key (fst (prune_empty v))"
  proof (induction v arbitrary: sec key rule: prune_empty.induct)
  case (1 es)
  have "shown (sec \<or> is_secret_key k) k (fst (prune_empty x))" if "(k, x) \<in> set es" "\<not> snd (prune_empty x)" for k x
    using 1(2) [of "(k, x)"] 1(3) that by auto
  then show ?case by (auto simp: Let_def)
next
  case (2 vs)
  then show ?case by (auto simp: Let_def)
qed simp_all

section \<open>Properties\<close>

definition demo_tree :: yval where
  "demo_tree = VMap [(''apiKeys'', VList [VStr ''k1'', VStr ''k2'']), (''port'', VInt 9), (''log'', VStr []),
     (''models'', VMap [(''m'', VMap [(''env'', VList [VStr ''HF_TOKEN=x'', VStr ''A=b'']), (''name'', VStr ''AKIA0123456789ABCDEF'')])])]"



text \<open>A path that ends below a credential's key is shown as if the key were not there.\<close>

lemma redacted_path_leaks: "redacted_config demo_tree ''apiKeys'' = Some (VList [VStr ''k1'', VStr ''k2''])"
  by code_simp

end
