(* ===== verification/Spec2Isabelle.thy ===== *)
theory Spec2Isabelle
  imports PeerRequest TailcatGate Watcher ProcessLoop History ByteCache Inflight EventBus ConfigMerge Macros Redact
begin

text \<open>
  A verification library for llama-swap, the proxy that starts, swaps and stops local inference servers on demand.
  It covers the code that decides which models run, the state machine that runs one of them, the way of a request
  from the socket to a model, and the loading of the configuration that all of them follow.

  \<^bold>\<open>How the program fits together.\<close> A request passes the multiplexer and a chain of middlewares
  (\<open>internal/server\<close>) and names a model. \<open>internal/server/selector.go\<close> may first
  replace a selector's name by one of its targets; \<open>internal/config\<close> resolves names and aliases. A router
  (\<open>internal/router/base.go\<close>) owns a scheduler (\<open>internal/router/scheduler/fifo.go\<close>) and feeds it the events
  of requests, swaps and processes from one goroutine. The scheduler asks an eviction policy (the interface
  \<open>Swapper\<close>) which running models have to stop for the target: the groups (\<open>group.go\<close>), the matrix
  (\<open>matrix.go\<close>, with the language and the solver of \<open>internal/matrix\<close>) or the capacity pools (\<open>capacity.go\<close>). A
  swap stops and starts processes (\<open>internal/process\<close>), each a run loop of its own. Their output goes to a log monitor
  (\<open>internal/logmon\<close>); requests and responses may be kept in a byte-bounded cache (\<open>internal/cache\<close>). A request
  for a model of another host goes to a peer (\<open>internal/router/peer.go\<close>).

  \<^bold>\<open>The theories.\<close>
  \<^item> \<open>Prelude\<close>: folds that may fail, counters over maps, machine arithmetic and list facts shared by all.
  \<^item> \<open>MatrixDsl\<close> (\<open>internal/matrix/dsl.go\<close>): tokens, the recursive-descent parser with its fuel, the grammar
    it decides, the printer it inverts.
  \<^item> \<open>MatrixCompile\<close>, \<open>BitMask\<close>, \<open>MatrixEval\<close>, \<open>MatrixSem\<close>, \<open>MatrixSolve\<close> (\<open>internal/matrix/program.go\<close>): \<open>Compile\<close>, the
    bit masks on 64-bit words, the evaluator with its frontier and witnesses, the meaning of a matrix as sets of
    combinations, \<open>Solve\<close> and \<open>CanContainAll\<close> against that meaning.
  \<^item> \<open>Swapper\<close>: the interface of the eviction policies as a locale, and the one-entry decision cache. \<open>GroupRouter\<close>,
    \<open>MatrixRouter\<close> and \<open>Capacity\<close> interpret it on the three policies, with their configuration's validation.
  \<^item> \<open>Fifo\<close> (\<open>internal/router/scheduler/fifo.go\<close>): every handler of the scheduler, its invariant, and the
    locale \<open>fifo_router\<close> of a scheduler over any lawful policy; \<open>FifoLedger\<close> balances the in-flight counters over a
    sequence of events; \<open>Routers\<close> interprets it on the three policies and
    states the properties of the run loop's histories (\<open>fifo_reach\<close>).
  \<^item> \<open>RouterSystem\<close> (\<open>base.go\<close>, \<open>pause.go\<close>): the scheduler together with the processes its swaps stop and start, the
    gate in front of a ready process, unload requests, pause and shutdown, as one system of interleaved steps.
  \<^item> \<open>ProcStatus\<close>, \<open>Launch\<close>, \<open>ProcessLoop\<close> (\<open>internal/process\<close>): the published status and the progress reports;
    \<open>doStart\<close>, the stop signal and \<open>killProcess\<close>; the run loop with one handler per case of its selects and per end of its
    waits. While \<open>killProcess\<close> waits the loop is in a phase of its own, so the state in between (stopping, with command and handler
    still set) is one that is reached, and what follows the exit is data of that phase (\<open>ending\<close>).
  \<^item> \<open>History\<close> (\<open>internal/ring\<close>, \<open>internal/logmon\<close>): two bounded histories behind one locale, and the log monitor.
  \<^item> \<open>ByteCache\<close> (\<open>internal/cache\<close>): the byte-bounded FIFO cache.
  \<^item> \<open>ConfigNames\<close> (\<open>internal/config/config.go\<close>, \<open>peer.go\<close>): name resolution and the peer namespace.
  \<^item> \<open>Selectors\<close> (\<open>internal/server/selector.go\<close>), \<open>SelectorConfig\<close> (\<open>internal/config/selectors.go\<close>): the selector
    middleware with its reservations; the validation that lets spillover targets run together.
  \<^item> \<open>EventBus\<close> (\<open>internal/event/event.go\<close>): the dispatcher through which the parts publish events to each other.
  \<^item> \<open>ConfigMerge\<close> (\<open>internal/config/merge.go\<close>): merging the configuration files as trees.
  \<^item> \<open>ValueTree\<close>, \<open>Regexps\<close>: decoded documents, and the regular expressions of the package \<open>regexp\<close> (leftmost match, the
    preference of a backtracking search). On them, \<open>Macros\<close> (\<open>macros.go\<close>): macros and ports; \<open>Redact\<close> (\<open>redact.go\<close>): what is
    shown of a configuration.
  \<^item> \<open>Http\<close> (\<open>internal/swaputil/httperror.go\<close>, \<open>internal/chain\<close>): requests, replies, handlers and chains of
    middleware. On it \<open>Cors\<close> (\<open>internal/server/cors.go\<close>, \<open>internal/config/security.go\<close>), \<open>RequestModel\<close>
    (\<open>internal/swaputil/http.go\<close>, \<open>internal/server/profiles.go\<close>): the model of a request and its replacement; \<open>Access\<close>
    (\<open>auth.go\<close>, \<open>contenttype.go\<close>, \<open>concurrency.go\<close>, \<open>ServeTailcatHTTP\<close>): who may ask for what.
  \<^item> \<open>ConfigLoad\<close>, \<open>LoadedConfig\<close> (\<open>internal/config/load.go\<close>, \<open>tailcat.go\<close>): from the decoded values to the
    configuration the program runs with. \<open>RouterBuild\<close> (\<open>server.New\<close>, \<open>NewGroup\<close>, \<open>NewMatrix\<close>,
    \<open>NewCapacity\<close>): its local router. \<open>PeerRouter\<close>, \<open>PeerServe\<close> (\<open>internal/router/peer.go\<close>, \<open>pause.go\<close>): the
    table of the peer router, its reverse proxies, and the dispatch between the local router and the peers.
  \<^item> \<open>Filters\<close> (\<open>internal/config/filters.go\<close>, \<open>internal/server/filters.go\<close>): the settings that rewrite request bodies.
    \<open>Routes\<close> (\<open>server.go\<close>, \<open>api.go\<close>, \<open>comfyui.go\<close>, \<open>audiocpp.go\<close>): the table of routes, the chains before each
    handler, the passthroughs. \<open>TailcatGate\<close> puts \<open>ServeTailcatHTTP\<close> in front of them; \<open>PeerRequest\<close> composes the whole
    way of a request to a peer, with the stages that have a state of their own forwarding it.
  \<^item> \<open>TokenUsage\<close>, \<open>Metrics\<close> (\<open>metrics.go\<close>, \<open>metrics_middleware.go\<close>, \<open>captures.go\<close>): the counts read from a
    response, the recorder around it, and what is kept of it.
  \<^item> \<open>Watcher\<close> (\<open>internal/watcher\<close>): the pollers that notice a changed configuration file or directory.
  \<^item> \<open>Inflight\<close> (\<open>internal/server/inflight.go\<close>): the tracker of requests in progress, its event queue and the
    view a subscriber keeps.

  \<^bold>\<open>State and operations.\<close> A Go struct is a record and a method a function from the state and the arguments to the
  new state and the result. Errors are datatypes carried by \<open>Inl\<close>. Goroutines are histories of steps: the
  scheduler and the run loop of a process own their state, so a step is one handler of their select. What the
  environment answers (the clock, an exit, the health endpoint, the outcome of a write) is an argument of the step. A
  Go map that is only looked up is a map; one that is iterated is an association list in some order, and the
  theorems hold for every order. Integers that may wrap are words or are wrapped by \<open>wrap64\<close>; the others are \<open>int\<close>.

  \<^bold>\<open>What is shown.\<close> Parser: termination, agreement with the grammar, round trip. Matrix: \<open>Compile\<close> accepts
  exactly the well-formed definitions and gives their meaning; \<open>Solve\<close> is optimal. Capacity: evictions fit and are
  optimal within the budget. Groups: the rules and the exclusion they give over histories. Scheduler: no panic, no
  busy eviction, conservation of requests, limits, order, progress, cancellation and shutdown. Process:
  lifecycle invariant, one answer per caller, no waiter stranded, every command signalled, waited for and released in order, deadlines, idle unloading.
  Router and processes together: the models that run fit in memory and a pause keeps models down, at every
  interleaving. Histories, cache, names, selectors: refinement of their abstract contents, bounds, balance of the
  reservations, and that validated spillover targets never evict each other under any of the routers. Requests in
  progress: a subscriber's view agrees with the tracker once the queue has drained, and one order of steps where it
  stays behind. Event dispatcher: delivery in order and no lost wake-up. Configuration: merging never overrides
  a setting, no macro is left unexpanded (outside mappings with keys that are not strings, into which the code does not look), ports are distinct and independent of map order, no credential is shown, a
  configuration that loads is in range and the models it names exist (the members of groups are not checked), the router built from it keeps the models that
  are up within what was configured, and a changed directory is never missed. Requests: keys guard every
  route but the open ones, a Tailcat client reaches only the models exposed to it, CORS headers name listed
  origins only, a pinned model replaces the one asked for, filters act parameter by parameter, the peer table
  agrees with the name resolution, a request for a peer's model reaches that peer alone, metering does not change a
  response without informational statuses, and captures hide credentials. Where the code falls short of what it means to do, a lemma beside the
  property shows it on an input: \<open>any_map_keeps_macro\<close>, \<open>redacted_path_leaks\<close>, \<open>final_status_swallowed\<close>, \<open>unknown_member_loads\<close>.

  \<^bold>\<open>Bounds and fuel.\<close> The parser's fuel is the number of tokens plus one and is proved enough. The capacity planner's search has the code's own budget of nodes, a parameter of the
  theorem on optimality; without budget left it keeps the best plan found. The health loop runs over the finite list of
  polls that happen; it returns \<open>None\<close> only where the list ends before the loop does. Everything else recurses
  structurally or has a termination proof.

  \<^bold>\<open>Not modelled.\<close> The handlers of the API that render state as JSON, server-sent events and the loading stream, the
  transports to peers, YAML decoding and encoding (documents are given as trees), hardware detection, the SQL store,
  the document search, the companion programs under \<open>cmd\<close>: input and output, or
  glue around third-party packages. The packages that parse and edit JSON, forms and URLs are arguments, with the
  laws a theorem needs as its hypotheses (the editor of JSON on objects without a repeated key only). The channels through which callers reach a run loop carry no state of their
  own; a caller is a number that is answered. The loops' own timers are events.
\<close>

end
